(* ===== verification/Prelude.thy ===== *)
theory Prelude
  imports Complex_Main "HOL-Library.Char_ord" "HOL-Library.List_Lexorder"
begin

text \<open>
  Shared material of the development: results with errors as values, the Python string
  operations the sources use (on code points below 256, which is what \<^typ>\<open>char\<close> holds),
  decimal numerals, \<^verbatim>\<open>range\<close>, and keyed tables, the shape every SQLite
  table of the program has (rows in insertion order, looked up by a key column).
  The collections \<open>result_simps\<close> and \<open>table_simps\<close> carry the component proofs.
\<close>

named_theorems result_simps "evaluation and inversion of results"
named_theorems table_simps "laws of keyed tables"

section \<open>Results\<close>

type_synonym ('e, 'a) result = "'e + 'a"

definition bind_result :: "('e, 'a) result \<Rightarrow> ('a \<Rightarrow> ('e, 'b) result) \<Rightarrow> ('e, 'b) result" where
  "bind_result r f = (case r of Inl e \<Rightarrow> Inl e | Inr x \<Rightarrow> f x)"

definition guard_result :: "bool \<Rightarrow> 'e \<Rightarrow> ('e, 'a) result \<Rightarrow> ('e, 'a) result" where
  \<comment> \<open>\<^verbatim>\<open>if not ok: raise e\<close>, then the rest\<close>
  "guard_result ok e rest = (if ok then rest else Inl e)"

lemma bind_result_Inl [simp]: "bind_result (Inl e) f = Inl e"
  by (simp add: bind_result_def)

lemma bind_result_Inr [simp]: "bind_result (Inr x) f = f x"
  by (simp add: bind_result_def)

lemma bind_result_Inr_iff [result_simps]:
  "bind_result r f = Inr y \<longleftrightarrow> (\<exists>x. r = Inr x \<and> f x = Inr y)"
  by (cases r) auto

lemma bind_result_Inl_iff [result_simps]:
  "bind_result r f = Inl e \<longleftrightarrow> r = Inl e \<or> (\<exists>x. r = Inr x \<and> f x = Inl e)"
  by (cases r) auto

lemma guard_result_True [simp]: "guard_result True e r = r"
  by (simp add: guard_result_def)

lemma guard_result_False [simp]: "guard_result False e r = Inl e"
  by (simp add: guard_result_def)

lemma guard_result_Inr_iff [result_simps]:
  "guard_result b e r = Inr y \<longleftrightarrow> b \<and> r = Inr y"
  by (cases b) auto

lemma guard_result_Inl_iff [result_simps]:
  "guard_result b e r = Inl e' \<longleftrightarrow> (\<not> b \<and> e' = e) \<or> (b \<and> r = Inl e')"
  by (cases b) auto

text \<open>\<open>map_result f xs\<close>: a list comprehension whose body may raise; the first error wins.\<close>

fun map_result :: "('a \<Rightarrow> ('e, 'b) result) \<Rightarrow> 'a list \<Rightarrow> ('e, 'b list) result" where
  "map_result f [] = Inr []"
| "map_result f (x # xs) =
     bind_result (f x) (\<lambda>y. bind_result (map_result f xs) (\<lambda>ys. Inr (y # ys)))"

lemma map_result_Inr_length: "map_result f xs = Inr ys \<Longrightarrow> length ys = length xs"
  by (induction xs arbitrary: ys) (auto simp: result_simps)

lemma map_result_Inr_set:
  "map_result f xs = Inr ys \<Longrightarrow> y \<in> set ys \<Longrightarrow> \<exists>x \<in> set xs. f x = Inr y"
  by (induction xs arbitrary: ys) (auto simp: result_simps)

lemma map_result_all: "(\<And>x. x \<in> set xs \<Longrightarrow> f x = Inr (g x)) \<Longrightarrow> map_result f xs = Inr (map g xs)"
  by (induction xs) auto

section \<open>Strings\<close>

definition is_space :: "char \<Rightarrow> bool" where
  \<comment> \<open>what \<^verbatim>\<open>str.strip\<close> and \<^verbatim>\<open>str.split\<close> call whitespace, below 256\<close>
  "is_space c = (let n = (of_char c :: nat) in
     (9 \<le> n \<and> n \<le> 13) \<or> (28 \<le> n \<and> n \<le> 32) \<or> n = 133 \<or> n = 160)"

definition py_strip :: "string \<Rightarrow> string" where
  "py_strip s = rev (dropWhile is_space (rev (dropWhile is_space s)))"

fun split_on :: "char \<Rightarrow> string \<Rightarrow> string list" where
  \<comment> \<open>\<^verbatim>\<open>s.split(c)\<close>: never empty, empty pieces kept\<close>
  "split_on c [] = [[]]"
| "split_on c (x # xs) =
     (if x = c then [] # split_on c xs
      else (case split_on c xs of [] \<Rightarrow> [[x]] | y # ys \<Rightarrow> (x # y) # ys))"

fun split_space :: "string \<Rightarrow> string \<Rightarrow> string list" where
  \<comment> \<open>the loop of \<^verbatim>\<open>s.split()\<close>; the first argument is the word being read\<close>
  "split_space acc [] = (if acc = [] then [] else [acc])"
| "split_space acc (x # xs) =
     (if is_space x then (if acc = [] then split_space [] xs else acc # split_space [] xs)
      else split_space (acc @ [x]) xs)"

definition py_split :: "string \<Rightarrow> string list" where
  "py_split s = split_space [] s"

fun join_with :: "string \<Rightarrow> string list \<Rightarrow> string" where
  "join_with sep [] = []"
| "join_with sep [s] = s"
| "join_with sep (s # t # ts) = s @ sep @ join_with sep (t # ts)"

definition starts_with :: "string \<Rightarrow> string \<Rightarrow> bool" where
  "starts_with p s = (take (length p) s = p)"

lemma starts_with_append [simp]: "starts_with p (p @ s)"
  by (simp add: starts_with_def)

lemma split_on_nonempty [simp]: "split_on c s \<noteq> []"
  by (induction s) (auto split: list.splits)

lemma split_on_no_sep: "c \<notin> set s \<Longrightarrow> split_on c s = [s]"
  by (induction s) auto

lemma split_on_append: "c \<notin> set s \<Longrightarrow> split_on c (s @ c # t) = s # split_on c t"
  by (induction s) auto

lemma split_on_join:
  "ss \<noteq> [] \<Longrightarrow> (\<And>s. s \<in> set ss \<Longrightarrow> c \<notin> set s) \<Longrightarrow> split_on c (join_with [c] ss) = ss"
  by (induction "[c]" ss rule: join_with.induct) (auto simp: split_on_no_sep split_on_append)

lemma split_on_pieces: "t \<in> set (split_on c s) \<Longrightarrow> c \<notin> set t"
  by (induction s arbitrary: t) (auto split: if_splits list.splits)

lemma join_split_on: "join_with [c] (split_on c s) = s"
proof (induction s)
  case (Cons x xs)
  show ?case
  proof (cases "split_on c xs")
    case (Cons y ys)
    with Cons.IH show ?thesis by (cases ys) auto
  qed simp
qed simp

lemma py_strip_no_space: "\<forall>c \<in> set s. \<not> is_space c \<Longrightarrow> py_strip s = s"
proof -
  assume all: "\<forall>c \<in> set s. \<not> is_space c"
  have "\<not> is_space (hd t)" if "t \<noteq> []" "set t = set s" for t
    using that all hd_in_set by blast
  then have "dropWhile is_space s = s" and "dropWhile is_space (rev s) = rev s"
    by (auto simp: dropWhile_eq_self_iff)
  then show ?thesis by (simp add: py_strip_def)
qed

section \<open>Decimal numerals and ranges\<close>

definition is_digit :: "char \<Rightarrow> bool" where
  "is_digit c = (let n = (of_char c :: nat) in 48 \<le> n \<and> n \<le> 57)"

definition digit_val :: "char \<Rightarrow> int" where
  "digit_val c = of_char c - 48"

definition digits_val :: "string \<Rightarrow> int" where
  \<comment> \<open>\<^verbatim>\<open>int(s)\<close> of a string of decimal digits\<close>
  "digits_val s = foldl (\<lambda>a c. a * 10 + digit_val c) 0 s"

definition digit_char :: "nat \<Rightarrow> char" where
  "digit_char n = char_of (48 + n)"

fun show_nat :: "nat \<Rightarrow> string" where
  \<comment> \<open>\<^verbatim>\<open>str(n)\<close> of a natural number\<close>
  "show_nat n = (if n < 10 then [digit_char n] else show_nat (n div 10) @ [digit_char (n mod 10)])"

declare show_nat.simps [simp del]

lemma of_char_digit_char: "d < 10 \<Longrightarrow> (of_char (digit_char d) :: nat) = 48 + d"
  by (simp add: digit_char_def)

lemma is_digit_digit_char: "d < 10 \<Longrightarrow> is_digit (digit_char d)"
  by (simp add: is_digit_def of_char_digit_char)

lemma digit_val_digit_char: "d < 10 \<Longrightarrow> digit_val (digit_char d) = int d"
proof -
  assume "d < 10"
  then have "(of_char (digit_char d) :: int) = int (48 + d)"
    using of_char_digit_char [of d] by (metis of_nat_of_char)
  then show ?thesis by (simp add: digit_val_def)
qed

lemma show_nat_digits: "\<forall>c \<in> set (show_nat n). is_digit c"
proof (induction n rule: show_nat.induct)
  case (1 n)
  then show ?case
    by (subst show_nat.simps) (auto simp: is_digit_digit_char)
qed

lemma show_nat_nonempty [simp]: "show_nat n \<noteq> []"
  by (subst show_nat.simps) simp

lemma digits_val_show_nat: "digits_val (show_nat n) = int n"
proof (induction n rule: show_nat.induct)
  case (1 n)
  show ?case
  proof (cases "n < 10")
    case True
    then show ?thesis
      by (subst show_nat.simps) (simp add: digits_val_def digit_val_digit_char)
  next
    case False
    with 1 have "digits_val (show_nat (n div 10)) = int (n div 10)" by simp
    with False show ?thesis
      by (subst show_nat.simps) (simp add: digits_val_def digit_val_digit_char, presburger)
  qed
qed

lemma digit_not_space: "is_digit c \<Longrightarrow> \<not> is_space c"
  by (auto simp: is_digit_def is_space_def Let_def)

function py_range :: "int \<Rightarrow> int \<Rightarrow> int \<Rightarrow> int list" where
  \<comment> \<open>\<^verbatim>\<open>range(a, b, s)\<close> for a positive step\<close>
  "py_range a b s = (if 0 < s \<and> a < b then a # py_range (a + s) b s else [])"
  by pat_completeness auto
termination
  by (relation "measure (\<lambda>(a, b, s). nat (b - a))") auto

declare py_range.simps [simp del]

lemma py_range_set:
  "0 < s \<Longrightarrow> x \<in> set (py_range a b s) \<longleftrightarrow> a \<le> x \<and> x < b \<and> (x - a) mod s = 0"
proof (induction a b s rule: py_range.induct)
  case (1 a b s)
  show ?case
  proof (cases "a < b")
    case False
    then show ?thesis by (subst py_range.simps) auto
  next
    case True
    have shift: "(x - (a + s)) mod s = (x - a) mod s"
      by (metis add_diff_cancel_left' diff_diff_eq minus_mod_self2)
    have "a \<le> x \<and> x < b \<and> (x - a) mod s = 0 \<longleftrightarrow>
      x = a \<or> (a + s \<le> x \<and> x < b \<and> (x - a) mod s = 0)"
    proof -
      have "a + s \<le> x" if "a < x" "(x - a) mod s = 0"
      proof (rule ccontr)
        assume "\<not> a + s \<le> x"
        with that(1) have "(x - a) mod s = x - a" by (simp add: mod_pos_pos_trivial)
        with that show False by simp
      qed
      with True \<open>0 < s\<close> show ?thesis by force
    qed
    moreover have "x \<in> set (py_range a b s) \<longleftrightarrow> x = a \<or> x \<in> set (py_range (a + s) b s)"
      using True \<open>0 < s\<close> by (subst py_range.simps) auto
    ultimately show ?thesis
      using 1 True shift by auto
  qed
qed

section \<open>Keyed tables\<close>

text \<open>
  A table is the list of its rows in insertion order. \<open>row_of key k rows\<close> is
  \<^verbatim>\<open>SELECT * ... WHERE key=?\<close>, \<open>row_update\<close> is
  \<^verbatim>\<open>UPDATE ... WHERE key=?\<close>, \<open>row_insert\<close> an \<^verbatim>\<open>INSERT\<close>
  into a table whose key column is the primary key (\<open>None\<close> is the IntegrityError).
\<close>

definition row_of :: "('r \<Rightarrow> 'k) \<Rightarrow> 'k \<Rightarrow> 'r list \<Rightarrow> 'r option" where
  "row_of key k rows = find (\<lambda>r. key r = k) rows"

definition row_update :: "('r \<Rightarrow> 'k) \<Rightarrow> 'k \<Rightarrow> ('r \<Rightarrow> 'r) \<Rightarrow> 'r list \<Rightarrow> 'r list" where
  "row_update key k f rows = map (\<lambda>r. if key r = k then f r else r) rows"

definition row_insert :: "('r \<Rightarrow> 'k) \<Rightarrow> 'r \<Rightarrow> 'r list \<Rightarrow> 'r list option" where
  "row_insert key r rows = (if key r \<in> key ` set rows then None else Some (rows @ [r]))"

definition row_delete :: "('r \<Rightarrow> 'k) \<Rightarrow> 'k \<Rightarrow> 'r list \<Rightarrow> 'r list" where
  "row_delete key k rows = filter (\<lambda>r. key r \<noteq> k) rows"

text \<open>
  The contract of a table: the key column is a function of the row, and the updates the
  program issues never write it.
\<close>

locale keyed_table =
  fixes key :: "'r \<Rightarrow> 'k"
    and writes :: "('r \<Rightarrow> 'r) \<Rightarrow> bool"
  assumes writes_key: "writes f \<Longrightarrow> key (f r) = key r"
begin

definition wf_table :: "'r list \<Rightarrow> bool" where
  "wf_table rows = distinct (map key rows)"

lemma row_of_key: "row_of key k rows = Some r \<Longrightarrow> key r = k \<and> r \<in> set rows"
  by (auto simp: row_of_def find_Some_iff)

lemma row_of_None: "row_of key k rows = None \<longleftrightarrow> k \<notin> key ` set rows"
  by (auto simp: row_of_def find_None_iff)

lemma wf_insert: "wf_table rows \<Longrightarrow> row_insert key r rows = Some rows' \<Longrightarrow> wf_table rows'"
  by (auto simp: wf_table_def row_insert_def split: if_splits)

lemma row_of_insert:
  "row_insert key r rows = Some rows' \<Longrightarrow>
   row_of key k rows' = (if k = key r then Some r else row_of key k rows)"
proof -
  assume "row_insert key r rows = Some rows'"
  then have fresh: "key r \<notin> key ` set rows" and rows': "rows' = rows @ [r]"
    by (auto simp: row_insert_def split: if_splits)
  have app: "find P (xs @ [r]) = (case find P xs of None \<Rightarrow> (if P r then Some r else None) | Some x \<Rightarrow> Some x)"
    for P xs by (induction xs) auto
  show ?thesis
  proof (cases "k = key r")
    case True
    with fresh have "row_of key k rows = None" by (simp add: row_of_None)
    with True show ?thesis by (simp add: rows' row_of_def app)
  next
    case False
    then show ?thesis by (auto simp: rows' row_of_def app split: option.splits)
  qed
qed

lemma row_insert_fresh: "row_insert key r rows = Some rows' \<Longrightarrow> row_of key (key r) rows = None"
  by (auto simp: row_insert_def row_of_None split: if_splits)

lemma map_key_update: "writes f \<Longrightarrow> map key (row_update key k f rows) = map key rows"
  by (induction rows) (auto simp: row_update_def writes_key)

lemma wf_update: "writes f \<Longrightarrow> wf_table (row_update key k f rows) = wf_table rows"
  by (simp add: wf_table_def map_key_update)

lemma row_of_update:
  "writes f \<Longrightarrow> row_of key k' (row_update key k f rows) =
     (if k' = k then map_option f (row_of key k' rows) else row_of key k' rows)"
  by (induction rows) (auto simp: row_update_def row_of_def writes_key)

lemma wf_delete: "wf_table rows \<Longrightarrow> wf_table (row_delete key k rows)"
  by (simp add: wf_table_def row_delete_def distinct_map_filter)

lemma row_of_delete:
  "row_of key k' (row_delete key k rows) = (if k' = k then None else row_of key k' rows)"
  by (induction rows) (auto simp: row_delete_def row_of_def)

lemmas table_laws = row_of_insert row_of_update row_of_delete wf_insert wf_update wf_delete

end

section \<open>State machines with terminal states\<close>

text \<open>
  The contract every lifecycle of the program shares: a step relation on states and a set of
  terminal states that no step leaves.
\<close>

locale lifecycle =
  fixes step :: "'s \<Rightarrow> 's \<Rightarrow> bool"
    and terminal :: "'s \<Rightarrow> bool"
  assumes terminal_stuck: "terminal s \<Longrightarrow> \<not> step s t"
begin

fun legal_run :: "'s \<Rightarrow> 's list \<Rightarrow> bool" where
  "legal_run s [] = True"
| "legal_run s (t # ts) = (step s t \<and> legal_run t ts)"

lemma terminal_absorbing: "step\<^sup>*\<^sup>* s t \<Longrightarrow> terminal s \<Longrightarrow> t = s"
  by (induction rule: converse_rtranclp_induct) (auto dest: terminal_stuck)

lemma legal_run_terminal: "legal_run s ts \<Longrightarrow> terminal s \<Longrightarrow> ts = []"
  by (cases ts) (auto dest: terminal_stuck)

lemma legal_run_terminal_last:
  "legal_run s ts \<Longrightarrow> i < length ts \<Longrightarrow> terminal (ts ! i) \<Longrightarrow> i = length ts - 1"
proof (induction ts arbitrary: s i)
  case (Cons t ts)
  show ?case
  proof (cases i)
    case 0
    with Cons.prems show ?thesis using legal_run_terminal by fastforce
  next
    case (Suc j)
    with Cons.prems have "j = length ts - 1" by (intro Cons.IH) auto
    with Suc Cons.prems show ?thesis by auto
  qed
qed simp

lemma legal_run_reaches: "legal_run s ts \<Longrightarrow> t \<in> set ts \<Longrightarrow> step\<^sup>+\<^sup>+ s t"
  by (induction ts arbitrary: s) (auto intro: tranclp.intros tranclp_into_tranclp2)

lemma legal_run_snoc:
  "legal_run s (ts @ [t]) \<longleftrightarrow> legal_run s ts \<and> step (last (s # ts)) t"
  by (induction ts arbitrary: s) auto

end

end
