(* ===== verification/Core_RateLimit.thy ===== *)
theory Core_RateLimit
  imports Prelude
begin

text \<open>
  The shared in-process rate limiter (\<^verbatim>\<open>src/src/msb_v3/core/rate_limit.py\<close>). The table
  is the \<^verbatim>\<open>defaultdict\<close> of the source as an association list, so that its length
  and the side effect of reading a missing key are visible. Clock readings are arguments.
  Times are exact rationals where the source has floats.
\<close>

type_synonym window_entry = "rat \<times> int"  \<comment> \<open>(window_start, count)\<close>
type_synonym window_table = "(string \<times> window_entry) list"

record request =
  rq_forwarded :: "string option"    \<comment> \<open>the x-forwarded-for header\<close>
  rq_client_host :: "string option"  \<comment> \<open>request.client.host, None without a client\<close>
  rq_host_header :: "string option"

text \<open>\<open>norm_ip\<close> is \<^verbatim>\<open>ipaddress.ip_address\<close>: None is its ValueError.\<close>

definition client_key :: "(string \<Rightarrow> string option) \<Rightarrow> request \<Rightarrow> string" where
  "client_key norm_ip rq =
     (case rq_forwarded rq of
        Some f \<Rightarrow> if f \<noteq> [] then py_strip (hd (split_on CHR '','' f))
          else (case rq_client_host rq of
                  None \<Rightarrow> (case rq_host_header rq of None \<Rightarrow> ''unknown'' | Some h \<Rightarrow> h)
                | Some h \<Rightarrow> (case norm_ip h of None \<Rightarrow> h | Some ip \<Rightarrow> ip))
      | None \<Rightarrow>
          (case rq_client_host rq of
             None \<Rightarrow> (case rq_host_header rq of None \<Rightarrow> ''unknown'' | Some h \<Rightarrow> h)
           | Some h \<Rightarrow> (case norm_ip h of None \<Rightarrow> h | Some ip \<Rightarrow> ip)))"

fun put :: "string \<Rightarrow> window_entry \<Rightarrow> window_table \<Rightarrow> window_table" where
  \<comment> \<open>\<^verbatim>\<open>self._table[key] = v\<close>\<close>
  "put k v [] = [(k, v)]"
| "put k v ((k', v') # t) = (if k' = k then (k, v) # t else (k', v') # put k v t)"

definition sweep :: "rat \<Rightarrow> window_table \<Rightarrow> window_table" where
  "sweep cutoff t = filter (\<lambda>(k, (ts, c)). \<not> ts < cutoff) t"

definition touch :: "string \<Rightarrow> window_table \<Rightarrow> window_entry \<times> window_table" where
  \<comment> \<open>reading a \<^verbatim>\<open>defaultdict\<close>: a missing key is inserted as (0.0, 0)\<close>
  "touch k t = (case map_of t k of Some e \<Rightarrow> (e, t) | None \<Rightarrow> ((0, 0), put k (0, 0) t))"

definition check :: "nat \<Rightarrow> rat \<Rightarrow> int \<Rightarrow> string \<Rightarrow> int \<Rightarrow> rat \<Rightarrow> rat \<Rightarrow> window_table \<Rightarrow> bool \<times> window_table" where
  "check max_keys window_s max_count key units t_sweep now t0 =
     (let t1 = (if map_of t0 key = None \<and> max_keys \<le> length t0
                then sweep (t_sweep - window_s) t0 else t0);
          ((window_start, count), t2) = touch key t1
      in if now - window_start > window_s
         then (if units > max_count then (False, put key (now, 0) t2)
               else (True, put key (now, units) t2))
         else if count + units > max_count then (False, t2)
         else (True, put key (window_start, count + units) t2))"

definition clear :: "window_table \<Rightarrow> window_table" where
  "clear t = []"

section \<open>The dictionary\<close>

lemma map_of_put [simp]: "map_of (put k v t) = (map_of t)(k \<mapsto> v)"
  by (induction k v t rule: put.induct) auto

lemma set_put: "set (put k v t) \<subseteq> insert (k, v) (set t)"
  by (induction k v t rule: put.induct) auto

lemma length_put: "length (put k v t) = length t + (if map_of t k = None then 1 else 0)"
  by (induction k v t rule: put.induct) auto

lemma touch_entry: "fst (touch k t) = (case map_of t k of Some e \<Rightarrow> e | None \<Rightarrow> (0, 0))"
  by (simp add: touch_def split: option.splits)

lemma touch_table: "map_of (snd (touch k t)) = (map_of t)(k \<mapsto> fst (touch k t))"
  by (auto simp: touch_def split: option.splits)

lemma map_of_sweep:
  "map_of (sweep c t) k = Some e \<Longrightarrow> distinct (map fst t) \<Longrightarrow> map_of t k = Some e \<and> \<not> fst e < c"
proof -
  assume some: "map_of (sweep c t) k = Some e" and dist: "distinct (map fst t)"
  from map_of_SomeD [OF some] have "(k, e) \<in> set t" and "\<not> fst e < c"
    by (auto simp: sweep_def)
  with dist show ?thesis by simp
qed

lemma distinct_put: "distinct (map fst t) \<Longrightarrow> distinct (map fst (put k v t))"
proof (induction k v t rule: put.induct)
  case (2 k v k' v' t)
  have "fst ` set (put k v t) \<subseteq> insert k (fst ` set t)" using set_put [of k v t] by force
  with 2 show ?case by auto
qed simp

lemma distinct_sweep: "distinct (map fst t) \<Longrightarrow> distinct (map fst (sweep c t))"
  by (simp add: sweep_def distinct_map_filter)

section \<open>What a check decides\<close>

definition entry_of :: "window_table \<Rightarrow> string \<Rightarrow> window_entry" where
  "entry_of t k = (case map_of t k of Some e \<Rightarrow> e | None \<Rightarrow> (0, 0))"

definition decide :: "rat \<Rightarrow> int \<Rightarrow> int \<Rightarrow> rat \<Rightarrow> window_entry \<Rightarrow> bool \<times> window_entry" where
  \<comment> \<open>the specification: one client's window, no table and no sweep\<close>
  "decide window_s max_count units now e =
     (if now - fst e > window_s
      then (if units > max_count then (False, (now, 0)) else (True, (now, units)))
      else if snd e + units > max_count then (False, e)
      else (True, (fst e, snd e + units)))"

definition swept :: "nat \<Rightarrow> rat \<Rightarrow> string \<Rightarrow> rat \<Rightarrow> window_table \<Rightarrow> window_table" where
  "swept max_keys window_s key t_sweep t =
     (if map_of t key = None \<and> max_keys \<le> length t then sweep (t_sweep - window_s) t else t)"

lemma check_decide:
  "check mk w mx k u ts now t =
     (let t1 = swept mk w k ts t; d = decide w mx u now (entry_of t1 k) in
      (fst d, if fst d \<or> now - fst (entry_of t1 k) > w then put k (snd d) (snd (touch k t1))
              else snd (touch k t1)))"
  by (auto simp: check_def swept_def decide_def entry_of_def touch_def Let_def split: option.splits)

lemma check_verdict:
  "fst (check mk w mx k u ts now t) = fst (decide w mx u now (entry_of (swept mk w k ts t) k))"
  by (simp add: check_decide Let_def)

lemma entry_of_touch [simp]: "entry_of (snd (touch k t)) k' = entry_of t k'"
  by (auto simp: entry_of_def touch_def split: option.splits)

lemma entry_of_put [simp]: "entry_of (put k e t) k' = (if k' = k then e else entry_of t k')"
  by (simp add: entry_of_def)

lemma check_entry:
  "entry_of (snd (check mk w mx k u ts now t)) k' =
     (if k' = k then snd (decide w mx u now (entry_of (swept mk w k ts t) k))
      else entry_of (swept mk w k ts t) k')"
  by (auto simp: check_decide Let_def decide_def)

lemma swept_same: "map_of t k \<noteq> None \<Longrightarrow> swept mk w k ts t = t"
  by (auto simp: swept_def)

lemma map_of_swept_key:
  assumes "distinct (map fst t)"
  shows "map_of (swept mk w k ts t) k = map_of t k"
proof (cases "map_of t k")
  case None
  then have "map_of (swept mk w k ts t) k = None"
    by (cases "map_of (swept mk w k ts t) k")
      (auto simp: swept_def split: if_splits dest: map_of_sweep [OF _ assms])
  with None show ?thesis by simp
qed (simp add: swept_same)

lemma entry_of_swept_key: "distinct (map fst t) \<Longrightarrow> entry_of (swept mk w k ts t) k = entry_of t k"
  by (simp add: entry_of_def map_of_swept_key)

lemma distinct_check:
  "distinct (map fst t) \<Longrightarrow> distinct (map fst (snd (check mk w mx k u ts now t)))"
  by (auto simp: check_def touch_def Let_def split: option.splits prod.splits
      intro!: distinct_put distinct_sweep)

section \<open>Runs of checks\<close>

text \<open>
  A check reads the window, the cap and the clock afresh each time, so every call of a run
  carries its own: \<open>c_sweep\<close> is the clock at the sweep, \<open>c_time\<close> the clock at the decision.
\<close>

record call =
  c_key :: string
  c_units :: int
  c_window :: rat
  c_cap :: int
  c_sweep :: rat
  c_time :: rat

definition check_call :: "nat \<Rightarrow> call \<Rightarrow> window_table \<Rightarrow> bool \<times> window_table" where
  "check_call mk c t = check mk (c_window c) (c_cap c) (c_key c) (c_units c) (c_sweep c) (c_time c) t"

fun run :: "nat \<Rightarrow> call list \<Rightarrow> window_table \<Rightarrow> bool list" where
  \<comment> \<open>the verdicts of a sequence of checks\<close>
  "run mk [] t = []"
| "run mk (c # cs) t = (let r = check_call mk c t in fst r # run mk cs (snd r))"

fun spec_run :: "call list \<Rightarrow> (string \<Rightarrow> window_entry) \<Rightarrow> bool list" where
  \<comment> \<open>the same without a table that is ever swept\<close>
  "spec_run [] m = []"
| "spec_run (c # cs) m =
     (let d = decide (c_window c) (c_cap c) (c_units c) (c_time c) (m (c_key c))
      in fst d # spec_run cs (m(c_key c := snd d)))"

text \<open>
  What a sweep may forget: the entries older than the horizon, the latest
  \<open>c_sweep c - c_window c\<close> so far. Such an entry must still count as expired at every later check.
\<close>

fun horizons_advance :: "rat \<Rightarrow> call list \<Rightarrow> bool" where
  "horizons_advance h [] = True"
| "horizons_advance h (c # cs) \<longleftrightarrow>
     c_sweep c \<le> c_time c \<and> h \<le> c_time c - c_window c \<and>
     horizons_advance (max h (c_sweep c - c_window c)) cs"

text \<open>It is enough that the clock does not step back and the window does not grow.\<close>

lemma shrinking_windows_advance:
  assumes "\<forall>c\<in>set cs. h \<le> c_time c - c_window c \<and> c_sweep c \<le> c_time c"
    and "sorted_wrt (\<lambda>c d. c_time c \<le> c_sweep d \<and> c_window d \<le> c_window c) cs"
  shows "horizons_advance h cs"
  using assms
proof (induction cs arbitrary: h)
  case (Cons c cs)
  have "max h (c_sweep c - c_window c) \<le> c_time d - c_window d" if "d \<in> set cs" for d
  proof -
    from that Cons.prems have "c_time c \<le> c_sweep d" "c_window d \<le> c_window c"
      "c_sweep d \<le> c_time d" "c_sweep c \<le> c_time c" "h \<le> c_time d - c_window d" by auto
    then show ?thesis by linarith
  qed
  with Cons.prems have "horizons_advance (max h (c_sweep c - c_window c)) cs"
    by (intro Cons.IH) auto
  with Cons.prems show ?case by simp
qed simp

text \<open>
  The simulation: the swept table and the unswept map agree on every client, or differ only
  on a client whose window started before the horizon.
\<close>

definition agree :: "rat \<Rightarrow> window_table \<Rightarrow> (string \<Rightarrow> window_entry) \<Rightarrow> bool" where
  "agree h t m \<longleftrightarrow> distinct (map fst t) \<and>
     (\<forall>k. entry_of t k = m k \<or> (fst (m k) < h \<and> entry_of t k = (0, 0)))"

lemma decide_expired:
  "H \<le> now - w \<Longrightarrow> fst e < H \<Longrightarrow> fst e' < H \<Longrightarrow> decide w mx u now e = decide w mx u now e'"
  by (simp add: decide_def)

lemma swept_entry:
  assumes dist: "distinct (map fst t)"
  shows "entry_of (swept mk w k ts t) k' = entry_of t k' \<or>
    (fst (entry_of t k') < ts - w \<and> entry_of (swept mk w k ts t) k' = (0, 0))"
proof (cases "map_of (swept mk w k ts t) k'")
  case (Some e)
  then have "map_of t k' = Some e"
    by (auto simp: swept_def split: if_splits dest: map_of_sweep [OF _ dist])
  with Some show ?thesis by (simp add: entry_of_def)
next
  case None
  then have zero: "entry_of (swept mk w k ts t) k' = (0, 0)" by (simp add: entry_of_def)
  show ?thesis
  proof (cases "map_of t k'")
    case None
    with zero show ?thesis by (simp add: entry_of_def)
  next
    case (Some e)
    with None have "swept mk w k ts t = sweep (ts - w) t" by (auto simp: swept_def split: if_splits)
    with None have "(k', e) \<notin> set (sweep (ts - w) t)"
      using distinct_sweep [OF dist] by (metis map_of_is_SomeI option.distinct(1))
    with map_of_SomeD [OF Some] have "fst e < ts - w" by (cases e) (auto simp: sweep_def)
    with Some zero show ?thesis by (simp add: entry_of_def)
  qed
qed

lemma agree_swept:
  assumes "agree h t m"
  shows "agree (max h (ts - w)) (swept mk w k ts t) m"
proof -
  from assms have dist: "distinct (map fst t)" by (simp add: agree_def)
  have "entry_of (swept mk w k ts t) k' = m k' \<or>
      (fst (m k') < max h (ts - w) \<and> entry_of (swept mk w k ts t) k' = (0, 0))" for k'
  proof -
    from assms have "entry_of t k' = m k' \<or> (fst (m k') < h \<and> entry_of t k' = (0, 0))"
      by (simp add: agree_def)
    with swept_entry [OF dist, of mk w k ts k'] show ?thesis by (elim disjE) (auto simp: less_max_iff_disj)
  qed
  with dist show ?thesis by (auto simp: agree_def swept_def distinct_sweep)
qed

lemma run_spec:
  assumes "agree h t m" and "horizons_advance h cs" and "0 < h"
  shows "run mk cs t = spec_run cs m"
  using assms
proof (induction cs arbitrary: t m h)
  case (Cons c cs)
  let ?w = "c_window c" and ?now = "c_time c" and ?k = "c_key c" and ?h = "max h (c_sweep c - c_window c)"
  let ?t1 = "swept mk ?w ?k (c_sweep c) t"
  let ?d = "decide ?w (c_cap c) (c_units c) ?now"
  from agree_swept [OF Cons.prems(1)] have ag: "agree ?h ?t1 m" .
  from Cons.prems have h: "?h \<le> ?now - ?w" "0 < ?h" "horizons_advance ?h cs" by auto
  from ag have "entry_of ?t1 ?k = m ?k \<or> (fst (m ?k) < ?h \<and> entry_of ?t1 ?k = (0, 0))"
    by (simp add: agree_def)
  then have d: "?d (entry_of ?t1 ?k) = ?d (m ?k)"
    using h(2) decide_expired [OF h(1), of "(0, 0)" "m ?k"] by (elim disjE) (simp_all only: fst_conv)
  have "agree ?h (snd (check_call mk c t)) (m(?k := snd (?d (m ?k))))"
    using ag Cons.prems(1) by (auto simp: agree_def check_call_def check_entry d distinct_check)
  from Cons.IH [OF this h(3) h(2)]
  have "run mk cs (snd (check_call mk c t)) = spec_run cs (m(?k := snd (?d (m ?k))))" .
  moreover have "fst (check_call mk c t) = fst (?d (m ?k))" by (simp add: check_call_def check_verdict d)
  ultimately show ?case by (simp add: Let_def del: fun_upd_apply)
qed simp

section \<open>Caps\<close>

definition within_cap :: "int \<Rightarrow> window_table \<Rightarrow> bool" where
  "within_cap mx t \<longleftrightarrow> (\<forall>k e. map_of t k = Some e \<longrightarrow> snd e \<le> mx)"

lemma within_cap_check:
  assumes "within_cap mx t" and "0 \<le> mx" and "distinct (map fst t)"
  shows "within_cap mx (snd (check mk w mx k u ts now t))"
proof -
  have "within_cap mx (swept mk w k ts t)"
    using assms by (auto simp: within_cap_def swept_def dest: map_of_sweep)
  then have ok: "snd (entry_of (swept mk w k ts t) k') \<le> mx" for k'
    using assms(2) by (auto simp: within_cap_def entry_of_def split: option.splits)
  have "snd (entry_of (snd (check mk w mx k u ts now t)) k') \<le> mx" for k'
    using ok assms(2) by (auto simp: check_entry decide_def)
  then show ?thesis by (metis entry_of_def option.simps(5) within_cap_def)
qed

text \<open>Fresh distinct clients: nothing is ever swept, and the table grows past \<open>max_keys\<close>.\<close>

lemma sweep_fresh: "(\<And>k e. (k, e) \<in> set t \<Longrightarrow> c \<le> fst e) \<Longrightarrow> sweep c t = t"
  by (fastforce simp: sweep_def filter_id_conv)

fun run_table :: "nat \<Rightarrow> call list \<Rightarrow> window_table \<Rightarrow> window_table" where
  "run_table mk [] t = t"
| "run_table mk (c # cs) t = run_table mk cs (snd (check_call mk c t))"

definition one_unit :: "rat \<Rightarrow> int \<Rightarrow> rat \<Rightarrow> string \<Rightarrow> call" where
  "one_unit w mx now k = \<lparr>c_key = k, c_units = 1, c_window = w, c_cap = mx, c_sweep = now, c_time = now\<rparr>"

lemma check_fresh_client:
  assumes new: "map_of t k = None" and fresh: "\<And>k e. (k, e) \<in> set t \<Longrightarrow> fst e = now"
    and w: "0 \<le> w" "w < now" and u: "u \<le> mx"
  shows "check mk w mx k u now now t = (True, t @ [(k, (now, u))])"
proof -
  have app: "put k v t = t @ [(k, v)]" for v
    using new by (induction t) (auto split: if_splits)
  have app2: "put k v (t @ [(k, v')]) = t @ [(k, v)]" for v v'
    using new by (induction t) (auto split: if_splits)
  have "swept mk w k now t = t"
    using fresh w(1) by (auto simp: swept_def intro!: sweep_fresh)
  with new w u app app2 show ?thesis
    by (simp add: check_decide Let_def touch_def entry_of_def decide_def)
qed

lemma run_table_fresh:
  assumes "distinct (map fst t @ ks)" and "\<And>k e. (k, e) \<in> set t \<Longrightarrow> fst e = now"
    and "0 \<le> w" "w < now" "1 \<le> mx"
  shows "length (run_table mk (map (one_unit w mx now) ks) t) = length t + length ks"
  using assms
proof (induction ks arbitrary: t)
  case (Cons k ks)
  have "map_of t k = None" using Cons.prems(1) by (simp add: map_of_eq_None_iff)
  then have "check mk w mx k 1 now now t = (True, t @ [(k, (now, 1))])"
    using Cons.prems by (intro check_fresh_client) auto
  then have "check_call mk (one_unit w mx now k) t = (True, t @ [(k, (now, 1))])"
    by (simp add: check_call_def one_unit_def)
  moreover have "length (run_table mk (map (one_unit w mx now) ks)
      (t @ [(k, (now, 1))])) = length (t @ [(k, (now, 1))]) + length ks"
    using Cons.prems by (intro Cons.IH) auto
  ultimately show ?case by simp
qed simp

section \<open>Properties\<close>

text \<open>C38: Sweeping the table never changes a verdict: from an empty table, whatever the client keys, the
  units, and the windows and caps that each check reads, the limiter decides exactly as one that keeps
  every client's window for ever - provided that what an earlier sweep forgot still counts as expired
  at every later check: within a check the clock does not step back, and each decision's clock reading
  less its window is positive and not before any earlier sweep's reading less that check's window. A
  clock that never steps back and a window that never grows are enough for that; a window that grows
  after a sweep is not.\<close>

theorem sweeping_never_changes_a_verdict:
  assumes "horizons_advance h cs" "0 < h"
  shows "run mk cs [] = spec_run cs (\<lambda>k. (0, 0))"
  by (rule run_spec [OF _ assms]) (simp add: agree_def entry_of_def)

text \<open>Two clients under a key limit of one: the second check sweeps the first client's expired window,
  the third starts it afresh under a smaller window and cap, the fourth is refused.\<close>

definition swept_calls :: "call list" where
  "swept_calls =
     [\<lparr>c_key = ''a'', c_units = 10, c_window = 60, c_cap = 10, c_sweep = 100, c_time = 100\<rparr>,
      \<lparr>c_key = ''b'', c_units = 1, c_window = 60, c_cap = 10, c_sweep = 161, c_time = 162\<rparr>,
      \<lparr>c_key = ''a'', c_units = 4, c_window = 30, c_cap = 5, c_sweep = 163, c_time = 163\<rparr>,
      \<lparr>c_key = ''a'', c_units = 4, c_window = 30, c_cap = 5, c_sweep = 164, c_time = 164\<rparr>]"

theorem sweeping_never_changes_a_verdict_witness:
  "run 1 swept_calls [] = spec_run swept_calls (\<lambda>k. (0, 0)) \<and>
   run 1 swept_calls [] = [True, True, True, False]"
proof -
  have "horizons_advance 1 swept_calls"
    by (rule shrinking_windows_advance) (simp_all add: swept_calls_def)
  from sweeping_never_changes_a_verdict [OF this] have "run 1 swept_calls [] = spec_run swept_calls (\<lambda>k. (0, 0))"
    by simp
  moreover have "spec_run swept_calls (\<lambda>k. (0, 0)) = [True, True, True, False]"
    by (simp add: swept_calls_def decide_def)
  ultimately show ?thesis by simp
qed

text \<open>A window that grows after a sweep does change a verdict: the sweep of a check that read a window of
  10 seconds forgets a spent allowance that the next check, reading 60 seconds, would have counted.\<close>

theorem growing_window_changes_a_verdict:
  "let cs = [\<lparr>c_key = ''a'', c_units = 10, c_window = 60, c_cap = 10, c_sweep = 100, c_time = 100\<rparr>,
             \<lparr>c_key = ''b'', c_units = 1, c_window = 10, c_cap = 10, c_sweep = 120, c_time = 120\<rparr>,
             \<lparr>c_key = ''a'', c_units = 10, c_window = 60, c_cap = 10, c_sweep = 121, c_time = 121\<rparr>]
   in run 1 cs [] = [True, True, True] \<and> spec_run cs (\<lambda>k. (0, 0)) = [True, True, False]"
  by (simp add: check_call_def check_def touch_def sweep_def decide_def Let_def)

definition burst_calls :: "call list" where
  "burst_calls =
     [\<lparr>c_key = ''a'', c_units = 1, c_window = 60, c_cap = 10, c_sweep = 100, c_time = 100\<rparr>,
      \<lparr>c_key = ''a'', c_units = 9, c_window = 60, c_cap = 10, c_sweep = 160, c_time = 160\<rparr>,
      \<lparr>c_key = ''a'', c_units = 10, c_window = 60, c_cap = 10, c_sweep = 161, c_time = 161\<rparr>]"

text \<open>The window is fixed, not sliding: under a cap of 10 units per 60 seconds one client is granted
  19 units within one second.\<close>

theorem limiter_window_is_not_sliding:
  "run 1000 burst_calls [] = [True, True, True]"
  by (simp add: burst_calls_def check_call_def check_def touch_def Let_def)

text \<open>The table is not bounded by its key limit: fresh clients within one window are all kept, however
  small the limit is.\<close>

theorem table_exceeds_max_keys:
  assumes "distinct ks" "0 \<le> w" "w < now" "1 \<le> mx"
  shows "length (run_table mk (map (one_unit w mx now) ks) []) = length ks"
  using run_table_fresh [of "[]" ks now w mx mk] assms by simp

theorem table_exceeds_max_keys_witness:
  "length (run_table 1 (map (one_unit 60 10 100) [''a'', ''b'', ''c'']) []) = length [''a'', ''b'', ''c'']"
  by (rule table_exceeds_max_keys) simp_all

end
