(* ===== verification/Cron_Parser.thy ===== *)
theory Cron_Parser
  imports Prelude
begin

text \<open>
  The cron expression parser and matcher (\<^verbatim>\<open>src/src/msb_v3/cron/parser.py\<close>).
  A naive \<^verbatim>\<open>datetime\<close> is its distance in microseconds from 0001-01-01T00:00; the
  calendar fields are read from it by the algorithm of the standard library's
  \<^verbatim>\<open>datetime._ord2ymd\<close>, and arithmetic past year 9999 is its OverflowError.
  Each \<^verbatim>\<open>raise ValueError\<close> of the source is a constructor of \<open>cron_error\<close>.
\<close>

datatype cron_error =
    EmptyElement string
  | InvalidElement string
  | OutOfBounds string
  | BadStep string
  | MatchesNothing string
  | FieldCount nat
  | DateOverflow  \<comment> \<open>OverflowError of datetime arithmetic\<close>

section \<open>Fields\<close>

definition field_ranges :: "(int \<times> int) list" where
  "field_ranges = [(0, 59), (0, 23), (1, 31), (1, 12), (0, 7)]"

datatype atom = Star | Num int

text \<open>
  The token expression: an atom, optionally \<^verbatim>\<open>-\<close> and an atom, optionally
  \<^verbatim>\<open>/\<close> and digits, and nothing after.
\<close>

fun read_atom :: "string \<Rightarrow> (atom \<times> string) option" where
  "read_atom s =
     (let ds = takeWhile is_digit s in
      if ds \<noteq> [] then Some (Num (digits_val ds), dropWhile is_digit s)
      else (case s of c # rest \<Rightarrow> if c = CHR ''*'' then Some (Star, rest) else None | [] \<Rightarrow> None))"

definition read_step :: "string \<Rightarrow> int option option" where
  \<comment> \<open>the tail of a token: empty, or a slash and digits to the end\<close>
  "read_step s =
     (case s of
        [] \<Rightarrow> Some None
      | c # rest \<Rightarrow>
          if c = CHR ''/'' \<and> rest \<noteq> [] \<and> list_all is_digit rest
          then Some (Some (digits_val rest)) else None)"

definition token_match :: "string \<Rightarrow> (atom \<times> atom option \<times> int option) option" where
  "token_match part =
     (case read_atom part of
        None \<Rightarrow> None
      | Some (start, rest) \<Rightarrow>
          (case rest of
             c # rest' \<Rightarrow>
               if c = CHR ''-''
               then (case read_atom rest' of
                       None \<Rightarrow> None
                     | Some (end, rest'') \<Rightarrow>
                         (case read_step rest'' of None \<Rightarrow> None | Some st \<Rightarrow> Some (start, Some end, st)))
               else (case read_step rest of None \<Rightarrow> None | Some st \<Rightarrow> Some (start, None, st))
           | [] \<Rightarrow> Some (start, None, None)))"

definition parse_element :: "int \<Rightarrow> int \<Rightarrow> string \<Rightarrow> string \<Rightarrow> (cron_error, int list) result" where
  \<comment> \<open>the loop body of \<^verbatim>\<open>_parse_field\<close>\<close>
  "parse_element lo hi expr part0 =
     (let part = py_strip part0 in
      if part = [] then Inl (EmptyElement expr)
      else (case token_match part of
          None \<Rightarrow> Inl (InvalidElement part)
        | Some (start_s, end_s, step_s) \<Rightarrow>
            (let start = (case start_s of Star \<Rightarrow> lo | Num n \<Rightarrow> n);
                 last = (case end_s of
                           None \<Rightarrow> (if start_s \<noteq> Star then start else hi)
                         | Some Star \<Rightarrow> hi
                         | Some (Num n) \<Rightarrow> n);
                 step = (case step_s of None \<Rightarrow> 1 | Some n \<Rightarrow> n)
             in if start < lo \<or> last > hi \<or> start > last then Inl (OutOfBounds part)
                else if step < 1 then Inl (BadStep part)
                else Inr (py_range start (last + 1) step))))"

definition sorted_set :: "int list \<Rightarrow> int list" where
  \<comment> \<open>\<^verbatim>\<open>sorted(set(values))\<close>\<close>
  "sorted_set xs = sort (remdups xs)"

definition parse_field :: "string \<Rightarrow> int \<Rightarrow> int \<Rightarrow> (cron_error, int list) result" where
  "parse_field expr lo hi =
     bind_result (map_result (parse_element lo hi expr) (split_on CHR '','' expr)) (\<lambda>vss.
       let values = concat vss in
       if values = [] then Inl (MatchesNothing expr) else Inr (sorted_set values))"

definition canonical_dow :: "int list \<Rightarrow> int list" where
  "canonical_dow vs = sorted_set (map (\<lambda>v. if v = 7 then 0 else v) vs)"

record cron_expr =
  minutes :: "int list"
  hours :: "int list"
  days_of_month :: "int list"
  months :: "int list"
  days_of_week :: "int list"
  raw :: string

definition parse :: "string \<Rightarrow> (cron_error, cron_expr) result" where
  "parse expr =
     (case py_split (py_strip expr) of
        [p0, p1, p2, p3, p4] \<Rightarrow>
          bind_result (parse_field p0 0 59) (\<lambda>mi.
          bind_result (parse_field p1 0 23) (\<lambda>ho.
          bind_result (parse_field p2 1 31) (\<lambda>dom.
          bind_result (parse_field p3 1 12) (\<lambda>mo.
          bind_result (parse_field p4 0 7) (\<lambda>dow0.
            Inr \<lparr>minutes = mi, hours = ho, days_of_month = dom, months = mo,
                 days_of_week = canonical_dow dow0, raw = py_strip expr\<rparr>)))))
      | parts \<Rightarrow> Inl (FieldCount (length parts)))"

section \<open>Datetimes\<close>

type_synonym datetime = int  \<comment> \<open>microseconds since 0001-01-01T00:00\<close>

definition minute_us :: int where "minute_us = 60000000"
definition day_us :: int where "day_us = 86400000000"
definition max_date :: datetime where
  \<comment> \<open>the first instant past 9999-12-31T23:59:59.999999\<close>
  "max_date = 3652059 * 86400000000"

definition is_leap :: "int \<Rightarrow> bool" where
  "is_leap y \<longleftrightarrow> y mod 4 = 0 \<and> (y mod 100 \<noteq> 0 \<or> y mod 400 = 0)"

definition month_lengths :: "int \<Rightarrow> int list" where
  "month_lengths y = [31, if is_leap y then 29 else 28, 31, 30, 31, 30, 31, 31, 30, 31, 30, 31]"

fun month_day :: "int list \<Rightarrow> int \<Rightarrow> int \<Rightarrow> int \<times> int" where
  \<comment> \<open>month number and day of month of a 0-based day of the year\<close>
  "month_day [] m n = (m, n + 1)"
| "month_day (l # ls) m n = (if n < l then (m, n + 1) else month_day ls (m + 1) (n - l))"

definition ymd :: "int \<Rightarrow> int \<times> int \<times> int" where
  \<comment> \<open>year, month, day of a 0-based day number\<close>
  "ymd n0 =
     (let n400 = n0 div 146097; n = n0 mod 146097;
          n100 = n div 36524; n = n mod 36524;
          n4 = n div 1461; n = n mod 1461;
          n1 = n div 365; n = n mod 365;
          y = n400 * 400 + n100 * 100 + n4 * 4 + n1 + 1
      in if n1 = 4 \<or> n100 = 4 then (y - 1, 12, 31)
         else (let (m, d) = month_day (month_lengths y) 1 n in (y, m, d)))"

definition dt_minute :: "datetime \<Rightarrow> int" where "dt_minute t = t div minute_us mod 60"
definition dt_hour :: "datetime \<Rightarrow> int" where "dt_hour t = t div (60 * minute_us) mod 24"
definition dt_month :: "datetime \<Rightarrow> int" where "dt_month t = fst (snd (ymd (t div day_us)))"
definition dt_day :: "datetime \<Rightarrow> int" where "dt_day t = snd (snd (ymd (t div day_us)))"
definition dt_weekday :: "datetime \<Rightarrow> int" where "dt_weekday t = t div day_us mod 7"

definition dt_add :: "datetime \<Rightarrow> int \<Rightarrow> (cron_error, datetime) result" where
  "dt_add t us = (if 0 \<le> t + us \<and> t + us < max_date then Inr (t + us) else Inl DateOverflow)"

definition floor_minute :: "datetime \<Rightarrow> datetime" where
  \<comment> \<open>\<^verbatim>\<open>dt.replace(second=0, microsecond=0)\<close>\<close>
  "floor_minute t = t - t mod minute_us"

section \<open>Matching\<close>

definition dom_restricted :: "cron_expr \<Rightarrow> bool" where
  "dom_restricted e \<longleftrightarrow> length (days_of_month e) < 31"

definition dow_restricted :: "cron_expr \<Rightarrow> bool" where
  "dow_restricted e \<longleftrightarrow> length (days_of_week e) < 7"

definition matches :: "cron_expr \<Rightarrow> datetime \<Rightarrow> bool" where
  "matches e dt =
     (if dt_minute dt \<notin> set (minutes e) then False
      else if dt_hour dt \<notin> set (hours e) then False
      else if dt_month dt \<notin> set (months e) then False
      else (let cron_dow = (dt_weekday dt + 1) mod 7;
                day_matches = (dt_day dt \<in> set (days_of_month e));
                dow_matches = (cron_dow \<in> set (days_of_week e))
            in if dom_restricted e \<and> dow_restricted e then day_matches \<or> dow_matches
               else if dom_restricted e then day_matches
               else if dow_restricted e then dow_matches
               else True))"

function scan :: "cron_expr \<Rightarrow> datetime \<Rightarrow> datetime \<Rightarrow> (cron_error, datetime option) result" where
  \<comment> \<open>the loop of \<^verbatim>\<open>next_after\<close>\<close>
  "scan e horizon probe =
     (if probe \<le> horizon
      then if matches e probe then Inr (Some probe)
           else if probe + minute_us < max_date then scan e horizon (probe + minute_us)
           else Inl DateOverflow
      else Inr None)"
  by pat_completeness auto
termination
  by (relation "measure (\<lambda>(e, horizon, probe). nat (horizon + 1 - probe))") (auto simp: minute_us_def)

declare scan.simps [simp del]

definition next_after :: "cron_expr \<Rightarrow> datetime \<Rightarrow> (cron_error, datetime option) result" where
  "next_after e dt =
     bind_result (dt_add (floor_minute dt) minute_us) (\<lambda>probe.
     bind_result (dt_add dt (365 * 5 * day_us)) (\<lambda>horizon.
       scan e horizon probe))"

definition next_run :: "cron_expr \<Rightarrow> datetime option \<Rightarrow> datetime \<Rightarrow> (cron_error, datetime option) result" where
  \<comment> \<open>the last argument is the clock; a datetime object is always truthy\<close>
  "next_run e after now = next_after e (case after of None \<Rightarrow> now | Some t \<Rightarrow> t)"

section \<open>Fields are sorted sets within their range\<close>

lemma sorted_set_simps [simp]:
  "set (sorted_set xs) = set xs" "sorted (sorted_set xs)" "distinct (sorted_set xs)"
  by (simp_all add: sorted_set_def)

lemma sorted_set_nonempty [simp]: "sorted_set xs = [] \<longleftrightarrow> xs = []"
  by (metis set_empty sorted_set_simps(1))

lemma parse_element_range:
  assumes "parse_element lo hi expr part = Inr vs"
  shows "vs \<noteq> [] \<and> (\<forall>v \<in> set vs. lo \<le> v \<and> v \<le> hi)"
proof -
  obtain a b s where vs: "vs = py_range a (b + 1) s" and r: "lo \<le> a" "b \<le> hi" "a \<le> b" "1 \<le> s"
    using assms by (auto simp: parse_element_def Let_def split: if_splits option.splits atom.splits)
  have "v \<in> set vs \<longleftrightarrow> a \<le> v \<and> v < b + 1 \<and> (v - a) mod s = 0" for v
    using r(4) by (simp add: vs py_range_set)
  with r show ?thesis by (metis diff_self mod_0 empty_iff list.set(1) order_trans order_refl
      zle_add1_eq_le)
qed

lemma parse_field_range:
  assumes "parse_field expr lo hi = Inr vs"
  shows "vs \<noteq> [] \<and> sorted vs \<and> distinct vs \<and> (\<forall>v \<in> set vs. lo \<le> v \<and> v \<le> hi)"
proof -
  obtain vss where vss: "map_result (parse_element lo hi expr) (split_on CHR '','' expr) = Inr vss"
    and vs: "concat vss \<noteq> []" "vs = sorted_set (concat vss)"
    using assms by (auto simp: parse_field_def result_simps Let_def split: if_splits)
  have "lo \<le> v \<and> v \<le> hi" if "v \<in> set vs" for v
  proof -
    from that vs obtain ws where "ws \<in> set vss" "v \<in> set ws" by auto
    with map_result_Inr_set [OF vss] parse_element_range show ?thesis by blast
  qed
  with vs show ?thesis by simp
qed

definition wf_expr :: "cron_expr \<Rightarrow> bool" where
  "wf_expr e \<longleftrightarrow>
     (\<forall>(vs, lo, hi) \<in> set [(minutes e, 0, 59), (hours e, 0, 23), (days_of_month e, 1, 31),
                            (months e, 1, 12), (days_of_week e, 0, 6)].
        vs \<noteq> [] \<and> sorted vs \<and> distinct vs \<and> (\<forall>v \<in> set vs. lo \<le> v \<and> v \<le> (hi :: int)))"

lemma canonical_dow_range:
  assumes "\<forall>v \<in> set vs. 0 \<le> v \<and> v \<le> 7" and "vs \<noteq> []"
  shows "canonical_dow vs \<noteq> [] \<and> sorted (canonical_dow vs) \<and> distinct (canonical_dow vs) \<and>
    (\<forall>v \<in> set (canonical_dow vs). 0 \<le> v \<and> v \<le> 6)"
  using assms by (fastforce simp: canonical_dow_def)

lemma parse_wf: "parse s = Inr e \<Longrightarrow> wf_expr e"
proof -
  assume "parse s = Inr e"
  then obtain p0 p1 p2 p3 p4 mi ho dom mo dow where
    f: "parse_field p0 0 59 = Inr mi" "parse_field p1 0 23 = Inr ho" "parse_field p2 1 31 = Inr dom"
       "parse_field p3 1 12 = Inr mo" "parse_field p4 0 7 = Inr dow" and
    e: "e = \<lparr>minutes = mi, hours = ho, days_of_month = dom, months = mo,
                 days_of_week = canonical_dow dow, raw = py_strip s\<rparr>"
    by (auto simp: parse_def result_simps split: list.splits)
  from parse_field_range [OF f(5)] have "canonical_dow dow \<noteq> [] \<and> sorted (canonical_dow dow) \<and>
      distinct (canonical_dow dow) \<and> (\<forall>v \<in> set (canonical_dow dow). 0 \<le> v \<and> v \<le> 6)"
    by (intro canonical_dow_range) auto
  with f [THEN parse_field_range] show ?thesis by (simp add: wf_expr_def e)
qed

section \<open>Explicit lists parse back\<close>

lemma takeWhile_digits: "\<forall>c \<in> set ds. is_digit c \<Longrightarrow> takeWhile is_digit ds = ds"
  by (simp add: takeWhile_eq_all_conv)

lemma parse_element_numeral:
  assumes "lo \<le> int n" "int n \<le> hi"
  shows "parse_element lo hi expr (show_nat n) = Inr [int n]"
proof -
  have d: "\<forall>c \<in> set (show_nat n). is_digit c" by (rule show_nat_digits)
  then have "py_strip (show_nat n) = show_nat n"
    by (intro py_strip_no_space) (auto dest: digit_not_space)
  moreover have "token_match (show_nat n) = Some (Num (int n), None, None)"
    using d by (simp add: token_match_def takeWhile_digits digits_val_show_nat dropWhile_eq_Nil_conv [THEN iffD2])
  ultimately show ?thesis
    using assms by (simp add: parse_element_def Let_def py_range.simps [of "int n" "int n + 1"]
        py_range.simps [of "int n + 1"])
qed

lemma parse_field_list:
  assumes "ns \<noteq> []" and "\<And>n. n \<in> set ns \<Longrightarrow> lo \<le> int n \<and> int n \<le> hi"
  shows "parse_field (join_with '','' (map show_nat ns)) lo hi = Inr (sorted_set (map int ns))"
proof -
  have "split_on CHR '','' (join_with '','' (map show_nat ns)) = map show_nat ns"
  proof (rule split_on_join)
    have "\<not> is_digit CHR '',''" by (simp add: is_digit_def)
    then show "CHR '','' \<notin> set s" if "s \<in> set (map show_nat ns)" for s
      using that show_nat_digits by auto
  qed (use assms(1) in simp)
  moreover have "map_result (parse_element lo hi expr) (map show_nat ns) = Inr (map (\<lambda>n. [int n]) ns)"
    for expr using assms(2)
    by (induction ns) (auto simp: parse_element_numeral)
  moreover have "concat (map (\<lambda>n. [int n]) ns) = map int ns" by (induction ns) auto
  ultimately show ?thesis using assms(1) by (simp add: parse_field_def Let_def)
qed

lemma parse_field_star: "lo \<le> hi \<Longrightarrow> parse_field ''*'' lo hi = Inr (sorted_set (py_range lo (hi + 1) 1))"
proof -
  assume "lo \<le> hi"
  have "split_on CHR '','' ''*'' = [''*'']" by simp
  moreover have "parse_element lo hi ''*'' ''*'' = Inr (py_range lo (hi + 1) 1)"
    using \<open>lo \<le> hi\<close>
    by (simp add: parse_element_def token_match_def py_strip_def is_space_def is_digit_def)
  moreover have "py_range lo (hi + 1) 1 \<noteq> []"
    using \<open>lo \<le> hi\<close> by (subst py_range.simps) simp
  ultimately show ?thesis by (simp add: parse_field_def Let_def)
qed

section \<open>The scan finds the first match\<close>

definition aligned :: "datetime \<Rightarrow> bool" where
  "aligned t \<longleftrightarrow> t mod minute_us = 0"

lemma aligned_gap: "aligned t \<Longrightarrow> aligned u \<Longrightarrow> t < u \<Longrightarrow> t + minute_us \<le> u"
proof -
  assume "aligned t" "aligned u" "t < u"
  then have "minute_us dvd u - t" by (auto simp: aligned_def)
  then have "minute_us \<le> u - t" using \<open>t < u\<close> by (intro zdvd_imp_le) auto
  then show ?thesis by simp
qed

lemma scan_Some:
  assumes "scan e horizon probe = Inr (Some t)" and "aligned probe"
  shows "matches e t \<and> aligned t \<and> probe \<le> t \<and> t \<le> horizon \<and>
    (\<forall>u. aligned u \<and> probe \<le> u \<and> u < t \<longrightarrow> \<not> matches e u)"
  using assms
proof (induction e horizon probe rule: scan.induct)
  case (1 e horizon probe)
  show ?case
  proof (cases "matches e probe")
    case True
    with 1 show ?thesis by (subst (asm) scan.simps) (auto split: if_splits)
  next
    case False
    with 1(2) have le: "probe \<le> horizon" and lt: "probe + minute_us < max_date"
      and rec: "scan e horizon (probe + minute_us) = Inr (Some t)"
      by (subst (asm) scan.simps, auto split: if_splits)+
    have "aligned (probe + minute_us)" using 1(3) by (simp add: aligned_def)
    from 1(1) [OF le False lt rec this]
    show ?thesis using False aligned_gap [OF 1(3)] by (force simp: minute_us_def)
  qed
qed

lemma scan_None:
  assumes "scan e horizon probe = Inr None" and "aligned probe"
  shows "\<forall>u. aligned u \<and> probe \<le> u \<and> u \<le> horizon \<longrightarrow> \<not> matches e u"
  using assms
proof (induction e horizon probe rule: scan.induct)
  case (1 e horizon probe)
  show ?case
  proof (cases "probe \<le> horizon")
    case True
    with 1(2) have no: "\<not> matches e probe" and lt: "probe + minute_us < max_date"
      and rec: "scan e horizon (probe + minute_us) = Inr None"
      by (subst (asm) scan.simps, auto split: if_splits)+
    have "aligned (probe + minute_us)" using 1(3) by (simp add: aligned_def)
    from 1(1) [OF True no lt rec this]
    show ?thesis using no aligned_gap [OF 1(3)] by force
  qed auto
qed

lemma scan_total:
  assumes "horizon + minute_us < max_date"
  shows "\<exists>r. scan e horizon probe = Inr r"
  using assms
proof (induction e horizon probe rule: scan.induct)
  case (1 e horizon probe)
  show ?case
  proof (cases "probe \<le> horizon \<and> \<not> matches e probe")
    case True
    with 1(2) have "probe + minute_us < max_date" by linarith
    with 1 True show ?thesis by (subst scan.simps) auto
  next
    case False
    then show ?thesis by (subst scan.simps) auto
  qed
qed

lemma floor_minute_props:
  "aligned (floor_minute t)" "floor_minute t \<le> t" "t < floor_minute t + minute_us"
  "0 \<le> t \<Longrightarrow> 0 \<le> floor_minute t"
proof -
  have pos: "0 < minute_us" by (simp add: minute_us_def)
  have eq: "floor_minute t = minute_us * (t div minute_us)"
    by (simp add: floor_minute_def minus_mod_eq_mult_div)
  show "aligned (floor_minute t)" by (simp add: eq aligned_def)
  show "floor_minute t \<le> t" "t < floor_minute t + minute_us"
    using pos_mod_sign [OF pos, of t] pos_mod_bound [OF pos, of t] by (auto simp: floor_minute_def)
  show "0 \<le> t \<Longrightarrow> 0 \<le> floor_minute t"
    using pos by (simp add: eq pos_imp_zdiv_nonneg_iff)
qed

lemma after_floor: "aligned u \<Longrightarrow> floor_minute t + minute_us \<le> u \<longleftrightarrow> t < u"
  using floor_minute_props [of t] aligned_gap [of "floor_minute t" u] by force

text \<open>Calendar sanity on the whole domain is by cases of \<open>ymd\<close>; a date has a month and a day in range.\<close>

lemma month_day_bounds:
  assumes "(m', d) = month_day ls m n" and "0 \<le> n" and "n < sum_list ls"
    and "\<forall>l \<in> set ls. l \<le> 31"
  shows "m \<le> m' \<and> m' < m + int (length ls) \<and> 1 \<le> d \<and> d \<le> 31"
  using assms
proof (induction ls m n rule: month_day.induct)
  case (2 l ls m n)
  show ?case
  proof (cases "n < l")
    case False
    with 2 have "m + 1 \<le> m' \<and> m' < m + 1 + int (length ls) \<and> 1 \<le> d \<and> d \<le> 31"
      by (intro "2.IH") auto
    then show ?thesis by simp
  qed (use 2 in auto)
qed simp

section \<open>Properties\<close>

text \<open>A parsed expression is well formed: every field is a non-empty, sorted, duplicate-free list within
  its range, day-of-week 7 folded into 0.\<close>

theorem parsed_expressions_are_well_formed:
  assumes "parse s = Inr e"
  shows "wf_expr e"
  by (rule parse_wf [OF assms])

definition feb_30 :: cron_expr where
  "feb_30 = \<lparr>minutes = [0], hours = [0], days_of_month = [30], months = [2],
     days_of_week = [0, 1, 2, 3, 4, 5, 6], raw = ''0 0 30 2 *''\<rparr>"

lemma parse_feb_30: "parse ''0 0 30 2 *'' = Inr feb_30"
  by code_simp

theorem parsed_expressions_are_well_formed_witness: "wf_expr feb_30"
  by (rule parsed_expressions_are_well_formed [OF parse_feb_30])

text \<open>An explicit comma list of numbers in range parses back to the sorted set of those numbers.\<close>

theorem number_lists_round_trip:
  assumes "ns \<noteq> []" "\<forall>n \<in> set ns. lo \<le> int n \<and> int n \<le> hi"
  shows "parse_field (join_with '','' (map show_nat ns)) lo hi = Inr (sorted_set (map int ns))"
  using assms by (intro parse_field_list) auto

theorem number_lists_round_trip_witness:
  "parse_field (join_with '','' (map show_nat [30, 5, 5])) 0 59 = Inr (sorted_set (map int [30, 5, 5]))"
  by (rule number_lists_round_trip) simp_all

text \<open>C39: The next run is the first one: a result of \<open>next_after\<close> is a whole minute strictly after the
  given time that matches, and no whole minute in between matches.\<close>

theorem next_after_is_the_first_match:
  assumes "next_after e t = Inr (Some u)"
  shows "matches e u \<and> aligned u \<and> t < u \<and> (\<forall>v. aligned v \<and> t < v \<and> v < u \<longrightarrow> \<not> matches e v)"
proof -
  from assms obtain hz where "scan e hz (floor_minute t + minute_us) = Inr (Some u)"
    by (auto simp: next_after_def result_simps dt_add_def split: if_splits)
  moreover have "aligned (floor_minute t + minute_us)"
    using floor_minute_props(1) [of t] by (simp add: aligned_def)
  ultimately show ?thesis using scan_Some after_floor by blast
qed

definition every_second_minute :: cron_expr where
  "every_second_minute = \<lparr>minutes = py_range 0 60 2, hours = py_range 0 24 1, days_of_month = py_range 1 32 1,
     months = py_range 1 13 1, days_of_week = py_range 0 7 1, raw = ''*/2 * * * *''\<rparr>"

lemma every_second_minute_next: "next_after every_second_minute 1 = Inr (Some 120000000)"
  by code_simp

theorem next_after_is_the_first_match_witness:
  "matches every_second_minute 120000000 \<and> aligned 120000000 \<and> \<not> matches every_second_minute 60000000"
  using next_after_is_the_first_match [OF every_second_minute_next] by (simp add: aligned_def minute_us_def)

text \<open>C40: The search ends with an answer: five years before the end of the calendar or earlier,
  \<open>next_after\<close> returns without an exception, and None means that no whole minute of the next 1825 days matches.\<close>

theorem next_after_is_total:
  assumes "0 \<le> t" "t + 365 * 5 * day_us + minute_us < max_date"
  shows "\<exists>r. next_after e t = Inr r \<and>
    (r = None \<longrightarrow> (\<forall>v. aligned v \<and> t < v \<and> v \<le> t + 365 * 5 * day_us \<longrightarrow> \<not> matches e v))"
proof -
  let ?hz = "t + 365 * 5 * day_us" and ?p = "floor_minute t + minute_us"
  have add: "dt_add (floor_minute t) minute_us = Inr ?p" "dt_add t (365 * 5 * day_us) = Inr ?hz"
    using assms floor_minute_props [of t] by (auto simp: dt_add_def minute_us_def day_us_def)
  from scan_total [OF assms(2)] obtain r where r: "scan e ?hz ?p = Inr r" by blast
  have al: "aligned ?p" using floor_minute_props(1) [of t] by (simp add: aligned_def)
  have "r = None \<longrightarrow> (\<forall>v. aligned v \<and> t < v \<and> v \<le> ?hz \<longrightarrow> \<not> matches e v)"
  proof
    assume "r = None"
    with scan_None [OF _ al] r have "\<forall>u. aligned u \<and> ?p \<le> u \<and> u \<le> ?hz \<longrightarrow> \<not> matches e u" by blast
    then show "\<forall>v. aligned v \<and> t < v \<and> v \<le> ?hz \<longrightarrow> \<not> matches e v" using after_floor by blast
  qed
  with add r show ?thesis by (intro exI [of _ r]) (simp add: next_after_def)
qed

theorem next_after_is_total_witness:
  "\<exists>r. next_after feb_30 0 = Inr r"
proof -
  have "(0 :: int) + 365 * 5 * day_us + minute_us < max_date"
    by (simp add: day_us_def minute_us_def max_date_def)
  from next_after_is_total [OF order_refl this, of feb_30] show ?thesis by blast
qed

lemma month_day_ge: "m \<le> fst (month_day ls m n)"
  by (induction ls m n rule: month_day.induct) auto

lemma february_unfold:
  "month_day (31 # l # rest) 1 k =
     (if k < 31 then (1, k + 1) else if k - 31 < l then (2, k - 31 + 1) else month_day rest 3 (k - 31 - l))"
  by simp

lemma month_lengths_shape:
  "month_lengths y = 31 # (if is_leap y then 29 else 28) # [31, 30, 31, 30, 31, 31, 30, 31, 30, 31]"
  by (simp add: month_lengths_def)

text \<open>A valid expression need not fire again: \<open>0 0 30 2 *\<close> parses and matches no time at all.\<close>

theorem valid_expression_that_never_fires:
  "parse ''0 0 30 2 *'' = Inr feb_30 \<and> (\<forall>t. \<not> matches feb_30 t)"
proof -
  have feb: "fst (month_day (month_lengths y) 1 k) = 2 \<Longrightarrow> snd (month_day (month_lengths y) 1 k) \<le> 29" for y k
    using month_day_ge [of 3 "[31, 30, 31, 30, 31, 31, 30, 31, 30, 31]" "k - 31 - (if is_leap y then 29 else 28)"]
    unfolding month_lengths_shape [of y] february_unfold by (simp split: if_splits)
  have "\<not> (fst (snd (ymd n)) = 2 \<and> snd (snd (ymd n)) = 30)" for n
  proof -
    obtain y k where "snd (ymd n) = (12, 31) \<or> snd (ymd n) = month_day (month_lengths y) 1 k"
      unfolding ymd_def Let_def by (simp only: case_prod_beta if_distrib [of snd] snd_conv prod.collapse) metis
    then show ?thesis using feb [of y k] by auto
  qed
  then have "\<not> matches feb_30 t" for t
    by (auto simp: matches_def feb_30_def dt_month_def dt_day_def dom_restricted_def dow_restricted_def)
  with parse_feb_30 show ?thesis by blast
qed

end
