(* ===== verification/Json.thy ===== *)
theory Json
  imports Prelude
begin

text \<open>
  The JSON values the ledger hashes and the part of Python's \<^verbatim>\<open>json\<close> module the
  sources rely on: \<^verbatim>\<open>dumps\<close> with \<^verbatim>\<open>ensure_ascii=False\<close>, with
  \<^verbatim>\<open>sort_keys\<close> and either pair of separators, and the round trip
  \<^verbatim>\<open>loads(dumps(v))\<close> a stored payload goes through. A finite float is
  represented by its \<^verbatim>\<open>repr\<close>; dictionary keys are strings or integers (the other
  key types \<^verbatim>\<open>json\<close> accepts are outside the model). The main result is that
  serialisation is injective: no two values have one text.
\<close>

datatype pyfloat = Fin string | NaN | Inf bool

datatype jkey = KStr string | KInt int

datatype json =
    JNull
  | JBool bool
  | JInt int
  | JFloat pyfloat
  | JStr string
  | JList "json list"
  | JObj "(jkey \<times> json) list"

abbreviation obj :: "(string \<times> json) list \<Rightarrow> json" where
  "obj kvs \<equiv> JObj (map (\<lambda>(k, v). (KStr k, v)) kvs)"

section \<open>Serialisation\<close>

definition show_int :: "int \<Rightarrow> string" where
  "show_int i = (if i < 0 then CHR ''-'' # show_nat (nat (- i)) else show_nat (nat i))"

definition hex_digit :: "nat \<Rightarrow> char" where
  "hex_digit n = (if n < 10 then char_of (48 + n) else char_of (87 + n))"

definition esc_char :: "char \<Rightarrow> string" where
  "esc_char c =
     (let n = (of_char c :: nat) in
      if n = 34 then [CHR 0x5C, CHR 0x22]
      else if n = 92 then [CHR 0x5C, CHR 0x5C]
      else if n = 10 then [CHR 0x5C, CHR ''n'']
      else if n = 13 then [CHR 0x5C, CHR ''r'']
      else if n = 9 then [CHR 0x5C, CHR ''t'']
      else if n = 12 then [CHR 0x5C, CHR ''f'']
      else if n = 8 then [CHR 0x5C, CHR ''b'']
      else if n < 32 then [CHR 0x5C, CHR ''u'', CHR ''0'', CHR ''0'', hex_digit (n div 16), hex_digit (n mod 16)]
      else [c])"

abbreviation quote :: char where "quote \<equiv> CHR 0x22"

definition show_str :: "string \<Rightarrow> string" where
  "show_str s = quote # concat (map esc_char s) @ [quote]"

fun key_text :: "jkey \<Rightarrow> string" where
  "key_text (KStr s) = s"
| "key_text (KInt i) = show_int i"

fun show_float :: "pyfloat \<Rightarrow> string" where
  "show_float (Fin r) = r"
| "show_float NaN = ''NaN''"
| "show_float (Inf False) = ''Infinity''"
| "show_float (Inf True) = ''-Infinity''"

fun dumps :: "string \<Rightarrow> string \<Rightarrow> json \<Rightarrow> string"
  and dumps_items :: "string \<Rightarrow> string \<Rightarrow> json list \<Rightarrow> string"
  and dumps_pairs :: "string \<Rightarrow> string \<Rightarrow> (jkey \<times> json) list \<Rightarrow> string" where
  "dumps isep ksep JNull = ''null''"
| "dumps isep ksep (JBool b) = (if b then ''true'' else ''false'')"
| "dumps isep ksep (JInt i) = show_int i"
| "dumps isep ksep (JFloat f) = show_float f"
| "dumps isep ksep (JStr s) = show_str s"
| "dumps isep ksep (JList vs) = CHR ''['' # dumps_items isep ksep vs @ '']''"
| "dumps isep ksep (JObj kvs) = CHR ''{'' # dumps_pairs isep ksep kvs @ ''}''"
| "dumps_items isep ksep [] = []"
| "dumps_items isep ksep [v] = dumps isep ksep v"
| "dumps_items isep ksep (v # w # ws) = dumps isep ksep v @ isep @ dumps_items isep ksep (w # ws)"
| "dumps_pairs isep ksep [] = []"
| "dumps_pairs isep ksep [(k, v)] = show_str (key_text k) @ ksep @ dumps isep ksep v"
| "dumps_pairs isep ksep ((k, v) # p # ps) =
     show_str (key_text k) @ ksep @ dumps isep ksep v @ isep @ dumps_pairs isep ksep (p # ps)"

text \<open>\<^verbatim>\<open>sort_keys\<close>: the items sorted by their keys as they are; keys of
  different types do not compare (TypeError).\<close>

fun key_le :: "jkey \<Rightarrow> jkey \<Rightarrow> bool" where
  "key_le (KStr s) (KStr t) = (s \<le> t)"
| "key_le (KInt i) (KInt j) = (i \<le> j)"
| "key_le _ _ = False"

fun is_str_key :: "jkey \<Rightarrow> bool" where
  "is_str_key (KStr _) = True"
| "is_str_key (KInt _) = False"

fun insert_item :: "(jkey \<times> json) \<Rightarrow> (jkey \<times> json) list \<Rightarrow> (jkey \<times> json) list" where
  "insert_item p [] = [p]"
| "insert_item p (q # qs) = (if key_le (fst p) (fst q) then p # q # qs else q # insert_item p qs)"

fun sort_keys :: "json \<Rightarrow> json" where
  "sort_keys (JList vs) = JList (map sort_keys vs)"
| "sort_keys (JObj kvs) = JObj (foldr insert_item (map (\<lambda>(k, v). (k, sort_keys v)) kvs) [])"
| "sort_keys v = v"

fun sortable :: "json \<Rightarrow> bool" where
  "sortable (JList vs) = list_all sortable vs"
| "sortable (JObj kvs) =
     ((list_all (\<lambda>(k, v). is_str_key k) kvs \<or> list_all (\<lambda>(k, v). \<not> is_str_key k) kvs) \<and>
      list_all (\<lambda>(k, v). sortable v) kvs)"
| "sortable v = True"

text \<open>\<open>reload\<close>: what \<^verbatim>\<open>json.loads(json.dumps(v))\<close> gives. Every key comes
  back as a string; of equal keys the first keeps its place and the last its value.\<close>

fun dict_put :: "jkey \<Rightarrow> json \<Rightarrow> (jkey \<times> json) list \<Rightarrow> (jkey \<times> json) list" where
  "dict_put k v [] = [(k, v)]"
| "dict_put k v ((k', v') # r) = (if k' = k then (k, v) # r else (k', v') # dict_put k v r)"

fun reload :: "json \<Rightarrow> json" where
  "reload (JList vs) = JList (map reload vs)"
| "reload (JObj kvs) = JObj (foldl (\<lambda>d (k, v). dict_put (KStr (key_text k)) v d) []
     (map (\<lambda>(k, v). (k, reload v)) kvs))"
| "reload v = v"

text \<open>Values the canonical formats accept: finite floats, string keys, no key twice.\<close>

definition float_repr :: "string \<Rightarrow> bool" where
  "float_repr r \<longleftrightarrow> r \<noteq> [] \<and> (is_digit (hd r) \<or> hd r = CHR ''-'') \<and>
     list_all (\<lambda>c. is_digit c \<or> c \<in> set ''.e+-'') r \<and> list_ex (\<lambda>c. c \<in> set ''.e'') r"

fun well_formed :: "json \<Rightarrow> bool" where
  "well_formed (JFloat f) = (case f of Fin r \<Rightarrow> float_repr r | _ \<Rightarrow> False)"
| "well_formed (JList vs) = list_all well_formed vs"
| "well_formed (JObj kvs) =
     (list_all (\<lambda>(k, v). is_str_key k) kvs \<and> distinct (map fst kvs) \<and>
      list_all (\<lambda>(k, v). well_formed v) kvs)"
| "well_formed v = True"

section \<open>Numbers and strings are read back\<close>

definition num_char :: "char \<Rightarrow> bool" where
  "num_char c \<longleftrightarrow> is_digit c \<or> c \<in> set ''.e+-''"

definition ends_number :: "string \<Rightarrow> bool" where
  "ends_number s \<longleftrightarrow> (case s of [] \<Rightarrow> True | c # _ \<Rightarrow> \<not> num_char c)"

lemma split_numbers:
  assumes "list_all num_char a" "list_all num_char b" "ends_number s" "ends_number t" "a @ s = b @ t"
  shows "a = b \<and> s = t"
  using assms
proof (induction a arbitrary: b)
  case Nil
  then show ?case by (cases b) (auto simp: ends_number_def)
next
  case (Cons x a)
  then show ?case by (cases b) (auto simp: ends_number_def)
qed

lemma show_int_chars: "list_all num_char (show_int i)"
  using show_nat_digits by (auto simp: show_int_def num_char_def list_all_iff)

lemma show_int_plain: "c \<in> set (show_int i) \<Longrightarrow> is_digit c \<or> c = CHR ''-''"
  using show_nat_digits by (auto simp: show_int_def split: if_splits)

lemma show_nat_inj: "show_nat m = show_nat n \<Longrightarrow> m = n"
  by (drule arg_cong [where f = digits_val]) (simp only: digits_val_show_nat of_nat_eq_iff)

lemma not_digit_simps [simp]:
  "\<not> is_digit CHR ''-''" "\<not> is_digit CHR ''.''" "\<not> is_digit CHR ''e''" "\<not> is_digit CHR ''+''"
  "\<not> is_digit CHR ''['' " "\<not> is_digit CHR ''{''" "\<not> is_digit CHR ''n''" "\<not> is_digit CHR ''t''"
  "\<not> is_digit CHR ''f''" "\<not> is_digit CHR '',''" "\<not> is_digit CHR '':''" "\<not> is_digit CHR '']''"
  "\<not> is_digit CHR ''}''" "\<not> is_digit quote" "\<not> is_digit CHR '' ''"
  by (simp_all add: is_digit_def)

lemma hd_show_nat: "is_digit (hd (show_nat n))"
  using show_nat_digits [of n] hd_in_set [OF show_nat_nonempty [of n]] by (rule bspec)

lemma show_int_inj: "show_int i = show_int j \<Longrightarrow> i = j"
proof -
  assume eq: "show_int i = show_int j"
  have neg: "CHR ''-'' # x \<noteq> show_nat n" for x n
    using hd_show_nat [of n] by (metis list.sel(1) not_digit_simps(1))
  show ?thesis
    using eq neg neg [symmetric] by (auto simp: show_int_def dest!: show_nat_inj split: if_splits)
qed

lemma show_int_not_float: "float_repr r \<Longrightarrow> show_int i \<noteq> r"
  using show_int_plain by (force simp: float_repr_def list_ex_iff)

lemma float_repr_chars: "float_repr r \<Longrightarrow> list_all num_char r"
  by (auto simp: float_repr_def num_char_def list_all_iff)

text \<open>A decoder for one escaped character shows the escapes are uniquely readable.\<close>

definition hex_val :: "char \<Rightarrow> nat" where
  "hex_val c = (let n = of_char c in if n < 58 then n - 48 else n - 87)"

definition unesc :: "string \<Rightarrow> (char \<times> string) option" where
  "unesc s =
     (case s of
        [] \<Rightarrow> None
      | c # r \<Rightarrow>
          if c = quote then None
          else if c = CHR 0x5C then
            (case r of
               [] \<Rightarrow> None
             | d # r' \<Rightarrow>
                 if d = quote \<or> d = CHR 0x5C then Some (d, r')
                 else if d = CHR ''n'' then Some (char_of (10::nat), r')
                 else if d = CHR ''r'' then Some (char_of (13::nat), r')
                 else if d = CHR ''t'' then Some (char_of (9::nat), r')
                 else if d = CHR ''f'' then Some (char_of (12::nat), r')
                 else if d = CHR ''b'' then Some (char_of (8::nat), r')
                 else (case r' of _ # _ # h # l # r'' \<Rightarrow> Some (char_of (16 * hex_val h + hex_val l), r'')
                               | _ \<Rightarrow> None))
          else Some (c, r))"

lemma char_of_quote: "char_of (34::nat) = CHR 0x22" "char_of (92::nat) = CHR 0x5C"
  by code_simp+

lemma hex_val_digit: "n < 16 \<Longrightarrow> hex_val (hex_digit n) = n"
  by (simp add: hex_val_def hex_digit_def Let_def)

lemma char_neq_of: "(of_char c :: nat) \<noteq> n \<Longrightarrow> n < 256 \<Longrightarrow> c \<noteq> char_of n"
  by auto

lemma unesc_esc: "unesc (esc_char c @ s) = Some (c, s)"
proof -
  define n where "n = (of_char c :: nat)"
  have c: "c = char_of n" by (simp add: n_def)
  consider "n = 34" | "n = 92" | "n = 10" | "n = 13" | "n = 9" | "n = 12" | "n = 8"
    | "n < 32" "n \<notin> {10, 13, 9, 12, 8}" | "32 \<le> n" "n \<noteq> 34" "n \<noteq> 92" by fastforce
  then show ?thesis
  proof cases
    case 1
    then have "c = CHR 0x22" by (simp add: c char_of_quote)
    then show ?thesis by (simp add: esc_char_def unesc_def)
  next
    case 2
    then have "c = CHR 0x5C" by (simp add: c char_of_quote)
    then show ?thesis by (simp add: esc_char_def unesc_def)
  next
    case 8
    have "hex_val (hex_digit (n div 16)) = n div 16" "hex_val (hex_digit (n mod 16)) = n mod 16"
      using 8 by (auto intro!: hex_val_digit)
    then have "16 * hex_val (hex_digit (n div 16)) + hex_val (hex_digit (n mod 16)) = n" by simp
    with 8 show ?thesis
      by (simp add: esc_char_def unesc_def n_def [symmetric] Let_def c)
  next
    case 9
    then have "c \<noteq> CHR 0x22" "c \<noteq> CHR 0x5C" by (auto simp: n_def)
    with 9 show ?thesis by (simp add: esc_char_def unesc_def n_def [symmetric] Let_def)
  qed (simp_all add: esc_char_def unesc_def n_def [symmetric] Let_def c)
qed

lemma unesc_quote [simp]: "unesc (quote # s) = None"
  by (simp add: unesc_def)

lemma split_escaped:
  "concat (map esc_char a) @ quote # s = concat (map esc_char b) @ quote # t \<Longrightarrow> a = b \<and> s = t"
proof (induction a arbitrary: b)
  case Nil
  show ?case
  proof (cases b)
    case (Cons d b')
    with Nil have "unesc (quote # s) = unesc (esc_char d @ concat (map esc_char b') @ quote # t)" by simp
    then show ?thesis by (simp add: unesc_esc)
  qed (use Nil in simp)
next
  case (Cons c a)
  show ?case
  proof (cases b)
    case Nil
    with Cons.prems have "unesc (quote # t) = unesc (esc_char c @ concat (map esc_char a) @ quote # s)" by simp
    then show ?thesis by (simp add: unesc_esc)
  next
    case (Cons d b')
    with Cons.prems have
      "unesc (esc_char c @ concat (map esc_char a) @ quote # s)
       = unesc (esc_char d @ concat (map esc_char b') @ quote # t)" by simp
    then have "c = d" and "concat (map esc_char a) @ quote # s = concat (map esc_char b') @ quote # t"
      by (simp_all add: unesc_esc)
    with Cons.IH Cons show ?thesis by simp
  qed
qed

lemma split_strings: "show_str a @ s = show_str b @ t \<Longrightarrow> a = b \<and> s = t"
  using split_escaped [of a s b t] by (simp add: show_str_def)

section \<open>Serialisation is injective\<close>

fun tag :: "json \<Rightarrow> nat" where
  "tag JNull = 0" | "tag (JBool b) = 1" | "tag (JInt i) = 2" | "tag (JFloat f) = 2"
| "tag (JStr s) = 3" | "tag (JList vs) = 4" | "tag (JObj kvs) = 5"

definition char_tag :: "char \<Rightarrow> nat" where
  "char_tag c = (if c = CHR ''n'' then 0 else if c = CHR ''t'' \<or> c = CHR ''f'' then 1
     else if c = quote then 3 else if c = CHR ''['' then 4 else if c = CHR ''{'' then 5 else 2)"

lemma char_tag_number: "is_digit c \<or> c = CHR ''-'' \<Longrightarrow> char_tag c = 2"
  by (auto simp: char_tag_def)

lemma show_int_head: "\<exists>c r. show_int i = c # r \<and> (is_digit c \<or> c = CHR ''-'')"
proof -
  obtain c r where "show_int i = c # r"
    using show_nat_nonempty by (cases "show_int i") (auto simp: show_int_def split: if_splits)
  with show_int_plain [of c i] show ?thesis by auto
qed

lemma dumps_head: "well_formed v \<Longrightarrow> \<exists>c r. dumps isep ksep v = c # r \<and> char_tag c = tag v"
proof (cases v)
  case (JInt i)
  with show_int_head [of i] char_tag_number show ?thesis by fastforce
next
  case (JFloat f)
  moreover assume "well_formed v"
  ultimately obtain r where "f = Fin r" "float_repr r" by (auto split: pyfloat.splits)
  with JFloat char_tag_number [of "hd r"] show ?thesis by (cases r) (auto simp: float_repr_def)
qed (auto simp: char_tag_def show_str_def)

lemma dumps_tag:
  assumes "dumps isep ksep v @ s = dumps isep ksep w @ t" "well_formed v" "well_formed w"
  shows "tag v = tag w"
  using dumps_head [OF assms(2), of isep ksep] dumps_head [OF assms(3), of isep ksep] assms(1) by auto

lemma ends_number_simps [simp]:
  "ends_number (CHR '','' # s)" "ends_number (CHR '']'' # s)" "ends_number (CHR ''}'' # s)" "ends_number []"
  by (simp_all add: ends_number_def num_char_def)

lemma split_dumps_number:
  assumes "dumps isep ksep v @ s = dumps isep ksep w @ t" "well_formed v" "well_formed w"
    and "tag v = 2" "ends_number s" "ends_number t"
  shows "v = w \<and> s = t"
proof -
  have num: "list_all num_char (dumps isep ksep x)" if "tag x = 2" "well_formed x" for x
    using that by (cases x) (auto simp: show_int_chars float_repr_chars split: pyfloat.splits)
  have tw: "tag w = 2" using dumps_tag assms by metis
  from split_numbers [OF num num assms(5,6,1)] assms tw
  have eq: "dumps isep ksep v = dumps isep ksep w" "s = t" by auto
  moreover have "v = w"
    using eq(1) assms tw show_int_inj show_int_not_float
    by (cases v; cases w) (auto split: pyfloat.splits)
  ultimately show ?thesis by simp
qed

lemma str_keys_eq: "is_str_key k \<Longrightarrow> is_str_key k' \<Longrightarrow> key_text k = key_text k' \<Longrightarrow> k = k'"
  by (cases k; cases k') auto

lemma char_tag_bracket: "char_tag c = tag v \<Longrightarrow> c = CHR '']'' \<Longrightarrow> tag v = 2"
  by (simp add: char_tag_def)

lemma dumps_number_head:
  "well_formed v \<Longrightarrow> tag v = 2 \<Longrightarrow> dumps isep ksep v = c # r \<Longrightarrow> c \<noteq> CHR '']''"
proof (cases v)
  case (JInt i)
  assume "dumps isep ksep v = c # r"
  with JInt show_int_head [of i] show ?thesis by auto
qed (auto simp: float_repr_def split: pyfloat.splits)

lemma dumps_items_head:
  assumes wf: "list_all well_formed ws" and ne: "ws \<noteq> []"
  shows "\<exists>c r. dumps_items isep ksep ws = c # r \<and> c \<noteq> CHR '']''"
proof -
  obtain w ws' where ws: "ws = w # ws'" using ne by (cases ws) auto
  with wf dumps_head [of w isep ksep] obtain c r where
    d: "dumps isep ksep w = c # r" "char_tag c = tag w" by auto
  with wf ws char_tag_bracket dumps_number_head have "c \<noteq> CHR '']''" by fastforce
  with d show ?thesis by (cases ws') (auto simp: ws)
qed

text \<open>
  The item separator starts with a comma, as in both formats of the ledger. The three statements are proved together, along the recursion of \<open>dumps\<close>.
\<close>

definition comma_sep :: "string \<Rightarrow> bool" where
  "comma_sep isep \<longleftrightarrow> isep \<noteq> [] \<and> hd isep = CHR '','' "

lemma comma_sepD:
  assumes "comma_sep isep"
  shows "ends_number (isep @ x)" "isep @ x \<noteq> CHR '']'' # y" "isep @ x \<noteq> CHR ''}'' # y"
    "CHR '']'' # y \<noteq> isep @ x" "CHR ''}'' # y \<noteq> isep @ x"
  using assms by (cases isep; simp add: comma_sep_def)+

lemma dumps_split:
  assumes "comma_sep isep"
  shows "dumps isep ksep v @ s = dumps isep ksep w @ t \<Longrightarrow> well_formed v \<Longrightarrow> well_formed w \<Longrightarrow>
      ends_number s \<Longrightarrow> ends_number t \<Longrightarrow> v = w \<and> s = t"
    and "dumps_items isep ksep vs @ CHR '']'' # s = dumps_items isep ksep ws @ CHR '']'' # t \<Longrightarrow>
      list_all well_formed vs \<Longrightarrow> list_all well_formed ws \<Longrightarrow> vs = ws \<and> s = t"
    and "dumps_pairs isep ksep ps @ CHR ''}'' # s = dumps_pairs isep ksep qs @ CHR ''}'' # t \<Longrightarrow>
      list_all (\<lambda>(k, v). is_str_key k \<and> well_formed v) ps \<Longrightarrow>
      list_all (\<lambda>(k, v). is_str_key k \<and> well_formed v) qs \<Longrightarrow> ps = qs \<and> s = t"
  using assms
proof (induction isep ksep v and isep ksep vs and isep ksep ps arbitrary: w s t and ws s t and qs s t
    rule: dumps_dumps_items_dumps_pairs.induct)
  case (1 isep ksep)
  then show ?case using dumps_tag [OF 1(1)] by (cases w) auto
next
  case (2 isep ksep b)
  then show ?case using dumps_tag [OF 2(1)] by (cases w) (auto split: if_splits)
next
  case (3 isep ksep i)
  then show ?case using split_dumps_number [of isep ksep "JInt i"] by simp
next
  case (4 isep ksep f)
  then show ?case using split_dumps_number [of isep ksep "JFloat f"] by simp
next
  case (5 isep ksep x)
  then show ?case using dumps_tag [OF 5(1)] by (cases w) (auto dest: split_strings)
next
  case (6 isep ksep vs)
  obtain ws where w: "w = JList ws" using dumps_tag [OF 6(2,3,4)] by (cases w) auto
  have eq: "dumps_items isep ksep vs @ CHR '']'' # s = dumps_items isep ksep ws @ CHR '']'' # t"
    using 6(2) by (simp only: w dumps.simps append_Cons append_assoc append_Nil list.inject)
  have "list_all well_formed vs" "list_all well_formed ws"
    using 6(3,4) by (simp_all only: w well_formed.simps)
  from "6.IH" [OF eq this 6(7)] show ?case by (simp only: w)
next
  case (7 isep ksep kvs)
  obtain qs where w: "w = JObj qs" using dumps_tag [OF 7(2,3,4)] by (cases w) auto
  have eq: "dumps_pairs isep ksep kvs @ CHR ''}'' # s = dumps_pairs isep ksep qs @ CHR ''}'' # t"
    using 7(2) by (simp only: w dumps.simps append_Cons append_assoc append_Nil list.inject)
  have "list_all (\<lambda>(k, v). is_str_key k \<and> well_formed v) kvs"
      "list_all (\<lambda>(k, v). is_str_key k \<and> well_formed v) qs"
    using 7(3,4) by (auto simp: w list_all_iff)
  from "7.IH" [OF eq this 7(7)] show ?case by (simp only: w)
next
  case (8 isep ksep)
  then show ?case using dumps_items_head [of ws isep ksep] by (cases "ws = []") auto
next
  case (9 isep ksep v)
  show ?case
  proof (cases ws)
    case Nil
    with "9.prems" dumps_items_head [of "[v]" isep ksep] show ?thesis by auto
  next
    case (Cons w ws')
    show ?thesis
    proof (cases ws')
      case Nil
      with Cons "9.prems" have "v = w \<and> CHR '']'' # s = CHR '']'' # t" by (intro "9.IH") (auto simp: comma_sepD)
      with Nil Cons show ?thesis by simp
    next
      case (Cons u us)
      with \<open>ws = w # ws'\<close> "9.prems" have "v = w \<and> CHR '']'' # s = isep @ dumps_items isep ksep ws' @ CHR '']'' # t"
        by (intro "9.IH") (auto simp: comma_sepD)
      with comma_sepD [OF "9.prems"(4)] show ?thesis by simp
    qed
  qed
next
  case (10 isep ksep v v2 vs)
  show ?case
  proof (cases ws)
    case Nil
    obtain c r where cr: "dumps_items isep ksep (v # v2 # vs) = c # r" "c \<noteq> CHR '']''"
      using dumps_items_head [of "v # v2 # vs" isep ksep] "10.prems"(2) by auto
    have "c # r @ CHR '']'' # s = CHR '']'' # t"
      using "10.prems"(1) unfolding Nil cr(1) by simp
    with cr(2) show ?thesis by simp
  next
    case (Cons w ws')
    show ?thesis
    proof (cases ws')
      case Nil
      with Cons "10.prems" have "v = w \<and> isep @ dumps_items isep ksep (v2 # vs) @ CHR '']'' # s = CHR '']'' # t"
        by (intro "10.IH"(1)) (auto simp: comma_sepD)
      with comma_sepD [OF "10.prems"(4)] show ?thesis by simp
    next
      case (Cons u us)
      with \<open>ws = w # ws'\<close> "10.prems" have "v = w \<and> isep @ dumps_items isep ksep (v2 # vs) @ CHR '']'' # s
          = isep @ dumps_items isep ksep ws' @ CHR '']'' # t"
        by (intro "10.IH"(1)) (auto simp: comma_sepD)
      moreover from this have "v2 # vs = ws' \<and> s = t"
        using "10.prems" \<open>ws = w # ws'\<close> by (intro "10.IH"(2)) (auto simp: comma_sepD)
      ultimately show ?thesis using \<open>ws = w # ws'\<close> by simp
    qed
  qed
next
  case (11 isep ksep)
  show ?case
  proof (cases qs)
    case (Cons q qs')
    obtain k v where "q = (k, v)" by (cases q)
    with "11.prems"(1) Cons show ?thesis by (cases qs') (auto simp: show_str_def)
  qed (use "11.prems"(1) in simp)
next
  case (12 isep ksep k v)
  show ?case
  proof (cases qs)
    case Nil
    with "12.prems" show ?thesis by (auto simp: show_str_def)
  next
    case (Cons q qs')
    obtain k2 v2 where q: "q = (k2, v2)" by (cases q)
    have keys: "k = k2" and rest: "dumps isep ksep v @ CHR ''}'' # s =
      dumps isep ksep v2 @ (case qs' of [] \<Rightarrow> CHR ''}'' # t | _ \<Rightarrow> isep @ dumps_pairs isep ksep qs' @ CHR ''}'' # t)"
      using "12.prems" Cons q split_strings [of "key_text k" _ "key_text k2"]
      by (cases qs'; auto dest!: split_strings str_keys_eq [rotated 2])+
    show ?thesis
      using "12.IH" [OF rest] "12.prems" Cons q keys by (auto simp: comma_sepD split: list.splits)
  qed
next
  case (13 isep ksep k v p ps)
  show ?case
  proof (cases qs)
    case Nil
    with "13.prems" show ?thesis by (auto simp: show_str_def)
  next
    case (Cons q qs')
    obtain k2 v2 where q: "q = (k2, v2)" by (cases q)
    have keys: "k = k2" and rest: "dumps isep ksep v @ isep @ dumps_pairs isep ksep (p # ps) @ CHR ''}'' # s =
      dumps isep ksep v2 @ (case qs' of [] \<Rightarrow> CHR ''}'' # t | _ \<Rightarrow> isep @ dumps_pairs isep ksep qs' @ CHR ''}'' # t)"
      using "13.prems" Cons q
      by (cases qs'; auto dest!: split_strings str_keys_eq [rotated 2])+
    have "v = v2 \<and> isep @ dumps_pairs isep ksep (p # ps) @ CHR ''}'' # s =
      (case qs' of [] \<Rightarrow> CHR ''}'' # t | _ \<Rightarrow> isep @ dumps_pairs isep ksep qs' @ CHR ''}'' # t)"
      using "13.prems" Cons q by (intro "13.IH"(1) [OF rest]) (auto simp: comma_sepD split: list.splits)
    moreover from this comma_sepD [OF "13.prems"(4)] have "qs' \<noteq> []" by auto
    ultimately have vv: "v = v2" and
      tl: "dumps_pairs isep ksep (p # ps) @ CHR ''}'' # s = dumps_pairs isep ksep qs' @ CHR ''}'' # t"
      by (auto simp: comma_sepD split: list.splits)
    have "p # ps = qs' \<and> s = t"
      using "13.prems" Cons q by (intro "13.IH"(2) [OF tl]) (auto simp: comma_sepD)
    with vv keys Cons q show ?thesis by simp
  qed
qed

theorem dumps_inj:
  assumes "dumps isep ksep v = dumps isep ksep w" and "comma_sep isep"
    and "well_formed v" "well_formed w"
  shows "v = w"
  using dumps_split(1) [of isep ksep v "[]" w "[]"] assms by simp

section \<open>Sorting keys and reloading\<close>

lemma set_insert_item [simp]: "set (insert_item p qs) = insert p (set qs)"
  by (induction p qs rule: insert_item.induct) auto

lemma set_sort_items: "set (foldr insert_item ps []) = set ps"
  by (induction ps) auto

lemma length_insert_item [simp]: "length (insert_item p qs) = Suc (length qs)"
  by (induction p qs rule: insert_item.induct) auto

lemma distinct_sort_items:
  "distinct (map fst ps) \<Longrightarrow> distinct (map fst (foldr insert_item ps []))"
proof (induction ps)
  case (Cons p ps)
  have "distinct (map fst (insert_item p qs)) \<longleftrightarrow> fst p \<notin> fst ` set qs \<and> distinct (map fst qs)" for qs
    by (induction p qs rule: insert_item.induct) auto
  with Cons show ?case by (simp add: set_sort_items)
qed simp

lemma well_formed_sort_keys: "well_formed v \<Longrightarrow> well_formed (sort_keys v)"
proof (induction v rule: sort_keys.induct)
  case (2 kvs)
  have map_fst: "map fst (map (\<lambda>(k, v). (k, sort_keys v)) kvs) = map fst kvs"
    by (induction kvs) auto
  have "distinct (map fst (foldr insert_item (map (\<lambda>(k, v). (k, sort_keys v)) kvs) []))"
    using 2 by (intro distinct_sort_items) (simp only: map_fst well_formed.simps)
  with 2 show ?case by (fastforce simp: list_all_iff set_sort_items)
qed (auto simp: list_all_iff)

lemma well_formed_sortable: "well_formed v \<Longrightarrow> sortable v"
  by (induction v rule: sort_keys.induct) (auto simp: list_all_iff)

lemma dict_put_new: "k \<notin> fst ` set d \<Longrightarrow> dict_put k v d = d @ [(k, v)]"
  by (induction k v d rule: dict_put.induct) auto

lemma reload_pairs:
  assumes "list_all (\<lambda>(k, v). is_str_key k) kvs" "distinct (map fst (d @ kvs))"
  shows "foldl (\<lambda>d (k, v). dict_put (KStr (key_text k)) v d) d kvs = d @ kvs"
  using assms
proof (induction kvs arbitrary: d)
  case (Cons p kvs)
  obtain k v where p: "p = (k, v)" by (cases p)
  with Cons.prems have "KStr (key_text k) = k" by (cases k) auto
  moreover have "dict_put k v d = d @ [(k, v)]" using Cons.prems p by (intro dict_put_new) auto
  moreover have "foldl (\<lambda>d (k, v). dict_put (KStr (key_text k)) v d) (d @ [(k, v)]) kvs = (d @ [(k, v)]) @ kvs"
    using Cons.prems p by (intro Cons.IH) auto
  ultimately show ?case using p by simp
qed simp

lemma reload_well_formed: "well_formed v \<Longrightarrow> reload v = v"
proof (induction v rule: reload.induct)
  case (1 vs)
  then have "map reload vs = vs" by (auto simp: list_all_iff intro: map_idI)
  then show ?case by simp
next
  case (2 kvs)
  have "map (\<lambda>(k, v). (k, reload v)) kvs = kvs"
    using 2 by (auto simp: list_all_iff intro!: map_idI)
  with 2 reload_pairs [of kvs "[]"] show ?case by simp
qed auto

section \<open>Sorting is canonical\<close>

definition skey :: "jkey \<times> json \<Rightarrow> string" where
  "skey p = key_text (fst p)"

lemma sorted_insert_item:
  assumes "is_str_key (fst p)" "\<forall>q \<in> set qs. is_str_key (fst q)" "sorted (map skey qs)"
  shows "sorted (map skey (insert_item p qs))"
  using assms
proof (induction p qs rule: insert_item.induct)
  case (2 p q qs)
  have le: "key_le (fst p) (fst q) \<longleftrightarrow> skey p \<le> skey q" if "is_str_key (fst p)" "is_str_key (fst q)" for p q
    using that by (cases "fst p"; cases "fst q") (auto simp: skey_def)
  from 2 le show ?case by (auto simp: sorted_wrt_map)
qed simp

lemma sorted_sort_items:
  "\<forall>p \<in> set ps. is_str_key (fst p) \<Longrightarrow> sorted (map skey (foldr insert_item ps []))"
  by (induction ps) (auto simp: set_sort_items intro!: sorted_insert_item)

lemma sort_items_unique:
  assumes "set ps = set qs" "\<forall>p \<in> set ps. is_str_key (fst p)" "distinct (map fst ps)" "distinct (map fst qs)"
  shows "foldr insert_item ps [] = foldr insert_item qs []"
proof -
  have inj_key: "inj_on key_text {k. is_str_key k}"
    by (auto intro!: inj_onI dest: str_keys_eq)
  have dk: "distinct (map skey xs) \<longleftrightarrow> distinct (map fst xs)" if "\<forall>p \<in> set xs. is_str_key (fst p)" for xs
  proof -
    have "map skey xs = map key_text (map fst xs)" by (simp add: skey_def)
    moreover have "inj_on key_text (set (map fst xs))"
      using that by (intro inj_on_subset [OF inj_key]) auto
    ultimately show ?thesis by (simp only: distinct_map [of key_text] simp_thms)
  qed
  have inj: "inj_on skey (set xs)" if "\<forall>p \<in> set xs. is_str_key (fst p)" "distinct (map fst xs)" for xs
    using dk [OF that(1)] that(2) by (simp add: distinct_map)
  let ?P = "foldr insert_item ps []" and ?Q = "foldr insert_item qs []"
  have P: "\<forall>p \<in> set ?P. is_str_key (fst p)" "distinct (map fst ?P)"
    and Q: "\<forall>p \<in> set ?Q. is_str_key (fst p)" "distinct (map fst ?Q)"
    using assms by (auto simp: set_sort_items distinct_sort_items)
  show ?thesis
  proof (rule map_sorted_distinct_set_unique [where f = skey])
    show "inj_on skey (set ?P \<union> set ?Q)" using inj [OF P] assms(1) by (simp add: set_sort_items)
    show "sorted (map skey ?P)" "sorted (map skey ?Q)" using assms by (auto intro: sorted_sort_items)
    show "distinct (map skey ?P)" "distinct (map skey ?Q)" using dk P Q by auto
    show "set ?P = set ?Q" using assms(1) by (simp add: set_sort_items)
  qed
qed

abbreviation sort_item :: "jkey \<times> json \<Rightarrow> jkey \<times> json" where
  "sort_item \<equiv> (\<lambda>(k, v). (k, sort_keys v))"

lemma fst_sort_item [simp]: "fst (sort_item p) = fst p" "map fst (map sort_item ps) = map fst ps"
  by (cases p, simp, induction ps) auto

lemma sort_keys_idem: "well_formed v \<Longrightarrow> sort_keys (sort_keys v) = sort_keys v"
proof (induction v rule: sort_keys.induct)
  case (1 vs)
  then show ?case by (auto simp: list_all_iff)
next
  case (2 kvs)
  let ?S = "foldr insert_item (map sort_item kvs) []"
  have "\<forall>p \<in> set kvs. sort_item (sort_item p) = sort_item p"
    using 2 by (auto simp: list_all_iff)
  then have "set (map sort_item ?S) = set (map sort_item kvs)"
    by (force simp: set_sort_items image_iff)
  moreover have "distinct (map fst (map sort_item ?S))"
    using 2 by (simp only: fst_sort_item) (simp add: distinct_sort_items del: map_map)
  ultimately have "foldr insert_item (map sort_item ?S) [] = ?S"
    using 2 by (intro sort_items_unique) (auto simp: list_all_iff simp del: map_map)
  then show ?case by simp
qed auto

lemma map_of_sort_items:
  assumes "distinct (map fst ps)"
  shows "map_of (foldr insert_item ps []) = map_of ps"
proof
  fix k
  show "map_of (foldr insert_item ps []) k = map_of ps k"
    using assms distinct_sort_items [OF assms] set_sort_items [of ps]
    by (cases "map_of ps k") (metis map_of_eq_None_iff image_iff list.set_map, metis map_of_SomeD map_of_is_SomeI)
qed

lemma map_of_sort_item: "map_of (map sort_item ps) k = map_option sort_keys (map_of ps k)"
  by (induction ps) auto

lemma sort_keys_filter:
  assumes "well_formed (JObj kvs)" and S: "sort_keys (JObj kvs) = JObj S" and P: "\<And>k v w. P (k, v) = P (k, w)"
  shows "sort_keys (JObj (filter P S)) = sort_keys (JObj (filter P kvs))"
proof -
  have S': "S = foldr insert_item (map sort_item kvs) []" using S by simp
  have d: "distinct (map fst S)" "distinct (map fst kvs)"
    using assms(1) S' distinct_sort_items [of "map sort_item kvs"] by (simp_all del: map_map)
  have idem: "\<forall>p \<in> set kvs. sort_item (sort_item p) = sort_item p \<and> P (sort_item p) = P p"
    using assms(1) P sort_keys_idem by (auto simp: list_all_iff)
  have "foldr insert_item (map sort_item (filter P S)) [] = foldr insert_item (map sort_item (filter P kvs)) []"
  proof (rule sort_items_unique)
    show "set (map sort_item (filter P S)) = set (map sort_item (filter P kvs))"
      using idem by (force simp: S' set_sort_items image_iff)
    show "\<forall>p \<in> set (map sort_item (filter P S)). is_str_key (fst p)"
      using assms(1) by (auto simp: S' set_sort_items list_all_iff)
    show "distinct (map fst (map sort_item (filter P S)))" "distinct (map fst (map sort_item (filter P kvs)))"
      unfolding fst_sort_item using d by (auto simp: distinct_map_filter)
  qed
  then show ?thesis by simp
qed

end
