(* ===== verification/Ledger_Merkle.thy ===== *)
theory Ledger_Merkle
  imports Prelude
begin

text \<open>
  Merkle proofs of inclusion (\<^verbatim>\<open>src/src/msb_ledger/merkle.py\<close>). Bytes are
  characters below 256. The raw digest of \<^verbatim>\<open>hashlib.sha256\<close> is the parameter
  \<open>H\<close>, so the results hold for every hash function; where one needs the absence of
  collisions, the hypothesis speaks of the finitely many inputs at hand.
\<close>

section \<open>Hexadecimal text of bytes\<close>

definition hex_of :: "nat \<Rightarrow> char" where
  "hex_of n = (if n < 10 then char_of (48 + n) else char_of (87 + n))"

definition byte_hex :: "char \<Rightarrow> string" where
  "byte_hex c = [hex_of (of_char c div 16), hex_of (of_char c mod 16)]"

definition hex :: "string \<Rightarrow> string" where
  \<comment> \<open>\<^verbatim>\<open>bytes.hex()\<close>\<close>
  "hex bs = concat (map byte_hex bs)"

definition nibble :: "char \<Rightarrow> nat option" where
  "nibble c = (let n = of_char c in
     if 48 \<le> n \<and> n \<le> 57 then Some (n - 48)
     else if 97 \<le> n \<and> n \<le> 102 then Some (n - 87)
     else if 65 \<le> n \<and> n \<le> 70 then Some (n - 55) else None)"

definition is_ascii_space :: "char \<Rightarrow> bool" where
  "is_ascii_space c = (let n = (of_char c :: nat) in (9 \<le> n \<and> n \<le> 13) \<or> n = 32)"

fun fromhex :: "string \<Rightarrow> string option" where
  \<comment> \<open>\<^verbatim>\<open>bytes.fromhex\<close>: whitespace is skipped between bytes; None is ValueError\<close>
  "fromhex [] = Some []"
| "fromhex [c] = (if is_ascii_space c then Some [] else None)"
| "fromhex (c # d # r) =
     (if is_ascii_space c then fromhex (d # r)
      else (case (nibble c, nibble d) of
              (Some h, Some l) \<Rightarrow> map_option (Cons (char_of (16 * h + l))) (fromhex r)
            | _ \<Rightarrow> None))"

section \<open>The tree\<close>

definition empty_root :: string where
  "empty_root = replicate 64 CHR ''0''"

definition leaf_digest :: "(string \<Rightarrow> string) \<Rightarrow> string \<Rightarrow> string" where
  "leaf_digest H record_hash = H (CHR 0x00 # record_hash)"

definition node_digest :: "(string \<Rightarrow> string) \<Rightarrow> string \<Rightarrow> string \<Rightarrow> string" where
  "node_digest H left right = H (CHR 0x01 # left @ right)"

definition pad :: "string list \<Rightarrow> string list" where
  "pad level = (if length level mod 2 = 1 then level @ [last level] else level)"

fun pair_up :: "(string \<Rightarrow> string) \<Rightarrow> string list \<Rightarrow> string list" where
  "pair_up H (l # r # rest) = node_digest H l r # pair_up H rest"
| "pair_up H _ = []"

lemma length_pair_up [simp]: "length (pair_up H xs) = length xs div 2"
  by (induction H xs rule: pair_up.induct) auto

function levels_from :: "(string \<Rightarrow> string) \<Rightarrow> string list \<Rightarrow> string list list" where
  \<comment> \<open>the while loop, from the level just appended\<close>
  "levels_from H level =
     (if length level > 1
      then let up = pair_up H level;
               up' = (if length up mod 2 = 1 \<and> length up > 1 then up @ [last up] else up)
           in level # levels_from H up'
      else [level])"
  by pat_completeness auto
termination
proof (relation "measure (\<lambda>(H, level). length level)", simp)
  fix H :: "string \<Rightarrow> string" and level up up' :: "string list"
  assume "1 < length level" "up = pair_up H level"
    "up' = (if length up mod 2 = 1 \<and> 1 < length up then up @ [last up] else up)"
  then have "length up' \<le> length level div 2 + (if length level div 2 > 1 then 1 else 0)"
    by simp
  with \<open>1 < length level\<close> show "((H, up'), H, level) \<in> measure (\<lambda>(H, level). length level)"
    by (simp split: if_splits)
qed

declare levels_from.simps [simp del]

definition build_levels :: "(string \<Rightarrow> string) \<Rightarrow> string list \<Rightarrow> string list list" where
  "build_levels H record_hashes =
     (if record_hashes = [] then [] else levels_from H (pad (map (leaf_digest H) record_hashes)))"

definition merkle_root :: "(string \<Rightarrow> string) \<Rightarrow> string list \<Rightarrow> string" where
  "merkle_root H record_hashes =
     (let levels = build_levels H record_hashes in
      if levels = [] then empty_root else hex (hd (last levels)))"

record inclusion_proof =
  ip_seq :: int
  leaf_hash :: string
  leaf_index :: int
  tree_size :: int
  root :: string
  path :: "string list"

datatype merkle_error = EmptyChain | IndexOutOfRange

definition flip_bit :: "nat \<Rightarrow> nat" where
  \<comment> \<open>\<^verbatim>\<open>idx ^ 1\<close>\<close>
  "flip_bit i = (if i mod 2 = 0 then i + 1 else i - 1)"

fun sibling_path :: "string list list \<Rightarrow> nat \<Rightarrow> string list" where
  "sibling_path [] i = []"
| "sibling_path (level # ls) i = hex (level ! flip_bit i) # sibling_path ls (i div 2)"

definition inclusion_proof_of ::
  "(string \<Rightarrow> string) \<Rightarrow> string list \<Rightarrow> int \<Rightarrow> (merkle_error, inclusion_proof) result" where
  "inclusion_proof_of H record_hashes i =
     (if record_hashes = [] then Inl EmptyChain
      else if \<not> (0 \<le> i \<and> i < int (length record_hashes)) then Inl IndexOutOfRange
      else let levels = build_levels H record_hashes in
        Inr \<lparr>ip_seq = 0, leaf_hash = record_hashes ! nat i, leaf_index = i,
             tree_size = int (length record_hashes), root = hex (hd (last levels)),
             path = sibling_path (butlast levels) (nat i)\<rparr>)"

fun walk :: "(string \<Rightarrow> string) \<Rightarrow> string \<Rightarrow> int \<Rightarrow> string list \<Rightarrow> string option" where
  \<comment> \<open>the loop of \<^verbatim>\<open>verify_inclusion\<close>; None where a sibling is not hexadecimal\<close>
  "walk H node idx [] = Some node"
| "walk H node idx (sh # rest) =
     (case fromhex sh of
        None \<Rightarrow> None
      | Some sibling \<Rightarrow>
          walk H (if idx mod 2 = 0 then node_digest H node sibling else node_digest H sibling node)
            (idx div 2) rest)"

definition verify_inclusion :: "(string \<Rightarrow> string) \<Rightarrow> inclusion_proof \<Rightarrow> string option \<Rightarrow> bool" where
  "verify_inclusion H p expected_root =
     (if \<not> (0 \<le> leaf_index p \<and> leaf_index p < tree_size p) then False
      else (case walk H (leaf_digest H (leaf_hash p)) (leaf_index p) (path p) of
              None \<Rightarrow> False
            | Some node \<Rightarrow>
                if hex node \<noteq> root p then False
                else (case expected_root of None \<Rightarrow> True | Some r \<Rightarrow> r = root p)))"

section \<open>Hex round trip\<close>

lemma of_char_hex_of: "n < 16 \<Longrightarrow> (of_char (hex_of n) :: nat) = (if n < 10 then 48 + n else 87 + n)"
  by (simp add: hex_of_def)

lemma nibble_hex_of: "n < 16 \<Longrightarrow> nibble (hex_of n) = Some n"
  by (simp add: nibble_def of_char_hex_of Let_def)

lemma hex_of_not_space: "n < 16 \<Longrightarrow> \<not> is_ascii_space (hex_of n)"
  by (simp add: is_ascii_space_def of_char_hex_of Let_def)

lemma of_char_less_256_nat: "(of_char c :: nat) < 256"
proof -
  have "char_of (of_char c :: nat) = c" by simp
  then have "(of_char c :: nat) = of_char c mod 256" by (metis of_char_of)
  then show ?thesis by (metis mod_less_divisor zero_less_numeral)
qed

lemma fromhex_hex [simp]: "fromhex (hex bs) = Some bs"
proof (induction bs)
  case (Cons b bs)
  have lt: "(of_char b :: nat) div 16 < 16" using of_char_less_256_nat [of b] by (simp add: less_mult_imp_div_less)
  have "16 * (of_char b div 16 :: nat) + of_char b mod 16 = of_char b" by simp
  then show ?case using Cons lt
    by (simp add: hex_def byte_hex_def nibble_hex_of hex_of_not_space)
qed (simp add: hex_def)

lemma hex_inj: "hex a = hex b \<longleftrightarrow> a = b"
  by (metis fromhex_hex option.inject)

section \<open>Shape of the levels\<close>

lemma pair_up_nth:
  "2 * i + 1 < length xs \<Longrightarrow> pair_up H xs ! i = node_digest H (xs ! (2 * i)) (xs ! (2 * i + 1))"
proof (induction H xs arbitrary: i rule: pair_up.induct)
  case (1 H l r rest)
  show ?case
  proof (cases i)
    case (Suc j)
    with 1 show ?thesis by simp
  qed simp
qed auto

definition next_level :: "(string \<Rightarrow> string) \<Rightarrow> string list \<Rightarrow> string list" where
  "next_level H level = (let up = pair_up H level in
     if length up mod 2 = 1 \<and> length up > 1 then up @ [last up] else up)"

lemma levels_from_step:
  "length level > 1 \<Longrightarrow> levels_from H level = level # levels_from H (next_level H level)"
  by (subst levels_from.simps) (simp add: next_level_def Let_def)

lemma levels_from_stop: "length level \<le> 1 \<Longrightarrow> levels_from H level = [level]"
  by (subst levels_from.simps) simp

lemma levels_from_nonempty [simp]: "levels_from H level \<noteq> []"
  by (subst levels_from.simps) (simp add: Let_def)

definition good_level :: "string list \<Rightarrow> bool" where
  "good_level level \<longleftrightarrow> length level = 1 \<or> (even (length level) \<and> length level > 1)"

lemma good_next: "good_level level \<Longrightarrow> length level > 1 \<Longrightarrow> good_level (next_level H level)"
proof -
  assume "good_level level" "length level > 1"
  then obtain m where m: "length level = 2 * m" "m > 0" by (auto simp: good_level_def elim!: evenE)
  show ?thesis
  proof (cases "m mod 2 = 1 \<and> m > 1")
    case True
    then have "length (next_level H level) = m + 1" using m by (simp add: next_level_def Let_def)
    moreover have "even (m + 1)" "m + 1 > 1" using True by presburger+
    ultimately show ?thesis by (simp only: good_level_def simp_thms)
  next
    case False
    then have "length (next_level H level) = m" using m by (auto simp: next_level_def Let_def)
    moreover have "m = 1 \<or> (even m \<and> m > 1)" using False m(2) by presburger
    ultimately show ?thesis by (simp only: good_level_def)
  qed
qed

lemma even_pair: "even n \<Longrightarrow> i < n \<Longrightarrow> 2 * (i div 2) + 1 < (n :: nat)"
  by presburger

lemma next_level_nth:
  assumes "good_level level" "length level > 1" "i < length level"
  shows "i div 2 < length (next_level H level)"
    and "next_level H level ! (i div 2) =
      node_digest H (level ! (2 * (i div 2))) (level ! (2 * (i div 2) + 1))"
proof -
  have ev: "even (length level)" using assms by (auto simp: good_level_def)
  then have lt: "2 * (i div 2) + 1 < length level" using assms(3) by (rule even_pair)
  then have lt2: "i div 2 < length (pair_up H level)" by simp
  then show "i div 2 < length (next_level H level)" by (simp add: next_level_def Let_def)
  have "next_level H level ! (i div 2) = pair_up H level ! (i div 2)"
    using lt2 by (simp add: next_level_def Let_def nth_append)
  with pair_up_nth [OF lt] show "next_level H level ! (i div 2) =
      node_digest H (level ! (2 * (i div 2))) (level ! (2 * (i div 2) + 1))" by simp
qed

lemma next_level_link:
  assumes "length level > 1" "q < length (next_level H level)"
  shows "\<exists>c. 2 * c + 1 < length level \<and>
    next_level H level ! q = node_digest H (level ! (2 * c)) (level ! (2 * c + 1))"
proof -
  let ?up = "pair_up H level"
  have "\<exists>c < length ?up. next_level H level ! q = ?up ! c"
  proof (cases "q < length ?up")
    case True
    then have "next_level H level ! q = ?up ! q" by (simp add: next_level_def Let_def nth_append)
    with True show ?thesis by blast
  next
    case False
    with assms(2) have "q = length ?up" "next_level H level = ?up @ [last ?up]" "length ?up > 1"
      by (auto simp: next_level_def Let_def split: if_splits)
    then have "next_level H level ! q = ?up ! (length ?up - 1)" "length ?up - 1 < length ?up"
      by (auto simp: nth_append last_conv_nth [of ?up] simp flip: length_greater_0_conv)
    then show ?thesis by blast
  qed
  then obtain c where c: "c < length ?up" "next_level H level ! q = ?up ! c" by blast
  then have lt: "2 * c + 1 < length level" by simp
  with c pair_up_nth [OF lt] show ?thesis by metis
qed

lemma good_pad: "xs \<noteq> [] \<Longrightarrow> good_level (pad xs)"
proof -
  assume "xs \<noteq> []"
  then have pos: "length xs > 0" by simp
  show ?thesis
  proof (cases "length xs mod 2 = 1")
    case True
    with pos show ?thesis by (auto simp: pad_def good_level_def even_iff_mod_2_eq_zero mod_Suc)
  next
    case False
    with pos have "length xs \<noteq> 1" "even (length xs)" by (auto simp: even_iff_mod_2_eq_zero)
    then have "length xs > 1" using pos by linarith
    with False \<open>even (length xs)\<close> show ?thesis by (simp add: pad_def good_level_def)
  qed
qed

lemma set_pad: "xs \<noteq> [] \<Longrightarrow> set (pad xs) = set xs"
  by (auto simp: pad_def insert_absorb)

lemma pad_nth: "i < length xs \<Longrightarrow> pad xs ! i = xs ! i"
  by (simp add: pad_def nth_append)

section \<open>Completeness: every proof the tree gives verifies\<close>

lemma walk_levels:
  assumes "good_level level" and "i < length level"
  shows "walk H (level ! i) (int i) (sibling_path (butlast (levels_from H level)) i)
    = Some (hd (last (levels_from H level)))"
  using assms
proof (induction "length level" arbitrary: level i rule: less_induct)
  case less
  show ?case
  proof (cases "length level > 1")
    case False
    with less.prems show ?thesis
      by (cases level) (auto simp: levels_from_stop)
  next
    case True
    let ?up = "next_level H level"
    have shorter: "length ?up < length level"
      using True by (auto simp: next_level_def Let_def)
    note nth = next_level_nth [OF less.prems(1) True less.prems(2), of H]
    have "(if int i mod 2 = 0 then node_digest H (level ! i) (level ! flip_bit i)
        else node_digest H (level ! flip_bit i) (level ! i)) = ?up ! (i div 2)"
    proof (cases "even i")
      case True
      then show ?thesis using nth(2) by (auto simp: flip_bit_def elim!: evenE)
    next
      case False
      then show ?thesis using nth(2) by (auto simp: flip_bit_def elim!: oddE)
    qed
    moreover have "walk H (?up ! (i div 2)) (int (i div 2))
        (sibling_path (butlast (levels_from H ?up)) (i div 2)) = Some (hd (last (levels_from H ?up)))"
      using less.hyps [OF shorter good_next [OF less.prems(1) True] nth(1)] .
    ultimately show ?thesis
      using True by (simp add: levels_from_step zdiv_int)
  qed
qed

lemma inclusion_proof_verifies:
  assumes "inclusion_proof_of H hs i = Inr p"
  shows "verify_inclusion H p (Some (merkle_root H hs))"
proof -
  have ne: "hs \<noteq> []" and i: "0 \<le> i" "i < int (length hs)"
    using assms by (auto simp: inclusion_proof_of_def split: if_splits)
  let ?leaves = "map (leaf_digest H) hs"
  let ?levels = "build_levels H hs"
  have p: "p = \<lparr>ip_seq = 0, leaf_hash = hs ! nat i, leaf_index = i, tree_size = int (length hs),
      root = hex (hd (last ?levels)), path = sibling_path (butlast ?levels) (nat i)\<rparr>"
    using assms ne i by (simp add: inclusion_proof_of_def Let_def)
  have lv: "?levels = levels_from H (pad ?leaves)" using ne by (simp add: build_levels_def)
  have lt: "nat i < length ?leaves" using i by simp
  then have "nat i < length (pad ?leaves)" by (simp add: pad_def)
  with walk_levels [OF good_pad, of ?leaves "nat i" H] ne
  have "walk H (pad ?leaves ! nat i) (int (nat i)) (sibling_path (butlast ?levels) (nat i))
    = Some (hd (last ?levels))" by (simp add: lv)
  then have "walk H (leaf_digest H (hs ! nat i)) i (sibling_path (butlast ?levels) (nat i))
    = Some (hd (last ?levels))"
    using lt i by (simp add: pad_nth)
  then show ?thesis
    using i ne by (simp add: verify_inclusion_def p merkle_root_def lv)
qed

section \<open>Soundness: a verified leaf is a leaf of the tree\<close>

text \<open>The inputs a verification and a tree hash; collisions are excluded on these only.\<close>

fun walk_inputs :: "(string \<Rightarrow> string) \<Rightarrow> string \<Rightarrow> int \<Rightarrow> string list \<Rightarrow> string set" where
  "walk_inputs H node idx [] = {}"
| "walk_inputs H node idx (sh # rest) =
     (case fromhex sh of
        None \<Rightarrow> {}
      | Some s \<Rightarrow> (let x = (if idx mod 2 = 0 then CHR 0x01 # node @ s else CHR 0x01 # s @ node)
                  in insert x (walk_inputs H (H x) (idx div 2) rest)))"

definition level_inputs :: "string list \<Rightarrow> string set" where
  "level_inputs level = {CHR 0x01 # (level ! (2 * i)) @ (level ! (2 * i + 1)) |i. 2 * i + 1 < length level}"

definition tree_inputs :: "(string \<Rightarrow> string) \<Rightarrow> string list \<Rightarrow> string set" where
  "tree_inputs H hs = (\<lambda>h. CHR 0x00 # h) ` set hs \<union> (\<Union> (level_inputs ` set (build_levels H hs)))"

definition proof_inputs :: "(string \<Rightarrow> string) \<Rightarrow> inclusion_proof \<Rightarrow> string set" where
  "proof_inputs H p = insert (CHR 0x00 # leaf_hash p)
     (walk_inputs H (leaf_digest H (leaf_hash p)) (leaf_index p) (path p))"

lemma walk_append:
  "walk H node idx (xs @ [sh]) =
     (case walk H node idx xs of None \<Rightarrow> None | Some n \<Rightarrow>
       (case fromhex sh of None \<Rightarrow> None | Some s \<Rightarrow>
         Some (if (idx div 2 ^ length xs) mod 2 = 0 then node_digest H n s else node_digest H s n)))"
proof (induction xs arbitrary: node idx)
  case (Cons x xs)
  have "idx div 2 div 2 ^ length xs = idx div 2 ^ length (x # xs)"
    by (simp add: zdiv_zmult2_eq mult.commute)
  with Cons show ?case by (simp split: option.splits)
qed (simp split: option.splits)

lemma walk_inputs_append:
  "walk_inputs H node idx xs \<subseteq> walk_inputs H node idx (xs @ [sh])"
proof (induction xs arbitrary: node idx)
  case (Cons x xs)
  then show ?case by (auto simp: Let_def split: option.splits)
qed simp

lemma walk_inputs_last:
  assumes "walk H node idx xs = Some n" and s: "fromhex sh = Some s"
  shows "(if (idx div 2 ^ length xs) mod 2 = 0 then CHR 0x01 # n @ s else CHR 0x01 # s @ n)
    \<in> walk_inputs H node idx (xs @ [sh])"
  using assms(1)
proof (induction xs arbitrary: node idx)
  case (Cons x xs)
  let ?in = "if (idx div 2 ^ length (x # xs)) mod 2 = 0 then CHR 0x01 # n @ s else CHR 0x01 # s @ n"
  have div: "idx div 2 div 2 ^ length xs = idx div 2 ^ length (x # xs)"
    by (simp add: zdiv_zmult2_eq mult.commute)
  from Cons.prems obtain t where t: "fromhex x = Some t" by (auto split: option.splits)
  define y where "y = (if idx mod 2 = 0 then CHR 0x01 # node @ t else CHR 0x01 # t @ node)"
  have "walk H (H y) (idx div 2) xs = Some n"
    using Cons.prems t by (simp add: y_def node_digest_def split: if_splits)
  from Cons.IH [OF this] have "?in \<in> walk_inputs H (H y) (idx div 2) (xs @ [sh])"
    by (simp only: div)
  then show ?case using t by (simp add: y_def Let_def)
qed (use s in \<open>auto simp: Let_def\<close>)

definition linked :: "(string \<Rightarrow> string) \<Rightarrow> string list list \<Rightarrow> bool" where
  \<comment> \<open>every node above the leaves is the digest of two nodes of the level below, and the node
     above position \<open>i\<close> sits at position \<open>i div 2\<close>\<close>
  "linked H Ls \<longleftrightarrow> (\<forall>j. Suc j < length Ls \<longrightarrow>
     (\<forall>q < length (Ls ! Suc j). \<exists>c. 2 * c + 1 < length (Ls ! j) \<and>
        Ls ! Suc j ! q = node_digest H (Ls ! j ! (2 * c)) (Ls ! j ! (2 * c + 1))) \<and>
     (\<forall>i < length (Ls ! j). i div 2 < length (Ls ! Suc j) \<and>
        2 * (i div 2) + 1 < length (Ls ! j) \<and>
        Ls ! Suc j ! (i div 2) = node_digest H (Ls ! j ! (2 * (i div 2))) (Ls ! j ! (2 * (i div 2) + 1))))"

lemma linked_levels: "good_level level \<Longrightarrow> linked H (levels_from H level)"
proof (induction "length level" arbitrary: level rule: less_induct)
  case less
  show ?case
  proof (cases "length level > 1")
    case False
    then show ?thesis by (simp add: levels_from_stop linked_def)
  next
    case True
    let ?up = "next_level H level"
    have "length ?up < length level" using True by (auto simp: next_level_def Let_def)
    then have IH: "linked H (levels_from H ?up)"
      using less.hyps good_next [OF less.prems True] by blast
    have hd_up: "levels_from H ?up ! 0 = ?up" by (subst levels_from.simps) (simp add: Let_def)
    have ev: "even (length level)" using less.prems True by (auto simp: good_level_def)
    have "2 * (i div 2) + 1 < length level" if "i < length level" for i
      using ev that by (rule even_pair)
    with next_level_link [OF True] next_level_nth [OF less.prems True] hd_up IH
    show ?thesis
      unfolding linked_def levels_from_step [OF True] by (auto simp: nth_Cons split: nat.splits)
  qed
qed

lemma level_digests:
  assumes len: "\<And>x. length (H x) = 32" and link: "linked H Ls"
    and base: "\<And>q. q < length (Ls ! 0) \<Longrightarrow> length (Ls ! 0 ! q) = 32"
  shows "j < length Ls \<Longrightarrow> q < length (Ls ! j) \<Longrightarrow> length (Ls ! j ! q) = 32"
  using link base by (cases j) (force simp: linked_def node_digest_def len)+

text \<open>The facts about one tree and one walk that the two soundness lemmas share.\<close>

definition tree_walk :: "(string \<Rightarrow> string) \<Rightarrow> string set \<Rightarrow> string list list \<Rightarrow> bool" where
  "tree_walk H S Ls \<longleftrightarrow> inj_on H S \<and> (\<forall>x. length (H x) = 32) \<and> linked H Ls \<and>
     (\<forall>q < length (Ls ! 0). \<exists>h. Ls ! 0 ! q = H (CHR 0x00 # h) \<and> CHR 0x00 # h \<in> S) \<and>
     (\<forall>j c. Suc j < length Ls \<and> 2 * c + 1 < length (Ls ! j) \<longrightarrow>
        CHR 0x01 # Ls ! j ! (2 * c) @ Ls ! j ! (2 * c + 1) \<in> S)"

lemma tree_walk_len: "tree_walk H S Ls \<Longrightarrow> j < length Ls \<Longrightarrow> q < length (Ls ! j) \<Longrightarrow> length (Ls ! j ! q) = 32"
  by (rule level_digests) (auto simp: tree_walk_def)

lemma tree_walk_inner:
  assumes "tree_walk H S Ls" "x \<in> S" "H x = Ls ! Suc j ! q" "Suc j < length Ls" "q < length (Ls ! Suc j)"
  shows "\<exists>c. 2 * c + 1 < length (Ls ! j) \<and> x = CHR 0x01 # Ls ! j ! (2 * c) @ Ls ! j ! (2 * c + 1)"
proof -
  obtain c where c: "2 * c + 1 < length (Ls ! j)"
    "Ls ! Suc j ! q = H (CHR 0x01 # Ls ! j ! (2 * c) @ Ls ! j ! (2 * c + 1))"
    using assms unfolding tree_walk_def linked_def node_digest_def by blast
  moreover from c assms have "CHR 0x01 # Ls ! j ! (2 * c) @ Ls ! j ! (2 * c + 1) \<in> S"
    unfolding tree_walk_def by blast
  ultimately show ?thesis using assms by (metis inj_onD tree_walk_def)
qed

lemma tree_walk_leaf:
  assumes "tree_walk H S Ls" "x \<in> S" "H x = Ls ! 0 ! q" "q < length (Ls ! 0)"
  shows "\<exists>h. x = CHR 0x00 # h"
  using assms unfolding tree_walk_def by (metis inj_onD)

text \<open>One step of the walk: the last node hashed, its input, and the node before it.\<close>

lemma walk_last_step:
  assumes "walk H node idx (xs @ [sh]) = Some r" and "length node = 32" and "\<And>x. length (H x) = 32"
  obtains n s x where "walk H node idx xs = Some n" "length n = 32"
    "x = (if (idx div 2 ^ length xs) mod 2 = 0 then CHR 0x01 # n @ s else CHR 0x01 # s @ n)"
    "H x = r" "x \<in> walk_inputs H node idx (xs @ [sh])"
proof -
  from assms(1) obtain n s where n: "walk H node idx xs = Some n" and s: "fromhex sh = Some s"
    by (auto simp: walk_append split: option.splits)
  have "length n = 32" using n assms(2,3)
    by (cases xs rule: rev_cases) (auto simp: walk_append node_digest_def split: option.splits if_splits)
  moreover have "H (if (idx div 2 ^ length xs) mod 2 = 0 then CHR 0x01 # n @ s else CHR 0x01 # s @ n) = r"
    using assms(1) n s by (auto simp: walk_append node_digest_def)
  ultimately show ?thesis using that n walk_inputs_last [OF n s] by blast
qed

lemma walk_depth:
  assumes tw: "tree_walk H S Ls" and leaf: "CHR 0x00 # h \<in> S"
    and walk: "walk H (H (CHR 0x00 # h)) idx sibs = Some (Ls ! j ! q)"
    and inS: "walk_inputs H (H (CHR 0x00 # h)) idx sibs \<subseteq> S"
    and j: "j < length Ls" and q: "q < length (Ls ! j)"
  shows "length sibs = j \<and> H (CHR 0x00 # h) \<in> set (Ls ! 0)"
  using walk inS j q
proof (induction sibs arbitrary: j q rule: rev_induct)
  case Nil
  have "j = 0"
    using tree_walk_inner [OF tw leaf] Nil by (cases j) auto
  with Nil show ?case by simp
next
  case (snoc sh xs)
  have len: "length (H x) = 32" for x using tw by (simp add: tree_walk_def)
  obtain n s x where st: "walk H (H (CHR 0x00 # h)) idx xs = Some n" "length n = 32"
    "x = (if (idx div 2 ^ length xs) mod 2 = 0 then CHR 0x01 # n @ s else CHR 0x01 # s @ n)"
    "H x = Ls ! j ! q" "x \<in> walk_inputs H (H (CHR 0x00 # h)) idx (xs @ [sh])"
    using walk_last_step [OF snoc.prems(1) len len] by blast
  then have xS: "x \<in> S" using snoc.prems(2) by blast
  obtain i where ji: "j = Suc i"
  proof (cases j)
    case 0
    with tree_walk_leaf [OF tw xS] st snoc.prems show ?thesis by (auto split: if_splits)
  qed
  then obtain c where c: "2 * c + 1 < length (Ls ! i)"
    "x = CHR 0x01 # Ls ! i ! (2 * c) @ Ls ! i ! (2 * c + 1)"
    using tree_walk_inner [OF tw xS] st snoc.prems by blast
  have "length (Ls ! i ! (2 * c)) = 32" "length (Ls ! i ! (2 * c + 1)) = 32"
    using tree_walk_len [OF tw] snoc.prems ji c by auto
  with st c have "n = Ls ! i ! (2 * c) \<or> n = Ls ! i ! (2 * c + 1)"
    by (auto simp: append_eq_append_conv split: if_splits)
  moreover have "2 * c < length (Ls ! i)" using c by simp
  ultimately have "\<exists>q' < length (Ls ! i). n = Ls ! i ! q'" using c(1) by blast
  then obtain q' where q': "q' < length (Ls ! i)" "n = Ls ! i ! q'" by blast
  have "length xs = i \<and> H (CHR 0x00 # h) \<in> set (Ls ! 0)"
  proof (rule snoc.IH)
    show "walk H (H (CHR 0x00 # h)) idx xs = Some (Ls ! i ! q')" using st q' by simp
    show "walk_inputs H (H (CHR 0x00 # h)) idx xs \<subseteq> S"
      using snoc.prems(2) walk_inputs_append by blast
  qed (use ji snoc.prems q' in auto)
  with ji show ?case by simp
qed

lemma walk_position:
  assumes tw: "tree_walk H S Ls" and leaf: "CHR 0x00 # h \<in> S"
    and walk: "walk H (H (CHR 0x00 # h)) (int i) sibs = Some (Ls ! length sibs ! (i div 2 ^ length sibs))"
    and inS: "walk_inputs H (H (CHR 0x00 # h)) (int i) sibs \<subseteq> S"
    and j: "length sibs < length Ls" and i: "\<And>k. k < length Ls \<Longrightarrow> i div 2 ^ k < length (Ls ! k)"
  shows "H (CHR 0x00 # h) = Ls ! 0 ! i"
  using walk inS j
proof (induction sibs rule: rev_induct)
  case (snoc sh xs)
  let ?j = "length xs" and ?k = "i div 2 ^ length xs"
  have len: "length (H x) = 32" for x using tw by (simp add: tree_walk_def)
  obtain n s x where st: "walk H (H (CHR 0x00 # h)) (int i) xs = Some n" "length n = 32"
    "x = (if (int i div 2 ^ length xs) mod 2 = 0 then CHR 0x01 # n @ s else CHR 0x01 # s @ n)"
    "H x = Ls ! Suc ?j ! (i div 2 ^ Suc ?j)" "x \<in> walk_inputs H (H (CHR 0x00 # h)) (int i) (xs @ [sh])"
  proof -
    have "walk H (H (CHR 0x00 # h)) (int i) (xs @ [sh]) = Some (Ls ! Suc ?j ! (i div 2 ^ Suc ?j))"
      using snoc.prems(1) by (simp del: power_Suc)
    from walk_last_step [OF this len len] that show thesis by blast
  qed
  then have xS: "x \<in> S" using snoc.prems(2) by blast
  have lt: "?k < length (Ls ! ?j)" using i snoc.prems(3) by simp
  have div: "i div 2 ^ Suc ?j = ?k div 2" by (simp only: power_Suc2 div_mult2_eq)
  have b: "2 * (?k div 2) + 1 < length (Ls ! ?j)" and
    "Ls ! Suc ?j ! (?k div 2) = H (CHR 0x01 # Ls ! ?j ! (2 * (?k div 2)) @ Ls ! ?j ! (2 * (?k div 2) + 1))"
    using tw lt snoc.prems(3) unfolding tree_walk_def linked_def node_digest_def by auto
  moreover from b have "CHR 0x01 # Ls ! ?j ! (2 * (?k div 2)) @ Ls ! ?j ! (2 * (?k div 2) + 1) \<in> S"
    using tw snoc.prems(3) unfolding tree_walk_def by auto
  ultimately have "x = CHR 0x01 # Ls ! ?j ! (2 * (?k div 2)) @ Ls ! ?j ! (2 * (?k div 2) + 1)"
    using st(4) xS tw div unfolding tree_walk_def by (metis inj_onD)
  moreover have "length (Ls ! ?j ! (2 * (?k div 2))) = 32" "length (Ls ! ?j ! (2 * (?k div 2) + 1)) = 32"
    using tree_walk_len [OF tw] snoc.prems b by auto
  moreover have "(int i div 2 ^ length xs) mod 2 = 0 \<longleftrightarrow> even ?k"
    by (metis even_of_nat of_nat_div of_nat_numeral of_nat_power even_iff_mod_2_eq_zero)
  ultimately have "n = (if even ?k then Ls ! ?j ! (2 * (?k div 2)) else Ls ! ?j ! (2 * (?k div 2) + 1))"
    using st(2,3) by (auto simp: append_eq_append_conv split: if_splits)
  then have "n = Ls ! ?j ! ?k" by (auto simp: odd_two_times_div_two_succ split: if_splits)
  then show ?case
    using snoc.IH st(1) snoc.prems walk_inputs_append by fastforce
qed simp

definition all_inputs :: "(string \<Rightarrow> string) \<Rightarrow> string list \<Rightarrow> inclusion_proof \<Rightarrow> string set" where
  "all_inputs H hs p = tree_inputs H hs \<union> proof_inputs H p"

lemma levels_position:
  assumes "good_level level" "i < length level"
  shows "k < length (levels_from H level) \<Longrightarrow> i div 2 ^ k < length (levels_from H level ! k)"
proof (induction k)
  case 0
  then show ?case using assms by (subst levels_from.simps) (simp add: Let_def)
next
  case (Suc k)
  then have "i div 2 ^ k div 2 < length (levels_from H level ! Suc k)"
    using linked_levels [OF assms(1), of H] unfolding linked_def by auto
  then show ?case by (simp only: power_Suc2 div_mult2_eq)
qed

lemma last_level_single: "good_level level \<Longrightarrow> length (last (levels_from H level)) = 1"
proof (induction "length level" arbitrary: level rule: less_induct)
  case less
  show ?case
  proof (cases "length level > 1")
    case True
    have "length (next_level H level) < length level" using True by (auto simp: next_level_def Let_def)
    then have "length (last (levels_from H (next_level H level))) = 1"
      using less.hyps good_next [OF less.prems True] by blast
    then show ?thesis using True by (simp add: levels_from_step)
  next
    case False
    with less.prems show ?thesis by (auto simp: levels_from_stop good_level_def)
  qed
qed

lemma tree_walk_of:
  assumes "hs \<noteq> []" and "inj_on H S" and "tree_inputs H hs \<subseteq> S" and "\<And>x. length (H x) = 32"
  shows "tree_walk H S (build_levels H hs)"
proof -
  let ?lv = "pad (map (leaf_digest H) hs)"
  have b: "build_levels H hs = levels_from H ?lv" using assms(1) by (simp add: build_levels_def)
  have g: "good_level ?lv" using assms(1) by (intro good_pad) simp
  have hd: "levels_from H ?lv ! 0 = ?lv" by (subst levels_from.simps) (simp add: Let_def)
  have "set ?lv \<subseteq> leaf_digest H ` set hs"
    using assms(1) by (simp add: set_pad)
  have "\<exists>h. ?lv ! q = H (CHR 0x00 # h) \<and> CHR 0x00 # h \<in> S" if "q < length ?lv" for q
  proof -
    from nth_mem [OF that] \<open>set ?lv \<subseteq> leaf_digest H ` set hs\<close>
    obtain h where h: "h \<in> set hs" "?lv ! q = leaf_digest H h" by blast
    from h(1) assms(3) have "CHR 0x00 # h \<in> S" by (auto simp: tree_inputs_def)
    with h(2) show ?thesis by (auto simp: leaf_digest_def)
  qed
  moreover have "CHR 0x01 # levels_from H ?lv ! j ! (2 * c) @ levels_from H ?lv ! j ! (2 * c + 1) \<in> S"
    if "Suc j < length (levels_from H ?lv)" "2 * c + 1 < length (levels_from H ?lv ! j)" for j c
  proof -
    have "levels_from H ?lv ! j \<in> set (build_levels H hs)" using that b by simp
    with that(2) have "CHR 0x01 # levels_from H ?lv ! j ! (2 * c) @ levels_from H ?lv ! j ! (2 * c + 1)
      \<in> tree_inputs H hs" unfolding tree_inputs_def level_inputs_def by blast
    with assms(3) show ?thesis by blast
  qed
  ultimately show ?thesis
    using assms(2,4) linked_levels [OF g] hd by (simp add: tree_walk_def b)
qed

lemma verified_walk:
  assumes "verify_inclusion H p (Some (merkle_root H hs))" and "hs \<noteq> []"
  shows "0 \<le> leaf_index p" "leaf_index p < tree_size p"
    "walk H (H (CHR 0x00 # leaf_hash p)) (leaf_index p) (path p) = Some (hd (last (build_levels H hs)))"
proof -
  show ix: "0 \<le> leaf_index p" "leaf_index p < tree_size p"
    using assms(1) by (auto simp: verify_inclusion_def split: if_splits)
  then obtain node where node: "walk H (H (CHR 0x00 # leaf_hash p)) (leaf_index p) (path p) = Some node"
      "hex node = root p" "merkle_root H hs = root p"
    using assms(1) by (auto simp: verify_inclusion_def leaf_digest_def split: if_splits option.splits)
  have "build_levels H hs \<noteq> []" using assms(2) by (simp add: build_levels_def)
  with node have "hex node = hex (hd (last (build_levels H hs)))" by (simp add: merkle_root_def)
  then have "node = hd (last (build_levels H hs))" by (simp only: hex_inj)
  with node(1) show "walk H (H (CHR 0x00 # leaf_hash p)) (leaf_index p) (path p)
      = Some (hd (last (build_levels H hs)))" by simp
qed

lemma verified_leaf:
  assumes v: "verify_inclusion H p (Some (merkle_root H hs))" and ne: "hs \<noteq> []"
    and inj: "inj_on H (all_inputs H hs p)" and len: "\<And>x. length (H x) = 32"
  shows "leaf_hash p \<in> set hs"
    and "leaf_index p < int (length hs) \<Longrightarrow> leaf_hash p = hs ! nat (leaf_index p)"
proof -
  let ?Ls = "build_levels H hs" and ?S = "all_inputs H hs p" and ?h = "leaf_hash p"
  let ?lv = "pad (map (leaf_digest H) hs)"
  have b: "?Ls = levels_from H ?lv" using ne by (simp add: build_levels_def)
  have g: "good_level ?lv" using ne by (intro good_pad) simp
  have tw: "tree_walk H ?S ?Ls"
    using ne inj len by (intro tree_walk_of) (auto simp: all_inputs_def)
  have leaf: "CHR 0x00 # ?h \<in> ?S" and wS: "walk_inputs H (H (CHR 0x00 # ?h)) (leaf_index p) (path p) \<subseteq> ?S"
    by (auto simp: all_inputs_def proof_inputs_def leaf_digest_def)
  let ?d = "length ?Ls - 1"
  have d: "?d < length ?Ls" by (simp add: b)
  have top: "?Ls ! ?d = last ?Ls" by (simp add: b last_conv_nth)
  have single: "length (?Ls ! ?d) = 1" using last_level_single [OF g] top by (simp add: b)
  have root: "hd (last ?Ls) = ?Ls ! ?d ! 0" using top single by (metis hd_conv_nth list.size(3) zero_neq_one)
  note w = verified_walk [OF v ne]
  have dep: "length (path p) = ?d \<and> H (CHR 0x00 # ?h) \<in> set (?Ls ! 0)"
    using w(3) root wS d single by (intro walk_depth [OF tw leaf]) auto
  have hd0: "?Ls ! 0 = ?lv" unfolding b by (subst levels_from.simps) (simp add: Let_def)
  have inj0: "H (CHR 0x00 # ?h) = leaf_digest H h \<Longrightarrow> h \<in> set hs \<Longrightarrow> ?h = h" for h
    using inj leaf by (auto simp: leaf_digest_def all_inputs_def tree_inputs_def dest!: inj_onD)
  have "set ?lv \<subseteq> leaf_digest H ` set hs" using ne by (simp add: set_pad)
  with dep hd0 inj0 show "?h \<in> set hs" by auto
  assume lt: "leaf_index p < int (length hs)"
  define i where "i = nat (leaf_index p)"
  have i: "int i = leaf_index p" "i < length hs" using w(1) lt by (auto simp: i_def)
  then have ilv: "i < length ?lv" by (simp add: pad_def)
  have pos: "i div 2 ^ k < length (?Ls ! k)" if "k < length ?Ls" for k
    using levels_position [OF g ilv] that by (simp add: b)
  have "i div 2 ^ ?d = 0" using pos [OF d] single by simp
  with w(3) root dep i have "walk H (H (CHR 0x00 # ?h)) (int i) (path p) =
      Some (?Ls ! length (path p) ! (i div 2 ^ length (path p)))" by simp
  then have "H (CHR 0x00 # ?h) = ?Ls ! 0 ! i"
    using wS i dep d pos by (intro walk_position [OF tw leaf]) auto
  then have "H (CHR 0x00 # ?h) = leaf_digest H (hs ! i)"
    using hd0 i by (simp add: pad_nth)
  with inj0 i show "?h = hs ! nat (leaf_index p)" by (simp add: i_def)
qed

text \<open>
  The verifier reads only the low bits of \<open>leaf_index\<close>: a proof moved by the width of the
  tree still verifies when its \<open>tree_size\<close> moves along.
\<close>

lemma walk_shift: "walk H node (idx + k * 2 ^ length sibs) sibs = walk H node idx sibs"
proof (induction sibs arbitrary: node idx k)
  case (Cons s sibs)
  have eq: "idx + k * 2 ^ length (s # sibs) = idx + 2 * (k * 2 ^ length sibs)" by simp
  have "(idx + k * 2 ^ length (s # sibs)) div 2 = idx div 2 + k * 2 ^ length sibs"
    and "(idx + k * 2 ^ length (s # sibs)) mod 2 = idx mod 2"
    unfolding eq by simp_all
  then show ?case using Cons by (simp only: walk.simps)
qed simp

lemma verify_shift:
  assumes "verify_inclusion H p r" and "0 \<le> k"
  shows "verify_inclusion H (p\<lparr>leaf_index := leaf_index p + k * 2 ^ length (path p),
      tree_size := tree_size p + k * 2 ^ length (path p)\<rparr>) r"
proof -
  have "0 \<le> k * 2 ^ length (path p)" using assms(2) by simp
  then show ?thesis
    using assms(1) by (cases r) (auto simp: verify_inclusion_def walk_shift split: if_splits option.splits)
qed

section \<open>Properties\<close>

text \<open>Completeness of inclusion proofs: a proof built for any leaf verifies against the root of its own tree.\<close>

theorem own_proofs_verify:
  assumes "inclusion_proof_of H hs i = Inr p"
  shows "verify_inclusion H p (Some (merkle_root H hs))"
  by (rule inclusion_proof_verifies [OF assms])

theorem own_proofs_verify_witness:
  "verify_inclusion (\<lambda>s. s) (projr (inclusion_proof_of (\<lambda>s. s) [''a'', ''b'', ''c''] 2))
     (Some (merkle_root (\<lambda>s. s) [''a'', ''b'', ''c'']))"
  by (rule own_proofs_verify [of _ _ 2]) code_simp

text \<open>C28: Soundness of inclusion proofs: when the hash does not collide on the inputs of the tree and of the
  walk, a verified proof is about a leaf of the tree, and at the stated index when that index is a leaf's.\<close>

theorem verified_proofs_are_sound:
  assumes "verify_inclusion H p (Some (merkle_root H hs))" "hs \<noteq> []"
    and "inj_on H (all_inputs H hs p)" "\<forall>x. length (H x) = 32"
  shows "leaf_hash p \<in> set hs \<and> (leaf_index p < int (length hs) \<longrightarrow> leaf_hash p = hs ! nat (leaf_index p))"
  using verified_leaf [OF assms(1-3)] assms(4) by blast

text \<open>The stated index is not bound by the proof: adding any multiple of the tree's width to the index and
  to the stated size leaves a verified proof verified.\<close>

theorem proof_index_is_malleable:
  assumes "verify_inclusion H p r" "0 \<le> k"
  shows "verify_inclusion H (p\<lparr>leaf_index := leaf_index p + k * 2 ^ length (path p),
    tree_size := tree_size p + k * 2 ^ length (path p)\<rparr>) r"
  by (rule verify_shift [OF assms])

text \<open>Two histories can share a root: repeating the last of an odd number of records does not change it.\<close>

theorem repeated_last_leaf_keeps_the_root:
  assumes "length hs mod 2 = 1"
  shows "merkle_root H (hs @ [last hs]) = merkle_root H hs"
proof -
  have "hs \<noteq> []" using assms by auto
  moreover have "length (hs @ [last hs]) mod 2 = 0" using assms by (simp add: mod_Suc)
  ultimately have "pad (map (leaf_digest H) (hs @ [last hs])) = pad (map (leaf_digest H) hs)"
    using assms by (simp add: pad_def last_map)
  then show ?thesis by (simp add: merkle_root_def build_levels_def \<open>hs \<noteq> []\<close>)
qed

theorem repeated_last_leaf_keeps_the_root_witness:
  "merkle_root (\<lambda>s. s) ([''a''] @ [last [''a'']]) = merkle_root (\<lambda>s. s) [''a'']"
  by (rule repeated_last_leaf_keeps_the_root) simp

definition one_leaf_hash :: "string \<Rightarrow> string" where
  \<comment> \<open>32 bytes, and injective on the two inputs of a one-leaf tree\<close>
  "one_leaf_hash s = replicate 32 (hd s)"

definition one_leaf_proof :: inclusion_proof where
  "one_leaf_proof = projr (inclusion_proof_of one_leaf_hash [''a''] 0)"

lemma one_leaf_verifies: "verify_inclusion one_leaf_hash one_leaf_proof (Some (merkle_root one_leaf_hash [''a'']))"
  by code_simp

definition one_leaf :: string where
  "one_leaf = replicate 32 CHR 0x00"

lemma one_leaf_levels:
  "build_levels one_leaf_hash [''a''] = [[one_leaf, one_leaf], [one_leaf_hash (CHR 0x01 # one_leaf @ one_leaf)]]"
  by (simp add: build_levels_def pad_def levels_from.simps leaf_digest_def node_digest_def one_leaf_def one_leaf_hash_def)

lemma one_leaf_inputs: "all_inputs one_leaf_hash [''a''] one_leaf_proof \<subseteq> {CHR 0x00 # ''a'', CHR 0x01 # one_leaf @ one_leaf}"
proof -
  have "level_inputs [x, y] = {CHR 0x01 # x @ y}" "level_inputs [x] = {}" for x y
    by (auto simp: level_inputs_def less_Suc_eq)
  moreover have "leaf_digest one_leaf_hash ''a'' = one_leaf"
    by (simp add: leaf_digest_def one_leaf_hash_def one_leaf_def)
  moreover have "path one_leaf_proof = [hex one_leaf]" "leaf_index one_leaf_proof = 0" "leaf_hash one_leaf_proof = ''a''"
    by (simp_all add: one_leaf_proof_def inclusion_proof_of_def one_leaf_levels flip_bit_def)
  ultimately show ?thesis
    by (simp add: all_inputs_def tree_inputs_def proof_inputs_def one_leaf_levels)
qed

theorem verified_proofs_are_sound_witness:
  "leaf_hash one_leaf_proof \<in> set [''a'']"
proof (rule verified_proofs_are_sound [THEN conjunct1, OF one_leaf_verifies])
  show "inj_on one_leaf_hash (all_inputs one_leaf_hash [''a''] one_leaf_proof)"
    by (rule inj_on_subset [OF _ one_leaf_inputs]) (simp add: one_leaf_hash_def)
qed (simp_all add: one_leaf_hash_def)

theorem proof_index_is_malleable_witness:
  "verify_inclusion one_leaf_hash (one_leaf_proof\<lparr>leaf_index := leaf_index one_leaf_proof + 3 * 2 ^ length (path one_leaf_proof),
    tree_size := tree_size one_leaf_proof + 3 * 2 ^ length (path one_leaf_proof)\<rparr>) (Some (merkle_root one_leaf_hash [''a'']))"
  by (rule proof_index_is_malleable [OF one_leaf_verifies]) simp

end
