(* ===== verification/Ledger_Storage.thy ===== *)
theory Ledger_Storage
  imports Prelude
begin

text \<open>
  The write-admission state machine of the audit store
  (\<^verbatim>\<open>src/src/msb_ledger/storage_contract.py\<close>). The control file beside the
  database is absent, unreadable or a state with an optional override expiry; times are
  seconds as exact rationals, and an expiry that does not parse is no expiry. The SQLite
  pragmas and the atomic file replacement are not modelled.
\<close>

datatype storage_state = NORMAL | LOW_SPACE | CRITICAL_SPACE | AUDIT_WRITE_BLOCKED | SAFE_MODE

datatype control_file = NoFile | Unreadable | Control storage_state "rat option"

record storage_config =
  low_ratio :: rat
  critical_ratio :: rat
  blocked_ratio :: rat
  sc_enabled :: bool
  override_ttl_s :: int

datatype storage_error = BadRatios | BadTtl | StateFileUnreadable | WriteBlocked storage_state

record probe =
  free_bytes :: int
  total_bytes :: int

definition free_ratio :: "probe \<Rightarrow> rat" where
  "free_ratio p = (if total_bytes p \<le> 0 then 0 else of_int (free_bytes p) / of_int (total_bytes p))"

definition override_active :: "rat option \<Rightarrow> rat \<Rightarrow> bool" where
  "override_active expires now = (case expires of None \<Rightarrow> False | Some t \<Rightarrow> t > now)"

definition state_from_ratio :: "rat \<Rightarrow> rat \<Rightarrow> rat \<Rightarrow> rat \<Rightarrow> storage_state" where
  "state_from_ratio ratio low critical blocked =
     (if ratio < blocked then AUDIT_WRITE_BLOCKED
      else if ratio < critical then CRITICAL_SPACE
      else if ratio < low then LOW_SPACE
      else NORMAL)"

definition storage_init ::
  "rat \<Rightarrow> rat \<Rightarrow> rat \<Rightarrow> bool \<Rightarrow> int \<Rightarrow> (storage_error, storage_config) result" where
  "storage_init low critical blocked enabled ttl =
     (if \<not> (0 \<le> blocked \<and> blocked < critical \<and> critical < low \<and> low \<le> 1) then Inl BadRatios
      else if ttl \<le> 0 then Inl BadTtl
      else Inr \<lparr>low_ratio = low, critical_ratio = critical, blocked_ratio = blocked,
                sc_enabled = enabled, override_ttl_s = ttl\<rparr>)"

definition read_state :: "control_file \<Rightarrow> (storage_error, storage_state \<times> rat option) result" where
  "read_state f = (case f of
     NoFile \<Rightarrow> Inr (NORMAL, None) | Unreadable \<Rightarrow> Inl StateFileUnreadable | Control s e \<Rightarrow> Inr (s, e))"

definition derived_state :: "storage_config \<Rightarrow> probe \<Rightarrow> storage_state" where
  "derived_state cfg p = state_from_ratio (free_ratio p) (low_ratio cfg) (critical_ratio cfg) (blocked_ratio cfg)"

definition latched :: "storage_state \<Rightarrow> bool" where
  "latched s \<longleftrightarrow> s = AUDIT_WRITE_BLOCKED \<or> s = SAFE_MODE"

definition storage_state_of ::
  "storage_config \<Rightarrow> probe \<Rightarrow> rat \<Rightarrow> bool \<Rightarrow> control_file \<Rightarrow> (storage_error, storage_state \<times> control_file) result" where
  \<comment> \<open>\<^verbatim>\<open>StorageContract.state\<close>: the state and the control file it leaves\<close>
  "storage_state_of cfg p now refresh f =
     (if \<not> sc_enabled cfg then Inr (NORMAL, f)
      else bind_result (read_state f) (\<lambda>(current, expires).
        if latched current then Inr (current, f)
        else if override_active expires now then Inr (NORMAL, f)
        else if refresh
        then (let derived = derived_state cfg p in
              if derived \<noteq> current then Inr (derived, Control derived None) else Inr (current, f))
        else Inr (current, f)))"

definition assert_write_allowed ::
  "storage_config \<Rightarrow> probe \<Rightarrow> rat \<Rightarrow> control_file \<Rightarrow> (storage_error, unit) result \<times> control_file" where
  "assert_write_allowed cfg p now f =
     (if \<not> sc_enabled cfg then (Inr (), f)
      else (case storage_state_of cfg p now True f of
              Inl e \<Rightarrow> (Inl e, f)
            | Inr (current, f') \<Rightarrow>
                (if latched current then Inl (WriteBlocked current) else Inr (), f')))"

definition mark_blocked :: "control_file \<Rightarrow> control_file" where
  "mark_blocked f = Control AUDIT_WRITE_BLOCKED None"

definition mark_safe_mode :: "control_file \<Rightarrow> control_file" where
  "mark_safe_mode f = Control SAFE_MODE None"

definition clear_block ::
  "storage_config \<Rightarrow> int option \<Rightarrow> rat \<Rightarrow> control_file \<Rightarrow> (storage_error, rat \<times> control_file) result" where
  "clear_block cfg ttl_s now f =
     (let ttl = (case ttl_s of None \<Rightarrow> override_ttl_s cfg | Some t \<Rightarrow> t) in
      if ttl \<le> 0 then Inl BadTtl
      else let expires = now + of_int ttl in Inr (expires, Control NORMAL (Some expires)))"

record health_report =
  h_state :: storage_state
  h_derived :: storage_state
  h_override :: bool
  h_write_allowed :: bool

definition storage_health ::
  "storage_config \<Rightarrow> probe \<Rightarrow> rat \<Rightarrow> control_file \<Rightarrow> (storage_error, health_report) result" where
  "storage_health cfg p now f =
     bind_result (read_state f) (\<lambda>(persisted, expires).
       let derived = derived_state cfg p;
           override = override_active expires now;
           effective = (if \<not> sc_enabled cfg then NORMAL
                        else if latched persisted then persisted
                        else if override then NORMAL else persisted)
       in Inr \<lparr>h_state = effective, h_derived = derived, h_override = override,
               h_write_allowed = (\<not> latched effective)\<rparr>)"

section \<open>Latches and overrides\<close>

lemma latch_sticky:
  assumes "sc_enabled cfg" "latched s"
  shows "assert_write_allowed cfg p now (Control s e) = (Inl (WriteBlocked s), Control s e)"
  using assms by (simp add: assert_write_allowed_def storage_state_of_def read_state_def)

lemma admission_iff:
  assumes "sc_enabled cfg" "\<not> latched s"
  shows "fst (assert_write_allowed cfg p now (Control s e)) = Inr () \<longleftrightarrow>
    override_active e now \<or> blocked_ratio cfg \<le> free_ratio p"
  using assms
  by (auto simp: assert_write_allowed_def storage_state_of_def read_state_def Let_def
      derived_state_def state_from_ratio_def latched_def)

lemma full_disk_latches:
  assumes "sc_enabled cfg" "\<not> latched s" "\<not> override_active e now" "free_ratio p < blocked_ratio cfg"
  shows "assert_write_allowed cfg p now (Control s e) =
    (Inl (WriteBlocked AUDIT_WRITE_BLOCKED), Control AUDIT_WRITE_BLOCKED None)"
  using assms
  by (auto simp: assert_write_allowed_def storage_state_of_def read_state_def Let_def
      derived_state_def state_from_ratio_def latched_def)

lemma clear_block_window:
  assumes "clear_block cfg ttl now f = Inr (expires, f')" "sc_enabled cfg"
  shows "now < expires"
    and "t < expires \<Longrightarrow> assert_write_allowed cfg p t f' = (Inr (), f')"
    and "expires \<le> t \<Longrightarrow> free_ratio p < blocked_ratio cfg \<Longrightarrow>
      fst (assert_write_allowed cfg p t f') = Inl (WriteBlocked AUDIT_WRITE_BLOCKED)"
  using assms
  by (auto simp: clear_block_def Let_def assert_write_allowed_def storage_state_of_def read_state_def
      override_active_def derived_state_def state_from_ratio_def latched_def split: if_splits)

section \<open>Properties\<close>

text \<open>Admission is exact: with an unexpired or absent latch, an enabled contract lets a write through if and
  only if the state is not latched and an override is active or the free ratio is at least the blocking one.\<close>

theorem write_admission:
  assumes "sc_enabled cfg"
  shows "fst (assert_write_allowed cfg p now (Control s e)) = Inr () \<longleftrightarrow>
    \<not> latched s \<and> (override_active e now \<or> blocked_ratio cfg \<le> free_ratio p)"
  using admission_iff [OF assms, of s p now e] latch_sticky [OF assms, of s p now e] by (cases "latched s") auto

definition default_storage :: storage_config where
  "default_storage = \<lparr>low_ratio = 1/5, critical_ratio = 1/10, blocked_ratio = 1/20, sc_enabled = True, override_ttl_s = 3600\<rparr>"

theorem write_admission_witness:
  "fst (assert_write_allowed default_storage \<lparr>free_bytes = 1, total_bytes = 100\<rparr> 0 (Control NORMAL None)) = Inr () \<longleftrightarrow>
    \<not> latched NORMAL \<and> (override_active None 0 \<or> blocked_ratio default_storage \<le> free_ratio \<lparr>free_bytes = 1, total_bytes = 100\<rparr>)"
  by (rule write_admission) (simp add: default_storage_def)

text \<open>An operator's override is temporary: after \<open>clear_block\<close> every write is admitted until the expiry,
  and from the expiry on a full disk blocks again.\<close>

theorem override_window:
  assumes "clear_block cfg ttl now f = Inr (expires, f')" "sc_enabled cfg"
  shows "now < expires \<and> (\<forall>t p. t < expires \<longrightarrow> assert_write_allowed cfg p t f' = (Inr (), f')) \<and>
    (\<forall>t p. expires \<le> t \<and> free_ratio p < blocked_ratio cfg \<longrightarrow>
      fst (assert_write_allowed cfg p t f') = Inl (WriteBlocked AUDIT_WRITE_BLOCKED))"
  using clear_block_window [OF assms] by blast

theorem override_window_witness:
  "assert_write_allowed default_storage \<lparr>free_bytes = 1, total_bytes = 100\<rparr> 3599 (Control NORMAL (Some 3600)) =
     (Inr (), Control NORMAL (Some 3600)) \<and>
   fst (assert_write_allowed default_storage \<lparr>free_bytes = 1, total_bytes = 100\<rparr> 3600 (Control NORMAL (Some 3600))) =
     Inl (WriteBlocked AUDIT_WRITE_BLOCKED)"
proof -
  have "clear_block default_storage None 0 (Control AUDIT_WRITE_BLOCKED None) = Inr (3600, Control NORMAL (Some 3600))"
    by (simp add: clear_block_def default_storage_def)
  from override_window [OF this] show ?thesis by (simp add: default_storage_def free_ratio_def)
qed

end
