(* ===== verification/Ledger_Chain.thy ===== *)
theory Ledger_Chain
  imports Json Ledger_Storage Ledger_Merkle
begin

text \<open>
  The v1 audit chain (\<^verbatim>\<open>src/src/msb_ledger/audit_chain.py\<close>): records hashed over
  their canonical text and their predecessor's hash, appended behind the keyless-append guard,
  the migration barrier and the storage contract. The table \<^verbatim>\<open>audit_records\<close> is a list in
  \<^verbatim>\<open>seq\<close> order; the SHA-256 digest is the parameter \<open>H\<close>; the clock and the environment
  are arguments. The component also provides the interface \<open>audit_sink\<close>, which the
  governed stores of the program rely on.
\<close>

section \<open>State\<close>

record audit_record =
  seq :: nat
  component :: string
  event_type :: string
  payload :: json
  timestamp :: string
  prev_hash :: string
  record_hash :: string

record chain =
  rows :: "audit_record list"
  next_seq :: nat                     \<comment> \<open>the AUTOINCREMENT counter: the next rowid\<close>
  chain_meta :: "(string \<times> string) list"    \<comment> \<open>\<^verbatim>\<open>chain_meta\<close>\<close>
  storage_file :: control_file

datatype io_outcome = IoOk | IoStorageFull | IoOther  \<comment> \<open>what the INSERT of an append meets\<close>

record chain_env =
  anchored :: bool             \<comment> \<open>wrapped by AnchoredAuditChain\<close>
  allow_keyless :: bool
  keyless_optout :: bool       \<comment> \<open>MSB_ALLOW_KEYLESS_APPENDS=1\<close>
  anchor_covers :: bool        \<comment> \<open>\<^verbatim>\<open>_anchor_covers_chain(db_path)\<close>\<close>
  default_chain :: bool
  key_configured :: bool
  storage_cfg :: storage_config
  env_disk :: probe
  env_clock :: rat
  now_iso :: string
  append_io :: io_outcome

datatype chain_error =
    KeylessRefused
  | MigrationBlocked string
  | StorageRefused storage_error
  | NonFinite
  | KeyTypeError      \<comment> \<open>\<^verbatim>\<open>sort_keys\<close> over keys that do not compare\<close>
  | AuditWriteBlockedAfterFailure
  | IoError
  | PermissionDenied
  | NotaryUnverifiable
  | UnknownSeq

definition genesis_hash :: string where
  "genesis_hash = replicate 64 CHR ''0''"

definition empty_chain :: chain where
  "empty_chain = \<lparr>rows = [], next_seq = 1, chain_meta = [], storage_file = NoFile\<rparr>"

section \<open>Hashing\<close>

definition canon_v1 :: "json \<Rightarrow> string" where
  \<comment> \<open>\<^verbatim>\<open>json.dumps(v, ensure_ascii=False, sort_keys=True)\<close>\<close>
  "canon_v1 v = dumps '', '' '': '' (sort_keys v)"

definition hashed_object :: "string \<Rightarrow> string \<Rightarrow> string \<Rightarrow> json \<Rightarrow> string \<Rightarrow> json" where
  "hashed_object prev cmp ev p ts =
     obj [(''prev_hash'', JStr prev), (''component'', JStr cmp), (''event_type'', JStr ev),
          (''payload'', p), (''timestamp'', JStr ts)]"

definition compute_hash ::
  "(string \<Rightarrow> string) \<Rightarrow> string \<Rightarrow> string \<Rightarrow> string \<Rightarrow> json \<Rightarrow> string \<Rightarrow> (chain_error, string) result" where
  "compute_hash H prev cmp ev p ts =
     (if sortable p then Inr (hex (H (canon_v1 (hashed_object prev cmp ev p ts)))) else Inl KeyTypeError)"

fun finite_json :: "json \<Rightarrow> bool" where
  \<comment> \<open>\<^verbatim>\<open>_reject_non_finite\<close> accepts\<close>
  "finite_json (JObj kvs) = list_all (\<lambda>(k, v). finite_json v) kvs"
| "finite_json (JList vs) = list_all finite_json vs"
| "finite_json (JFloat f) = (case f of Fin _ \<Rightarrow> True | _ \<Rightarrow> False)"
| "finite_json v = True"

section \<open>Operations\<close>

definition get_meta :: "chain \<Rightarrow> string \<Rightarrow> string option" where
  "get_meta c k = map_of (chain_meta c) k"

fun put_meta :: "string \<Rightarrow> string \<Rightarrow> (string \<times> string) list \<Rightarrow> (string \<times> string) list" where
  "put_meta k v [] = [(k, v)]"
| "put_meta k v ((k', v') # m) = (if k' = k then (k, v) # m else (k', v') # put_meta k v m)"

definition set_meta :: "string \<Rightarrow> string \<Rightarrow> chain \<Rightarrow> chain" where
  "set_meta k v c = c\<lparr>chain_meta := put_meta k v (chain_meta c)\<rparr>"

definition last_hash :: "chain \<Rightarrow> string" where
  "last_hash c = (if rows c = [] then genesis_hash else record_hash (last (rows c)))"

definition refuse_keyless :: "chain_env \<Rightarrow> bool" where
  "refuse_keyless env =
     (if anchored env \<or> allow_keyless env then False
      else if keyless_optout env then False
      else if anchor_covers env then True
      else default_chain env \<and> key_configured env)"

definition migration_state :: "chain \<Rightarrow> string" where
  "migration_state c = (case get_meta c ''migration_state'' of None \<Rightarrow> ''V1_ACTIVE'' | Some s \<Rightarrow> s)"

definition begin_migration :: "string \<Rightarrow> string \<Rightarrow> chain \<Rightarrow> chain option" where
  \<comment> \<open>None is the ValueError of a blank id\<close>
  "begin_migration mid now c =
     (if py_strip mid = [] then None
      else Some (set_meta ''migration_started_at'' now
             (set_meta ''migration_id'' mid (set_meta ''migration_state'' ''MIGRATING'' c))))"

definition complete_migration :: "string \<Rightarrow> chain \<Rightarrow> chain" where
  "complete_migration now c =
     set_meta ''migration_completed_at'' now (set_meta ''migration_state'' ''V2_ACTIVE'' c)"

definition abort_migration :: "string \<Rightarrow> chain \<Rightarrow> chain" where
  "abort_migration now c =
     set_meta ''migration_aborted_at'' now (set_meta ''migration_state'' ''V1_ACTIVE'' c)"

definition block_migration :: "string \<Rightarrow> string \<Rightarrow> chain \<Rightarrow> chain" where
  "block_migration reason now c =
     set_meta ''migration_blocked_at'' now
       (set_meta ''migration_blocked_reason'' reason
         (set_meta ''migration_state'' ''MIGRATION_BLOCKED'' c))"

definition append_chain ::
  "(string \<Rightarrow> string) \<Rightarrow> chain_env \<Rightarrow> string \<Rightarrow> string \<Rightarrow> json \<Rightarrow> chain \<Rightarrow>
     (chain_error, audit_record) result \<times> chain" where
  "append_chain H env cmp ev p c =
     (if refuse_keyless env then (Inl KeylessRefused, c)
      else if migration_state c \<noteq> ''V1_ACTIVE'' then (Inl (MigrationBlocked (migration_state c)), c)
      else (let (allowed, f) = assert_write_allowed (storage_cfg env) (env_disk env) (env_clock env) (storage_file c);
                c1 = c\<lparr>storage_file := f\<rparr>
            in case allowed of
                 Inl e \<Rightarrow> (Inl (StorageRefused e), c1)
               | Inr _ \<Rightarrow>
                 (if \<not> finite_json p then (Inl NonFinite, c1)
                  else (let prev = last_hash c1 in
                    case compute_hash H prev cmp ev p (now_iso env) of
                      Inl e \<Rightarrow> (Inl e, c1)
                    | Inr h \<Rightarrow>
                      (case append_io env of
                         IoOk \<Rightarrow>
                           (let r = \<lparr>seq = next_seq c1, component = cmp, event_type = ev, payload = p,
                                     timestamp = now_iso env, prev_hash = prev, record_hash = h\<rparr>
                            in (Inr r, c1\<lparr>rows := rows c1 @ [r\<lparr>payload := reload p\<rparr>],
                                           next_seq := next_seq c1 + 1\<rparr>))
                       | IoStorageFull \<Rightarrow>
                           (Inl AuditWriteBlockedAfterFailure, c1\<lparr>storage_file := mark_blocked (storage_file c1)\<rparr>)
                       | IoOther \<Rightarrow> (Inl IoError, c1))))))"

datatype break_reason = PrevMismatch | HashMismatch
datatype verdict = Valid nat | Broken nat break_reason

fun verify_rows ::
  "(string \<Rightarrow> string) \<Rightarrow> string \<Rightarrow> nat \<Rightarrow> audit_record list \<Rightarrow> (chain_error, verdict) result" where
  "verify_rows H expected n [] = Inr (Valid n)"
| "verify_rows H expected n (r # rs) =
     bind_result (compute_hash H (prev_hash r) (component r) (event_type r) (payload r) (timestamp r)) (\<lambda>h.
       if prev_hash r \<noteq> expected then Inr (Broken (seq r) PrevMismatch)
       else if h \<noteq> record_hash r then Inr (Broken (seq r) HashMismatch)
       else verify_rows H (record_hash r) (n + 1) rs)"

definition verify_chain :: "(string \<Rightarrow> string) \<Rightarrow> chain \<Rightarrow> (chain_error, verdict) result" where
  "verify_chain H c = verify_rows H genesis_hash 0 (rows c)"

datatype trust_verdict = Trusted nat | Refused

definition verify_trustworthy ::
  "(string \<Rightarrow> string) \<Rightarrow> (chain \<Rightarrow> bool) option \<Rightarrow> chain \<Rightarrow> (chain_error, trust_verdict) result" where
  \<comment> \<open>the second argument is the chain's \<^verbatim>\<open>verify_anchored\<close>, when it has one\<close>
  "verify_trustworthy H anchor_ok c =
     bind_result (verify_chain H c) (\<lambda>v. case v of
       Broken _ _ \<Rightarrow> Inr Refused
     | Valid n \<Rightarrow> (case anchor_ok of None \<Rightarrow> Inr (Trusted n)
                   | Some ok \<Rightarrow> Inr (if ok c then Trusted n else Refused)))"

definition quarantine :: "(string \<Rightarrow> string) \<Rightarrow> string \<Rightarrow> chain \<Rightarrow> (chain_error, (nat \<times> break_reason) option \<times> chain) result" where
  \<comment> \<open>None where the chain is valid and nothing is quarantined\<close>
  "quarantine H now c =
     bind_result (verify_chain H c) (\<lambda>v. case v of
       Valid _ \<Rightarrow> Inr (None, set_meta ''broken_at_seq'' [] (set_meta ''state'' ''active'' c))
     | Broken s why \<Rightarrow>
         Inr (Some (s, why),
           set_meta ''quarantined_at'' now
            (set_meta ''reason''
               (case why of PrevMismatch \<Rightarrow> ''prev_hash does not match preceding record''
                          | HashMismatch \<Rightarrow> ''stored hash does not match recomputed content hash'')
              (set_meta ''broken_at_seq'' (show_nat s)
                (set_meta ''state'' ''quarantined'' c)))))"

fun first_broken ::
  "(string \<Rightarrow> string) \<Rightarrow> string \<Rightarrow> audit_record list \<Rightarrow> (chain_error, (nat \<times> string) option) result" where
  \<comment> \<open>the first break of \<^verbatim>\<open>repair\<close>: its seq and the last verified hash\<close>
  "first_broken H expected [] = Inr None"
| "first_broken H expected (r # rs) =
     bind_result (compute_hash H (prev_hash r) (component r) (event_type r) (payload r) (timestamp r)) (\<lambda>h.
       if prev_hash r \<noteq> expected \<or> h \<noteq> record_hash r then Inr (Some (seq r, expected))
       else first_broken H (record_hash r) rs)"

fun rehash_rows ::
  "(string \<Rightarrow> string) \<Rightarrow> nat \<Rightarrow> string \<Rightarrow> audit_record list \<Rightarrow> (chain_error, audit_record list \<times> string) result" where
  \<comment> \<open>the UPDATE loop over the rows with \<^verbatim>\<open>seq >= first_broken\<close>; the others are kept\<close>
  "rehash_rows H from prev [] = Inr ([], prev)"
| "rehash_rows H from prev (r # rs) =
     (if seq r < from
      then bind_result (rehash_rows H from prev rs) (\<lambda>(rs', h). Inr (r # rs', h))
      else bind_result (compute_hash H prev (component r) (event_type r) (payload r) (timestamp r)) (\<lambda>h.
           bind_result (rehash_rows H from h rs) (\<lambda>(rs', h').
             Inr (r\<lparr>prev_hash := prev, record_hash := h\<rparr> # rs', h'))))"

record repair_report =
  repaired :: bool
  broken_at :: "nat option"
  repaired_at :: "nat option"
  record_count :: nat

definition repair ::
  "(string \<Rightarrow> string) \<Rightarrow> string option \<Rightarrow> string option \<Rightarrow> bool option \<Rightarrow> string \<Rightarrow> chain \<Rightarrow>
     (chain_error, repair_report \<times> chain) result" where
  \<comment> \<open>arguments: the configured operator token, the operator given, the notary's verdict when an
     anchor and a notary log are given, the clock. Re-anchoring is the anchor's own component.\<close>
  "repair H token operator notary now c =
     (if (case token of None \<Rightarrow> False | Some t \<Rightarrow> t \<noteq> [] \<and> (case operator of None \<Rightarrow> [] | Some x \<Rightarrow> x) \<noteq> t)
      then Inl PermissionDenied
      else bind_result (first_broken H genesis_hash (rows c)) (\<lambda>fb. case fb of
        None \<Rightarrow> Inr (\<lparr>repaired = False, broken_at = None, repaired_at = None,
                     record_count = length (rows c)\<rparr>, set_meta ''state'' ''active'' c)
      | Some (bad, anchor_hash) \<Rightarrow>
          if notary = Some False then Inl NotaryUnverifiable
          else bind_result (rehash_rows H bad anchor_hash (rows c)) (\<lambda>(rs, prev).
            let p = obj [(''broken_at_seq'', JInt (int bad)), (''anchor'', JStr anchor_hash),
                         (''operator'', JStr (case operator of None \<Rightarrow> ''unauthenticated-dev''
                                              | Some x \<Rightarrow> if x = [] then ''unauthenticated-dev'' else x))]
            in bind_result (compute_hash H prev ''chain'' ''repaired'' p now) (\<lambda>h.
               let r = \<lparr>seq = next_seq c, component = ''chain'', event_type = ''repaired'', payload = p,
                        timestamp = now, prev_hash = prev, record_hash = h\<rparr>
               in Inr (\<lparr>repaired = True, broken_at = Some bad, repaired_at = Some (next_seq c),
                        record_count = length (rows c)\<rparr>,
                       set_meta ''repaired_at'' now (set_meta ''broken_at_seq'' []
                         (set_meta ''state'' ''active''
                           (c\<lparr>rows := rs @ [r], next_seq := next_seq c + 1\<rparr>))))))))"

definition get_chain :: "string option \<Rightarrow> chain \<Rightarrow> audit_record list" where
  \<comment> \<open>an empty component filters nothing\<close>
  "get_chain cmp c = (case cmp of
     None \<Rightarrow> rows c
   | Some k \<Rightarrow> if k = [] then rows c else filter (\<lambda>r. component r = k) (rows c))"

definition chain_merkle_root :: "(string \<Rightarrow> string) \<Rightarrow> chain \<Rightarrow> string" where
  "chain_merkle_root H c = merkle_root H (map record_hash (rows c))"

fun position_of :: "nat \<Rightarrow> nat \<Rightarrow> audit_record list \<Rightarrow> nat option" where
  "position_of s i [] = None"
| "position_of s i (r # rs) = (if seq r = s then Some i else position_of s (i + 1) rs)"

definition chain_inclusion_proof ::
  "(string \<Rightarrow> string) \<Rightarrow> nat \<Rightarrow> chain \<Rightarrow> (chain_error, inclusion_proof) result" where
  "chain_inclusion_proof H s c =
     (case position_of s 0 (rows c) of
        None \<Rightarrow> Inl UnknownSeq
      | Some i \<Rightarrow> (case inclusion_proof_of H (map record_hash (rows c)) (int i) of
                    Inl _ \<Rightarrow> Inl UnknownSeq
                  | Inr p \<Rightarrow> Inr (p\<lparr>ip_seq := int s\<rparr>)))"

definition chain_verify_inclusion ::
  "(string \<Rightarrow> string) \<Rightarrow> inclusion_proof \<Rightarrow> string option \<Rightarrow> chain \<Rightarrow> bool" where
  "chain_verify_inclusion H p expected c =
     (let root = (case expected of None \<Rightarrow> chain_merkle_root H c | Some r \<Rightarrow> r) in
      if \<not> verify_inclusion H p (Some root) then False
      else if \<not> (0 \<le> ip_seq p - 1 \<and> ip_seq p - 1 < int (length (rows c))) then False
      else record_hash (rows c ! nat (ip_seq p - 1)) = leaf_hash p)"

section \<open>Valid chains\<close>

definition row_hash :: "(string \<Rightarrow> string) \<Rightarrow> audit_record \<Rightarrow> (chain_error, string) result" where
  "row_hash H r = compute_hash H (prev_hash r) (component r) (event_type r) (payload r) (timestamp r)"

fun chained :: "(string \<Rightarrow> string) \<Rightarrow> string \<Rightarrow> audit_record list \<Rightarrow> bool" where
  "chained H e [] = True"
| "chained H e (r # rs) = (row_hash H r = Inr (record_hash r) \<and> prev_hash r = e \<and> chained H (record_hash r) rs)"

definition tip_from :: "string \<Rightarrow> audit_record list \<Rightarrow> string" where
  "tip_from e rs = (if rs = [] then e else record_hash (last rs))"

lemma tip_from_simps [simp]:
  "tip_from e [] = e" "tip_from e (rs @ [r]) = record_hash r" "tip_from e (r # rs) = tip_from (record_hash r) rs"
  by (auto simp: tip_from_def)

lemma verify_rows_valid: "verify_rows H e n rs = Inr (Valid m) \<longleftrightarrow> chained H e rs \<and> m = n + length rs"
  by (induction rs arbitrary: e n) (auto simp: result_simps row_hash_def split: if_splits)

lemma verify_chain_valid: "verify_chain H c = Inr (Valid m) \<longleftrightarrow> chained H genesis_hash (rows c) \<and> m = length (rows c)"
  by (simp add: verify_chain_def verify_rows_valid)

lemma chained_append: "chained H e (rs @ ss) \<longleftrightarrow> chained H e rs \<and> chained H (tip_from e rs) ss"
  by (induction rs arbitrary: e) auto

lemma verify_rows_broken:
  "verify_rows H e n rs = Inr (Broken s why) \<Longrightarrow>
   \<exists>pre r post. rs = pre @ r # post \<and> seq r = s \<and> chained H e pre \<and>
     (if why = PrevMismatch then prev_hash r \<noteq> tip_from e pre
      else prev_hash r = tip_from e pre \<and> row_hash H r \<noteq> Inr (record_hash r))"
proof (induction rs arbitrary: e n)
  case (Cons r rs)
  from Cons.prems obtain h where h: "row_hash H r = Inr h"
    by (auto simp: result_simps row_hash_def)
  show ?case
  proof (cases "prev_hash r = e \<and> h = record_hash r")
    case False
    with Cons.prems h show ?thesis
      by (intro exI [of _ "[]"] exI [of _ r] exI [of _ rs])
        (auto simp: row_hash_def split: if_splits)
  next
    case True
    with Cons.prems h have "verify_rows H (record_hash r) (n + 1) rs = Inr (Broken s why)"
      by (simp add: row_hash_def)
    from Cons.IH [OF this] obtain pre r' post where
      "rs = pre @ r' # post" "seq r' = s" "chained H (record_hash r) pre"
      "if why = PrevMismatch then prev_hash r' \<noteq> tip_from (record_hash r) pre
       else prev_hash r' = tip_from (record_hash r) pre \<and> row_hash H r' \<noteq> Inr (record_hash r')" by blast
    with True h show ?thesis
      by (intro exI [of _ "r # pre"] exI [of _ r'] exI [of _ post]) simp
  qed
qed simp

section \<open>Appending\<close>

definition stable_payload :: "json \<Rightarrow> bool" where
  \<comment> \<open>storing and reading a payload back does not change what is hashed\<close>
  "stable_payload p \<longleftrightarrow> sortable (reload p) \<and> sort_keys (reload p) = sort_keys p"

lemma stable_well_formed: "well_formed p \<Longrightarrow> stable_payload p"
  by (simp add: stable_payload_def reload_well_formed well_formed_sortable)

lemma canon_hashed_cong:
  "sort_keys p = sort_keys q \<Longrightarrow> canon_v1 (hashed_object prev cmp ev p ts) = canon_v1 (hashed_object prev cmp ev q ts)"
  by (simp add: canon_v1_def hashed_object_def)

lemma append_chain_Inr:
  assumes "append_chain H env cmp ev p c = (Inr r, c')"
  shows "rows c' = rows c @ [r\<lparr>payload := reload p\<rparr>]" "payload r = p" "component r = cmp" "event_type r = ev"
    "prev_hash r = last_hash c" "seq r = next_seq c" "next_seq c' = next_seq c + 1" "chain_meta c' = chain_meta c"
    "row_hash H r = Inr (record_hash r)" "finite_json p" "\<not> refuse_keyless env" "migration_state c = ''V1_ACTIVE''"
  using assms
  by (auto simp: append_chain_def Let_def last_hash_def row_hash_def split: if_splits prod.splits sum.splits io_outcome.splits)

lemma append_chain_Inl:
  assumes "append_chain H env cmp ev p c = (Inl e, c')"
  shows "rows c' = rows c" "next_seq c' = next_seq c" "chain_meta c' = chain_meta c"
  using assms
  by (auto simp: append_chain_def Let_def split: if_splits prod.splits sum.splits io_outcome.splits)

lemma append_chain_ok:
  assumes "\<not> refuse_keyless env" "migration_state c = ''V1_ACTIVE''" "finite_json p" "sortable p" "append_io env = IoOk"
    and "fst (assert_write_allowed (storage_cfg env) (env_disk env) (env_clock env) (storage_file c)) = Inr ()"
  shows "\<exists>r c'. append_chain H env cmp ev p c = (Inr r, c')"
  using assms by (auto simp: append_chain_def compute_hash_def Let_def split: prod.splits)

lemma last_hash_tip: "last_hash c = tip_from genesis_hash (rows c)"
  by (simp add: last_hash_def tip_from_def)

lemma append_chained:
  assumes "chained H genesis_hash (rows c)" and app: "append_chain H env cmp ev p c = (Inr r, c')"
    and "stable_payload p"
  shows "chained H genesis_hash (rows c')"
proof -
  note a = append_chain_Inr [OF app]
  have "row_hash H (r\<lparr>payload := reload p\<rparr>) = Inr (record_hash r)"
    using a(2,9) assms(3) canon_hashed_cong [of "reload p" p]
    by (auto simp: row_hash_def compute_hash_def stable_payload_def split: if_splits)
  with a assms(1) show ?thesis by (simp add: chained_append last_hash_tip)
qed

text \<open>Sequence numbers: strictly increasing, below the counter.\<close>

definition wf_chain :: "chain \<Rightarrow> bool" where
  "wf_chain c \<longleftrightarrow> sorted_wrt (<) (map seq (rows c)) \<and> (\<forall>r \<in> set (rows c). seq r < next_seq c)"

lemma wf_empty_chain: "wf_chain empty_chain"
  by (simp add: wf_chain_def empty_chain_def)

lemma wf_append_chain: "wf_chain c \<Longrightarrow> wf_chain (snd (append_chain H env cmp ev p c))"
proof (cases "append_chain H env cmp ev p c")
  case (Pair r c')
  assume wf: "wf_chain c"
  show ?thesis
  proof (cases r)
    case (Inl e)
    with Pair append_chain_Inl [of H env cmp ev p c e c'] wf show ?thesis by (simp add: wf_chain_def)
  next
    case (Inr rec)
    with Pair append_chain_Inr [of H env cmp ev p c rec c'] wf show ?thesis
      by (auto simp: wf_chain_def sorted_wrt_append less_Suc_eq)
  qed
qed

section \<open>Tamper evidence\<close>

definition preimage :: "audit_record \<Rightarrow> string" where
  "preimage r = canon_v1 (hashed_object (prev_hash r) (component r) (event_type r) (payload r) (timestamp r))"

definition content :: "audit_record \<Rightarrow> string \<times> string \<times> json \<times> string \<times> string \<times> string" where
  \<comment> \<open>what the chain binds: everything but \<^verbatim>\<open>seq\<close>, the payload up to key order\<close>
  "content r = (component r, event_type r, sort_keys (payload r), timestamp r, prev_hash r, record_hash r)"

lemma hashed_object_wf: "well_formed p \<Longrightarrow> well_formed (hashed_object a b c p t)"
  by (simp add: hashed_object_def)

lemma comma_sep_v1: "comma_sep '', ''"
  by (simp add: comma_sep_def)

lemma preimage_inj:
  assumes "preimage r = preimage s" "well_formed (payload r)" "well_formed (payload s)"
    and "record_hash r = record_hash s"
  shows "content r = content s"
proof -
  have "sort_keys (hashed_object (prev_hash r) (component r) (event_type r) (payload r) (timestamp r)) =
        sort_keys (hashed_object (prev_hash s) (component s) (event_type s) (payload s) (timestamp s))"
    using assms dumps_inj [OF _ comma_sep_v1]
    by (simp add: preimage_def canon_v1_def well_formed_sort_keys hashed_object_wf)
  then have "set (foldr insert_item (map (\<lambda>(k, v). (k, sort_keys v)) [(KStr ''prev_hash'', JStr (prev_hash r)),
      (KStr ''component'', JStr (component r)), (KStr ''event_type'', JStr (event_type r)),
      (KStr ''payload'', payload r), (KStr ''timestamp'', JStr (timestamp r))]) []) =
     set (foldr insert_item (map (\<lambda>(k, v). (k, sort_keys v)) [(KStr ''prev_hash'', JStr (prev_hash s)),
      (KStr ''component'', JStr (component s)), (KStr ''event_type'', JStr (event_type s)),
      (KStr ''payload'', payload s), (KStr ''timestamp'', JStr (timestamp s))]) [])"
    unfolding hashed_object_def sort_keys.simps by simp
  then have "{(KStr ''prev_hash'', JStr (prev_hash r)), (KStr ''component'', JStr (component r)),
      (KStr ''event_type'', JStr (event_type r)), (KStr ''payload'', sort_keys (payload r)),
      (KStr ''timestamp'', JStr (timestamp r))} =
     {(KStr ''prev_hash'', JStr (prev_hash s)), (KStr ''component'', JStr (component s)),
      (KStr ''event_type'', JStr (event_type s)), (KStr ''payload'', sort_keys (payload s)),
      (KStr ''timestamp'', JStr (timestamp s))}" (is "?A = ?B")
    unfolding set_sort_items by simp
  then have sub: "x \<in> ?A \<Longrightarrow> x \<in> ?B" for x by simp
  have "prev_hash r = prev_hash s" using sub [of "(KStr ''prev_hash'', JStr (prev_hash r))"] by simp
  moreover have "component r = component s" using sub [of "(KStr ''component'', JStr (component r))"] by simp
  moreover have "event_type r = event_type s" using sub [of "(KStr ''event_type'', JStr (event_type r))"] by simp
  moreover have "sort_keys (payload r) = sort_keys (payload s)"
    using sub [of "(KStr ''payload'', sort_keys (payload r))"] by simp
  moreover have "timestamp r = timestamp s" using sub [of "(KStr ''timestamp'', JStr (timestamp r))"] by simp
  ultimately show ?thesis using assms(4) by (simp add: content_def)
qed

lemma row_hash_preimage: "row_hash H r = Inr h \<Longrightarrow> h = hex (H (preimage r))"
  by (auto simp: row_hash_def compute_hash_def preimage_def split: if_splits)

definition collision_free :: "(string \<Rightarrow> string) \<Rightarrow> audit_record list \<Rightarrow> bool" where
  \<comment> \<open>no two of these preimages collide, and none hashes to the genesis marker\<close>
  "collision_free H rs \<longleftrightarrow> inj_on H (preimage ` set rs) \<and> (\<forall>r \<in> set rs. hex (H (preimage r)) \<noteq> genesis_hash)"

lemma same_tip_same_content:
  assumes "chained H genesis_hash rs" "chained H genesis_hash ss"
    and "tip_from genesis_hash rs = tip_from genesis_hash ss"
    and cf: "collision_free H (rs @ ss)" and wf: "\<forall>r \<in> set (rs @ ss). well_formed (payload r)"
  shows "map content rs = map content ss"
  using assms
proof (induction rs arbitrary: ss rule: rev_induct)
  case Nil
  show ?case
  proof (cases ss rule: rev_cases)
    case (snoc ss' s)
    with Nil row_hash_preimage [of H s] show ?thesis
      by (auto simp: chained_append collision_free_def)
  qed simp
next
  case (snoc r rs)
  show ?case
  proof (cases ss rule: rev_cases)
    case Nil
    with snoc row_hash_preimage [of H r] show ?thesis
      by (auto simp: chained_append collision_free_def)
  next
    case (snoc ss' s)
    note prems = snoc.prems
    have hr: "row_hash H r = Inr (record_hash r)" "prev_hash r = tip_from genesis_hash rs"
      and hs: "row_hash H s = Inr (record_hash s)" "prev_hash s = tip_from genesis_hash ss'"
      and eq: "record_hash r = record_hash s"
      using \<open>chained H genesis_hash (rs @ [r])\<close> \<open>chained H genesis_hash ss\<close>
        \<open>tip_from genesis_hash (rs @ [r]) = tip_from genesis_hash ss\<close> snoc
      by (auto simp: chained_append)
    have "hex (H (preimage r)) = hex (H (preimage s))"
      using row_hash_preimage [OF hr(1)] row_hash_preimage [OF hs(1)] eq by simp
    then have "preimage r = preimage s"
      using \<open>collision_free H ((rs @ [r]) @ ss)\<close> snoc
      by (auto simp: collision_free_def hex_inj dest!: inj_onD)
    with eq have c: "content r = content s"
      using \<open>\<forall>r \<in> set ((rs @ [r]) @ ss). well_formed (payload r)\<close> snoc by (intro preimage_inj) auto
    then have tips: "tip_from genesis_hash rs = tip_from genesis_hash ss'"
      using hr(2) hs(2) by (simp add: content_def)
    have "map content rs = map content ss'"
    proof (rule \<open>\<And>ss. _ \<Longrightarrow> _ \<Longrightarrow> _ \<Longrightarrow> _ \<Longrightarrow> _ \<Longrightarrow> map content rs = map content ss\<close>)
      show "chained H genesis_hash rs" "chained H genesis_hash ss'"
        using \<open>chained H genesis_hash (rs @ [r])\<close> \<open>chained H genesis_hash ss\<close> snoc
        by (auto simp: chained_append)
      show "collision_free H (rs @ ss')"
        using \<open>collision_free H ((rs @ [r]) @ ss)\<close> snoc
        by (auto simp: collision_free_def intro: inj_on_subset)
    qed (use tips \<open>\<forall>r \<in> set ((rs @ [r]) @ ss). well_formed (payload r)\<close> snoc in auto)
    with c snoc show ?thesis by simp
  qed
qed

section \<open>Repair\<close>

lemma first_broken_None: "first_broken H e rs = Inr None \<Longrightarrow> chained H e rs"
  by (induction rs arbitrary: e) (auto simp: result_simps row_hash_def split: if_splits)

lemma first_broken_Some:
  "first_broken H e rs = Inr (Some (s, h)) \<Longrightarrow>
   \<exists>pre r post. rs = pre @ r # post \<and> seq r = s \<and> chained H e pre \<and> h = tip_from e pre"
proof (induction rs arbitrary: e)
  case (Cons r rs)
  from Cons.prems obtain g where g: "row_hash H r = Inr g" by (auto simp: result_simps row_hash_def)
  show ?case
  proof (cases "prev_hash r \<noteq> e \<or> g \<noteq> record_hash r")
    case True
    with Cons.prems g show ?thesis
      by (intro exI [of _ "[]"]) (auto simp: row_hash_def)
  next
    case False
    with Cons.prems g have "first_broken H (record_hash r) rs = Inr (Some (s, h))" by (simp add: row_hash_def)
    from Cons.IH [OF this] obtain pre r' post where
      "rs = pre @ r' # post" "seq r' = s" "chained H (record_hash r) pre" "h = tip_from (record_hash r) pre" by blast
    with False g show ?thesis by (intro exI [of _ "r # pre"] exI [of _ r'] exI [of _ post]) simp
  qed
qed simp

definition body :: "audit_record \<Rightarrow> nat \<times> string \<times> string \<times> json \<times> string" where
  "body r = (seq r, component r, event_type r, payload r, timestamp r)"

lemma rehash_tail:
  assumes "rehash_rows H from prev rs = Inr (rs', h)" "\<forall>r \<in> set rs. from \<le> seq r"
  shows "chained H prev rs' \<and> h = tip_from prev rs' \<and> map body rs' = map body rs"
  using assms
proof (induction rs arbitrary: prev rs')
  case (Cons r rs)
  from Cons.prems obtain g rs2 where g: "compute_hash H prev (component r) (event_type r) (payload r) (timestamp r) = Inr g"
    and rec: "rehash_rows H from g rs = Inr (rs2, h)" and rs': "rs' = r\<lparr>prev_hash := prev, record_hash := g\<rparr> # rs2"
    by (auto simp: result_simps split: if_splits)
  from Cons.IH [OF rec] Cons.prems(2) g rs' show ?case by (simp add: row_hash_def body_def)
qed simp

lemma rehash_prefix:
  assumes "\<forall>r \<in> set pre. seq r < from"
  shows "rehash_rows H from prev (pre @ rs) =
    bind_result (rehash_rows H from prev rs) (\<lambda>(rs', h). Inr (pre @ rs', h))"
  using assms by (induction pre) (auto simp: bind_result_def split: sum.splits)

lemma repair_valid:
  assumes rep: "repair H token operator notary now c = Inr (report, c')" and wf: "wf_chain c"
  shows "chained H genesis_hash (rows c')"
    and "map body (rows c') = map body (rows c) @
      (if repaired report then [body (last (rows c'))] else [])"
    and "\<not> repaired report \<Longrightarrow> rows c' = rows c"
    and "repaired report \<Longrightarrow> component (last (rows c')) = ''chain'' \<and> event_type (last (rows c')) = ''repaired''"
proof -
  from rep obtain fb where fb: "first_broken H genesis_hash (rows c) = Inr fb"
    by (auto simp: repair_def result_simps split: if_splits)
  have goal: "chained H genesis_hash (rows c') \<and> map body (rows c') = map body (rows c) @
      (if repaired report then [body (last (rows c'))] else []) \<and> (\<not> repaired report \<longrightarrow> rows c' = rows c) \<and>
      (repaired report \<longrightarrow> component (last (rows c')) = ''chain'' \<and> event_type (last (rows c')) = ''repaired'')"
  proof (cases fb)
    case None
    with rep fb have "rows c' = rows c" "\<not> repaired report"
      by (auto simp: repair_def set_meta_def split: if_splits)
    with first_broken_None fb None show ?thesis by simp
  next
    case (Some sb)
    obtain bad anch where sb: "sb = (bad, anch)" by (cases sb)
    from first_broken_Some fb Some sb obtain pre r post where
      split: "rows c = pre @ r # post" "seq r = bad" "chained H genesis_hash pre" "anch = tip_from genesis_hash pre"
      by blast
    from wf split have lo: "\<forall>x \<in> set pre. seq x < bad" and hi: "\<forall>x \<in> set (r # post). bad \<le> seq x"
      by (auto simp: wf_chain_def sorted_wrt_append)
    from rep fb Some sb obtain rs prev where
      re: "rehash_rows H bad anch (rows c) = Inr (rs, prev)"
      by (auto simp: repair_def result_simps split: if_splits)
    then obtain tl where tl: "rehash_rows H bad anch (r # post) = Inr (tl, prev)" "rs = pre @ tl"
      unfolding split(1) rehash_prefix [OF lo] by (auto simp: result_simps)
    note rt = rehash_tail [OF tl(1) hi]
    define p where "p = obj [(''broken_at_seq'', JInt (int bad)), (''anchor'', JStr anch),
      (''operator'', JStr (case operator of None \<Rightarrow> ''unauthenticated-dev''
                           | Some x \<Rightarrow> if x = [] then ''unauthenticated-dev'' else x))]"
    from rep fb Some sb re obtain h where
      h: "compute_hash H prev ''chain'' ''repaired'' p now = Inr h" and
      c': "rows c' = rs @ [\<lparr>seq = next_seq c, component = ''chain'', event_type = ''repaired'', payload = p,
                        timestamp = now, prev_hash = prev, record_hash = h\<rparr>]" and "repaired report"
      unfolding p_def by (auto simp: repair_def result_simps set_meta_def Let_def split: if_splits)
    have "chained H genesis_hash rs" "tip_from genesis_hash rs = prev"
      using rt tl split(3,4) by (auto simp: chained_append tip_from_def)
    with h c' rt tl split \<open>repaired report\<close> show ?thesis
      by (simp add: chained_append row_hash_def)
  qed
  show "chained H genesis_hash (rows c')" using goal by blast
  show "map body (rows c') = map body (rows c) @ (if repaired report then [body (last (rows c'))] else [])"
    using goal by blast
  show "\<not> repaired report \<Longrightarrow> rows c' = rows c" using goal by blast
  show "repaired report \<Longrightarrow> component (last (rows c')) = ''chain'' \<and> event_type (last (rows c')) = ''repaired''"
    using goal by blast
qed

section \<open>The interface the governed stores use\<close>

text \<open>
  An appender takes its state, a component, an event and a payload, and returns the sequence
  number, or None where the append raised. The law: a successful append extends the log by
  exactly that event, a refused one leaves the log as it was.
\<close>

type_synonym 'c appender = "'c \<Rightarrow> string \<Rightarrow> string \<Rightarrow> json \<Rightarrow> nat option \<times> 'c"
type_synonym log_entry = "string \<times> string \<times> json"

locale audit_sink =
  fixes app :: "'c appender"
    and log :: "'c \<Rightarrow> log_entry list"
    and stored :: "json \<Rightarrow> json"
  assumes app_Some: "app c k e p = (Some s, c') \<Longrightarrow> log c' = log c @ [(k, e, stored p)]"
    and app_None: "app c k e p = (None, c') \<Longrightarrow> log c' = log c"
begin

lemma app_log: "log (snd (app c k e p)) = log c @ (if fst (app c k e p) = None then [] else [(k, e, stored p)])"
  by (cases "app c k e p"; cases "fst (app c k e p)") (auto dest: app_Some app_None)

lemma app_extends: "\<exists>es. log (snd (app c k e p)) = log c @ es"
  by (simp add: app_log)

end

definition sink :: "(string \<Rightarrow> string) \<Rightarrow> chain_env \<Rightarrow> chain appender" where
  "sink H env c k e p = (let (r, c') = append_chain H env k e p c in
     ((case r of Inl _ \<Rightarrow> None | Inr x \<Rightarrow> Some (seq x)), c'))"

definition chain_log :: "chain \<Rightarrow> log_entry list" where
  "chain_log c = map (\<lambda>r. (component r, event_type r, payload r)) (rows c)"

lemma sink_ok:
  assumes "\<not> refuse_keyless env" "migration_state c = ''V1_ACTIVE''" "finite_json p" "sortable p" "append_io env = IoOk"
    and "fst (assert_write_allowed (storage_cfg env) (env_disk env) (env_clock env) (storage_file c)) = Inr ()"
  shows "\<exists>n c'. sink H env c k e p = (Some n, c')"
  using append_chain_ok [OF assms, of H k e] by (auto simp: sink_def)

interpretation chain_sink: audit_sink "sink H env" chain_log reload for H env
proof unfold_locales
  show "chain_log c' = chain_log c @ [(k, e, reload p)]" if s: "sink H env c k e p = (Some s, c')" for c k e p s c'
  proof -
    from s obtain r where r: "append_chain H env k e p c = (Inr r, c')"
      by (auto simp: sink_def split: prod.splits sum.splits)
    from append_chain_Inr [OF r] show ?thesis by (simp add: chain_log_def)
  qed
  show "chain_log c' = chain_log c" if s: "sink H env c k e p = (None, c')" for c k e p c'
  proof -
    from s obtain x where x: "append_chain H env k e p c = (Inl x, c')"
      by (auto simp: sink_def split: prod.splits sum.splits)
    from append_chain_Inl [OF x] show ?thesis by (simp add: chain_log_def)
  qed
qed

section \<open>Properties\<close>

definition quiet_env :: chain_env where
  "quiet_env = \<lparr>anchored = False, allow_keyless = True, keyless_optout = False, anchor_covers = False,
     default_chain = False, key_configured = False, storage_cfg = default_storage,
     env_disk = \<lparr>free_bytes = 90, total_bytes = 100\<rparr>, env_clock = 0, now_iso = ''t'', append_io = IoOk\<rparr>"

lemma quiet_sink:
  assumes "migration_state c = ''V1_ACTIVE''" "finite_json p" "sortable p" "storage_file c = NoFile"
  shows "\<exists>r c'. append_chain H quiet_env k e p c = (Inr r, c')"
    and "\<exists>n c'. sink H quiet_env c k e p = (Some n, c')"
  by (rule append_chain_ok sink_ok; simp add: assms quiet_env_def refuse_keyless_def default_storage_def
        assert_write_allowed_def storage_state_of_def read_state_def override_active_def latched_def
        derived_state_def state_from_ratio_def free_ratio_def Let_def)+

lemma empty_chain_ready: "migration_state empty_chain = ''V1_ACTIVE''" "storage_file empty_chain = NoFile"
  by (simp_all add: migration_state_def get_meta_def empty_chain_def)

text \<open>C1: Appending keeps a valid chain valid: after a successful append of a well-formed payload the stored
  chain verifies, with one record more.\<close>

theorem append_keeps_the_chain_valid:
  assumes "verify_chain H c = Inr (Valid n)" "append_chain H env cmp ev p c = (Inr r, c')" "well_formed p"
  shows "verify_chain H c' = Inr (Valid (n + 1))"
  using append_chained [OF _ assms(2) stable_well_formed [OF assms(3)]] append_chain_Inr(1) [OF assms(2)] assms(1)
  by (simp add: verify_chain_valid)

theorem append_keeps_the_chain_valid_witness:
  "\<exists>r c'. append_chain (\<lambda>s. s) quiet_env ''c'' ''e'' (JObj []) empty_chain = (Inr r, c') \<and>
     verify_chain (\<lambda>s. s) c' = Inr (Valid (0 + 1))"
proof -
  obtain r c' where a: "append_chain (\<lambda>s. s) quiet_env ''c'' ''e'' (JObj []) empty_chain = (Inr r, c')"
    using quiet_sink(1) [OF empty_chain_ready(1) _ _ empty_chain_ready(2), of "JObj []"] by fastforce
  have "verify_chain (\<lambda>s. s) empty_chain = Inr (Valid 0)" by (simp add: verify_chain_def empty_chain_def)
  from append_keeps_the_chain_valid [OF this a] a show ?thesis by simp
qed

text \<open>C2: Tampering is evident: two chains whose payloads are well formed (finite floats, distinct string keys), that
  verify and end in the same hash hold the same components, events, payloads up to key order, timestamps and hashes,
  record by record, provided that the hash does not collide on the texts of their records and sends none of these texts
  to the genesis marker.\<close>

theorem same_head_same_history:
  assumes "verify_chain H c = Inr (Valid n)" "verify_chain H d = Inr (Valid m)" "last_hash c = last_hash d"
    and "collision_free H (rows c @ rows d)" "\<forall>r \<in> set (rows c @ rows d). well_formed (payload r)"
  shows "map content (rows c) = map content (rows d)"
  using assms by (intro same_tip_same_content [of H]) (simp_all add: verify_chain_valid last_hash_tip)

lemma hex_preimage_not_genesis: "hex (preimage r) \<noteq> genesis_hash"
proof -
  obtain rest where "preimage r = CHR ''{'' # rest" by (simp add: preimage_def canon_v1_def hashed_object_def)
  moreover have "take 1 (hex (CHR ''{'' # rest)) = ''7''" for rest
    by (simp add: hex_def byte_hex_def hex_of_def) code_simp
  moreover have "take 1 genesis_hash = ''0''" by (simp add: genesis_hash_def)
  ultimately have "take 1 (hex (preimage r)) \<noteq> take 1 genesis_hash" by simp
  then show ?thesis by auto
qed

text \<open>Two chains that differ in the order of a payload's keys and end in the same hash.\<close>

definition keyed_chain :: "json \<Rightarrow> chain" where
  "keyed_chain p = empty_chain\<lparr>rows := [\<lparr>seq = 1, component = ''c'', event_type = ''e'', payload = p, timestamp = ''t'',
     prev_hash = genesis_hash, record_hash = hex (canon_v1 (hashed_object genesis_hash ''c'' ''e'' p ''t''))\<rparr>]\<rparr>"

lemma keyed_chain_valid:
  "sortable p \<Longrightarrow> verify_chain (\<lambda>s. s) (keyed_chain p) = Inr (Valid 1)"
  by (simp add: verify_chain_def keyed_chain_def compute_hash_def)

lemma keyed_chain_tip: "sort_keys p = sort_keys q \<Longrightarrow> last_hash (keyed_chain p) = last_hash (keyed_chain q)"
  using canon_hashed_cong [of p q] by (simp add: keyed_chain_def last_hash_def)

theorem same_head_same_history_witness:
  "let c = keyed_chain (obj [(''a'', JInt 1), (''b'', JInt 2)]); d = keyed_chain (obj [(''b'', JInt 2), (''a'', JInt 1)])
   in rows c \<noteq> rows d \<and> map content (rows c) = map content (rows d)"
proof -
  let ?p = "obj [(''a'', JInt 1), (''b'', JInt 2)]" and ?q = "obj [(''b'', JInt 2), (''a'', JInt 1)]"
  have "sortable ?p" "sortable ?q" "sort_keys ?p = sort_keys ?q" by code_simp+
  moreover have "collision_free (\<lambda>s. s) (rows (keyed_chain ?p) @ rows (keyed_chain ?q))"
    by (simp add: collision_free_def hex_preimage_not_genesis)
  moreover have "\<forall>r \<in> set (rows (keyed_chain ?p) @ rows (keyed_chain ?q)). well_formed (payload r)"
    by (simp add: keyed_chain_def)
  ultimately have "map content (rows (keyed_chain ?p)) = map content (rows (keyed_chain ?q))"
    by (intro same_head_same_history [OF keyed_chain_valid keyed_chain_valid keyed_chain_tip])
  then show ?thesis by (simp add: keyed_chain_def)
qed

text \<open>A broken chain is reported at its first broken record: everything before the reported record
  verifies, and the record itself fails its link or its own hash.\<close>

theorem verification_finds_the_first_break:
  assumes "verify_chain H c = Inr (Broken s why)"
  shows "\<exists>pre r post. rows c = pre @ r # post \<and> seq r = s \<and>
    verify_chain H (c\<lparr>rows := pre\<rparr>) = Inr (Valid (length pre)) \<and>
    (if why = PrevMismatch then prev_hash r \<noteq> last_hash (c\<lparr>rows := pre\<rparr>) else row_hash H r \<noteq> Inr (record_hash r))"
proof -
  from verify_rows_broken assms obtain pre r post where
    "rows c = pre @ r # post" "seq r = s" "chained H genesis_hash pre"
    "if why = PrevMismatch then prev_hash r \<noteq> tip_from genesis_hash pre
     else prev_hash r = tip_from genesis_hash pre \<and> row_hash H r \<noteq> Inr (record_hash r)"
    unfolding verify_chain_def by blast
  then show ?thesis
    by (intro exI [of _ pre] exI [of _ r] exI [of _ post]) (auto simp: verify_chain_valid last_hash_tip split: if_splits)
qed

definition forged_record :: audit_record where
  "forged_record = \<lparr>seq = 1, component = ''c'', event_type = ''e'', payload = JNull, timestamp = ''t'',
     prev_hash = genesis_hash, record_hash = ''x''\<rparr>"

lemma forged_broken: "verify_chain (\<lambda>s. []) (empty_chain\<lparr>rows := [forged_record]\<rparr>) = Inr (Broken 1 HashMismatch)"
  by (simp add: verify_chain_def forged_record_def compute_hash_def hex_def)

theorem verification_finds_the_first_break_witness:
  "\<exists>pre r post. rows (empty_chain\<lparr>rows := [forged_record]\<rparr>) = pre @ r # post \<and> seq r = 1 \<and>
    verify_chain (\<lambda>s. []) ((empty_chain\<lparr>rows := [forged_record]\<rparr>)\<lparr>rows := pre\<rparr>) = Inr (Valid (length pre)) \<and>
    (if HashMismatch = PrevMismatch then prev_hash r \<noteq> last_hash ((empty_chain\<lparr>rows := [forged_record]\<rparr>)\<lparr>rows := pre\<rparr>)
     else row_hash (\<lambda>s. []) r \<noteq> Inr (record_hash r))"
  by (rule verification_finds_the_first_break [OF forged_broken])

text \<open>C7: A repair leaves a chain that verifies and rewrites no content: sequence numbers, components, events,
  payloads and timestamps stay as they were, and the repair itself is recorded as one more record.\<close>

theorem repair_restores_the_chain:
  assumes "repair H token operator notary now c = Inr (report, c')" "wf_chain c"
  shows "verify_chain H c' = Inr (Valid (length (rows c'))) \<and>
    map body (rows c') = map body (rows c) @ (if repaired report then [body (last (rows c'))] else []) \<and>
    (if repaired report then component (last (rows c')) = ''chain'' \<and> event_type (last (rows c')) = ''repaired''
     else rows c' = rows c)"
  using repair_valid [OF assms] by (simp add: verify_chain_valid)

definition repaired_world where
  "repaired_world = projr (repair (\<lambda>s. []) None None None ''t'' (empty_chain\<lparr>rows := [forged_record], next_seq := 2\<rparr>))"

theorem repair_restores_the_chain_witness:
  "verify_chain (\<lambda>s. []) (snd repaired_world) = Inr (Valid (length (rows (snd repaired_world)))) \<and>
    map body (rows (snd repaired_world)) = map body (rows (empty_chain\<lparr>rows := [forged_record], next_seq := 2\<rparr>)) @
      (if repaired (fst repaired_world) then [body (last (rows (snd repaired_world)))] else []) \<and>
    (if repaired (fst repaired_world) then component (last (rows (snd repaired_world))) = ''chain'' \<and>
         event_type (last (rows (snd repaired_world))) = ''repaired''
     else rows (snd repaired_world) = rows (empty_chain\<lparr>rows := [forged_record], next_seq := 2\<rparr>))"
  by (rule repair_restores_the_chain [of "\<lambda>s. []" None None None "''t''"])
    (simp_all add: repaired_world_def repair_def forged_record_def compute_hash_def hex_def Let_def
      wf_chain_def empty_chain_def)

text \<open>What verification alone does not cover: dropping records from the end, and renumbering records,
  both leave a valid chain valid.\<close>

theorem truncation_and_renumbering_pass:
  assumes "verify_chain H c = Inr (Valid n)"
  shows "verify_chain H (c\<lparr>rows := take k (rows c)\<rparr>) = Inr (Valid (min (length (rows c)) k)) \<and>
    verify_chain H (c\<lparr>rows := map (\<lambda>r. r\<lparr>seq := f (seq r)\<rparr>) (rows c)\<rparr>) = Inr (Valid n)"
proof -
  have ch: "chained H genesis_hash (rows c)" "n = length (rows c)" using assms by (simp_all add: verify_chain_valid)
  then have "chained H genesis_hash (take k (rows c) @ drop k (rows c))" by simp
  then have "chained H genesis_hash (take k (rows c))" unfolding chained_append by blast
  moreover have "chained H e (map (\<lambda>r. r\<lparr>seq := f (seq r)\<rparr>) rs) = chained H e rs" for e rs
    by (induction rs arbitrary: e) (simp_all add: row_hash_def)
  ultimately show ?thesis using ch by (simp add: verify_chain_valid)
qed

theorem truncation_and_renumbering_pass_witness:
  "verify_chain (\<lambda>s. []) ((empty_chain\<lparr>rows := [forged_record\<lparr>record_hash := []\<rparr>]\<rparr>)
      \<lparr>rows := take 0 (rows (empty_chain\<lparr>rows := [forged_record\<lparr>record_hash := []\<rparr>]\<rparr>))\<rparr>) =
      Inr (Valid (min (length (rows (empty_chain\<lparr>rows := [forged_record\<lparr>record_hash := []\<rparr>]\<rparr>))) 0)) \<and>
    verify_chain (\<lambda>s. []) ((empty_chain\<lparr>rows := [forged_record\<lparr>record_hash := []\<rparr>]\<rparr>)
      \<lparr>rows := map (\<lambda>r. r\<lparr>seq := (\<lambda>n. n + 7) (seq r)\<rparr>) (rows (empty_chain\<lparr>rows := [forged_record\<lparr>record_hash := []\<rparr>]\<rparr>))\<rparr>) =
      Inr (Valid 1)"
  by (rule truncation_and_renumbering_pass)
    (simp add: verify_chain_def forged_record_def compute_hash_def hex_def)

definition int_keys :: json where
  "int_keys = JObj [(KInt 9, JNull), (KInt 10, JNull)]"

text \<open>A legitimate append can break the chain: integer keys are sorted as numbers when the record is hashed
  and as strings when it is verified, so a payload with keys 9 and 10 is appended and then reported as tampered.\<close>

theorem integer_keys_break_verification:
  assumes "H (canon_v1 (hashed_object genesis_hash ''c'' ''e'' int_keys ''t'')) \<noteq>
           H (canon_v1 (hashed_object genesis_hash ''c'' ''e'' (reload int_keys) ''t''))"
    and "append_chain H quiet_env ''c'' ''e'' int_keys empty_chain = (Inr r, c')"
  shows "verify_chain H c' = Inr (Broken 1 HashMismatch)"
proof -
  note a = append_chain_Inr [OF assms(2)]
  have row: "rows c' = [r\<lparr>payload := reload int_keys\<rparr>]" "seq r = 1" "prev_hash r = genesis_hash"
    using a by (simp_all add: empty_chain_def last_hash_def)
  have ts: "timestamp r = ''t''"
    using assms(2) by (auto simp: append_chain_def quiet_env_def Let_def split: if_splits prod.splits sum.splits)
  have h: "record_hash r = hex (H (canon_v1 (hashed_object genesis_hash ''c'' ''e'' int_keys ''t'')))"
    using a(9) a(2-4) row(3) ts by (auto simp: row_hash_def compute_hash_def split: if_splits)
  have "sortable (reload int_keys)" by code_simp
  then show ?thesis
    using assms(1) a(3,4) row ts h by (simp add: verify_chain_def compute_hash_def hex_inj)
qed

lemma int_keys_texts:
  "canon_v1 (hashed_object genesis_hash ''c'' ''e'' int_keys ''t'') \<noteq>
   canon_v1 (hashed_object genesis_hash ''c'' ''e'' (reload int_keys) ''t'')"
  by code_simp

theorem integer_keys_break_verification_witness:
  "\<exists>c. verify_chain (\<lambda>s. s) c = Inr (Broken 1 HashMismatch)"
proof -
  obtain r c' where "append_chain (\<lambda>s. s) quiet_env ''c'' ''e'' int_keys empty_chain = (Inr r, c')"
    using quiet_sink(1) [OF empty_chain_ready(1) _ _ empty_chain_ready(2), of int_keys "\<lambda>s. s" "''c''" "''e''"]
    by (fastforce simp: int_keys_def)
  from integer_keys_break_verification [OF int_keys_texts this] show ?thesis by blast
qed

end
