(* ===== verification/Ledger_AuditV2.thy ===== *)
theory Ledger_AuditV2
  imports Ledger_Chain
begin

text \<open>
  The v2 record format and its standalone verifier
  (\<^verbatim>\<open>src/src/msb_ledger/audit_v2.py\<close>), the read-only v1 export
  (\<^verbatim>\<open>audit_v1_export.py\<close>, its verification of the rows) and the append-only v2
  segment of \<^verbatim>\<open>migration.py\<close>. A JSONL file is the list of its lines: blank,
  not strict JSON, or a value. \<open>H\<close> is SHA-256. File locks, fsync and path checks are
  not modelled.
\<close>

section \<open>Canonical values\<close>

datatype v2_error =
    NonFiniteNumber | NonStringKey
  | RecordNotObject | MissingFields | ExtraFields | UnsupportedSchema | SeqNotPositive
  | BadHashField string | EmptyField string | FieldNotObject string
  | BlankLine | InvalidJson | LineNotObject
  | BadInitialHash | SequenceGap | PrevHashMismatch | RecordHashMismatch
  | SegmentEmpty | SegmentUnlinked

fun validate_value :: "json \<Rightarrow> (v2_error, unit) result"
  and validate_items :: "json list \<Rightarrow> (v2_error, unit) result"
  and validate_pairs :: "(jkey \<times> json) list \<Rightarrow> (v2_error, unit) result" where
  "validate_value (JFloat f) = (case f of Fin _ \<Rightarrow> Inr () | _ \<Rightarrow> Inl NonFiniteNumber)"
| "validate_value (JList vs) = validate_items vs"
| "validate_value (JObj kvs) = validate_pairs kvs"
| "validate_value v = Inr ()"
| "validate_items [] = Inr ()"
| "validate_items (v # vs) = bind_result (validate_value v) (\<lambda>_. validate_items vs)"
| "validate_pairs [] = Inr ()"
| "validate_pairs ((k, v) # kvs) =
     (if is_str_key k then bind_result (validate_value v) (\<lambda>_. validate_pairs kvs) else Inl NonStringKey)"

definition canonicalize :: "json \<Rightarrow> (v2_error, string) result" where
  "canonicalize v = bind_result (validate_value v) (\<lambda>_. Inr (dumps '','' '':'' (sort_keys v)))"

definition sha256_hex :: "(string \<Rightarrow> string) \<Rightarrow> json \<Rightarrow> (v2_error, string) result" where
  "sha256_hex H v = bind_result (canonicalize v) (\<lambda>t. Inr (hex (H t)))"

section \<open>Records\<close>

definition schema_version :: string where "schema_version = ''msb.audit.v2''"

definition required_fields :: "string list" where
  "required_fields =
    [''schema_version'', ''record_type'', ''seq'', ''recorded_at'', ''component'', ''actor'', ''action'',
     ''authority'', ''execution'', ''verification'', ''payload'', ''environment_ref'', ''prev_hash'', ''record_hash'']"

definition is_hash64 :: "string \<Rightarrow> bool" where
  \<comment> \<open>\<^verbatim>\<open>^[0-9a-f]{64}$\<close> as a full match\<close>
  "is_hash64 s \<longleftrightarrow> length s = 64 \<and> list_all (\<lambda>c. is_digit c \<or> c \<in> set ''abcdef'') s"

definition fld :: "string \<Rightarrow> (jkey \<times> json) list \<Rightarrow> json" where
  \<comment> \<open>\<^verbatim>\<open>record[field]\<close>, read only once the fields are known to be present\<close>
  "fld k kvs = (case map_of kvs (KStr k) of None \<Rightarrow> JNull | Some v \<Rightarrow> v)"

fun hash_field :: "json \<Rightarrow> bool" where
  "hash_field (JStr s) = is_hash64 s"
| "hash_field _ = False"

fun text_field :: "json \<Rightarrow> bool" where
  "text_field (JStr s) = (py_strip s \<noteq> [])"
| "text_field _ = False"

fun object_field :: "json \<Rightarrow> bool" where
  "object_field (JObj _) = True"
| "object_field _ = False"

fun first_bad :: "(json \<Rightarrow> bool) \<Rightarrow> (jkey \<times> json) list \<Rightarrow> string list \<Rightarrow> string option" where
  "first_bad ok kvs [] = None"
| "first_bad ok kvs (f # fs) = (if ok (fld f kvs) then first_bad ok kvs fs else Some f)"

fun record_preimage :: "json \<Rightarrow> (v2_error, (jkey \<times> json) list) result" where
  "record_preimage (JObj kvs) =
    (if \<not> (\<forall>f \<in> set required_fields. KStr f \<in> fst ` set kvs) then Inl MissingFields
     else if \<not> (\<forall>k \<in> fst ` set kvs. k \<in> KStr ` set required_fields) then Inl ExtraFields
     else if fld ''schema_version'' kvs \<noteq> JStr schema_version then Inl UnsupportedSchema
     else if \<not> (case fld ''seq'' kvs of JInt n \<Rightarrow> n \<ge> 1 | _ \<Rightarrow> False) then Inl SeqNotPositive
     else if \<not> hash_field (fld ''prev_hash'' kvs) then Inl (BadHashField ''prev_hash'')
     else if \<not> hash_field (fld ''record_hash'' kvs) then Inl (BadHashField ''record_hash'')
     else (case first_bad text_field kvs
              [''record_type'', ''recorded_at'', ''component'', ''actor'', ''action'', ''environment_ref''] of
        Some f \<Rightarrow> Inl (EmptyField f)
      | None \<Rightarrow> (case first_bad object_field kvs [''authority'', ''execution'', ''verification'', ''payload''] of
          Some f \<Rightarrow> Inl (FieldNotObject f)
        | None \<Rightarrow> Inr (filter (\<lambda>(k, v). k \<noteq> KStr ''record_hash'') kvs))))"
| "record_preimage _ = Inl RecordNotObject"

definition compute_record_hash :: "(string \<Rightarrow> string) \<Rightarrow> json \<Rightarrow> (v2_error, string) result" where
  "compute_record_hash H r = bind_result (record_preimage r) (\<lambda>p. sha256_hex H (JObj p))"

lemma preimage_covered:
  "record_preimage (JObj kvs) = Inr p \<Longrightarrow> p = filter (\<lambda>(k, v). k \<noteq> KStr ''record_hash'') kvs"
  by (simp del: first_bad.simps split: if_splits option.splits)

section \<open>The standalone verifier\<close>

datatype jsonl_line = Blank | NotStrictJson | Line json

definition read_line :: "jsonl_line \<Rightarrow> (v2_error, (jkey \<times> json) list) result" where
  "read_line l = (case l of
     Blank \<Rightarrow> Inl BlankLine | NotStrictJson \<Rightarrow> Inl InvalidJson
   | Line (JObj kvs) \<Rightarrow> Inr kvs | Line _ \<Rightarrow> Inl LineNotObject)"

datatype v2_verdict = V2Valid (v2_count: nat) (v2_head: string) | V2Invalid nat v2_error

fun verify_lines ::
  "(string \<Rightarrow> string) \<Rightarrow> int \<Rightarrow> string \<Rightarrow> string \<Rightarrow> nat \<Rightarrow> jsonl_line list \<Rightarrow> (v2_error, v2_verdict) result" where
  \<comment> \<open>the loop of \<^verbatim>\<open>verify_jsonl\<close>: expected seq, expected predecessor, head, count.
     Left is an exception out of \<^verbatim>\<open>iter_jsonl\<close>.\<close>
  "verify_lines H eseq eprev hd_hash n [] = Inr (V2Valid n hd_hash)"
| "verify_lines H eseq eprev hd_hash n (l # ls) =
     bind_result (read_line l) (\<lambda>kvs.
       case record_preimage (JObj kvs) of
         Inl e \<Rightarrow> Inr (V2Invalid n e)
       | Inr pre \<Rightarrow>
         (if fld ''seq'' kvs \<noteq> JInt eseq then Inr (V2Invalid n SequenceGap)
          else if fld ''prev_hash'' kvs \<noteq> JStr eprev then Inr (V2Invalid n PrevHashMismatch)
          else (case sha256_hex H (JObj pre) of
              Inl e \<Rightarrow> Inr (V2Invalid n e)
            | Inr h \<Rightarrow> if fld ''record_hash'' kvs \<noteq> JStr h then Inr (V2Invalid n RecordHashMismatch)
                      else verify_lines H (eseq + 1) h h (n + 1) ls)))"

definition verify_jsonl ::
  "(string \<Rightarrow> string) \<Rightarrow> string \<Rightarrow> jsonl_line list \<Rightarrow> (v2_error, v2_verdict) result" where
  "verify_jsonl H initial ls =
     (if \<not> is_hash64 initial then Inr (V2Invalid 0 BadInitialHash)
      else verify_lines H 1 initial genesis_hash 0 ls)"

section \<open>The v2 segment\<close>

record v2_entry =
  e_component :: string
  e_type :: string
  e_payload :: "(jkey \<times> json) list"
  e_actor :: string
  e_action :: string
  e_authority :: "(jkey \<times> json) list"
  e_execution :: "(jkey \<times> json) list"
  e_verification :: "(jkey \<times> json) list"
  e_environment :: string

definition entry_record :: "v2_entry \<Rightarrow> int \<Rightarrow> string \<Rightarrow> string \<Rightarrow> string \<Rightarrow> (jkey \<times> json) list" where
  "entry_record e n now prev h =
    [(KStr ''schema_version'', JStr ''msb.audit.v2''), (KStr ''record_type'', JStr (e_type e)),
     (KStr ''seq'', JInt n), (KStr ''recorded_at'', JStr now), (KStr ''component'', JStr (e_component e)),
     (KStr ''actor'', JStr (e_actor e)), (KStr ''action'', JStr (e_action e)),
     (KStr ''authority'', JObj (e_authority e)), (KStr ''execution'', JObj (e_execution e)),
     (KStr ''verification'', JObj (e_verification e)), (KStr ''payload'', JObj (e_payload e)),
     (KStr ''environment_ref'', JStr (e_environment e)), (KStr ''prev_hash'', JStr prev),
     (KStr ''record_hash'', JStr h)]"

definition segment_records :: "jsonl_line list \<Rightarrow> (v2_error, (jkey \<times> json) list list) result" where
  "segment_records ls = map_result read_line ls"

definition segment_head ::
  "string \<Rightarrow> jsonl_line list \<Rightarrow> (v2_error, json \<times> json) result" where
  "segment_head initial ls = bind_result (segment_records ls) (\<lambda>rs.
     if rs = [] then Inr (JInt 0, JStr initial)
     else Inr (fld ''seq'' (last rs), fld ''record_hash'' (last rs)))"

definition segment_verify ::
  "(string \<Rightarrow> string) \<Rightarrow> string \<Rightarrow> jsonl_line list \<Rightarrow> v2_verdict" where
  "segment_verify H initial ls =
     (if ls = [] then V2Invalid 0 SegmentEmpty
      else (case bind_result (verify_jsonl H initial ls)
                   (\<lambda>v. bind_result (segment_records ls) (\<lambda>rs. Inr (v, rs))) of
          Inl e \<Rightarrow> V2Invalid 0 e
        | Inr (V2Invalid n e, rs) \<Rightarrow> V2Invalid n e
        | Inr (V2Valid n h, rs) \<Rightarrow>
            if rs \<noteq> [] \<and> fld ''prev_hash'' (hd rs) \<noteq> JStr initial then V2Invalid n SegmentUnlinked
            else V2Valid n h))"

definition segment_append ::
  "(string \<Rightarrow> string) \<Rightarrow> string \<Rightarrow> v2_entry \<Rightarrow> string \<Rightarrow> jsonl_line list \<Rightarrow>
     (v2_error, (jkey \<times> json) list \<times> jsonl_line list) result" where
  \<comment> \<open>the record returned and the file; the line is what reading the text back gives. The last
     record's seq and hash are read as the int and string a written record has.\<close>
  "segment_append H initial e now ls = bind_result (segment_head initial ls) (\<lambda>(sq, pv).
     let n = (case sq of JInt i \<Rightarrow> i | _ \<Rightarrow> 0);
         prev = (case pv of JStr s \<Rightarrow> s | _ \<Rightarrow> [])
     in bind_result (compute_record_hash H (JObj (entry_record e (n + 1) now prev (replicate 64 CHR ''0'')))) (\<lambda>h.
       let r = entry_record e (n + 1) now prev h
       in Inr (r, ls @ [Line (reload (sort_keys (JObj r)))])))"

section \<open>The v1 export\<close>

datatype export_error = InvalidSeq | InvalidHashField | ExportHashMismatch | ExportGap | ExportPrevMismatch | ExportEmpty
  | ExportKeyError

definition export_record :: "(string \<Rightarrow> string) \<Rightarrow> audit_record \<Rightarrow> (export_error, audit_record) result" where
  "export_record H r =
     (if seq r < 1 then Inl InvalidSeq
      else if \<not> is_hash64 (prev_hash r) then Inl InvalidHashField
      else if \<not> is_hash64 (record_hash r) then Inl InvalidHashField
      else (case compute_hash H (prev_hash r) (component r) (event_type r) (payload r) (timestamp r) of
              Inl _ \<Rightarrow> Inl ExportKeyError
            | Inr h \<Rightarrow> if h \<noteq> record_hash r then Inl ExportHashMismatch else Inr r))"

fun export_rows ::
  "(string \<Rightarrow> string) \<Rightarrow> nat \<Rightarrow> string \<Rightarrow> audit_record list \<Rightarrow> (export_error, audit_record list \<times> string) result" where
  "export_rows H eseq eprev [] = Inr ([], eprev)"
| "export_rows H eseq eprev (r # rs) =
     bind_result (export_record H r) (\<lambda>x.
       if seq x \<noteq> eseq then Inl ExportGap
       else if prev_hash x \<noteq> eprev then Inl ExportPrevMismatch
       else bind_result (export_rows H (eseq + 1) (record_hash x) rs) (\<lambda>(xs, h). Inr (x # xs, h)))"

definition export_verify_rows ::
  "(string \<Rightarrow> string) \<Rightarrow> audit_record list \<Rightarrow> (export_error, audit_record list \<times> string \<times> nat) result" where
  "export_verify_rows H rs = bind_result (export_rows H 1 genesis_hash rs) (\<lambda>(xs, h).
     if xs = [] then Inl ExportEmpty else Inr (xs, h, length xs))"

section \<open>Valid segments\<close>

definition v2_link :: "(string \<Rightarrow> string) \<Rightarrow> int \<Rightarrow> string \<Rightarrow> (jkey \<times> json) list \<Rightarrow> string \<Rightarrow> bool" where
  \<comment> \<open>a record in its place: sequence, predecessor and its own hash \<open>h\<close>\<close>
  "v2_link H n prev kvs h \<longleftrightarrow> compute_record_hash H (JObj kvs) = Inr h \<and>
     fld ''seq'' kvs = JInt n \<and> fld ''prev_hash'' kvs = JStr prev \<and> fld ''record_hash'' kvs = JStr h"

fun v2_chained :: "(string \<Rightarrow> string) \<Rightarrow> int \<Rightarrow> string \<Rightarrow> jsonl_line list \<Rightarrow> bool" where
  "v2_chained H n prev [] = True"
| "v2_chained H n prev (l # ls) =
     (\<exists>kvs h. l = Line (JObj kvs) \<and> v2_link H n prev kvs h \<and> v2_chained H (n + 1) h ls)"

fun line_hash :: "jsonl_line \<Rightarrow> string" where
  "line_hash (Line (JObj kvs)) = (case fld ''record_hash'' kvs of JStr h \<Rightarrow> h | _ \<Rightarrow> [])"
| "line_hash _ = []"

definition v2_tip :: "string \<Rightarrow> jsonl_line list \<Rightarrow> string" where
  "v2_tip prev ls = (if ls = [] then prev else line_hash (last ls))"

lemma v2_tip_simps [simp]:
  "v2_tip prev [] = prev" "v2_tip prev (ls @ [l]) = line_hash l"
  "v2_tip prev (l # ls) = v2_tip (line_hash l) ls"
  by (auto simp: v2_tip_def)

lemma read_line_Inr: "read_line l = Inr kvs \<longleftrightarrow> l = Line (JObj kvs)"
  by (auto simp: read_line_def split: jsonl_line.splits json.splits)

lemma v2_link_line_hash: "v2_link H n prev kvs h \<Longrightarrow> line_hash (Line (JObj kvs)) = h"
  by (simp add: v2_link_def)

declare line_hash.simps [simp del]

lemma verify_lines_step:
  "verify_lines H n prev hd_hash m (Line (JObj kvs) # ls) = Inr (V2Valid k t) \<longleftrightarrow>
   (\<exists>h. v2_link H n prev kvs h \<and> verify_lines H (n + 1) h h (m + 1) ls = Inr (V2Valid k t))"
  by (auto simp: v2_link_def compute_record_hash_def read_line_def split: sum.splits)

lemma verify_lines_valid:
  "verify_lines H n prev hd_hash m ls = Inr (V2Valid k t) \<longleftrightarrow>
     v2_chained H n prev ls \<and> k = m + length ls \<and> t = (if ls = [] then hd_hash else v2_tip prev ls)"
proof (induction ls arbitrary: n prev hd_hash m)
  case (Cons l ls)
  show ?case
  proof (cases "\<exists>kvs. l = Line (JObj kvs)")
    case True
    then obtain kvs where l: "l = Line (JObj kvs)" by blast
    show ?thesis unfolding l verify_lines_step using Cons.IH
      by (auto simp: v2_tip_def v2_link_line_hash)
  next
    case False
    then show ?thesis
      by (cases "read_line l") (auto simp: read_line_Inr)
  qed
qed auto

lemma verify_jsonl_valid:
  "verify_jsonl H initial ls = Inr (V2Valid k t) \<longleftrightarrow>
     is_hash64 initial \<and> v2_chained H 1 initial ls \<and> k = length ls \<and>
     t = (if ls = [] then genesis_hash else v2_tip initial ls)"
  by (auto simp: verify_jsonl_def verify_lines_valid)

lemma v2_chained_append:
  "v2_chained H n prev (ls @ ms) \<longleftrightarrow>
     v2_chained H n prev ls \<and> v2_chained H (n + int (length ls)) (v2_tip prev ls) ms"
proof (induction ls arbitrary: n prev)
  case (Cons l ls)
  then show ?case by (auto simp: v2_link_line_hash algebra_simps)
qed simp

lemma v2_chained_records:
  "v2_chained H n prev ls \<Longrightarrow> \<exists>rs. segment_records ls = Inr rs \<and> length rs = length ls \<and>
     ls = map (\<lambda>r. Line (JObj r)) rs"
proof (induction ls arbitrary: n prev)
  case (Cons l ls)
  then obtain kvs h where l: "l = Line (JObj kvs)" and "v2_chained H (n + 1) h ls" by auto
  with Cons.IH obtain rs where "segment_records ls = Inr rs" "length rs = length ls"
    "ls = map (\<lambda>r. Line (JObj r)) rs" by blast
  with l show ?case by (simp add: segment_records_def read_line_def)
qed (simp add: segment_records_def)

lemma segment_verify_valid:
  "segment_verify H initial ls = V2Valid k t \<longleftrightarrow>
     ls \<noteq> [] \<and> is_hash64 initial \<and> v2_chained H 1 initial ls \<and> k = length ls \<and> t = v2_tip initial ls"
proof
  assume "segment_verify H initial ls = V2Valid k t"
  then show "ls \<noteq> [] \<and> is_hash64 initial \<and> v2_chained H 1 initial ls \<and> k = length ls \<and> t = v2_tip initial ls"
    by (auto simp: segment_verify_def result_simps verify_jsonl_valid
        split: if_splits sum.splits prod.splits v2_verdict.splits)
next
  assume c: "ls \<noteq> [] \<and> is_hash64 initial \<and> v2_chained H 1 initial ls \<and> k = length ls \<and> t = v2_tip initial ls"
  then have val: "verify_jsonl H initial ls = Inr (V2Valid k t)" by (simp add: verify_jsonl_valid)
  from c obtain rs where rs: "segment_records ls = Inr rs" "ls = map (\<lambda>r. Line (JObj r)) rs"
    using v2_chained_records by blast
  then have "rs \<noteq> [] \<Longrightarrow> fld ''prev_hash'' (hd rs) = JStr initial"
    using c by (cases rs) (auto simp: v2_link_def)
  with c val rs show "segment_verify H initial ls = V2Valid k t" by (simp add: segment_verify_def)
qed

section \<open>Appending to a segment\<close>

lemma fld_sort:
  assumes "distinct (map fst kvs)" "sort_keys (JObj kvs) = JObj S"
  shows "fld f S = sort_keys (fld f kvs)"
proof -
  have "map_of S = map_of (map sort_item kvs)"
    using assms map_of_sort_items [of "map sort_item kvs"] by (simp del: map_map)
  then show ?thesis by (simp add: fld_def map_of_sort_item split: option.splits)
qed

lemma fields_sort [simp]:
  "hash_field (sort_keys v) = hash_field v" "text_field (sort_keys v) = text_field v"
  "object_field (sort_keys v) = object_field v"
  by (cases v; simp)+

lemma sort_keys_scalar [simp]:
  "sort_keys v = JStr s \<longleftrightarrow> v = JStr s" "sort_keys v = JInt n \<longleftrightarrow> v = JInt n"
  by (cases v; simp)+

lemma first_bad_cong: "(\<And>f. ok (fld f a) = ok (fld f b)) \<Longrightarrow> first_bad ok a fs = first_bad ok b fs"
  by (induction fs) auto

lemma validate_well_formed:
  "well_formed v \<Longrightarrow> validate_value v = Inr ()"
  "list_all well_formed vs \<Longrightarrow> validate_items vs = Inr ()"
  "list_all (\<lambda>(k, v). is_str_key k) kvs \<Longrightarrow> list_all (\<lambda>(k, v). well_formed v) kvs \<Longrightarrow> validate_pairs kvs = Inr ()"
proof (induction v and vs and kvs rule: validate_value_validate_items_validate_pairs.induct)
qed (auto split: pyfloat.splits)

lemma preimage_sorted:
  assumes wf: "well_formed (JObj kvs)" and pre: "record_preimage (JObj kvs) = Inr p"
    and S: "sort_keys (JObj kvs) = JObj S"
  shows "\<exists>q. record_preimage (JObj S) = Inr q \<and> sort_keys (JObj q) = sort_keys (JObj p) \<and> well_formed (JObj q)"
proof -
  have d: "distinct (map fst kvs)" using wf by simp
  note f = fld_sort [OF d S]
  have fs: "fst ` set S = fst ` set kvs" 
    using S set_sort_items [of "map sort_item kvs"] by (force simp del: map_map)
  have fb: "first_bad text_field S xs = first_bad text_field kvs xs"
    "first_bad object_field S xs = first_bad object_field kvs xs" for xs
    by (rule first_bad_cong; simp add: f)+
  have sq: "(case sort_keys v of JInt n \<Rightarrow> n \<ge> 1 | _ \<Rightarrow> False) = (case v of JInt n \<Rightarrow> n \<ge> 1 | _ \<Rightarrow> False)" for v
    by (cases v) simp_all
  let ?P = "\<lambda>(k, v). k \<noteq> KStr ''record_hash''"
  have p: "p = filter ?P kvs" by (rule preimage_covered [OF pre])
  have "record_preimage (JObj S) = Inr (filter ?P S)"
    using pre by (simp add: fs f fb sq del: first_bad.simps split: if_splits option.splits)
  moreover have "sort_keys (JObj (filter ?P S)) = sort_keys (JObj p)"
    unfolding p by (rule sort_keys_filter [OF wf S]) auto
  moreover have "well_formed (JObj (filter ?P S))"
  proof -
    have "well_formed (JObj S)" using wf S well_formed_sort_keys by metis
    then show ?thesis by (auto simp: list_all_iff distinct_map_filter)
  qed
  ultimately show ?thesis by blast
qed

lemma sha256_hex_sorted:
  assumes "well_formed v" "well_formed w" "sort_keys v = sort_keys w"
  shows "sha256_hex H v = sha256_hex H w"
  using assms by (simp add: sha256_hex_def canonicalize_def validate_well_formed)

definition wf_entry :: "v2_entry \<Rightarrow> bool" where
  "wf_entry e \<longleftrightarrow> list_all well_formed [JObj (e_payload e), JObj (e_authority e), JObj (e_execution e), JObj (e_verification e)]"

lemma entry_well_formed: "wf_entry e \<Longrightarrow> well_formed (JObj (entry_record e n now prev h))"
  by (simp add: wf_entry_def entry_record_def)

lemma entry_preimage:
  "record_preimage (JObj (entry_record e n now prev h)) = Inr p \<Longrightarrow> is_hash64 h' \<Longrightarrow>
   record_preimage (JObj (entry_record e n now prev h')) = Inr p \<and> 1 \<le> n \<and> is_hash64 prev \<and>
   p = butlast (entry_record e n now prev h)"
  by (auto simp: entry_record_def fld_def required_fields_def split: if_splits option.splits)

lemma entry_fields [simp]:
  "fld ''seq'' (entry_record e n now prev h) = JInt n"
  "fld ''prev_hash'' (entry_record e n now prev h) = JStr prev"
  "fld ''record_hash'' (entry_record e n now prev h) = JStr h"
  by (simp_all add: entry_record_def fld_def)

lemma segment_head_chained:
  assumes "v2_chained H 1 initial ls"
  shows "segment_head initial ls = Inr (JInt (int (length ls)), JStr (v2_tip initial ls))"
proof -
  obtain rs where rs: "segment_records ls = Inr rs" "ls = map (\<lambda>r. Line (JObj r)) rs"
    using v2_chained_records [OF assms] by blast
  show ?thesis
  proof (cases rs rule: rev_cases)
    case (snoc rs' r)
    with assms rs(2) obtain h where "v2_link H (1 + int (length rs')) (v2_tip initial (map (\<lambda>r. Line (JObj r)) rs')) r h"
      by (auto simp: v2_chained_append)
    with rs snoc show ?thesis
      by (auto simp: segment_head_def v2_link_def line_hash.simps)
  qed (use rs in \<open>simp add: segment_head_def\<close>)
qed

definition hash_output :: "(string \<Rightarrow> string) \<Rightarrow> bool" where
  \<comment> \<open>the digest has 32 bytes\<close>
  "hash_output H \<longleftrightarrow> (\<forall>s. length (H s) = 32)"

lemma char_of_letters:
  "char_of (97::nat) = CHR ''a''" "char_of (98::nat) = CHR ''b''" "char_of (99::nat) = CHR ''c''"
  "char_of (100::nat) = CHR ''d''" "char_of (101::nat) = CHR ''e''" "char_of (102::nat) = CHR ''f''"
  by code_simp+

lemma hex_of_hash:
  assumes "n < 16"
  shows "is_digit (hex_of n) \<or> hex_of n \<in> set ''abcdef''"
proof (cases "n < 10")
  case True
  then show ?thesis by (simp add: is_digit_def of_char_hex_of)
next
  case False
  with assms have "n = 10 \<or> n = 11 \<or> n = 12 \<or> n = 13 \<or> n = 14 \<or> n = 15" by arith
  then show ?thesis by (auto simp: hex_of_def char_of_letters simp del: char_of_nat)
qed

lemma length_hex: "length (hex bs) = 2 * length bs"
  by (induction bs) (simp_all add: hex_def byte_hex_def)

lemma hex_chars: "list_all (\<lambda>c. is_digit c \<or> c \<in> set ''abcdef'') (hex bs)"
proof (induction bs)
  case (Cons b bs)
  have "(of_char b :: nat) < 256" by simp
  then have "(of_char b :: nat) div 16 < 16" by (simp add: less_mult_imp_div_less)
  from Cons hex_of_hash [OF this] hex_of_hash [of "of_char b mod 16"] show ?case
    by (simp add: hex_def byte_hex_def)
qed (simp add: hex_def)

lemma is_hash64_hex: "hash_output H \<Longrightarrow> is_hash64 (hex (H s))"
  using hex_chars by (simp add: is_hash64_def hash_output_def length_hex)

lemma segment_append_chained:
  assumes ch: "v2_chained H 1 initial ls" and wf: "wf_entry e" and H: "hash_output H"
    and app: "segment_append H initial e now ls = Inr (r, ls')"
  shows "v2_chained H 1 initial ls' \<and> length ls' = Suc (length ls)"
proof -
  let ?n = "int (length ls) + 1" and ?prev = "v2_tip initial ls"
  from app obtain h where
    h: "compute_record_hash H (JObj (entry_record e ?n now ?prev (replicate 64 CHR ''0''))) = Inr h"
    and r: "r = entry_record e ?n now ?prev h" and ls': "ls' = ls @ [Line (reload (sort_keys (JObj r)))]"
    by (auto simp: segment_append_def segment_head_chained [OF ch] result_simps Let_def)
  from h obtain p where p: "record_preimage (JObj (entry_record e ?n now ?prev (replicate 64 CHR ''0''))) = Inr p"
    and hp: "sha256_hex H (JObj p) = Inr h"
    unfolding compute_record_hash_def bind_result_Inr_iff by blast
  from hp have "is_hash64 h" using is_hash64_hex [OF H] by (auto simp: sha256_hex_def result_simps)
  with entry_preimage [OF p] have pr: "record_preimage (JObj r) = Inr p"
    and pb: "p = butlast (entry_record e ?n now ?prev (replicate 64 CHR ''0''))" by (auto simp: r)
  have wfr: "well_formed (JObj r)" using entry_well_formed [OF wf] by (simp add: r)
  have wfp: "well_formed (JObj p)" using wf by (simp add: pb entry_record_def wf_entry_def)
  obtain S where S: "sort_keys (JObj r) = JObj S" by simp
  have "reload (JObj S) = JObj S"
    using reload_well_formed [OF well_formed_sort_keys [OF wfr]] by (simp only: S)
  moreover from preimage_sorted [OF wfr pr S] obtain q where
    q: "record_preimage (JObj S) = Inr q" "sort_keys (JObj q) = sort_keys (JObj p)" "well_formed (JObj q)" by blast
  have "compute_record_hash H (JObj S) = Inr h"
    using sha256_hex_sorted [OF q(3) wfp q(2)] hp q(1) by (simp add: compute_record_hash_def)
  moreover have "fld f S = sort_keys (fld f r)" for f
    using fld_sort [OF _ S] wfr by simp
  ultimately show ?thesis
    unfolding ls' S using ch by (simp add: v2_chained_append v2_link_def algebra_simps r)
qed

section \<open>Tamper evidence, sequence numbers included\<close>

definition covered :: "(jkey \<times> json) list \<Rightarrow> (jkey \<times> json) list" where
  "covered kvs = filter (\<lambda>(k, v). k \<noteq> KStr ''record_hash'') kvs"

fun canon_line :: "jsonl_line \<Rightarrow> json" where
  "canon_line (Line v) = sort_keys v"
| "canon_line _ = JNull"

fun line_text :: "jsonl_line \<Rightarrow> string" where
  \<comment> \<open>the hashed text of a line\<close>
  "line_text (Line (JObj kvs)) = dumps '','' '':'' (sort_keys (JObj (covered kvs)))"
| "line_text _ = []"

fun wf_line :: "jsonl_line \<Rightarrow> bool" where
  "wf_line (Line v) = well_formed v"
| "wf_line _ = True"

lemma v2_link_hash:
  assumes "v2_link H n prev kvs h"
  shows "h = hex (H (line_text (Line (JObj kvs))))"
proof -
  from assms obtain p where p: "record_preimage (JObj kvs) = Inr p" "sha256_hex H (JObj p) = Inr h"
    unfolding v2_link_def compute_record_hash_def bind_result_Inr_iff by blast
  then have "p = covered kvs" unfolding covered_def by (intro preimage_covered)
  with p(2) show ?thesis by (auto simp: sha256_hex_def canonicalize_def result_simps)
qed

lemma split_key:
  assumes "(k, x) \<in> set kvs" "distinct (map fst kvs)"
  shows "set kvs = insert (k, x) (set (filter (\<lambda>(l, v). l \<noteq> k) kvs))"
  using assms by (auto dest: eq_key_imp_eq_value)

lemma covered_determines:
  assumes wf: "well_formed (JObj a)" "well_formed (JObj b)"
    and eq: "sort_keys (JObj (covered a)) = sort_keys (JObj (covered b))"
    and h: "fld ''record_hash'' a = JStr h" "fld ''record_hash'' b = JStr h"
  shows "sort_keys (JObj a) = sort_keys (JObj b)"
proof -
  let ?k = "KStr ''record_hash''"
  have part: "set (map sort_item kvs) = insert (?k, JStr h) (set (map sort_item (covered kvs)))"
    if "well_formed (JObj kvs)" "fld ''record_hash'' kvs = JStr h" for kvs
  proof -
    have m: "(?k, JStr h) \<in> set kvs"
      using that by (auto simp: fld_def dest: map_of_SomeD split: option.splits)
    then have "set kvs = insert (?k, JStr h) (set (covered kvs))"
      unfolding covered_def using that(1) by (intro split_key) simp_all
    then have "sort_item ` set kvs = insert (sort_item (?k, JStr h)) (sort_item ` set (covered kvs))"
      by (simp only: image_insert)
    then show ?thesis by (simp only: set_map) simp
  qed
  from eq have "set (map sort_item (covered a)) = set (map sort_item (covered b))"
    using set_sort_items by (metis (no_types, lifting) json.inject(6) sort_keys.simps(2))
  with part [OF wf(1) h(1)] part [OF wf(2) h(2)] have "set (map sort_item a) = set (map sort_item b)" by simp
  moreover have "distinct (map fst (map sort_item a))" "distinct (map fst (map sort_item b))"
    unfolding fst_sort_item using wf by auto
  moreover have "\<forall>p \<in> set (map sort_item a). is_str_key (fst p)"
    using wf(1) by (auto simp: list_all_iff)
  ultimately have "foldr insert_item (map sort_item a) [] = foldr insert_item (map sort_item b) []"
    by (intro sort_items_unique)
  then show ?thesis by simp
qed

lemma fld_same_sort:
  assumes "well_formed (JObj a)" "well_formed (JObj b)" "sort_keys (JObj a) = sort_keys (JObj b)"
  shows "sort_keys (fld f a) = sort_keys (fld f b)"
proof -
  obtain S where S: "sort_keys (JObj a) = JObj S" by simp
  with assms show ?thesis using fld_sort [of a S f] fld_sort [of b S f] by simp
qed

lemma same_v2_tip:
  assumes "v2_chained H 1 i ls" "v2_chained H 1 j ms" "ls \<noteq> []" "ms \<noteq> []" "v2_tip i ls = v2_tip j ms"
    and "inj_on H (line_text ` (set ls \<union> set ms))" "\<forall>l \<in> set ls \<union> set ms. wf_line l"
  shows "i = j \<and> map canon_line ls = map canon_line ms"
  using assms
proof (induction ls arbitrary: ms rule: rev_induct)
  case (snoc l ls)
  from snoc.prems(4) obtain ms' m where ms: "ms = ms' @ [m]" by (cases ms rule: rev_cases) auto
  from snoc.prems(1) obtain a h where a: "l = Line (JObj a)" "v2_link H (1 + int (length ls)) (v2_tip i ls) a h"
    and cl: "v2_chained H 1 i ls" by (auto simp: v2_chained_append)
  from snoc.prems(2) ms obtain b g where b: "m = Line (JObj b)" "v2_link H (1 + int (length ms')) (v2_tip j ms') b g"
    and cm: "v2_chained H 1 j ms'" by (auto simp: v2_chained_append)
  have gh: "g = h"
    using snoc.prems(5) ms a b v2_link_line_hash [OF a(2)] v2_link_line_hash [OF b(2)] by simp
  then have "H (line_text l) = H (line_text m)"
    using v2_link_hash [OF a(2)] v2_link_hash [OF b(2)] a(1) b(1) hex_inj by simp
  then have "line_text l = line_text m"
    using snoc.prems(6) ms by (elim inj_onD) simp_all
  moreover have wf: "well_formed (JObj a)" "well_formed (JObj b)" using snoc.prems(7) ms a b by auto
  moreover have "well_formed (JObj (covered kvs))" if "well_formed (JObj kvs)" for kvs
    using that by (auto simp: covered_def list_all_iff distinct_map_filter)
  moreover have "comma_sep '',''" by (simp add: comma_sep_def)
  ultimately have "sort_keys (JObj (covered a)) = sort_keys (JObj (covered b))"
    using dumps_inj [of "'',''" "'':''" "sort_keys (JObj (covered a))" "sort_keys (JObj (covered b))"]
    by (simp only: a(1) b(1) line_text.simps well_formed_sort_keys)
  then have same: "sort_keys (JObj a) = sort_keys (JObj b)"
    using covered_determines [OF wf] a(2) b(2) gh by (simp add: v2_link_def)
  have len: "length ls = length ms'" and tip: "v2_tip i ls = v2_tip j ms'"
    using fld_same_sort [OF wf same, of "''seq''"] fld_same_sort [OF wf same, of "''prev_hash''"] a(2) b(2)
    by (simp_all add: v2_link_def)
  show ?case
  proof (cases "ls = []")
    case True
    with len tip ms same a b show ?thesis by simp
  next
    case False
    have "i = j \<and> map canon_line ls = map canon_line ms'"
    proof (rule snoc.IH [OF cl cm False _ tip])
      show "ms' \<noteq> []" using False len by auto
      show "inj_on H (line_text ` (set ls \<union> set ms'))"
        using snoc.prems(6) ms by (auto intro: inj_on_subset)
    qed (use snoc.prems(7) ms in auto)
    with ms same a b show ?thesis by simp
  qed
qed simp

section \<open>An exported chain is contiguous and valid\<close>

lemma export_rows_Inr:
  "export_rows H n e rs = Inr (xs, h) \<longleftrightarrow>
     xs = rs \<and> h = tip_from e rs \<and> chained H e rs \<and> map seq rs = [n ..< n + length rs] \<and>
     (\<forall>r \<in> set rs. 1 \<le> seq r \<and> is_hash64 (prev_hash r) \<and> is_hash64 (record_hash r))"
proof (induction rs arbitrary: n e xs)
  case (Cons r rs)
  have "export_record H r = Inr x \<longleftrightarrow> x = r \<and> 1 \<le> seq r \<and> is_hash64 (prev_hash r) \<and> is_hash64 (record_hash r) \<and>
     row_hash H r = Inr (record_hash r)" for x
    by (auto simp: export_record_def row_hash_def split: sum.splits)
  then show ?case using Cons.IH
    by (auto simp: result_simps upt_conv_Cons simp del: upt_Suc)
qed auto

section \<open>A first append\<close>

definition good_entry :: "v2_entry \<Rightarrow> string \<Rightarrow> bool" where
  \<comment> \<open>what an entry needs to be written\<close>
  "good_entry e now \<longleftrightarrow>
     list_all (\<lambda>s. py_strip s \<noteq> []) [e_type e, now, e_component e, e_actor e, e_action e, e_environment e] \<and> wf_entry e"

lemma genesis_is_hash: "is_hash64 genesis_hash" "is_hash64 (replicate 64 CHR ''0'')"
  by code_simp+

lemma first_append:
  assumes "is_hash64 h" "good_entry e now"
  shows "\<exists>r ls'. segment_append H h e now [] = Inr (r, ls')"
proof -
  have "validate_pairs kvs = Inr ()" if "well_formed (JObj kvs)" for kvs
    using that by (intro validate_well_formed(3)) auto
  with assms show ?thesis
    by (simp add: segment_append_def segment_head_def segment_records_def compute_record_hash_def sha256_hex_def
        canonicalize_def entry_record_def fld_def required_fields_def schema_version_def genesis_is_hash
        good_entry_def wf_entry_def)
qed

definition demo_entry :: v2_entry where
  "demo_entry = \<lparr>e_component = ''c'', e_type = ''e'', e_payload = [], e_actor = ''a'', e_action = ''x'',
     e_authority = [], e_execution = [], e_verification = [], e_environment = ''r''\<rparr>"

definition const_hash :: "string \<Rightarrow> string" where
  "const_hash s = replicate 32 CHR ''a''"

lemma hash_output_const: "hash_output const_hash"
  by (simp add: hash_output_def const_hash_def)

lemma good_demo: "good_entry demo_entry ''t''"
  by code_simp

lemma demo_append: "\<exists>r ls'. segment_append H genesis_hash demo_entry ''t'' [] = Inr (r, ls')"
  by (rule first_append [OF genesis_is_hash(1) good_demo])

section \<open>Properties\<close>

text \<open>Appending to a v2 segment keeps it verifiable: after an append to a segment that verifies, or to an
  empty one, the standalone verifier accepts the file, with one record more.\<close>

theorem v2_append_keeps_the_segment_valid:
  assumes "ls = [] \<or> segment_verify H initial ls = V2Valid k t" "is_hash64 initial" "wf_entry e" "hash_output H"
    and "segment_append H initial e now ls = Inr (r, ls')"
  shows "\<exists>t'. verify_jsonl H initial ls' = Inr (V2Valid (length ls + 1) t')"
proof -
  have "v2_chained H 1 initial ls" using assms(1) by (auto simp: segment_verify_valid)
  from segment_append_chained [OF this assms(3,4,5)] assms(2) show ?thesis
    by (auto simp: verify_jsonl_valid)
qed

theorem v2_append_keeps_the_segment_valid_witness:
  "\<exists>r ls' t'. segment_append const_hash genesis_hash demo_entry ''t'' [] = Inr (r, ls') \<and>
     verify_jsonl const_hash genesis_hash ls' = Inr (V2Valid (length ([] :: jsonl_line list) + 1) t')"
proof -
  obtain r ls' where a: "segment_append const_hash genesis_hash demo_entry ''t'' [] = Inr (r, ls')"
    using demo_append by blast
  have "wf_entry demo_entry" using good_demo by (simp add: good_entry_def)
  from v2_append_keeps_the_segment_valid [OF disjI1 [OF refl] genesis_is_hash(1) this hash_output_const a] a
  show ?thesis by blast
qed

text \<open>A v2 segment is tamper evident, sequence numbers included: two segments that verify to the same head
  hold the same records up to key order and link to the same v1 head, unless the hash collides on their texts.\<close>

theorem same_v2_head_same_segment:
  assumes "segment_verify H i ls = V2Valid k t" "segment_verify H j ms = V2Valid m t"
    and "inj_on H (line_text ` (set ls \<union> set ms))" "\<forall>l \<in> set ls \<union> set ms. wf_line l"
  shows "i = j \<and> map canon_line ls = map canon_line ms"
  using assms by (intro same_v2_tip [of H]) (simp_all add: segment_verify_valid)

lemma demo_segment: "\<exists>ls t. segment_verify const_hash genesis_hash ls = V2Valid 1 t \<and> length ls = 1 \<and> (\<forall>l \<in> set ls. wf_line l)"
proof -
  obtain r ls' where a: "segment_append const_hash genesis_hash demo_entry ''t'' [] = Inr (r, ls')"
    using demo_append by blast
  have wf: "wf_entry demo_entry" using good_demo by (simp add: good_entry_def)
  have ch: "v2_chained const_hash 1 genesis_hash ls'" "length ls' = 1"
    using segment_append_chained [OF _ wf hash_output_const a] by simp_all
  obtain n prev h where ls': "ls' = [Line (reload (sort_keys (JObj (entry_record demo_entry n ''t'' prev h))))]"
    using a by (auto simp: segment_append_def result_simps Let_def)
  have w: "well_formed (sort_keys (JObj (entry_record demo_entry n ''t'' prev h)))"
    by (rule well_formed_sort_keys [OF entry_well_formed [OF wf]])
  then have "\<forall>l \<in> set ls'. wf_line l" unfolding ls' by (simp add: reload_well_formed del: sort_keys.simps)
  with ch show ?thesis using genesis_is_hash by (intro exI [of _ ls']) (auto simp: segment_verify_valid)
qed

theorem same_v2_head_same_segment_witness:
  "\<exists>ls. length ls = 1 \<and> genesis_hash = genesis_hash \<and> map canon_line ls = map canon_line ls"
proof -
  obtain ls t where ls: "segment_verify const_hash genesis_hash ls = V2Valid 1 t" "length ls = 1" "\<forall>l \<in> set ls. wf_line l"
    using demo_segment by blast
  then obtain l where l: "ls = [l]" by (cases ls) auto
  have "inj_on const_hash (line_text ` (set ls \<union> set ls))" by (simp add: l)
  from same_v2_head_same_segment [OF ls(1) ls(1) this] ls(2,3) show ?thesis by (intro exI [of _ ls]) simp
qed

text \<open>A v1 export stands for a valid, gap-free chain: when the export accepts the rows, the chain verifies
  and its sequence numbers are 1 to n, and the exported head is the chain's last hash.\<close>

theorem export_means_valid_and_contiguous:
  assumes "export_verify_rows H (rows c) = Inr (xs, h, n)"
  shows "verify_chain H c = Inr (Valid n) \<and> map seq (rows c) = [1 ..< Suc n] \<and> xs = rows c \<and> h = last_hash c \<and> 0 < n"
  using assms
  by (auto simp: export_verify_rows_def result_simps export_rows_Inr verify_chain_valid last_hash_tip split: if_splits)

lemma quiet_chain: "\<exists>c. rows c \<noteq> [] \<and> export_verify_rows const_hash (rows c) = Inr (rows c, last_hash c, 1) \<and>
    migration_state c = ''V1_ACTIVE''"
proof -
  obtain r c where a: "append_chain const_hash quiet_env ''c'' ''e'' (JObj []) empty_chain = (Inr r, c)"
    using quiet_sink(1) [OF empty_chain_ready(1) _ _ empty_chain_ready(2), of "JObj []"] by fastforce
  note f = append_chain_Inr [OF a]
  have rows: "rows c = [r\<lparr>payload := JObj []\<rparr>]" using f(1) by (simp add: empty_chain_def)
  have ch: "chained const_hash genesis_hash (rows c)"
    using append_chained [OF _ a stable_well_formed] by (simp add: empty_chain_def)
  have "is_hash64 (record_hash r)"
    unfolding row_hash_preimage [OF f(9)] by (rule is_hash64_hex [OF hash_output_const])
  moreover have "is_hash64 (prev_hash r)" "seq r = 1"
    using f(5,6) genesis_is_hash(1) by (simp_all add: empty_chain_def last_hash_def)
  ultimately have "export_rows const_hash 1 genesis_hash (rows c) = Inr (rows c, last_hash c)"
    using ch rows by (simp only: export_rows_Inr) (simp add: last_hash_def)
  moreover have "migration_state c = ''V1_ACTIVE''"
    using f(8) empty_chain_ready(1) by (simp add: migration_state_def get_meta_def)
  ultimately show ?thesis using rows by (intro exI [of _ c]) (simp add: export_verify_rows_def)
qed

theorem export_means_valid_and_contiguous_witness:
  "\<exists>c :: chain. verify_chain const_hash c = Inr (Valid 1) \<and> map seq (rows c) = [1 ..< Suc 1]"
proof -
  obtain c :: chain where "export_verify_rows const_hash (rows c) = Inr (rows c, last_hash c, 1)"
    using quiet_chain by blast
  from export_means_valid_and_contiguous [OF this] show ?thesis by blast
qed

end
