(* ===== verification/Ledger_Migration.thy ===== *)
theory Ledger_Migration
  imports Ledger_AuditV2
begin

text \<open>
  The v1-to-v2 migration barrier (\<^verbatim>\<open>src/src/msb_ledger/migration.py\<close>,
  \<^verbatim>\<open>MigrationBarrier.run\<close>): the v1 chain, the v2 segment file and the manifest
  file are the state; the external head verifier, the migration id, the clock, whether the
  database changed under the export and the digest of the export file are arguments. Locks and
  atomic file replacement are not modelled; an exception of any step is a branch of the handler.
\<close>

record migration_world =
  v1 :: chain
  v2_file :: "jsonl_line list option"
  manifest :: "(jkey \<times> json) list option"

datatype block_reason =
    NoRecordedHead | V2Unreadable v2_error | V2NotVerifiable | NotV2Active
  | BlankMigrationId | V1Raised chain_error | V1Invalid nat break_reason | V1Empty
  | ExportFailed export_error | SourceChanged | ExportHeadMismatch
  | HeadVerifierFailed | HeadVerifierRaised | HeadMismatch | SeqMismatch
  | V2AppendRaised v2_error | V2Invalidated v2_error

datatype migration_outcome = AlreadyActive nat string | Activated v2_verdict

record migration_env =
  mig_id :: string
  mig_now :: string
  mig_operator :: string
  source_stable :: bool       \<comment> \<open>the fingerprints before and after the export agree\<close>
  export_digest :: string
  v2_location :: string
  export_location :: string

definition manifest_of :: "migration_env \<Rightarrow> (jkey \<times> json) list \<Rightarrow> (jkey \<times> json) list" where
  \<comment> \<open>\<^verbatim>\<open>_manifest\<close>; every caller gives \<^verbatim>\<open>migration_id\<close>\<close>
  "manifest_of e vals =
     [(KStr ''schema_version'', JStr ''msb.audit.migration-manifest.v1''), (KStr ''migration_id'', JStr (mig_id e)),
      (KStr ''operator'', JStr (mig_operator e)), (KStr ''updated_at'', JStr (mig_now e))] @ vals"

definition write_manifest :: "migration_env \<Rightarrow> (jkey \<times> json) list \<Rightarrow> migration_world \<Rightarrow> migration_world" where
  "write_manifest e vals w = w\<lparr>manifest := Some (manifest_of e vals)\<rparr>"

definition read_manifest :: "migration_world \<Rightarrow> (jkey \<times> json) list" where
  "read_manifest w = (case manifest w of None \<Rightarrow> [] | Some m \<Rightarrow> m)"

fun first_string :: "(jkey \<times> json) list \<Rightarrow> string list \<Rightarrow> string option" where
  "first_string r [] = None"
| "first_string r (k # ks) = (case fld k r of JStr s \<Rightarrow> Some s | _ \<Rightarrow> first_string r ks)"

definition verified_head_hash :: "(jkey \<times> json) list \<Rightarrow> string option" where
  "verified_head_hash r = first_string r [''tip_hash'', ''anchored_tip'', ''head_hash'']"

definition equals_int :: "json \<Rightarrow> int \<Rightarrow> bool" where
  \<comment> \<open>Python's \<^verbatim>\<open>==\<close> with an integer\<close>
  "equals_int v n = (case v of JInt i \<Rightarrow> i = n | JBool b \<Rightarrow> n = (if b then 1 else 0)
     | JFloat (Fin r) \<Rightarrow> r = show_int n @ ''.0'' | _ \<Rightarrow> False)"

definition first_entry :: "migration_env \<Rightarrow> nat \<Rightarrow> string \<Rightarrow> v2_entry" where
  "first_entry e sq hd_hash =
    \<lparr>e_component = ''migration'', e_type = ''migration.v2_started'',
     e_payload = [(KStr ''migration_id'', JStr (mig_id e)), (KStr ''v1_head_seq'', JInt (int sq)),
                  (KStr ''v1_head_hash'', JStr hd_hash), (KStr ''v1_export_sha256'', JStr (export_digest e))],
     e_actor = mig_operator e, e_action = ''migration.start'',
     e_authority = [(KStr ''decision_id'', JStr (mig_id e)), (KStr ''policy_version'', JStr ''audit-migration-v1''),
                    (KStr ''scope'', JList [JStr ''audit-chain''])],
     e_execution = [(KStr ''executor_id'', JStr ''migration-barrier''), (KStr ''result'', JStr ''success'')],
     e_verification = [(KStr ''verifier_id'', JStr ''migration-barrier''), (KStr ''result'', JStr ''verified''),
                       (KStr ''method'', JStr ''v1-export-and-external-head'')],
     e_environment = ''migration-test-runtime''\<rparr>"

definition check_head :: "(chain \<Rightarrow> json option) \<Rightarrow> chain \<Rightarrow> nat \<Rightarrow> string \<Rightarrow> (block_reason, unit) result" where
  \<comment> \<open>the external head gate; None where the verifier raised\<close>
  "check_head verifier c sq hd_hash =
     (case verifier c of
        None \<Rightarrow> Inl HeadVerifierRaised
      | Some (JObj r) \<Rightarrow>
          (if fld ''valid'' r \<noteq> JBool True then Inl HeadVerifierFailed
           else if (case verified_head_hash r of None \<Rightarrow> False | Some h \<Rightarrow> h \<noteq> hd_hash) then Inl HeadMismatch
           else if fld ''anchored_seq'' r \<noteq> JNull \<and> \<not> equals_int (fld ''anchored_seq'' r) (int sq) then Inl SeqMismatch
           else Inr ())
      | Some _ \<Rightarrow> Inl HeadVerifierFailed)"

definition existing_segment :: "(string \<Rightarrow> string) \<Rightarrow> migration_world \<Rightarrow> jsonl_line list \<Rightarrow> (block_reason, migration_outcome) result" where
  "existing_segment H w ls =
     (case fld ''v1_head_hash'' (read_manifest w) of
        JStr initial \<Rightarrow>
          (case verify_jsonl H initial ls of
             Inl e \<Rightarrow> Inl (V2Unreadable e)
           | Inr (V2Invalid n e) \<Rightarrow> Inl V2NotVerifiable
           | Inr (V2Valid n h) \<Rightarrow>
               if get_meta (v1 w) ''migration_state'' \<noteq> Some ''V2_ACTIVE'' then Inl NotV2Active
               else Inr (AlreadyActive n h))
      | _ \<Rightarrow> Inl NoRecordedHead)"

definition blocked :: "migration_env \<Rightarrow> bool \<Rightarrow> bool \<Rightarrow> (block_reason \<Rightarrow> string) \<Rightarrow> block_reason \<Rightarrow> migration_world \<Rightarrow>
    (block_reason, migration_outcome) result \<times> migration_world" where
  \<comment> \<open>the \<^verbatim>\<open>except\<close> arm: \<open>began\<close> and \<open>v2_started\<close> as they are at the raise\<close>
  "blocked e began v2_started say why w =
     (let w1 = (if began then (if v2_started then w\<lparr>v1 := block_migration (say why) (mig_now e) (v1 w)\<rparr>
                               else w\<lparr>v1 := abort_migration (mig_now e) (v1 w)\<rparr>)
                else w)
      in (Inl why, write_manifest e [(KStr ''state'', JStr ''MIGRATION_BLOCKED''), (KStr ''reason'', JStr (say why))] w1))"

definition activate ::
  "(string \<Rightarrow> string) \<Rightarrow> (block_reason \<Rightarrow> string) \<Rightarrow> migration_env \<Rightarrow> nat \<Rightarrow> string \<Rightarrow> json \<Rightarrow> migration_world \<Rightarrow>
     (block_reason, migration_outcome) result \<times> migration_world" where
  \<comment> \<open>from \<^verbatim>\<open>V2Segment(...)\<close> on: the first record, its verification, completion\<close>
  "activate H say e sq hd_hash hr w =
     (let ls = (case v2_file w of None \<Rightarrow> [] | Some ls \<Rightarrow> ls);
          w1 = w\<lparr>v2_file := Some ls\<rparr>
      in case segment_append H hd_hash (first_entry e sq hd_hash) (mig_now e) ls of
           Inl x \<Rightarrow> blocked e True True say (V2AppendRaised x) w1
         | Inr (r, ls') \<Rightarrow>
             (let w2 = w1\<lparr>v2_file := Some ls'\<rparr> in
              case segment_verify H hd_hash ls' of
                V2Invalid n x \<Rightarrow> blocked e True True say (V2Invalidated x) w2
              | V2Valid n h \<Rightarrow>
                  (Inr (Activated (V2Valid n h)),
                   write_manifest e
                     [(KStr ''state'', JStr ''V2_ACTIVE''), (KStr ''v1_head_seq'', JInt (int sq)),
                      (KStr ''v1_head_hash'', JStr hd_hash), (KStr ''v1_export_manifest'', JStr (export_location e)),
                      (KStr ''v2_path'', JStr (v2_location e)), (KStr ''v2_first_seq'', fld ''seq'' r),
                      (KStr ''v2_head_hash'', fld ''record_hash'' r),
                      (KStr ''v2_verification'', obj [(''valid'', JBool True), (''record_count'', JInt (int n)),
                         (''head_hash'', JStr h), (''head_seq'', JInt (int n))]),
                      (KStr ''external_head_verification'', hr)]
                     (w2\<lparr>v1 := complete_migration (mig_now e) (v1 w2)\<rparr>))))"

definition live_head :: "(string \<Rightarrow> string) \<Rightarrow> chain \<Rightarrow> (block_reason, nat \<times> string) result" where
  \<comment> \<open>the v1 chain is verified and not empty; its head\<close>
  "live_head H c =
     (case verify_chain H c of
        Inl x \<Rightarrow> Inl (V1Raised x)
      | Inr (Broken s why) \<Rightarrow> Inl (V1Invalid s why)
      | Inr (Valid n) \<Rightarrow>
          (let rs = get_chain None c in
           if rs = [] then Inl V1Empty else Inr (seq (last rs), record_hash (last rs))))"

definition export_gate :: "(string \<Rightarrow> string) \<Rightarrow> (chain \<Rightarrow> json option) \<Rightarrow> migration_env \<Rightarrow> chain \<Rightarrow> nat \<Rightarrow> string \<Rightarrow>
    (block_reason, unit) result" where
  \<comment> \<open>the export, its head against the live head, the external head gate\<close>
  "export_gate H verifier e c sq hd_hash =
     (case export_verify_rows H (rows c) of
        Inl x \<Rightarrow> Inl (ExportFailed x)
      | Inr (xs, h, n) \<Rightarrow>
          (if \<not> source_stable e then Inl SourceChanged
           else if h \<noteq> hd_hash then Inl ExportHeadMismatch
           else check_head verifier c sq hd_hash))"

definition migrate ::
  "(string \<Rightarrow> string) \<Rightarrow> (chain \<Rightarrow> json option) \<Rightarrow> (block_reason \<Rightarrow> string) \<Rightarrow> migration_env \<Rightarrow> migration_world \<Rightarrow>
     (block_reason, migration_outcome) result \<times> migration_world" where
  "migrate H verifier say e w =
     (if v2_file w \<noteq> None \<and> v2_file w \<noteq> Some []
      then (case existing_segment H w (the (v2_file w)) of
              Inl why \<Rightarrow> blocked e False False say why w
            | Inr out \<Rightarrow> (Inr out, w))
      else (case live_head H (v1 w) of
          Inl why \<Rightarrow> blocked e False False say why w
        | Inr (sq, hd_hash) \<Rightarrow>
            (case begin_migration (mig_id e) (mig_now e) (v1 w) of
               None \<Rightarrow> blocked e False False say BlankMigrationId w
             | Some c \<Rightarrow>
                 (let w1 = write_manifest e [(KStr ''state'', JStr ''MIGRATING''), (KStr ''v1_head_seq'', JInt (int sq)),
                                             (KStr ''v1_head_hash'', JStr hd_hash)] (w\<lparr>v1 := c\<rparr>)
                  in case export_gate H verifier e c sq hd_hash of
                       Inl why \<Rightarrow> blocked e True False say why w1
                     | Inr _ \<Rightarrow> activate H say e sq hd_hash (case verifier c of None \<Rightarrow> JNull | Some v \<Rightarrow> v) w1))))"

section \<open>What a run leaves\<close>

lemma get_meta_set [simp]: "get_meta (set_meta k v c) k' = (if k' = k then Some v else get_meta c k')"
proof -
  have "map_of (put_meta k v m) k' = (if k' = k then Some v else map_of m k')" for m
    by (induction k v m rule: put_meta.induct) auto
  then show ?thesis by (simp add: get_meta_def set_meta_def)
qed

lemma rows_set_meta [simp]: "rows (set_meta k v c) = rows c" "next_seq (set_meta k v c) = next_seq c"
  "storage_file (set_meta k v c) = storage_file c"
  by (simp_all add: set_meta_def)

lemma migration_steps [simp]:
  "rows (block_migration r t c) = rows c" "rows (abort_migration t c) = rows c" "rows (complete_migration t c) = rows c"
  "migration_state (block_migration r t c) = ''MIGRATION_BLOCKED''"
  "migration_state (abort_migration t c) = ''V1_ACTIVE''"
  "migration_state (complete_migration t c) = ''V2_ACTIVE''"
  by (simp_all add: block_migration_def abort_migration_def complete_migration_def migration_state_def)

lemma begin_migration_rows: "begin_migration i t c = Some c' \<Longrightarrow> rows c' = rows c \<and> migration_state c' = ''MIGRATING''"
  by (auto simp: begin_migration_def migration_state_def split: if_splits)

lemmas world_simps = write_manifest_def blocked_def Let_def

lemma blocked_Inl [simp]: "fst (blocked e b s say why w) = Inl why"
  "v2_file (snd (blocked e b s say why w)) = v2_file w"
  "rows (v1 (snd (blocked e b s say why w))) = rows (v1 w)"
  "fld ''v1_head_hash'' (read_manifest (snd (blocked e b s say why w))) = JNull"
  by (simp_all add: world_simps read_manifest_def manifest_of_def fld_def)

lemma activate_rows: "rows (v1 (snd (activate H say e sq h hr w))) = rows (v1 w)"
  by (simp add: activate_def world_simps split: sum.splits prod.splits v2_verdict.splits)

lemma write_manifest_sel [simp]:
  "v1 (write_manifest e vals w) = v1 w" "v2_file (write_manifest e vals w) = v2_file w"
  by (simp_all add: write_manifest_def)

lemma migrate_rows: "rows (v1 (snd (migrate H verifier say e w))) = rows (v1 w)"
proof -
  have "rows c = rows (v1 w)" if "begin_migration i t (v1 w) = Some c" for i t c
    using begin_migration_rows [OF that] by simp
  then show ?thesis
    by (simp add: migrate_def activate_rows Let_def split: sum.split prod.split option.split)
qed

lemma activate_Inr:
  assumes "activate H say e sq h hr w = (Inr out, w')"
  obtains n t ls' r where "out = Activated (V2Valid n t)" "v2_file w' = Some ls'" "segment_verify H h ls' = V2Valid n t"
    "segment_append H h (first_entry e sq h) (mig_now e) (case v2_file w of None \<Rightarrow> [] | Some ls \<Rightarrow> ls) = Inr (r, ls')"
    "migration_state (v1 w') = ''V2_ACTIVE''" "fld ''v1_head_hash'' (read_manifest w') = JStr h"
  using assms
  by (auto simp: activate_def world_simps read_manifest_def manifest_of_def fld_def
      split: sum.splits prod.splits v2_verdict.splits)

lemma live_head_Inr:
  "live_head H c = Inr (sq, h) \<longleftrightarrow>
     chained H genesis_hash (rows c) \<and> rows c \<noteq> [] \<and> sq = seq (last (rows c)) \<and> h = record_hash (last (rows c))"
proof (cases "verify_chain H c")
  case (Inl x)
  with verify_chain_valid [of H c "length (rows c)"] show ?thesis by (auto simp: live_head_def)
next
  case (Inr v)
  with verify_chain_valid [of H c "length (rows c)"] verify_chain_valid [of H c] show ?thesis
    by (cases v) (auto simp: live_head_def get_chain_def Let_def)
qed

lemma export_gate_Inr:
  "export_gate H verifier e c sq h = Inr u \<longleftrightarrow>
     (\<exists>n. export_verify_rows H (rows c) = Inr (rows c, h, n)) \<and> source_stable e \<and> check_head verifier c sq h = Inr ()"
proof -
  have "xs = rows c" if "export_verify_rows H (rows c) = Inr (xs, h', n)" for xs h' n
    using that by (auto simp: export_verify_rows_def result_simps export_rows_Inr split: if_splits)
  then show ?thesis
    by (cases "export_verify_rows H (rows c)") (auto simp: export_gate_def split: if_splits)
qed

lemma migrate_activated:
  assumes run: "migrate H verifier say e w = (Inr (Activated v), w')"
  obtains c h ls' where "chained H genesis_hash (rows (v1 w))" "rows (v1 w) \<noteq> []"
    "map seq (rows (v1 w)) = [1 ..< Suc (length (rows (v1 w)))]" "h = record_hash (last (rows (v1 w)))"
    "rows c = rows (v1 w)" "check_head verifier c (length (rows (v1 w))) h = Inr ()"
    "v2_file w' = Some ls'" "segment_verify H h ls' = v" "v = V2Valid 1 (v2_tip h ls')" "v2_chained H 1 h ls'"
    "length ls' = 1" "migration_state (v1 w') = ''V2_ACTIVE''"
proof -
  from run obtain sq h c u where head: "live_head H (v1 w) = Inr (sq, h)"
    and no_seg: "v2_file w = None \<or> v2_file w = Some []"
    and c: "begin_migration (mig_id e) (mig_now e) (v1 w) = Some c"
    and gate: "export_gate H verifier e c sq h = Inr u"
    and act: "\<exists>vals hr. activate H say e sq h hr (write_manifest e vals (w\<lparr>v1 := c\<rparr>)) = (Inr (Activated v), w')"
    by (auto simp: migrate_def Let_def blocked_def existing_segment_def
        split: if_splits sum.splits prod.splits option.splits json.splits v2_verdict.splits)
  note hd = head [unfolded live_head_Inr] and rc = begin_migration_rows [OF c]
  note g = gate [unfolded export_gate_Inr]
  from g rc have seqs: "map seq (rows (v1 w)) = [1 ..< Suc (length (rows (v1 w)))]"
    by (auto simp: export_verify_rows_def result_simps export_rows_Inr)
  then have "map seq (rows (v1 w)) ! (length (rows (v1 w)) - 1) = length (rows (v1 w))"
    using hd by (simp add: nth_append del: upt_Suc)
  then have sq: "sq = length (rows (v1 w))" using hd by (simp add: last_conv_nth)
  from act obtain vals hr where "activate H say e sq h hr (write_manifest e vals (w\<lparr>v1 := c\<rparr>)) = (Inr (Activated v), w')" by blast
  then obtain n t ls' r where a: "v = V2Valid n t" "v2_file w' = Some ls'" "segment_verify H h ls' = V2Valid n t"
    "segment_append H h (first_entry e sq h) (mig_now e) [] = Inr (r, ls')" "migration_state (v1 w') = ''V2_ACTIVE''"
    using no_seg by (elim activate_Inr) auto
  from a(4) have len: "length ls' = 1" by (auto simp: segment_append_def result_simps Let_def split: prod.splits)
  from a(3) have seg: "v2_chained H 1 h ls'" "n = length ls'" "t = v2_tip h ls'" by (simp_all add: segment_verify_valid)
  have v: "v = V2Valid 1 (v2_tip h ls')" unfolding a(1) seg(2,3) len ..
  have gate: "check_head verifier c (length (rows (v1 w))) h = Inr ()" using g sq by simp
  have end_hash: "h = record_hash (last (rows (v1 w)))" and rows: "rows c = rows (v1 w)" using hd rc by simp_all
  show thesis
    by (rule that [OF _ _ seqs end_hash rows gate a(2) _ v seg(1) len a(5)]) (use hd a(1,3) in simp_all)
qed

text \<open>A v1 chain whose migration is under way or done takes no appends.\<close>

lemma migrated_refuses:
  "migration_state c \<noteq> ''V1_ACTIVE'' \<Longrightarrow>
   fst (append_chain H env cmp ev p c) = Inl KeylessRefused \<or>
   fst (append_chain H env cmp ev p c) = Inl (MigrationBlocked (migration_state c))"
  by (simp add: append_chain_def)

text \<open>The manifest of a blocked run no longer names the v1 head, and a non-empty segment needs it.\<close>

lemma blocked_eq:
  "blocked e a b say r v = (Inl why, x) \<longleftrightarrow> r = why \<and> x = snd (blocked e a b say why v)"
  by (cases "blocked e a b say r v") (use blocked_Inl(1) [of e a b say r v] in auto)

lemma activate_Inl:
  "activate H say e sq h hr v = (Inl why, x) \<Longrightarrow> \<exists>v'. x = snd (blocked e True True say why v')"
  by (auto simp: activate_def Let_def blocked_eq split: sum.splits prod.splits v2_verdict.splits)

lemma migrate_Inl:
  assumes "migrate H verifier say e w = (Inl why, w')"
  shows "\<exists>a b v. w' = snd (blocked e a b say why v)"
  using assms
  by (simp add: migrate_def Let_def blocked_eq split: if_splits sum.splits prod.splits option.splits)
    (blast dest: activate_Inl)+

lemma blocked_forever:
  assumes "migrate H verifier say e w = (Inl why, w')" "v2_file w' = Some ls" "ls \<noteq> []"
  shows "fst (migrate H verifier' say' e' w') = Inl NoRecordedHead"
proof -
  from migrate_Inl [OF assms(1)] have "fld ''v1_head_hash'' (read_manifest w') = JNull"
    using blocked_Inl(4) by auto
  with assms(2,3) show ?thesis by (simp add: migrate_def existing_segment_def)
qed

lemma migrate_succeeds:
  assumes no_seg: "v2_file w = None \<or> v2_file w = Some []"
    and ex: "export_verify_rows H (rows (v1 w)) = Inr (rows (v1 w), last_hash (v1 w), length (rows (v1 w)))"
    and gate: "\<And>c. rows c = rows (v1 w) \<Longrightarrow> check_head verifier c (length (rows (v1 w))) (last_hash (v1 w)) = Inr ()"
    and env: "source_stable e" "list_all (\<lambda>s. py_strip s \<noteq> []) [mig_id e, mig_now e, mig_operator e]"
    and H: "hash_output H"
  shows "\<exists>v w'. migrate H verifier say e w = (Inr (Activated v), w')"
proof -
  let ?c = "v1 w" and ?h = "last_hash (v1 w)" and ?sq = "length (rows (v1 w))"
  from ex have rows: "chained H genesis_hash (rows ?c)" "rows ?c \<noteq> []" "map seq (rows ?c) = [1 ..< Suc ?sq]"
    and hashes: "\<forall>r \<in> set (rows ?c). is_hash64 (record_hash r)"
    by (auto simp: export_verify_rows_def result_simps export_rows_Inr simp del: upt_Suc split: if_splits)
  have "map seq (rows ?c) ! (?sq - 1) = ?sq" using rows(2,3) by (simp del: upt_Suc)
  then have sq: "seq (last (rows ?c)) = ?sq" using rows(2) by (simp add: last_conv_nth)
  have h: "?h = record_hash (last (rows ?c))" using rows(2) by (simp add: last_hash_def)
  then have is_h: "is_hash64 ?h" using hashes rows(2) by simp
  have head: "live_head H ?c = Inr (?sq, ?h)" using rows sq h by (simp add: live_head_Inr)
  from env obtain c where c: "begin_migration (mig_id e) (mig_now e) ?c = Some c" by (auto simp: begin_migration_def)
  have rc: "rows c = rows ?c" using begin_migration_rows [OF c] by simp
  have eg: "export_gate H verifier e c ?sq ?h = Inr ()"
    using ex gate [OF rc] env(1) rc by (auto simp: export_gate_Inr)
  have good: "good_entry (first_entry e ?sq ?h) (mig_now e)"
  proof -
    have "py_strip ''migration.v2_started'' \<noteq> []" "py_strip ''migration'' \<noteq> []" "py_strip ''migration.start'' \<noteq> []"
      "py_strip ''migration-test-runtime'' \<noteq> []" by code_simp+
    with env(2) show ?thesis by (simp add: good_entry_def first_entry_def wf_entry_def)
  qed
  then have wf: "wf_entry (first_entry e ?sq ?h)" by (simp add: good_entry_def)
  from first_append [OF is_h good] obtain r ls' where app: "segment_append H ?h (first_entry e ?sq ?h) (mig_now e) [] = Inr (r, ls')"
    by blast
  from segment_append_chained [OF _ wf H app] have "v2_chained H 1 ?h ls'" "ls' \<noteq> []" by auto
  then have "segment_verify H ?h ls' = V2Valid (length ls') (v2_tip ?h ls')" using is_h by (simp add: segment_verify_valid)
  then have "\<exists>v w'. activate H say e ?sq ?h hr (write_manifest e vals (w\<lparr>v1 := c\<rparr>)) = (Inr (Activated v), w')" for vals hr
    using no_seg app by (auto simp: activate_def Let_def)
  then show ?thesis using no_seg head c eg by (auto simp: migrate_def Let_def)
qed

definition demo_migration :: migration_env where
  "demo_migration = \<lparr>mig_id = ''m'', mig_now = ''t'', mig_operator = ''o'', source_stable = True, export_digest = ''d'',
     v2_location = ''v'', export_location = ''x''\<rparr>"

definition accepting :: "chain \<Rightarrow> json option" where
  "accepting c = Some (obj [(''valid'', JBool True)])"

lemma demo_run: "\<exists>w v w'. migrate const_hash accepting (\<lambda>_. ''why'') demo_migration w = (Inr (Activated v), w')"
proof -
  obtain c where c: "export_verify_rows const_hash (rows c) = Inr (rows c, last_hash c, 1)" using quiet_chain by blast
  then have n: "length (rows c) = 1" by (auto simp: export_verify_rows_def result_simps split: if_splits)
  have "check_head accepting d n h = Inr ()" for d n h
    by (simp add: check_head_def accepting_def fld_def verified_head_hash_def)
  moreover have "list_all (\<lambda>s. py_strip s \<noteq> []) [mig_id demo_migration, mig_now demo_migration, mig_operator demo_migration]"
    by code_simp
  ultimately have "\<exists>v w'. migrate const_hash accepting (\<lambda>_. ''why'') demo_migration
      \<lparr>v1 = c, v2_file = None, manifest = None\<rparr> = (Inr (Activated v), w')"
    using c n hash_output_const by (intro migrate_succeeds) (simp_all add: demo_migration_def)
  then show ?thesis by blast
qed

section \<open>Properties\<close>

text \<open>C33: A migration is activated only over a sound v1 chain and a valid v2 segment: the v1 chain verifies, is not
  empty and has no gaps, the external gate accepted its head, the v2 file holds exactly one record, which is linked to
  that head and carries its own hash, its verification answers that it is valid, and from then on the v1 chain is
  closed.\<close>

theorem activation_is_sound:
  assumes "migrate H verifier say e w = (Inr (Activated v), w')"
  shows "\<exists>c h ls'. verify_chain H (v1 w) = Inr (Valid (length (rows (v1 w)))) \<and> rows (v1 w) \<noteq> [] \<and>
    map seq (rows (v1 w)) = [1 ..< Suc (length (rows (v1 w)))] \<and> h = last_hash (v1 w) \<and> rows c = rows (v1 w) \<and>
    check_head verifier c (length (rows (v1 w))) h = Inr () \<and>
    v2_file w' = Some ls' \<and> length ls' = 1 \<and> v2_chained H 1 h ls' \<and>
    segment_verify H h ls' = v \<and> v = V2Valid 1 (v2_tip h ls') \<and> migration_state (v1 w') = ''V2_ACTIVE''"
proof -
  obtain c h ls' where *: "chained H genesis_hash (rows (v1 w))" "rows (v1 w) \<noteq> []"
    "map seq (rows (v1 w)) = [1 ..< Suc (length (rows (v1 w)))]" "h = record_hash (last (rows (v1 w)))"
    "rows c = rows (v1 w)" "check_head verifier c (length (rows (v1 w))) h = Inr ()"
    "v2_file w' = Some ls'" "segment_verify H h ls' = v" "v = V2Valid 1 (v2_tip h ls')" "v2_chained H 1 h ls'" "length ls' = 1" "migration_state (v1 w') = ''V2_ACTIVE''"
    by (rule migrate_activated [OF assms])
  then have "verify_chain H (v1 w) = Inr (Valid (length (rows (v1 w))))" "h = last_hash (v1 w)"
    by (simp_all add: verify_chain_valid last_hash_def)
  with * show ?thesis by blast
qed

theorem activation_is_sound_witness:
  "\<exists>w v w'. migrate const_hash accepting (\<lambda>_. ''why'') demo_migration w = (Inr (Activated v), w') \<and>
    verify_chain const_hash (v1 w) = Inr (Valid (length (rows (v1 w)))) \<and> rows (v1 w) \<noteq> [] \<and>
    (\<exists>t. v = V2Valid 1 t) \<and> migration_state (v1 w') = ''V2_ACTIVE''"
proof -
  obtain w v w' where r: "migrate const_hash accepting (\<lambda>_. ''why'') demo_migration w = (Inr (Activated v), w')"
    using demo_run by blast
  have "verify_chain const_hash (v1 w) = Inr (Valid (length (rows (v1 w)))) \<and> rows (v1 w) \<noteq> [] \<and>
    (\<exists>t. v = V2Valid 1 t) \<and> migration_state (v1 w') = ''V2_ACTIVE''"
    using activation_is_sound [OF r] by blast
  with r show ?thesis by (intro exI [of _ w] exI [of _ v] exI [of _ w'] conjI) simp_all
qed

text \<open>A migration succeeds when nothing stands in its way: with a chain the export accepts, an external gate
  that accepts its head, an unchanged source, non-blank names and no v2 records yet, the run activates v2.\<close>

theorem migration_succeeds:
  assumes "v2_file w = None \<or> v2_file w = Some []"
    and "export_verify_rows H (rows (v1 w)) = Inr (rows (v1 w), last_hash (v1 w), length (rows (v1 w)))"
    and "\<forall>c. rows c = rows (v1 w) \<longrightarrow> check_head verifier c (length (rows (v1 w))) (last_hash (v1 w)) = Inr ()"
    and "source_stable e" "list_all (\<lambda>s. py_strip s \<noteq> []) [mig_id e, mig_now e, mig_operator e]" "hash_output H"
  shows "\<exists>v w'. migrate H verifier say e w = (Inr (Activated v), w')"
  using assms by (intro migrate_succeeds) auto

theorem migration_succeeds_witness:
  "\<exists>c v w'. migrate const_hash accepting (\<lambda>_. ''why'') demo_migration \<lparr>v1 = c, v2_file = None, manifest = None\<rparr> =
     (Inr (Activated v), w')"
proof -
  obtain c where c: "export_verify_rows const_hash (rows c) = Inr (rows c, last_hash c, 1)" using quiet_chain by blast
  then have "length (rows c) = 1" by (auto simp: export_verify_rows_def result_simps split: if_splits)
  moreover have "list_all (\<lambda>s. py_strip s \<noteq> []) [mig_id demo_migration, mig_now demo_migration, mig_operator demo_migration]"
    by code_simp
  moreover have "check_head accepting d n h = Inr ()" for d n h
    by (simp add: check_head_def accepting_def fld_def verified_head_hash_def)
  ultimately have "\<exists>v w'. migrate const_hash accepting (\<lambda>_. ''why'') demo_migration
      \<lparr>v1 = c, v2_file = None, manifest = None\<rparr> = (Inr (Activated v), w')"
    using c hash_output_const by (intro migration_succeeds) (simp_all add: demo_migration_def)
  then show ?thesis by blast
qed

text \<open>No run, successful or not, changes a v1 record.\<close>

theorem migration_never_rewrites_v1:
  "rows (v1 (snd (migrate H verifier say e w))) = rows (v1 w)"
  by (rule migrate_rows)

text \<open>A blocked run over a started segment cannot be resumed: its manifest overwrites the recorded v1 head,
  and every later run is refused for want of it.\<close>

theorem blocked_run_blocks_every_later_run:
  assumes "migrate H verifier say e w = (Inl why, w')" "v2_file w' = Some ls" "ls \<noteq> []"
  shows "fst (migrate H verifier' say' e' w') = Inl NoRecordedHead"
  by (rule blocked_forever [OF assms])

definition stuck_world :: migration_world where
  "stuck_world = \<lparr>v1 = empty_chain, v2_file = Some [Blank], manifest = None\<rparr>"

theorem blocked_run_blocks_every_later_run_witness:
  "fst (migrate const_hash accepting (\<lambda>_. ''again'') demo_migration
     (snd (migrate const_hash accepting (\<lambda>_. ''why'') demo_migration stuck_world))) = Inl NoRecordedHead"
proof (rule blocked_run_blocks_every_later_run)
  show "migrate const_hash accepting (\<lambda>_. ''why'') demo_migration stuck_world =
    (Inl NoRecordedHead, snd (migrate const_hash accepting (\<lambda>_. ''why'') demo_migration stuck_world))"
    "v2_file (snd (migrate const_hash accepting (\<lambda>_. ''why'') demo_migration stuck_world)) = Some [Blank]" "[Blank] \<noteq> []"
    by (simp_all add: migrate_def stuck_world_def existing_segment_def read_manifest_def fld_def world_simps)
qed

end
