(* ===== verification/Gov_KillSwitch.thy ===== *)
theory Gov_KillSwitch
  imports Ledger_Chain "HOL-Library.Product_Lexorder"
begin

text \<open>
  The kill switch (\<^verbatim>\<open>src/src/msb_v3/governance/killswitch.py\<close>): one global
  row and a table of scopes, the operations that arm and disarm them, the fail-closed reads and
  the guard \<^verbatim>\<open>require_allowed\<close>. Whether each table can be read or written at a
  call is an argument; the audit chain is an appender. The locale \<open>brake\<close> states the
  contract the governed components rely on.
\<close>

section \<open>State\<close>

record arm_row =
  ar_armed :: bool
  ar_at :: "string option"
  ar_by :: "string option"
  ar_reason :: "string option"

record scope_row =
  sc_type :: string
  sc_id :: string
  sc_row :: arm_row

record kill_db =
  ks_row :: "arm_row option"          \<comment> \<open>\<^verbatim>\<open>kill_switch_state\<close>, id 1\<close>
  ks_scopes :: "scope_row list"

record kill_io =
  state_readable :: bool
  scopes_readable :: bool
  db_writable :: bool

datatype scope_list = ScopeRows "scope_row list" | ScopeError

record kill_state =
  kst_armed :: bool
  kst_fail_closed :: bool
  kst_row :: "arm_row option"
  kst_scopes :: scope_list
  kst_audit_failed :: bool

datatype kill_error = UnknownScopeType | ScopeIdRequired | DbError | GovernanceHalt

definition SCOPE_TYPES :: "string list" where
  "SCOPE_TYPES = [''tenant'', ''agent'', ''task'', ''tool'', ''capability'', ''resource'']"

definition scope_key :: "scope_row \<Rightarrow> string \<times> string" where
  "scope_key r = (sc_type r, sc_id r)"

definition unarmed_row :: arm_row where
  "unarmed_row = \<lparr>ar_armed = False, ar_at = None, ar_by = None, ar_reason = None\<rparr>"

definition init_kill :: "kill_db \<Rightarrow> kill_db" where
  \<comment> \<open>\<^verbatim>\<open>INSERT OR IGNORE\<close> of the state row\<close>
  "init_kill d = (case ks_row d of None \<Rightarrow> d\<lparr>ks_row := Some unarmed_row\<rparr> | Some _ \<Rightarrow> d)"

section \<open>Reads\<close>

definition list_scopes :: "kill_io \<Rightarrow> kill_db \<Rightarrow> scope_list" where
  "list_scopes io d =
     (if scopes_readable io then ScopeRows (sort_key scope_key (filter (\<lambda>r. ar_armed (sc_row r)) (ks_scopes d)))
      else ScopeError)"

definition kill_state :: "kill_io \<Rightarrow> kill_db \<Rightarrow> kill_state" where
  "kill_state io d =
     (if \<not> state_readable io
      then \<lparr>kst_armed = True, kst_fail_closed = True, kst_row = None, kst_scopes = ScopeRows [], kst_audit_failed = False\<rparr>
      else (case ks_row d of
        None \<Rightarrow> \<lparr>kst_armed = True, kst_fail_closed = True, kst_row = None, kst_scopes = ScopeRows [], kst_audit_failed = False\<rparr>
      | Some r \<Rightarrow> \<lparr>kst_armed = ar_armed r, kst_fail_closed = False, kst_row = Some r,
                   kst_scopes = list_scopes io d, kst_audit_failed = False\<rparr>))"

definition is_armed :: "kill_io \<Rightarrow> kill_db \<Rightarrow> bool" where
  "is_armed io d = kst_armed (kill_state io d)"

definition scope_state :: "kill_io \<Rightarrow> string \<Rightarrow> string \<Rightarrow> kill_db \<Rightarrow> bool \<times> arm_row option" where
  \<comment> \<open>the armed flag and the row, when there is one to report\<close>
  "scope_state io ty i d =
     (if \<not> scopes_readable io then (True, None)
      else (case row_of scope_key (ty, i) (ks_scopes d) of
              None \<Rightarrow> (False, None)
            | Some r \<Rightarrow> (ar_armed (sc_row r), Some (sc_row r))))"

definition is_blocked :: "kill_io \<Rightarrow> string option \<Rightarrow> string option \<Rightarrow> kill_db \<Rightarrow> bool" where
  "is_blocked io ty i d =
     (if is_armed io d then True
      else (case (ty, i) of (Some t, Some x) \<Rightarrow> fst (scope_state io t x d) | _ \<Rightarrow> False))"

definition require_allowed :: "kill_io \<Rightarrow> string option \<Rightarrow> string option \<Rightarrow> kill_db \<Rightarrow> (kill_error, unit) result" where
  "require_allowed io ty i d = (if is_blocked io ty i d then Inl GovernanceHalt else Inr ())"

section \<open>Writes\<close>

definition ks_audit :: "'c appender \<Rightarrow> string \<Rightarrow> json \<Rightarrow> 'c \<Rightarrow> bool \<times> 'c" where
  \<comment> \<open>\<^verbatim>\<open>_audit_append\<close>: whether the append failed\<close>
  "ks_audit app ev p c = (let (r, c') = app c ''killswitch'' ev p in (r = None, c'))"

definition arm ::
  "'c appender \<Rightarrow> kill_io \<Rightarrow> string \<Rightarrow> string \<Rightarrow> string \<Rightarrow> kill_db \<times> 'c \<Rightarrow>
     (kill_error, kill_state) result \<times> kill_db \<times> 'c" where
  "arm app io operator reason now s =
     (let (d, c) = s in
      if \<not> db_writable io then (Inl DbError, d, c)
      else (let d' = d\<lparr>ks_row := map_option (\<lambda>_. \<lparr>ar_armed = True, ar_at = Some now, ar_by = Some operator,
                                               ar_reason = Some reason\<rparr>) (ks_row d)\<rparr>;
                st = kill_state io d';
                (failed, c') = ks_audit app ''armed'' (obj [(''operator'', JStr operator), (''reason'', JStr reason)]) c
            in (Inr (st\<lparr>kst_audit_failed := failed\<rparr>), d', c')))"

definition disarm ::
  "'c appender \<Rightarrow> kill_io \<Rightarrow> string \<Rightarrow> kill_db \<times> 'c \<Rightarrow> (kill_error, kill_state) result \<times> kill_db \<times> 'c" where
  "disarm app io operator s =
     (let (d, c) = s in
      if \<not> db_writable io then (Inl DbError, d, c)
      else (let d' = d\<lparr>ks_row := map_option (\<lambda>_. unarmed_row) (ks_row d)\<rparr>;
                st = kill_state io d';
                (failed, c') = ks_audit app ''disarmed'' (obj [(''operator'', JStr operator)]) c
            in (Inr (st\<lparr>kst_audit_failed := failed\<rparr>), d', c')))"

definition arm_scope ::
  "'c appender \<Rightarrow> kill_io \<Rightarrow> string \<Rightarrow> string \<Rightarrow> string \<Rightarrow> string \<Rightarrow> string \<Rightarrow> kill_db \<times> 'c \<Rightarrow>
     (kill_error, bool \<times> arm_row option \<times> bool) result \<times> kill_db \<times> 'c" where
  \<comment> \<open>the answer: armed, the row, and whether the audit append failed\<close>
  "arm_scope app io ty i operator reason now s =
     (let (d, c) = s in
      if ty \<notin> set SCOPE_TYPES then (Inl UnknownScopeType, d, c)
      else if i = [] then (Inl ScopeIdRequired, d, c)
      else if \<not> db_writable io then (Inl DbError, d, c)
      else (let row = \<lparr>sc_type = ty, sc_id = i, sc_row = \<lparr>ar_armed = True, ar_at = Some now,
                       ar_by = Some operator, ar_reason = Some reason\<rparr>\<rparr>;
                d' = d\<lparr>ks_scopes := row_delete scope_key (ty, i) (ks_scopes d) @ [row]\<rparr>;
                (armed, r) = scope_state io ty i d';
                (failed, c') = ks_audit app ''scope_armed''
                   (obj [(''scope_type'', JStr ty), (''scope_id'', JStr i), (''operator'', JStr operator),
                         (''reason'', JStr reason)]) c
            in (Inr (armed, r, failed), d', c')))"

definition disarm_scope ::
  "'c appender \<Rightarrow> kill_io \<Rightarrow> string \<Rightarrow> string \<Rightarrow> string \<Rightarrow> kill_db \<times> 'c \<Rightarrow>
     (kill_error, bool) result \<times> kill_db \<times> 'c" where
  "disarm_scope app io ty i operator s =
     (let (d, c) = s in
      if \<not> db_writable io then (Inl DbError, d, c)
      else (let d' = d\<lparr>ks_scopes := row_delete scope_key (ty, i) (ks_scopes d)\<rparr>;
                (failed, c') = ks_audit app ''scope_disarmed''
                   (obj [(''scope_type'', JStr ty), (''scope_id'', JStr i), (''operator'', JStr operator)]) c
            in (Inr failed, d', c')))"

section \<open>The contract of a brake\<close>

datatype brake_op =
    Arm string string string | Disarm string
  | ArmScope string string string string string | DisarmScope string string string

text \<open>
  \<open>apply_op\<close> runs one operation, \<open>blocked s t i\<close> is the guard. An operation that
  succeeds (\<open>ok\<close>) has its effect; one that does not leaves the brake as it was.
\<close>

locale brake =
  fixes apply_op :: "brake_op \<Rightarrow> 's \<Rightarrow> 's"
    and ok :: "brake_op \<Rightarrow> 's \<Rightarrow> bool"
    and halted :: "'s \<Rightarrow> bool"
    and scoped :: "string \<times> string \<Rightarrow> 's \<Rightarrow> bool"
  assumes fails: "\<not> ok x s \<Longrightarrow> halted (apply_op x s) = halted s \<and> scoped k (apply_op x s) = scoped k s"
    and arm_halts: "ok (Arm u r n) s \<Longrightarrow> halted (apply_op (Arm u r n) s)"
    and disarm_frees: "ok (Disarm u) s \<Longrightarrow> \<not> halted (apply_op (Disarm u) s)"
    and global_scoped: "scoped k (apply_op (Arm u r n) s) = scoped k s" "scoped k (apply_op (Disarm u) s) = scoped k s"
    and scope_global: "halted (apply_op (ArmScope t i u r n) s) = halted s" "halted (apply_op (DisarmScope t i u) s) = halted s"
    and arm_scope_sets: "ok (ArmScope t i u r n) s \<Longrightarrow> scoped k (apply_op (ArmScope t i u r n) s) = (k = (t, i) \<or> scoped k s)"
    and disarm_scope_clears: "ok (DisarmScope t i u) s \<Longrightarrow> scoped k (apply_op (DisarmScope t i u) s) = (k \<noteq> (t, i) \<and> scoped k s)"
begin

definition run_ops :: "brake_op list \<Rightarrow> 's \<Rightarrow> 's" where
  "run_ops xs s = fold apply_op xs s"

fun releases :: "brake_op \<Rightarrow> bool" where
  "releases (Disarm _) = True"
| "releases _ = False"

fun releases_scope :: "string \<times> string \<Rightarrow> brake_op \<Rightarrow> bool" where
  "releases_scope k (DisarmScope t i _) = (k = (t, i))"
| "releases_scope k _ = False"

lemma halted_step: "\<not> releases x \<Longrightarrow> halted s \<Longrightarrow> halted (apply_op x s)"
  by (cases x; cases "ok x s") (simp_all add: fails arm_halts scope_global)

lemma scoped_step: "\<not> releases_scope k x \<Longrightarrow> scoped k s \<Longrightarrow> scoped k (apply_op x s)"
  by (cases x; cases "ok x s") (auto simp: fails arm_scope_sets disarm_scope_clears global_scoped)

lemma halted_until_disarm: "\<forall>x \<in> set xs. \<not> releases x \<Longrightarrow> halted s \<Longrightarrow> halted (run_ops xs s)"
  by (induction xs arbitrary: s) (simp_all add: run_ops_def halted_step)

lemma scoped_until_disarm: "\<forall>x \<in> set xs. \<not> releases_scope k x \<Longrightarrow> scoped k s \<Longrightarrow> scoped k (run_ops xs s)"
  by (induction xs arbitrary: s) (simp_all add: run_ops_def scoped_step)

end

section \<open>The kill switch is a brake\<close>

interpretation scope_table: keyed_table scope_key "\<lambda>f. \<forall>r. scope_key (f r) = scope_key r"
  by unfold_locales simp

definition io_ok :: kill_io where
  "io_ok = \<lparr>state_readable = True, scopes_readable = True, db_writable = True\<rparr>"

fun apply_brake :: "'c appender \<Rightarrow> brake_op \<Rightarrow> kill_db \<times> 'c \<Rightarrow> kill_db \<times> 'c" where
  "apply_brake app (Arm u r n) s = snd (arm app io_ok u r n s)"
| "apply_brake app (Disarm u) s = snd (disarm app io_ok u s)"
| "apply_brake app (ArmScope t i u r n) s = snd (arm_scope app io_ok t i u r n s)"
| "apply_brake app (DisarmScope t i u) s = snd (disarm_scope app io_ok t i u s)"

fun brake_ok :: "brake_op \<Rightarrow> kill_db \<times> 'c \<Rightarrow> bool" where
  "brake_ok (ArmScope t i u r n) s = (t \<in> set SCOPE_TYPES \<and> i \<noteq> [])"
| "brake_ok (DisarmScope t i u) s = True"
| "brake_ok _ s = (ks_row (fst s) \<noteq> None)"

definition scope_armed :: "string \<times> string \<Rightarrow> kill_db \<Rightarrow> bool" where
  "scope_armed k d = fst (scope_state io_ok (fst k) (snd k) d)"

lemma row_of_append_fresh:
  "row_of scope_key k (row_delete scope_key k' rs @ [r]) =
     (if k = scope_key r \<and> k = k' then Some r
      else if k = k' then None
      else case row_of scope_key k rs of None \<Rightarrow> (if k = scope_key r then Some r else None) | Some x \<Rightarrow> Some x)"
  by (induction rs) (auto simp: row_of_def row_delete_def)

lemma kill_steps:
  "fst (snd (arm app io u r n (d, c))) = (if db_writable io then
     d\<lparr>ks_row := map_option (\<lambda>_. \<lparr>ar_armed = True, ar_at = Some n, ar_by = Some u, ar_reason = Some r\<rparr>) (ks_row d)\<rparr> else d)"
  "fst (snd (disarm app io u (d, c))) = (if db_writable io then d\<lparr>ks_row := map_option (\<lambda>_. unarmed_row) (ks_row d)\<rparr> else d)"
  "fst (snd (disarm_scope app io t i u (d, c))) =
     (if db_writable io then d\<lparr>ks_scopes := row_delete scope_key (t, i) (ks_scopes d)\<rparr> else d)"
  "fst (snd (arm_scope app io t i u r n (d, c))) = (if t \<in> set SCOPE_TYPES \<and> i \<noteq> [] \<and> db_writable io then
     d\<lparr>ks_scopes := row_delete scope_key (t, i) (ks_scopes d) @ [\<lparr>sc_type = t, sc_id = i, sc_row =
       \<lparr>ar_armed = True, ar_at = Some n, ar_by = Some u, ar_reason = Some r\<rparr>\<rparr>]\<rparr> else d)"
  by (auto simp: arm_def disarm_def arm_scope_def disarm_scope_def Let_def split: prod.splits)

interpretation kill_brake: brake "apply_brake app" brake_ok "\<lambda>s. is_armed io_ok (fst s)" "\<lambda>k s. scope_armed k (fst s)" for app
proof unfold_locales
  fix x :: brake_op and s :: "kill_db \<times> 'a" and k u r n t i
  obtain d c where s: "s = (d, c)" by (cases s)
  note defs = s kill_steps is_armed_def kill_state_def scope_armed_def scope_state_def io_ok_def
    row_of_append_fresh scope_table.row_of_delete scope_key_def unarmed_row_def
  show "\<not> brake_ok x s \<Longrightarrow> is_armed io_ok (fst (apply_brake app x s)) = is_armed io_ok (fst s) \<and>
      scope_armed k (fst (apply_brake app x s)) = scope_armed k (fst s)"
    by (cases x) (auto simp: defs)
  show "brake_ok (Arm u r n) s \<Longrightarrow> is_armed io_ok (fst (apply_brake app (Arm u r n) s))"
    by (auto simp: defs)
  show "brake_ok (Disarm u) s \<Longrightarrow> \<not> is_armed io_ok (fst (apply_brake app (Disarm u) s))"
    by (auto simp: defs)
  show "scope_armed k (fst (apply_brake app (Arm u r n) s)) = scope_armed k (fst s)"
    "scope_armed k (fst (apply_brake app (Disarm u) s)) = scope_armed k (fst s)"
    "is_armed io_ok (fst (apply_brake app (ArmScope t i u r n) s)) = is_armed io_ok (fst s)"
    "is_armed io_ok (fst (apply_brake app (DisarmScope t i u) s)) = is_armed io_ok (fst s)"
    by (auto simp: defs split: option.splits)
  show "brake_ok (ArmScope t i u r n) s \<Longrightarrow>
      scope_armed k (fst (apply_brake app (ArmScope t i u r n) s)) = (k = (t, i) \<or> scope_armed k (fst s))"
    by (cases k) (auto simp: defs split: option.splits)
  show "brake_ok (DisarmScope t i u) s \<Longrightarrow>
      scope_armed k (fst (apply_brake app (DisarmScope t i u) s)) = (k \<noteq> (t, i) \<and> scope_armed k (fst s))"
    by (cases k) (auto simp: defs split: option.splits)
qed

lemma unreadable_blocks: "\<not> state_readable io \<Longrightarrow> is_blocked io t i d"
  by (simp add: is_blocked_def is_armed_def kill_state_def)

lemma is_blocked_ok: "is_blocked io_ok t i d \<longleftrightarrow> is_armed io_ok d \<or>
    (\<exists>a b. t = Some a \<and> i = Some b \<and> scope_armed (a, b) d)"
  by (auto simp: is_blocked_def scope_armed_def split: option.splits)

text \<open>Once the global switch is armed, every sequence of operations that contains no global
  disarm leaves every caller blocked, whatever its scope; scoped operations never loosen it.\<close>

theorem armed_blocks_until_disarm:
  assumes "is_armed io_ok (fst s)" and "\<forall>x \<in> set xs. \<not> kill_brake.releases x"
  shows "is_blocked io_ok t i (fst (fold (apply_brake app) xs s))"
  using kill_brake.halted_until_disarm [of xs s app] assms
  by (simp add: is_blocked_ok kill_brake.run_ops_def)

definition armed_db :: kill_db where
  "armed_db = \<lparr>ks_row = Some \<lparr>ar_armed = True, ar_at = Some ''t'', ar_by = Some ''op'', ar_reason = None\<rparr>, ks_scopes = []\<rparr>"

theorem armed_blocks_until_disarm_witness:
  "is_blocked io_ok None None (fst (fold (apply_brake (\<lambda>c k e p. (Some 1, c)))
     [ArmScope ''tool'' ''x'' ''op'' ''r'' ''t'', DisarmScope ''tool'' ''x'' ''op''] (armed_db, ())))"
  by (rule armed_blocks_until_disarm) (simp_all add: armed_db_def is_armed_def kill_state_def io_ok_def kill_brake.releases.simps)

text \<open>A scoped arm blocks exactly its own scope: when the global switch is off, right after
  arming (type, id) a caller is blocked if and only if it names that scope or one that was armed before.\<close>

theorem arm_scope_blocks_only_its_scope:
  assumes "t \<in> set SCOPE_TYPES" "i \<noteq> []" "\<not> is_armed io_ok d"
  shows "is_blocked io_ok ty x (fst (snd (arm_scope app io_ok t i u r n (d, c)))) \<longleftrightarrow>
    (ty = Some t \<and> x = Some i) \<or> is_blocked io_ok ty x d"
proof -
  let ?s = "apply_brake app (ArmScope t i u r n) (d, c)"
  have sc: "scope_armed k (fst ?s) \<longleftrightarrow> k = (t, i) \<or> scope_armed k d" for k
    using kill_brake.arm_scope_sets [of t i u r n "(d, c)" k app] assms by simp
  have "is_armed io_ok (fst ?s) = is_armed io_ok d"
    using kill_brake.scope_global(1) [of app t i u r n "(d, c)"] by simp
  with sc assms show ?thesis by (auto simp: is_blocked_ok)
qed

theorem arm_scope_blocks_only_its_scope_witness:
  "is_blocked io_ok (Some ''agent'') (Some ''a7'') (fst (snd (arm_scope (\<lambda>c k e p. (Some 1, c)) io_ok ''agent'' ''a7'' ''op'' ''r'' ''t''
      (armed_db\<lparr>ks_row := Some unarmed_row\<rparr>, ())))) \<longleftrightarrow>
    (Some ''agent'' = Some ''agent'' \<and> Some ''a7'' = Some ''a7'') \<or>
    is_blocked io_ok (Some ''agent'') (Some ''a7'') (armed_db\<lparr>ks_row := Some unarmed_row\<rparr>)"
  by (rule arm_scope_blocks_only_its_scope)
    (simp_all add: SCOPE_TYPES_def armed_db_def is_armed_def kill_state_def io_ok_def unarmed_row_def)

text \<open>The brakes fail closed: while the state row cannot be read, every caller is blocked and
  \<open>require_allowed\<close> raises.\<close>

theorem unreadable_state_blocks_everyone:
  assumes "\<not> state_readable io"
  shows "require_allowed io t i d = Inl GovernanceHalt"
  using unreadable_blocks [OF assms] by (simp add: require_allowed_def)

theorem unreadable_state_blocks_everyone_witness:
  "require_allowed (io_ok\<lparr>state_readable := False\<rparr>) None None armed_db = Inl GovernanceHalt"
  by (rule unreadable_state_blocks_everyone) simp

end
