(* ===== verification/Gov_Approval.thy ===== *)
theory Gov_Approval
  imports Ledger_Chain
begin

text \<open>
  The approval queue (\<^verbatim>\<open>src/src/msb_v3/governance/approval.py\<close>): submit,
  the three decisions, and the reads. A decision is one UPDATE guarded by
  \<^verbatim>\<open>status='PENDING'\<close>; an audit failure is reported on the item and does not
  undo the decision. Ids and times are arguments.
\<close>

section \<open>State\<close>

datatype approval_status = PENDING | APPROVED | REJECTED | CANCELLED

record approval_item =
  it_id :: string
  it_kind :: string
  it_title :: string
  it_payload :: json
  it_refs :: "string list"
  it_status :: approval_status
  it_created :: string
  it_decided_at :: "string option"
  it_decided_by :: "string option"
  it_reason :: "string option"

datatype approval_error = UnknownKind | DuplicateItem | UnknownItem | AlreadyDecided approval_status | ReasonRequired

definition APPROVAL_KINDS :: "string list" where
  "APPROVAL_KINDS = [''build'', ''combine'', ''promote_knowledge'', ''git_commit'', ''vault_write'']"

fun status_event :: "approval_status \<Rightarrow> string" where
  \<comment> \<open>\<^verbatim>\<open>status.lower()\<close>\<close>
  "status_event PENDING = ''pending''"
| "status_event APPROVED = ''approved''"
| "status_event REJECTED = ''rejected''"
| "status_event CANCELLED = ''cancelled''"

type_synonym 'c queue = "approval_item list \<times> 'c"

section \<open>Operations\<close>

definition opt_str :: "string option \<Rightarrow> json" where
  "opt_str s = (case s of None \<Rightarrow> JNull | Some x \<Rightarrow> JStr x)"

definition ap_audit :: "'c appender \<Rightarrow> string \<Rightarrow> json \<Rightarrow> 'c \<Rightarrow> bool \<times> 'c" where
  \<comment> \<open>\<^verbatim>\<open>_audit_append\<close>: whether it failed\<close>
  "ap_audit app ev p c = (let (r, c') = app c ''approval'' ev p in (r = None, c'))"

definition get_item :: "string \<Rightarrow> approval_item list \<Rightarrow> approval_item option" where
  "get_item i items = row_of it_id i items"

definition submit ::
  "'c appender \<Rightarrow> string \<Rightarrow> string \<Rightarrow> json option \<Rightarrow> string list \<Rightarrow> string option \<Rightarrow> string \<Rightarrow> string \<Rightarrow> 'c queue \<Rightarrow>
     (approval_error, approval_item \<times> bool) result \<times> 'c queue" where
  \<comment> \<open>\<open>item_id or fresh\<close>; an empty payload is the empty object\<close>
  "submit app kind title p refs item_id fresh now q =
     (let (items, c) = q;
          iid = (case item_id of None \<Rightarrow> fresh | Some x \<Rightarrow> if x = [] then fresh else x);
          p' = (case p of None \<Rightarrow> JObj [] | Some v \<Rightarrow> v);
          item = \<lparr>it_id = iid, it_kind = kind, it_title = title, it_payload = reload p', it_refs = refs,
                  it_status = PENDING, it_created = now, it_decided_at = None, it_decided_by = None, it_reason = None\<rparr>
      in if kind \<notin> set APPROVAL_KINDS then (Inl UnknownKind, q)
         else (case row_insert it_id item items of
                 None \<Rightarrow> (Inl DuplicateItem, q)
               | Some items' \<Rightarrow>
                   (let (failed, c') = ap_audit app ''submitted''
                          (obj [(''item_id'', JStr iid), (''kind'', JStr kind), (''title'', JStr title)]) c
                    in (Inr (item, failed), (items', c')))))"

definition decided :: "approval_status \<Rightarrow> string \<Rightarrow> string option \<Rightarrow> string \<Rightarrow> approval_item \<Rightarrow> approval_item" where
  "decided st operator reason now it =
     it\<lparr>it_status := st, it_decided_at := Some now, it_decided_by := Some operator, it_reason := reason\<rparr>"

definition decide ::
  "'c appender \<Rightarrow> string \<Rightarrow> string \<Rightarrow> approval_status \<Rightarrow> string option \<Rightarrow> string \<Rightarrow> 'c queue \<Rightarrow>
     (approval_error, approval_item \<times> bool) result \<times> 'c queue" where
  "decide app i operator st reason now q =
     (let (items, c) = q in
      case get_item i items of
        None \<Rightarrow> (Inl UnknownItem, q)
      | Some it \<Rightarrow>
          (if it_status it \<noteq> PENDING then (Inl (AlreadyDecided (it_status it)), q)
           else (let items' = row_update it_id i (decided st operator reason now) items;
                     (failed, c') = ap_audit app (status_event st)
                        (obj [(''item_id'', JStr i), (''operator'', JStr operator), (''reason'', opt_str reason)]) c
                 in (Inr (decided st operator reason now it, failed), (items', c')))))"

definition approve where "approve app i operator reason now q = decide app i operator APPROVED reason now q"

definition reject :: "'c appender \<Rightarrow> string \<Rightarrow> string \<Rightarrow> string option \<Rightarrow> string \<Rightarrow> 'c queue \<Rightarrow>
     (approval_error, approval_item \<times> bool) result \<times> 'c queue" where
  "reject app i operator reason now q =
     (if reason = None \<or> reason = Some [] then (Inl ReasonRequired, q)
      else decide app i operator REJECTED reason now q)"

definition cancel where "cancel app i operator reason now q = decide app i operator CANCELLED reason now q"

definition list_items :: "approval_status option \<Rightarrow> approval_item list \<Rightarrow> approval_item list" where
  \<comment> \<open>newest first; rows of one timestamp in insertion order\<close>
  "list_items st items =
     rev (sort_key it_created (rev (filter (\<lambda>it. case st of None \<Rightarrow> True | Some s \<Rightarrow> it_status it = s) items)))"

section \<open>A decision is final\<close>

definition decides :: "(approval_item \<Rightarrow> approval_item) \<Rightarrow> bool" where
  \<comment> \<open>the updates the queue issues\<close>
  "decides f \<longleftrightarrow> (\<forall>it. it_id (f it) = it_id it)"

interpretation approvals: keyed_table it_id decides
  by unfold_locales (simp add: decides_def)

definition status_step :: "approval_status \<Rightarrow> approval_status \<Rightarrow> bool" where
  "status_step s t \<longleftrightarrow> s = PENDING \<and> t \<noteq> PENDING"

definition is_decided :: "approval_status \<Rightarrow> bool" where
  "is_decided s \<longleftrightarrow> s \<noteq> PENDING"

interpretation approval_life: lifecycle status_step is_decided
  by unfold_locales (simp add: status_step_def is_decided_def)

datatype queue_op =
    Submit string string "json option" "string list" "string option" string string
  | Approve string string "string option" string
  | Reject string string "string option" string
  | Cancel string string "string option" string

fun queue_step :: "'c appender \<Rightarrow> queue_op \<Rightarrow> 'c queue \<Rightarrow> 'c queue" where
  "queue_step app (Submit k t p rs i f n) q = snd (submit app k t p rs i f n q)"
| "queue_step app (Approve i u r n) q = snd (approve app i u r n q)"
| "queue_step app (Reject i u r n) q = snd (reject app i u r n q)"
| "queue_step app (Cancel i u r n) q = snd (cancel app i u r n q)"

definition status_of :: "string \<Rightarrow> 'c queue \<Rightarrow> approval_status option" where
  "status_of i q = map_option it_status (get_item i (fst q))"

lemma decides_decided: "decides (decided st u r n)"
  by (simp add: decides_def decided_def)

lemma it_status_decided [simp]: "it_status (decided st u r n it) = st"
  by (simp add: decided_def)

lemma status_decide:
  assumes "st \<noteq> PENDING"
  shows "status_of j (snd (decide app i u st r n q)) =
    (if j = i \<and> status_of i q = Some PENDING then Some st else status_of j q)"
  by (cases q)
    (auto simp: decide_def status_of_def get_item_def ap_audit_def
      approvals.row_of_update [OF decides_decided] split: option.splits prod.splits)

lemma status_submit:
  "status_of j (snd (submit app k t p rs i f n q)) = status_of j q \<or>
   (status_of j q = None \<and> status_of j (snd (submit app k t p rs i f n q)) = Some PENDING)"
proof (cases q)
  case (Pair items c)
  define iid where "iid = (case i of None \<Rightarrow> f | Some x \<Rightarrow> if x = [] then f else x)"
  define it where "it = \<lparr>it_id = iid, it_kind = k, it_title = t,
    it_payload = reload (case p of None \<Rightarrow> JObj [] | Some v \<Rightarrow> v), it_refs = rs, it_status = PENDING,
    it_created = n, it_decided_at = None, it_decided_by = None, it_reason = None\<rparr>"
  have it: "it_id it = iid" "it_status it = PENDING" by (simp_all add: it_def)
  show ?thesis
  proof (cases "k \<notin> set APPROVAL_KINDS \<or> row_insert it_id it items = None")
    case True
    then show ?thesis by (auto simp: Pair submit_def Let_def iid_def [symmetric] it_def [symmetric])
  next
    case False
    then obtain items' where ins: "row_insert it_id it items = Some items'" and "k \<in> set APPROVAL_KINDS" by auto
    then have "fst (snd (submit app k t p rs i f n q)) = items'"
      by (simp add: Pair submit_def Let_def iid_def [symmetric] it_def [symmetric] split: prod.splits)
    then show ?thesis
      using approvals.row_of_insert [OF ins, of j] approvals.row_insert_fresh [OF ins] it
      by (auto simp: Pair status_of_def get_item_def)
  qed
qed

lemma submit_keeps: "status_of j q = Some s \<Longrightarrow> status_of j (snd (submit app k t p rs i f n q)) = Some s"
  using status_submit [of j app k t p rs i f n q] by auto

lemma queue_step_life:
  assumes "status_of i q = Some s"
  shows "\<exists>t. status_of i (queue_step app x q) = Some t \<and> status_step\<^sup>*\<^sup>* s t"
proof -
  have "status_of i (queue_step app x q) = Some s \<or> (s = PENDING \<and> (\<exists>t. t \<noteq> PENDING \<and> status_of i (queue_step app x q) = Some t))"
    using assms
    by (cases x) (auto simp: submit_keeps approve_def reject_def cancel_def status_decide)
  then show ?thesis by (auto simp: status_step_def intro!: r_into_rtranclp)
qed

lemma queue_run_life:
  "status_of i q = Some s \<Longrightarrow> \<exists>t. status_of i (fold (queue_step app) xs q) = Some t \<and> status_step\<^sup>*\<^sup>* s t"
proof (induction xs arbitrary: q s)
  case (Cons x xs)
  from queue_step_life [OF Cons.prems, of app x] obtain t where
    "status_of i (queue_step app x q) = Some t" "status_step\<^sup>*\<^sup>* s t" by blast
  with Cons.IH [of "queue_step app x q" t] show ?case by (auto intro: rtranclp_trans)
qed auto

text \<open>An approval decision is final: once an item is approved, rejected or cancelled, no
  sequence of submissions and decisions ever changes its status.\<close>

theorem decision_is_final:
  assumes "status_of i q = Some s" "s \<noteq> PENDING"
  shows "status_of i (fold (queue_step app) xs q) = Some s"
  using queue_run_life [OF assms(1), of app xs] approval_life.terminal_absorbing assms(2)
  by (auto simp: is_decided_def)

theorem decision_is_final_witness:
  "status_of ''a'' (fold (queue_step (\<lambda>c k e p. (Some 1, c)))
     [Reject ''a'' ''eve'' (Some ''no'') ''t3'', Submit ''build'' ''again'' None [] (Some ''a'') ''f'' ''t4'']
     (snd (approve (\<lambda>c k e p. (Some 1, c)) ''a'' ''op'' None ''t2''
        (snd (submit (\<lambda>c k e p. (Some 1, c)) ''build'' ''x'' None [] (Some ''a'') ''f'' ''t1'' ([], ())))))) = Some APPROVED"
  by (rule decision_is_final) code_simp+

end
