(* ===== verification/Gov_Budget.thy ===== *)
theory Gov_Budget
  imports Prelude
begin

text \<open>
  The budget ledger (\<^verbatim>\<open>src/src/msb_v3/governance/budget.py\<close>): per-category
  counters over a window, spends, resets and the snapshot. Each \<^verbatim>\<open>time.time()\<close>
  the code calls is an argument, an exact rational; the two locks serialise the spends, so a
  history is a sequence of operations.
\<close>

record budget_entry =
  be_category :: string
  be_start :: rat
  be_spent :: int

record budget_config =
  bc_limits :: "(string \<times> int) list"
  bc_window :: int

definition BUDGET_CATEGORIES :: "string list" where
  "BUDGET_CATEGORIES = [''research_calls'', ''tokens'', ''iterations'']"

definition limit_of :: "budget_config \<Rightarrow> string \<Rightarrow> int" where
  "limit_of cfg cat = (case map_of (bc_limits cfg) cat of None \<Rightarrow> -1 | Some l \<Rightarrow> l)"

definition live_row :: "budget_config \<Rightarrow> string \<Rightarrow> rat \<Rightarrow> budget_entry list \<Rightarrow> budget_entry option" where
  \<comment> \<open>\<^verbatim>\<open>_row\<close>\<close>
  "live_row cfg cat now es =
     (case row_of be_category cat es of
        None \<Rightarrow> None
      | Some r \<Rightarrow> if now - be_start r \<ge> of_int (bc_window cfg) then None else Some r)"

definition spend :: "budget_config \<Rightarrow> string \<Rightarrow> int \<Rightarrow> rat \<Rightarrow> rat \<Rightarrow> budget_entry list \<Rightarrow> bool \<times> budget_entry list" where
  "spend cfg cat amount read_at now es =
     (let limit = limit_of cfg cat in
      if limit = 0 then (False, es)
      else if limit < 0 then (True, es)
      else if amount > limit then (False, es)
      else (case live_row cfg cat read_at es of
              None \<Rightarrow> (True, row_delete be_category cat es @ [\<lparr>be_category = cat, be_start = now, be_spent = amount\<rparr>])
            | Some r \<Rightarrow>
                (let spent = be_spent r + amount in
                 if spent > limit then (False, es)
                 else (True, row_update be_category cat (be_spent_update (\<lambda>_. spent)) es))))"

definition reset_budget :: "string option \<Rightarrow> budget_entry list \<Rightarrow> budget_entry list" where
  "reset_budget cat es = (case cat of None \<Rightarrow> [] | Some k \<Rightarrow> row_delete be_category k es)"

record budget_view =
  bv_spent :: int
  bv_limit :: int
  bv_remaining :: int
  bv_window :: int
  bv_start :: rat

definition budget_state :: "budget_config \<Rightarrow> rat \<Rightarrow> budget_entry list \<Rightarrow> (string \<times> budget_view) list" where
  "budget_state cfg now es = map (\<lambda>cat.
     let row = live_row cfg cat now es;
         spent = (case row of None \<Rightarrow> 0 | Some r \<Rightarrow> be_spent r);
         limit = limit_of cfg cat
     in (cat, \<lparr>bv_spent = spent, bv_limit = limit, bv_remaining = (if limit < 0 then -1 else max (limit - spent) 0),
               bv_window = bc_window cfg, bv_start = (case row of None \<Rightarrow> now | Some r \<Rightarrow> be_start r)\<rparr>)) BUDGET_CATEGORIES"

section \<open>The cap within a window\<close>

interpretation budget_table: keyed_table be_category "\<lambda>f. \<forall>e. be_category (f e) = be_category e"
  by unfold_locales simp

text \<open>A history of spends on one category: the amounts and the times of the two clock reads.\<close>

fun granted :: "budget_config \<Rightarrow> string \<Rightarrow> (int \<times> rat \<times> rat) list \<Rightarrow> budget_entry list \<Rightarrow> int" where
  "granted cfg cat [] es = 0"
| "granted cfg cat ((a, t, u) # xs) es =
     (let (ok, es') = spend cfg cat a t u es in (if ok then a else 0) + granted cfg cat xs es')"

lemma row_of_replaced: "row_of be_category cat (row_delete be_category cat es @ [\<lparr>be_category = cat, be_start = u, be_spent = a\<rparr>]) =
    Some \<lparr>be_category = cat, be_start = u, be_spent = a\<rparr>"
  by (induction es) (simp_all add: row_of_def row_delete_def)

lemma spend_live:
  assumes "0 < limit_of cfg cat" "row_of be_category cat es = Some r" "t - be_start r < of_int (bc_window cfg)"
    and "be_spent r \<le> limit_of cfg cat" "0 \<le> a"
  obtains "spend cfg cat a t u es = (False, es)"
  | es' where "spend cfg cat a t u es = (True, es')"
    "row_of be_category cat es' = Some (r\<lparr>be_spent := be_spent r + a\<rparr>)" "be_spent r + a \<le> limit_of cfg cat"
proof -
  have live: "live_row cfg cat t es = Some r" using assms by (simp add: live_row_def)
  show thesis
  proof (cases "a > limit_of cfg cat \<or> be_spent r + a > limit_of cfg cat")
    case True
    with assms live show ?thesis by (intro that(1)) (auto simp: spend_def Let_def)
  next
    case False
    with assms live show ?thesis
      by (intro that(2)) (auto simp: spend_def Let_def budget_table.row_of_update)
  qed
qed

lemma granted_live:
  assumes "0 < limit_of cfg cat" "row_of be_category cat es = Some r" "be_spent r \<le> limit_of cfg cat"
    and "\<forall>(a, t, u) \<in> set xs. 0 \<le> a \<and> t - be_start r < of_int (bc_window cfg)"
  shows "be_spent r + granted cfg cat xs es \<le> limit_of cfg cat"
  using assms
proof (induction xs arbitrary: es r)
  case (Cons x xs)
  obtain a t u where x: "x = (a, t, u)" by (cases x)
  with Cons.prems have a: "0 \<le> a" "t - be_start r < of_int (bc_window cfg)" by auto
  show ?case
  proof (rule spend_live [OF Cons.prems(1,2) a(2) Cons.prems(3) a(1), of u])
    assume "spend cfg cat a t u es = (False, es)"
    with Cons.IH [OF Cons.prems(1-3)] Cons.prems(4) x show ?thesis by simp
  next
    fix es' assume s: "spend cfg cat a t u es = (True, es')"
      "row_of be_category cat es' = Some (r\<lparr>be_spent := be_spent r + a\<rparr>)" "be_spent r + a \<le> limit_of cfg cat"
    from Cons.IH [OF Cons.prems(1) s(2)] s(3) Cons.prems(4)
    have "be_spent r + a + granted cfg cat xs es' \<le> limit_of cfg cat" by simp
    with s(1) x show ?thesis by simp
  qed
qed simp

text \<open>Under a positive cap, spends of non-negative amounts whose clock readings stay within one
  window of the first of them never take more than the cap in total, from a ledger with no live
  counter for the category.\<close>

theorem spends_within_cap:
  assumes "0 < limit_of cfg cat" "live_row cfg cat t0 es = None"
    and "0 \<le> a0" "\<forall>(a, t, u) \<in> set xs. 0 \<le> a \<and> t - u0 < of_int (bc_window cfg)"
  shows "a0 > limit_of cfg cat \<or> granted cfg cat ((a0, t0, u0) # xs) es \<le> limit_of cfg cat"
proof (cases "a0 > limit_of cfg cat")
  case False
  let ?r = "\<lparr>be_category = cat, be_start = u0, be_spent = a0\<rparr>"
  have "spend cfg cat a0 t0 u0 es = (True, row_delete be_category cat es @ [?r])"
    using assms False by (simp add: spend_def Let_def)
  moreover have "be_spent ?r + granted cfg cat xs (row_delete be_category cat es @ [?r]) \<le> limit_of cfg cat"
    using assms False by (intro granted_live [OF _ row_of_replaced]) auto
  ultimately show ?thesis by simp
qed simp

definition cfg10 :: budget_config where
  "cfg10 = \<lparr>bc_limits = [(''tokens'', 10)], bc_window = 60\<rparr>"

theorem spends_within_cap_witness:
  "(4 :: int) > limit_of cfg10 ''tokens'' \<or>
   granted cfg10 ''tokens'' ((4, 0, 0) # [(5, 10, 10), (3, 20, 20)]) [] \<le> limit_of cfg10 ''tokens''"
  by (rule spends_within_cap) (auto simp: cfg10_def limit_of_def live_row_def row_of_def)

text \<open>The window is fixed, not rolling: with a cap of 10 per 60 seconds, 19 units are granted
  within two seconds, across the end of a window opened by a single unit.\<close>

theorem budget_window_is_not_rolling:
  "granted cfg10 ''tokens'' [(1, 0, 0)] [] = 1 \<and>
   granted cfg10 ''tokens'' [(9, 59, 59), (10, 60, 60)] (snd (spend cfg10 ''tokens'' 1 0 0 [])) = 19"
  by (simp add: cfg10_def limit_of_def spend_def live_row_def row_of_def row_update_def row_delete_def)

end
