(* ===== verification/Gov_Governor.thy ===== *)
theory Gov_Governor
  imports Prelude
begin

text \<open>
  The convergence governor (\<^verbatim>\<open>src/src/msb_v3/governance/governor.py\<close>): a bounded
  history of signals and the deterministic verdict on it. The table is kept oldest first, the
  verdict reads it newest first; novelty and duplicate ratio are exact rationals.
\<close>

record run_row =
  gr_proposal :: string
  gr_novelty :: rat
  gr_dup :: rat
  gr_created :: string

record governor_config =
  gc_stall_limit :: int
  gc_novelty_min :: rat
  gc_dup_halt :: rat
  gc_history :: int

datatype advice = CONTINUE | SLOW | HALT

record governor_verdict =
  gv_action :: advice
  gv_stall :: nat
  gv_dup :: rat
  gv_trim :: "string list"
  gv_fail_closed :: bool

definition sql_limit :: "int \<Rightarrow> 'a list \<Rightarrow> 'a list" where
  \<comment> \<open>SQLite's LIMIT: a negative one does not limit\<close>
  "sql_limit n xs = (if n < 0 then xs else take (nat n) xs)"

definition record_run :: "governor_config \<Rightarrow> run_row \<Rightarrow> run_row list \<Rightarrow> run_row list" where
  \<comment> \<open>the INSERT and the trimming DELETE\<close>
  "record_run cfg r rs = rev (sql_limit (gc_history cfg) (rev (rs @ [r])))"

definition mean :: "rat list \<Rightarrow> rat" where
  "mean xs = sum_list xs / of_nat (max (length xs) 1)"

definition stall_count :: "rat \<Rightarrow> run_row list \<Rightarrow> nat" where
  \<comment> \<open>the counting loop over the newest-first rows\<close>
  "stall_count low rs = length (takeWhile (\<lambda>r. gr_novelty r < low) rs)"

definition judge :: "governor_config \<Rightarrow> string \<Rightarrow> run_row list \<Rightarrow> governor_verdict option" where
  \<comment> \<open>the verdict on newest-first rows; None is the IndexError of an empty history\<close>
  "judge cfg pid rs =
     (if rs = [] then None
      else (let stall = stall_count (gc_novelty_min cfg) rs;
                dup = gr_dup (hd rs);
                trim = map gr_proposal (filter (\<lambda>r. gr_dup r \<ge> gc_dup_halt cfg \<and> gr_proposal r \<noteq> pid) rs);
                out = (\<lambda>a. Some \<lparr>gv_action = a, gv_stall = stall, gv_dup = dup, gv_trim = trim, gv_fail_closed = False\<rparr>)
            in if dup \<ge> gc_dup_halt cfg then out HALT
               else if int stall \<ge> gc_stall_limit cfg then out HALT
               else if length rs \<ge> 6 \<and>
                  mean (map gr_novelty (take 3 rs)) < sum_list (map gr_novelty (take 3 (drop 3 rs))) / 3
               then out SLOW
               else out CONTINUE))"

definition advise :: "governor_config \<Rightarrow> bool \<Rightarrow> run_row \<Rightarrow> run_row list \<Rightarrow> governor_verdict option \<times> run_row list" where
  \<comment> \<open>\<open>db_ok\<close>: the statements ran; a failure rolls the transaction back\<close>
  "advise cfg db_ok r rs =
     (if \<not> db_ok then (Some \<lparr>gv_action = HALT, gv_stall = 0, gv_dup = 0, gv_trim = [], gv_fail_closed = True\<rparr>, rs)
      else (let rs' = record_run cfg r rs in
            (judge cfg (gr_proposal r) (sql_limit (gc_history cfg) (rev rs')), rs')))"

definition history_rows :: "governor_config \<Rightarrow> run_row list \<Rightarrow> run_row list" where
  "history_rows cfg rs = sql_limit (gc_history cfg) (rev rs)"

section \<open>The verdict\<close>

lemma stall_count_ge:
  "k \<le> stall_count low rs \<longleftrightarrow> k \<le> length rs \<and> (\<forall>r \<in> set (take k rs). gr_novelty r < low)"
proof (induction rs arbitrary: k)
  case (Cons r rs)
  then show ?case by (cases k) (auto simp: stall_count_def)
qed (simp add: stall_count_def)

lemma record_run_bound: "0 \<le> gc_history cfg \<Longrightarrow> length (record_run cfg r rs) \<le> nat (gc_history cfg)"
  by (simp add: record_run_def sql_limit_def)

lemma record_run_newest:
  assumes "0 < gc_history cfg"
  shows "rev (record_run cfg r rs) = take (nat (gc_history cfg)) (r # rev rs)"
  using assms by (simp add: record_run_def sql_limit_def)

text \<open>The governor halts exactly when the current duplicate ratio reaches the threshold, or when
  the last \<open>stall_limit\<close> recorded iterations, the current one included, are all below the novelty
  floor, for a positive history bound and stall limit.\<close>

theorem governor_halts_iff:
  assumes "0 < gc_history cfg" "0 < gc_stall_limit cfg"
  shows "map_option gv_action (fst (advise cfg True r rs)) = Some HALT \<longleftrightarrow>
    gr_dup r \<ge> gc_dup_halt cfg \<or>
    (gc_stall_limit cfg \<le> gc_history cfg \<and> nat (gc_stall_limit cfg) \<le> length (r # rs) \<and>
     (\<forall>x \<in> set (take (nat (gc_stall_limit cfg)) (r # rev rs)). gr_novelty x < gc_novelty_min cfg))"
proof -
  let ?n = "nat (gc_history cfg)" and ?k = "nat (gc_stall_limit cfg)"
  let ?rows = "take ?n (r # rev rs)"
  from assms have n: "0 < ?n" and le: "gc_stall_limit cfg \<le> gc_history cfg \<longleftrightarrow> ?k \<le> ?n" by auto
  have rows: "sql_limit (gc_history cfg) (rev (record_run cfg r rs)) = ?rows"
    using assms(1) by (simp add: record_run_newest sql_limit_def)
  have ne: "?rows \<noteq> []" "hd ?rows = r" using n by (simp_all add: take_Cons' )
  have st: "gc_stall_limit cfg \<le> int (stall_count (gc_novelty_min cfg) ?rows) \<longleftrightarrow>
     ?k \<le> ?n \<and> ?k \<le> length (r # rs) \<and> (\<forall>x \<in> set (take ?k (r # rev rs)). gr_novelty x < gc_novelty_min cfg)"
    using stall_count_ge [of ?k "gc_novelty_min cfg" ?rows] assms(2) n
    by (auto simp: nat_le_iff min_def split: if_splits)
  have "map_option gv_action (judge cfg (gr_proposal r) ?rows) = Some HALT \<longleftrightarrow>
     gr_dup r \<ge> gc_dup_halt cfg \<or> gc_stall_limit cfg \<le> int (stall_count (gc_novelty_min cfg) ?rows)"
    using ne by (auto simp: judge_def Let_def)
  then show ?thesis by (simp only: advise_def Let_def rows st le) simp
qed

definition governor_defaults :: governor_config where
  "governor_defaults = \<lparr>gc_stall_limit = 6, gc_novelty_min = 1/20, gc_dup_halt = 1/2, gc_history = 20\<rparr>"

definition stalled_run :: run_row where
  "stalled_run = \<lparr>gr_proposal = ''p'', gr_novelty = 0, gr_dup = 0, gr_created = ''t''\<rparr>"

theorem governor_halts_iff_witness:
  "map_option gv_action (fst (advise governor_defaults True stalled_run (replicate 5 stalled_run))) = Some HALT"
proof -
  have "0 < gc_stall_limit governor_defaults" by (simp add: governor_defaults_def)
  moreover have "0 \<le> gc_history governor_defaults" by (simp add: governor_defaults_def)
  ultimately show ?thesis
    by (subst governor_halts_iff) (simp_all add: governor_defaults_def stalled_run_def)
qed

end
