(* ===== verification/Gov_Guard.thy ===== *)
theory Gov_Guard
  imports Gov_KillSwitch Gov_Approval Gov_Budget Gov_Governor
begin

text \<open>
  The guard (\<^verbatim>\<open>src/src/msb_v3/governance/guard.py\<close>): one check before every
  autonomous action, over the kill switch, the approval queue, the budget ledger and the
  governor, in that order; every refusal is appended to the audit chain, and an append that
  raises leaves the caller without a verdict. The reason texts are abbreviated: the interpolated
  ids and numbers, and the governor's metrics in the record's detail, are left out.
\<close>

record 'c guard_state =
  gs_switch :: kill_db
  gs_queue :: "approval_item list"
  gs_budget :: "budget_entry list"
  gs_runs :: "run_row list"
  gs_audit :: 'c

record guard_config =
  gd_io :: kill_io
  gd_budget :: budget_config
  gd_governor :: governor_config
  gd_governor_db :: bool
  gd_clock :: "rat \<times> rat"     \<comment> \<open>the clock reads of the spends of this call\<close>
  gd_now :: string

datatype guard_action = OK | SLOWED | HALTED | APPROVAL_REQUIRED | APPROVAL_PENDING

record guard_verdict =
  gu_allowed :: bool
  gu_action :: guard_action
  gu_reason :: string

datatype guard_error = AuditRaised | GovernorIndexError

record run_signal =
  sg_proposal :: "string option"
  sg_novelty :: "rat option"
  sg_dup :: "rat option"

fun action_name :: "guard_action \<Rightarrow> string" where
  "action_name OK = ''OK''"
| "action_name SLOWED = ''SLOW''"
| "action_name HALTED = ''HALT''"
| "action_name APPROVAL_REQUIRED = ''APPROVAL_REQUIRED''"
| "action_name APPROVAL_PENDING = ''APPROVAL_PENDING''"

definition block ::
  "'c appender \<Rightarrow> guard_action \<Rightarrow> string \<Rightarrow> json \<Rightarrow> 'c guard_state \<Rightarrow>
     (guard_error, guard_verdict) result \<times> 'c guard_state" where
  "block app a reason detail s =
     (let (r, c') = app (gs_audit s) ''governance'' ''blocked''
            (obj [(''action'', JStr (action_name a)), (''reason'', JStr reason), (''detail'', detail)]);
          s' = s\<lparr>gs_audit := c'\<rparr>
      in case r of None \<Rightarrow> (Inl AuditRaised, s')
         | Some _ \<Rightarrow> (Inr \<lparr>gu_allowed = False, gu_action = a, gu_reason = reason\<rparr>, s'))"

fun approval_gate :: "string option \<Rightarrow> string option \<Rightarrow> approval_item list \<Rightarrow> (guard_action \<times> string) option" where
  \<comment> \<open>None passes\<close>
  "approval_gate kind approval items =
     (case kind of
        None \<Rightarrow> None
      | Some k \<Rightarrow>
          (if k \<notin> set APPROVAL_KINDS then None
           else (case approval of
               None \<Rightarrow> Some (APPROVAL_REQUIRED, ''requires owner approval before execution'')
             | Some i \<Rightarrow> (case get_item i items of
                   None \<Rightarrow> Some (APPROVAL_REQUIRED, ''unknown or not for kind'')
                 | Some it \<Rightarrow>
                     (if it_kind it \<noteq> k then Some (APPROVAL_REQUIRED, ''unknown or not for kind'')
                      else if it_status it = PENDING then Some (APPROVAL_PENDING, ''awaiting owner decision'')
                      else if it_status it \<noteq> APPROVED then Some (APPROVAL_REQUIRED, ''not approved'')
                      else None)))))"

fun spend_all :: "budget_config \<Rightarrow> rat \<times> rat \<Rightarrow> (string \<times> int) list \<Rightarrow> budget_entry list \<Rightarrow>
    string option \<times> budget_entry list" where
  \<comment> \<open>the budget loop: the category that refused, if one did\<close>
  "spend_all cfg t [] es = (None, es)"
| "spend_all cfg t ((cat, n) # us) es =
     (let (ok, es') = spend cfg cat n (fst t) (snd t) es in
      if ok then spend_all cfg t us es' else (Some cat, es'))"

definition signal_row :: "string \<Rightarrow> string \<Rightarrow> run_signal \<Rightarrow> run_row" where
  "signal_row action now sg =
     \<lparr>gr_proposal = (case sg_proposal sg of None \<Rightarrow> action | Some p \<Rightarrow> p),
      gr_novelty = (case sg_novelty sg of None \<Rightarrow> 1 | Some n \<Rightarrow> n),
      gr_dup = (case sg_dup sg of None \<Rightarrow> 0 | Some d \<Rightarrow> d), gr_created = now\<rparr>"

definition governor_step ::
  "'c appender \<Rightarrow> guard_config \<Rightarrow> string \<Rightarrow> run_signal option \<Rightarrow> 'c guard_state \<Rightarrow>
     (guard_error, guard_verdict) result \<times> 'c guard_state" where
  \<comment> \<open>step 4\<close>
  "governor_step app cfg action signal s =
     (case signal of
        None \<Rightarrow> (Inr \<lparr>gu_allowed = True, gu_action = OK, gu_reason = ''all brakes clear''\<rparr>, s)
      | Some sg \<Rightarrow>
          (let (v, rs) = advise (gd_governor cfg) (gd_governor_db cfg) (signal_row action (gd_now cfg) sg) (gs_runs s);
               s' = s\<lparr>gs_runs := rs\<rparr>
           in case v of
                None \<Rightarrow> (Inl GovernorIndexError, s')
              | Some v \<Rightarrow>
                  (case gv_action v of
                     HALT \<Rightarrow> block app HALTED ''governor'' (obj []) s'
                   | SLOW \<Rightarrow> (Inr \<lparr>gu_allowed = True, gu_action = SLOWED, gu_reason = ''slow''\<rparr>, s')
                   | CONTINUE \<Rightarrow> (Inr \<lparr>gu_allowed = True, gu_action = OK, gu_reason = ''all brakes clear''\<rparr>, s'))))"

definition budget_step ::
  "'c appender \<Rightarrow> guard_config \<Rightarrow> string \<Rightarrow> (string \<times> int) list \<Rightarrow> run_signal option \<Rightarrow> 'c guard_state \<Rightarrow>
     (guard_error, guard_verdict) result \<times> 'c guard_state" where
  \<comment> \<open>step 3, then step 4\<close>
  "budget_step app cfg action units signal s =
     (let (refused, es) = spend_all (gd_budget cfg) (gd_clock cfg) units (gs_budget s);
          s' = s\<lparr>gs_budget := es\<rparr>
      in case refused of
           Some cat \<Rightarrow> block app HALTED ''budget cap hit'' (obj [(''action'', JStr action), (''category'', JStr cat)]) s'
         | None \<Rightarrow> governor_step app cfg action signal s')"

definition check_run ::
  "'c appender \<Rightarrow> guard_config \<Rightarrow> string \<Rightarrow> string option \<Rightarrow> (string \<times> int) list \<Rightarrow> string option \<Rightarrow> run_signal option \<Rightarrow>
     'c guard_state \<Rightarrow> (guard_error, guard_verdict) result \<times> 'c guard_state" where
  "check_run app cfg action kind units approval signal s =
     (if is_armed (gd_io cfg) (gs_switch s)
      then block app HALTED ''kill switch armed'' (obj [(''action'', JStr action)]) s
      else (case approval_gate kind approval (gs_queue s) of
              Some (a, why) \<Rightarrow> block app a why (obj [(''action'', JStr action), (''kind'', opt_str kind)]) s
            | None \<Rightarrow> budget_step app cfg action units signal s))"

definition record_action :: "'c appender \<Rightarrow> string \<Rightarrow> string \<Rightarrow> json \<Rightarrow> 'c guard_state \<Rightarrow> nat option \<times> 'c guard_state" where
  "record_action app cmp ev p s = (let (r, c') = app (gs_audit s) cmp ev p in (r, s\<lparr>gs_audit := c'\<rparr>))"

section \<open>What an allowance and a refusal mean\<close>

lemma block_not_allowed: "fst (block app a why d s) = Inr v \<Longrightarrow> \<not> gu_allowed v"
  by (auto simp: block_def Let_def split: prod.splits option.splits)

lemma block_state: "gs_switch (snd (block app a why d s)) = gs_switch s" "gs_queue (snd (block app a why d s)) = gs_queue s"
  by (auto simp: block_def Let_def split: prod.splits option.splits)

lemma approval_gate_passes:
  "approval_gate kind approval items = None \<Longrightarrow> kind = Some k \<Longrightarrow> k \<in> set APPROVAL_KINDS \<Longrightarrow>
   \<exists>i it. approval = Some i \<and> get_item i items = Some it \<and> it_kind it = k \<and> it_status it = APPROVED"
  by (auto split: option.splits if_splits)

text \<open>C26: The guard allows an action only when the global kill switch is off and, for an irreversible
  kind, only with an approval item of that very kind whose status is APPROVED.\<close>

theorem allowed_means_unarmed_and_approved:
  assumes "fst (check_run app cfg action kind units approval signal s) = Inr v" "gu_allowed v"
  shows "\<not> is_armed (gd_io cfg) (gs_switch s) \<and>
    (\<forall>k. kind = Some k \<and> k \<in> set APPROVAL_KINDS \<longrightarrow>
      (\<exists>i it. approval = Some i \<and> get_item i (gs_queue s) = Some it \<and> it_kind it = k \<and> it_status it = APPROVED))"
proof -
  have unarmed: "\<not> is_armed (gd_io cfg) (gs_switch s)"
    using assms by (auto simp: check_run_def dest: block_not_allowed split: if_splits)
  have "approval_gate kind approval (gs_queue s) = None"
  proof (cases "approval_gate kind approval (gs_queue s)")
    case (Some x)
    with assms unarmed show ?thesis by (auto simp: check_run_def dest: block_not_allowed split: prod.splits)
  qed
  with unarmed approval_gate_passes show ?thesis by blast
qed

definition approved_build :: approval_item where
  "approved_build = \<lparr>it_id = ''a1'', it_kind = ''build'', it_title = ''t'', it_payload = JObj [], it_refs = [],
     it_status = APPROVED, it_created = ''t0'', it_decided_at = Some ''t1'', it_decided_by = Some ''op'', it_reason = None\<rparr>"

definition calm_guard :: "unit guard_state" where
  "calm_guard = \<lparr>gs_switch = \<lparr>ks_row = Some unarmed_row, ks_scopes = []\<rparr>, gs_queue = [approved_build],
     gs_budget = [], gs_runs = [], gs_audit = ()\<rparr>"

definition calm_config :: guard_config where
  "calm_config = \<lparr>gd_io = io_ok, gd_budget = cfg10, gd_governor = governor_defaults, gd_governor_db = True,
     gd_clock = (0, 0), gd_now = ''t''\<rparr>"

lemma calm_run:
  "check_run (\<lambda>c k e p. (Some 1, c)) calm_config ''act'' (Some ''build'') [(''tokens'', 2)] (Some ''a1'') None calm_guard =
     (Inr \<lparr>gu_allowed = True, gu_action = OK, gu_reason = ''all brakes clear''\<rparr>,
      snd (check_run (\<lambda>c k e p. (Some 1, c)) calm_config ''act'' (Some ''build'') [(''tokens'', 2)] (Some ''a1'') None calm_guard))"
  by code_simp

theorem allowed_means_unarmed_and_approved_witness:
  "\<not> is_armed (gd_io calm_config) (gs_switch calm_guard) \<and>
   (\<exists>it. get_item ''a1'' (gs_queue calm_guard) = Some it \<and> it_kind it = ''build'' \<and> it_status it = APPROVED)"
proof -
  have "fst (check_run (\<lambda>c k e p. (Some 1, c)) calm_config ''act'' (Some ''build'') [(''tokens'', 2)] (Some ''a1'') None calm_guard) =
      Inr \<lparr>gu_allowed = True, gu_action = OK, gu_reason = ''all brakes clear''\<rparr>"
    by (subst calm_run) (rule fst_conv)
  from allowed_means_unarmed_and_approved [OF this] show ?thesis by (simp add: APPROVAL_KINDS_def)
qed

context audit_sink
begin

lemma block_log:
  "block app a why d s = (Inr v, s') \<Longrightarrow>
   log (gs_audit s') = log (gs_audit s) @
     [(''governance'', ''blocked'', stored (obj [(''action'', JStr (action_name a)), (''reason'', JStr why), (''detail'', d)]))]"
  by (auto simp: block_def Let_def app_Some split: prod.splits option.splits)

definition audited :: "'c guard_state \<Rightarrow> guard_verdict \<Rightarrow> 'c guard_state \<Rightarrow> bool" where
  \<comment> \<open>an allowance appends nothing, a refusal exactly one record\<close>
  "audited s v s' \<longleftrightarrow> (\<exists>p. log (gs_audit s') = log (gs_audit s) @ (if gu_allowed v then [] else [(''governance'', ''blocked'', p)]))"

lemma block_audited: "block app a why d s = (Inr v, s') \<Longrightarrow> audited s v s'"
  using block_log [of a why d s v s'] block_not_allowed [of app a why d s v] by (auto simp: audited_def)

lemma governor_step_audited: "governor_step app cfg action signal s = (Inr v, s') \<Longrightarrow> audited s v s'"
  by (auto simp: governor_step_def Let_def audited_def dest!: block_audited
      split: option.splits prod.splits advice.splits)

lemma budget_step_audited: "budget_step app cfg action units signal s = (Inr v, s') \<Longrightarrow> audited s v s'"
  by (auto simp: budget_step_def Let_def audited_def dest!: block_audited governor_step_audited
      split: option.splits prod.splits)

lemma check_run_audited: "check_run app cfg action kind units approval signal s = (Inr v, s') \<Longrightarrow> audited s v s'"
  by (auto simp: check_run_def dest: block_audited budget_step_audited split: if_splits option.splits prod.splits)

end

text \<open>On the v1 chain every refusal of the guard is audited: a verdict that refuses appends exactly
  one governance record, a verdict that allows appends none.\<close>

theorem guard_refusals_audited:
  assumes "check_run (sink H env) cfg action kind units approval signal s = (Inr v, s')"
  shows "\<exists>p. chain_log (gs_audit s') = chain_log (gs_audit s) @ (if gu_allowed v then [] else [(''governance'', ''blocked'', p)])"
  using chain_sink.check_run_audited [OF assms] by (simp add: chain_sink.audited_def)

definition armed_guard :: "chain guard_state" where
  "armed_guard = \<lparr>gs_switch = \<lparr>ks_row = None, ks_scopes = []\<rparr>, gs_queue = [], gs_budget = [], gs_runs = [], gs_audit = empty_chain\<rparr>"

theorem guard_refusals_audited_witness:
  "\<exists>p. chain_log (gs_audit (snd (check_run (sink (\<lambda>s. s) quiet_env) calm_config ''act'' None [] None None armed_guard))) =
     chain_log (gs_audit armed_guard) @
       (if gu_allowed \<lparr>gu_allowed = False, gu_action = HALTED, gu_reason = ''kill switch armed''\<rparr> then [] else [(''governance'', ''blocked'', p)])"
proof (rule guard_refusals_audited)
  have "\<exists>n c'. sink (\<lambda>s. s) quiet_env empty_chain ''governance'' ''blocked'' (obj [(''action'', JStr ''HALT''),
      (''reason'', JStr ''kill switch armed''), (''detail'', obj [(''action'', JStr ''act'')])]) = (Some n, c')"
    by (rule quiet_sink) (simp_all add: empty_chain_ready)
  then show "check_run (sink (\<lambda>s. s) quiet_env) calm_config ''act'' None [] None None armed_guard =
    (Inr \<lparr>gu_allowed = False, gu_action = HALTED, gu_reason = ''kill switch armed''\<rparr>,
     snd (check_run (sink (\<lambda>s. s) quiet_env) calm_config ''act'' None [] None None armed_guard))"
    by (auto simp: check_run_def block_def calm_config_def armed_guard_def is_armed_def kill_state_def io_ok_def)
qed

text \<open>Budget units are consumed even when the action does not run: a governor halt, and a refusal
  by a later category, both come after the spend and do not give it back.\<close>

theorem halted_action_still_spends:
  "(let (v, s) = check_run (\<lambda>c k e p. (Some 1, c)) calm_config ''act'' None [(''tokens'', 4)] None
      (Some \<lparr>sg_proposal = None, sg_novelty = None, sg_dup = Some 1\<rparr>) calm_guard
    in v = Inr \<lparr>gu_allowed = False, gu_action = HALTED, gu_reason = ''governor''\<rparr> \<and> map be_spent (gs_budget s) = [4])"
  by code_simp

end
