(* ===== verification/Mission_Store.thy ===== *)
theory Mission_Store
  imports Ledger_AuditV2
begin

text \<open>
  Missions (\<^verbatim>\<open>src/src/msb_v3/mission/\<close>): the frozen transition matrix of
  \<^verbatim>\<open>states.py\<close>, the records of \<^verbatim>\<open>models.py\<close> and the store of
  \<^verbatim>\<open>store.py\<close> with its three writes, each one transaction that commits only after
  the audit chain took the event; whether that COMMIT succeeds is an argument of each write. Fresh ids and times are arguments; \<open>H\<close> is SHA-256.
\<close>

section \<open>The state machine\<close>

datatype mission_state =
    DRAFT | RESEARCHING | BLUEPRINT_REVIEW | PLANNING | PLAN_REVIEW | BUILDING | VERIFYING
  | GATED_GREEN | GATED_REVIEW | GATED_BLOCK | MERGED | ABANDONED | BLOCKED_ON_HUMAN

definition TERMINAL :: "mission_state list" where "TERMINAL = [MERGED, ABANDONED]"

definition GATE_VERDICTS :: "mission_state list" where
  "GATE_VERDICTS = [GATED_GREEN, GATED_REVIEW, GATED_BLOCK]"

fun edges :: "mission_state \<Rightarrow> mission_state list" where
  "edges DRAFT = [RESEARCHING]"
| "edges RESEARCHING = [BLUEPRINT_REVIEW]"
| "edges BLUEPRINT_REVIEW = [PLANNING, RESEARCHING]"
| "edges PLANNING = [PLAN_REVIEW]"
| "edges PLAN_REVIEW = [BUILDING, PLANNING]"
| "edges BUILDING = [VERIFYING]"
| "edges VERIFYING = [GATED_GREEN, GATED_REVIEW, GATED_BLOCK, BUILDING]"
| "edges GATED_GREEN = [MERGED]"
| "edges GATED_REVIEW = [MERGED, BUILDING]"
| "edges GATED_BLOCK = [BUILDING]"
| "edges _ = []"

definition HUMAN_GATED :: "(mission_state \<times> mission_state) list" where
  "HUMAN_GATED = [(BLUEPRINT_REVIEW, PLANNING), (PLAN_REVIEW, BUILDING), (GATED_GREEN, MERGED), (GATED_REVIEW, MERGED)]"

definition allowed_targets :: "mission_state \<Rightarrow> mission_state option \<Rightarrow> mission_state list" where
  "allowed_targets s resume =
     (if s \<in> set TERMINAL then []
      else if s = BLOCKED_ON_HUMAN
      then (case resume of None \<Rightarrow> [ABANDONED] | Some r \<Rightarrow> [ABANDONED, r])
      else edges s @ [ABANDONED, BLOCKED_ON_HUMAN])"

definition is_human_gated :: "mission_state \<Rightarrow> mission_state \<Rightarrow> bool" where
  "is_human_gated s t =
     (if t = ABANDONED then True else if s = BLOCKED_ON_HUMAN then True else (s, t) \<in> set HUMAN_GATED)"

fun state_name :: "mission_state \<Rightarrow> string" where
  "state_name DRAFT = ''DRAFT''"
| "state_name RESEARCHING = ''RESEARCHING''"
| "state_name BLUEPRINT_REVIEW = ''BLUEPRINT_REVIEW''"
| "state_name PLANNING = ''PLANNING''"
| "state_name PLAN_REVIEW = ''PLAN_REVIEW''"
| "state_name BUILDING = ''BUILDING''"
| "state_name VERIFYING = ''VERIFYING''"
| "state_name GATED_GREEN = ''GATED_GREEN''"
| "state_name GATED_REVIEW = ''GATED_REVIEW''"
| "state_name GATED_BLOCK = ''GATED_BLOCK''"
| "state_name MERGED = ''MERGED''"
| "state_name ABANDONED = ''ABANDONED''"
| "state_name BLOCKED_ON_HUMAN = ''BLOCKED_ON_HUMAN''"

section \<open>Records\<close>

datatype version_kind = BLUEPRINT | PLAN | TASK_GRAPH

fun kind_name :: "version_kind \<Rightarrow> string" where
  "kind_name BLUEPRINT = ''blueprint''"
| "kind_name PLAN = ''plan''"
| "kind_name TASK_GRAPH = ''task_graph''"

fun parent_kind :: "version_kind \<Rightarrow> version_kind option" where
  "parent_kind BLUEPRINT = None"
| "parent_kind PLAN = Some BLUEPRINT"
| "parent_kind TASK_GRAPH = Some PLAN"

record mission =
  ms_id :: string
  ms_objective :: string
  ms_created_by :: string
  ms_created_at :: string
  ms_updated_at :: string
  ms_state :: mission_state
  ms_resume :: "mission_state option"
  ms_constraints :: json

record mission_version =
  mv_mission :: string
  mv_kind :: version_kind
  mv_version :: nat
  mv_sha :: string
  mv_parent :: "string option"
  mv_created_by :: string
  mv_created_at :: string
  mv_body :: json

record mission_move =
  mt_mission :: string
  mt_from :: mission_state
  mt_to :: mission_state
  mt_actor :: string
  mt_approved_by :: "string option"
  mt_reason :: string
  mt_at :: string

record mission_db =
  md_missions :: "mission list"
  md_moves :: "mission_move list"          \<comment> \<open>\<^verbatim>\<open>mission_transitions\<close>, in seq order\<close>
  md_versions :: "mission_version list"

datatype mission_error =
    ObjectiveRequired | CreatedByRequired | ActorRequired | ReasonMissing
  | NotCanonical v2_error | UnknownMission | DuplicateMission | MissionTerminal
  | NoParentVersion | DuplicateVersion | IllegalTransition | NotTheGate | NeedsApproval
  | NeedsBlueprint | NeedsPlan | StalePlan | ChainRefused | CommitFailed

definition null_or :: "string option \<Rightarrow> json" where
  "null_or s = (case s of None \<Rightarrow> JNull | Some x \<Rightarrow> JStr x)"

definition version_sha256 :: "(string \<Rightarrow> string) \<Rightarrow> version_kind \<Rightarrow> string option \<Rightarrow> json \<Rightarrow> (v2_error, string) result" where
  "version_sha256 H kind parent bdy =
     sha256_hex H (obj [(''kind'', JStr (kind_name kind)), (''parent_sha256'', null_or parent), (''body'', bdy)])"

section \<open>Store internals\<close>

definition atomic ::
  "'c appender \<Rightarrow> bool \<Rightarrow> (mission_error, (string \<times> json) option \<times> 'r \<times> mission_db) result \<Rightarrow> mission_db \<times> 'c \<Rightarrow>
     (mission_error, 'r) result \<times> mission_db \<times> 'c" where
  \<comment> \<open>\<open>commits\<close>: whether the COMMIT succeeds; \<open>out\<close>: what the step does, event, result and database, or its error\<close>
  "atomic app commits out s =
     (let (d, c) = s in
      case out of
        Inl e \<Rightarrow> (Inl e, d, c)
      | Inr (None, x, d') \<Rightarrow> (Inr x, d, c)
      | Inr (Some (ev, p), x, d') \<Rightarrow>
          (let (r, c') = app c ''missions'' ev p in
           case r of None \<Rightarrow> (Inl ChainRefused, d, c')
           | Some _ \<Rightarrow> if commits then (Inr x, d', c') else (Inl CommitFailed, d, c')))"

definition mission_row :: "string \<Rightarrow> mission_db \<Rightarrow> (mission_error, mission) result" where
  "mission_row i d = (case row_of ms_id i (md_missions d) of None \<Rightarrow> Inl UnknownMission | Some m \<Rightarrow> Inr m)"

definition versions_of :: "string \<Rightarrow> version_kind \<Rightarrow> mission_db \<Rightarrow> mission_version list" where
  "versions_of i k d = sort_key mv_version (filter (\<lambda>v. mv_mission v = i \<and> mv_kind v = k) (md_versions d))"

definition latest :: "string \<Rightarrow> version_kind \<Rightarrow> mission_db \<Rightarrow> mission_version option" where
  \<comment> \<open>\<^verbatim>\<open>ORDER BY version DESC LIMIT 1\<close>\<close>
  "latest i k d = (case versions_of i k d of [] \<Rightarrow> None | vs \<Rightarrow> Some (last vs))"

datatype stale_reason = ParentStale version_kind | BuiltAgainst "string option" nat string

fun stale_from :: "string \<Rightarrow> mission_db \<Rightarrow> version_kind list \<Rightarrow> version_kind list \<Rightarrow> (version_kind \<times> nat \<times> stale_reason) list" where
  \<comment> \<open>the loop of \<^verbatim>\<open>_stale\<close>; the third argument is \<^verbatim>\<open>stale_kinds\<close>\<close>
  "stale_from i d [] seen = []"
| "stale_from i d (k # ks) seen =
     (case (latest i k d, parent_kind k) of
        (Some cur, Some pk) \<Rightarrow>
          (if pk \<in> set seen then (k, mv_version cur, ParentStale pk) # stale_from i d ks (k # seen)
           else (case latest i pk d of
                   Some par \<Rightarrow>
                     (if mv_parent cur \<noteq> Some (mv_sha par)
                      then (k, mv_version cur, BuiltAgainst (mv_parent cur) (mv_version par) (mv_sha par)) # stale_from i d ks (k # seen)
                      else stale_from i d ks seen)
                 | None \<Rightarrow> stale_from i d ks seen))
      | _ \<Rightarrow> stale_from i d ks seen)"

definition stale :: "string \<Rightarrow> mission_db \<Rightarrow> (version_kind \<times> nat \<times> stale_reason) list" where
  "stale i d = stale_from i d [PLAN, TASK_GRAPH] []"

definition check_artifacts :: "string \<Rightarrow> mission_state \<Rightarrow> mission_db \<Rightarrow> (mission_error, unit) result" where
  "check_artifacts i target d =
     (if target = BLUEPRINT_REVIEW \<and> latest i BLUEPRINT d = None then Inl NeedsBlueprint
      else if target \<in> {PLAN_REVIEW, BUILDING}
      then (if latest i PLAN d = None then Inl NeedsPlan
            else if filter (\<lambda>(k, _). k = PLAN) (stale i d) \<noteq> [] then Inl StalePlan
            else Inr ())
      else Inr ())"

section \<open>Writes\<close>

definition create_step ::
  "string \<Rightarrow> string \<Rightarrow> string \<Rightarrow> json \<Rightarrow> string \<Rightarrow> mission_db \<Rightarrow>
     (mission_error, (string \<times> json) option \<times> mission \<times> mission_db) result" where
  "create_step fresh objective created_by cons now d =
     (let m = \<lparr>ms_id = ''mission-'' @ fresh, ms_objective = objective, ms_created_by = created_by, ms_created_at = now,
               ms_updated_at = now, ms_state = DRAFT, ms_resume = None, ms_constraints = cons\<rparr>
      in case row_insert ms_id m (md_missions d) of
           None \<Rightarrow> Inl DuplicateMission
         | Some rs \<Rightarrow> Inr (Some (''mission.created'', obj [(''mission_id'', JStr (ms_id m)), (''objective'', JStr objective),
                          (''created_by'', JStr created_by), (''constraints'', cons)]), m, d\<lparr>md_missions := rs\<rparr>))"

definition create_mission ::
  "'c appender \<Rightarrow> bool \<Rightarrow> string \<Rightarrow> string \<Rightarrow> string \<Rightarrow> json \<Rightarrow> string \<Rightarrow> mission_db \<times> 'c \<Rightarrow>
     (mission_error, mission) result \<times> mission_db \<times> 'c" where
  "create_mission app commits fresh objective created_by cons now s =
     (if py_strip objective = [] then (Inl ObjectiveRequired, s)
      else if py_strip created_by = [] then (Inl CreatedByRequired, s)
      else (case canonicalize cons of
              Inl e \<Rightarrow> (Inl (NotCanonical e), s)
            | Inr _ \<Rightarrow> atomic app commits (create_step fresh (py_strip objective) created_by (reload (sort_keys cons)) now (fst s)) s))"

definition add_row ::
  "string \<Rightarrow> version_kind \<Rightarrow> nat \<Rightarrow> string \<Rightarrow> string option \<Rightarrow> string \<Rightarrow> string \<Rightarrow> json \<Rightarrow> mission_db \<Rightarrow>
     (string \<times> json) option \<times> mission_version \<times> mission_db" where
  \<comment> \<open>the INSERT of a new version and its event; the chain carries the hash, not the body\<close>
  "add_row i kind n sha parent created_by now bdy d =
     (let v = \<lparr>mv_mission = i, mv_kind = kind, mv_version = n, mv_sha = sha, mv_parent = parent,
               mv_created_by = created_by, mv_created_at = now, mv_body = reload (sort_keys bdy)\<rparr>
      in (Some (''mission.version'', obj [(''mission_id'', JStr i), (''kind'', JStr (kind_name kind)),
            (''version'', JInt (int n)), (''sha256'', JStr sha), (''parent_sha256'', null_or parent),
            (''created_by'', JStr created_by)]), v, d\<lparr>md_versions := md_versions d @ [v]\<rparr>))"

definition parent_sha :: "string \<Rightarrow> version_kind \<Rightarrow> mission_db \<Rightarrow> (mission_error, string option) result" where
  "parent_sha i kind d =
     (case parent_kind kind of
        None \<Rightarrow> Inr None
      | Some pk \<Rightarrow> (case latest i pk d of None \<Rightarrow> Inl NoParentVersion | Some p \<Rightarrow> Inr (Some (mv_sha p))))"

definition version_step ::
  "(string \<Rightarrow> string) \<Rightarrow> string \<Rightarrow> version_kind \<Rightarrow> json \<Rightarrow> string \<Rightarrow> string \<Rightarrow> mission_db \<Rightarrow>
     (mission_error, (string \<times> json) option \<times> mission_version \<times> mission_db) result" where
  "version_step H i kind bdy created_by now d =
     bind_result (mission_row i d) (\<lambda>m.
     if ms_state m \<in> set TERMINAL then Inl MissionTerminal
     else bind_result (parent_sha i kind d) (\<lambda>parent.
       case version_sha256 H kind parent bdy of
         Inl e \<Rightarrow> Inl (NotCanonical e)
       | Inr sha \<Rightarrow>
           (case latest i kind d of
              Some l \<Rightarrow> Inr (if mv_sha l = sha then (None, l, d)
                            else add_row i kind (mv_version l + 1) sha parent created_by now bdy d)
            | None \<Rightarrow> Inr (add_row i kind 1 sha parent created_by now bdy d))))"

definition add_version ::
  "(string \<Rightarrow> string) \<Rightarrow> 'c appender \<Rightarrow> bool \<Rightarrow> string \<Rightarrow> version_kind \<Rightarrow> json \<Rightarrow> string \<Rightarrow> string \<Rightarrow> mission_db \<times> 'c \<Rightarrow>
     (mission_error, mission_version) result \<times> mission_db \<times> 'c" where
  "add_version H app commits i kind bdy created_by now s =
     (if py_strip created_by = [] then (Inl CreatedByRequired, s)
      else (case canonicalize bdy of
              Inl e \<Rightarrow> (Inl (NotCanonical e), s)
            | Inr _ \<Rightarrow> atomic app commits (version_step H i kind bdy created_by now (fst s)) s))"

definition move_step ::
  "string list \<Rightarrow> string \<Rightarrow> mission_state \<Rightarrow> string \<Rightarrow> string \<Rightarrow> string option \<Rightarrow> string \<Rightarrow> mission_db \<Rightarrow>
     (mission_error, (string \<times> json) option \<times> mission \<times> mission_db) result" where
  "move_step operators i target actor reason approved_by now d =
     bind_result (mission_row i d) (\<lambda>m.
     let current = ms_state m in
     if target \<notin> set (allowed_targets current (ms_resume m)) then Inl IllegalTransition
     else if target \<in> set GATE_VERDICTS \<and> actor \<noteq> ''msb-gate'' then Inl NotTheGate
     else if is_human_gated current target \<and> (case approved_by of None \<Rightarrow> True | Some u \<Rightarrow> u \<notin> set operators)
     then Inl NeedsApproval
     else bind_result (check_artifacts i target d) (\<lambda>_.
       let resume = (if target = BLOCKED_ON_HUMAN then Some current else None);
           upd = (\<lambda>r. r\<lparr>ms_state := target, ms_resume := resume, ms_updated_at := now\<rparr>);
           mv = \<lparr>mt_mission = i, mt_from = current, mt_to = target, mt_actor = actor,
                 mt_approved_by = approved_by, mt_reason = reason, mt_at = now\<rparr>
       in Inr (Some (''mission.transition'', obj [(''mission_id'', JStr i), (''from_state'', JStr (state_name current)),
                 (''to_state'', JStr (state_name target)), (''actor'', JStr actor), (''approved_by'', null_or approved_by),
                 (''reason'', JStr reason)]),
               upd m, d\<lparr>md_missions := row_update ms_id i upd (md_missions d), md_moves := md_moves d @ [mv]\<rparr>)))"

definition transition_mission ::
  "string list \<Rightarrow> 'c appender \<Rightarrow> bool \<Rightarrow> string \<Rightarrow> mission_state \<Rightarrow> string \<Rightarrow> string \<Rightarrow> string option \<Rightarrow> string \<Rightarrow> mission_db \<times> 'c \<Rightarrow>
     (mission_error, mission) result \<times> mission_db \<times> 'c" where
  "transition_mission operators app commits i target actor reason approved_by now s =
     (if py_strip actor = [] then (Inl ActorRequired, s)
      else if py_strip reason = [] then (Inl ReasonMissing, s)
      else atomic app commits (move_step operators i target actor reason approved_by now (fst s)) s)"

section \<open>Reads\<close>

definition get_mission :: "string \<Rightarrow> mission_db \<Rightarrow> (mission_error, mission) result" where
  "get_mission i d = mission_row i d"

definition latest_version :: "string \<Rightarrow> version_kind \<Rightarrow> mission_db \<Rightarrow> (mission_error, mission_version option) result" where
  "latest_version i k d = bind_result (mission_row i d) (\<lambda>_. Inr (latest i k d))"

definition mission_versions :: "string \<Rightarrow> version_kind option \<Rightarrow> mission_db \<Rightarrow> (mission_error, mission_version list) result" where
  \<comment> \<open>the kinds in the order of their names\<close>
  "mission_versions i k d = bind_result (mission_row i d) (\<lambda>_. Inr (case k of
     Some k \<Rightarrow> versions_of i k d
   | None \<Rightarrow> versions_of i BLUEPRINT d @ versions_of i PLAN d @ versions_of i TASK_GRAPH d))"

definition stale_versions :: "string \<Rightarrow> mission_db \<Rightarrow> (mission_error, (version_kind \<times> nat \<times> stale_reason) list) result" where
  "stale_versions i d = bind_result (mission_row i d) (\<lambda>_. Inr (stale i d))"

definition mission_history :: "string \<Rightarrow> mission_db \<Rightarrow> (mission_error, mission_move list) result" where
  "mission_history i d = bind_result (mission_row i d) (\<lambda>_. Inr (filter (\<lambda>t. mt_mission t = i) (md_moves d)))"

section \<open>The matrix\<close>

definition matrix_step :: "mission_state \<times> mission_state option \<Rightarrow> mission_state \<times> mission_state option \<Rightarrow> bool" where
  "matrix_step s t \<longleftrightarrow> fst t \<in> set (allowed_targets (fst s) (snd s)) \<and>
     snd t = (if fst t = BLOCKED_ON_HUMAN then Some (fst s) else None)"

definition settled :: "mission_state \<times> mission_state option \<Rightarrow> bool" where
  "settled s \<longleftrightarrow> fst s \<in> set TERMINAL"

interpretation mission_life: lifecycle matrix_step settled
  by unfold_locales (simp add: matrix_step_def settled_def allowed_targets_def)

definition resume_ok :: "mission_state \<Rightarrow> mission_state option \<Rightarrow> bool" where
  \<comment> \<open>a paused mission remembers a live, unpaused state; no other mission remembers one\<close>
  "resume_ok s r \<longleftrightarrow> (if s = BLOCKED_ON_HUMAN then \<exists>x. r = Some x \<and> x \<notin> set TERMINAL \<and> x \<noteq> BLOCKED_ON_HUMAN
                     else r = None)"

lemma allowed_not_blocked: "t \<in> set (edges s) \<Longrightarrow> t \<noteq> BLOCKED_ON_HUMAN"
  by (cases s) auto

lemma resume_ok_step: "matrix_step (s, r) (t, r') \<Longrightarrow> resume_ok s r \<Longrightarrow> resume_ok t r'"
  by (auto simp: matrix_step_def resume_ok_def allowed_targets_def TERMINAL_def split: if_splits option.splits)

lemma merged_from: "MERGED \<in> set (allowed_targets s r) \<Longrightarrow> resume_ok s r \<Longrightarrow> s = GATED_GREEN \<or> s = GATED_REVIEW"
  by (cases s) (auto simp: allowed_targets_def resume_ok_def TERMINAL_def split: if_splits)

section \<open>Every write is evidenced or undone\<close>

context audit_sink
begin

lemma atomic_evidence:
  assumes "atomic app commits out (d, c) = (r, d', c')"
  shows "(d' = d \<and> log c' = log c) \<or>
    (\<exists>ev p x. out = Inr (Some (ev, p), x, d') \<and> r = Inr x \<and> commits \<and> log c' = log c @ [(''missions'', ev, stored p)]) \<or>
    (\<exists>ev p. d' = d \<and> r = Inl CommitFailed \<and> \<not> commits \<and> log c' = log c @ [(''missions'', ev, stored p)])"
  using assms
  by (auto simp: atomic_def app_Some app_None split: sum.splits prod.splits option.splits if_splits)

end

lemma atomic_cases:
  assumes "atomic app commits out (d, c) = (r, d', c')"
  obtains "d' = d" | ev p x where "out = Inr (Some (ev, p), x, d')" "r = Inr x"
  using assms by (auto simp: atomic_def split: sum.splits prod.splits option.splits if_splits)

datatype mission_op =
    Create string string string json string
  | AddVersion string version_kind json string string
  | Move string mission_state string string "string option" string

fun mission_step :: "(string \<Rightarrow> string) \<Rightarrow> string list \<Rightarrow> 'c appender \<Rightarrow> bool \<times> mission_op \<Rightarrow> mission_db \<times> 'c \<Rightarrow> mission_db \<times> 'c" where
  \<comment> \<open>an operation and whether its COMMIT succeeds\<close>
  "mission_step H ops app (ok, Create f ob u cn n) s = snd (create_mission app ok f ob u cn n s)"
| "mission_step H ops app (ok, AddVersion i k b u n) s = snd (add_version H app ok i k b u n s)"
| "mission_step H ops app (ok, Move i t a r ap n) s = snd (transition_mission ops app ok i t a r ap n s)"

definition empty_missions :: mission_db where
  "empty_missions = \<lparr>md_missions = [], md_moves = [], md_versions = []\<rparr>"

text \<open>What one operation does to the database: nothing, or one of the three writes.\<close>

lemma mission_step_cases:
  assumes "mission_step H ops app (ok, x) (d, c) = (d', c')"
  obtains "d' = d"
  | f ob u cn n e m where "create_step f ob u cn n d = Inr (Some e, m, d')"
  | i k b u n e v where "version_step H i k b u n d = Inr (Some e, v, d')"
  | i t a r ap n e m where "move_step ops i t a r ap n d = Inr (Some e, m, d')"
proof (cases x)
  case (Create f ob u cn n)
  show ?thesis
  proof (cases "snd (create_mission app ok f ob u cn n (d, c)) = (d, c)")
    case True
    with assms Create that(1) show ?thesis by simp
  next
    case False
    then have "\<exists>cn' ob'. create_mission app ok f ob u cn n (d, c) = atomic app ok (create_step f ob' u cn' n d) (d, c)"
      by (auto simp: create_mission_def split: if_splits sum.splits)
    then obtain cn' ob' where "snd (atomic app ok (create_step f ob' u cn' n d) (d, c)) = (d', c')"
      using assms Create by auto
    then show ?thesis
      by (cases "atomic app ok (create_step f ob' u cn' n d) (d, c)")
        (auto elim!: atomic_cases intro: that)
  qed
next
  case (AddVersion i k b u n)
  show ?thesis
  proof (cases "snd (add_version H app ok i k b u n (d, c)) = (d, c)")
    case True
    with assms AddVersion that(1) show ?thesis by simp
  next
    case False
    then have "add_version H app ok i k b u n (d, c) = atomic app ok (version_step H i k b u n d) (d, c)"
      by (auto simp: add_version_def split: if_splits sum.splits)
    then have "snd (atomic app ok (version_step H i k b u n d) (d, c)) = (d', c')"
      using assms AddVersion by auto
    then show ?thesis
      by (cases "atomic app ok (version_step H i k b u n d) (d, c)")
        (auto elim!: atomic_cases intro: that)
  qed
next
  case (Move i t a r ap n)
  show ?thesis
  proof (cases "snd (transition_mission ops app ok i t a r ap n (d, c)) = (d, c)")
    case True
    with assms Move that(1) show ?thesis by simp
  next
    case False
    then have "transition_mission ops app ok i t a r ap n (d, c) = atomic app ok (move_step ops i t a r ap n d) (d, c)"
      by (auto simp: transition_mission_def split: if_splits)
    then have "snd (atomic app ok (move_step ops i t a r ap n d) (d, c)) = (d', c')"
      using assms Move by auto
    then show ?thesis
      by (cases "atomic app ok (move_step ops i t a r ap n d) (d, c)")
        (auto elim!: atomic_cases intro: that)
  qed
qed

section \<open>The invariant\<close>

interpretation missions: keyed_table ms_id "\<lambda>f. \<forall>m. ms_id (f m) = ms_id m"
  by unfold_locales simp

definition moves_of :: "string \<Rightarrow> mission_db \<Rightarrow> mission_move list" where
  "moves_of i d = filter (\<lambda>t. mt_mission t = i) (md_moves d)"

fun path :: "mission_state \<Rightarrow> mission_move list \<Rightarrow> bool" where
  "path s [] = True"
| "path s (t # ts) = (mt_from t = s \<and> path (mt_to t) ts)"

definition end_state :: "mission_state \<Rightarrow> mission_move list \<Rightarrow> mission_state" where
  "end_state s ts = (if ts = [] then s else mt_to (last ts))"

lemma path_append: "path s (ts @ us) \<longleftrightarrow> path s ts \<and> path (end_state s ts) us"
  by (induction ts arbitrary: s) (auto simp: end_state_def)

definition move_ok :: "string list \<Rightarrow> mission_move \<Rightarrow> bool" where
  \<comment> \<open>verdicts come from the gate; merges come from a green or review verdict and name an operator\<close>
  "move_ok ops t \<longleftrightarrow> (mt_to t \<in> set GATE_VERDICTS \<longrightarrow> mt_actor t = ''msb-gate'') \<and>
     (is_human_gated (mt_from t) (mt_to t) \<longrightarrow> (\<exists>u \<in> set ops. mt_approved_by t = Some u)) \<and>
     (mt_to t = MERGED \<longrightarrow> mt_from t \<in> {GATED_GREEN, GATED_REVIEW})"

definition mission_ok :: "mission_db \<Rightarrow> mission \<Rightarrow> bool" where
  "mission_ok d m \<longleftrightarrow> resume_ok (ms_state m) (ms_resume m) \<and> path DRAFT (moves_of (ms_id m) d) \<and>
     end_state DRAFT (moves_of (ms_id m) d) = ms_state m"

definition mission_inv :: "string list \<Rightarrow> mission_db \<Rightarrow> bool" where
  "mission_inv ops d \<longleftrightarrow> distinct (map ms_id (md_missions d)) \<and> (\<forall>m \<in> set (md_missions d). mission_ok d m) \<and>
     (\<forall>t \<in> set (md_moves d). move_ok ops t \<and> mt_mission t \<in> ms_id ` set (md_missions d))"

lemma mission_row_Inr: "mission_row i d = Inr m \<Longrightarrow> m \<in> set (md_missions d) \<and> ms_id m = i"
  using missions.row_of_key by (fastforce simp: mission_row_def split: option.splits)

lemma create_step_inv:
  assumes "create_step f ob u cn n d = Inr (Some e, m, d')" "mission_inv ops d"
  shows "mission_inv ops d'"
proof -
  from assms(1) have ins: "row_insert ms_id m (md_missions d) = Some (md_missions d')"
    and d': "md_moves d' = md_moves d" and m: "ms_state m = DRAFT" "ms_resume m = None"
    by (auto simp: create_step_def Let_def split: option.splits)
  then have fresh: "ms_id m \<notin> ms_id ` set (md_missions d)" and rows: "md_missions d' = md_missions d @ [m]"
    by (auto simp: row_insert_def split: if_splits)
  have "moves_of (ms_id m) d = []"
    using assms(2) fresh unfolding moves_of_def mission_inv_def filter_empty_conv by metis
  then have "mission_ok d' m"
    using m d' by (simp add: mission_ok_def resume_ok_def moves_of_def end_state_def)
  moreover have "mission_ok d' x" if "mission_ok d x" for x
    using that d' by (simp add: mission_ok_def moves_of_def)
  ultimately show ?thesis using assms(2) fresh rows d' by (auto simp: mission_inv_def)
qed

lemma version_step_Inr:
  assumes "version_step H i k b u n d = Inr (Some e, v, d')"
  obtains m parent sha where "mission_row i d = Inr m" "ms_state m \<notin> set TERMINAL" "parent_sha i k d = Inr parent"
    "version_sha256 H k parent b = Inr sha"
    "(Some e, v, d') = add_row i k (case latest i k d of None \<Rightarrow> 1 | Some l \<Rightarrow> mv_version l + 1) sha parent u n b d"
proof -
  from assms obtain m where m: "mission_row i d = Inr m" "ms_state m \<notin> set TERMINAL"
    by (auto simp: version_step_def result_simps split: if_splits)
  with assms obtain parent where parent: "parent_sha i k d = Inr parent"
    by (auto simp: version_step_def result_simps)
  show thesis
  proof (cases "version_sha256 H k parent b")
    case (Inl x)
    with assms m parent show ?thesis by (simp add: version_step_def)
  next
    case (Inr sha)
    with assms m parent that show ?thesis
      by (cases "latest i k d") (auto simp: version_step_def split: if_splits)
  qed
qed

lemma version_step_inv:
  assumes "version_step H i k b u n d = Inr (Some e, v, d')" "mission_inv ops d"
  shows "mission_inv ops d'"
proof -
  have "md_missions d' = md_missions d \<and> md_moves d' = md_moves d"
    using assms(1) by (elim version_step_Inr) (simp add: add_row_def Let_def)
  then show ?thesis using assms(2) by (simp add: mission_inv_def mission_ok_def moves_of_def)
qed

lemma move_step_Inr:
  assumes "move_step ops i t a r ap n d = Inr (Some e, m', d')"
  obtains m mv where "m \<in> set (md_missions d)" "ms_id m = i" "mt_mission mv = i" "mt_from mv = ms_state m" "mt_to mv = t"
    "t \<in> set (allowed_targets (ms_state m) (ms_resume m))" "mt_actor mv = a" "mt_approved_by mv = ap"
    "t \<in> set GATE_VERDICTS \<longrightarrow> a = ''msb-gate''"
    "is_human_gated (ms_state m) t \<longrightarrow> (\<exists>u \<in> set ops. ap = Some u)" "check_artifacts i t d = Inr ()"
    "d' = d\<lparr>md_missions := row_update ms_id i (\<lambda>x. x\<lparr>ms_state := t, ms_resume := if t = BLOCKED_ON_HUMAN then Some (ms_state m) else None,
       ms_updated_at := n\<rparr>) (md_missions d), md_moves := md_moves d @ [mv]\<rparr>"
proof -
  from assms obtain m where m: "mission_row i d = Inr m" by (auto simp: move_step_def result_simps)
  note mi = mission_row_Inr [OF m]
  show thesis
    using assms m mi
    by (intro that [of m "\<lparr>mt_mission = i, mt_from = ms_state m, mt_to = t, mt_actor = a,
                 mt_approved_by = ap, mt_reason = r, mt_at = n\<rparr>"])
      (auto simp: move_step_def result_simps Let_def split: if_splits option.splits)
qed

lemma move_step_inv:
  assumes "move_step ops i t a r ap n d = Inr (Some e, m', d')" "mission_inv ops d"
  shows "mission_inv ops d'"
proof -
  from assms(1) obtain m mv where m: "m \<in> set (md_missions d)" "ms_id m = i" and
    mv: "mt_mission mv = i" "mt_from mv = ms_state m" "mt_to mv = t" "mt_actor mv = a" "mt_approved_by mv = ap" and
    t: "t \<in> set (allowed_targets (ms_state m) (ms_resume m))" and
    gate: "t \<in> set GATE_VERDICTS \<longrightarrow> a = ''msb-gate''" and
    human: "is_human_gated (ms_state m) t \<longrightarrow> (\<exists>u \<in> set ops. ap = Some u)" and
    d': "d' = d\<lparr>md_missions := row_update ms_id i (\<lambda>x. x\<lparr>ms_state := t, ms_resume := if t = BLOCKED_ON_HUMAN then Some (ms_state m) else None,
       ms_updated_at := n\<rparr>) (md_missions d), md_moves := md_moves d @ [mv]\<rparr>"
    by (rule move_step_Inr)
  let ?f = "\<lambda>x. x\<lparr>ms_state := t, ms_resume := if t = BLOCKED_ON_HUMAN then Some (ms_state m) else None, ms_updated_at := n\<rparr>"
  have ids: "map ms_id (md_missions d') = map ms_id (md_missions d)"
    unfolding d' by (simp add: missions.map_key_update)
  have ok: "mission_ok d m" using assms(2) m by (simp add: mission_inv_def)
  have moved: "move_ok ops mv"
    using gate human t ok mv merged_from [of "ms_state m" "ms_resume m"] by (auto simp: move_ok_def mission_ok_def)
  have "mission_ok d' x" if x: "x \<in> set (md_missions d')" for x
  proof (cases "ms_id x = i")
    case False
    with x have "x \<in> set (md_missions d)" by (auto simp: d' row_update_def split: if_splits)
    then have "mission_ok d x" using assms(2) by (simp add: mission_inv_def)
    with False mv show ?thesis by (simp add: mission_ok_def moves_of_def d')
  next
    case True
    with x obtain y where y: "y \<in> set (md_missions d)" "ms_id y = i" "x = ?f y"
      by (auto simp: d' row_update_def split: if_splits)
    have "y = m"
      using y m assms(2) by (auto simp: mission_inv_def distinct_map dest: inj_onD)
    have mvs: "moves_of i d' = moves_of i d @ [mv]" by (simp add: moves_of_def d' mv)
    have "matrix_step (ms_state m, ms_resume m) (t, if t = BLOCKED_ON_HUMAN then Some (ms_state m) else None)"
      using t by (simp add: matrix_step_def)
    with resume_ok_step ok have "resume_ok t (if t = BLOCKED_ON_HUMAN then Some (ms_state m) else None)"
      by (auto simp: mission_ok_def)
    with ok y \<open>y = m\<close> m mv True mvs show ?thesis
      by (simp add: mission_ok_def path_append) (simp add: end_state_def)
  qed
  moreover have "ms_id ` set (md_missions d') = ms_id ` set (md_missions d)"
    using ids by (metis list.set_map)
  ultimately show ?thesis
    using assms(2) ids moved m mv(1) by (auto simp: mission_inv_def d')
qed

lemma mission_step_inv:
  assumes "mission_inv ops (fst s)"
  shows "mission_inv ops (fst (mission_step H ops app x s))"
proof -
  obtain d c where s: "s = (d, c)" by (cases s)
  obtain ok y where x: "x = (ok, y)" by (cases x)
  obtain d' c' where s': "mission_step H ops app (ok, y) (d, c) = (d', c')" by (cases "mission_step H ops app (ok, y) (d, c)")
  then have "mission_inv ops d'"
    by (rule mission_step_cases)
      (use assms s in \<open>auto intro: create_step_inv version_step_inv move_step_inv\<close>)
  with s s' x show ?thesis by simp
qed

lemma mission_run_inv: "mission_inv ops (fst s) \<Longrightarrow> mission_inv ops (fst (fold (mission_step H ops app) xs s))"
  by (induction xs arbitrary: s) (simp_all add: mission_step_inv)

lemma empty_missions_inv: "mission_inv ops empty_missions"
  by (simp add: mission_inv_def empty_missions_def)

text \<open>C16: A mission is merged only through the gate and an operator: whatever sequence of creations,
  versions and transitions ran on an empty store, whichever of their commits failed, the history of a merged mission ends with a green or
  review verdict issued by the gate, followed by the merge, approved by a configured operator.\<close>

theorem merged_only_through_the_gate:
  assumes "m \<in> set (md_missions (fst (fold (mission_step H ops app) xs (empty_missions, c))))" "ms_state m = MERGED"
  shows "\<exists>pre v t u. moves_of (ms_id m) (fst (fold (mission_step H ops app) xs (empty_missions, c))) = pre @ [v, t] \<and>
    mt_to v \<in> {GATED_GREEN, GATED_REVIEW} \<and> mt_actor v = ''msb-gate'' \<and>
    mt_from t = mt_to v \<and> mt_to t = MERGED \<and> mt_approved_by t = Some u \<and> u \<in> set ops"
proof -
  let ?d = "fst (fold (mission_step H ops app) xs (empty_missions, c))"
  let ?h = "moves_of (ms_id m) ?d"
  have inv: "mission_inv ops ?d" using mission_run_inv empty_missions_inv by (metis fst_conv)
  with assms have ok: "path DRAFT ?h" "end_state DRAFT ?h = MERGED" by (auto simp: mission_inv_def mission_ok_def)
  have mok: "\<forall>t \<in> set ?h. move_ok ops t" using inv by (auto simp: mission_inv_def moves_of_def)
  from ok(2) obtain ts t where h: "?h = ts @ [t]" "mt_to t = MERGED"
    by (cases ?h rule: rev_cases) (auto simp: end_state_def)
  with mok have from_verdict: "mt_from t \<in> {GATED_GREEN, GATED_REVIEW}" by (auto simp: move_ok_def)
  with ok h obtain ts' v where "ts = ts' @ [v]" "mt_from t = mt_to v"
    by (cases ts rule: rev_cases) (auto simp: path_append end_state_def)
  moreover obtain u where "u \<in> set ops" "mt_approved_by t = Some u"
    using mok h from_verdict by (auto simp: move_ok_def is_human_gated_def HUMAN_GATED_def)
  moreover from calculation have "mt_actor v = ''msb-gate''"
    using h mok from_verdict by (auto simp: move_ok_def GATE_VERDICTS_def)
  ultimately have "?h = ts' @ [v, t] \<and> mt_to v \<in> {GATED_GREEN, GATED_REVIEW} \<and> mt_actor v = ''msb-gate'' \<and>
    mt_from t = mt_to v \<and> mt_to t = MERGED \<and> mt_approved_by t = Some u \<and> u \<in> set ops"
    using h from_verdict by simp
  then show ?thesis by blast
qed

definition ok_app :: "unit appender" where
  "ok_app c k e p = (Some 1, c)"

definition merge_run :: "(bool \<times> mission_op) list" where
  "merge_run = map (Pair True)
    [Create ''a'' ''goal'' ''op'' (JObj []) ''t'',
     Move ''mission-a'' RESEARCHING ''x'' ''r'' None ''t'',
     AddVersion ''mission-a'' BLUEPRINT (JObj []) ''x'' ''t'',
     Move ''mission-a'' BLUEPRINT_REVIEW ''x'' ''r'' None ''t'',
     Move ''mission-a'' PLANNING ''x'' ''r'' (Some ''op'') ''t'',
     AddVersion ''mission-a'' PLAN (JObj []) ''x'' ''t'',
     Move ''mission-a'' PLAN_REVIEW ''x'' ''r'' None ''t'',
     Move ''mission-a'' BUILDING ''x'' ''r'' (Some ''op'') ''t'',
     Move ''mission-a'' VERIFYING ''x'' ''r'' None ''t'',
     Move ''mission-a'' GATED_GREEN ''msb-gate'' ''r'' None ''t'',
     Move ''mission-a'' MERGED ''x'' ''r'' (Some ''op'') ''t'']"

definition merged_mission :: mission where
  "merged_mission = \<lparr>ms_id = ''mission-a'', ms_objective = ''goal'', ms_created_by = ''op'', ms_created_at = ''t'',
     ms_updated_at = ''t'', ms_state = MERGED, ms_resume = None, ms_constraints = JObj []\<rparr>"

theorem merged_only_through_the_gate_witness:
  "\<exists>pre v t u. moves_of (ms_id merged_mission) (fst (fold (mission_step (\<lambda>s. []) [''op''] ok_app) merge_run (empty_missions, ()))) = pre @ [v, t] \<and>
    mt_to v \<in> {GATED_GREEN, GATED_REVIEW} \<and> mt_actor v = ''msb-gate'' \<and>
    mt_from t = mt_to v \<and> mt_to t = MERGED \<and> mt_approved_by t = Some u \<and> u \<in> set [''op'']"
  by (rule merged_only_through_the_gate) code_simp+

lemma step_changes:
  "create_step f ob u cn n d = Inr (Some e, m, d') \<Longrightarrow> d' \<noteq> d"
  "version_step H i k b u n d = Inr (Some e, v, d') \<Longrightarrow> d' \<noteq> d"
  "move_step ops i t a r ap n d = Inr (Some e, m, d') \<Longrightarrow> d' \<noteq> d"
proof -
  have grow: "length (md_missions d') + length (md_moves d') + length (md_versions d') \<noteq>
      length (md_missions d) + length (md_moves d) + length (md_versions d) \<Longrightarrow> d' \<noteq> d" for d' :: mission_db
    by auto
  show "create_step f ob u cn n d = Inr (Some e, m, d') \<Longrightarrow> d' \<noteq> d"
    by (rule grow) (auto simp: create_step_def Let_def row_insert_def split: option.splits if_splits)
  show "version_step H i k b u n d = Inr (Some e, v, d') \<Longrightarrow> d' \<noteq> d"
    by (rule grow) (elim version_step_Inr, simp add: add_row_def Let_def)
  show "move_step ops i t a r ap n d = Inr (Some e, m, d') \<Longrightarrow> d' \<noteq> d"
    by (rule grow) (elim move_step_Inr, simp add: row_update_def)
qed

context audit_sink
begin

definition evidenced :: "bool \<Rightarrow> mission_db \<times> 'c \<Rightarrow> mission_db \<times> 'c \<Rightarrow> bool" where
  \<comment> \<open>nothing happened; or one record was appended, and the database changed just when the COMMIT succeeded\<close>
  "evidenced commits s s' \<longleftrightarrow> (fst s' = fst s \<and> log (snd s') = log (snd s)) \<or>
     ((fst s' \<noteq> fst s \<longleftrightarrow> commits) \<and> (\<exists>ev p. log (snd s') = log (snd s) @ [(''missions'', ev, p)]))"

lemma evidenced_refl [simp]: "evidenced ok s s"
  by (simp add: evidenced_def)

lemma atomic_evidenced:
  assumes "\<And>e y d'. out = Inr (Some e, y, d') \<Longrightarrow> d' \<noteq> fst s"
  shows "evidenced ok s (snd (atomic app ok out s))"
proof -
  obtain d c where s: "s = (d, c)" by (cases s)
  obtain r d' c' where a: "atomic app ok out (d, c) = (r, d', c')" by (cases "atomic app ok out (d, c)")
  show ?thesis
    using atomic_evidence [OF a] assms by (auto simp: s a evidenced_def)
qed

lemma mission_step_evidenced: "evidenced ok s (mission_step H ops app (ok, x) s)"
proof (cases x)
  case (Create f ob u cn n)
  then show ?thesis
    by (auto simp: create_mission_def intro!: atomic_evidenced dest: step_changes split: sum.splits)
next
  case (AddVersion i k b u n)
  then show ?thesis
    by (auto simp: add_version_def intro!: atomic_evidenced dest: step_changes split: sum.splits)
next
  case (Move i t a r ap n)
  then show ?thesis
    by (auto simp: transition_mission_def intro!: atomic_evidenced dest: step_changes)
qed

end

text \<open>C25: Every write of the mission store is evidenced: with the v1 chain as its ledger, an operation either
  leaves the store and the chain's log as they were, or appends exactly one record of component \<open>missions\<close>, and then the
  store changes just when the COMMIT succeeds. So the store never changes without its record; the one gap is a COMMIT
  that fails after the append, which leaves a record without its change.\<close>

theorem mission_writes_evidenced:
  "let s' = mission_step H ops (sink H env) (commits, x) s in
   (fst s' = fst s \<and> chain_log (snd s') = chain_log (snd s)) \<or>
   ((fst s' \<noteq> fst s \<longleftrightarrow> commits) \<and> (\<exists>ev p. chain_log (snd s') = chain_log (snd s) @ [(''missions'', ev, p)]))"
  unfolding Let_def by (rule chain_sink.mission_step_evidenced [unfolded chain_sink.evidenced_def])

text \<open>The gap, on a concrete run: the creation's record is on the chain, and the store is still empty.\<close>

theorem failed_commit_leaves_a_record:
  "let (r, s') = create_mission (\<lambda>c k e p. (Some 1, c @ [(k, e)])) False ''a'' ''goal'' ''op'' (JObj []) ''t'' (empty_missions, [])
   in r = Inl CommitFailed \<and> s' = (empty_missions, [(''missions'', ''mission.created'')])"
  by code_simp

text \<open>A mission enters plan review or building only against a current plan: the latest plan exists,
  and when there is a blueprint the plan was built against the latest one.\<close>

theorem building_needs_current_plan:
  assumes "fst (transition_mission ops app ok i t a r ap n s) = Inr m" "t = PLAN_REVIEW \<or> t = BUILDING"
  shows "\<exists>pl. latest i PLAN (fst s) = Some pl \<and>
    (\<forall>bp. latest i BLUEPRINT (fst s) = Some bp \<longrightarrow> mv_parent pl = Some (mv_sha bp))"
proof -
  obtain d c where s: "s = (d, c)" by (cases s)
  from assms have "fst (atomic app ok (move_step ops i t a r ap n d) (d, c)) = Inr m"
    by (auto simp: transition_mission_def s split: if_splits)
  then obtain out where "move_step ops i t a r ap n d = Inr out"
    by (cases "move_step ops i t a r ap n d") (auto simp: atomic_def)
  then have "check_artifacts i t d = Inr ()"
    by (auto simp: move_step_def result_simps Let_def split: if_splits)
  with assms(2) obtain pl where pl: "latest i PLAN d = Some pl"
    and fresh: "filter (\<lambda>(k, _). k = PLAN) (stale i d) = []"
    by (auto simp: check_artifacts_def split: if_splits)
  have "mv_parent pl = Some (mv_sha bp)" if "latest i BLUEPRINT d = Some bp" for bp
    using pl fresh that by (simp add: stale_def split: if_splits)
  with pl s show ?thesis by simp
qed

definition planned_db :: mission_db where
  "planned_db = fst (fold (mission_step (\<lambda>s. []) [''op''] ok_app) (take 6 merge_run) (empty_missions, ()))"

lemma planned_move:
  "fst (transition_mission [] ok_app True ''mission-a'' PLAN_REVIEW ''x'' ''r'' None ''t'' (planned_db, ())) =
   Inr (projr (fst (transition_mission [] ok_app True ''mission-a'' PLAN_REVIEW ''x'' ''r'' None ''t'' (planned_db, ()))))"
  by code_simp

lemma planned_blueprint: "latest ''mission-a'' BLUEPRINT planned_db = Some (the (latest ''mission-a'' BLUEPRINT planned_db))"
  by code_simp

theorem building_needs_current_plan_witness:
  "\<exists>pl. latest ''mission-a'' PLAN planned_db = Some pl \<and>
    mv_parent pl = Some (mv_sha (the (latest ''mission-a'' BLUEPRINT planned_db)))"
  using building_needs_current_plan [OF planned_move disjI1 [OF refl]] planned_blueprint unfolding fst_conv by blast

end
