(* ===== verification/Pytext.thy ===== *)
theory Pytext
  imports Prelude Json
begin

text \<open>
  More of Python's text operations, on code points below 256: \<^verbatim>\<open>int(s)\<close>,
  \<^verbatim>\<open>s.lower()\<close>, \<^verbatim>\<open>p in s\<close>, \<^verbatim>\<open>s.splitlines()\<close>
  and truncation.
\<close>

section \<open>Numerals\<close>

definition strip_sign :: "string \<Rightarrow> bool \<times> string" where
  "strip_sign s = (case s of
       [] \<Rightarrow> (False, [])
     | c # r \<Rightarrow> if c = CHR ''-'' then (True, r) else if c = CHR ''+'' then (False, r) else (False, s))"

definition py_int :: "string \<Rightarrow> int option" where
  \<comment> \<open>\<^verbatim>\<open>int(s)\<close>, \<open>None\<close> for the ValueError: surrounding space, a sign, single
    underscores between digits, and at most 4300 digits\<close>
  "py_int s =
     (let (neg, body) = strip_sign (py_strip s);
          pieces = split_on CHR ''_'' body;
          digits = concat pieces
      in if list_all (\<lambda>p. p \<noteq> [] \<and> list_all is_digit p) pieces \<and> length digits \<le> 4300
         then Some (if neg then - digits_val digits else digits_val digits) else None)"

lemma is_digit_not_sign: "is_digit c \<Longrightarrow> c \<noteq> CHR ''-'' \<and> c \<noteq> CHR ''+'' \<and> c \<noteq> CHR ''_''"
  by (auto simp: is_digit_def Let_def)

lemma py_int_show_nat:
  assumes "length (show_nat n) \<le> 4300"
  shows "py_int (show_nat n) = Some (int n)"
proof -
  have d: "\<forall>c \<in> set (show_nat n). is_digit c" by (rule show_nat_digits)
  then have "py_strip (show_nat n) = show_nat n" by (intro py_strip_no_space) (auto dest: digit_not_space)
  moreover have "strip_sign (show_nat n) = (False, show_nat n)"
    using d is_digit_not_sign by (cases "show_nat n") (auto simp: strip_sign_def)
  moreover have "split_on CHR ''_'' (show_nat n) = [show_nat n]"
    using d is_digit_not_sign by (intro split_on_no_sep) blast
  ultimately show ?thesis
    using d assms by (simp add: py_int_def list_all_iff digits_val_show_nat)
qed

section \<open>Letters and pieces\<close>

definition lower_char :: "char \<Rightarrow> char" where
  "lower_char c = (let n = (of_char c :: nat) in
     if (65 \<le> n \<and> n \<le> 90) \<or> (192 \<le> n \<and> n \<le> 222 \<and> n \<noteq> 215) then char_of (n + 32) else c)"

definition upper_char :: "char \<Rightarrow> char" where
  "upper_char c = (let n = (of_char c :: nat) in if 97 \<le> n \<and> n \<le> 122 then char_of (n - 32) else c)"

definition ascii_upper :: "string \<Rightarrow> string" where
  \<comment> \<open>\<^verbatim>\<open>s.upper()\<close> on ASCII letters; what the sources look for holds no others\<close>
  "ascii_upper s = map upper_char s"

definition py_lower :: "string \<Rightarrow> string" where
  "py_lower s = map lower_char s"

fun contains :: "string \<Rightarrow> string \<Rightarrow> bool" where
  \<comment> \<open>\<^verbatim>\<open>p in s\<close>\<close>
  "contains p [] = (p = [])"
| "contains p (c # s) = (starts_with p (c # s) \<or> contains p s)"

lemma contains_iff: "contains p s \<longleftrightarrow> (\<exists>u v. s = u @ p @ v)"
proof (induction s)
  case (Cons c s)
  have "starts_with p (c # s) \<longleftrightarrow> (\<exists>v. c # s = p @ v)"
    by (metis append_take_drop_id starts_with_append starts_with_def)
  moreover have "(\<exists>u v. c # s = u @ p @ v) \<longleftrightarrow> (\<exists>v. c # s = p @ v) \<or> (\<exists>u v. s = u @ p @ v)"
    by (metis append_Cons append_eq_Cons_conv)
  ultimately show ?case using Cons.IH by simp
qed simp

lemma contains_append [simp]: "contains p (p @ s)" "contains p (s @ p)"
  by (auto simp: contains_iff intro: exI [of _ "[]"])

lemma contains_in_append: "contains p s \<or> contains p t \<Longrightarrow> contains p (s @ t)"
  by (auto simp: contains_iff) (metis append.assoc)+

lemma py_lower_append [simp]: "py_lower (s @ t) = py_lower s @ py_lower t"
  by (simp add: py_lower_def)

section \<open>Lines\<close>

definition line_break :: "char \<Rightarrow> bool" where
  "line_break c = (let n = (of_char c :: nat) in (10 \<le> n \<and> n \<le> 13) \<or> (28 \<le> n \<and> n \<le> 30) \<or> n = 133)"

fun lines_from :: "string \<Rightarrow> string \<Rightarrow> string list" where
  \<comment> \<open>the first argument is the line being read; a carriage return and a line feed are one break\<close>
  "lines_from acc [] = (if acc = [] then [] else [acc])"
| "lines_from acc (c # s) =
     (if line_break c
      then acc # lines_from [] (if c = CHR 0x0D \<and> s \<noteq> [] \<and> hd s = CHR 0x0A then tl s else s)
      else lines_from (acc @ [c]) s)"

definition splitlines :: "string \<Rightarrow> string list" where
  "splitlines s = lines_from [] s"

section \<open>Representations\<close>

definition hex_pair :: "nat \<Rightarrow> string" where
  "hex_pair n = (let d = (\<lambda>k. if k < 10 then char_of (48 + k) else char_of (87 + k)) in [d (n div 16), d (n mod 16)])"

definition repr_char :: "char \<Rightarrow> char \<Rightarrow> string" where
  \<comment> \<open>one character of \<^verbatim>\<open>repr(s)\<close> under the given quote\<close>
  "repr_char q c =
     (let n = (of_char c :: nat) in
      if c = q \<or> n = 92 then [CHR 0x5C, c]
      else if n = 9 then [CHR 0x5C, CHR ''t'']
      else if n = 10 then [CHR 0x5C, CHR ''n'']
      else if n = 13 then [CHR 0x5C, CHR ''r'']
      else if n < 32 \<or> (127 \<le> n \<and> n \<le> 160) \<or> n = 173 then [CHR 0x5C, CHR ''x''] @ hex_pair n
      else [c])"

definition repr_str :: "string \<Rightarrow> string" where
  "repr_str s =
     (let q = (if CHR 0x27 \<in> set s \<and> CHR 0x22 \<notin> set s then CHR 0x22 else CHR 0x27)
      in q # concat (map (repr_char q) s) @ [q])"

definition repr_strs :: "string list \<Rightarrow> string" where
  \<comment> \<open>\<^verbatim>\<open>str\<close> of a list of strings\<close>
  "repr_strs ss = ''['' @ join_with '', '' (map repr_str ss) @ '']''"

fun repr_float :: "pyfloat \<Rightarrow> string" where
  "repr_float (Fin r) = r"
| "repr_float NaN = ''nan''"
| "repr_float (Inf False) = ''inf''"
| "repr_float (Inf True) = ''-inf''"

fun repr_json :: "json \<Rightarrow> string"
  and repr_items :: "json list \<Rightarrow> string list"
  and repr_pairs :: "(jkey \<times> json) list \<Rightarrow> string list" where
  \<comment> \<open>\<^verbatim>\<open>repr\<close> of the value a JSON text stands for\<close>
  "repr_json JNull = ''None''"
| "repr_json (JBool b) = (if b then ''True'' else ''False'')"
| "repr_json (JInt i) = show_int i"
| "repr_json (JFloat r) = repr_float r"
| "repr_json (JStr s) = repr_str s"
| "repr_json (JList vs) = ''['' @ join_with '', '' (repr_items vs) @ '']''"
| "repr_json (JObj kvs) = ''{'' @ join_with '', '' (repr_pairs kvs) @ ''}''"
| "repr_items [] = []"
| "repr_items (v # vs) = repr_json v # repr_items vs"
| "repr_pairs [] = []"
| "repr_pairs ((k, v) # kvs) =
     ((case k of KStr s \<Rightarrow> repr_str s | KInt i \<Rightarrow> show_int i) @ '': '' @ repr_json v) # repr_pairs kvs"

definition str_json :: "json \<Rightarrow> string" where
  \<comment> \<open>\<^verbatim>\<open>str(v)\<close>\<close>
  "str_json v = (case v of JStr s \<Rightarrow> s | _ \<Rightarrow> repr_json v)"

definition truthy :: "json \<Rightarrow> bool" where
  "truthy v = (case v of
       JNull \<Rightarrow> False | JBool b \<Rightarrow> b | JInt i \<Rightarrow> i \<noteq> 0 | JStr s \<Rightarrow> s \<noteq> []
     | JFloat r \<Rightarrow> r \<noteq> Fin ''0.0'' \<and> r \<noteq> Fin ''-0.0'' | JList vs \<Rightarrow> vs \<noteq> [] | JObj kvs \<Rightarrow> kvs \<noteq> [])"

end
