(* ===== verification/Agent_Dag.thy ===== *)
theory Agent_Dag
  imports Prelude Json "HOL-Library.Multiset"
begin

text \<open>
  The task graph of the agent (\<^verbatim>\<open>agent/dag.py\<close>): the task and graph classes and the
  deterministic Kahn ordering the executor walks. The in-degree dictionary is an association
  list, the ready queue a list of task ids that is sorted after every push. The lemmas keep one
  invariant of the loop, from which come the topological order of a result and the exact
  condition under which there is one.
\<close>

section \<open>Tasks and graphs\<close>

record task =
  tk_id :: string
  tk_goal :: string
  tk_parent :: "string option"
  tk_inputs :: "json list"
  tk_constraints :: "string list"
  tk_required_capabilities :: "string list"
  tk_tools :: "string list"
  tk_permissions :: "string list"
  tk_expected_output :: string
  tk_verification_method :: string
  tk_timeout_s :: pyfloat
  tk_retry_policy :: string

record task_graph =
  tg_goal :: string
  tg_tasks :: "task list"
  tg_source :: string

abbreviation str_list :: "string list \<Rightarrow> json" where
  "str_list ss \<equiv> JList (map JStr ss)"

definition task_as_dict :: "task \<Rightarrow> json" where
  "task_as_dict t = JObj
     [(KStr ''task_id'', JStr (tk_id t)),
      (KStr ''goal'', JStr (tk_goal t)),
      (KStr ''parent_id'', (case tk_parent t of None \<Rightarrow> JNull | Some p \<Rightarrow> JStr p)),
      (KStr ''inputs'', JList (tk_inputs t)),
      (KStr ''constraints'', str_list (tk_constraints t)),
      (KStr ''required_capabilities'', str_list (tk_required_capabilities t)),
      (KStr ''tools'', str_list (tk_tools t)),
      (KStr ''permissions'', str_list (tk_permissions t)),
      (KStr ''expected_output'', JStr (tk_expected_output t)),
      (KStr ''verification_method'', JStr (tk_verification_method t)),
      (KStr ''timeout_s'', JFloat (tk_timeout_s t)),
      (KStr ''retry_policy'', JStr (tk_retry_policy t))]"

definition by_id :: "task_graph \<Rightarrow> string \<Rightarrow> task option" where
  "by_id g i = find (\<lambda>t. tk_id t = i) (tg_tasks g)"

definition children_of :: "task_graph \<Rightarrow> string \<Rightarrow> task list" where
  "children_of g i = filter (\<lambda>t. tk_parent t = Some i) (tg_tasks g)"

definition roots :: "task_graph \<Rightarrow> task list" where
  "roots g = filter (\<lambda>t. tk_parent t = None) (tg_tasks g)"

definition task_ids :: "task_graph \<Rightarrow> string list" where
  "task_ids g = map tk_id (tg_tasks g)"

section \<open>Ordering\<close>

type_synonym degrees = "(string \<times> int) list"

definition first_seen :: "'a list \<Rightarrow> 'a list" where
  \<comment> \<open>the keys of a dictionary comprehension, in the order of first insertion\<close>
  "first_seen xs = rev (remdups (rev xs))"

definition bump :: "int \<Rightarrow> string \<Rightarrow> degrees \<Rightarrow> degrees" where
  "bump d k ds = map (\<lambda>(k', n). (k', if k' = k then n + d else n)) ds"

definition indegree :: "task_graph \<Rightarrow> degrees" where
  "indegree g = fold
     (\<lambda>t ds. case tk_parent t of
        None \<Rightarrow> ds
      | Some p \<Rightarrow> if p \<in> fst ` set ds then bump 1 (tk_id t) ds else ds)
     (tg_tasks g) (map (\<lambda>i. (i, 0)) (first_seen (task_ids g)))"

definition release :: "task \<Rightarrow> degrees \<times> string list \<Rightarrow> degrees \<times> string list" where
  \<comment> \<open>one round of the loop over the children of a dequeued task\<close>
  "release c = (\<lambda>(ds, ready).
     let ds' = bump (-1) (tk_id c) ds
     in (ds', if map_of ds' (tk_id c) = Some 0 then sort (ready @ [tk_id c]) else ready))"

definition waiting :: "degrees \<Rightarrow> nat" where
  "waiting ds = length (filter (\<lambda>(k, n). 0 < n) ds)"

lemma waiting_simps [simp]:
  "waiting [] = 0" "waiting ((k, n) # ds) = (if 0 < n then Suc (waiting ds) else waiting ds)"
  by (simp_all add: waiting_def)

lemma bump_simps [simp]:
  "bump d k [] = []" "bump d k ((k', n) # ds) = (k', if k' = k then n + d else n) # bump d k ds"
  by (simp_all add: bump_def)

lemma waiting_bump: "waiting (bump (-1) k ds) \<le> waiting ds"
  by (induction ds) auto

lemma waiting_bump_zero: "map_of (bump (-1) k ds) k = Some 0 \<Longrightarrow> Suc (waiting (bump (-1) k ds)) \<le> waiting ds"
proof (induction ds)
  case (Cons p ds)
  then show ?case using waiting_bump [of k ds]
    by (cases p) (auto split: if_splits)
qed simp

lemma release_measure:
  "release c (ds, ready) = (ds', ready') \<Longrightarrow> length ready' + waiting ds' \<le> length ready + waiting ds"
  using waiting_bump [of "tk_id c" ds] waiting_bump_zero [of "tk_id c" ds]
  by (auto simp: release_def Let_def split: if_splits)

lemma fold_release_measure:
  "fold release cs (ds, ready) = (ds', ready') \<Longrightarrow> length ready' + waiting ds' \<le> length ready + waiting ds"
proof (induction cs arbitrary: ds ready)
  case (Cons c cs)
  obtain ds1 ready1 where r: "release c (ds, ready) = (ds1, ready1)" by (cases "release c (ds, ready)")
  with Cons show ?case using release_measure [OF r] by fastforce
qed simp

function kahn :: "task_graph \<Rightarrow> degrees \<Rightarrow> string list \<Rightarrow> task list \<Rightarrow> task list" where
  \<comment> \<open>\<^verbatim>\<open>while ready\<close>\<close>
  "kahn g ds [] ordered = ordered"
| "kahn g ds (tid # ready) ordered =
     (case by_id g tid of
        None \<Rightarrow> kahn g ds ready ordered
      | Some t \<Rightarrow>
          (let r = fold release (sort_key tk_id (children_of g tid)) (ds, ready)
           in kahn g (fst r) (snd r) (ordered @ [t])))"
  by pat_completeness auto
termination
proof (relation "measure (\<lambda>(g, ds, ready, ordered). length ready + waiting ds)", goal_cases)
  case (3 g ds tid ready ordered t r)
  then show ?case
    using fold_release_measure [of "sort_key tk_id (children_of g tid)" ds ready "fst r" "snd r"] by simp
qed auto

definition order :: "task_graph \<Rightarrow> (string list, task list) result" where
  \<comment> \<open>the error is the list of ids the ValueError names\<close>
  "order g =
     (let ds = indegree g;
          ordered = kahn g ds (sort (map fst (filter (\<lambda>(k, n). n = 0) ds))) []
      in if length ordered \<noteq> length (tg_tasks g)
         then Inl (sorted_list_of_set (tk_id ` set (tg_tasks g) - tk_id ` set ordered))
         else Inr ordered)"

definition is_acyclic :: "task_graph \<Rightarrow> bool" where
  "is_acyclic g = (case order g of Inr _ \<Rightarrow> True | Inl _ \<Rightarrow> False)"

section \<open>The loop invariant\<close>

definition waits :: "task_graph \<Rightarrow> string set \<Rightarrow> task \<Rightarrow> bool" where
  \<comment> \<open>the task's parent is a task of the graph that is not done yet\<close>
  "waits g dn t \<longleftrightarrow> (\<exists>p. tk_parent t = Some p \<and> p \<in> set (task_ids g) \<and> p \<notin> dn)"

definition wait_count :: "task_graph \<Rightarrow> string set \<Rightarrow> string \<Rightarrow> nat" where
  "wait_count g dn k = length (filter (\<lambda>t. tk_id t = k \<and> waits g dn t) (tg_tasks g))"

definition owed :: "string \<Rightarrow> task list \<Rightarrow> nat" where
  "owed k cs = length (filter (\<lambda>t. tk_id t = k) cs)"

definition counts :: "task_graph \<Rightarrow> string set \<Rightarrow> task list \<Rightarrow> degrees \<Rightarrow> bool" where
  \<comment> \<open>every in-degree is the number of tasks still waiting, plus the children not yet released\<close>
  "counts g dn cs ds \<longleftrightarrow> distinct (map fst ds) \<and> fst ` set ds = set (task_ids g) \<and>
     (\<forall>k \<in> set (task_ids g). map_of ds k = Some (int (wait_count g dn k + owed k cs)))"

definition queue_ok :: "degrees \<Rightarrow> string set \<Rightarrow> string list \<Rightarrow> bool" where
  \<comment> \<open>the queue holds the ids of in-degree 0 that are not dn\<close>
  "queue_ok ds dn ready \<longleftrightarrow> distinct ready \<and> dn \<inter> set ready = {} \<and>
     dn \<union> set ready = {k. map_of ds k = Some 0}"

lemma map_fst_bump [simp]: "map fst (bump d k ds) = map fst ds"
  by (induction ds) (auto simp: bump_def)

lemma keys_bump [simp]: "fst ` set (bump d k ds) = fst ` set ds"
  using map_fst_bump [of d k ds] by (metis list.set_map)

lemma map_of_bump: "map_of (bump d k ds) k' = (if k' = k then map_option (\<lambda>n. n + d) (map_of ds k') else map_of ds k')"
  by (induction ds) (auto simp: bump_def)

lemma release_keeps:
  assumes "counts g dn (c # cs) ds" "queue_ok ds dn ready" "tk_id c \<in> set (task_ids g)"
    and "release c (ds, ready) = (ds', ready')"
  shows "counts g dn cs ds' \<and> queue_ok ds' dn ready'"
proof
  let ?k = "tk_id c"
  have ds': "ds' = bump (-1) ?k ds"
    and ready': "ready' = (if map_of ds' ?k = Some 0 then sort (ready @ [?k]) else ready)"
    using assms(4) by (auto simp: release_def Let_def)
  show "counts g dn cs ds'"
    using assms(1) by (simp add: counts_def ds' map_of_bump owed_def del: map_of_eq_Some_iff)
  have k: "map_of ds ?k = Some (int (wait_count g dn ?k + Suc (owed ?k cs)))"
    using assms(1,3) by (auto simp: counts_def owed_def)
  then have "?k \<notin> dn \<union> set ready" using assms(2) by (auto simp: queue_ok_def)
  moreover have "{j. map_of ds' j = Some 0} = {j. map_of ds j = Some 0} \<union> (if map_of ds' ?k = Some 0 then {?k} else {})"
    using k by (auto simp: ds' map_of_bump)
  ultimately show "queue_ok ds' dn ready'"
    using assms(2) by (auto simp: queue_ok_def ready')
qed

lemma fold_release_keeps:
  assumes "counts g dn cs ds" "queue_ok ds dn ready" "tk_id ` set cs \<subseteq> set (task_ids g)"
    and "fold release cs (ds, ready) = (ds', ready')"
  shows "counts g dn [] ds' \<and> queue_ok ds' dn ready'"
  using assms
proof (induction cs arbitrary: ds ready)
  case (Cons c cs)
  obtain ds1 ready1 where r: "release c (ds, ready) = (ds1, ready1)" by (cases "release c (ds, ready)")
  with Cons.prems have "counts g dn cs ds1 \<and> queue_ok ds1 dn ready1"
    by (intro release_keeps [OF Cons.prems(1,2) _ r]) simp
  with Cons.IH [of ds1 ready1] Cons.prems(3,4) r show ?case by simp
qed simp

lemma set_first_seen [simp]: "set (first_seen xs) = set xs"
  by (simp add: first_seen_def)

lemma distinct_first_seen [simp]: "distinct (first_seen xs)"
  by (simp add: first_seen_def)

lemma indegree_keeps:
  assumes "distinct (map fst ds)" "fst ` set ds = set (task_ids g)"
    and "\<forall>k \<in> set (task_ids g). map_of ds k = Some (int (n k))" "tk_id ` set ts \<subseteq> set (task_ids g)"
  shows "\<exists>ds'. fold (\<lambda>t ds. case tk_parent t of None \<Rightarrow> ds | Some p \<Rightarrow> if p \<in> fst ` set ds then bump 1 (tk_id t) ds else ds) ts ds = ds' \<and>
     distinct (map fst ds') \<and> fst ` set ds' = set (task_ids g) \<and>
     (\<forall>k \<in> set (task_ids g). map_of ds' k = Some (int (n k + length (filter (\<lambda>t. tk_id t = k \<and> waits g {} t) ts))))"
  using assms
proof (induction ts arbitrary: ds n)
  case (Cons t ts)
  let ?ds = "if waits g {} t then bump 1 (tk_id t) ds else ds"
  have step: "(case tk_parent t of None \<Rightarrow> ds | Some p \<Rightarrow> if p \<in> fst ` set ds then bump 1 (tk_id t) ds else ds) = ?ds"
    using Cons.prems(2) by (auto simp: waits_def split: option.splits)
  have "\<forall>k \<in> set (task_ids g). map_of ?ds k = Some (int (if k = tk_id t \<and> waits g {} t then n k + 1 else n k))"
    using Cons.prems(3) by (simp add: map_of_bump del: map_of_eq_Some_iff)
  from Cons.IH [OF _ _ this] Cons.prems(1,2,4) show ?case
    by (simp add: step del: map_of_eq_Some_iff split del: if_split)
      (simp del: map_of_eq_Some_iff split: if_splits)
qed (simp del: map_of_eq_Some_iff)

lemma indegree_counts: "counts g {} [] (indegree g)"
proof -
  let ?ds = "map (\<lambda>i. (i, 0 :: int)) (first_seen (task_ids g))"
  have "map_of ?ds k = Some (int 0)" if "k \<in> set (task_ids g)" for k
    using that by (simp add: map_of_map_restrict)
  then show ?thesis
    using indegree_keeps [of ?ds g "\<lambda>k. 0" "tg_tasks g"]
    by (simp add: counts_def indegree_def wait_count_def owed_def comp_def image_image task_ids_def del: map_of_eq_Some_iff)
qed

lemma queue_start: "queue_ok (indegree g) {} (sort (map fst (filter (\<lambda>(k, n). n = 0) (indegree g))))"
proof -
  have d: "distinct (map fst (indegree g))" using indegree_counts [of g] by (simp add: counts_def)
  then have "distinct (map fst (filter (\<lambda>(k, n). n = 0) (indegree g)))" by (simp add: distinct_map_filter)
  moreover have "set (map fst (filter (\<lambda>(k, n). n = 0) (indegree g))) = {k. map_of (indegree g) k = Some 0}"
    using d by (force simp: image_iff)
  ultimately show ?thesis by (simp add: queue_ok_def)
qed

lemma by_id_None: "by_id g i = None \<longleftrightarrow> i \<notin> set (task_ids g)"
  by (auto simp: by_id_def find_None_iff task_ids_def)

lemma by_id_Some: "by_id g i = Some t \<Longrightarrow> tk_id t = i \<and> t \<in> set (tg_tasks g)"
  by (auto simp: by_id_def find_Some_iff)

lemma owed_children: "wait_count g dn k = wait_count g (insert i dn) k + (if i \<in> set (task_ids g) \<and> i \<notin> dn then owed k (children_of g i) else 0)"
proof -
  have "length (filter (\<lambda>t. tk_id t = k \<and> waits g dn t) ts) =
      length (filter (\<lambda>t. tk_id t = k \<and> waits g (insert i dn) t) ts) +
      (if i \<in> set (task_ids g) \<and> i \<notin> dn then length (filter (\<lambda>t. tk_id t = k) (filter (\<lambda>t. tk_parent t = Some i) ts)) else 0)" for ts
    by (induction ts) (auto simp: waits_def)
  then show ?thesis by (simp add: wait_count_def owed_def children_of_def)
qed

lemma owed_sort: "owed k (sort_key f cs) = owed k cs"
  unfolding owed_def by (metis mset_filter mset_sort size_mset)

text \<open>What the loop returns, from any state that satisfies the invariant.\<close>

fun grounded :: "task_graph \<Rightarrow> string set \<Rightarrow> task list \<Rightarrow> bool" where
  \<comment> \<open>each task is the first of its id in the graph, and none with that id waits for a later one\<close>
  "grounded g dn [] = True"
| "grounded g dn (t # os) =
     (by_id g (tk_id t) = Some t \<and> wait_count g dn (tk_id t) = 0 \<and> grounded g (insert (tk_id t) dn) os)"

lemma grounded_split:
  "grounded g dn (xs @ t # ys) \<Longrightarrow> by_id g (tk_id t) = Some t \<and> wait_count g (dn \<union> tk_id ` set xs) (tk_id t) = 0"
proof (induction xs arbitrary: dn)
  case (Cons a xs)
  from Cons.IH [of "insert (tk_id a) dn"] Cons.prems show ?case by simp
qed simp

lemma kahn_spec:
  assumes "counts g dn [] ds" "queue_ok ds dn ready"
  shows "\<exists>os. kahn g ds ready ordered = ordered @ os \<and> distinct (map tk_id os) \<and> dn \<inter> tk_id ` set os = {} \<and>
     grounded g dn os \<and>
     (\<forall>k \<in> set (task_ids g). k \<notin> dn \<union> tk_id ` set os \<longrightarrow> wait_count g (dn \<union> tk_id ` set os) k \<noteq> 0)"
  using assms
proof (induction g ds ready ordered arbitrary: dn rule: kahn.induct)
  case (1 g ds ordered)
  then have "wait_count g dn k \<noteq> 0" if "k \<in> set (task_ids g)" "k \<notin> dn" for k
    using that by (auto simp: counts_def queue_ok_def owed_def simp del: map_of_eq_Some_iff)
  then show ?case by simp
next
  case (2 g ds tid ready ordered)
  have tid: "tid \<in> set (task_ids g)" "tid \<notin> dn" "map_of ds tid = Some 0"
  proof -
    show tid0: "map_of ds tid = Some 0" and "tid \<notin> dn" using "2.prems"(2) by (auto simp: queue_ok_def)
    then show "tid \<in> set (task_ids g)" using "2.prems"(1) by (force simp: counts_def)
  qed
  then obtain t where t: "by_id g tid = Some t" using by_id_None [of g tid] by auto
  have cnt: "counts g (insert tid dn) (sort_key tk_id (children_of g tid)) ds"
    using "2.prems"(1) tid(1,2) owed_children [of g dn _ tid]
    by (simp add: counts_def owed_sort del: map_of_eq_Some_iff) (simp add: owed_def)
  have q: "queue_ok ds (insert tid dn) ready"
    using "2.prems"(2) by (auto simp: queue_ok_def)
  obtain ds' ready' where r: "fold release (sort_key tk_id (children_of g tid)) (ds, ready) = (ds', ready')" by fastforce
  have sub: "tk_id ` set (sort_key tk_id (children_of g tid)) \<subseteq> set (task_ids g)"
    by (auto simp: children_of_def task_ids_def)
  note keep = fold_release_keeps [OF cnt q sub r]
  have w0: "wait_count g dn tid = 0"
    using "2.prems"(1) tid by (auto simp: counts_def owed_def)
  obtain os where os: "kahn g ds' ready' (ordered @ [t]) = (ordered @ [t]) @ os" "distinct (map tk_id os)"
      "insert tid dn \<inter> tk_id ` set os = {}" "grounded g (insert tid dn) os"
      "\<forall>k \<in> set (task_ids g). k \<notin> insert tid dn \<union> tk_id ` set os \<longrightarrow> wait_count g (insert tid dn \<union> tk_id ` set os) k \<noteq> 0"
    using "2.IH"(2) [OF t refl, of "insert tid dn"] keep r by auto
  have tt: "tk_id t = tid" using by_id_Some [OF t] by simp
  show ?case
    using os t w0 tid(2) by (intro exI [of _ "t # os"]) (auto simp: r tt)
qed

lemma order_run:
  obtains os where "order g = (if length os \<noteq> length (tg_tasks g)
      then Inl (sorted_list_of_set (tk_id ` set (tg_tasks g) - tk_id ` set os)) else Inr os)"
    and "distinct (map tk_id os)" "grounded g {} os"
    and "\<forall>k \<in> set (task_ids g). k \<notin> tk_id ` set os \<longrightarrow> wait_count g (tk_id ` set os) k \<noteq> 0"
  using kahn_spec [OF indegree_counts queue_start, of g "[]"] by (auto simp: order_def Let_def)

lemma grounded_tasks: "grounded g dn os \<Longrightarrow> set os \<subseteq> set (tg_tasks g)"
  by (induction os arbitrary: dn) (auto dest: by_id_Some)

lemma wait_count_0: "wait_count g dn k = 0 \<longleftrightarrow> (\<forall>t \<in> set (tg_tasks g). tk_id t = k \<longrightarrow> \<not> waits g dn t)"
  by (auto simp: wait_count_def filter_empty_conv)

definition parent_edges :: "task_graph \<Rightarrow> (string \<times> string) set" where
  "parent_edges g = {(p, k). p \<in> set (task_ids g) \<and> (\<exists>t \<in> set (tg_tasks g). tk_id t = k \<and> tk_parent t = Some p)}"

lemma grounded_ascending:
  assumes "grounded g {} os" "set (task_ids g) \<subseteq> tk_id ` set os" "distinct (map tk_id os)" "(p, k) \<in> parent_edges g"
  shows "\<exists>xs ys zs t u. os = xs @ t # ys @ u # zs \<and> tk_id t = p \<and> tk_id u = k"
proof -
  from assms(4) obtain v where v: "v \<in> set (tg_tasks g)" "tk_id v = k" "tk_parent v = Some p" "p \<in> set (task_ids g)"
    by (auto simp: parent_edges_def)
  then obtain u where "u \<in> set os" "tk_id u = k" using assms(2) by (force simp: task_ids_def)
  then obtain xs zs where os: "os = xs @ u # zs" by (meson split_list)
  with grounded_split [of g "{}" xs u zs] assms(1) v \<open>tk_id u = k\<close>
  have "p \<in> tk_id ` set xs" by (auto simp: wait_count_0 waits_def)
  then obtain t as bs where "xs = as @ t # bs" "tk_id t = p" by (metis imageE split_list)
  with os \<open>tk_id u = k\<close> show ?thesis by (metis append.assoc append_Cons)
qed

lemma ordered_acyclic:
  assumes "grounded g {} os" "set (task_ids g) \<subseteq> tk_id ` set os" "distinct (map tk_id os)"
  shows "acyclic (parent_edges g)"
proof -
  let ?pos = "\<lambda>k. length (takeWhile (\<lambda>t. tk_id t \<noteq> k) os)"
  have "?pos p < ?pos k" if pk: "(p, k) \<in> parent_edges g" for p k
  proof -
    from grounded_ascending [OF assms pk] obtain xs ys zs t u
      where os: "os = xs @ t # ys @ u # zs" "tk_id t = p" "tk_id u = k" by blast
    have "distinct (map tk_id xs @ p # map tk_id ys @ k # map tk_id zs)"
      using assms(3) unfolding os(1) by (simp add: os(2,3))
    then have n: "p \<notin> tk_id ` set xs" "k \<notin> tk_id ` set xs" "p \<noteq> k" "k \<notin> tk_id ` set ys" by auto
    then have "takeWhile (\<lambda>t. tk_id t \<noteq> p) os = xs"
      unfolding os(1) by (intro takeWhile_tail [THEN trans]) (auto simp: os(2) takeWhile_append2 image_iff)
    moreover have "takeWhile (\<lambda>t. tk_id t \<noteq> k) (xs @ (t # ys) @ u # zs) = xs @ t # ys"
      using n by (subst takeWhile_append2, force, subst takeWhile_append2) (auto simp: os(2,3))
    ultimately show ?thesis by (simp add: os(1))
  qed
  then have "parent_edges g \<subseteq> measure ?pos" by auto
  then show ?thesis by (meson wf_acyclic wf_measure wf_subset)
qed

lemma acyclic_done:
  assumes "acyclic (parent_edges g)" "\<forall>k \<in> set (task_ids g). k \<notin> D \<longrightarrow> wait_count g D k \<noteq> 0"
  shows "set (task_ids g) \<subseteq> D"
proof (rule ccontr)
  assume "\<not> set (task_ids g) \<subseteq> D"
  then obtain k where k: "k \<in> set (task_ids g) - D" by blast
  have "parent_edges g \<subseteq> set (task_ids g) \<times> set (task_ids g)"
    by (auto simp: parent_edges_def task_ids_def)
  then have "finite (parent_edges g)" by (rule finite_subset) simp
  then have "wf (parent_edges g)" using assms(1) by (rule finite_acyclic_wf)
  then obtain m where m: "m \<in> set (task_ids g) - D" "\<And>p. (p, m) \<in> parent_edges g \<Longrightarrow> p \<notin> set (task_ids g) - D"
    using k by (rule wfE_min) blast
  then have "wait_count g D m \<noteq> 0" using assms(2) by blast
  then show False using m(2) by (auto simp: wait_count_0 waits_def parent_edges_def)
qed

lemma order_Inr:
  assumes "order g = Inr os"
  shows "distinct (map tk_id os)" "grounded g {} os" "set os = set (tg_tasks g)" "distinct (task_ids g)"
proof -
  obtain os' where "order g = (if length os' \<noteq> length (tg_tasks g)
      then Inl (sorted_list_of_set (tk_id ` set (tg_tasks g) - tk_id ` set os')) else Inr os')"
    "distinct (map tk_id os')" "grounded g {} os'" by (rule order_run)
  with assms have os: "length os = length (tg_tasks g)" "distinct (map tk_id os)" "grounded g {} os"
    by (auto split: if_splits)
  have sub: "set os \<subseteq> set (tg_tasks g)" using grounded_tasks [OF os(3)] .
  have "card (set (tg_tasks g)) \<le> card (set os)"
    using os(1,2) card_length [of "tg_tasks g"] by (simp add: distinct_map distinct_card)
  with sub show eq: "set os = set (tg_tasks g)" by (intro card_seteq) simp_all
  show "distinct (map tk_id os)" "grounded g {} os" by (rule os)+
  have "card (set (task_ids g)) = length (task_ids g)"
    using os(1,2) eq distinct_card [OF os(2)] by (simp add: task_ids_def)
  then show "distinct (task_ids g)" by (rule card_distinct)
qed

section \<open>Properties\<close>

text \<open>C35: The execution order is topological and complete: a successful ordering is a rearrangement of the
  graph's tasks, whose ids are then distinct, in which the parent of every task comes before it.\<close>

theorem order_is_topological:
  assumes "order g = Inr os"
  shows "distinct (task_ids g) \<and> mset os = mset (tg_tasks g) \<and>
    (\<forall>xs t ys p. os = xs @ t # ys \<and> tk_parent t = Some p \<and> p \<in> set (task_ids g) \<longrightarrow> p \<in> tk_id ` set xs)"
proof -
  note os = order_Inr [OF assms]
  have "mset os = mset (tg_tasks g)"
    using os(1,3,4) by (simp add: task_ids_def distinct_map set_eq_iff_mset_eq_distinct)
  moreover have "p \<in> tk_id ` set xs"
    if "os = xs @ t # ys" "tk_parent t = Some p" "p \<in> set (task_ids g)" for xs t ys p
    using grounded_split [of g "{}" xs t ys] os(2,3) that by (auto simp: wait_count_0 waits_def)
  ultimately show ?thesis using os(4) by blast
qed

text \<open>Ordering succeeds exactly on the well-formed graphs: the task ids are distinct and the parent
  relation has no cycle.\<close>

theorem order_succeeds_iff:
  "is_acyclic g \<longleftrightarrow> distinct (task_ids g) \<and> acyclic (parent_edges g)"
proof
  assume "is_acyclic g"
  then obtain os where "order g = Inr os" by (auto simp: is_acyclic_def split: sum.splits)
  note os = order_Inr [OF this]
  then show "distinct (task_ids g) \<and> acyclic (parent_edges g)"
    using ordered_acyclic [OF os(2) _ os(1)] by (simp add: task_ids_def)
next
  assume wf: "distinct (task_ids g) \<and> acyclic (parent_edges g)"
  obtain os where o: "order g = (if length os \<noteq> length (tg_tasks g)
      then Inl (sorted_list_of_set (tk_id ` set (tg_tasks g) - tk_id ` set os)) else Inr os)"
    and os: "distinct (map tk_id os)" "grounded g {} os"
      "\<forall>k \<in> set (task_ids g). k \<notin> tk_id ` set os \<longrightarrow> wait_count g (tk_id ` set os) k \<noteq> 0" by (rule order_run)
  have "set (task_ids g) = set (map tk_id os)"
    using acyclic_done [OF conjunct2 [OF wf] os(3)] grounded_tasks [OF os(2)] by (auto simp: task_ids_def)
  then have "length (task_ids g) = length (map tk_id os)"
    using wf os(1) by (metis distinct_card)
  then show "is_acyclic g" by (simp add: is_acyclic_def o task_ids_def)
qed

lemma duplicate_ids_reported_as_cycle:
  \<comment> \<open>the message of the ValueError then names no task\<close>
  "acyclic (parent_edges g) \<Longrightarrow> \<not> distinct (task_ids g) \<Longrightarrow> order g = Inl []"
proof -
  assume ac: "acyclic (parent_edges g)" and dup: "\<not> distinct (task_ids g)"
  obtain os where o: "order g = (if length os \<noteq> length (tg_tasks g)
      then Inl (sorted_list_of_set (tk_id ` set (tg_tasks g) - tk_id ` set os)) else Inr os)"
    and os: "\<forall>k \<in> set (task_ids g). k \<notin> tk_id ` set os \<longrightarrow> wait_count g (tk_id ` set os) k \<noteq> 0" by (rule order_run)
  have "tk_id ` set (tg_tasks g) - tk_id ` set os = {}"
    using acyclic_done [OF ac os] by (auto simp: task_ids_def)
  then show ?thesis using o order_Inr(4) [of g os] dup by (auto split: if_splits)
qed

definition plain_task :: "string \<Rightarrow> string option \<Rightarrow> task" where
  "plain_task i p = \<lparr>tk_id = i, tk_goal = [], tk_parent = p, tk_inputs = [], tk_constraints = [],
     tk_required_capabilities = [], tk_tools = [''chat''], tk_permissions = [], tk_expected_output = [],
     tk_verification_method = ''none'', tk_timeout_s = Fin ''60.0'', tk_retry_policy = ''retry:2''\<rparr>"

definition demo_graph :: task_graph where
  "demo_graph = \<lparr>tg_goal = ''g'', tg_tasks = [plain_task ''c'' (Some ''a''), plain_task ''a'' None, plain_task ''b'' (Some ''a'')],
     tg_source = ''template''\<rparr>"

lemma demo_order: "order demo_graph = Inr [plain_task ''a'' None, plain_task ''b'' (Some ''a''), plain_task ''c'' (Some ''a'')]"
  by code_simp

theorem order_is_topological_witness:
  "distinct (task_ids demo_graph) \<and>
   mset [plain_task ''a'' None, plain_task ''b'' (Some ''a''), plain_task ''c'' (Some ''a'')] = mset (tg_tasks demo_graph)"
  using order_is_topological [OF demo_order] by blast

end
