(* ===== verification/Agent_Verify.thy ===== *)
theory Agent_Verify
  imports Agent_Dag Pytext
begin

text \<open>
  Grounded verification of task outputs and classification of failures
  (\<^verbatim>\<open>agent/verify.py\<close>). The file system is a parameter: what a path holds, with
  the text an open file decodes to (\<open>None\<close> when opening it raises).
\<close>

type_synonym task_output = "(string \<times> json) list"

record receipt =
  rc_ok :: bool
  rc_detail :: string
  rc_kind :: string
  rc_check :: string
  rc_trust :: string
  rc_verdict :: string
  rc_confidence :: pyfloat

definition make_receipt :: "bool \<Rightarrow> string \<Rightarrow> string \<Rightarrow> receipt" where
  "make_receipt ok detail chk = \<lparr>rc_ok = ok, rc_detail = detail, rc_kind = ''grounded'', rc_check = chk,
     rc_trust = ''high'', rc_verdict = (if ok then ''pass'' else ''fail''), rc_confidence = Fin ''1.0''\<rparr>"

record file_node =
  fn_size :: nat
  fn_text :: "string option"

type_synonym file_system = "string \<Rightarrow> file_node option"

section \<open>Checks\<close>

definition dict_field :: "string \<Rightarrow> json \<Rightarrow> json option" where
  \<comment> \<open>\<^verbatim>\<open>v.get(k)\<close> of a dict\<close>
  "dict_field k v = (case v of JObj kvs \<Rightarrow> map_of kvs (KStr k) | _ \<Rightarrow> None)"

definition hits_of :: "json \<Rightarrow> nat option" where
  \<comment> \<open>the number of hits one value shows, if any\<close>
  "hits_of v = (case v of
       JList xs \<Rightarrow> if xs \<noteq> [] then Some (length xs) else None
     | JObj kvs \<Rightarrow> map_option (\<lambda>k. case dict_field k v of Some (JList xs) \<Rightarrow> length xs | _ \<Rightarrow> 0)
         (find (\<lambda>k. case dict_field k v of Some (JList xs) \<Rightarrow> xs \<noteq> [] | _ \<Rightarrow> False) [''hits'', ''results'', ''matches''])
     | _ \<Rightarrow> None)"

fun check_search_hits :: "task_output \<Rightarrow> receipt" where
  "check_search_hits [] = make_receipt False ''search returned no hits'' ''search_returned_hits''"
| "check_search_hits ((_, v) # vs) =
     (case hits_of v of
        Some n \<Rightarrow> make_receipt True (show_nat n @ '' hits'') ''search_returned_hits''
      | None \<Rightarrow> check_search_hits vs)"

definition fallback_prefix :: string where
  "fallback_prefix = ''[fallback]''"

definition text_of :: "json \<Rightarrow> json" where
  "text_of v = (case v of JObj _ \<Rightarrow> (case dict_field ''text'' v of Some w \<Rightarrow> w | None \<Rightarrow> JStr []) | _ \<Rightarrow> v)"

fun check_synthesis :: "task_output \<Rightarrow> receipt" where
  "check_synthesis [] = make_receipt False ''synthesis output empty'' ''synthesis_nonempty''"
| "check_synthesis ((_, v) # vs) =
     (case text_of v of
        JStr s \<Rightarrow>
          (let text = py_strip s
           in if text \<noteq> [] \<and> \<not> starts_with fallback_prefix text
              then make_receipt True (show_nat (length text) @ '' chars'') ''synthesis_nonempty''
              else if text \<noteq> []
              then make_receipt False ''synthesis fell back (model unreachable)'' ''synthesis_nonempty''
              else check_synthesis vs)
      | _ \<Rightarrow> check_synthesis vs)"

definition path_of :: "json \<Rightarrow> string option" where
  \<comment> \<open>a truthy path string: the value itself, or its \<^verbatim>\<open>path\<close> entry\<close>
  "path_of v = (case (case v of JStr s \<Rightarrow> Some (JStr s) | JObj _ \<Rightarrow> dict_field ''path'' v | _ \<Rightarrow> None) of
       Some (JStr s) \<Rightarrow> if s \<noteq> [] then Some s else None
     | _ \<Rightarrow> None)"

definition first_path :: "task_output \<Rightarrow> string option" where
  "first_path out = (case List.map_filter (\<lambda>(k, v). path_of v) out of [] \<Rightarrow> None | p # _ \<Rightarrow> Some p)"

definition check_file_written :: "file_system \<Rightarrow> task_output \<Rightarrow> receipt" where
  "check_file_written fs out =
     (let rc = (\<lambda>ok d. make_receipt ok d ''file_written'')
      in case first_path out of
           None \<Rightarrow> rc False ''no file path in task output''
         | Some p \<Rightarrow>
             (case fs p of
                None \<Rightarrow> rc False (''file not found: '' @ p)
              | Some n \<Rightarrow> if fn_size n > 0 then rc True (''file written: '' @ p)
                          else rc False (''file exists but empty: '' @ p)))"

definition leading_heading :: "string \<Rightarrow> bool" where
  "leading_heading text =
     (case filter (\<lambda>l. l \<noteq> []) (map py_strip (splitlines text)) of
        [] \<Rightarrow> False
      | l # _ \<Rightarrow> starts_with ''# '' l)"

definition check_file_with_heading :: "file_system \<Rightarrow> task_output \<Rightarrow> (string, receipt) result" where
  "check_file_with_heading fs out =
     (let rc = (\<lambda>ok d. Inr (make_receipt ok d ''file_written_with_heading''))
      in case first_path out of
           None \<Rightarrow> rc False ''no file path in task output''
         | Some p \<Rightarrow>
             (case fs p of
                None \<Rightarrow> rc False (''file not found: '' @ p)
              | Some n \<Rightarrow>
                  if fn_size n = 0 then rc False (''file exists but empty: '' @ p)
                  else (case fn_text n of
                      None \<Rightarrow> Inl ''OSError''
                    | Some text \<Rightarrow>
                        if leading_heading text then rc True (''file written with heading: '' @ p)
                        else rc False (''file has no leading markdown heading: '' @ p))))"

definition verify_task :: "file_system \<Rightarrow> task \<Rightarrow> task_output \<Rightarrow> (string, receipt) result" where
  "verify_task fs t out =
     (let m = tk_verification_method t
      in if m = ''search_returned_hits'' then Inr (check_search_hits out)
         else if m = ''synthesis_nonempty'' then Inr (check_synthesis out)
         else if m = ''file_written'' then Inr (check_file_written fs out)
         else if m = ''file_written_with_heading'' then check_file_with_heading fs out
         else if m = ''none'' then Inr (make_receipt True ''no verification'' ''none'')
         else Inr (make_receipt False (''unknown verification method: '' @ m) m))"

section \<open>Failure classification\<close>

definition TRANSIENT :: "string list" where
  "TRANSIENT = [''timed out'', ''connectionerror'', ''unreachable'', ''timeout'', ''econnrefused'', ''econnreset'', ''httperror'']"

definition BAD_TOOL :: "string list" where
  "BAD_TOOL = [''tool-error'', ''unknown tool'', ''notimplemented'']"

definition BAD_RETRIEVAL :: "string list" where
  "BAD_RETRIEVAL = [''no hits'', ''no results'', ''not found'']"

definition PERMISSION :: "string list" where
  "PERMISSION = [''permission'', ''denied'', ''forbidden'', ''401'', ''403'']"

definition UNSAFE :: "string list" where
  "UNSAFE = [''unsafe'', ''blocked'', ''quarantine'']"

datatype failure_class = Transient | Bad_Tool | Bad_Retrieval | Permission | Unsafe | Unknown

definition mentions :: "string list \<Rightarrow> string \<Rightarrow> bool" where
  "mentions ms d = list_ex (\<lambda>m. contains m d) ms"

definition classify_failure :: "string \<Rightarrow> string option \<Rightarrow> failure_class" where
  \<comment> \<open>of the receipt's detail and the error\<close>
  "classify_failure vdetail error =
     (let d = py_lower (join_with '' '' (filter (\<lambda>s. s \<noteq> []) [case error of None \<Rightarrow> [] | Some e \<Rightarrow> e, vdetail]))
      in if d = [] then Unknown
         else if mentions UNSAFE d then Unsafe
         else if mentions PERMISSION d then Permission
         else if mentions TRANSIENT d then Transient
         else if mentions BAD_TOOL d then Bad_Tool
         else if mentions BAD_RETRIEVAL d then Bad_Retrieval
         else Unknown)"

section \<open>Laws\<close>

lemma search_ok_iff: "rc_ok (check_search_hits out) \<longleftrightarrow> (\<exists>(k, v) \<in> set out. hits_of v \<noteq> None)"
  by (induction out rule: check_search_hits.induct) (auto simp: make_receipt_def split: option.splits)

lemma hits_of_pos: "hits_of v = Some n \<Longrightarrow> 0 < n"
  by (auto simp: hits_of_def find_Some_iff split: json.splits if_splits option.splits)

lemma file_ok_iff:
  "rc_ok (check_file_written fs out) \<longleftrightarrow> (\<exists>p n. first_path out = Some p \<and> fs p = Some n \<and> 0 < fn_size n)"
  by (auto simp: check_file_written_def make_receipt_def Let_def split: option.splits)

lemma heading_ok_iff:
  "(\<exists>r. check_file_with_heading fs out = Inr r \<and> rc_ok r) \<longleftrightarrow>
   (\<exists>p n x. first_path out = Some p \<and> fs p = Some n \<and> 0 < fn_size n \<and> fn_text n = Some x \<and> leading_heading x)"
  by (auto simp: check_file_with_heading_def make_receipt_def Let_def split: option.splits)

definition grounded_receipt :: "string \<Rightarrow> receipt \<Rightarrow> bool" where
  "grounded_receipt m r \<longleftrightarrow> rc_kind r = ''grounded'' \<and> rc_trust r = ''high'' \<and> rc_check r = m \<and>
     rc_verdict r = (if rc_ok r then ''pass'' else ''fail'')"

lemma grounded_receipt_make [simp]: "grounded_receipt m (make_receipt ok d m)"
  by (simp add: grounded_receipt_def make_receipt_def)

lemma grounded_receipt_search: "grounded_receipt ''search_returned_hits'' (check_search_hits out)"
  by (induction out rule: check_search_hits.induct) (simp_all split: option.splits)

lemma grounded_receipt_synthesis: "grounded_receipt ''synthesis_nonempty'' (check_synthesis out)"
  by (induction out rule: check_synthesis.induct) (simp_all add: Let_def split: json.splits)

lemma grounded_receipt_file: "grounded_receipt ''file_written'' (check_file_written fs out)"
  by (simp add: check_file_written_def Let_def split: option.splits)

lemma grounded_receipt_heading:
  "check_file_with_heading fs out = Inr r \<Longrightarrow> grounded_receipt ''file_written_with_heading'' r"
  by (auto simp: check_file_with_heading_def Let_def split: option.splits if_splits)

lemma if_Inr_cases:
  "(if b then x else y) = Inr r \<Longrightarrow> (b \<Longrightarrow> x = Inr r \<Longrightarrow> P) \<Longrightarrow> (\<not> b \<Longrightarrow> y = Inr r \<Longrightarrow> P) \<Longrightarrow> P"
  by (cases b) auto

lemma receipt_shape: "verify_task fs t out = Inr r \<Longrightarrow> grounded_receipt (tk_verification_method t) r"
  unfolding verify_task_def Let_def
  by (elim if_Inr_cases)
    (metis Inr_inject grounded_receipt_search grounded_receipt_synthesis grounded_receipt_file
      grounded_receipt_make grounded_receipt_heading)+

lemma mentions_append: "mentions ms s \<or> mentions ms t \<Longrightarrow> mentions ms (s @ t)"
  by (auto simp: mentions_def list_ex_iff intro: contains_in_append)

lemma mentions_unsafe: "mentions UNSAFE (py_lower ''GateBlocked: action blocked: '')"
  by code_simp

lemma blocked_is_unsafe: "classify_failure vdetail (Some (''GateBlocked: action blocked: '' @ why)) = Unsafe"
proof -
  define b where "b = ''GateBlocked: action blocked: ''"
  have b: "mentions UNSAFE (py_lower b)" "b \<noteq> []" using mentions_unsafe by (simp_all add: b_def)
  have "mentions UNSAFE (py_lower (b @ w))" "py_lower (b @ w) \<noteq> []" for w
    using b mentions_append [of UNSAFE "py_lower b"] by (simp_all add: py_lower_def)
  from this [of why] this [of "why @ '' '' @ vdetail"] b(2) show ?thesis
    by (simp add: classify_failure_def Let_def b_def [symmetric])
qed

end
