(* ===== verification/Agent_Executor.thy ===== *)
theory Agent_Executor
  imports Agent_Verify "HOL-Library.AList"
begin

text \<open>
  The executor of the agent (\<^verbatim>\<open>agent/executor.py\<close>): the ordered tasks of a graph
  run one after the other, each tool call through a provider, with the retries of the task's
  policy; the first task that fails stops the graph and the rest is skipped. The provider, the
  verifier and the task store are parameters over one state: what a call returns or raises, and
  whether it outlasts its timeout, is theirs. Latencies and metrics are left out.
\<close>

section \<open>Providers and reports\<close>

datatype tool_outcome = Returned json | Timed_Out | Raised string string \<comment> \<open>class and message\<close>

type_synonym task_inputs = "(string \<times> task_output) list"

type_synonym 's provider = "string \<Rightarrow> task \<Rightarrow> task_inputs \<Rightarrow> string \<Rightarrow> 's \<Rightarrow> tool_outcome \<times> 's"

type_synonym verifier = "task \<Rightarrow> task_output \<Rightarrow> (string, receipt) result"

datatype verification = Verified receipt | Errored string

fun verification_detail :: "verification \<Rightarrow> string" where
  "verification_detail (Verified r) = rc_detail r"
| "verification_detail (Errored e) = e"

record task_result =
  tr_id :: string
  tr_ok :: bool
  tr_output :: task_output
  tr_verification :: "verification option"
  tr_attempts :: nat
  tr_error :: "string option"

record exec_report =
  er_ok :: bool
  er_goal :: string
  er_results :: "task_result list"
  er_skipped :: "string list"
  er_error :: "string option"

definition result_of :: "exec_report \<Rightarrow> string \<Rightarrow> task_result option" where
  "result_of rep i = find (\<lambda>r. tr_id r = i) (er_results rep)"

type_synonym 's task_saver = "task \<Rightarrow> task_result \<Rightarrow> string \<Rightarrow> 's \<Rightarrow> 's"

definition retry_attempts :: "string \<Rightarrow> nat" where
  "retry_attempts p =
     (if starts_with ''retry:'' p
      then (case py_int (drop 6 p) of Some n \<Rightarrow> nat (max 0 n) | None \<Rightarrow> 0)
      else 0)"

section \<open>One task\<close>

definition declared_inputs :: "task \<Rightarrow> json list" where
  \<comment> \<open>\<^verbatim>\<open>i.get("from")\<close> of every input\<close>
  "declared_inputs t = map (\<lambda>i. case dict_field ''from'' i of Some v \<Rightarrow> v | None \<Rightarrow> JNull) (tk_inputs t)"

fun gather :: "json list \<Rightarrow> (string \<times> task_output) list \<Rightarrow> (string, task_inputs) result" where
  \<comment> \<open>the input dictionary; looking up a list or a dict raises\<close>
  "gather [] outs = Inr []"
| "gather (v # vs) outs =
     (case v of
        JList _ \<Rightarrow> Inl ''TypeError''
      | JObj _ \<Rightarrow> Inl ''TypeError''
      | JStr i \<Rightarrow> bind_result (gather vs outs) (\<lambda>r. Inr (case map_of outs i of Some w \<Rightarrow> AList.update i w r | None \<Rightarrow> r))
      | _ \<Rightarrow> gather vs outs)"

fun run_tools :: "'s provider \<Rightarrow> task \<Rightarrow> task_inputs \<Rightarrow> string \<Rightarrow> string list \<Rightarrow> task_output \<Rightarrow> 's \<Rightarrow>
    string option \<times> task_output \<times> 's" where
  "run_tools run t inp ses [] out s = (None, out, s)"
| "run_tools run t inp ses (n # ns) out s =
     (case run n t inp ses s of
        (Returned v, s') \<Rightarrow> run_tools run t inp ses ns (AList.update n v out) s'
      | (Timed_Out, s') \<Rightarrow> (Some (''timed out after '' @ show_float (tk_timeout_s t) @ ''s''), out, s')
      | (Raised c m, s') \<Rightarrow> (Some (c @ '': '' @ m), out, s'))"

fun attempt_loop :: "'s provider \<Rightarrow> task \<Rightarrow> task_inputs \<Rightarrow> string \<Rightarrow> nat \<Rightarrow> nat \<Rightarrow> task_output \<Rightarrow> 's \<Rightarrow>
    string option \<times> nat \<times> task_output \<times> 's" where
  \<comment> \<open>\<open>n\<close> retries left, \<open>k\<close> attempts made; the output dictionary lives across attempts\<close>
  "attempt_loop run t inp ses n k out s =
     (case run_tools run t inp ses (tk_tools t) out s of
        (None, out', s') \<Rightarrow> (None, Suc k, out', s')
      | (Some e, out', s') \<Rightarrow>
          (case n of 0 \<Rightarrow> (Some e, Suc k, out', s')
           | Suc m \<Rightarrow> attempt_loop run t inp ses m (Suc k) out' s'))"

declare attempt_loop.simps [simp del]

definition run_task :: "'s provider \<Rightarrow> verifier \<Rightarrow> task \<Rightarrow> task_inputs \<Rightarrow> string \<Rightarrow> 's \<Rightarrow>
    (string, task_result) result \<times> 's" where
  "run_task run verify t inp ses s =
     (case attempt_loop run t inp ses (retry_attempts (tk_retry_policy t)) 0 [] s of
        (None, k, out, s') \<Rightarrow>
          (bind_result (verify t out) (\<lambda>v. Inr \<lparr>tr_id = tk_id t, tr_ok = rc_ok v, tr_output = out,
             tr_verification = Some (Verified v), tr_attempts = k, tr_error = None\<rparr>), s')
      | (Some e, k, out, s') \<Rightarrow>
          (Inr \<lparr>tr_id = tk_id t, tr_ok = False, tr_output = out,
             tr_verification = Some (Errored e), tr_attempts = k, tr_error = Some e\<rparr>, s'))"

section \<open>The graph\<close>

definition skipped_result :: "task \<Rightarrow> task_result" where
  "skipped_result t = \<lparr>tr_id = tk_id t, tr_ok = False, tr_output = [], tr_verification = None, tr_attempts = 0, tr_error = None\<rparr>"

definition failure_text :: "task \<Rightarrow> task_result \<Rightarrow> string" where
  "failure_text t r = ''task '' @ tk_id t @ '' failed: '' @
     (case tr_error r of Some e \<Rightarrow> e
      | None \<Rightarrow> (case tr_verification r of Some v \<Rightarrow> verification_detail v | None \<Rightarrow> ''None''))"

fun walk_tasks :: "'s provider \<Rightarrow> verifier \<Rightarrow> 's task_saver \<Rightarrow> string \<Rightarrow> string \<Rightarrow> task list \<Rightarrow>
    (string \<times> task_output) list \<Rightarrow> task_result list \<Rightarrow> 's \<Rightarrow> (string, exec_report) result \<times> 's" where
  "walk_tasks run verify save goal ses [] outs rs s =
     (Inr \<lparr>er_ok = True, er_goal = goal, er_results = rs, er_skipped = [], er_error = None\<rparr>, s)"
| "walk_tasks run verify save goal ses (t # ts) outs rs s =
     (case gather (declared_inputs t) outs of
        Inl e \<Rightarrow> (Inl e, s)
      | Inr inp \<Rightarrow>
          (case run_task run verify t inp ses s of
             (Inl e, s1) \<Rightarrow> (Inl e, s1)
           | (Inr r, s1) \<Rightarrow>
               (let s2 = save t r (if tr_ok r then ''ok'' else ''failed'') s1
                in if tr_ok r
                   then walk_tasks run verify save goal ses ts (AList.update (tk_id t) (tr_output r) outs) (rs @ [r]) s2
                   else (Inr \<lparr>er_ok = False, er_goal = goal, er_results = rs @ [r], er_skipped = map tk_id ts,
                           er_error = Some (failure_text t r)\<rparr>,
                         fold (\<lambda>u. save u (skipped_result u) ''skipped'') ts s2))))"

definition cycle_report :: "string \<Rightarrow> string list \<Rightarrow> exec_report" where
  "cycle_report goal remaining = \<lparr>er_ok = False, er_goal = goal, er_results = [], er_skipped = [],
     er_error = Some (''graph not executable: task graph contains a cycle: '' @ repr_strs remaining)\<rparr>"

definition execute_graph :: "'s provider \<Rightarrow> verifier \<Rightarrow> 's task_saver \<Rightarrow> string \<Rightarrow> task_graph \<Rightarrow> 's \<Rightarrow>
    (string, exec_report) result \<times> 's" where
  \<comment> \<open>\<open>Inl\<close> is an exception that leaves the function\<close>
  "execute_graph run verify save ses g s =
     (case order g of
        Inl remaining \<Rightarrow> (Inr (cycle_report (tg_goal g) remaining), s)
      | Inr ordered \<Rightarrow> walk_tasks run verify save (tg_goal g) ses ordered [] [] s)"

section \<open>Laws\<close>

lemma attempt_loop_bounds:
  "attempt_loop run t inp ses n k out s = (e, k', out', s') \<Longrightarrow> k < k' \<and> k' \<le> Suc (k + n)"
proof (induction n arbitrary: k out s)
  case 0
  then show ?case by (subst (asm) attempt_loop.simps) (auto split: prod.splits option.splits)
next
  case (Suc n)
  from Suc.prems show ?case
    by (subst (asm) attempt_loop.simps) (auto split: prod.splits option.splits dest: Suc.IH)
qed

lemma run_task_result:
  "run_task run verify t inp ses s = (Inr r, s') \<Longrightarrow>
   tr_id r = tk_id t \<and> 1 \<le> tr_attempts r \<and> tr_attempts r \<le> Suc (retry_attempts (tk_retry_policy t)) \<and>
   (tr_ok r \<longrightarrow> (\<exists>v. verify t (tr_output r) = Inr v \<and> rc_ok v))"
  by (auto simp: run_task_def result_simps dest!: attempt_loop_bounds split: prod.splits option.splits)

definition ran :: "verifier \<Rightarrow> task \<Rightarrow> task_result \<Rightarrow> bool" where
  \<comment> \<open>what every recorded result satisfies\<close>
  "ran verify t r \<longleftrightarrow> tr_id r = tk_id t \<and> 1 \<le> tr_attempts r \<and> tr_attempts r \<le> Suc (retry_attempts (tk_retry_policy t)) \<and>
     (tr_ok r \<longrightarrow> (\<exists>v. verify t (tr_output r) = Inr v \<and> rc_ok v))"

lemma walk_report:
  "walk_tasks run verify save goal ses ts outs rs s = (Inr rep, s') \<Longrightarrow>
   \<exists>us new. list_all2 (ran verify) us new \<and> er_results rep = rs @ new \<and> er_goal rep = goal \<and>
     (\<exists>rest. ts = us @ rest \<and> er_skipped rep = map tk_id rest \<and>
       (if er_ok rep then rest = [] \<and> (\<forall>r \<in> set new. tr_ok r)
        else new \<noteq> [] \<and> (\<forall>r \<in> set (butlast new). tr_ok r) \<and> \<not> tr_ok (last new)))"
proof (induction ts arbitrary: outs rs s)
  case Nil
  then show ?case by (intro exI [of _ "[]"]) auto
next
  case (Cons t ts)
  obtain inp r s1 where i: "gather (declared_inputs t) outs = Inr inp" "run_task run verify t inp ses s = (Inr r, s1)"
    using Cons.prems by (auto split: sum.splits prod.splits)
  have r: "ran verify t r" using run_task_result [OF i(2)] by (simp add: ran_def)
  show ?case
  proof (cases "tr_ok r")
    case True
    with Cons.prems i have "walk_tasks run verify save goal ses ts (AList.update (tk_id t) (tr_output r) outs) (rs @ [r]) (save t r ''ok'' s1) = (Inr rep, s')"
      by simp
    from Cons.IH [OF this] obtain us new rest where *: "list_all2 (ran verify) us new" "er_results rep = (rs @ [r]) @ new" "er_goal rep = goal"
      "ts = us @ rest" "er_skipped rep = map tk_id rest"
      "if er_ok rep then rest = [] \<and> (\<forall>r \<in> set new. tr_ok r) else new \<noteq> [] \<and> (\<forall>r \<in> set (butlast new). tr_ok r) \<and> \<not> tr_ok (last new)"
      by (elim exE conjE)
    then show ?thesis using r True
      by (intro exI [of _ "t # us"] exI [of _ "r # new"]) (auto split: if_splits)
  next
    case False
    with Cons.prems i r show ?thesis
      by (intro exI [of _ "[t]"] exI [of _ "[r]"]) auto
  qed
qed

lemma execute_report:
  assumes "execute_graph run verify save ses g s = (Inr rep, s')" "order g = Inr ordered"
  obtains us rest where "list_all2 (ran verify) us (er_results rep)" "ordered = us @ rest" "er_skipped rep = map tk_id rest"
    "if er_ok rep then rest = [] \<and> (\<forall>r \<in> set (er_results rep). tr_ok r)
     else er_results rep \<noteq> [] \<and> (\<forall>r \<in> set (butlast (er_results rep)). tr_ok r) \<and> \<not> tr_ok (last (er_results rep))"
  using walk_report [of run verify save "tg_goal g" ses ordered "[]" "[]" s rep s'] assms
  by (auto simp: execute_graph_def)

text \<open>
  The contract of a provider and a store with respect to a property of the state: what every call
  and every save keeps, a run of the graph keeps.
\<close>

locale provider_invariant =
  fixes run :: "'s provider"
    and save :: "'s task_saver"
    and inv :: "'s \<Rightarrow> bool"
  assumes run_keeps: "inv s \<Longrightarrow> inv (snd (run n t inp ses s))"
    and save_keeps: "inv s \<Longrightarrow> inv (save t r st s)"
begin

lemma tools_keep: "inv s \<Longrightarrow> inv (snd (snd (run_tools run t inp ses ns out s)))"
proof (induction ns arbitrary: out s)
  case (Cons n ns)
  then show ?case using run_keeps [OF Cons.prems, of n t inp ses]
    by (auto split: prod.splits tool_outcome.splits)
qed simp

lemma attempts_keep: "inv s \<Longrightarrow> inv (snd (snd (snd (attempt_loop run t inp ses n k out s))))"
proof (induction n arbitrary: k out s)
  case 0
  then show ?case using tools_keep [OF 0, of t inp ses "tk_tools t" out]
    by (subst attempt_loop.simps) (auto split: prod.splits option.splits)
next
  case (Suc n)
  then show ?case using tools_keep [OF Suc.prems, of t inp ses "tk_tools t" out]
    by (subst attempt_loop.simps) (auto split: prod.splits option.splits)
qed

lemma task_keeps: "inv s \<Longrightarrow> inv (snd (run_task run verify t inp ses s))"
  using attempts_keep [of s t inp ses "retry_attempts (tk_retry_policy t)" 0 "[]"]
  by (auto simp: run_task_def split: prod.splits option.splits)

lemma saves_keep: "inv s \<Longrightarrow> inv (fold (\<lambda>u. save u (skipped_result u) st) ts s)"
  by (induction ts arbitrary: s) (auto intro: save_keeps)

lemma walk_keeps: "inv s \<Longrightarrow> inv (snd (walk_tasks run verify save goal ses ts outs rs s))"
proof (induction ts arbitrary: outs rs s)
  case (Cons t ts)
  show ?case
  proof (cases "gather (declared_inputs t) outs")
    case (Inr inp)
    obtain r s1 where r: "run_task run verify t inp ses s = (r, s1)" by fastforce
    then have "inv s1" using task_keeps [OF Cons.prems, of verify t inp ses] by simp
    then show ?thesis using Inr r
      by (cases r) (auto simp: Let_def intro!: Cons.IH saves_keep save_keeps)
  qed (use Cons.prems in simp)
qed simp

lemma execute_keeps: "inv s \<Longrightarrow> inv (snd (execute_graph run verify save ses g s))"
  by (auto simp: execute_graph_def walk_keeps split: sum.splits)

end

text \<open>Counting the calls that reach a provider.\<close>

definition counted :: "'s provider \<Rightarrow> (nat \<times> 's) provider" where
  "counted run = (\<lambda>n t inp ses (c, s). case run n t inp ses s of (r, s') \<Rightarrow> (r, Suc c, s'))"

definition uncounted :: "'s task_saver \<Rightarrow> (nat \<times> 's) task_saver" where
  "uncounted save = (\<lambda>t r st (c, s). (c, save t r st s))"

definition call_budget :: "task \<Rightarrow> nat" where
  "call_budget t = Suc (retry_attempts (tk_retry_policy t)) * length (tk_tools t)"

lemma counted_tools: "run_tools (counted run) t inp ses ns out (c, s) = (e, out', c', s') \<Longrightarrow> c' \<le> c + length ns"
proof (induction ns arbitrary: out c s)
  case (Cons n ns)
  then show ?case
    by (auto simp: counted_def split: prod.splits tool_outcome.splits) (fastforce dest: Cons.IH [unfolded counted_def])
qed simp

lemma counted_attempts:
  "attempt_loop (counted run) t inp ses n k out (c, s) = (e, k', out', c', s') \<Longrightarrow> c' \<le> c + Suc n * length (tk_tools t)"
proof (induction n arbitrary: k out c s)
  case 0
  then show ?case
    by (subst (asm) attempt_loop.simps) (auto split: prod.splits option.splits dest: counted_tools)
next
  case (Suc n)
  obtain e1 out1 c1 s1 where r: "run_tools (counted run) t inp ses (tk_tools t) out (c, s) = (e1, out1, c1, s1)"
    by (metis prod_cases4)
  note b = counted_tools [OF r]
  show ?case
  proof (cases e1)
    case None
    with Suc.prems r b show ?thesis by (subst (asm) attempt_loop.simps) auto
  next
    case (Some x)
    with Suc.prems r have "attempt_loop (counted run) t inp ses n (Suc k) out1 (c1, s1) = (e, k', out', c', s')"
      by (subst (asm) attempt_loop.simps) simp
    from Suc.IH [OF this] b show ?thesis by simp
  qed
qed

lemma counted_task:
  "run_task (counted run) verify t inp ses (c, s) = (r, c', s') \<Longrightarrow> c' \<le> c + call_budget t"
  by (auto simp: run_task_def call_budget_def dest!: counted_attempts split: prod.splits option.splits)

lemma uncounted_fold: "fst (fold (\<lambda>u. uncounted save u (skipped_result u) st) ts p) = fst p"
  by (induction ts arbitrary: p) (auto simp: uncounted_def split: prod.splits)

lemma counted_walk:
  "walk_tasks (counted run) verify (uncounted save) goal ses ts outs rs (c, s) = (rep, c', s') \<Longrightarrow>
   c' \<le> c + sum_list (map call_budget ts)"
proof (induction ts arbitrary: outs rs c s)
  case (Cons t ts)
  show ?case
  proof (cases "gather (declared_inputs t) outs")
    case (Inr inp)
    obtain r c1 s1 where run: "run_task (counted run) verify t inp ses (c, s) = (r, c1, s1)" by (metis prod_cases3)
    note b = counted_task [OF run]
    show ?thesis
    proof (cases r)
      case (Inl e)
      with Cons.prems Inr run b show ?thesis by simp
    next
      case r: (Inr x)
      show ?thesis
      proof (cases "tr_ok x")
        case True
        with Cons.prems Inr run r have "walk_tasks (counted run) verify (uncounted save) goal ses ts
            (AList.update (tk_id t) (tr_output x) outs) (rs @ [x]) (c1, save t x ''ok'' s1) = (rep, c', s')"
          by (simp add: uncounted_def)
        from Cons.IH [OF this] b show ?thesis by simp
      next
        case False
        with Cons.prems Inr run r have "c' = c1"
          using uncounted_fold [of save "''skipped''" ts "(c1, save t x ''failed'' s1)"]
          by (auto simp: uncounted_def)
        with b show ?thesis by simp
      qed
    qed
  qed (use Cons.prems in simp)
qed simp

section \<open>Properties\<close>

text \<open>C8: No task runs without its parent's success: in a report, a task with a result whose parent is in the
  graph comes after a result of that parent which is ok, and an ok report has run the whole graph.\<close>

theorem parents_succeed_first:
  assumes "execute_graph run verify save ses g s = (Inr rep, s')" "order g = Inr ordered"
  shows "map tr_id (er_results rep) @ er_skipped rep = map tk_id ordered \<and>
    (er_ok rep \<longleftrightarrow> er_skipped rep = [] \<and> (\<forall>r \<in> set (er_results rep). tr_ok r)) \<and>
    (\<forall>xs r ys t p. er_results rep = xs @ r # ys \<and> t \<in> set (tg_tasks g) \<and> tk_id t = tr_id r \<and>
       tk_parent t = Some p \<and> p \<in> set (task_ids g) \<longrightarrow> (\<exists>q \<in> set xs. tr_id q = p \<and> tr_ok q))"
proof -
  obtain us rest where u: "list_all2 (ran verify) us (er_results rep)" "ordered = us @ rest" "er_skipped rep = map tk_id rest"
    "if er_ok rep then rest = [] \<and> (\<forall>r \<in> set (er_results rep). tr_ok r)
     else er_results rep \<noteq> [] \<and> (\<forall>r \<in> set (butlast (er_results rep)). tr_ok r) \<and> \<not> tr_ok (last (er_results rep))"
    using execute_report [OF assms] by blast
  have ids: "map tr_id (er_results rep) = map tk_id us"
    using u(1) by (induction rule: list_all2_induct) (auto simp: ran_def)
  note o = order_Inr [OF assms(2)]
  have "\<exists>q \<in> set xs. tr_id q = p \<and> tr_ok q"
    if split: "er_results rep = xs @ r # ys" and t: "t \<in> set (tg_tasks g)" "tk_id t = tr_id r" "tk_parent t = Some p" "p \<in> set (task_ids g)"
    for xs r ys t p
  proof -
    obtain as v bs where us: "us = as @ v # bs" "map tk_id as = map tr_id xs" "tk_id v = tr_id r"
      using ids [symmetric] unfolding split by (auto simp: map_eq_append_conv map_eq_Cons_conv)
    have "v = t"
    proof (rule inj_onD)
      show "inj_on tk_id (set (tg_tasks g))" using o(4) by (simp add: task_ids_def distinct_map)
      show "v \<in> set (tg_tasks g)" using us(1) u(2) o(3) by auto
    qed (use us(3) t in simp_all)
    with us(1) u(2) have "p \<in> tk_id ` set as"
      using grounded_split [of g "{}" as v "bs @ rest"] o(2) t by (auto simp: wait_count_0 waits_def)
    then have "p \<in> tr_id ` set xs" using us(2) by (metis list.set_map)
    moreover have "\<forall>q \<in> set xs. tr_ok q"
      using u(4) split by (cases "er_ok rep") (auto simp: butlast_append split: if_splits)
    ultimately show ?thesis by auto
  qed
  moreover have "er_ok rep \<longleftrightarrow> er_skipped rep = [] \<and> (\<forall>r \<in> set (er_results rep). tr_ok r)"
    using u(3,4) by (auto split: if_splits)
  ultimately show ?thesis using ids u(2,3) by auto
qed

text \<open>C37: Retrying is bounded: whatever the provider does, a run of the graph makes at most the sum over its
  tasks of (retries + 1) times the number of tools calls.\<close>

theorem tool_calls_are_bounded:
  assumes "execute_graph (counted run) verify (uncounted save) ses g (0, s) = (rep, c, s')"
  shows "c \<le> sum_list (map call_budget (tg_tasks g))"
proof (cases "order g")
  case (Inr ordered)
  then have "mset ordered = mset (tg_tasks g)"
    using order_Inr [OF Inr] by (simp add: task_ids_def distinct_map set_eq_iff_mset_eq_distinct)
  then have "sum_list (map call_budget ordered) = sum_list (map call_budget (tg_tasks g))"
    by (metis mset_map sum_mset_sum_list)
  with assms Inr show ?thesis
    using counted_walk [of run verify save "tg_goal g" ses ordered "[]" "[]" 0 s rep c s'] by (simp add: execute_graph_def)
qed (use assms in \<open>simp add: execute_graph_def\<close>)

definition echo_provider :: "unit provider" where
  "echo_provider = (\<lambda>n t inp ses s. if tk_id t = ''b'' then (Timed_Out, s) else (Returned (JStr (tk_id t)), s))"

definition demo_report :: exec_report where
  "demo_report = projr (fst (execute_graph echo_provider (verify_task (\<lambda>p. None)) (\<lambda>t r st s. s) ''s'' demo_graph ()))"

lemma demo_execution:
  "execute_graph echo_provider (verify_task (\<lambda>p. None)) (\<lambda>t r st s. s) ''s'' demo_graph () = (Inr demo_report, ())"
  by code_simp

theorem parents_succeed_first_witness:
  "map tr_id (er_results demo_report) @ er_skipped demo_report = [''a'', ''b'', ''c'']"
  using parents_succeed_first [OF demo_execution demo_order] by (simp add: plain_task_def)

lemma demo_counted:
  "execute_graph (counted echo_provider) (verify_task (\<lambda>p. None)) (uncounted (\<lambda>t r st s. s)) ''s'' demo_graph (0, ()) =
     (Inr demo_report, 4, ())"
  by code_simp

theorem tool_calls_are_bounded_witness: "4 \<le> sum_list (map call_budget (tg_tasks demo_graph))"
  by (rule tool_calls_are_bounded [OF demo_counted])

end
