(* ===== verification/Agent_Gate.thy ===== *)
theory Agent_Gate
  imports Agent_Executor Gov_KillSwitch
begin

text \<open>
  The action gate of the agent (\<^verbatim>\<open>agent/safety.py\<close>) and the capability and tool
  inventories derived from its tables (\<^verbatim>\<open>governance/capability_registry.py\<close>,
  \<^verbatim>\<open>governance/tool_manifest.py\<close>). The gate keys on the risk tier of a
  capability and on the taint of its inputs; \<open>safe_run\<close> is the provider wrapper that gates
  every call and propagates taint. Dashes in messages are written as hyphens; the decision
  counters are left out.
\<close>

section \<open>Tables\<close>

definition RISK_TIERS :: "(string \<times> int) list" where
  "RISK_TIERS = [(''read_vault'', 1), (''llm_synthesis'', 1), (''web_search'', 1), (''write_file'', 2),
     (''vault_delete'', 3), (''send_message'', 3), (''financial'', 4), (''permissions'', 4)]"

definition TOOL_CAPABILITY :: "(string \<times> string) list" where
  "TOOL_CAPABILITY = [(''search_query'', ''read_vault''), (''vault_read'', ''read_vault''),
     (''chat'', ''llm_synthesis''), (''vault_write'', ''write_file'')]"

definition UNKNOWN_TIER :: int where
  "UNKNOWN_TIER = - 1"

definition TAINTED_TOOLS :: "string list" where
  "TAINTED_TOOLS = [''search_query'', ''vault_read'']"

definition TAINT_ESCALATED :: "string list" where
  "TAINT_ESCALATED = [''write_file'', ''vault_delete'', ''send_message'', ''financial'', ''permissions'']"

definition REVIEW_TIER :: int where
  "REVIEW_TIER = 3"

definition BLOCK_TIER :: int where
  "BLOCK_TIER = 4"

section \<open>The gate\<close>

datatype gate_action = SAFE | REVIEW | BLOCK

fun gate_action_name :: "gate_action \<Rightarrow> string" where
  "gate_action_name SAFE = ''SAFE''"
| "gate_action_name REVIEW = ''REVIEW''"
| "gate_action_name BLOCK = ''BLOCK''"

record gate_verdict =
  vd_allowed :: bool
  vd_action :: gate_action
  vd_reason :: string
  vd_tier :: int
  vd_tainted :: bool

record gate_request =
  gr_capability :: string
  gr_tainted :: bool
  gr_approved :: "string list option"
  gr_granted :: "string list option"
  gr_agent :: "string option"
  gr_tenant :: "string option"

type_synonym switch = "(kill_io \<times> kill_db) option"

definition is_registered :: "string \<Rightarrow> bool" where
  "is_registered c = (c \<in> fst ` set RISK_TIERS)"

definition tier_of :: "string \<Rightarrow> int" where
  "tier_of c = (if is_registered c then the (map_of RISK_TIERS c) else UNKNOWN_TIER)"

definition refuse :: "'c appender \<Rightarrow> gate_action \<Rightarrow> string \<Rightarrow> int \<Rightarrow> bool \<Rightarrow> string \<Rightarrow> 'c \<Rightarrow> gate_verdict \<times> 'c" where
  \<comment> \<open>an audit append that raises is swallowed\<close>
  "refuse app a why tier tainted capability c =
     (\<lparr>vd_allowed = False, vd_action = a, vd_reason = why, vd_tier = tier, vd_tainted = tainted\<rparr>,
      snd (app c ''agentic'' ''blocked''
        (obj [(''action'', JStr (gate_action_name a)), (''reason'', JStr why), (''capability'', JStr capability)])))"

definition unknown_disposition :: "'c appender \<Rightarrow> string \<Rightarrow> bool \<Rightarrow> 'c \<Rightarrow> gate_verdict \<times> 'c" where
  "unknown_disposition app capability tainted c =
     (if tainted
      then refuse app REVIEW ''unknown capability driven by untrusted content requires approval'' UNKNOWN_TIER True capability c
      else refuse app BLOCK (''capability not registered: '' @ capability) UNKNOWN_TIER False capability c)"

definition refuse_unknown_read_only :: "'c appender \<Rightarrow> string \<Rightarrow> 'c \<Rightarrow> gate_verdict \<times> 'c" where
  "refuse_unknown_read_only app capability c =
     refuse app REVIEW (''registered capability required for this read; unknown capability: '' @ capability)
       UNKNOWN_TIER False capability c"

definition switch_refusal :: "switch \<Rightarrow> gate_request \<Rightarrow> string option" where
  \<comment> \<open>the reason for which the kill switch refuses, checked globally and then per scope\<close>
  "switch_refusal sw q = (case sw of
       None \<Rightarrow> None
     | Some (io, d) \<Rightarrow>
         if is_armed io d then Some ''kill switch armed - loop paused''
         else if is_blocked io (Some ''tool'') (Some (gr_capability q)) d
           then Some (''kill switch armed for tool scope: '' @ gr_capability q)
         else if (case gr_agent q of None \<Rightarrow> False | Some a \<Rightarrow> is_blocked io (Some ''agent'') (Some a) d)
           then Some (''kill switch armed for agent scope: '' @ the (gr_agent q))
         else if (case gr_tenant q of None \<Rightarrow> False | Some a \<Rightarrow> is_blocked io (Some ''tenant'') (Some a) d)
           then Some (''kill switch armed for tenant scope: '' @ the (gr_tenant q))
         else None)"

definition pre_approved :: "gate_request \<Rightarrow> bool" where
  "pre_approved q = (case gr_approved q of None \<Rightarrow> False | Some xs \<Rightarrow> gr_capability q \<in> set xs)"

definition decide_gate :: "'c appender \<Rightarrow> switch \<Rightarrow> gate_request \<Rightarrow> 'c \<Rightarrow> gate_verdict \<times> 'c" where
  "decide_gate app sw q c =
     (let cap = gr_capability q; tainted = gr_tainted q; tier = tier_of cap
      in if tier = UNKNOWN_TIER then unknown_disposition app cap tainted c
         else (case switch_refusal sw q of
             Some why \<Rightarrow> refuse app BLOCK why tier tainted cap c
           | None \<Rightarrow>
               if (case gr_granted q of None \<Rightarrow> False | Some gs \<Rightarrow> cap \<notin> set gs)
                 then refuse app BLOCK (''capability not granted to this agent: '' @ cap) tier tainted cap c
               else if tainted \<and> cap \<in> set TAINT_ESCALATED \<and> \<not> pre_approved q
                 then refuse app REVIEW ''action driven by untrusted content requires approval'' tier tainted cap c
               else if BLOCK_TIER \<le> tier
                 then refuse app BLOCK ''action at very-high risk tier'' tier tainted cap c
               else if REVIEW_TIER \<le> tier
                 then refuse app REVIEW ''action at high risk tier'' tier tainted cap c
               else (\<lparr>vd_allowed = True, vd_action = SAFE, vd_reason = ''registered capability, brakes clear'',
                       vd_tier = tier, vd_tainted = tainted\<rparr>, c)))"

section \<open>The gated provider\<close>

record ('c, 's) safe_state =
  sp_tainted :: "string list"     \<comment> \<open>the set of task ids\<close>
  sp_audit :: 'c
  sp_inner :: 's

definition capability_for :: "string \<Rightarrow> task \<Rightarrow> string" where
  "capability_for n t = (case map_of TOOL_CAPABILITY n of
       Some c \<Rightarrow> c
     | None \<Rightarrow> (case tk_required_capabilities t of [] \<Rightarrow> ''read_vault'' | c # _ \<Rightarrow> c))"

fun any_tainted :: "string list \<Rightarrow> json list \<Rightarrow> bool option" where
  \<comment> \<open>\<^verbatim>\<open>any(pid in tainted for pid in declared if pid)\<close>; \<open>None\<close> is the TypeError of a list or dict\<close>
  "any_tainted ts [] = Some False"
| "any_tainted ts (v # vs) =
     (case v of
        JStr s \<Rightarrow> if s \<noteq> [] \<and> s \<in> set ts then Some True else any_tainted ts vs
      | JList xs \<Rightarrow> if xs = [] then any_tainted ts vs else None
      | JObj xs \<Rightarrow> if xs = [] then any_tainted ts vs else None
      | _ \<Rightarrow> any_tainted ts vs)"

definition gate_failure :: "gate_verdict \<Rightarrow> tool_outcome" where
  "gate_failure v = (case vd_action v of
       REVIEW \<Rightarrow> Raised ''GateReview'' (''action review required: '' @ vd_reason v)
     | _ \<Rightarrow> Raised ''GateBlocked'' (''action blocked: '' @ vd_reason v))"

definition safe_request :: "string list \<Rightarrow> string list option \<Rightarrow> string \<Rightarrow> task \<Rightarrow> bool \<Rightarrow> gate_request" where
  \<comment> \<open>what the wrapper passes: no agent, no tenant\<close>
  "safe_request approved granted n t tainted =
     \<lparr>gr_capability = capability_for n t, gr_tainted = tainted, gr_approved = Some approved, gr_granted = granted,
      gr_agent = None, gr_tenant = None\<rparr>"

definition safe_run :: "'c appender \<Rightarrow> ('s \<Rightarrow> switch) \<Rightarrow> string list \<Rightarrow> string list option \<Rightarrow> 's provider \<Rightarrow>
    ('c, 's) safe_state provider" where
  \<comment> \<open>the second argument reads the kill switch at the time of the call\<close>
  "safe_run app look approved granted run n t inp ses s =
     (case any_tainted (sp_tainted s) (declared_inputs t) of
        None \<Rightarrow> (Raised ''TypeError'' ''unhashable type'', s)
      | Some tainted \<Rightarrow>
          (let (v, c) = decide_gate app (look (sp_inner s)) (safe_request approved granted n t tainted) (sp_audit s);
               s1 = s\<lparr>sp_audit := c\<rparr>
           in if vd_action v \<noteq> SAFE then (gate_failure v, s1)
              else (let (r, i) = run n t inp ses (sp_inner s)
                    in (r, s1\<lparr>sp_inner := i,
                         sp_tainted := (case r of
                             Returned _ \<Rightarrow> if tainted \<or> n \<in> set TAINTED_TOOLS then List.insert (tk_id t) (sp_tainted s) else sp_tainted s
                           | _ \<Rightarrow> sp_tainted s)\<rparr>))))"

definition is_task_tainted :: "('c, 's) safe_state \<Rightarrow> string \<Rightarrow> bool" where
  "is_task_tainted s i = (i \<in> set (sp_tainted s))"

section \<open>Laws of the gate\<close>

lemma refuse_fst [simp]: "vd_action (fst (refuse app a why tier tn cap c)) = a" "\<not> vd_allowed (fst (refuse app a why tier tn cap c))"
  by (simp_all add: refuse_def)

lemma unknown_not_safe: "vd_action (fst (unknown_disposition app cap tn c)) \<noteq> SAFE"
  by (simp add: unknown_disposition_def)

lemma gate_safe_iff:
  "vd_action (fst (decide_gate app sw q c)) = SAFE \<longleftrightarrow>
     is_registered (gr_capability q) \<and> switch_refusal sw q = None \<and>
     (case gr_granted q of None \<Rightarrow> True | Some gs \<Rightarrow> gr_capability q \<in> set gs) \<and>
     (gr_tainted q \<longrightarrow> gr_capability q \<in> set TAINT_ESCALATED \<longrightarrow> pre_approved q) \<and>
     tier_of (gr_capability q) < REVIEW_TIER"
proof -
  have "tier_of (gr_capability q) = UNKNOWN_TIER \<longleftrightarrow> \<not> is_registered (gr_capability q)"
    by (auto simp: tier_of_def is_registered_def RISK_TIERS_def UNKNOWN_TIER_def split: if_splits)
  then show ?thesis
    using unknown_not_safe [of app "gr_capability q" "gr_tainted q" c]
    by (auto simp: decide_gate_def Let_def REVIEW_TIER_def BLOCK_TIER_def split: option.splits if_splits)
qed

lemma gate_allowed_safe: "vd_allowed (fst (decide_gate app sw q c)) \<longleftrightarrow> vd_action (fst (decide_gate app sw q c)) = SAFE"
  by (auto simp: decide_gate_def unknown_disposition_def Let_def split: option.splits)

section \<open>Taint along a run\<close>

text \<open>
  The calls that reach the wrapped provider, in order, each with the state it was made in, and
  the declared flow of untrusted content through them: a task is influenced when it called a
  tool that returns untrusted content, or was called with an input declared from an influenced task.
\<close>

type_synonym 's call = "string \<times> task \<times> 's \<times> tool_outcome"

definition logged :: "'s provider \<Rightarrow> ('s call list \<times> 's) provider" where
  "logged run = (\<lambda>n t inp ses (tr, s). case run n t inp ses s of (r, s') \<Rightarrow> (r, tr @ [(n, t, s, r)], s'))"

definition through :: "'s task_saver \<Rightarrow> ('c, 's call list \<times> 's) safe_state task_saver" where
  "through save t r st s = s\<lparr>sp_inner := (fst (sp_inner s), save t r st (snd (sp_inner s)))\<rparr>"

definition start_state :: "'c \<Rightarrow> 's \<Rightarrow> ('c, 's call list \<times> 's) safe_state" where
  "start_state c s = \<lparr>sp_tainted = [], sp_audit = c, sp_inner = ([], s)\<rparr>"

definition calls :: "('c, 's call list \<times> 's) safe_state \<Rightarrow> 's call list" where
  "calls s = fst (sp_inner s)"

inductive influenced :: "'s call list \<Rightarrow> string \<Rightarrow> bool" where
  source: "n \<in> set TAINTED_TOOLS \<Longrightarrow> influenced (xs @ (n, t, s, Returned v) # ys) (tk_id t)"
| flow: "JStr p \<in> set (declared_inputs t) \<Longrightarrow> p \<noteq> [] \<Longrightarrow> influenced xs p \<Longrightarrow>
    influenced (xs @ (n, t, s, Returned v) # ys) (tk_id t)"

definition fed_by_untrusted :: "'s call list \<Rightarrow> task \<Rightarrow> bool" where
  \<comment> \<open>an input is declared from an influenced task\<close>
  "fed_by_untrusted tr t \<longleftrightarrow> (\<exists>p. JStr p \<in> set (declared_inputs t) \<and> p \<noteq> [] \<and> influenced tr p)"

lemma influenced_Nil: "\<not> influenced [] i"
  by (auto elim: influenced.cases)

lemma influenced_snoc:
  "influenced (tr @ [(n, t, s, r)]) i \<longleftrightarrow> influenced tr i \<or>
     (\<exists>v. r = Returned v) \<and> i = tk_id t \<and> (n \<in> set TAINTED_TOOLS \<or> fed_by_untrusted tr t)" (is "?l \<longleftrightarrow> ?r")
proof
  assume ?l
  then show ?r
  proof cases
    case (source n' xs t' s' v ys)
    then show ?thesis by (cases ys rule: rev_cases) (auto intro: influenced.source)
  next
    case (flow p t' xs n' s' v ys)
    then show ?thesis by (cases ys rule: rev_cases) (auto simp: fed_by_untrusted_def intro: influenced.flow)
  qed
next
  assume ?r
  moreover have "influenced (tr @ [(n, t, s, r)]) i" if "influenced tr i"
    using that
  proof cases
    case (source n' xs t' s' v ys)
    then show ?thesis using influenced.source [of n' xs t' s' v "ys @ [(n, t, s, r)]"] by simp
  next
    case (flow p t' xs n' s' v ys)
    then show ?thesis using influenced.flow [of p t' xs n' s' v "ys @ [(n, t, s, r)]"] by simp
  qed
  moreover have "influenced (tr @ [(n, t, s, Returned v)]) (tk_id t)" if "n \<in> set TAINTED_TOOLS \<or> fed_by_untrusted tr t" for v
    using that influenced.source [of n tr t s v "[]"] influenced.flow [of _ t tr n s v "[]"]
    by (auto simp: fed_by_untrusted_def)
  ultimately show ?l by blast
qed

definition admissible :: "('s \<Rightarrow> switch) \<Rightarrow> string list \<Rightarrow> string list option \<Rightarrow> 's call list \<Rightarrow> string \<Rightarrow> task \<Rightarrow> 's \<Rightarrow> bool" where
  \<comment> \<open>what the gate promises of a call that it lets through\<close>
  "admissible look approved granted tr n t s \<longleftrightarrow>
     (let cap = capability_for n t
      in is_registered cap \<and> tier_of cap < REVIEW_TIER \<and>
         (case look s of None \<Rightarrow> True | Some (io, d) \<Rightarrow> \<not> is_blocked io (Some ''tool'') (Some cap) d) \<and>
         (case granted of None \<Rightarrow> True | Some gs \<Rightarrow> cap \<in> set gs) \<and>
         (cap \<in> set TAINT_ESCALATED \<and> fed_by_untrusted tr t \<longrightarrow> cap \<in> set approved))"

fun all_admissible :: "('s \<Rightarrow> switch) \<Rightarrow> string list \<Rightarrow> string list option \<Rightarrow> 's call list \<Rightarrow> bool" where
  "all_admissible look approved granted tr \<longleftrightarrow>
     (\<forall>xs n t s r ys. tr = xs @ (n, t, s, r) # ys \<longrightarrow> admissible look approved granted xs n t s)"

declare all_admissible.simps [simp del]

lemma all_admissible_snoc:
  "all_admissible look approved granted (tr @ [(n, t, s, r)]) \<longleftrightarrow>
     all_admissible look approved granted tr \<and> admissible look approved granted tr n t s"
proof -
  have eq: "tr @ [(n, t, s, r)] = xs @ (n', t', s', r') # ys \<longleftrightarrow>
      (\<exists>zs. ys = zs @ [(n, t, s, r)] \<and> tr = xs @ (n', t', s', r') # zs) \<or>
      (ys = [] \<and> xs = tr \<and> n' = n \<and> t' = t \<and> s' = s \<and> r' = r)" for xs n' t' s' r' ys
    by (cases ys rule: rev_cases) auto
  show ?thesis unfolding all_admissible.simps eq by auto
qed

definition gated_inv :: "('s \<Rightarrow> switch) \<Rightarrow> string list \<Rightarrow> string list option \<Rightarrow> ('c, 's call list \<times> 's) safe_state \<Rightarrow> bool" where
  "gated_inv look approved granted s \<longleftrightarrow>
     set (sp_tainted s) = {i. influenced (calls s) i} \<and> all_admissible look approved granted (calls s)"

lemma any_tainted_Some:
  "any_tainted ts vs = Some b \<Longrightarrow> b \<longleftrightarrow> (\<exists>p. JStr p \<in> set vs \<and> p \<noteq> [] \<and> p \<in> set ts)"
  by (induction vs) (auto split: json.splits if_splits)

lemma safe_gate_admissible:
  assumes "vd_action (fst (decide_gate app (look s) (safe_request approved granted n t b) c)) = SAFE"
    and "b \<longleftrightarrow> fed_by_untrusted tr t"
  shows "admissible look approved granted tr n t s"
  using assms by (auto simp: gate_safe_iff admissible_def safe_request_def pre_approved_def switch_refusal_def Let_def
      split: option.splits if_splits)

lemma safe_run_keeps:
  assumes inv: "gated_inv look approved granted s"
  shows "gated_inv look approved granted (snd (safe_run app (look \<circ> snd) approved granted (logged run) n t inp ses s))"
proof (cases "any_tainted (sp_tainted s) (declared_inputs t)")
  case (Some b)
  obtain tr i where tr: "sp_inner s = (tr, i)" by fastforce
  have b: "b \<longleftrightarrow> fed_by_untrusted tr t"
    using any_tainted_Some [OF Some] inv tr by (auto simp: gated_inv_def calls_def fed_by_untrusted_def)
  obtain v c where g: "decide_gate app (look i) (safe_request approved granted n t b) (sp_audit s) = (v, c)" by fastforce
  obtain r i' where r: "run n t inp ses i = (r, i')" by fastforce
  show ?thesis
  proof (cases "vd_action v = SAFE")
    case True
    then have "admissible look approved granted tr n t i"
      using safe_gate_admissible [of app look i approved granted n t b "sp_audit s" tr] g b by simp
    then show ?thesis
      using inv Some g r tr b True
      by (auto simp: safe_run_def logged_def gated_inv_def calls_def all_admissible_snoc influenced_snoc
          split: tool_outcome.splits)
  next
    case False
    then show ?thesis using inv Some g tr by (simp add: safe_run_def gated_inv_def calls_def)
  qed
qed (use inv in \<open>simp add: safe_run_def\<close>)

interpretation gated: provider_invariant "safe_run app (look \<circ> snd) approved granted (logged run)" "through save"
    "gated_inv look approved granted" for app look approved granted run save
proof unfold_locales
  show "gated_inv look approved granted (snd (safe_run app (look \<circ> snd) approved granted (logged run) n t inp ses s))"
    if "gated_inv look approved granted s" for n t inp ses s
    using that by (rule safe_run_keeps)
  show "gated_inv look approved granted (through save t r st s)" if "gated_inv look approved granted s" for t r st s
    using that by (simp add: gated_inv_def through_def calls_def)
qed

lemma start_inv: "gated_inv look approved granted (start_state c s)"
  by (simp add: gated_inv_def start_state_def calls_def influenced_Nil all_admissible.simps)

section \<open>Properties\<close>

text \<open>C14: Whatever graph the agent runs, every tool call that gets past the gate is of a registered capability below
  the review tier that was granted and not stopped by the kill switch at that moment; and a write whose declared inputs
  derive from untrusted content, through any number of tasks, is only made when it was approved in advance.\<close>

theorem gated_calls_are_admissible:
  assumes "execute_graph (safe_run app (look \<circ> snd) approved granted (logged run)) verify (through save) ses g (start_state c s) = (rep, s')"
    and "calls s' = xs @ (n, t, i, r) # ys"
  shows "admissible look approved granted xs n t i"
proof -
  have "gated_inv look approved granted
      (snd (execute_graph (safe_run app (look \<circ> snd) approved granted (logged run)) verify (through save) ses g (start_state c s)))"
    by (rule gated.execute_keeps [OF start_inv])
  with assms show ?thesis by (simp add: gated_inv_def all_admissible.simps)
qed

definition research_task :: task where
  "research_task = (plain_task ''a'' None)\<lparr>tk_tools := [''search_query'']\<rparr>"

definition note_task :: task where
  "note_task = (plain_task ''b'' (Some ''a''))\<lparr>tk_tools := [''vault_write''], tk_inputs := [JObj [(KStr ''from'', JStr ''a'')]]\<rparr>"

definition note_graph :: task_graph where
  "note_graph = \<lparr>tg_goal = ''g'', tg_tasks = [research_task, note_task], tg_source = ''template''\<rparr>"

definition yes_provider :: "unit provider" where
  "yes_provider = (\<lambda>n t inp ses s. (Returned (JStr ''x''), s))"

definition note_run :: "string list \<Rightarrow> (string, exec_report) result \<times> (unit, unit call list \<times> unit) safe_state" where
  "note_run approved = execute_graph (safe_run (\<lambda>c k e p. (Some 1, c)) ((\<lambda>_. None) \<circ> snd) approved None (logged yes_provider))
     (\<lambda>t out. Inr (make_receipt True [] [])) (through (\<lambda>t r st s. s)) ''s'' note_graph (start_state () ())"

lemma note_calls: "calls (snd (note_run [''write_file''])) =
    [(''search_query'', research_task, (), Returned (JStr ''x''))] @ (''vault_write'', note_task, (), Returned (JStr ''x'')) # []"
  by code_simp

theorem gated_calls_are_admissible_witness:
  "admissible (\<lambda>_. None) [''write_file''] None [(''search_query'', research_task, (), Returned (JStr ''x''))] ''vault_write'' note_task ()"
  by (rule gated_calls_are_admissible [OF surjective_pairing, OF note_calls [unfolded note_run_def]])

lemma note_blocked: "fst (note_run []) = Inr (projr (fst (note_run []))) \<and> \<not> er_ok (projr (fst (note_run []))) \<and>
    calls (snd (note_run [])) = [(''search_query'', research_task, (), Returned (JStr ''x''))]"
  by code_simp

text \<open>Taint does not reach across the tools of one task: a task without declared inputs may call a tool that
  returns untrusted content and then, in the same task and without approval, write.\<close>

theorem same_task_taint_is_not_tracked:
  assumes "declared_inputs t = []" "look (sp_inner s) = None" "granted = None"
  shows "fst (safe_run app look [] granted run ''vault_write'' t inp ses s) = fst (run ''vault_write'' t inp ses (sp_inner s))"
proof -
  have cap: "capability_for ''vault_write'' t = ''write_file''"
    by (simp add: capability_for_def TOOL_CAPABILITY_def)
  have reg: "is_registered ''write_file''" "tier_of ''write_file'' < REVIEW_TIER" by code_simp+
  have "vd_action (fst (decide_gate app (look (sp_inner s)) (safe_request [] granted ''vault_write'' t False) (sp_audit s))) = SAFE"
    using assms(2,3) reg by (simp add: gate_safe_iff safe_request_def cap switch_refusal_def)
  then show ?thesis
    by (simp add: safe_run_def assms(1) Let_def split_def)
qed

definition tainted_state :: "(unit, unit) safe_state" where
  "tainted_state = \<lparr>sp_tainted = [''a''], sp_audit = (), sp_inner = ()\<rparr>"

theorem same_task_taint_is_not_tracked_witness:
  "is_task_tainted tainted_state (tk_id research_task) \<and>
   fst (safe_run (\<lambda>c k e p. (Some 1, c)) (\<lambda>_. None) [] None yes_provider ''vault_write'' research_task [] ''s'' tainted_state) =
     Returned (JStr ''x'')"
proof
  show "is_task_tainted tainted_state (tk_id research_task)"
    by (simp add: is_task_tainted_def tainted_state_def research_task_def plain_task_def)
  have "declared_inputs research_task = []"
    by (simp add: declared_inputs_def research_task_def plain_task_def)
  from same_task_taint_is_not_tracked [OF this, of "\<lambda>_. None" tainted_state None "\<lambda>c k e p. (Some 1, c)" yes_provider "[]" "''s''"]
  show "fst (safe_run (\<lambda>c k e p. (Some 1, c)) (\<lambda>_. None) [] None yes_provider ''vault_write'' research_task [] ''s'' tainted_state) =
     Returned (JStr ''x'')"
    by (simp add: yes_provider_def)
qed

text \<open>Stopping an agent or a tenant does not stop its tools: the wrapper passes neither identity to the gate,
  so arming such a scope never changes what the kill switch answers it.\<close>

theorem agent_scopes_do_not_reach_the_wrapper:
  assumes "ty = ''agent'' \<or> ty = ''tenant''" "i \<noteq> []" "\<not> is_armed io_ok d"
  shows "switch_refusal (Some (io_ok, fst (snd (arm_scope app io_ok ty i u r w (d, c))))) (safe_request approved granted n t b) =
    switch_refusal (Some (io_ok, d)) (safe_request approved granted n t b)"
proof -
  let ?d = "fst (snd (arm_scope app io_ok ty i u r w (d, c)))"
  have ty: "ty \<in> set SCOPE_TYPES" "ty \<noteq> ''tool''" using assms(1) by (auto simp: SCOPE_TYPES_def)
  have sc: "scope_armed k ?d \<longleftrightarrow> k = (ty, i) \<or> scope_armed k d" for k
    using kill_brake.arm_scope_sets [of ty i u r w "(d, c)" k app] assms(2) ty(1) by simp
  moreover have "is_armed io_ok ?d = is_armed io_ok d"
    using kill_brake.scope_global(1) [of app ty i u r w "(d, c)"] by simp
  ultimately show ?thesis
    using ty(2) by (auto simp: switch_refusal_def safe_request_def is_blocked_ok)
qed

theorem agent_scopes_do_not_reach_the_wrapper_witness:
  "switch_refusal (Some (io_ok, fst (snd (arm_scope (\<lambda>c k e p. (Some 1, c)) io_ok ''agent'' ''a7'' ''op'' ''r'' ''t''
      (armed_db\<lparr>ks_row := Some unarmed_row\<rparr>, ()))))) (safe_request [] None ''chat'' note_task False) =
    switch_refusal (Some (io_ok, armed_db\<lparr>ks_row := Some unarmed_row\<rparr>)) (safe_request [] None ''chat'' note_task False)"
  by (rule agent_scopes_do_not_reach_the_wrapper)
    (simp_all add: armed_db_def is_armed_def kill_state_def io_ok_def unarmed_row_def)

end
