(* ===== verification/Gov_Registry.thy ===== *)
theory Gov_Registry
  imports Agent_Gate
begin

text \<open>
  The capability inventory (\<^verbatim>\<open>governance/capability_registry.py\<close>), the tool
  manifests (\<^verbatim>\<open>governance/tool_manifest.py\<close>) and the deterministic resolver over
  both (\<^verbatim>\<open>governance/capability_resolver.py\<close>). The registries are dictionaries
  seeded from the gate's tables; dashes in descriptions are written as hyphens.
\<close>

section \<open>Capabilities\<close>

record capability =
  cp_id :: string
  cp_domain :: string
  cp_tier :: int
  cp_side_effect :: string
  cp_reversibility :: string
  cp_approval_required :: bool
  cp_taint_policy :: string
  cp_enabled :: bool
  cp_description :: string
  cp_version :: int

definition capability_as_dict :: "capability \<Rightarrow> json" where
  "capability_as_dict c = obj
     [(''capability_id'', JStr (cp_id c)), (''domain'', JStr (cp_domain c)), (''tier'', JInt (cp_tier c)),
      (''side_effect_class'', JStr (cp_side_effect c)), (''reversibility'', JStr (cp_reversibility c)),
      (''approval_required'', JBool (cp_approval_required c)), (''taint_policy'', JStr (cp_taint_policy c)),
      (''enabled'', JBool (cp_enabled c)), (''description'', JStr (cp_description c)), (''version'', JInt (cp_version c))]"

definition DOMAINS :: "string list" where
  "DOMAINS = [''vault'', ''llm_synthesis'', ''web_search'', ''file'', ''deletion'', ''communication'', ''financial'', ''permissions'']"

definition describe_from_tier :: "string \<Rightarrow> int \<Rightarrow> string \<times> string \<times> string \<times> bool \<times> string \<times> string" where
  \<comment> \<open>domain, side effect, reversibility, approval, taint policy, description\<close>
  "describe_from_tier i tier =
     (if i \<in> set [''read_vault'', ''vault_read'']
        then (''vault'', ''read_only'', ''reversible'', False, ''review'', ''read from the vault / retrieval surface'')
      else if i \<in> set [''llm_synthesis'', ''chat'']
        then (''llm_synthesis'', ''read_only'', ''reversible'', False, ''review'',
              ''synthesize text / run model-backed reasoning (no durable side effect)'')
      else if i \<in> set [''web_search'', ''search_query'']
        then (''web_search'', ''read_only'', ''reversible'', False, ''review'', ''search external / retrieval sources'')
      else if i = ''write_file''
        then (''file'', ''local_side_effect'', ''less_recoverable'', False, ''review'', ''write a local file artifact'')
      else if i = ''vault_delete''
        then (''deletion'', ''local_side_effect'', ''irreversible'', True, ''review'', ''delete vaulted content'')
      else if i = ''send_message''
        then (''communication'', ''external_side_effect'', ''less_recoverable'', True, ''review'',
              ''send a message / outbound communication'')
      else if i = ''financial''
        then (''financial'', ''external_side_effect'', ''irreversible'', True, ''review'',
              ''financial capability - consequential, requires explicit authority'')
      else if i = ''permissions''
        then (''permissions'', ''external_side_effect'', ''irreversible'', True, ''review'',
              ''permissions capability - consequential, requires explicit authority'')
      else (''unknown'', ''local_side_effect'', ''less_recoverable'', True, ''review'',
            ''registered capability '' @ repr_str i @ '' with insufficient description''))"

definition from_tier_table :: "string \<Rightarrow> int \<Rightarrow> capability" where
  "from_tier_table i tier =
     (case describe_from_tier i tier of (dm, se, rv, approval, taint, descr) \<Rightarrow>
        \<lparr>cp_id = i, cp_domain = dm, cp_tier = tier, cp_side_effect = se, cp_reversibility = rv,
         cp_approval_required = approval, cp_taint_policy = taint, cp_enabled = True, cp_description = descr, cp_version = 1\<rparr>)"

type_synonym capability_registry = "(string \<times> capability) list"

definition put_capability :: "capability \<Rightarrow> capability_registry \<Rightarrow> capability_registry" where
  "put_capability c r = AList.update (cp_id c) c r"

definition seed_capabilities :: capability_registry where
  "seed_capabilities = fold (\<lambda>(i, tier). put_capability (from_tier_table i tier)) RISK_TIERS []"

definition resolve_capability :: "capability_registry \<Rightarrow> string \<Rightarrow> capability option" where
  "resolve_capability r i = map_of r i"

definition capability_known :: "capability_registry \<Rightarrow> string \<Rightarrow> bool" where
  "capability_known r i = (i \<in> fst ` set r)"

definition all_capabilities :: "capability_registry \<Rightarrow> capability list" where
  "all_capabilities r = map snd r"

definition capability_ids :: "capability_registry \<Rightarrow> string list" where
  "capability_ids r = map fst r"

definition registry_matches :: "capability_registry \<Rightarrow> bool" where
  "registry_matches r = (set (map fst RISK_TIERS) = set (capability_ids r))"

section \<open>Tool manifests\<close>

record tool_manifest =
  tm_id :: string
  tm_capabilities :: "string list"
  tm_maximum_tier :: int
  tm_approval_required :: bool
  tm_taint_policy :: string
  tm_side_effects :: "string list"
  tm_enabled :: bool
  tm_version :: int

definition manifest_as_dict :: "tool_manifest \<Rightarrow> json" where
  "manifest_as_dict m = obj
     [(''tool_id'', JStr (tm_id m)), (''capabilities'', str_list (tm_capabilities m)),
      (''maximum_tier'', JInt (tm_maximum_tier m)), (''approval_required'', JBool (tm_approval_required m)),
      (''taint_policy'', JStr (tm_taint_policy m)), (''side_effects'', str_list (tm_side_effects m)),
      (''enabled'', JBool (tm_enabled m)), (''version'', JInt (tm_version m))]"

definition may_exercise :: "tool_manifest \<Rightarrow> string \<Rightarrow> bool" where
  "may_exercise m c = (c \<in> set (tm_capabilities m))"

definition may_exercise_any :: "tool_manifest \<Rightarrow> bool" where
  "may_exercise_any m = (tm_capabilities m \<noteq> [])"

type_synonym manifest_registry = "(string \<times> tool_manifest) list"

definition side_effect_for :: "capability option \<Rightarrow> string" where
  "side_effect_for c = (case c of None \<Rightarrow> ''unknown'' | Some x \<Rightarrow> cp_side_effect x)"

definition seed_manifest :: "capability_registry \<Rightarrow> string \<Rightarrow> string \<Rightarrow> tool_manifest" where
  "seed_manifest r tool c =
     (let cap = resolve_capability r c
      in \<lparr>tm_id = tool, tm_capabilities = [c], tm_maximum_tier = (case cap of None \<Rightarrow> 1 | Some x \<Rightarrow> cp_tier x),
          tm_approval_required = (case cap of None \<Rightarrow> False | Some x \<Rightarrow> 3 \<le> cp_tier x),
          tm_taint_policy = ''review'', tm_side_effects = [side_effect_for cap], tm_enabled = True, tm_version = 1\<rparr>)"

definition seed_manifests :: "capability_registry \<Rightarrow> manifest_registry" where
  "seed_manifests r = fold (\<lambda>(tool, c). AList.update tool (seed_manifest r tool c)) TOOL_CAPABILITY []"

definition lookup_manifest :: "manifest_registry \<Rightarrow> string \<Rightarrow> tool_manifest option" where
  "lookup_manifest ms tool = map_of ms tool"

definition tool_may_exercise :: "manifest_registry \<Rightarrow> string \<Rightarrow> string \<Rightarrow> bool" where
  "tool_may_exercise ms tool c = (case lookup_manifest ms tool of None \<Rightarrow> False | Some m \<Rightarrow> may_exercise m c)"

definition manifests_match :: "manifest_registry \<Rightarrow> bool" where
  "manifests_match ms = (set (map fst TOOL_CAPABILITY) = set (map fst ms))"

section \<open>The resolver\<close>

datatype resolution_method = TOOL_MANIFEST | CAPABILITY_NAME | INTENT_TEMPLATE | NONE

record resolution =
  rs_capability :: "string option"
  rs_method :: resolution_method
  rs_confidence :: rat
  rs_alternatives :: "string list"
  rs_ambiguous :: bool
  rs_tier :: "int option"
  rs_reason :: string
  rs_evidence :: "string list"

definition INTENT_TEMPLATES :: "(string list \<times> string \<times> string) list" where
  "INTENT_TEMPLATES =
     [([''search the vault''], ''read_vault'', ''request explicitly asks to search the vault''),
      ([''read the vault''], ''read_vault'', ''request explicitly asks to read the vault''),
      ([''summarize'', ''synthesize'', ''write a brief'', ''write a note''], ''llm_synthesis'',
         ''request asks for synthesis / drafting''),
      ([''search the web'', ''web search'', ''look up online''], ''web_search'', ''request asks for web search''),
      ([''write a file'', ''write the file'', ''create a file''], ''write_file'', ''request asks to write a local file''),
      ([''delete'', ''remove'', ''wipe'', ''destroy'', ''nuke''], ''vault_delete'',
         ''request asks for deletion / destruction of content''),
      ([''send'', ''message'', ''notify'', ''email''], ''send_message'',
         ''request asks to send a message / outbound communication''),
      ([''financial'', ''payment'', ''transfer'', ''purchase''], ''financial'', ''request asks for a financial capability''),
      ([''permission'', ''access'', ''grant'', ''revoke''], ''permissions'', ''request asks for a permissions capability'')]"

definition match_template :: "string \<Rightarrow> (string \<times> string) option" where
  "match_template request =
     map_option snd (find (\<lambda>(probes, _). list_ex (\<lambda>p. contains p (py_lower request)) probes) INTENT_TEMPLATES)"

definition named_capability :: "capability_registry \<Rightarrow> string \<Rightarrow> string option" where
  "named_capability r request = find (\<lambda>i. contains i (py_lower request)) (capability_ids r)"

definition from_manifest :: "capability_registry \<Rightarrow> manifest_registry \<Rightarrow> string option \<Rightarrow> (string \<times> string \<times> capability) option" where
  \<comment> \<open>the tool, its first declared capability and its registry entry, when all exist\<close>
  "from_manifest r ms tool =
     (case tool of None \<Rightarrow> None
      | Some tn \<Rightarrow> (case lookup_manifest ms tn of None \<Rightarrow> None
          | Some m \<Rightarrow> (case tm_capabilities m of [] \<Rightarrow> None
              | c # _ \<Rightarrow> (case resolve_capability r c of None \<Rightarrow> None | Some x \<Rightarrow> Some (tn, c, x)))))"

definition manifest_evidence :: "manifest_registry \<Rightarrow> string option \<Rightarrow> string list" where
  "manifest_evidence ms tool =
     (case tool of None \<Rightarrow> []
      | Some tn \<Rightarrow> (case lookup_manifest ms tn of None \<Rightarrow> []
          | Some m \<Rightarrow> if may_exercise_any m then [''tool manifest for '' @ repr_str tn] else []))"

definition resolve :: "capability_registry \<Rightarrow> manifest_registry \<Rightarrow> string \<Rightarrow> string option \<Rightarrow> resolution" where
  "resolve r ms request tool =
     (let ev = manifest_evidence ms tool
      in case from_manifest r ms tool of
           Some (tn, c, x) \<Rightarrow>
             \<lparr>rs_capability = Some c, rs_method = TOOL_MANIFEST, rs_confidence = 1, rs_alternatives = [],
              rs_ambiguous = False, rs_tier = Some (cp_tier x),
              rs_reason = ''tool '' @ repr_str tn @ '' declares capability '' @ repr_str c, rs_evidence = ev\<rparr>
         | None \<Rightarrow>
             (let named = named_capability r request;
                  alts = (case named of Some n \<Rightarrow> (case resolve_capability r n of None \<Rightarrow> [n] | Some _ \<Rightarrow> []) | None \<Rightarrow> [])
              in case Option.bind named (resolve_capability r) of
                   Some x \<Rightarrow>
                     \<lparr>rs_capability = Some (cp_id x), rs_method = CAPABILITY_NAME, rs_confidence = 1, rs_alternatives = [],
                      rs_ambiguous = False, rs_tier = Some (cp_tier x),
                      rs_reason = ''request names registered capability '' @ repr_str (the named),
                      rs_evidence = ev @ [''capability name '' @ repr_str (the named) @ '' in registry'']\<rparr>
                 | None \<Rightarrow>
                     (case match_template request of
                        Some (c, why) \<Rightarrow>
                          \<lparr>rs_capability = Some c, rs_method = INTENT_TEMPLATE, rs_confidence = 1, rs_alternatives = alts,
                           rs_ambiguous = False, rs_tier = map_option cp_tier (resolve_capability r c),
                           rs_reason = why, rs_evidence = ev @ [''intent template matched: '' @ why]\<rparr>
                      | None \<Rightarrow>
                          \<lparr>rs_capability = None, rs_method = NONE, rs_confidence = 0, rs_alternatives = alts,
                           rs_ambiguous = True, rs_tier = None, rs_reason = ''no registered capability resolved this request'',
                           rs_evidence = ev @ [''no registered source resolved the request'']\<rparr>)))"

definition default_resolver :: "string \<Rightarrow> string option \<Rightarrow> resolution" where
  "default_resolver = resolve seed_capabilities (seed_manifests seed_capabilities)"

section \<open>Laws\<close>

lemma seed_capabilities_map: "seed_capabilities = map (\<lambda>(i, tier). (i, from_tier_table i tier)) RISK_TIERS"
  by code_simp

lemma from_tier_table_fields: "cp_id (from_tier_table i tier) = i" "cp_tier (from_tier_table i tier) = tier"
  by (simp_all add: from_tier_table_def split: prod.splits)

lemma map_of_entries: "map_of (map (\<lambda>(i, x). (i, f i x)) xs) k = map_option (f k) (map_of xs k)"
  by (induction xs) auto

lemma resolve_seeded:
  "resolve_capability seed_capabilities c = (if is_registered c then Some (from_tier_table c (tier_of c)) else None)"
proof -
  have "resolve_capability seed_capabilities c = map_option (from_tier_table c) (map_of RISK_TIERS c)"
    unfolding resolve_capability_def seed_capabilities_map by (rule map_of_entries)
  moreover have "is_registered c \<longleftrightarrow> map_of RISK_TIERS c \<noteq> None"
    by (simp add: is_registered_def map_of_eq_None_iff)
  ultimately show ?thesis by (auto simp: tier_of_def)
qed

lemma templates_registered: "\<forall>(ps, c, why) \<in> set INTENT_TEMPLATES. is_registered c"
  by code_simp

lemma match_template_registered: "match_template request = Some (c, why) \<Longrightarrow> is_registered c"
  using templates_registered by (auto simp: match_template_def find_Some_iff) (metis case_prodD nth_mem)

lemma approval_from_review_tier: "\<forall>(i, tier) \<in> set RISK_TIERS. cp_approval_required (from_tier_table i tier) \<longleftrightarrow> REVIEW_TIER \<le> tier"
  by code_simp

section \<open>Properties\<close>

text \<open>Inventory and gate agree: a capability is in the seeded registry exactly when the gate knows it, with the
  gate's tier, and the registry asks for approval exactly from the tier at which the gate reviews.\<close>

theorem registry_agrees_with_the_gate:
  "(case resolve_capability seed_capabilities c of
      None \<Rightarrow> \<not> is_registered c
    | Some x \<Rightarrow> is_registered c \<and> cp_id x = c \<and> cp_tier x = tier_of c \<and>
        (cp_approval_required x \<longleftrightarrow> vd_action (fst (decide_gate app None
           \<lparr>gr_capability = c, gr_tainted = False, gr_approved = None, gr_granted = None, gr_agent = None, gr_tenant = None\<rparr> s)) \<noteq> SAFE))"
proof (cases "is_registered c")
  case True
  then have "(c, tier_of c) \<in> set RISK_TIERS"
    by (auto simp: tier_of_def is_registered_def intro: map_of_SomeD) (metis map_of_eq_None_iff not_None_eq option.sel map_of_SomeD image_eqI fst_conv)
  then have "cp_approval_required (from_tier_table c (tier_of c)) \<longleftrightarrow> REVIEW_TIER \<le> tier_of c"
    using approval_from_review_tier by blast
  with True show ?thesis
    by (auto simp: resolve_seeded from_tier_table_fields gate_safe_iff switch_refusal_def)
qed (simp add: resolve_seeded)

text \<open>Resolution never invents a capability: what the default resolver proposes is registered, with the gate's
  tier and full confidence, and when it proposes nothing it says so with confidence 0 and no tier.\<close>

theorem resolutions_are_registered:
  "case rs_capability (default_resolver request tool) of
     None \<Rightarrow> rs_method (default_resolver request tool) = NONE \<and> rs_tier (default_resolver request tool) = None \<and>
       rs_confidence (default_resolver request tool) = 0 \<and> match_template request = None
   | Some c \<Rightarrow> is_registered c \<and> rs_tier (default_resolver request tool) = Some (tier_of c) \<and>
       rs_confidence (default_resolver request tool) = 1"
proof -
  let ?r = "seed_capabilities"
  have m: "is_registered c \<and> cp_tier x = tier_of c" if "from_manifest ?r ms tool = Some (tn, c, x)" for ms tn c x
    using that by (auto simp: from_manifest_def resolve_seeded from_tier_table_fields split: option.splits list.splits if_splits)
  have n: "is_registered (cp_id x) \<and> cp_tier x = tier_of (cp_id x)" if "resolve_capability ?r k = Some x" for k x
    using that by (auto simp: resolve_seeded from_tier_table_fields split: if_splits)
  have t: "map_option cp_tier (resolve_capability ?r c) = Some (tier_of c) \<and> is_registered c" if "match_template request = Some (c, why)" for c why
    using match_template_registered [OF that] by (simp add: resolve_seeded from_tier_table_fields)
  show ?thesis
    unfolding default_resolver_def resolve_def Let_def
    by (cases "from_manifest ?r (seed_manifests ?r) tool"; cases "Option.bind (named_capability ?r request) (resolve_capability ?r)";
        cases "match_template request")
      (auto dest: m n t simp: bind_eq_Some_conv)
qed

text \<open>A mentioned name outranks the stated intent: a request to delete that names the synthesis capability
  resolves to synthesis, tier 1, although its intent template is deletion, tier 3.\<close>

theorem named_capability_outranks_intent:
  "rs_capability (default_resolver ''delete all llm_synthesis notes'' None) = Some ''llm_synthesis'' \<and>
   rs_tier (default_resolver ''delete all llm_synthesis notes'' None) = Some 1 \<and>
   map_option fst (match_template ''delete all llm_synthesis notes'') = Some ''vault_delete'' \<and> tier_of ''vault_delete'' = 3"
  by code_simp

end
