(* ===== verification/Gov_Decision.thy ===== *)
theory Gov_Decision
  imports Gov_Registry
begin

text \<open>
  The canonical decision object (\<^verbatim>\<open>governance/decision.py\<close>) with the checks of its
  constructor, and the shadow recorder (\<^verbatim>\<open>governance/shadow.py\<close>), which runs the
  gate on a raw request beside the resolver and compares the two. The recorder appends to a list
  of records; clock readings are arguments.
\<close>

section \<open>Vocabulary\<close>

definition DECISIONS :: "string list" where
  "DECISIONS = [''ALLOW'', ''REVIEW'', ''BLOCK'', ''UNKNOWN'']"

definition TAINT_STATES :: "string list" where
  "TAINT_STATES = [''clean'', ''tainted'']"

definition APPROVAL_STATES :: "string list" where
  "APPROVAL_STATES = [''not_required'', ''required_not_satisfied'', ''required_satisfied'']"

definition CONFLICT_STATES :: "string list" where
  "CONFLICT_STATES = [''none'', ''rag_conflict'', ''policy_conflict'', ''memory_conflict'', ''capability_ambiguity'']"

definition METHODS :: "string list" where
  "METHODS = [''tool_manifest'', ''capability_name'', ''intent_template'', ''none'']"

fun method_name :: "resolution_method \<Rightarrow> string" where
  "method_name TOOL_MANIFEST = ''tool_manifest''"
| "method_name CAPABILITY_NAME = ''capability_name''"
| "method_name INTENT_TEMPLATE = ''intent_template''"
| "method_name NONE = ''none''"

section \<open>The decision object\<close>

record governance_decision =
  gd_decision :: string
  gd_capability :: "string option"
  gd_tier :: "int option"
  gd_method :: "string option"
  gd_confidence :: rat
  gd_taint :: string
  gd_authority :: "string option"
  gd_approval :: string
  gd_policy :: "string option"
  gd_reason :: string
  gd_evidence :: "string list"
  gd_alternatives :: "string list"
  gd_conflicts :: "string list"
  gd_verification_required :: bool

datatype decision_error = Invalid_Decision string | Invalid_Taint string | Invalid_Approval string | Invalid_Conflict string

definition make_decision :: "governance_decision \<Rightarrow> (decision_error, governance_decision) result" where
  \<comment> \<open>the dataclass with its \<^verbatim>\<open>__post_init__\<close>\<close>
  "make_decision d =
     guard_result (gd_decision d \<in> set DECISIONS) (Invalid_Decision (gd_decision d))
       (guard_result (gd_taint d \<in> set TAINT_STATES) (Invalid_Taint (gd_taint d))
         (guard_result (gd_approval d \<in> set APPROVAL_STATES) (Invalid_Approval (gd_approval d))
           (case find (\<lambda>c. c \<notin> set CONFLICT_STATES) (gd_conflicts d) of
              Some c \<Rightarrow> Inl (Invalid_Conflict c)
            | None \<Rightarrow> Inr d)))"

definition is_known_decision :: "governance_decision \<Rightarrow> bool" where
  "is_known_decision d = (gd_decision d \<in> set DECISIONS)"

definition is_allow :: "governance_decision \<Rightarrow> bool" where
  "is_allow d = (gd_decision d = ''ALLOW'')"

definition is_review :: "governance_decision \<Rightarrow> bool" where
  "is_review d = (gd_decision d = ''REVIEW'')"

definition is_block :: "governance_decision \<Rightarrow> bool" where
  "is_block d = (gd_decision d = ''BLOCK'')"

definition is_unknown :: "governance_decision \<Rightarrow> bool" where
  "is_unknown d = (gd_decision d = ''UNKNOWN'')"

definition is_executable :: "governance_decision \<Rightarrow> bool" where
  "is_executable d = (gd_decision d = ''ALLOW'')"

definition repr_opt :: "string option \<Rightarrow> string" where
  "repr_opt x = (case x of None \<Rightarrow> ''None'' | Some s \<Rightarrow> repr_str s)"

definition default_reason :: "string \<Rightarrow> resolution \<Rightarrow> string" where
  "default_reason decision r =
     (let res = ''resolved '' @ repr_opt (rs_capability r) @ '' via '' @ repr_str (method_name (rs_method r))
      in if decision = ''ALLOW'' then res
         else if decision = ''REVIEW'' then res @ ''; review required''
         else if decision = ''BLOCK'' then res @ ''; blocked''
         else ''no registered capability resolved this request (method='' @ repr_str (method_name (rs_method r)) @ '')'')"

definition from_resolution :: "resolution \<Rightarrow> string \<Rightarrow> string \<Rightarrow> string \<Rightarrow> string option \<Rightarrow> string option \<Rightarrow> string option \<Rightarrow>
    string list \<Rightarrow> (decision_error, governance_decision) result" where
  "from_resolution r decision taint approval reason authority policy conflicts =
     make_decision \<lparr>gd_decision = decision, gd_capability = rs_capability r, gd_tier = rs_tier r,
       gd_method = Some (method_name (rs_method r)), gd_confidence = rs_confidence r, gd_taint = taint,
       gd_authority = authority, gd_approval = approval, gd_policy = policy,
       gd_reason = (case reason of None \<Rightarrow> default_reason decision r | Some x \<Rightarrow> x),
       gd_evidence = rs_evidence r, gd_alternatives = rs_alternatives r, gd_conflicts = conflicts,
       gd_verification_required = True\<rparr>"

definition unknown_decision :: "string option \<Rightarrow> int option \<Rightarrow> string option \<Rightarrow> string option \<Rightarrow> string list \<Rightarrow> string list \<Rightarrow>
    (decision_error, governance_decision) result" where
  "unknown_decision cap tier meth reason ev alts =
     make_decision \<lparr>gd_decision = ''UNKNOWN'', gd_capability = cap, gd_tier = tier, gd_method = meth, gd_confidence = 0,
       gd_taint = ''clean'', gd_authority = None, gd_approval = ''not_required'', gd_policy = None,
       gd_reason = (case reason of None \<Rightarrow> ''no registered capability resolved this request'' | Some x \<Rightarrow> x),
       gd_evidence = ev, gd_alternatives = alts, gd_conflicts = [], gd_verification_required = True\<rparr>"

section \<open>Shadow records\<close>

record shadow_record =
  sh_request_id :: string
  sh_request :: string
  sh_ts :: rat
  sh_tool :: "string option"
  sh_taint :: string
  sh_old_action :: string
  sh_old_tier :: int
  sh_old_reason :: string
  sh_old_allowed :: bool
  sh_new_decision :: string
  sh_new_capability :: "string option"
  sh_new_tier :: "int option"
  sh_new_method :: "string option"
  sh_new_confidence :: rat
  sh_new_reason :: string
  sh_new_evidence :: "string list"
  sh_new_alternatives :: "string list"
  sh_disagreement :: bool
  sh_class :: string
  sh_notes :: string

definition classify_disagreement :: "bool \<Rightarrow> string \<Rightarrow> string \<Rightarrow> string" where
  \<comment> \<open>of the record's flag, the gate's action and the resolver's decision\<close>
  "classify_disagreement differ old new =
     (if \<not> differ then ''agree''
      else if old = ''SAFE'' \<and> new \<noteq> ''ALLOW''
        then (if new = ''UNKNOWN'' then ''OLD_SAFE_NEW_UNKNOWN'' else ''OLD_SAFE_NEW_NOT_SAFE'')
      else if old = ''BLOCK'' \<and> new \<noteq> ''BLOCK'' then ''OLD_BLOCK_NEW_NOT_BLOCK''
      else if old = ''REVIEW'' \<and> new \<noteq> ''REVIEW'' then ''OLD_REVIEW_NEW_NOT_REVIEW''
      else if new = ''UNKNOWN'' then ''OLD_NOT_UNKNOWN_NEW_UNKNOWN''
      else if new = ''BLOCK'' \<and> old \<noteq> ''BLOCK'' then ''OLD_NOT_BLOCK_NEW_BLOCK''
      else if new = ''REVIEW'' \<and> old \<noteq> ''REVIEW'' then ''OLD_NOT_REVIEW_NEW_REVIEW''
      else ''OTHER_DIFFERENCE'')"

definition decision_for_resolution :: "resolution \<Rightarrow> string \<Rightarrow> string" where
  "decision_for_resolution r taint =
     (case rs_capability r of
        None \<Rightarrow> if taint = ''tainted'' then ''REVIEW'' else ''BLOCK''
      | Some _ \<Rightarrow> (case rs_tier r of
          None \<Rightarrow> ''UNKNOWN''
        | Some tier \<Rightarrow> if 4 \<le> tier then ''BLOCK'' else if 3 \<le> tier then ''REVIEW'' else ''ALLOW''))"

definition or_minus_one :: "int option \<Rightarrow> int" where
  \<comment> \<open>\<^verbatim>\<open>tier or -1\<close>\<close>
  "or_minus_one x = (case x of None \<Rightarrow> -1 | Some n \<Rightarrow> if n = 0 then -1 else n)"

definition show_opt_int :: "int option \<Rightarrow> string" where
  "show_opt_int x = (case x of None \<Rightarrow> ''None'' | Some n \<Rightarrow> show_int n)"

definition comparison_notes :: "shadow_record \<Rightarrow> string \<Rightarrow> int option \<Rightarrow> string" where
  "comparison_notes old new new_tier =
     (let parts =
        (if sh_old_action old \<noteq> new then [''old='' @ sh_old_action old @ '' new='' @ new] else []) @
        (if sh_old_tier old \<noteq> or_minus_one new_tier
         then [''old_tier='' @ show_int (sh_old_tier old) @ '' new_tier='' @ show_opt_int new_tier] else []) @
        (if sh_disagreement old then [''class='' @ sh_class old] else [])
      in join_with ''; '' (if parts = [] then [''agree''] else parts))"

definition compare_record :: "shadow_record \<Rightarrow> shadow_record" where
  \<comment> \<open>the comparison, once both halves are on the record\<close>
  "compare_record old =
     (let new = sh_new_decision old;
          o1 = old\<lparr>sh_disagreement := (sh_old_action old \<noteq> new \<or> sh_old_tier old \<noteq> or_minus_one (sh_new_tier old))\<rparr>;
          o2 = o1\<lparr>sh_class := (if sh_disagreement o1 then classify_disagreement (sh_disagreement o1) (sh_old_action o1) new else sh_class o1)\<rparr>
      in o2\<lparr>sh_notes := comparison_notes o2 new (sh_new_tier old)\<rparr>)"

definition observed :: "string \<Rightarrow> string \<Rightarrow> string option \<Rightarrow> string \<Rightarrow> rat \<Rightarrow> gate_verdict \<Rightarrow> resolution \<Rightarrow> shadow_record" where
  "observed rid request tool taint ts v r =
     \<lparr>sh_request_id = rid, sh_request = request, sh_ts = ts, sh_tool = tool, sh_taint = taint,
      sh_old_action = gate_action_name (vd_action v), sh_old_tier = vd_tier v, sh_old_reason = vd_reason v,
      sh_old_allowed = vd_allowed v,
      sh_new_decision = (if rs_capability r = None then ''UNKNOWN'' else decision_for_resolution r taint),
      sh_new_capability = rs_capability r, sh_new_tier = rs_tier r, sh_new_method = Some (method_name (rs_method r)),
      sh_new_confidence = rs_confidence r, sh_new_reason = rs_reason r, sh_new_evidence = rs_evidence r,
      sh_new_alternatives = rs_alternatives r, sh_disagreement = False, sh_class = ''pending'', sh_notes = []\<rparr>"

definition shadow_record_of :: "'c appender \<Rightarrow> (string \<Rightarrow> string option \<Rightarrow> resolution) \<Rightarrow> string \<Rightarrow> string \<Rightarrow> string option \<Rightarrow> string \<Rightarrow>
    rat \<Rightarrow> shadow_record list \<times> 'c \<Rightarrow> shadow_record \<times> shadow_record list \<times> 'c" where
  \<comment> \<open>\<^verbatim>\<open>record\<close>: the recorder's gate has no kill switch and no grants\<close>
  "shadow_record_of app resolver rid request tool taint ts = (\<lambda>(log, c).
     let (v, c') = decide_gate app None \<lparr>gr_capability = request, gr_tainted = (taint = ''tainted''), gr_approved = None,
            gr_granted = None, gr_agent = None, gr_tenant = None\<rparr> c;
         rec = compare_record (observed rid request tool taint ts v (resolver request tool))
     in (rec, log @ [rec], c'))"

section \<open>Laws\<close>

lemma make_decision_Inr:
  "make_decision d = Inr e \<longleftrightarrow> e = d \<and> gd_decision d \<in> set DECISIONS \<and> gd_taint d \<in> set TAINT_STATES \<and>
     gd_approval d \<in> set APPROVAL_STATES \<and> set (gd_conflicts d) \<subseteq> set CONFLICT_STATES"
  by (auto simp: make_decision_def result_simps find_None_iff find_Some_iff split: option.splits) (meson nth_mem subsetD)+

lemma unknown_decision_ok: "\<exists>d. unknown_decision cap tier m why ev alts = Inr d \<and> is_unknown d \<and> \<not> is_executable d"
  by (auto simp: unknown_decision_def make_decision_Inr DECISIONS_def TAINT_STATES_def APPROVAL_STATES_def
      is_unknown_def is_executable_def)

lemma compare_fields:
  "sh_old_action (compare_record x) = sh_old_action x" "sh_new_decision (compare_record x) = sh_new_decision x"
  "sh_disagreement (compare_record x) \<longleftrightarrow> sh_old_action x \<noteq> sh_new_decision x \<or> sh_old_tier x \<noteq> or_minus_one (sh_new_tier x)"
  "sh_class (compare_record x) = (if sh_disagreement (compare_record x)
     then classify_disagreement True (sh_old_action x) (sh_new_decision x) else sh_class x)"
  by (simp_all add: compare_record_def Let_def)

lemma observed_decision:
  "sh_new_decision (observed rid request tool taint ts v r) =
     (if rs_capability r = None then ''UNKNOWN'' else decision_for_resolution r taint)"
  by (simp add: observed_def)

lemma decision_values: "decision_for_resolution r taint \<in> set DECISIONS"
  by (simp add: decision_for_resolution_def DECISIONS_def split: option.splits)

section \<open>Properties\<close>

text \<open>The shadow recorder never records an agreement on a request the gate lets through: the gate says
  \<open>SAFE\<close> where the resolver says \<open>ALLOW\<close>, so equal answers at equal tiers are logged as a difference.\<close>

theorem shadow_safe_always_disagrees:
  assumes "shadow_record_of app resolver rid request tool taint ts (xs, c) = (r, ys, c')" "sh_old_action r = ''SAFE''"
  shows "sh_disagreement r \<and> sh_class r \<noteq> ''agree'' \<and>
    (sh_new_decision r = ''ALLOW'' \<longrightarrow> sh_class r = ''OTHER_DIFFERENCE'') \<and> ys = xs @ [r]"
proof -
  obtain v where r: "r = compare_record (observed rid request tool taint ts v (resolver request tool))" and ys: "ys = xs @ [r]"
    using assms(1) by (auto simp: shadow_record_of_def Let_def split: prod.splits)
  have "sh_new_decision r \<in> set DECISIONS"
    using decision_values [of "resolver request tool" taint] unfolding r compare_fields observed_decision
    by (simp add: DECISIONS_def)
  then have "sh_new_decision r \<noteq> ''SAFE''" by (auto simp: DECISIONS_def)
  then have dis: "sh_disagreement r" using assms(2) unfolding r compare_fields by simp
  then have "sh_class r = classify_disagreement True (sh_old_action r) (sh_new_decision r)"
    unfolding r compare_fields(1,2) by (simp add: compare_fields(4))
  with dis assms(2) ys show ?thesis by (simp add: classify_disagreement_def)
qed

definition demo_shadow :: shadow_record where
  "demo_shadow = fst (shadow_record_of (\<lambda>c k e p. (Some 1, c)) default_resolver ''r1'' ''web_search'' None ''clean'' 0 ([], ()))"

lemma demo_shadow_run:
  "shadow_record_of (\<lambda>c k e p. (Some 1, c)) default_resolver ''r1'' ''web_search'' None ''clean'' 0 ([], ()) = (demo_shadow, [demo_shadow], ())"
  by code_simp

lemma demo_shadow_safe: "sh_old_action demo_shadow = ''SAFE'' \<and> sh_new_decision demo_shadow = ''ALLOW'' \<and>
    sh_old_tier demo_shadow = 1 \<and> sh_new_tier demo_shadow = Some 1"
  by code_simp

theorem shadow_safe_always_disagrees_witness:
  "sh_disagreement demo_shadow \<and> sh_class demo_shadow = ''OTHER_DIFFERENCE''"
  using shadow_safe_always_disagrees [OF demo_shadow_run] demo_shadow_safe by simp

end
