(* ===== verification/Task_Lifecycle.thy ===== *)
theory Task_Lifecycle
  imports Agent_Executor Ledger_Chain
begin

text \<open>
  The event-sourced task (\<^verbatim>\<open>tasks/events.py\<close>, \<^verbatim>\<open>tasks/models.py\<close>,
  \<^verbatim>\<open>tasks/lifecycle.py\<close>): the state machine, the store with its two tables, every
  operation of \<^verbatim>\<open>TaskLifecycle\<close>, and the provider wrapper that emits tool events.
  States and event types are strings, as in the source; the audit chain is an appender whose
  failures are swallowed; clock readings are arguments.
\<close>

section \<open>Vocabulary and state machine\<close>

definition TASK_EVENTS :: "string list" where
  "TASK_EVENTS = [''TASK_CREATED'', ''INTENT_INTERPRETED'', ''PLAN_CREATED'', ''CONTEXT_COMPOSED'', ''INVERSION_STARTED'',
     ''INVERSION_COMPLETED'', ''POLICY_CHECKED'', ''CONTRACT_APPROVED'', ''APPROVAL_GRANTED'', ''AGENT_STARTED'',
     ''AGENT_COMPLETED'', ''TOOL_REQUESTED'', ''TOOL_EXECUTED'', ''MUTATION_COMMITTED'', ''OBSERVATION_RECORDED'',
     ''VERIFICATION_STARTED'', ''VERIFICATION_PASSED'', ''VERIFICATION_FAILED'', ''EVIDENCE_RECORDED'', ''AUDIT_COMMITTED'',
     ''MEMORY_STORED'', ''MEMORY_CONSOLIDATED'', ''TASK_COMPLETED'', ''TASK_FAILED'', ''TASK_QUARANTINED'', ''TASK_DENIED'',
     ''TASK_RECOVERED'']"

definition ALLOWED_TRANSITIONS :: "(string \<times> string list) list" where
  "ALLOWED_TRANSITIONS =
     [(''CREATED'', [''PLANNED'', ''DENIED'', ''QUARANTINED'']),
      (''PLANNED'', [''EXECUTING'', ''DENIED'', ''QUARANTINED'']),
      (''EXECUTING'', [''VERIFYING'', ''FAILED'', ''QUARANTINED'']),
      (''VERIFYING'', [''COMPLETED'', ''FAILED'', ''QUARANTINED'']),
      (''COMPLETED'', []), (''FAILED'', []), (''QUARANTINED'', []), (''DENIED'', [])]"

definition STATE_EVENT :: "(string \<times> string) list" where
  "STATE_EVENT = [(''PLANNED'', ''PLAN_CREATED''), (''EXECUTING'', ''AGENT_STARTED''), (''VERIFYING'', ''VERIFICATION_STARTED''),
     (''COMPLETED'', ''TASK_COMPLETED''), (''FAILED'', ''TASK_FAILED''), (''QUARANTINED'', ''TASK_QUARANTINED''),
     (''DENIED'', ''TASK_DENIED'')]"

definition RECOVERABLE_STATES :: "string list" where
  "RECOVERABLE_STATES = [''EXECUTING'', ''VERIFYING'']"

datatype task_error = Unknown_Event string | Unknown_Task string | Unknown_State string
  | Invalid_Transition string string | No_Canonical_Event string | Integrity_Error | Type_Error

definition allowed_from :: "string \<Rightarrow> string list" where
  "allowed_from s = (case map_of ALLOWED_TRANSITIONS s of None \<Rightarrow> [] | Some ts \<Rightarrow> ts)"

definition validate_transition :: "string \<Rightarrow> string \<Rightarrow> (task_error, unit) result" where
  "validate_transition s t =
     guard_result (t \<in> fst ` set ALLOWED_TRANSITIONS) (Unknown_State t)
       (guard_result (t \<in> set (allowed_from s)) (Invalid_Transition s t) (Inr ()))"

definition event_for_state :: "string \<Rightarrow> (task_error, string) result" where
  "event_for_state s = (case map_of STATE_EVENT s of None \<Rightarrow> Inl (No_Canonical_Event s) | Some e \<Rightarrow> Inr e)"

section \<open>The unified task\<close>

definition SECTIONS :: "string list" where
  "SECTIONS = [''intent'', ''context'', ''assumptions'', ''inversion'', ''plan'', ''agents'', ''capabilities'', ''contracts'',
     ''approvals'', ''execution'', ''observations'', ''verification'', ''evidence'', ''audit'', ''memory'', ''outcome'', ''recovery'']"

record unified_task =
  ut_id :: string
  ut_kind :: string
  ut_tenant :: string
  ut_session :: string
  ut_source :: string
  ut_created :: string
  ut_updated :: string
  ut_state :: string
  ut_schema :: int
  ut_section :: "string \<Rightarrow> json"   \<comment> \<open>the value of each attribute of \<open>SECTIONS\<close>\<close>

definition task_body :: "unified_task \<Rightarrow> (jkey \<times> json) list" where
  \<comment> \<open>\<^verbatim>\<open>UnifiedTask.as_dict\<close>\<close>
  "task_body t =
     [(KStr ''task_id'', JStr (ut_id t)), (KStr ''kind'', JStr (ut_kind t)), (KStr ''tenant'', JStr (ut_tenant t)),
      (KStr ''session'', JStr (ut_session t)), (KStr ''source'', JStr (ut_source t)),
      (KStr ''created_at'', JStr (ut_created t)), (KStr ''updated_at'', JStr (ut_updated t)),
      (KStr ''state'', JStr (ut_state t)), (KStr ''schema_version'', JInt (ut_schema t))] @
     map (\<lambda>n. (KStr n, ut_section t n)) SECTIONS"

definition plan_section :: "string \<Rightarrow> task list \<Rightarrow> string \<Rightarrow> json" where
  \<comment> \<open>\<^verbatim>\<open>from_dag_task\<close>\<close>
  "plan_section goal ts source = obj [(''goal'', JStr goal), (''source'', JStr source), (''tasks'', JList (map task_as_dict ts))]"

definition dag_task_to_plan :: "task list \<Rightarrow> string \<Rightarrow> json" where
  "dag_task_to_plan ts source = plan_section (case ts of [] \<Rightarrow> [] | t # _ \<Rightarrow> tk_goal t) ts source"

definition adapt_dag :: "task option \<Rightarrow> json option" where
  "adapt_dag t = map_option task_as_dict t"

section \<open>The store\<close>

record life_row =
  lt_id :: string
  lt_state :: string
  lt_created :: string
  lt_updated :: string
  lt_body :: "(jkey \<times> json) list"

record life_event =
  le_id :: nat
  le_task :: string
  le_type :: string
  le_payload :: "(jkey \<times> json) list"
  le_state :: "string option"
  le_seq :: "nat option"
  le_created :: string

record life_db =
  ld_tasks :: "life_row list"
  ld_events :: "life_event list"
  ld_next :: nat       \<comment> \<open>the next autoincrement id\<close>

definition empty_life :: life_db where
  "empty_life = \<lparr>ld_tasks = [], ld_events = [], ld_next = 1\<rparr>"

definition merge_dict :: "(jkey \<times> json) list \<Rightarrow> (jkey \<times> json) list \<Rightarrow> (jkey \<times> json) list" where
  \<comment> \<open>\<^verbatim>\<open>d.update(e)\<close>, and \<^verbatim>\<open>{**d, **e}\<close>\<close>
  "merge_dict d e = foldl (\<lambda>m (k, v). dict_put k v m) d e"

definition stored_dict :: "(jkey \<times> json) list \<Rightarrow> (jkey \<times> json) list" where
  \<comment> \<open>what \<^verbatim>\<open>_un(_j(d))\<close> gives back\<close>
  "stored_dict d = (case reload (JObj d) of JObj kvs \<Rightarrow> kvs | _ \<Rightarrow> [])"

definition life_row_of :: "string \<Rightarrow> life_db \<Rightarrow> (task_error, life_row) result" where
  "life_row_of i d = (case row_of lt_id i (ld_tasks d) of None \<Rightarrow> Inl (Unknown_Task i) | Some r \<Rightarrow> Inr r)"

definition record_event :: "'c appender \<Rightarrow> string \<Rightarrow> string \<Rightarrow> (jkey \<times> json) list \<Rightarrow> string option \<Rightarrow> string \<Rightarrow>
    life_db \<times> 'c \<Rightarrow> life_event \<times> life_db \<times> 'c" where
  \<comment> \<open>mirrored to the chain first; the row keeps the chain's sequence number, or none\<close>
  "record_event app i ev p st now = (\<lambda>(d, c).
     let (sq, c') = app c ''tasks'' (''task.'' @ ev) (JObj (merge_dict [(KStr ''task_id'', JStr i)] p));
         e = \<lparr>le_id = ld_next d, le_task = i, le_type = ev, le_payload = stored_dict p, le_state = st, le_seq = sq, le_created = now\<rparr>
     in (e, d\<lparr>ld_events := ld_events d @ [e], ld_next := Suc (ld_next d)\<rparr>, c'))"

section \<open>Operations\<close>

definition create_task :: "'c appender \<Rightarrow> unified_task \<Rightarrow> string \<Rightarrow> life_db \<times> 'c \<Rightarrow> (task_error, unit) result \<times> life_db \<times> 'c" where
  "create_task app t now = (\<lambda>(d, c).
     let t' = t\<lparr>ut_state := ''CREATED'', ut_created := now, ut_updated := now\<rparr>
     in case row_insert lt_id \<lparr>lt_id = ut_id t, lt_state = ''CREATED'', lt_created = now, lt_updated = now,
               lt_body = stored_dict (task_body t')\<rparr> (ld_tasks d) of
          None \<Rightarrow> (Inl Integrity_Error, d, c)
        | Some rs \<Rightarrow> (Inr (), snd (record_event app (ut_id t) ''TASK_CREATED''
               [(KStr ''kind'', JStr (ut_kind t)), (KStr ''tenant'', JStr (ut_tenant t)),
                (KStr ''session'', JStr (ut_session t)), (KStr ''source'', JStr (ut_source t))]
               (Some ''CREATED'') now (d\<lparr>ld_tasks := rs\<rparr>, c))))"

definition emit_target :: "string \<Rightarrow> string option \<Rightarrow> (task_error, string) result" where
  \<comment> \<open>the state after the event\<close>
  "emit_target current st = (case st of None \<Rightarrow> Inr current | Some t \<Rightarrow> bind_result (validate_transition current t) (\<lambda>_. Inr t))"

definition emit :: "'c appender \<Rightarrow> string \<Rightarrow> string \<Rightarrow> (jkey \<times> json) list \<Rightarrow> string option \<Rightarrow> (jkey \<times> json) list \<Rightarrow> string \<Rightarrow>
    life_db \<times> 'c \<Rightarrow> (task_error, life_event) result \<times> life_db \<times> 'c" where
  "emit app i ev p st upd now = (\<lambda>(d, c).
     case guard_result (ev \<in> set TASK_EVENTS) (Unknown_Event ev)
            (bind_result (life_row_of i d) (\<lambda>r. bind_result (emit_target (lt_state r) st) (\<lambda>s. Inr (r, s)))) of
       Inl e \<Rightarrow> (Inl e, d, c)
     | Inr (r, s) \<Rightarrow>
         (let body = merge_dict (merge_dict (lt_body r) upd) [(KStr ''state'', JStr s), (KStr ''updated_at'', JStr now)];
              (e, d', c') = record_event app i ev p (Some s) now (d, c)
          in (Inr e, d'\<lparr>ld_tasks := row_update lt_id i
                (\<lambda>r. r\<lparr>lt_state := s, lt_updated := now, lt_body := stored_dict body\<rparr>) (ld_tasks d')\<rparr>, c')))"

definition transition :: "'c appender \<Rightarrow> string \<Rightarrow> string \<Rightarrow> string \<Rightarrow> (jkey \<times> json) list \<Rightarrow> string \<Rightarrow>
    life_db \<times> 'c \<Rightarrow> (task_error, life_event) result \<times> life_db \<times> 'c" where
  "transition app i t why p now s =
     (case event_for_state t of
        Inl e \<Rightarrow> (Inl e, s)
      | Inr ev \<Rightarrow> emit app i ev (if why \<noteq> [] then merge_dict p [(KStr ''reason'', JStr why)] else p) (Some t) [] now s)"

definition update_task :: "string \<Rightarrow> (jkey \<times> json) list \<Rightarrow> string \<Rightarrow> life_db \<Rightarrow> (task_error, unit) result \<times> life_db" where
  "update_task i sections now d =
     (case life_row_of i d of
        Inl e \<Rightarrow> (Inl e, d)
      | Inr r \<Rightarrow> (Inr (), d\<lparr>ld_tasks := row_update lt_id i
          (\<lambda>r. r\<lparr>lt_updated := now, lt_body := stored_dict (merge_dict (merge_dict (lt_body r) sections) [(KStr ''updated_at'', JStr now)])\<rparr>)
          (ld_tasks d)\<rparr>))"

definition append_audit_ref :: "string \<Rightarrow> nat \<Rightarrow> string \<Rightarrow> string \<Rightarrow> life_db \<Rightarrow> (task_error, unit) result \<times> life_db" where
  "append_audit_ref i sq ev now d =
     (case life_row_of i d of
        Inl e \<Rightarrow> (Inl e, d)
      | Inr r \<Rightarrow>
          (case (case map_of (lt_body r) (KStr ''audit'') of None \<Rightarrow> JList [] | Some v \<Rightarrow> v) of
             JList xs \<Rightarrow> update_task i [(KStr ''audit'', JList (xs @ [obj [(''seq'', JInt (int sq)), (''event_type'', JStr ev)]]))] now d
           | _ \<Rightarrow> (Inl Type_Error, d)))"

definition in_flight_ids :: "life_db \<Rightarrow> string list" where
  "in_flight_ids d = map lt_id (filter (\<lambda>r. lt_state r \<in> set RECOVERABLE_STATES) (ld_tasks d))"

definition quarantine_reason :: string where
  "quarantine_reason = ''in-flight task quarantined after process restart''"

fun quarantine_all :: "'c appender \<Rightarrow> string list \<Rightarrow> string \<Rightarrow> life_db \<times> 'c \<Rightarrow> (task_error, life_event list) result \<times> life_db \<times> 'c" where
  "quarantine_all app [] now s = (Inr [], s)"
| "quarantine_all app (i # is) now s =
     (case transition app i ''QUARANTINED'' quarantine_reason [] now s of
        (Inl e, s') \<Rightarrow> (Inl e, s')
      | (Inr ev, s') \<Rightarrow> (case quarantine_all app is now s' of (r, s'') \<Rightarrow> (bind_result r (\<lambda>evs. Inr (ev # evs)), s'')))"

definition recover_incomplete :: "'c appender \<Rightarrow> string \<Rightarrow> life_db \<times> 'c \<Rightarrow> (task_error, life_event list) result \<times> life_db \<times> 'c" where
  "recover_incomplete app now s = quarantine_all app (in_flight_ids (fst s)) now s"

definition task_events :: "string \<Rightarrow> life_db \<Rightarrow> life_event list" where
  "task_events i d = sort_key le_id (filter (\<lambda>e. le_task e = i) (ld_events d))"

definition get_task :: "string \<Rightarrow> life_db \<Rightarrow> (task_error, life_row \<times> life_event list) result" where
  "get_task i d = bind_result (life_row_of i d) (\<lambda>r. Inr (r, task_events i d))"

definition list_tasks :: "int \<Rightarrow> life_db \<Rightarrow> life_row list" where
  \<comment> \<open>newest first; rows created at the same time in insertion order\<close>
  "list_tasks limit d = take (nat (max 0 limit)) (rev (sort_key lt_created (rev (ld_tasks d))))"

section \<open>The provider wrapper\<close>

definition eventing_run :: "(string \<Rightarrow> json \<Rightarrow> 's \<Rightarrow> 's) \<Rightarrow> 's provider \<Rightarrow> 's provider" where
  \<comment> \<open>a call that times out is cancelled, which is not an \<^verbatim>\<open>Exception\<close>\<close>
  "eventing_run send run n t inp ses s =
     (case run n t inp ses (send ''TOOL_REQUESTED'' (obj [(''tool'', JStr n)]) s) of
        (Returned v, s') \<Rightarrow>
          (let s1 = send ''TOOL_EXECUTED'' (obj [(''tool'', JStr n), (''ok'', JBool True)]) s'
           in (Returned v, if n = ''vault_write'' then send ''MUTATION_COMMITTED'' (obj [(''tool'', JStr n)]) s1 else s1))
      | (Timed_Out, s') \<Rightarrow> (Timed_Out, s')
      | (Raised c m, s') \<Rightarrow>
          (Raised c m, send ''POLICY_CHECKED'' (obj [(''tool'', JStr n), (''decision'', JStr ''DENIED''), (''reason'', JStr m)]) s'))"

definition send_event :: "'c appender \<Rightarrow> string option \<Rightarrow> string \<Rightarrow> string \<Rightarrow> json \<Rightarrow> life_db \<times> 'c \<Rightarrow> life_db \<times> 'c" where
  \<comment> \<open>\<^verbatim>\<open>_event\<close> into the lifecycle; failures are swallowed\<close>
  "send_event app task now ev p s = (case task of
       None \<Rightarrow> s
     | Some i \<Rightarrow> snd (emit app i ev (case p of JObj kvs \<Rightarrow> kvs | _ \<Rightarrow> []) None [] now s))"

section \<open>The state machine is a lifecycle\<close>

definition state_step :: "string \<Rightarrow> string \<Rightarrow> bool" where
  "state_step s t \<longleftrightarrow> validate_transition s t = Inr ()"

definition final_state :: "string \<Rightarrow> bool" where
  "final_state s \<longleftrightarrow> allowed_from s = []"

interpretation task_life: lifecycle state_step final_state
  by unfold_locales (simp add: state_step_def final_state_def validate_transition_def guard_result_def)

interpretation life_rows: keyed_table lt_id "\<lambda>f. \<forall>r. lt_id (f r) = lt_id r"
  by unfold_locales simp

lemma states_targets: "state_step s t \<Longrightarrow> t \<in> fst ` set ALLOWED_TRANSITIONS"
  by (simp add: state_step_def validate_transition_def guard_result_def split: if_splits)

lemma no_self_loop: "\<not> state_step s s"
proof -
  have "\<forall>(a, bs) \<in> set ALLOWED_TRANSITIONS. a \<notin> set bs" by code_simp
  then have "s \<notin> set (allowed_from s)"
    by (cases "map_of ALLOWED_TRANSITIONS s") (auto simp: allowed_from_def dest!: map_of_SomeD)
  then show ?thesis by (simp add: state_step_def validate_transition_def guard_result_def)
qed

section \<open>Operations as steps\<close>

datatype life_op =
    New_Task unified_task string
  | Emit_Event string string "(jkey \<times> json) list" "string option" "(jkey \<times> json) list" string
  | Move_Task string string string "(jkey \<times> json) list" string
  | Update_Task string "(jkey \<times> json) list" string
  | Audit_Ref string nat string string
  | Recover string

fun life_step :: "'c appender \<Rightarrow> life_op \<Rightarrow> life_db \<times> 'c \<Rightarrow> life_db \<times> 'c" where
  "life_step app (New_Task t n) s = snd (create_task app t n s)"
| "life_step app (Emit_Event i ev p st u n) s = snd (emit app i ev p st u n s)"
| "life_step app (Move_Task i t w p n) s = snd (transition app i t w p n s)"
| "life_step app (Update_Task i u n) s = (snd (update_task i u n (fst s)), snd s)"
| "life_step app (Audit_Ref i q ev n) s = (snd (append_audit_ref i q ev n (fst s)), snd s)"
| "life_step app (Recover n) s = snd (recover_incomplete app n s)"

definition life_run :: "'c appender \<Rightarrow> life_op list \<Rightarrow> life_db \<times> 'c \<Rightarrow> life_db \<times> 'c" where
  "life_run app xs s = fold (life_step app) xs s"

text \<open>
  Every operation is a sequence of three kinds of store changes: a new task with its creation
  event, an event with a state that is the current one or an allowed next one, and a change of
  bodies only. What the changes keep, every run keeps.
\<close>

inductive store_change :: "life_db \<Rightarrow> life_db \<Rightarrow> bool" where
  born: "row_insert lt_id r (ld_tasks d) = Some (ld_tasks d') \<Longrightarrow> lt_state r = ''CREATED'' \<Longrightarrow>
    ld_events d' = ld_events d @ [e] \<Longrightarrow> le_task e = lt_id r \<Longrightarrow> le_state e = Some ''CREATED'' \<Longrightarrow> le_id e = ld_next d \<Longrightarrow>
    ld_next d' = Suc (ld_next d) \<Longrightarrow> store_change d d'"
| moved: "row_of lt_id i (ld_tasks d) = Some r \<Longrightarrow> s = lt_state r \<or> state_step (lt_state r) s \<Longrightarrow>
    ld_tasks d' = row_update lt_id i f (ld_tasks d) \<Longrightarrow> \<forall>x. lt_id (f x) = lt_id x \<and> lt_state (f x) = s \<Longrightarrow>
    ld_events d' = ld_events d @ [e] \<Longrightarrow> le_task e = i \<Longrightarrow> le_state e = Some s \<Longrightarrow> le_id e = ld_next d \<Longrightarrow>
    ld_next d' = Suc (ld_next d) \<Longrightarrow> store_change d d'"
| touched: "ld_tasks d' = row_update lt_id i f (ld_tasks d) \<Longrightarrow> \<forall>x. lt_id (f x) = lt_id x \<and> lt_state (f x) = lt_state x \<Longrightarrow>
    ld_events d' = ld_events d \<Longrightarrow> ld_next d' = ld_next d \<Longrightarrow> store_change d d'"

lemma create_change: "fst (snd (create_task app t n (d, c))) = d \<or> store_change d (fst (snd (create_task app t n (d, c))))"
proof (cases "row_insert lt_id \<lparr>lt_id = ut_id t, lt_state = ''CREATED'', lt_created = n, lt_updated = n,
    lt_body = stored_dict (task_body (t\<lparr>ut_state := ''CREATED'', ut_created := n, ut_updated := n\<rparr>))\<rparr> (ld_tasks d)")
  case (Some rs)
  then show ?thesis
    by (intro disjI2, simp add: create_task_def record_event_def Let_def split: prod.splits)
      (intro allI impI, rule store_change.born, (simp; fail)+)
qed (simp add: create_task_def Let_def)

lemma emit_change: "fst (snd (emit app i ev p st u n (d, c))) = d \<or> store_change d (fst (snd (emit app i ev p st u n (d, c))))"
proof (cases "guard_result (ev \<in> set TASK_EVENTS) (Unknown_Event ev)
    (bind_result (life_row_of i d) (\<lambda>r. bind_result (emit_target (lt_state r) st) (\<lambda>s. Inr (r, s))))")
  case (Inr p0)
  obtain r s where rs: "p0 = (r, s)" by fastforce
  with Inr have r: "row_of lt_id i (ld_tasks d) = Some r" and s: "emit_target (lt_state r) st = Inr s"
    by (auto simp: result_simps life_row_of_def split: option.splits)
  have "s = lt_state r \<or> state_step (lt_state r) s"
    using s by (auto simp: emit_target_def result_simps state_step_def split: option.splits)
  note change = store_change.moved [OF r this]
  show ?thesis
    using Inr rs by (intro disjI2, simp add: emit_def record_event_def Let_def split: prod.splits)
      (intro allI impI, rule change, (simp; fail)+)
qed (simp add: emit_def)

lemma transition_change: "fst (snd (transition app i t w p n s)) = fst s \<or> store_change (fst s) (fst (snd (transition app i t w p n s)))"
proof (cases "event_for_state t")
  case (Inr ev)
  obtain d c where s: "s = (d, c)" by fastforce
  show ?thesis
    using emit_change [of app i ev "if w \<noteq> [] then merge_dict p [(KStr ''reason'', JStr w)] else p" "Some t" "[]" n d c] Inr
    by (simp add: transition_def s)
qed (simp add: transition_def)

lemma update_change: "snd (update_task i u n d) = d \<or> store_change d (snd (update_task i u n d))"
  by (cases "life_row_of i d")
    (simp_all add: update_task_def store_change.touched [where f = "\<lambda>r. r\<lparr>lt_updated := n, lt_body := stored_dict
       (merge_dict (merge_dict (lt_body r) u) [(KStr ''updated_at'', JStr n)])\<rparr>" and i = i])

lemma audit_ref_change: "snd (append_audit_ref i q ev n d) = d \<or> store_change d (snd (append_audit_ref i q ev n d))"
  using update_change [of i _ n d] by (auto simp: append_audit_ref_def split: sum.splits json.splits)

lemma quarantine_changes: "store_change\<^sup>*\<^sup>* (fst s) (fst (snd (quarantine_all app is n s)))"
proof (induction "is" arbitrary: s)
  case (Cons i "is")
  obtain r s' where t: "transition app i ''QUARANTINED'' quarantine_reason [] n s = (r, s')"
    by (cases "transition app i ''QUARANTINED'' quarantine_reason [] n s")
  then have "store_change\<^sup>*\<^sup>* (fst s) (fst s')"
    using transition_change [of app i "''QUARANTINED''" quarantine_reason "[]" n s] by auto
  with t Cons.IH [of s'] show ?case
    by (cases r) (auto split: prod.splits)
qed simp

lemma maybe_change: "d' = d \<or> store_change d d' \<Longrightarrow> store_change\<^sup>*\<^sup>* d d'"
  by auto

lemma step_changes_store: "store_change\<^sup>*\<^sup>* (fst s) (fst (life_step app x s))"
proof (cases x)
  case (New_Task t n)
  then show ?thesis using create_change [of app t n "fst s" "snd s"] by (simp add: maybe_change)
next
  case (Emit_Event i ev p st u n)
  then show ?thesis using emit_change [of app i ev p st u n "fst s" "snd s"] by (simp add: maybe_change)
next
  case (Move_Task i t w p n)
  then show ?thesis using transition_change [of app i t w p n s] by (simp add: maybe_change)
next
  case (Update_Task i u n)
  then show ?thesis using update_change [of i u n "fst s"] by (simp add: maybe_change)
next
  case (Audit_Ref i q ev n)
  then show ?thesis using audit_ref_change [of i q ev n "fst s"] by (simp add: maybe_change)
next
  case (Recover n)
  then show ?thesis using quarantine_changes by (simp add: recover_incomplete_def)
qed

lemma run_changes_store: "store_change\<^sup>*\<^sup>* (fst s) (fst (life_run app xs s))"
proof (induction xs arbitrary: s)
  case (Cons x xs)
  from step_changes_store [of s app x] Cons.IH [of "life_step app x s"] show ?case
    by (simp add: life_run_def)
qed (simp add: life_run_def)

end
