(* ===== verification/Task_Replay.thy ===== *)
theory Task_Replay
  imports Task_Lifecycle
begin

text \<open>
  The replay engine (\<^verbatim>\<open>replay/engine.py\<close>): a task's state derived from its events,
  compared with the stored projection, and the reconciliation over all tasks. The decision trail
  is a parameter. The lemmas show that the projection and the events of the lifecycle store never
  drift apart, whatever operations run.
\<close>

section \<open>Replay\<close>

datatype replay_issue = First_Not_Created string | Illegal_Transition string string task_error

record replay =
  rp_derived :: "string option"
  rp_transitions :: "(string option \<times> string \<times> string) list"   \<comment> \<open>from, to, event type\<close>
  rp_legal :: bool
  rp_issues :: "replay_issue list"

definition replay_start :: replay where
  "replay_start = \<lparr>rp_derived = None, rp_transitions = [], rp_legal = True, rp_issues = []\<rparr>"

definition replay_event :: "life_event \<Rightarrow> replay \<Rightarrow> replay" where
  "replay_event e r =
     (case le_state e of
        None \<Rightarrow> r
      | Some s \<Rightarrow>
          if s = [] \<or> rp_derived r = Some s then r
          else (let r' = r\<lparr>rp_derived := Some s, rp_transitions := rp_transitions r @ [(rp_derived r, s, le_type e)]\<rparr>
                in case rp_derived r of
                     None \<Rightarrow> if s \<noteq> ''CREATED'' then r'\<lparr>rp_legal := False, rp_issues := rp_issues r @ [First_Not_Created s]\<rparr> else r'
                   | Some f \<Rightarrow>
                       (case validate_transition f s of
                          Inl x \<Rightarrow> r'\<lparr>rp_legal := False, rp_issues := rp_issues r @ [Illegal_Transition f s x]\<rparr>
                        | Inr _ \<Rightarrow> r')))"

record replay_state =
  rv_task :: string
  rv_stored :: string
  rv_derived :: "string option"
  rv_consistent :: bool
  rv_legal :: bool
  rv_transitions :: "(string option \<times> string \<times> string) list"
  rv_count :: nat
  rv_issues :: "replay_issue list"

definition replay_of :: "string \<Rightarrow> life_row \<times> life_event list \<Rightarrow> replay_state" where
  "replay_of i = (\<lambda>(r, es).
     let p = fold replay_event es replay_start
     in \<lparr>rv_task = i, rv_stored = lt_state r, rv_derived = rp_derived p, rv_consistent = (rp_derived p = Some (lt_state r)),
         rv_legal = rp_legal p, rv_transitions = rp_transitions p, rv_count = length es, rv_issues = rp_issues p\<rparr>)"

definition replay_state_of :: "string \<Rightarrow> life_db \<Rightarrow> (task_error, replay_state) result" where
  "replay_state_of i d = bind_result (get_task i d) (\<lambda>x. Inr (replay_of i x))"

definition replay_decision :: "(string \<Rightarrow> 'r list) option \<Rightarrow> string \<Rightarrow> 'r list" where
  "replay_decision spine i = (case spine of None \<Rightarrow> [] | Some trail \<Rightarrow> trail i)"

record 'r replay_report =
  rr_state :: replay_state
  rr_timeline :: "(nat \<times> string \<times> string option \<times> nat option \<times> string) list"
  rr_decisions :: "'r list"

definition replay_task :: "(string \<Rightarrow> 'r list) option \<Rightarrow> string \<Rightarrow> life_db \<Rightarrow> (task_error, 'r replay_report) result" where
  "replay_task spine i d =
     bind_result (replay_state_of i d) (\<lambda>v.
       bind_result (get_task i d) (\<lambda>(r, es).
         Inr \<lparr>rr_state = v,
              rr_timeline = map (\<lambda>e. (le_id e, le_type e, le_state e, le_seq e, le_created e)) es,
              rr_decisions = replay_decision spine i\<rparr>))"

record reconciliation =
  rc_count :: nat
  rc_divergences :: "replay_state list"
  rc_in_flight :: "string list"

definition reconcile :: "life_db \<Rightarrow> reconciliation" where
  "reconcile d =
     (let ts = list_tasks 10000 d;
          vs = List.map_filter (\<lambda>t. case replay_state_of (lt_id t) d of Inl _ \<Rightarrow> None | Inr v \<Rightarrow> Some v) ts
      in \<lparr>rc_count = length ts,
          rc_divergences = filter (\<lambda>v. \<not> rv_consistent v \<or> \<not> rv_legal v) vs,
          rc_in_flight = map rv_task (filter (\<lambda>v. \<exists>s \<in> set RECOVERABLE_STATES. rv_derived v = Some s) vs)\<rparr>)"

section \<open>Projection and events agree\<close>

definition agrees :: "life_db \<Rightarrow> life_row \<Rightarrow> bool" where
  "agrees d r \<longleftrightarrow> lt_state r \<in> fst ` set ALLOWED_TRANSITIONS \<and>
     rp_derived (fold replay_event (task_events (lt_id r) d) replay_start) = Some (lt_state r) \<and>
     rp_legal (fold replay_event (task_events (lt_id r) d) replay_start)"

definition event_ids_ok :: "life_db \<Rightarrow> bool" where
  "event_ids_ok d \<longleftrightarrow> sorted (map le_id (ld_events d)) \<and> (\<forall>e \<in> set (ld_events d). le_id e < ld_next d) \<and>
     le_task ` set (ld_events d) \<subseteq> lt_id ` set (ld_tasks d)"

definition sound :: "life_db \<Rightarrow> bool" where
  "sound d \<longleftrightarrow> life_rows.wf_table (ld_tasks d) \<and> event_ids_ok d \<and> (\<forall>r \<in> set (ld_tasks d). agrees d r)"

lemma empty_sound: "sound empty_life"
  by (simp add: sound_def empty_life_def life_rows.wf_table_def event_ids_ok_def)

lemma task_events_sorted:
  "event_ids_ok d \<Longrightarrow> task_events i d = filter (\<lambda>e. le_task e = i) (ld_events d)"
  unfolding task_events_def event_ids_ok_def by (intro sort_key_id_if_sorted sorted_filter) simp

lemma event_ids_append:
  assumes "event_ids_ok d" "ld_events d' = ld_events d @ [e]" "le_id e = ld_next d" "ld_next d' = Suc (ld_next d)"
    "lt_id ` set (ld_tasks d) \<subseteq> lt_id ` set (ld_tasks d')" "le_task e \<in> lt_id ` set (ld_tasks d')"
  shows "event_ids_ok d'" "task_events i d' = task_events i d @ (if le_task e = i then [e] else [])"
proof -
  show ok: "event_ids_ok d'"
    using assms by (auto simp: event_ids_ok_def sorted_append less_Suc_eq less_imp_le) blast
  show "task_events i d' = task_events i d @ (if le_task e = i then [e] else [])"
    using task_events_sorted [OF ok] task_events_sorted [OF assms(1)] assms(2) by simp
qed

lemma known_states: "s \<in> fst ` set ALLOWED_TRANSITIONS \<Longrightarrow> s \<noteq> []"
proof -
  have "\<forall>x \<in> set ALLOWED_TRANSITIONS. fst x \<noteq> []" by code_simp
  then show "s \<in> fst ` set ALLOWED_TRANSITIONS \<Longrightarrow> s \<noteq> []" by auto
qed

lemma created_known: "''CREATED'' \<in> fst ` set ALLOWED_TRANSITIONS"
  by code_simp

lemma replay_birth: "le_state e = Some ''CREATED'' \<Longrightarrow> rp_derived (replay_event e replay_start) = Some ''CREATED'' \<and>
    rp_legal (replay_event e replay_start)"
  by (simp add: replay_event_def replay_start_def)

lemma replay_move:
  assumes "le_state e = Some s" "s \<noteq> []" "rp_derived p = Some f" "s = f \<or> state_step f s" "rp_legal p"
  shows "rp_derived (replay_event e p) = Some s \<and> rp_legal (replay_event e p)"
  using assms by (cases "s = f") (auto simp: replay_event_def state_step_def)

lemma change_sound: "store_change d d' \<Longrightarrow> sound d \<Longrightarrow> sound d'"
proof (induction rule: store_change.induct)
  case (born r d d' e)
  have tasks: "ld_tasks d' = ld_tasks d @ [r]" and fresh: "lt_id r \<notin> lt_id ` set (ld_tasks d)"
    using born(1) by (auto simp: row_insert_def split: if_splits)
  have ok: "event_ids_ok d" using born.prems by (simp add: sound_def)
  have ev: "event_ids_ok d'" "task_events j d' = task_events j d @ (if j = lt_id r then [e] else [])" for j
    using event_ids_append(1) [OF ok born(3) born(6,7)] event_ids_append(2) [OF ok born(3) born(6,7), of j]
    by (simp_all add: tasks born(4) subset_insertI)
  have "task_events (lt_id r) d = []"
  proof -
    have "le_task x \<noteq> lt_id r" if "x \<in> set (ld_events d)" for x
      using that fresh ok unfolding event_ids_ok_def by (metis imageI subsetD)
    then show ?thesis by (simp add: task_events_sorted [OF ok] filter_empty_conv)
  qed
  then have "agrees d' r"
    using ev(2) [of "lt_id r"] replay_birth [OF born(5)] created_known born(2) by (simp add: agrees_def)
  moreover have "agrees d' x" if x: "x \<in> set (ld_tasks d)" for x
  proof -
    have "lt_id x \<noteq> lt_id r" using x fresh by (metis imageI)
    then show ?thesis using x born.prems ev(2) [of "lt_id x"] by (simp add: agrees_def sound_def)
  qed
  moreover have "life_rows.wf_table (ld_tasks d')"
    using life_rows.wf_insert [OF _ born(1)] born.prems by (simp add: sound_def)
  ultimately show ?case using ev(1) tasks by (simp add: sound_def)
next
  case (moved i d r s d' f e)
  have rin: "r \<in> set (ld_tasks d)" "lt_id r = i" using life_rows.row_of_key [OF moved(1)] by simp_all
  have ids: "lt_id ` set (ld_tasks d') = lt_id ` set (ld_tasks d)"
    using life_rows.map_key_update [of f i "ld_tasks d"] moved(3,4) by (metis (mono_tags, lifting) list.set_map)
  have ok: "event_ids_ok d" using moved.prems by (simp add: sound_def)
  note ev = event_ids_append [OF ok moved(5) moved(8,9), unfolded ids moved(6), simplified]
  have i: "i \<in> lt_id ` set (ld_tasks d)" using rin by auto
  have r: "agrees d r" using moved.prems rin by (simp add: sound_def)
  have s: "s \<in> fst ` set ALLOWED_TRANSITIONS" using moved(2) r states_targets by (auto simp: agrees_def)
  have new: "agrees d' x" if "lt_id x = i" "lt_state x = s" for x
    using that r s rin(2) ev(2) [OF i, of i] replay_move [OF moved(7) known_states [OF s] _ moved(2)] by (simp add: agrees_def)
  have "agrees d' x" if "x \<in> set (ld_tasks d')" for x
  proof (cases "lt_id x = i")
    case True
    then have "lt_state x = s" using that moved(3,4) by (auto simp: row_update_def)
    with True show ?thesis by (rule new)
  next
    case False
    then have "x \<in> set (ld_tasks d)" using that moved(3,4) by (auto simp: row_update_def)
    with False show ?thesis using moved.prems ev(2) [OF i, of "lt_id x"] by (simp add: agrees_def sound_def)
  qed
  moreover have "life_rows.wf_table (ld_tasks d')"
    using moved.prems moved(3,4) by (simp add: life_rows.wf_update sound_def)
  ultimately show ?case using ev(1) [OF i] by (simp add: sound_def)
next
  case (touched d' i f d)
  have ids: "lt_id ` set (ld_tasks d') = lt_id ` set (ld_tasks d)"
    using life_rows.map_key_update [of f i "ld_tasks d"] touched(1,2) by (metis (mono_tags, lifting) list.set_map)
  have te: "task_events j d' = task_events j d" for j by (simp add: task_events_def touched(3))
  have "agrees d' x" if x: "x \<in> set (ld_tasks d')" for x
  proof -
    from x obtain y where "y \<in> set (ld_tasks d)" "lt_id x = lt_id y" "lt_state x = lt_state y"
      using touched(1,2) by (auto simp: row_update_def)
    with touched.prems show ?thesis by (auto simp: agrees_def sound_def te)
  qed
  then show ?case
    using touched.prems touched(1,2,3,4) ids by (simp add: sound_def life_rows.wf_update event_ids_ok_def)
qed

lemma changes_sound: "store_change\<^sup>*\<^sup>* d d' \<Longrightarrow> sound d \<Longrightarrow> sound d'"
  by (induction rule: rtranclp_induct) (auto dest: change_sound)

lemma run_sound: "sound (fst s) \<Longrightarrow> sound (fst (life_run app xs s))"
  by (rule changes_sound [OF run_changes_store])

lemma row_of_member: "life_rows.wf_table rs \<Longrightarrow> r \<in> set rs \<Longrightarrow> row_of lt_id (lt_id r) rs = Some r"
  by (induction rs) (auto simp: life_rows.wf_table_def row_of_def)

lemma sound_replay:
  assumes "sound d" "r \<in> set (ld_tasks d)"
  obtains v where "replay_state_of (lt_id r) d = Inr v" "rv_stored v = lt_state r" "rv_derived v = Some (lt_state r)"
    "rv_consistent v" "rv_legal v" "rv_task v = lt_id r"
proof
  have "row_of lt_id (lt_id r) (ld_tasks d) = Some r" using assms by (intro row_of_member) (simp_all add: sound_def)
  then show "replay_state_of (lt_id r) d = Inr (replay_of (lt_id r) (r, task_events (lt_id r) d))"
    by (simp add: replay_state_of_def get_task_def life_row_of_def)
qed (use assms in \<open>auto simp: sound_def agrees_def replay_of_def Let_def\<close>)

section \<open>States over time\<close>

definition state_of :: "life_db \<Rightarrow> string \<Rightarrow> string option" where
  "state_of d i = map_option lt_state (row_of lt_id i (ld_tasks d))"

lemma state_of_update:
  assumes "ld_tasks d' = row_update lt_id i f (ld_tasks d)" "\<forall>x. lt_id (f x) = lt_id x"
  shows "state_of d' k = (if k = i then map_option (\<lambda>r. lt_state (f r)) (row_of lt_id k (ld_tasks d)) else state_of d k)"
  using assms by (simp add: state_of_def life_rows.row_of_update option.map_comp comp_def)

lemma change_states: "store_change d d' \<Longrightarrow> state_of d i = Some s \<Longrightarrow> \<exists>t. state_of d' i = Some t \<and> state_step\<^sup>*\<^sup>* s t"
proof (induction rule: store_change.induct)
  case (born r d d' e)
  have "row_of lt_id i (ld_tasks d') = row_of lt_id i (ld_tasks d)"
    using life_rows.row_of_insert [OF born(1), of i] life_rows.row_insert_fresh [OF born(1)] born.prems
    by (auto simp: state_of_def)
  with born.prems show ?case by (auto simp: state_of_def)
next
  case (moved j d r s' d' f e)
  have "state_of d' i = (if i = j then Some s' else state_of d i)"
    using state_of_update [OF moved(3), of i] moved(1,4) by (simp add: state_of_def)
  then show ?case using moved.prems moved(1,2) by (auto simp: state_of_def)
next
  case (touched d' j f d)
  have "state_of d' i = state_of d i"
    using state_of_update [OF touched(1), of i] touched(2) by (simp add: state_of_def)
  with touched.prems show ?case by simp
qed

lemma changes_states: "store_change\<^sup>*\<^sup>* d d' \<Longrightarrow> state_of d i = Some s \<Longrightarrow> \<exists>t. state_of d' i = Some t \<and> state_step\<^sup>*\<^sup>* s t"
proof (induction rule: rtranclp_induct)
  case (step y z)
  then show ?case using change_states by (blast intro: rtranclp_trans)
qed blast

lemma recoverable_can_stop: "s \<in> set RECOVERABLE_STATES \<Longrightarrow> state_step s ''QUARANTINED''"
proof -
  have "\<forall>x \<in> set RECOVERABLE_STATES. state_step x ''QUARANTINED''" by code_simp
  then show "s \<in> set RECOVERABLE_STATES \<Longrightarrow> state_step s ''QUARANTINED''" by blast
qed

lemma quarantine_event: "event_for_state ''QUARANTINED'' = Inr ''TASK_QUARANTINED''" "''TASK_QUARANTINED'' \<in> set TASK_EVENTS"
  by code_simp+

lemma emit_ok:
  assumes "ev \<in> set TASK_EVENTS" "row_of lt_id i (ld_tasks d) = Some r" "emit_target (lt_state r) st = Inr s"
  obtains e d' c' f where "emit app i ev p st u n (d, c) = (Inr e, d', c')" "ld_tasks d' = row_update lt_id i f (ld_tasks d)"
    "\<And>x. lt_id (f x) = lt_id x" "\<And>x. lt_state (f x) = s"
proof -
  obtain sq c1 where a: "app c ''tasks'' (''task.'' @ ev) (JObj (merge_dict [(KStr ''task_id'', JStr i)] p)) = (sq, c1)" by fastforce
  let ?f = "\<lambda>x. x\<lparr>lt_state := s, lt_updated := n, lt_body := stored_dict
     (merge_dict (merge_dict (lt_body r) u) [(KStr ''state'', JStr s), (KStr ''updated_at'', JStr n)])\<rparr>"
  have "\<exists>e d'. emit app i ev p st u n (d, c) = (Inr e, d', c1) \<and> ld_tasks d' = row_update lt_id i ?f (ld_tasks d)"
    using assms a by (simp add: emit_def life_row_of_def record_event_def Let_def)
  then show thesis by (elim exE conjE) (rule that, assumption, assumption, simp_all)
qed

lemma quarantine_step:
  assumes "state_of d i = Some s" "s \<in> set RECOVERABLE_STATES"
  shows "\<exists>e d' c'. transition app i ''QUARANTINED'' w p n (d, c) = (Inr e, d', c') \<and>
    (\<forall>k. state_of d' k = (if k = i then Some ''QUARANTINED'' else state_of d k))"
proof -
  obtain r where r: "row_of lt_id i (ld_tasks d) = Some r" "lt_state r = s" using assms(1) by (auto simp: state_of_def)
  have "validate_transition s ''QUARANTINED'' = Inr ()" using recoverable_can_stop [OF assms(2)] by (simp add: state_step_def)
  then have t: "emit_target (lt_state r) (Some ''QUARANTINED'') = Inr ''QUARANTINED''" by (simp add: emit_target_def r(2))
  obtain e d' c' f where e: "emit app i ''TASK_QUARANTINED'' (if w \<noteq> [] then merge_dict p [(KStr ''reason'', JStr w)] else p)
      (Some ''QUARANTINED'') [] n (d, c) = (Inr e, d', c')" and f: "ld_tasks d' = row_update lt_id i f (ld_tasks d)"
      "\<And>x. lt_id (f x) = lt_id x" "\<And>x. lt_state (f x) = ''QUARANTINED''"
    by (rule emit_ok [OF quarantine_event(2) r(1) t, where app = app and u = "[]" and n = n and c = c and
          p = "if w \<noteq> [] then merge_dict p [(KStr ''reason'', JStr w)] else p"]) (rule that)
  have "state_of d' k = (if k = i then Some ''QUARANTINED'' else state_of d k)" for k
    using state_of_update [OF f(1), of k] f(2,3) r(1) by simp
  with e show ?thesis by (simp add: transition_def quarantine_event)
qed

lemma quarantine_states:
  assumes "distinct is" "\<And>i. i \<in> set is \<Longrightarrow> \<exists>s \<in> set RECOVERABLE_STATES. state_of (fst x) i = Some s"
  shows "\<exists>evs x'. quarantine_all app is n x = (Inr evs, x') \<and> length evs = length is \<and>
    (\<forall>k. state_of (fst x') k = (if k \<in> set is then Some ''QUARANTINED'' else state_of (fst x) k))"
  using assms
proof (induction "is" arbitrary: x)
  case (Cons i "is")
  obtain s where "s \<in> set RECOVERABLE_STATES" "state_of (fst x) i = Some s" using Cons.prems(2) [of i] by auto
  then obtain e d' c' where t: "transition app i ''QUARANTINED'' quarantine_reason [] n x = (Inr e, d', c')"
    and d': "\<forall>k. state_of d' k = (if k = i then Some ''QUARANTINED'' else state_of (fst x) k)"
    using quarantine_step [of "fst x" i s app quarantine_reason "[]" n "snd x"] by auto
  have "\<exists>s \<in> set RECOVERABLE_STATES. state_of (fst (d', c')) j = Some s" if "j \<in> set is" for j
    using that Cons.prems d' by auto
  then obtain evs x' where "quarantine_all app is n (d', c') = (Inr evs, x')" "length evs = length is"
    "\<forall>k. state_of (fst x') k = (if k \<in> set is then Some ''QUARANTINED'' else state_of d' k)"
    using Cons.IH [of "(d', c')"] Cons.prems(1) by auto
  with t d' show ?case by auto
qed simp

lemma in_flight_rows:
  assumes "sound d"
  shows "distinct (in_flight_ids d)" "i \<in> set (in_flight_ids d) \<longleftrightarrow> (\<exists>s \<in> set RECOVERABLE_STATES. state_of d i = Some s)"
proof -
  have w: "life_rows.wf_table (ld_tasks d)" using assms by (simp add: sound_def)
  then show "distinct (in_flight_ids d)"
    by (simp add: in_flight_ids_def life_rows.wf_table_def distinct_map_filter)
  show "i \<in> set (in_flight_ids d) \<longleftrightarrow> (\<exists>s \<in> set RECOVERABLE_STATES. state_of d i = Some s)"
    using row_of_member [OF w] life_rows.row_of_key by (fastforce simp: in_flight_ids_def state_of_def)
qed

section \<open>Properties\<close>

text \<open>C15: The projection never drifts from the events: after any sequence of lifecycle operations from an empty store,
  replaying the events of any task gives its stored state, through legal transitions only.\<close>

theorem projection_matches_events:
  assumes "r \<in> set (ld_tasks (fst (life_run app ops (empty_life, c))))"
  shows "\<exists>v. replay_state_of (lt_id r) (fst (life_run app ops (empty_life, c))) = Inr v \<and>
    rv_derived v = Some (lt_state r) \<and> rv_consistent v \<and> rv_legal v"
  using sound_replay [OF run_sound assms] empty_sound by (metis fst_conv)

text \<open>Recovery is exact: after a restart every task that was executing or verifying is quarantined, every other
  task keeps its state, and no task is left in flight.\<close>

theorem recovery_quarantines_exactly_the_in_flight:
  assumes "sound (fst x)"
  shows "\<exists>evs x'. recover_incomplete app n x = (Inr evs, x') \<and> in_flight_ids (fst x') = [] \<and>
    (\<forall>i. state_of (fst x') i = (if i \<in> set (in_flight_ids (fst x)) then Some ''QUARANTINED'' else state_of (fst x) i))"
proof -
  obtain evs x' where q: "quarantine_all app (in_flight_ids (fst x)) n x = (Inr evs, x')"
    and st: "\<forall>k. state_of (fst x') k = (if k \<in> set (in_flight_ids (fst x)) then Some ''QUARANTINED'' else state_of (fst x) k)"
    using quarantine_states [OF in_flight_rows(1) [OF assms]] in_flight_rows(2) [OF assms] by metis
  have "sound (fst x')"
    using changes_sound [OF quarantine_changes assms, of app "in_flight_ids (fst x)" n] q by simp
  then have "in_flight_ids (fst x') = []"
  proof -
    have "i \<notin> set (in_flight_ids (fst x'))" for i
    proof
      assume "i \<in> set (in_flight_ids (fst x'))"
      then obtain s where s: "s \<in> set RECOVERABLE_STATES" "state_of (fst x') i = Some s"
        using in_flight_rows(2) [OF \<open>sound (fst x')\<close>] by blast
      show False
      proof (cases "i \<in> set (in_flight_ids (fst x))")
        case True
        with st s(2) have "s = ''QUARANTINED''" by simp
        with s(1) show False by (simp add: RECOVERABLE_STATES_def)
      next
        case False
        with st s(2) have "state_of (fst x) i = Some s" by simp
        with s(1) False show False using in_flight_rows(2) [OF assms] by blast
      qed
    qed
    from this [of "hd (in_flight_ids (fst x'))"] hd_in_set show ?thesis by blast
  qed
  with q st show ?thesis by (auto simp: recover_incomplete_def)
qed

text \<open>Final states are final: a completed, failed, quarantined or denied task keeps its state under any further
  sequence of lifecycle operations.\<close>

theorem final_states_are_final:
  assumes "state_of (fst x) i = Some s" "final_state s"
  shows "state_of (fst (life_run app ops x)) i = Some s"
  using changes_states [OF run_changes_store assms(1)] task_life.terminal_absorbing assms(2) by metis

text \<open>Reconciliation finds nothing to report on a store that only the lifecycle wrote: no divergence, and in flight
  exactly the listed tasks that are executing or verifying.\<close>

theorem reconciliation_is_clean:
  "rc_divergences (reconcile (fst (life_run app ops (empty_life, c)))) = [] \<and>
   rc_in_flight (reconcile (fst (life_run app ops (empty_life, c)))) =
     map lt_id (filter (\<lambda>r. lt_state r \<in> set RECOVERABLE_STATES) (list_tasks 10000 (fst (life_run app ops (empty_life, c)))))"
proof -
  let ?d = "fst (life_run app ops (empty_life, c))"
  let ?f = "\<lambda>t. case replay_state_of (lt_id t) ?d of Inl _ \<Rightarrow> None | Inr v \<Rightarrow> Some v"
  have "sound ?d" by (rule run_sound) (simp add: empty_sound)
  then have ex: "\<exists>v. ?f t = Some v \<and> rv_consistent v \<and> rv_legal v \<and> rv_derived v = Some (lt_state t) \<and> rv_task v = lt_id t"
    if "t \<in> set (ld_tasks ?d)" for t
    using that by (elim sound_replay) auto
  have "set ts \<subseteq> set (ld_tasks ?d) \<Longrightarrow> filter (\<lambda>v. \<not> rv_consistent v \<or> \<not> rv_legal v) (List.map_filter ?f ts) = [] \<and>
      map rv_task (filter (\<lambda>v. \<exists>s \<in> set RECOVERABLE_STATES. rv_derived v = Some s) (List.map_filter ?f ts)) =
      map lt_id (filter (\<lambda>r. lt_state r \<in> set RECOVERABLE_STATES) ts)" for ts
  proof (induction ts)
    case (Cons t ts)
    from Cons.prems ex [of t] obtain v where "?f t = Some v" "rv_consistent v" "rv_legal v" "rv_derived v = Some (lt_state t)"
      "rv_task v = lt_id t" by auto
    then show ?case using Cons by (simp add: map_filter_simps)
  qed (simp add: map_filter_simps)
  moreover have "set (list_tasks 10000 ?d) \<subseteq> set (ld_tasks ?d)"
    by (auto simp: list_tasks_def dest: in_set_takeD)
  ultimately show ?thesis by (simp add: reconcile_def Let_def)
qed

definition plain_unified :: "string \<Rightarrow> unified_task" where
  "plain_unified i = \<lparr>ut_id = i, ut_kind = ''agent.run'', ut_tenant = ''default'', ut_session = ''default'', ut_source = ''api'',
     ut_created = [], ut_updated = [], ut_state = ''CREATED'', ut_schema = 1, ut_section = (\<lambda>n. JObj [])\<rparr>"

definition silent :: "unit appender" where
  "silent = (\<lambda>c k e p. (None, c))"

definition demo_ops :: "life_op list" where
  "demo_ops = [New_Task (plain_unified ''t1'') ''n0'', Move_Task ''t1'' ''PLANNED'' [] [] ''n1'',
     Emit_Event ''t1'' ''TOOL_EXECUTED'' [] None [] ''n2'', Move_Task ''t1'' ''EXECUTING'' [] [] ''n3'']"

definition demo_life :: life_db where
  "demo_life = fst (life_run silent demo_ops (empty_life, ()))"

lemma demo_rows: "map (\<lambda>r. (lt_id r, lt_state r)) (ld_tasks demo_life) = [(''t1'', ''EXECUTING'')]"
  by code_simp

theorem projection_matches_events_witness:
  "\<exists>v. replay_state_of ''t1'' demo_life = Inr v \<and> rv_derived v = Some ''EXECUTING'' \<and> rv_legal v"
proof -
  obtain r where r: "ld_tasks demo_life = [r]" "lt_id r = ''t1''" "lt_state r = ''EXECUTING''"
    using demo_rows by (cases "ld_tasks demo_life") auto
  then have "r \<in> set (ld_tasks (fst (life_run silent demo_ops (empty_life, ()))))" by (simp add: demo_life_def)
  from projection_matches_events [OF this] r(2,3) show ?thesis unfolding demo_life_def by auto
qed

lemma demo_sound: "sound (fst (demo_life, ()))"
  unfolding demo_life_def fst_conv by (rule run_sound) (simp add: empty_sound)

theorem recovery_quarantines_exactly_the_in_flight_witness:
  "\<exists>evs x'. recover_incomplete silent ''n4'' (demo_life, ()) = (Inr evs, x') \<and> in_flight_ids (fst x') = []"
  using recovery_quarantines_exactly_the_in_flight [OF demo_sound, of silent "''n4''"] by blast

definition stopped_life :: life_db where
  "stopped_life = fst (snd (recover_incomplete silent ''n4'' (demo_life, ())))"

lemma stopped_state: "state_of (fst (stopped_life, ())) ''t1'' = Some ''QUARANTINED''"
  by code_simp

lemma quarantined_final: "final_state ''QUARANTINED''"
  by code_simp

theorem final_states_are_final_witness:
  "state_of (fst (life_run silent [Move_Task ''t1'' ''PLANNED'' [] [] ''n5''] (stopped_life, ()))) ''t1'' = Some ''QUARANTINED''"
  by (rule final_states_are_final [OF stopped_state quarantined_final])

end
