(* ===== verification/Cron_Store.thy ===== *)
theory Cron_Store
  imports Cron_Parser Json
begin

text \<open>
  The store of scheduled jobs and their runs (\<^verbatim>\<open>cron/store.py\<close>). Timestamps are the
  readings themselves (their ISO texts order the same way), run ids the numbers of a counter (the
  source draws a fresh uuid), and governance values arrive with the types the source coerces them to.
\<close>

section \<open>Rows\<close>

definition RUN_STATUSES :: "string list" where
  "RUN_STATUSES = [''RUNNING'', ''SUCCESS'', ''FAILED'', ''BLOCKED'', ''SKIPPED'', ''INTERRUPTED'']"

definition TERMINAL_STATUSES :: "string list" where
  "TERMINAL_STATUSES = [''SUCCESS'', ''FAILED'', ''BLOCKED'', ''SKIPPED'', ''INTERRUPTED'']"

record job_governance =
  jg_requires_approval :: bool
  jg_max_retries :: int
  jg_timeout_s :: pyfloat
  jg_notify :: bool

record governance_patch =
  gp_requires_approval :: "bool option"
  gp_max_retries :: "int option"
  gp_timeout_s :: "pyfloat option"
  gp_notify :: "bool option"

record cron_job =
  cj_id :: string
  cj_name :: string
  cj_schedule :: string
  cj_enabled :: bool
  cj_action :: "(jkey \<times> json) list"
  cj_governance :: job_governance
  cj_created :: int
  cj_updated :: int

record cron_run =
  cr_id :: nat
  cr_job :: string
  cr_status :: string
  cr_trigger :: string
  cr_started :: int
  cr_finished :: "int option"
  cr_duration :: "int option"     \<comment> \<open>microseconds\<close>
  cr_attempt :: nat
  cr_summary :: json
  cr_error :: "string option"

record cron_db =
  cd_jobs :: "cron_job list"
  cd_runs :: "cron_run list"
  cd_next :: nat

datatype store_error = Bad_Schedule cron_error | Job_Id_Required | Name_Required | Job_Exists string
  | Unknown_Job string | Bad_Status string

definition empty_cron :: cron_db where
  "empty_cron = \<lparr>cd_jobs = [], cd_runs = [], cd_next = 1\<rparr>"

section \<open>Jobs\<close>

definition default_governance :: job_governance where
  "default_governance = \<lparr>jg_requires_approval = False, jg_max_retries = 2, jg_timeout_s = Fin ''300.0'', jg_notify = False\<rparr>"

definition patch_governance :: "governance_patch \<Rightarrow> job_governance \<Rightarrow> job_governance" where
  "patch_governance p g =
     \<lparr>jg_requires_approval = (case gp_requires_approval p of None \<Rightarrow> jg_requires_approval g | Some x \<Rightarrow> x),
      jg_max_retries = (case gp_max_retries p of None \<Rightarrow> jg_max_retries g | Some x \<Rightarrow> x),
      jg_timeout_s = (case gp_timeout_s p of None \<Rightarrow> jg_timeout_s g | Some x \<Rightarrow> x),
      jg_notify = (case gp_notify p of None \<Rightarrow> jg_notify g | Some x \<Rightarrow> x)\<rparr>"

definition check_schedule :: "string \<Rightarrow> (store_error, unit) result" where
  "check_schedule s = (case parse s of Inl e \<Rightarrow> Inl (Bad_Schedule e) | Inr _ \<Rightarrow> Inr ())"

definition create_job :: "string \<Rightarrow> string \<Rightarrow> string \<Rightarrow> (jkey \<times> json) list \<Rightarrow> bool \<Rightarrow> governance_patch \<Rightarrow> int \<Rightarrow> cron_db \<Rightarrow>
    (store_error, cron_job) result \<times> cron_db" where
  "create_job i name sched action en gov now d =
     (let job = \<lparr>cj_id = py_strip i, cj_name = py_strip name, cj_schedule = py_strip sched, cj_enabled = en, cj_action = action,
                 cj_governance = patch_governance gov default_governance, cj_created = now, cj_updated = now\<rparr>
      in case bind_result (check_schedule sched) (\<lambda>_.
                guard_result (py_strip i \<noteq> []) Job_Id_Required
                  (guard_result (py_strip name \<noteq> []) Name_Required
                    (case row_insert cj_id job (cd_jobs d) of None \<Rightarrow> Inl (Job_Exists (py_strip i)) | Some js \<Rightarrow> Inr js))) of
           Inl e \<Rightarrow> (Inl e, d)
         | Inr js \<Rightarrow> (Inr job, d\<lparr>cd_jobs := js\<rparr>))"

definition get_job :: "string \<Rightarrow> cron_db \<Rightarrow> (store_error, cron_job) result" where
  "get_job i d = (case row_of cj_id i (cd_jobs d) of None \<Rightarrow> Inl (Unknown_Job i) | Some j \<Rightarrow> Inr j)"

definition list_jobs :: "cron_db \<Rightarrow> cron_job list" where
  "list_jobs d = sort_key cj_id (cd_jobs d)"

record job_patch =
  jp_name :: "string option"
  jp_schedule :: "string option"
  jp_enabled :: "bool option"
  jp_action :: "json option"
  jp_governance :: "governance_patch option"

definition empty_patch :: "job_patch \<Rightarrow> bool" where
  "empty_patch p \<longleftrightarrow> jp_name p = None \<and> jp_schedule p = None \<and> jp_enabled p = None \<and> jp_action p = None \<and> jp_governance p = None"

definition apply_patch :: "job_patch \<Rightarrow> int \<Rightarrow> cron_job \<Rightarrow> cron_job \<Rightarrow> cron_job" where
  \<comment> \<open>the UPDATE: the governance and a malformed action come from the job read before it\<close>
  "apply_patch p now old r = r
     \<lparr>cj_name := (case jp_name p of None \<Rightarrow> cj_name r | Some x \<Rightarrow> x),
      cj_schedule := (case jp_schedule p of None \<Rightarrow> cj_schedule r | Some x \<Rightarrow> x),
      cj_enabled := (case jp_enabled p of None \<Rightarrow> cj_enabled r | Some x \<Rightarrow> x),
      cj_action := (case jp_action p of None \<Rightarrow> cj_action r | Some (JObj kvs) \<Rightarrow> kvs | Some _ \<Rightarrow> cj_action old),
      cj_governance := (case jp_governance p of None \<Rightarrow> cj_governance r | Some g \<Rightarrow> patch_governance g (cj_governance old)),
      cj_updated := now\<rparr>"

definition update_job :: "string \<Rightarrow> job_patch \<Rightarrow> int \<Rightarrow> cron_db \<Rightarrow> (store_error, cron_job) result \<times> cron_db" where
  "update_job i p now d =
     (case bind_result (get_job i d) (\<lambda>job.
             bind_result (case jp_schedule p of None \<Rightarrow> Inr () | Some s \<Rightarrow> if s \<noteq> cj_schedule job then check_schedule s else Inr ())
               (\<lambda>_. Inr job)) of
        Inl e \<Rightarrow> (Inl e, d)
      | Inr job \<Rightarrow>
          if empty_patch p then (Inr job, d)
          else (let d' = d\<lparr>cd_jobs := row_update cj_id i (apply_patch p now job) (cd_jobs d)\<rparr> in (get_job i d', d')))"

definition delete_job :: "string \<Rightarrow> cron_db \<Rightarrow> (store_error, unit) result \<times> cron_db" where
  "delete_job i d =
     (let d' = d\<lparr>cd_jobs := row_delete cj_id i (cd_jobs d)\<rparr>
      in if length (cd_jobs d') = length (cd_jobs d) then (Inl (Unknown_Job i), d') else (Inr (), d'))"

section \<open>Runs\<close>

definition start_run :: "string \<Rightarrow> string \<Rightarrow> nat \<Rightarrow> int \<Rightarrow> cron_db \<Rightarrow> nat \<times> cron_db" where
  "start_run job trig attempt now d =
     (cd_next d, d\<lparr>cd_runs := cd_runs d @ [\<lparr>cr_id = cd_next d, cr_job = job, cr_status = ''RUNNING'', cr_trigger = trig,
        cr_started = now, cr_finished = None, cr_duration = None, cr_attempt = attempt, cr_summary = JObj [], cr_error = None\<rparr>],
        cd_next := Suc (cd_next d)\<rparr>)"

definition finish_run :: "nat \<Rightarrow> string \<Rightarrow> json \<Rightarrow> string option \<Rightarrow> int \<Rightarrow> cron_db \<Rightarrow> (store_error, unit) result \<times> cron_db" where
  "finish_run i status summary error now d =
     (if status \<notin> set RUN_STATUSES then (Inl (Bad_Status status), d)
      else (Inr (), d\<lparr>cd_runs := row_update cr_id i
        (\<lambda>r. r\<lparr>cr_status := status, cr_finished := Some now, cr_duration := Some (now - cr_started r),
               cr_summary := summary, cr_error := error\<rparr>) (cd_runs d)\<rparr>))"

definition is_running :: "string \<Rightarrow> cron_db \<Rightarrow> bool" where
  "is_running job d = list_ex (\<lambda>r. cr_job r = job \<and> cr_status r = ''RUNNING'') (cd_runs d)"

definition runs_of :: "string \<Rightarrow> cron_db \<Rightarrow> cron_run list" where
  \<comment> \<open>\<^verbatim>\<open>WHERE job_id=? ORDER BY started_at DESC\<close>, the index on both columns read backwards\<close>
  "runs_of job d = rev (sort_key cr_started (filter (\<lambda>r. cr_job r = job) (cd_runs d)))"

definition history :: "string \<Rightarrow> int \<Rightarrow> cron_db \<Rightarrow> cron_run list" where
  "history job limit d = take (nat (max 0 limit)) (runs_of job d)"

definition list_runs :: "int \<Rightarrow> cron_db \<Rightarrow> cron_run list" where
  "list_runs limit d = take (nat (max 0 limit)) (rev (sort_key cr_started (rev (cd_runs d))))"

definition recover_inflight :: "int \<Rightarrow> cron_db \<Rightarrow> (nat \<times> string) list \<times> cron_db" where
  "recover_inflight now d =
     (map (\<lambda>r. (cr_id r, cr_job r)) (filter (\<lambda>r. cr_status r = ''RUNNING'') (cd_runs d)),
      d\<lparr>cd_runs := map (\<lambda>r. if cr_status r = ''RUNNING''
           then r\<lparr>cr_status := ''INTERRUPTED'', cr_finished := Some now, cr_error := Some ''interrupted by scheduler restart''\<rparr>
           else r) (cd_runs d)\<rparr>)"

definition prune_history :: "string \<Rightarrow> int \<Rightarrow> cron_db \<Rightarrow> nat \<times> cron_db" where
  "prune_history job keep d =
     (if keep \<le> 0 then (0, d)
      else (let old = drop (nat keep) (runs_of job d)
            in (length old, d\<lparr>cd_runs := filter (\<lambda>r. cr_id r \<notin> cr_id ` set old) (cd_runs d)\<rparr>)))"

section \<open>Every stored schedule parses\<close>

interpretation cron_jobs: keyed_table cj_id "\<lambda>f. \<forall>j. cj_id (f j) = cj_id j"
  by unfold_locales simp

interpretation cron_runs: keyed_table cr_id "\<lambda>f. \<forall>r. cr_id (f r) = cr_id r"
  by unfold_locales simp

definition schedules_parse :: "cron_db \<Rightarrow> bool" where
  "schedules_parse d \<longleftrightarrow> (\<forall>j \<in> set (cd_jobs d). \<exists>e. parse (cj_schedule j) = Inr e)"

lemma dropWhile_idem: "dropWhile P (dropWhile P xs) = dropWhile P xs"
  by (induction xs) auto

lemma py_strip_idem: "py_strip (py_strip s) = py_strip s"
proof -
  let ?d = "dropWhile is_space"
  have "?d (rev (?d (rev (?d s)))) = rev (?d (rev (?d s)))"
  proof (cases "rev (?d (rev (?d s)))")
    case (Cons c cs)
    have "?d s \<noteq> []"
    proof
      assume "?d s = []"
      with Cons show False by (simp del: dropWhile_eq_Nil_conv)
    qed
    then have h: "\<not> is_space (hd (?d s))" by (rule hd_dropWhile)
    obtain zs where z: "?d s = rev (?d (rev (?d s))) @ zs"
      by (metis rev_append rev_rev_ident takeWhile_dropWhile_id)
    then have "hd (?d s) = c" using Cons by (metis hd_append2 list.sel(1) list.distinct(1))
    with h have "\<not> is_space c" by metis
    then show ?thesis unfolding Cons by simp
  next
    case Nil
    then show ?thesis by (simp only: dropWhile.simps)
  qed
  then show ?thesis by (simp add: py_strip_def dropWhile_idem)
qed

lemma parse_strip: "parse (py_strip s) = parse s"
  by (simp only: parse_def py_strip_idem)

lemma check_schedule_Inr: "check_schedule s = Inr () \<longleftrightarrow> (\<exists>e. parse s = Inr e)"
  by (auto simp: check_schedule_def split: sum.splits)

datatype job_op =
    Create_Job string string string "(jkey \<times> json) list" bool governance_patch int
  | Update_Job string job_patch int
  | Delete_Job string

fun job_step :: "job_op \<Rightarrow> cron_db \<Rightarrow> cron_db" where
  "job_step (Create_Job i n s a en g now) d = snd (create_job i n s a en g now d)"
| "job_step (Update_Job i p now) d = snd (update_job i p now d)"
| "job_step (Delete_Job i) d = snd (delete_job i d)"

lemma job_step_schedules: "schedules_parse d \<Longrightarrow> schedules_parse (job_step x d)"
proof (cases x)
  case (Create_Job i n s a en g now)
  assume "schedules_parse d"
  with Create_Job show ?thesis
    by (auto simp: create_job_def Let_def schedules_parse_def row_insert_def result_simps check_schedule_Inr parse_strip
        split: sum.splits if_splits)
next
  case (Update_Job i p now)
  assume wf: "schedules_parse d"
  let ?r = "bind_result (get_job i d) (\<lambda>job. bind_result (case jp_schedule p of None \<Rightarrow> Inr ()
      | Some s \<Rightarrow> if s \<noteq> cj_schedule job then check_schedule s else Inr ()) (\<lambda>_. Inr job))"
  show ?thesis
  proof (cases ?r)
    case (Inl e)
    with wf Update_Job show ?thesis by (simp add: update_job_def)
  next
    case (Inr job)
    then have job: "get_job i d = Inr job"
        "(case jp_schedule p of None \<Rightarrow> Inr () | Some s \<Rightarrow> if s \<noteq> cj_schedule job then check_schedule s else Inr ()) = Inr ()"
      by (auto simp: result_simps)
    have "job \<in> set (cd_jobs d)" using job(1) cron_jobs.row_of_key by (auto simp: get_job_def split: option.splits)
    then have "\<exists>e. parse (cj_schedule job) = Inr e" using wf by (simp add: schedules_parse_def)
    then have "\<exists>e. parse (cj_schedule (apply_patch p now job r)) = Inr e" if "\<exists>e. parse (cj_schedule r) = Inr e" for r
      using job(2) that by (auto simp: apply_patch_def check_schedule_Inr split: option.splits if_splits)
    then show ?thesis
      using wf Inr Update_Job by (auto simp: update_job_def schedules_parse_def row_update_def Let_def)
  qed
next
  case (Delete_Job i)
  assume "schedules_parse d"
  with Delete_Job show ?thesis
    by (auto simp: delete_job_def Let_def schedules_parse_def row_delete_def)
qed

text \<open>Whatever sequence of creations, updates and deletions a store has gone through, accepted or refused,
  the schedule of every stored job parses: a bad expression is never stored.\<close>

theorem stored_schedules_parse: "schedules_parse (fold job_step xs empty_cron)"
proof -
  have "schedules_parse d \<Longrightarrow> schedules_parse (fold job_step xs d)" for d
    by (induction xs arbitrary: d) (simp_all add: job_step_schedules)
  moreover have "schedules_parse empty_cron" by (simp add: schedules_parse_def empty_cron_def)
  ultimately show ?thesis by blast
qed

section \<open>Runs in flight, recovery and pruning\<close>

definition runs_wf :: "cron_db \<Rightarrow> bool" where
  "runs_wf d \<longleftrightarrow> cron_runs.wf_table (cd_runs d) \<and> (\<forall>r \<in> set (cd_runs d). cr_id r < cd_next d)"

lemma start_run_wf: "runs_wf d \<Longrightarrow> runs_wf (snd (start_run job trig k now d))"
  by (auto simp: runs_wf_def start_run_def cron_runs.wf_table_def less_SucI)

lemma finish_run_wf: "runs_wf d \<Longrightarrow> runs_wf (snd (finish_run i st sm e now d))"
  by (auto simp: runs_wf_def finish_run_def cron_runs.wf_update) (auto simp: row_update_def)

lemma recover_none_running: "\<not> is_running job (snd (recover_inflight now d))"
  by (auto simp: is_running_def recover_inflight_def list_ex_iff)

lemma recover_keeps_others:
  "r \<in> set (cd_runs d) \<Longrightarrow> cr_status r \<noteq> ''RUNNING'' \<Longrightarrow> r \<in> set (cd_runs (snd (recover_inflight now d)))"
  by (force simp: recover_inflight_def)

lemma set_runs_of [simp]: "set (runs_of job d) = {r \<in> set (cd_runs d). cr_job r = job}"
  by (simp add: runs_of_def)

lemma runs_of_sorted: "sorted_wrt (\<lambda>r q. cr_started q \<le> cr_started r) (runs_of job d)"
proof -
  have "sorted (map cr_started (sort_key cr_started rs))" for rs by simp
  then show ?thesis by (simp add: runs_of_def sorted_wrt_rev sorted_map)
qed

lemma runs_of_head: "runs_of job d = r # rs \<Longrightarrow> q \<in> set (cd_runs d) \<Longrightarrow> cr_job q = job \<Longrightarrow> cr_started q \<le> cr_started r"
  using runs_of_sorted [of job d] set_runs_of [of job d] by auto

lemma prune_keeps_other_jobs:
  assumes "runs_wf d" "r \<in> set (cd_runs d)" "cr_job r \<noteq> job"
  shows "r \<in> set (cd_runs (snd (prune_history job keep d)))"
proof -
  have "cr_id r \<notin> cr_id ` set (drop n (runs_of job d))" for n
  proof
    assume "cr_id r \<in> cr_id ` set (drop n (runs_of job d))"
    then obtain q where "q \<in> set (cd_runs d)" "cr_job q = job" "cr_id q = cr_id r"
      using set_drop_subset [of n] by fastforce
    then have "q = r" using assms(1,2) by (auto simp: runs_wf_def cron_runs.wf_table_def distinct_map inj_on_def)
    with \<open>cr_job q = job\<close> assms(3) show False by simp
  qed
  then show ?thesis using assms(2) by (simp add: prune_history_def Let_def)
qed

end
