(* ===== verification/Cron_Scheduler.thy ===== *)
theory Cron_Scheduler
  imports Cron_Store Gov_KillSwitch Pytext "HOL-Library.Multiset"
begin

text \<open>
  The heartbeat of scheduled jobs (\<^verbatim>\<open>cron/scheduler.py\<close>): the governed run of one
  job with its retries, the records of runs that never start, and the jobs that are due in a
  minute. The store's writes succeed: a storage error while a run is closed, which leaves its row
  RUNNING until the next recovery, is not modelled. The action runner, the clock, the kill switch, the audit chain and the receipt stream
  are an environment over a world state; dashes in messages are written as hyphens.
\<close>

section \<open>Environment\<close>

datatype action_outcome = Act_Result json | Act_Timeout | Act_Error string string

record ('c, 's) cron_env =
  ce_append :: "'c appender"
  ce_clock :: "'s \<Rightarrow> int"
  ce_switch :: "'s \<Rightarrow> kill_io \<times> kill_db"
  ce_stream :: "'s \<Rightarrow> bool"          \<comment> \<open>whether a receipt can be appended\<close>
  ce_act :: "json \<Rightarrow> json \<Rightarrow> 's \<Rightarrow> action_outcome \<times> 's"   \<comment> \<open>type and parameters\<close>
  ce_keep :: int

record cron_receipt =
  ct_run :: nat
  ct_job :: string
  ct_trigger :: string
  ct_action :: "(jkey \<times> json) list"
  ct_schedule :: string
  ct_status :: string
  ct_attempts :: nat
  ct_result :: json
  ct_seq :: "nat option"

record ('c, 's) cron_state =
  cs_db :: cron_db
  cs_chain :: 'c
  cs_receipts :: "cron_receipt list"
  cs_world :: 's

record run_answer =
  ra_job :: string
  ra_run :: "nat option"
  ra_status :: string
  ra_reason :: "string option"
  ra_attempts :: "nat option"
  ra_result :: "json option"
  ra_trigger :: string

definition now_of :: "('c, 's) cron_env \<Rightarrow> ('c, 's) cron_state \<Rightarrow> int" where
  "now_of env s = ce_clock env (cs_world s)"

section \<open>One run\<close>

definition noop_result :: "string \<Rightarrow> json" where
  "noop_result why = obj [(''ok'', JBool False), (''summary'', JStr why), (''detail'', JObj [])]"

definition result_field :: "string \<Rightarrow> json \<Rightarrow> json option" where
  "result_field k v = (case v of JObj kvs \<Rightarrow> map_of kvs (KStr k) | _ \<Rightarrow> None)"

definition action_result :: "job_governance \<Rightarrow> action_outcome \<Rightarrow> json" where
  \<comment> \<open>timeouts, exceptions and malformed results become failed results\<close>
  "action_result g out =
     (case out of
        Act_Timeout \<Rightarrow> noop_result (''timed out after '' @ show_float (jg_timeout_s g) @ ''s'')
      | Act_Error c m \<Rightarrow> noop_result (''runner error: '' @ c @ '': '' @ m)
      | Act_Result v \<Rightarrow> if result_field ''ok'' v = None
                        then noop_result (''action returned a malformed result: '' @ repr_json v) else v)"

definition succeeded :: "json \<Rightarrow> bool" where
  "succeeded v = (case result_field ''ok'' v of None \<Rightarrow> False | Some x \<Rightarrow> truthy x)"

definition summary_text :: "json \<Rightarrow> string" where
  "summary_text v = (case result_field ''summary'' v of None \<Rightarrow> ''None'' | Some x \<Rightarrow> str_json x)"

definition emit_receipt :: "('c, 's) cron_env \<Rightarrow> cron_job \<Rightarrow> nat \<Rightarrow> string \<Rightarrow> string \<Rightarrow> json \<Rightarrow> nat \<Rightarrow>
    ('c, 's) cron_state \<Rightarrow> ('c, 's) cron_state" where
  "emit_receipt env job run trig status result attempts s =
     (let (sq, c) = ce_append env (cs_chain s) ''cron'' (''cron.'' @ py_lower status)
            (obj [(''job_id'', JStr (cj_id job)), (''run_id'', JInt (int run)), (''status'', JStr status)]);
          rc = \<lparr>ct_run = run, ct_job = cj_id job, ct_trigger = trig, ct_action = cj_action job, ct_schedule = cj_schedule job,
                ct_status = status, ct_attempts = attempts, ct_result = result, ct_seq = sq\<rparr>
      in s\<lparr>cs_chain := c, cs_receipts := (if ce_stream env (cs_world s) then cs_receipts s @ [rc] else cs_receipts s)\<rparr>)"

definition record_noop :: "('c, 's) cron_env \<Rightarrow> cron_job \<Rightarrow> string \<Rightarrow> string \<Rightarrow> string \<Rightarrow> ('c, 's) cron_state \<Rightarrow>
    run_answer \<times> ('c, 's) cron_state" where
  "record_noop env job trig status why s =
     (let (run, d1) = start_run (cj_id job) trig 1 (now_of env s) (cs_db s);
          d2 = snd (finish_run run status (noop_result why) (Some why) (now_of env s) d1)
      in (\<lparr>ra_job = cj_id job, ra_run = Some run, ra_status = status, ra_reason = Some why, ra_attempts = None,
           ra_result = None, ra_trigger = trig\<rparr>,
          emit_receipt env job run trig status (noop_result why) 1 (s\<lparr>cs_db := d2\<rparr>)))"

definition switch_reason :: "kill_io \<times> kill_db \<Rightarrow> string option" where
  "switch_reason = (\<lambda>(io, d).
     let st = kill_state io d
     in if \<not> kst_armed st then None
        else if kst_fail_closed st then Some ''kill switch unreadable''
        else (case Option.bind (kst_row st) ar_reason of
                Some w \<Rightarrow> Some (if w \<noteq> [] then w else ''global kill switch armed'')
              | None \<Rightarrow> Some ''global kill switch armed''))"

definition attempt_run :: "('c, 's) cron_env \<Rightarrow> cron_job \<Rightarrow> string \<Rightarrow> nat \<Rightarrow> ('c, 's) cron_state \<Rightarrow>
    nat \<times> json \<times> ('c, 's) cron_state" where
  \<comment> \<open>one pass of the retry loop: its run id, its result and the state\<close>
  "attempt_run env job trig k s =
     (let (run, d1) = start_run (cj_id job) trig k (now_of env s) (cs_db s);
          act_type = (case map_of (cj_action job) (KStr ''type'') of None \<Rightarrow> JStr [] | Some v \<Rightarrow> v);
          params = (case map_of (cj_action job) (KStr ''params'') of None \<Rightarrow> JObj [] | Some v \<Rightarrow> if truthy v then v else JObj []);
          (out, w) = ce_act env act_type params (cs_world s);
          result = action_result (cj_governance job) out;
          status = (if succeeded result then ''SUCCESS'' else ''FAILED'');
          error = (if succeeded result then None else Some (summary_text result));
          s1 = s\<lparr>cs_world := w\<rparr>;
          d2 = snd (finish_run run status result error (now_of env s1) d1)
      in (run, result, emit_receipt env job run trig status result k (s1\<lparr>cs_db := d2\<rparr>)))"

fun run_attempts :: "('c, 's) cron_env \<Rightarrow> cron_job \<Rightarrow> string \<Rightarrow> nat \<Rightarrow> nat \<Rightarrow> ('c, 's) cron_state \<Rightarrow>
    nat \<times> nat \<times> json \<times> ('c, 's) cron_state" where
  \<comment> \<open>\<open>n\<close> retries left, attempt number \<open>k\<close>\<close>
  "run_attempts env job trig n k s =
     (case attempt_run env job trig k s of (run, result, s') \<Rightarrow>
        if succeeded result then (run, k, result, s')
        else (case n of 0 \<Rightarrow> (run, k, result, s') | Suc m \<Rightarrow> run_attempts env job trig m (Suc k) s'))"

declare run_attempts.simps [simp del]

definition execute_job :: "('c, 's) cron_env \<Rightarrow> cron_job \<Rightarrow> string \<Rightarrow> ('c, 's) cron_state \<Rightarrow> run_answer \<times> ('c, 's) cron_state" where
  "execute_job env job trig s =
     (let (run, k, result, s') = run_attempts env job trig (nat (max 0 (jg_max_retries (cj_governance job)))) 1 s;
          d = snd (prune_history (cj_id job) (max 1 (ce_keep env)) (cs_db s'))
      in (\<lparr>ra_job = cj_id job, ra_run = Some run, ra_status = (if succeeded result then ''SUCCESS'' else ''FAILED''),
           ra_reason = None, ra_attempts = Some k, ra_result = Some result, ra_trigger = trig\<rparr>, s'\<lparr>cs_db := d\<rparr>))"

definition run_job :: "('c, 's) cron_env \<Rightarrow> string \<Rightarrow> string \<Rightarrow> ('c, 's) cron_state \<Rightarrow>
    (store_error, run_answer) result \<times> ('c, 's) cron_state" where
  "run_job env i trig s =
     (case get_job i (cs_db s) of
        Inl e \<Rightarrow> (Inl e, s)
      | Inr job \<Rightarrow>
          if is_running i (cs_db s)
          then (Inr \<lparr>ra_job = i, ra_run = None, ra_status = ''SKIPPED'', ra_reason = Some ''job already running (overlap guard)'',
                     ra_attempts = None, ra_result = None, ra_trigger = trig\<rparr>, s)
          else (case switch_reason (ce_switch env (cs_world s)) of
              Some why \<Rightarrow> (case record_noop env job trig ''BLOCKED'' (''kill switch: '' @ why) s of (a, s') \<Rightarrow> (Inr a, s'))
            | None \<Rightarrow>
                if trig = ''schedule'' \<and> jg_requires_approval (cj_governance job)
                then (case record_noop env job trig ''SKIPPED'' ''requires_approval - parked for operator'' s of (a, s') \<Rightarrow> (Inr a, s'))
                else (case execute_job env job trig s of (a, s') \<Rightarrow> (Inr a, s'))))"

section \<open>Due jobs\<close>

definition already_fired :: "string \<Rightarrow> int \<Rightarrow> cron_db \<Rightarrow> bool" where
  "already_fired i minute d =
     (case history i 1 d of
        [] \<Rightarrow> False
      | r # _ \<Rightarrow> cr_trigger r = ''schedule'' \<and> floor_minute (cr_started r) = minute)"

definition due_job :: "int \<Rightarrow> cron_db \<Rightarrow> cron_job \<Rightarrow> bool" where
  "due_job minute d job \<longleftrightarrow> cj_enabled job \<and> \<not> is_running (cj_id job) d \<and>
     (case parse (cj_schedule job) of Inl _ \<Rightarrow> False | Inr e \<Rightarrow> matches e minute) \<and>
     \<not> already_fired (cj_id job) minute d"

definition due_jobs :: "int \<Rightarrow> cron_db \<Rightarrow> cron_job list" where
  "due_jobs minute d = filter (due_job minute d) (list_jobs d)"

definition tick :: "('c, 's) cron_env \<Rightarrow> ('c, 's) cron_state \<Rightarrow> run_answer list \<times> ('c, 's) cron_state" where
  \<comment> \<open>the due jobs are listed once, then run in turn; a run that raises is logged and skipped\<close>
  "tick env s = fold
     (\<lambda>job (as, s). case run_job env (cj_id job) ''schedule'' s of (Inl _, s') \<Rightarrow> (as, s') | (Inr a, s') \<Rightarrow> (as @ [a], s'))
     (due_jobs (floor_minute (now_of env s)) (cs_db s)) ([], s)"

fun run_loop :: "('c, 's) cron_env \<Rightarrow> ('s \<Rightarrow> 's) \<Rightarrow> nat \<Rightarrow> ('c, 's) cron_state \<Rightarrow> ('c, 's) cron_state" where
  \<comment> \<open>the first ticks of the heartbeat after the recovery, with the sleep between them\<close>
  "run_loop env sleep 0 s = s"
| "run_loop env sleep (Suc n) s = (let s' = snd (tick env s) in run_loop env sleep n (s'\<lparr>cs_world := sleep (cs_world s')\<rparr>))"

definition start_loop :: "('c, 's) cron_env \<Rightarrow> ('s \<Rightarrow> 's) \<Rightarrow> nat \<Rightarrow> ('c, 's) cron_state \<Rightarrow> ('c, 's) cron_state" where
  "start_loop env sleep n s = run_loop env sleep n (s\<lparr>cs_db := snd (recover_inflight (now_of env s) (cs_db s))\<rparr>)"

section \<open>Laws\<close>

definition none_running :: "cron_db \<Rightarrow> bool" where
  "none_running d \<longleftrightarrow> (\<forall>r \<in> set (cd_runs d). cr_status r \<noteq> ''RUNNING'')"

lemma none_running_is_running: "none_running d \<Longrightarrow> \<not> is_running i d"
  by (auto simp: none_running_def is_running_def list_ex_iff)

lemma start_finish_runs:
  assumes "runs_wf d" "status \<in> set RUN_STATUSES"
  shows "cd_runs (snd (finish_run (fst (start_run job trig k now d)) status sm e now' (snd (start_run job trig k now d)))) =
     cd_runs d @ [\<lparr>cr_id = cd_next d, cr_job = job, cr_status = status, cr_trigger = trig, cr_started = now, cr_finished = Some now',
       cr_duration = Some (now' - now), cr_attempt = k, cr_summary = sm, cr_error = e\<rparr>]"
proof -
  have "map (\<lambda>r. if cr_id r = cd_next d then f r else r) (cd_runs d) = cd_runs d" for f
    using assms(1) by (intro map_idI) (auto simp: runs_wf_def)
  then show ?thesis using assms(2) by (simp add: start_run_def finish_run_def row_update_def)
qed

lemma emit_receipt_db [simp]: "cs_db (emit_receipt env job run trig st r k s) = cs_db s" "cs_world (emit_receipt env job run trig st r k s) = cs_world s"
  by (simp_all add: emit_receipt_def Let_def split: prod.splits)


lemma runs_wf_id: "runs_wf d \<Longrightarrow> r \<in> set (cd_runs d) \<Longrightarrow> cr_id r < cd_next d"
  by (simp add: runs_wf_def)

lemma prune_runs: "set (cd_runs (snd (prune_history job k d))) \<subseteq> set (cd_runs d)"
  by (simp add: prune_history_def Let_def)

lemma prune_wf: "runs_wf d \<Longrightarrow> runs_wf (snd (prune_history job k d))"
  by (auto simp: runs_wf_def prune_history_def Let_def cron_runs.wf_table_def distinct_map intro: inj_on_subset)

text \<open>One transition covers a run that was executed and one that was refused: a finished row is
  added under a fresh id.\<close>

definition closed_run :: "string \<Rightarrow> string \<Rightarrow> int \<Rightarrow> cron_run \<Rightarrow> bool" where
  "closed_run job trig now r \<longleftrightarrow> cr_job r = job \<and> cr_trigger r = trig \<and> cr_started r = now \<and> cr_status r \<in> set TERMINAL_STATUSES"

definition adds_run :: "string \<Rightarrow> string \<Rightarrow> int \<Rightarrow> cron_db \<Rightarrow> cron_db \<Rightarrow> bool" where
  "adds_run job trig now d d' \<longleftrightarrow> cd_jobs d' = cd_jobs d \<and> runs_wf d' \<and> cd_next d \<le> cd_next d' \<and>
     (\<exists>r. cd_runs d' = cd_runs d @ [r] \<and> cd_next d \<le> cr_id r \<and> closed_run job trig now r)"

lemma start_finish_adds:
  assumes "runs_wf d" "status \<in> set TERMINAL_STATUSES"
  shows "adds_run job trig now d (snd (finish_run (fst (start_run job trig k now d)) status sm e now' (snd (start_run job trig k now d))))"
proof -
  have "status \<in> set RUN_STATUSES" using assms(2) by (auto simp: RUN_STATUSES_def TERMINAL_STATUSES_def)
  note rows = start_finish_runs [OF assms(1) this]
  have jobs: "cd_jobs (snd (finish_run i status sm e now' (snd (start_run job trig k now d)))) = cd_jobs d"
      "cd_next (snd (finish_run i status sm e now' (snd (start_run job trig k now d)))) = Suc (cd_next d)" for i
    by (simp_all add: finish_run_def start_run_def)
  show ?thesis
    unfolding adds_run_def rows jobs
    using assms by (simp add: closed_run_def finish_run_wf start_run_wf)
qed

lemma record_noop_adds:
  assumes "runs_wf (cs_db s)" "status \<in> set TERMINAL_STATUSES" "record_noop env job trig status why s = (a, s')"
  shows "adds_run (cj_id job) trig (now_of env s) (cs_db s) (cs_db s')" "cs_world s' = cs_world s"
    "ra_status a = status" "ra_run a = Some (cd_next (cs_db s))"
  using assms(3) start_finish_adds [OF assms(1,2)]
  by (auto simp: record_noop_def Let_def start_run_def)

lemma attempt_run_adds:
  assumes "runs_wf (cs_db s)" "attempt_run env job trig k s = (run, v, s')"
  shows "adds_run (cj_id job) trig (now_of env s) (cs_db s) (cs_db s')"
  using assms(2) start_finish_adds [OF assms(1), where status = "''SUCCESS''"]
    start_finish_adds [OF assms(1), where status = "''FAILED''"]
  by (auto simp: attempt_run_def Let_def TERMINAL_STATUSES_def start_run_def split: prod.splits)

lemma adds_run_none_running: "adds_run job trig now d d' \<Longrightarrow> none_running d \<Longrightarrow> none_running d'"
  by (auto simp: adds_run_def closed_run_def none_running_def TERMINAL_STATUSES_def)

text \<open>What the attempts of one job add to the runs, with the clock readings they started at.\<close>

definition more_runs :: "string \<Rightarrow> string \<Rightarrow> (int \<Rightarrow> bool) \<Rightarrow> cron_db \<Rightarrow> cron_db \<Rightarrow> bool" where
  "more_runs job trig P d d' \<longleftrightarrow> cd_jobs d' = cd_jobs d \<and> runs_wf d' \<and> cd_next d \<le> cd_next d' \<and>
     (\<exists>rs. rs \<noteq> [] \<and> cd_runs d' = cd_runs d @ rs \<and>
        (\<forall>r \<in> set rs. P (cr_started r) \<and> cd_next d \<le> cr_id r \<and> closed_run job trig (cr_started r) r))"

lemma adds_more: "adds_run job trig now d d' \<Longrightarrow> P now \<Longrightarrow> more_runs job trig P d d'"
  by (auto simp: adds_run_def more_runs_def closed_run_def)

lemma more_runs_trans: "more_runs job trig P d d1 \<Longrightarrow> more_runs job trig P d1 d2 \<Longrightarrow> more_runs job trig P d d2"
  unfolding more_runs_def by (elim conjE exE) (fastforce intro: order_trans)

lemma run_attempts_more:
  assumes "runs_wf (cs_db s)" "\<forall>w. P (ce_clock env w)" "run_attempts env job trig n k s = (run, j, v, s')"
  shows "more_runs (cj_id job) trig P (cs_db s) (cs_db s')"
  using assms
proof (induction n arbitrary: k s)
  case 0
  obtain run1 v1 s1 where a: "attempt_run env job trig k s = (run1, v1, s1)" by (cases "attempt_run env job trig k s") auto
  then have "s' = s1" using 0(3) by (simp add: run_attempts.simps [of _ _ _ 0] split: if_splits)
  then show ?case using attempt_run_adds [OF 0(1) a] 0(2) by (auto simp: now_of_def intro: adds_more)
next
  case (Suc n)
  obtain run1 v1 s1 where a: "attempt_run env job trig k s = (run1, v1, s1)" by (cases "attempt_run env job trig k s") auto
  have first: "more_runs (cj_id job) trig P (cs_db s) (cs_db s1)"
    using attempt_run_adds [OF Suc.prems(1) a] Suc.prems(2) by (auto simp: now_of_def intro: adds_more)
  show ?case
  proof (cases "succeeded v1")
    case True
    then show ?thesis using Suc.prems(3) a first by (simp add: run_attempts.simps [of _ _ _ "Suc n"])
  next
    case False
    then have "run_attempts env job trig n (Suc k) s1 = (run, j, v, s')"
      using Suc.prems(3) a by (simp add: run_attempts.simps [of _ _ _ "Suc n"])
    moreover have "runs_wf (cs_db s1)" using first by (simp add: more_runs_def)
    ultimately have "more_runs (cj_id job) trig P (cs_db s1) (cs_db s')" using Suc.IH Suc.prems(2) by blast
    with first show ?thesis by (rule more_runs_trans)
  qed
qed

lemma run_attempts_count:
  "run_attempts env job trig n k s = (run, j, v, s') \<Longrightarrow> k \<le> j \<and> j \<le> k + n \<and> (succeeded v \<or> j = k + n)"
proof (induction n arbitrary: k s)
  case 0
  then show ?case by (auto simp: run_attempts.simps [of _ _ _ 0] split: prod.splits if_splits)
next
  case (Suc n)
  then show ?case
    by (simp add: run_attempts.simps [of _ _ _ "Suc n"] split: prod.splits if_splits) fastforce
qed

text \<open>What one call of \<open>run_job\<close> does to the database.\<close>

lemma switch_none_iff: "switch_reason io = None \<longleftrightarrow> \<not> is_armed (fst io) (snd io)"
  by (cases io) (auto simp: switch_reason_def is_armed_def Let_def split: option.splits)

inductive run_effect :: "string \<Rightarrow> string \<Rightarrow> (int \<Rightarrow> bool) \<Rightarrow> int \<Rightarrow> cron_db \<Rightarrow> cron_db \<Rightarrow> bool"
  for job trig P keep d where
  nothing: "(\<nexists>j. get_job job d = Inr j) \<or> is_running job d \<Longrightarrow> run_effect job trig P keep d d"
| refused: "more_runs job trig P d d' \<Longrightarrow> run_effect job trig P keep d d'"
| executed: "more_runs job trig P d d1 \<Longrightarrow> d' = snd (prune_history job (max 1 keep) d1) \<Longrightarrow> run_effect job trig P keep d d'"

lemma get_job_id: "get_job i d = Inr job \<Longrightarrow> cj_id job = i"
  using cron_jobs.row_of_key by (auto simp: get_job_def split: option.splits)

lemma run_job_effect:
  assumes wf: "runs_wf (cs_db s)" and P: "\<forall>w. P (ce_clock env w)"
  shows "run_effect i trig P (ce_keep env) (cs_db s) (cs_db (snd (run_job env i trig s)))"
proof (cases "get_job i (cs_db s)")
  case (Inl e)
  then show ?thesis by (simp add: run_job_def run_effect.nothing)
next
  case (Inr job)
  then have i: "cj_id job = i" by (rule get_job_id)
  have noop: "run_effect i trig P (ce_keep env) (cs_db s) (cs_db (snd (record_noop env job trig st why s)))"
    if "st \<in> set TERMINAL_STATUSES" for st why
  proof -
    obtain a s' where r: "record_noop env job trig st why s = (a, s')" by (cases "record_noop env job trig st why s") auto
    show ?thesis using record_noop_adds(1) [OF wf that r] P unfolding r i
      by (auto simp: now_of_def intro!: refused intro: adds_more)
  qed
  have exe: "run_effect i trig P (ce_keep env) (cs_db s) (cs_db (snd (execute_job env job trig s)))"
  proof -
    obtain run j v s' where r: "run_attempts env job trig (nat (max 0 (jg_max_retries (cj_governance job)))) 1 s = (run, j, v, s')"
      by (cases "run_attempts env job trig (nat (max 0 (jg_max_retries (cj_governance job)))) 1 s") auto
    show ?thesis using run_attempts_more [OF wf P r] unfolding execute_job_def r i
      by (auto intro: executed)
  qed
  have db: "cs_db (snd (case p of (a, s') \<Rightarrow> (Inr a, s'))) = cs_db (snd p)" for p :: "run_answer \<times> ('a, 'b) cron_state"
    by (cases p) simp
  show ?thesis
  proof (cases "is_running i (cs_db s)")
    case True
    with Inr show ?thesis by (simp add: run_job_def run_effect.nothing)
  next
    case False
    show ?thesis
    proof (cases "switch_reason (ce_switch env (cs_world s))")
      case None
      with Inr False show ?thesis
        using noop [of "''SKIPPED''" "''requires_approval - parked for operator''"] exe
        by (cases "trig = ''schedule'' \<and> jg_requires_approval (cj_governance job)")
          (auto simp: run_job_def db TERMINAL_STATUSES_def simp del: not_None_eq)
    next
      case (Some why)
      with Inr False show ?thesis using noop by (simp add: run_job_def db TERMINAL_STATUSES_def)
    qed
  qed
qed

lemma closed_not_running: "closed_run job trig now r \<Longrightarrow> cr_status r \<noteq> ''RUNNING''"
  by (auto simp: closed_run_def TERMINAL_STATUSES_def)

lemma more_runs_kept:
  "more_runs job trig P d d' \<Longrightarrow> none_running d \<Longrightarrow> none_running d' \<and> runs_wf d'"
  using closed_not_running by (fastforce simp: more_runs_def none_running_def)

lemma none_running_subset: "none_running d \<Longrightarrow> set (cd_runs d') \<subseteq> set (cd_runs d) \<Longrightarrow> none_running d'"
  by (auto simp: none_running_def)

lemma run_effect_kept:
  assumes "run_effect job trig P keep d d'" "runs_wf d" "none_running d"
  shows "none_running d' \<and> runs_wf d'"
  using assms
proof (cases rule: run_effect.cases)
  case (executed d1)
  then show ?thesis
    using more_runs_kept [OF executed(1)] none_running_subset [OF _ prune_runs] executed(2) assms(3) by (simp add: prune_wf)
qed (auto dest: more_runs_kept)

definition idle :: "('c, 's) cron_state \<Rightarrow> bool" where
  "idle s \<longleftrightarrow> runs_wf (cs_db s) \<and> none_running (cs_db s)"

lemma run_job_idle: "idle s \<Longrightarrow> idle (snd (run_job env i trig s))"
  using run_job_effect [of s "\<lambda>_. True" env i trig] run_effect_kept by (auto simp: idle_def)

lemma fold_snd_invariant:
  assumes "\<And>x as s. I s \<Longrightarrow> I (snd (f x (as, s)))"
  shows "I s \<Longrightarrow> I (snd (fold f xs (as, s)))"
proof (induction xs arbitrary: as s)
  case (Cons x xs)
  then show ?case using assms [of s x as] by (cases "f x (as, s)") auto
qed simp

lemma tick_invariant:
  assumes "\<And>i s. I s \<Longrightarrow> I (snd (run_job env i ''schedule'' s))" "I s"
  shows "I (snd (tick env s))"
  unfolding tick_def
proof (rule fold_snd_invariant [where I = I, OF _ assms(2)])
  fix job :: cron_job and as s
  assume "I s"
  from assms(1) [OF this, of "cj_id job"]
  show "I (snd ((\<lambda>job (as, s). case run_job env (cj_id job) ''schedule'' s of
      (Inl _, s') \<Rightarrow> (as, s') | (Inr a, s') \<Rightarrow> (as @ [a], s')) job (as, s)))"
    by (cases "run_job env (cj_id job) ''schedule'' s") (auto split: sum.split)
qed

lemma tick_idle: "idle s \<Longrightarrow> idle (snd (tick env s))"
  by (rule tick_invariant [where I = idle]) (auto intro: run_job_idle)

lemma run_loop_idle: "idle s \<Longrightarrow> idle (run_loop env sl n s)"
proof (induction n arbitrary: s)
  case (Suc n)
  then have "idle ((snd (tick env s))\<lparr>cs_world := sl (cs_world (snd (tick env s)))\<rparr>)"
    using tick_idle [OF Suc.prems, of env] by (simp add: idle_def)
  then show ?case using Suc.IH by (simp add: Let_def)
qed simp

lemma recover_idle: "runs_wf d \<Longrightarrow> runs_wf (snd (recover_inflight now d)) \<and> none_running (snd (recover_inflight now d))"
proof -
  let ?d = "snd (recover_inflight now d)"
  have ids: "map cr_id (cd_runs ?d) = map cr_id (cd_runs d)"
    by (simp add: recover_inflight_def)
  then have "cr_id ` set (cd_runs ?d) = cr_id ` set (cd_runs d)" by (metis list.set_map)
  moreover have "cd_next ?d = cd_next d" "none_running ?d"
    by (auto simp: recover_inflight_def none_running_def)
  ultimately show "runs_wf d \<Longrightarrow> ?thesis"
    unfolding runs_wf_def cron_runs.wf_table_def ids by (metis image_iff)
qed

text \<open>What becomes of the rows found at the start: none is changed after the recovery, and one is missing only when
  enough runs of its job are kept.\<close>

definition recovered :: "int \<Rightarrow> cron_run \<Rightarrow> cron_run" where
  "recovered now r = (if cr_status r = ''RUNNING''
     then r\<lparr>cr_status := ''INTERRUPTED'', cr_finished := Some now, cr_error := Some ''interrupted by scheduler restart''\<rparr>
     else r)"

definition runs_kept :: "cron_run set \<Rightarrow> nat \<Rightarrow> int \<Rightarrow> cron_db \<Rightarrow> bool" where
  "runs_kept base next keep d \<longleftrightarrow> runs_wf d \<and> next \<le> cd_next d \<and>
     (\<forall>r \<in> set (cd_runs d). r \<in> base \<or> (next \<le> cr_id r \<and> cr_status r \<in> set TERMINAL_STATUSES)) \<and>
     (\<forall>r \<in> base. r \<in> set (cd_runs d) \<or> keep \<le> int (length (runs_of (cr_job r) d)))"

lemma length_runs_of: "length (runs_of j d) = length (filter (\<lambda>r. cr_job r = j) (cd_runs d))"
  by (simp add: runs_of_def)

lemma more_runs_keep:
  assumes "more_runs job trig P d d'" "runs_kept base next keep d"
  shows "runs_kept base next keep d'"
proof -
  obtain rs where rs: "cd_runs d' = cd_runs d @ rs" "\<forall>r \<in> set rs. cd_next d \<le> cr_id r \<and> closed_run job trig (cr_started r) r"
    using assms(1) by (auto simp: more_runs_def)
  have "length (runs_of j d) \<le> length (runs_of j d')" for j by (simp add: length_runs_of rs(1))
  then have "keep \<le> int (length (runs_of j d'))" if "keep \<le> int (length (runs_of j d))" for j
    using that by (metis order_trans zle_int)
  with assms rs show ?thesis by (fastforce simp: runs_kept_def more_runs_def closed_run_def)
qed

lemma pruned_runs_of:
  assumes "runs_wf d" "0 < k"
  shows "mset (runs_of job (snd (prune_history job k d))) = mset (take (nat k) (runs_of job d))"
proof -
  let ?rs = "runs_of job d" and ?keep = "\<lambda>r. cr_id r \<notin> cr_id ` set (drop (nat k) (runs_of job d))"
  have "mset (runs_of job (snd (prune_history job k d))) = filter_mset ?keep (mset ?rs)"
    using assms(2) by (simp add: runs_of_def prune_history_def Let_def mset_filter filter_filter_mset conj_commute
        flip: mset_filter)
  also have "\<dots> = mset (filter ?keep (take (nat k) ?rs @ drop (nat k) ?rs))" by simp
  also have "\<dots> = mset (take (nat k) ?rs)"
  proof -
    have "distinct (map cr_id (runs_of job d))"
      using assms(1) by (simp add: runs_of_def runs_wf_def cron_runs.wf_table_def distinct_map inj_on_def)
    then have "distinct (map cr_id (take (nat k) ?rs) @ map cr_id (drop (nat k) ?rs))"
      by (metis append_take_drop_id map_append)
    then have "filter ?keep (take (nat k) ?rs) = take (nat k) ?rs" "filter ?keep (drop (nat k) ?rs) = []"
      by (auto simp: filter_id_conv filter_empty_conv)
    then show ?thesis by (simp del: append_take_drop_id)
  qed
  finally show ?thesis .
qed

lemma prune_other_jobs:
  assumes "runs_wf d" "j \<noteq> job"
  shows "runs_of j (snd (prune_history job k d)) = runs_of j d"
proof -
  have "cr_id r \<notin> cr_id ` set (drop (nat k) (runs_of job d))" if "r \<in> set (cd_runs d)" "cr_job r = j" for r
  proof
    assume "cr_id r \<in> cr_id ` set (drop (nat k) (runs_of job d))"
    then obtain q where "q \<in> set (runs_of job d)" "cr_id q = cr_id r" using in_set_dropD by fastforce
    then have "q = r" "cr_job q = job"
      using assms(1) that(1) by (auto simp: runs_wf_def cron_runs.wf_table_def distinct_map inj_on_def)
    with that(2) assms(2) show False by simp
  qed
  then have "filter (\<lambda>r. cr_job r = j) (filter (\<lambda>r. cr_id r \<notin> cr_id ` set (drop (nat k) (runs_of job d))) (cd_runs d)) =
      filter (\<lambda>r. cr_job r = j) (cd_runs d)"
    unfolding filter_filter by (intro filter_cong) auto
  then show ?thesis by (simp add: runs_of_def prune_history_def Let_def)
qed

lemma prune_keeps_runs:
  assumes k: "runs_kept base next keep d" and pos: "0 < keep"
  shows "runs_kept base next keep (snd (prune_history job keep d))"
proof -
  let ?d = "snd (prune_history job keep d)"
  have wf: "runs_wf d" using k by (simp add: runs_kept_def)
  have len: "length (runs_of job ?d) = min (length (runs_of job d)) (nat keep)"
    using pruned_runs_of [OF wf pos, of job] by (metis size_mset length_take)
  have "r \<in> set (cd_runs ?d) \<or> keep \<le> int (length (runs_of (cr_job r) ?d))" if r: "r \<in> base" for r
  proof (cases "keep \<le> int (length (runs_of (cr_job r) d))")
    case True
    then show ?thesis using len prune_other_jobs [OF wf, of "cr_job r" job keep] pos
      by (cases "cr_job r = job") auto
  next
    case False
    with r k have mem: "r \<in> set (cd_runs d)" by (auto simp: runs_kept_def)
    have "set (runs_of (cr_job r) ?d) = set (runs_of (cr_job r) d)"
    proof (cases "cr_job r = job")
      case True
      with False have "take (nat keep) (runs_of job d) = runs_of job d" by simp
      with True pruned_runs_of [OF wf pos, of job] show ?thesis by (metis set_mset_mset)
    next
      case False
      with prune_other_jobs [OF wf] show ?thesis by simp
    qed
    with mem show ?thesis by auto
  qed
  moreover have "cd_next ?d = cd_next d" by (simp add: prune_history_def Let_def)
  ultimately show ?thesis using k prune_runs [of job keep d] prune_wf [OF wf] by (auto simp: runs_kept_def)
qed

lemma run_job_keeps_runs:
  assumes "runs_kept base next (max 1 (ce_keep env)) (cs_db s)"
  shows "runs_kept base next (max 1 (ce_keep env)) (cs_db (snd (run_job env i trig s)))"
proof -
  have "run_effect i trig (\<lambda>_. True) (ce_keep env) (cs_db s) (cs_db (snd (run_job env i trig s)))"
    using assms by (intro run_job_effect) (simp_all add: runs_kept_def)
  then show ?thesis
  proof (cases rule: run_effect.cases)
    case nothing
    with assms show ?thesis by simp
  next
    case refused
    from more_runs_keep [OF this assms] show ?thesis .
  next
    case (executed d1)
    from prune_keeps_runs [OF more_runs_keep [OF executed(1) assms]] executed(2) show ?thesis by simp
  qed
qed

lemma tick_keeps_runs:
  "runs_kept base next (max 1 (ce_keep env)) (cs_db s) \<Longrightarrow> runs_kept base next (max 1 (ce_keep env)) (cs_db (snd (tick env s)))"
  by (rule tick_invariant [where I = "\<lambda>s. runs_kept base next (max 1 (ce_keep env)) (cs_db s)"]) (auto intro: run_job_keeps_runs)

lemma run_loop_keeps_runs:
  "runs_kept base next (max 1 (ce_keep env)) (cs_db s) \<Longrightarrow> runs_kept base next (max 1 (ce_keep env)) (cs_db (run_loop env sl n s))"
proof (induction n arbitrary: s)
  case (Suc n)
  then show ?case using tick_keeps_runs [OF Suc.prems] by (simp add: Let_def)
qed simp

lemma recover_keeps_runs:
  assumes "runs_wf d"
  shows "runs_kept (recovered now ` set (cd_runs d)) (cd_next d) keep (snd (recover_inflight now d))"
proof -
  have "cd_runs (snd (recover_inflight now d)) = map (recovered now) (cd_runs d)"
    by (simp add: recover_inflight_def recovered_def)
  moreover have "cd_next (snd (recover_inflight now d)) = cd_next d" by (simp add: recover_inflight_def)
  ultimately show ?thesis using recover_idle [OF assms, of now] by (simp add: runs_kept_def)
qed

lemma due_not_running: "job \<in> set (due_jobs m d) \<Longrightarrow> \<not> is_running (cj_id job) d"
  by (simp add: due_jobs_def due_job_def)

section \<open>Once a minute\<close>

definition fired_in :: "string \<Rightarrow> int \<Rightarrow> cron_db \<Rightarrow> bool" where
  \<comment> \<open>a run of the job started at or after the minute, and each such run is one of the schedule in it\<close>
  "fired_in i m d \<longleftrightarrow> (\<exists>r \<in> set (cd_runs d). cr_job r = i \<and> m \<le> cr_started r) \<and>
     (\<forall>r \<in> set (cd_runs d). cr_job r = i \<longrightarrow> m \<le> cr_started r \<longrightarrow> cr_trigger r = ''schedule'' \<and> floor_minute (cr_started r) = m)"

lemma fired_in_already: "fired_in i m d \<Longrightarrow> already_fired i m d"
proof (cases "runs_of i d")
  case Nil
  assume "fired_in i m d"
  then have "set (runs_of i d) \<noteq> {}" by (auto simp: fired_in_def)
  with Nil show ?thesis by simp
next
  case (Cons r rs)
  assume f: "fired_in i m d"
  then obtain q where q: "q \<in> set (cd_runs d)" "cr_job q = i" "m \<le> cr_started q" by (auto simp: fired_in_def)
  have r: "r \<in> set (cd_runs d)" "cr_job r = i" using set_runs_of [of i d] Cons by auto
  have "m \<le> cr_started r" using runs_of_head [OF Cons q(1,2)] q(3) by simp
  with f r have "cr_trigger r = ''schedule'' \<and> floor_minute (cr_started r) = m" by (auto simp: fired_in_def)
  with Cons show ?thesis by (simp add: already_fired_def history_def)
qed

lemma prune_keeps_newest:
  assumes "runs_wf d" "0 < k" "runs_of i d = r # rs"
  shows "r \<in> set (cd_runs (snd (prune_history i k d)))"
proof -
  have mem: "r \<in> set (cd_runs d)" using set_runs_of [of i d] assms(3) by auto
  have dist: "distinct (map cr_id (runs_of i d))"
    using assms(1) by (simp add: runs_of_def runs_wf_def cron_runs.wf_table_def distinct_map inj_on_def)
  have "set (drop (nat k) (runs_of i d)) \<subseteq> set rs"
    using assms(2,3) by (cases "nat k") (auto dest: in_set_dropD)
  then have "cr_id r \<notin> cr_id ` set (drop (nat k) (runs_of i d))" using dist assms(3) by auto
  then show ?thesis using mem assms(2) by (simp add: prune_history_def Let_def)
qed

lemma fired_in_prune:
  assumes "runs_wf d" "0 < k" "fired_in i m d"
  shows "fired_in i m (snd (prune_history i k d))"
proof -
  obtain q where q: "q \<in> set (cd_runs d)" "cr_job q = i" "m \<le> cr_started q" using assms(3) by (auto simp: fired_in_def)
  then have "runs_of i d \<noteq> []" using set_runs_of [of i d] by (metis (mono_tags, lifting) empty_iff empty_set mem_Collect_eq)
  then obtain r rs where c: "runs_of i d = r # rs" by (cases "runs_of i d") auto
  have "cr_job r = i" using set_runs_of [of i d] c by auto
  moreover have "m \<le> cr_started r" using runs_of_head [OF c q(1,2)] q(3) by simp
  ultimately show ?thesis
    using prune_keeps_newest [OF assms(1,2) c] assms(3) prune_runs [of i k d]
    by (auto simp: fired_in_def)
qed

lemma fired_in_more:
  assumes "more_runs i ''schedule'' (\<lambda>t. floor_minute t = m) d d'"
    "\<forall>r \<in> set (cd_runs d). cr_job r = i \<longrightarrow> cr_started r < m"
  shows "fired_in i m d'"
proof -
  obtain rs where rs: "rs \<noteq> []" "cd_runs d' = cd_runs d @ rs"
      "\<forall>r \<in> set rs. floor_minute (cr_started r) = m \<and> closed_run i ''schedule'' (cr_started r) r"
    using assms(1) by (auto simp: more_runs_def)
  then have new: "cr_job r = i \<and> m \<le> cr_started r \<and> cr_trigger r = ''schedule'' \<and> floor_minute (cr_started r) = m"
    if "r \<in> set rs" for r
    using that floor_minute_props(2) [of "cr_started r"] by (simp add: closed_run_def)
  have old: "\<not> m \<le> cr_started r" if "r \<in> set (cd_runs d)" "cr_job r = i" for r
    using assms(2) that by (simp add: not_le)
  obtain r where "r \<in> set rs" using rs(1) by (cases rs) auto
  then have "\<exists>r \<in> set (cd_runs d'). cr_job r = i \<and> m \<le> cr_started r" using new rs(2) by (intro bexI [of _ r]) auto
  moreover have "cr_trigger r = ''schedule'' \<and> floor_minute (cr_started r) = m"
    if "r \<in> set (cd_runs d')" "cr_job r = i" "m \<le> cr_started r" for r
    using that new [of r] old [of r] by (simp add: rs(2)) blast
  ultimately show ?thesis by (simp add: fired_in_def)
qed

lemma run_job_fires:
  assumes "runs_wf (cs_db s)" "\<forall>w. floor_minute (ce_clock env w) = m"
    "\<forall>r \<in> set (cd_runs (cs_db s)). cr_job r = i \<longrightarrow> cr_started r < m"
    "get_job i (cs_db s) = Inr job" "\<not> is_running i (cs_db s)"
  shows "already_fired i m (cs_db (snd (run_job env i ''schedule'' s)))"
proof (rule fired_in_already)
  have "run_effect i ''schedule'' (\<lambda>t. floor_minute t = m) (ce_keep env) (cs_db s) (cs_db (snd (run_job env i ''schedule'' s)))"
    by (rule run_job_effect [OF assms(1,2)])
  then show "fired_in i m (cs_db (snd (run_job env i ''schedule'' s)))"
  proof (cases rule: run_effect.cases)
    case nothing
    then show ?thesis using assms(4,5) by auto
  next
    case refused
    then show ?thesis using fired_in_more assms(3) by blast
  next
    case (executed d1)
    then have "runs_wf d1" by (simp add: more_runs_def)
    then show ?thesis using executed fired_in_prune fired_in_more [OF executed(1) assms(3)] by simp
  qed
qed

section \<open>A concrete heartbeat\<close>

definition second_us :: int where "second_us = 1000000"

definition toy_env :: "(nat, int) cron_env" where
  \<comment> \<open>the world is the clock; every action takes 25 seconds and reports failure unless it is a probe\<close>
  "toy_env = \<lparr>ce_append = (\<lambda>c _ _ _. (Some c, Suc c)), ce_clock = id,
     ce_switch = (\<lambda>_. (io_ok, \<lparr>ks_row = Some unarmed_row, ks_scopes = []\<rparr>)), ce_stream = (\<lambda>_. True),
     ce_act = (\<lambda>k _ w. (Act_Result (obj [(''ok'', JBool (k = JStr ''probe''))]), w + 25 * second_us)), ce_keep = 5\<rparr>"

definition toy_state :: "string \<Rightarrow> int \<Rightarrow> (nat, int) cron_state" where
  "toy_state act w = \<lparr>cs_db = snd (create_job ''j'' ''n'' ''* * * * *'' [(KStr ''type'', JStr act)] True
       \<lparr>gp_requires_approval = None, gp_max_retries = None, gp_timeout_s = None, gp_notify = None\<rparr> 0 empty_cron),
     cs_chain = 0, cs_receipts = [], cs_world = w\<rparr>"

lemma toy_due: "map cj_id (due_jobs 0 (cs_db (toy_state ''probe'' 0))) = [''j'']"
  by code_simp

lemma toy_wf: "runs_wf (cs_db (toy_state k w))"
  by (simp add: toy_state_def create_job_def runs_wf_def empty_cron_def cron_runs.wf_table_def Let_def split: sum.split)

section \<open>Properties\<close>

text \<open>C29: Where the store's writes succeed, the heartbeat leaves nothing running: after the recovery and any number of
  ticks no run is RUNNING, and the runs in the store are those found at the start, each run found RUNNING now INTERRUPTED
  with the time of the recovery and every other one as it was, and later runs that all ended in a terminal status. A run
  found at the start is missing only where the pruning keeps its full number of runs of the same job.\<close>

theorem heartbeat_leaves_nothing_running:
  assumes "runs_wf (cs_db s)"
  shows "let d = cs_db (start_loop env sleep n s); found = recovered (now_of env s) ` set (cd_runs (cs_db s)) in
    \<not> is_running i d \<and> runs_wf d \<and>
    (\<forall>r \<in> set (cd_runs d). r \<in> found \<or> (cd_next (cs_db s) \<le> cr_id r \<and> cr_status r \<in> set TERMINAL_STATUSES)) \<and>
    (\<forall>r \<in> found. r \<in> set (cd_runs d) \<or> max 1 (ce_keep env) \<le> int (length (runs_of (cr_job r) d)))"
proof -
  let ?s = "s\<lparr>cs_db := snd (recover_inflight (now_of env s) (cs_db s))\<rparr>"
  have "idle ?s" using recover_idle [OF assms] by (simp add: idle_def)
  then have "idle (start_loop env sleep n s)" unfolding start_loop_def by (rule run_loop_idle)
  moreover have "runs_kept (recovered (now_of env s) ` set (cd_runs (cs_db s))) (cd_next (cs_db s)) (max 1 (ce_keep env))
      (cs_db (start_loop env sleep n s))"
    unfolding start_loop_def using recover_keeps_runs [OF assms] by (intro run_loop_keeps_runs) simp
  ultimately show ?thesis by (simp add: idle_def none_running_is_running runs_kept_def Let_def)
qed

text \<open>A store with a run that a previous process left RUNNING.\<close>

definition crashed_state :: "(nat, int) cron_state" where
  "crashed_state = (toy_state ''probe'' 0)\<lparr>cs_db := snd (start_run ''j'' ''schedule'' 1 0 (cs_db (toy_state ''probe'' 0)))\<rparr>"

lemma crashed_run: "map cr_status (cd_runs (cs_db crashed_state)) = [''RUNNING'']" "map cr_job (cd_runs (cs_db crashed_state)) = [''j'']"
  by code_simp+

theorem heartbeat_leaves_nothing_running_witness:
  "map cr_status (cd_runs (cs_db crashed_state)) = [''RUNNING''] \<and>
   \<not> is_running ''j'' (cs_db (start_loop toy_env (\<lambda>w. w + 15 * second_us) 3 crashed_state)) \<and>
   (\<exists>r. cr_status r = ''INTERRUPTED'' \<and> cr_finished r = Some 0 \<and>
      (r \<in> set (cd_runs (cs_db (start_loop toy_env (\<lambda>w. w + 15 * second_us) 3 crashed_state))) \<or>
       5 \<le> length (runs_of ''j'' (cs_db (start_loop toy_env (\<lambda>w. w + 15 * second_us) 3 crashed_state)))))"
proof -
  let ?d = "cs_db (start_loop toy_env (\<lambda>w. w + 15 * second_us) 3 crashed_state)"
  have wf: "runs_wf (cs_db crashed_state)" by (simp add: crashed_state_def start_run_wf toy_wf)
  have now: "now_of toy_env crashed_state = 0" by (simp add: now_of_def toy_env_def crashed_state_def toy_state_def)
  obtain r where r: "r \<in> set (cd_runs (cs_db crashed_state))" "cr_status r = ''RUNNING''" "cr_job r = ''j''"
    using crashed_run by (auto simp: map_eq_Cons_conv)
  note h = heartbeat_leaves_nothing_running [OF wf, of toy_env "\<lambda>w. w + 15 * second_us" 3 "''j''", unfolded Let_def now]
  have "recovered 0 r \<in> recovered 0 ` set (cd_runs (cs_db crashed_state))" using r(1) by simp
  with h have "recovered 0 r \<in> set (cd_runs ?d) \<or> max 1 (ce_keep toy_env) \<le> int (length (runs_of (cr_job (recovered 0 r)) ?d))"
    by blast
  moreover have "cr_status (recovered 0 r) = ''INTERRUPTED''" "cr_finished (recovered 0 r) = Some 0" "cr_job (recovered 0 r) = ''j''"
    using r by (simp_all add: recovered_def)
  moreover have "ce_keep toy_env = 5" by (simp add: toy_env_def)
  ultimately have "\<exists>r. cr_status r = ''INTERRUPTED'' \<and> cr_finished r = Some 0 \<and>
      (r \<in> set (cd_runs ?d) \<or> 5 \<le> length (runs_of ''j'' ?d))"
    by (intro exI [of _ "recovered 0 r"]) auto
  with h crashed_run(1) show ?thesis by blast
qed

text \<open>While the global switch is armed or cannot be read, a run of a known idle job is refused on
  every trigger: the action does not run, and one closed run with the status BLOCKED is recorded.\<close>

theorem armed_switch_blocks_jobs:
  assumes "runs_wf (cs_db s)" "get_job i (cs_db s) = Inr job" "\<not> is_running i (cs_db s)"
    "is_armed (fst (ce_switch env (cs_world s))) (snd (ce_switch env (cs_world s)))"
  shows "\<exists>a r. fst (run_job env i trig s) = Inr a \<and> ra_status a = ''BLOCKED'' \<and>
     cs_world (snd (run_job env i trig s)) = cs_world s \<and>
     cd_runs (cs_db (snd (run_job env i trig s))) = cd_runs (cs_db s) @ [r] \<and> cr_status r = ''BLOCKED'' \<and> cr_job r = i"
proof -
  obtain why where why: "switch_reason (ce_switch env (cs_world s)) = Some why"
    using assms(4) switch_none_iff [of "ce_switch env (cs_world s)"] by auto
  obtain a s' where noop: "record_noop env job trig ''BLOCKED'' (''kill switch: '' @ why) s = (a, s')"
    by (cases "record_noop env job trig ''BLOCKED'' (''kill switch: '' @ why) s") auto
  have run: "run_job env i trig s = (Inr a, s')" using assms(2,3) why noop by (simp add: run_job_def)
  have "cd_runs (cs_db s') = cd_runs (cs_db (snd (record_noop env job trig ''BLOCKED'' (''kill switch: '' @ why) s)))"
    by (simp only: noop snd_conv)
  moreover have "\<exists>r. \<dots> = cd_runs (cs_db s) @ [r] \<and> cr_status r = ''BLOCKED'' \<and> cr_job r = i"
    using start_finish_runs [OF assms(1), of "''BLOCKED''" "cj_id job"] get_job_id [OF assms(2)]
    by (simp add: record_noop_def RUN_STATUSES_def case_prod_beta Let_def)
  moreover have "''BLOCKED'' \<in> set TERMINAL_STATUSES" by (simp add: TERMINAL_STATUSES_def)
  note record_noop_adds [OF assms(1) this noop]
  ultimately show ?thesis by (simp add: run)
qed

theorem armed_switch_blocks_jobs_witness:
  "ra_status (projr (fst (run_job (toy_env\<lparr>ce_switch := \<lambda>_. (io_ok\<lparr>state_readable := False\<rparr>, \<lparr>ks_row = None, ks_scopes = []\<rparr>)\<rparr>)
     ''j'' ''manual'' (toy_state ''probe'' 0)))) = ''BLOCKED''"
proof -
  have "get_job ''j'' (cs_db (toy_state ''probe'' 0)) = Inr (hd (cd_jobs (cs_db (toy_state ''probe'' 0))))" by code_simp
  moreover have "\<not> is_running ''j'' (cs_db (toy_state ''probe'' 0))" by code_simp
  moreover have "is_armed (io_ok\<lparr>state_readable := False\<rparr>) \<lparr>ks_row = None, ks_scopes = []\<rparr>" by code_simp
  ultimately show ?thesis
    using armed_switch_blocks_jobs [OF toy_wf [of "''probe''" 0], of "''j''" _
        "toy_env\<lparr>ce_switch := \<lambda>_. (io_ok\<lparr>state_readable := False\<rparr>, \<lparr>ks_row = None, ks_scopes = []\<rparr>)\<rparr>" "''manual''"]
    by (auto simp: projr_def)
qed

text \<open>An executed run makes at least one and at most \<open>max_retries\<close> + 1 attempts, and stops before the
  last of them only on success.\<close>

theorem retries_are_bounded:
  "\<exists>k. ra_attempts (fst (execute_job env job trig s)) = Some k \<and> 1 \<le> k \<and> k \<le> Suc (nat (jg_max_retries (cj_governance job))) \<and>
     (ra_status (fst (execute_job env job trig s)) = ''SUCCESS'' \<or> k = Suc (nat (jg_max_retries (cj_governance job))))"
proof -
  let ?n = "nat (max 0 (jg_max_retries (cj_governance job)))"
  have n: "?n = nat (jg_max_retries (cj_governance job))" by simp
  obtain run k v s' where r: "run_attempts env job trig ?n 1 s = (run, k, v, s')"
    by (cases "run_attempts env job trig ?n 1 s") auto
  have "execute_job env job trig s =
      (\<lparr>ra_job = cj_id job, ra_run = Some run, ra_status = (if succeeded v then ''SUCCESS'' else ''FAILED''), ra_reason = None,
         ra_attempts = Some k, ra_result = Some v, ra_trigger = trig\<rparr>,
       s'\<lparr>cs_db := snd (prune_history (cj_id job) (max 1 (ce_keep env)) (cs_db s'))\<rparr>)"
    by (simp only: execute_job_def r Let_def prod.case)
  then show ?thesis using run_attempts_count [OF r] unfolding n by auto
qed

text \<open>With every clock reading in one minute, and no run of the job started in it before, a scheduled
  run leaves the job not due for the rest of the minute: the newest run kept by the pruning is the
  scheduled one.\<close>

theorem scheduled_run_closes_the_minute:
  assumes "runs_wf (cs_db s)" "\<forall>w. floor_minute (ce_clock env w) = m"
    "\<forall>r \<in> set (cd_runs (cs_db s)). cr_job r = i \<longrightarrow> cr_started r < m"
    "get_job i (cs_db s) = Inr job" "\<not> is_running i (cs_db s)"
  shows "i \<notin> cj_id ` set (due_jobs m (cs_db (snd (run_job env i ''schedule'' s))))"
  using run_job_fires [OF assms] by (auto simp: due_jobs_def due_job_def)

theorem scheduled_run_closes_the_minute_witness:
  "''j'' \<notin> cj_id ` set (due_jobs 0 (cs_db (snd (run_job (toy_env\<lparr>ce_clock := \<lambda>_. 5\<rparr>) ''j'' ''schedule'' (toy_state ''fail'' 0)))))"
proof -
  have "get_job ''j'' (cs_db (toy_state ''fail'' 0)) = Inr (hd (cd_jobs (cs_db (toy_state ''fail'' 0))))" by code_simp
  moreover have "\<not> is_running ''j'' (cs_db (toy_state ''fail'' 0))" by code_simp
  moreover have "cd_runs (cs_db (toy_state ''fail'' 0)) = []" by code_simp
  moreover have "floor_minute 5 = 0" by code_simp
  ultimately show ?thesis
    using scheduled_run_closes_the_minute [OF toy_wf [of "''fail''" 0], of "toy_env\<lparr>ce_clock := \<lambda>_. 5\<rparr>" 0 "''j''"]
    by simp
qed

text \<open>Only the newest run is asked: a manual run in the minute, after the scheduled one, makes the job due
  in it again.\<close>

theorem manual_run_reopens_the_minute:
  "let s1 = snd (tick toy_env (toy_state ''probe'' 0)); s2 = snd (run_job toy_env ''j'' ''manual'' s1) in
     floor_minute (now_of toy_env s2) = 0 \<and>
     map cj_id (due_jobs 0 (cs_db s1)) = [] \<and> map cj_id (due_jobs 0 (cs_db s2)) = [''j'']"
  by code_simp

text \<open>A retry that begins in the next minute counts as that minute's run: a job due every minute misses
  one of its times.\<close>

theorem retry_takes_the_next_minute:
  "let s1 = snd (tick toy_env (toy_state ''fail'' (15 * second_us))) in
     floor_minute (now_of toy_env s1) = minute_us \<and> cj_schedule (hd (cd_jobs (cs_db s1))) = ''* * * * *'' \<and>
     due_jobs minute_us (cs_db s1) = []"
  by code_simp

end
