(* ===== verification/Pyvalue.thy ===== *)
theory Pyvalue
  imports Pytext
begin

text \<open>
  Python's view of decoded JSON values: dictionary access, the type tests and conversions the
  sources apply to values of unknown type, and comparison of numbers. A float is its
  \<^verbatim>\<open>repr\<close>, read as a decimal; the shortest representation orders as the doubles do.
\<close>

section \<open>Dictionaries\<close>

definition field :: "string \<Rightarrow> json \<Rightarrow> json option" where
  \<comment> \<open>\<^verbatim>\<open>d[k]\<close> where it exists\<close>
  "field k v = (case v of JObj kvs \<Rightarrow> map_of kvs (KStr k) | _ \<Rightarrow> None)"

definition field_or :: "string \<Rightarrow> json \<Rightarrow> json \<Rightarrow> json" where
  \<comment> \<open>\<^verbatim>\<open>d.get(k, default)\<close>\<close>
  "field_or k d v = (case field k v of None \<Rightarrow> d | Some x \<Rightarrow> x)"

abbreviation get :: "string \<Rightarrow> json \<Rightarrow> json" where
  "get k v \<equiv> field_or k JNull v"

fun keys_of :: "json \<Rightarrow> string list" where
  "keys_of (JObj kvs) = map (key_text \<circ> fst) kvs"
| "keys_of _ = []"

fun set_field :: "string \<Rightarrow> json \<Rightarrow> json \<Rightarrow> json" where
  \<comment> \<open>\<^verbatim>\<open>d[k] = x\<close>\<close>
  "set_field k x (JObj kvs) = JObj (dict_put (KStr k) x kvs)"
| "set_field k x v = v"

lemma field_simps [simp]:
  "field k JNull = None" "field k (JBool b) = None" "field k (JInt i) = None" "field k (JFloat f) = None"
  "field k (JStr s) = None" "field k (JList vs) = None" "field k (JObj kvs) = map_of kvs (KStr k)"
  by (simp_all add: field_def)

lemma map_of_dict_put: "map_of (dict_put k x kvs) j = (if j = k then Some x else map_of kvs j)"
  by (induction k x kvs rule: dict_put.induct) auto

lemma field_set_field:
  "field j (set_field k x v) = (if j = k \<and> (\<exists>kvs. v = JObj kvs) then Some x else field j v)"
  by (cases v) (auto simp: map_of_dict_put)

section \<open>Type tests\<close>

fun is_obj :: "json \<Rightarrow> bool" where
  "is_obj (JObj _) = True" | "is_obj _ = False"

fun is_str :: "json \<Rightarrow> bool" where
  "is_str (JStr _) = True" | "is_str _ = False"

fun is_int :: "json \<Rightarrow> bool" where
  \<comment> \<open>a bool is an int\<close>
  "is_int (JBool _) = True" | "is_int (JInt _) = True" | "is_int _ = False"

fun is_number :: "json \<Rightarrow> bool" where
  "is_number (JFloat _) = True" | "is_number v = is_int v"

fun str_of :: "json \<Rightarrow> string" where
  "str_of (JStr s) = s" | "str_of _ = []"

fun list_of :: "json \<Rightarrow> json list" where
  "list_of (JList vs) = vs" | "list_of _ = []"

fun str_list :: "json \<Rightarrow> string list option" where
  \<comment> \<open>a list whose items are all strings\<close>
  "str_list (JList vs) = (if list_all is_str vs then Some (map str_of vs) else None)"
| "str_list _ = None"

definition text_value :: "json \<Rightarrow> bool" where
  \<comment> \<open>\<^verbatim>\<open>isinstance(v, str) and v.strip()\<close>\<close>
  "text_value v \<longleftrightarrow> is_str v \<and> py_strip (str_of v) \<noteq> []"

lemma is_str_iff: "is_str v \<longleftrightarrow> (\<exists>s. v = JStr s)"
  by (cases v) auto

lemma is_obj_iff: "is_obj v \<longleftrightarrow> (\<exists>kvs. v = JObj kvs)"
  by (cases v) auto

section \<open>Numbers\<close>

datatype pynum = Dec int int | PosInf | NegInf | NotNum     \<comment> \<open>mantissa and decimal exponent\<close>

definition split_at :: "char \<Rightarrow> string \<Rightarrow> string \<times> string" where
  \<comment> \<open>before and after the first occurrence; all and nothing without one\<close>
  "split_at c s = (takeWhile (\<lambda>x. x \<noteq> c) s, drop 1 (dropWhile (\<lambda>x. x \<noteq> c) s))"

definition signed_val :: "string \<Rightarrow> int" where
  "signed_val s = (let (neg, ds) = strip_sign s in if neg then - digits_val ds else digits_val ds)"

definition read_decimal :: "string \<Rightarrow> pynum" where
  \<comment> \<open>the decimal a \<^verbatim>\<open>repr\<close> writes: sign, digits, fraction, exponent\<close>
  "read_decimal r =
     (let (body, ex) = split_at CHR ''e'' r; (neg, u) = strip_sign body; (whole, frac) = split_at CHR ''.'' u;
          m = digits_val (whole @ frac)
      in Dec (if neg then - m else m) (signed_val ex - int (length frac)))"

fun num_of :: "json \<Rightarrow> pynum" where
  "num_of (JBool b) = Dec (if b then 1 else 0) 0"
| "num_of (JInt i) = Dec i 0"
| "num_of (JFloat (Fin r)) = read_decimal r"
| "num_of (JFloat (Inf neg)) = (if neg then NegInf else PosInf)"
| "num_of _ = NotNum"

fun num_less :: "pynum \<Rightarrow> pynum \<Rightarrow> bool" where
  "num_less (Dec m e) (Dec n f) = (m * 10 ^ nat (e - min e f) < n * 10 ^ nat (f - min e f))"
| "num_less NotNum _ = False"
| "num_less _ NotNum = False"
| "num_less NegInf y = (y \<noteq> NegInf)"
| "num_less x PosInf = (x \<noteq> PosInf)"
| "num_less _ _ = False"

fun num_eq :: "pynum \<Rightarrow> pynum \<Rightarrow> bool" where
  "num_eq (Dec m e) (Dec n f) = (m * 10 ^ nat (e - min e f) = n * 10 ^ nat (f - min e f))"
| "num_eq NotNum _ = False"
| "num_eq _ NotNum = False"
| "num_eq x y = (x = y)"

definition num_le :: "pynum \<Rightarrow> pynum \<Rightarrow> bool" where
  "num_le x y \<longleftrightarrow> num_less x y \<or> num_eq x y"

fun trunc :: "pynum \<Rightarrow> int option" where
  \<comment> \<open>\<^verbatim>\<open>int(x)\<close>, towards zero; an infinity or a nan raises\<close>
  "trunc (Dec m e) = Some (if 0 \<le> e then m * 10 ^ nat e else (if m < 0 then - ((- m) div 10 ^ nat (- e)) else m div 10 ^ nat (- e)))"
| "trunc _ = None"

lemma num_less_irrefl [simp]: "\<not> num_less x x"
  by (cases x) auto

lemma num_total:
  assumes "x \<noteq> NotNum" "y \<noteq> NotNum"
  shows "num_less x y \<or> num_eq x y \<or> num_less y x"
  using assms by (cases x; cases y) (auto simp: min.commute)

lemma trunc_int [simp]: "trunc (num_of (JInt i)) = Some i"
  by simp

lemma decimal_examples:
  "read_decimal ''0.1'' = Dec 1 (- 1)" "read_decimal ''-2.50'' = Dec (- 250) (- 2)" "read_decimal ''1e-05'' = Dec 1 (- 5)"
  "read_decimal ''1e+16'' = Dec 1 16" "num_less (num_of (JFloat (Fin ''0.01''))) (num_of (JFloat (Fin ''0.5'')))"
  "trunc (read_decimal ''-2.7'') = Some (- 2)"
  by code_simp+

fun py_eq :: "json \<Rightarrow> json \<Rightarrow> bool"
  and py_eq_list :: "json list \<Rightarrow> json list \<Rightarrow> bool"
  and py_eq_pairs :: "(jkey \<times> json) list \<Rightarrow> (jkey \<times> json) list \<Rightarrow> bool" where
  \<comment> \<open>\<^verbatim>\<open>v == w\<close>: numbers by value, dictionaries whatever their order\<close>
  "py_eq (JList vs) w = (case w of JList ws \<Rightarrow> py_eq_list vs ws | _ \<Rightarrow> False)"
| "py_eq (JObj kvs) w = (case w of JObj lws \<Rightarrow> length kvs = length lws \<and> py_eq_pairs kvs lws | _ \<Rightarrow> False)"
| "py_eq v w = (if is_number v \<and> is_number w then num_eq (num_of v) (num_of w) else v = w)"
| "py_eq_list [] ws = (ws = [])"
| "py_eq_list (v # vs) ws = (case ws of [] \<Rightarrow> False | w # ws' \<Rightarrow> py_eq v w \<and> py_eq_list vs ws')"
| "py_eq_pairs [] ws = True"
| "py_eq_pairs ((k, v) # kvs) ws = ((case map_of ws k of None \<Rightarrow> False | Some w \<Rightarrow> py_eq v w) \<and> py_eq_pairs kvs ws)"

definition unhashable :: "json \<Rightarrow> bool" where
  "unhashable v = (case v of JList _ \<Rightarrow> True | JObj _ \<Rightarrow> True | _ \<Rightarrow> False)"

section \<open>Splitting once\<close>

definition split_first :: "char \<Rightarrow> string \<Rightarrow> string" where
  \<comment> \<open>\<^verbatim>\<open>s.split(c, 1)[0]\<close>\<close>
  "split_first c s = takeWhile (\<lambda>x. x \<noteq> c) s"

definition rsplit_last :: "char \<Rightarrow> string \<Rightarrow> string \<times> string" where
  \<comment> \<open>\<^verbatim>\<open>s.rsplit(c, 1)\<close> of a string that contains \<open>c\<close>; the whole string first otherwise\<close>
  "rsplit_last c s =
     (if c \<in> set s then (rev (drop 1 (dropWhile (\<lambda>x. x \<noteq> c) (rev s))), rev (takeWhile (\<lambda>x. x \<noteq> c) (rev s)))
      else (s, []))"

lemma rsplit_last_append [simp]: "c \<notin> set t \<Longrightarrow> rsplit_last c (s @ c # t) = (s, t)"
  by (simp add: rsplit_last_def takeWhile_append dropWhile_append)

end
