(* ===== verification/Conv_Contract.thy ===== *)
theory Conv_Contract
  imports Pyvalue
begin

text \<open>
  Validation of task contracts (\<^verbatim>\<open>conversation/task_contract.py\<close>): one workflow entry,
  the whole task graph with its caps, and the workflow block. An error message is a constructor
  with the values it reports; the one exception the validator can raise is a result of its own.
\<close>

section \<open>Vocabulary\<close>

definition MAX_DAG_DEPTH :: nat where "MAX_DAG_DEPTH = 3"
definition MAX_DAG_NODES :: nat where "MAX_DAG_NODES = 50"
definition MAX_NODES_PER_LEVEL :: nat where "MAX_NODES_PER_LEVEL = 20"

definition VALID_STATUSES :: "string list" where
  "VALID_STATUSES = [''READY'', ''RUNNING'', ''SUBMITTED'', ''VERIFIED'', ''FAILED'', ''ROLLED_BACK'']"

definition VALID_VERIFICATION_MODES :: "string list" where
  "VALID_VERIFICATION_MODES = [''on_submit'', ''external'']"

definition VALID_SIDE_EFFECT_KINDS :: "string list" where
  "VALID_SIDE_EFFECT_KINDS = [''file_write'']"

definition VALID_ROLLBACK_KINDS :: "string list" where
  "VALID_ROLLBACK_KINDS = [''git_revert'', ''file_delete'']"

definition VALID_CONSTRAINT_KEYS :: "string list" where
  "VALID_CONSTRAINT_KEYS = [''budget_cap_usd'', ''max_steps'', ''stall_threshold'']"

definition CONTRACT_FIELDS :: "string list" where
  "CONTRACT_FIELDS = [''task_id'', ''objective'', ''skill'', ''args'', ''inputs'', ''allowed_tools'', ''allowed_data'',
     ''constraints'', ''preconditions'', ''expected_output'', ''verification'', ''side_effects'', ''rollback'',
     ''confidence'', ''parent'', ''status'']"

definition LEGACY_FIELDS :: "string list" where
  "LEGACY_FIELDS = [''skill'', ''args'']"

definition among :: "string list \<Rightarrow> json \<Rightarrow> bool" where
  \<comment> \<open>\<^verbatim>\<open>v in\<close> a tuple of strings\<close>
  "among ss v \<longleftrightarrow> is_str v \<and> str_of v \<in> set ss"

datatype arg_type = Int_Arg | Str_Arg | Any_Arg

definition PREDICATE_ARGS :: "(string \<times> (string \<times> arg_type) list) list" where
  "PREDICATE_ARGS =
     [(''exit_code'', [(''code'', Int_Arg)]),
      (''file_exists'', [(''path'', Str_Arg)]),
      (''file_contains'', [(''path'', Str_Arg), (''text'', Str_Arg)]),
      (''file_not_contains'', [(''path'', Str_Arg), (''text'', Str_Arg)]),
      (''output_equals'', [(''expected'', Any_Arg)]),
      (''artifact_hash'', [(''path'', Str_Arg), (''sha256'', Str_Arg)])]"

datatype pred_error = Preds_Not_List | Pred_Not_Object nat | Pred_Kind nat json | Pred_Missing nat string string
  | Pred_Type nat string string | Pred_Unknown_Arg nat string string

datatype contract_error =
    Entry_Not_Object
  | Legacy_Unknown "string list" | Legacy_Skill
  | Unknown_Fields json "string list" | Bad_Task_Id
  | Bad_Text string string | Args_Not_Object string
  | Inputs_Not_Strings string | Input_No_Task string string | Input_Self string | Input_Unknown string string
  | Not_Strings string string
  | Constraints_Not_Object string | Unknown_Constraint string string | Constraint_Not_Numeric string string
  | Budget_Negative string | Max_Steps_Low string
  | Preconditions_Not_Strings string | Precondition_Form string string | Precondition_Unknown string string
  | Precondition_Status string string
  | Output_Not_Object string | Schema_Not_Object string | In_Predicates string pred_error | Weak_Predicates string
  | Bad_Verification string
  | Effects_Not_List string | Effect_Not_Object string | Effect_Kind string json | Effect_Path string
  | Rollback_Not_Object string | Rollback_Kind string json | Rollback_Scope string
  | Bad_Confidence string | Bad_Parent string json | Bad_Status string json
  | Dag_Not_List | Dag_Too_Large | Duplicate_Task string | Too_Deep string | Level_Full json
  | Workflow_Not_Object | Bad_Goal | Tracker_Not_Object | Tracker_Steps

definition require :: "bool \<Rightarrow> 'e \<Rightarrow> 'e list" where
  \<comment> \<open>\<^verbatim>\<open>if not ok: errors.append(e)\<close>\<close>
  "require ok e = (if ok then [] else [e])"

lemma require_Nil [simp]: "require ok e = [] \<longleftrightarrow> ok"
  by (simp add: require_def)

section \<open>Predicates\<close>

definition has_type :: "arg_type \<Rightarrow> json \<Rightarrow> bool" where
  "has_type t v = (case t of Any_Arg \<Rightarrow> True | Int_Arg \<Rightarrow> is_int v | Str_Arg \<Rightarrow> is_str v)"

definition validate_predicate :: "nat \<Rightarrow> json \<Rightarrow> pred_error list" where
  "validate_predicate i p =
     (if \<not> is_obj p then [Pred_Not_Object i]
      else let kind = get ''kind'' p in
        (case if is_str kind then map_of PREDICATE_ARGS (str_of kind) else None of
           None \<Rightarrow> [Pred_Kind i kind]
         | Some args \<Rightarrow>
             concat (map (\<lambda>(a, t). case field a p of
                 None \<Rightarrow> [Pred_Missing i (str_of kind) a]
               | Some v \<Rightarrow> require (has_type t v) (Pred_Type i (str_of kind) a)) args) @
             concat (map (\<lambda>a. require (a = ''kind'' \<or> a \<in> fst ` set args) (Pred_Unknown_Arg i (str_of kind) a)) (keys_of p))))"

definition validate_predicates :: "json \<Rightarrow> pred_error list" where
  "validate_predicates ps =
     (case ps of JList vs \<Rightarrow> concat (map (\<lambda>(i, p). validate_predicate i p) (enumerate 0 vs)) | _ \<Rightarrow> [Preds_Not_List])"

section \<open>One entry\<close>

definition check_inputs :: "string \<Rightarrow> string list \<Rightarrow> json \<Rightarrow> contract_error list" where
  "check_inputs t known v =
     (case str_list v of None \<Rightarrow> [Inputs_Not_Strings t]
      | Some is \<Rightarrow> concat (map (\<lambda>i. let part = split_first CHR '':'' i in
          if part = [] then [Input_No_Task t i] else if part = t then [Input_Self t]
          else require (part \<in> set known) (Input_Unknown t i)) is))"

definition check_constraints :: "string \<Rightarrow> json \<Rightarrow> contract_error list" where
  "check_constraints t c =
     (if c = JNull then []
      else if \<not> is_obj c then [Constraints_Not_Object t]
      else concat (map (\<lambda>k. require (k \<in> set VALID_CONSTRAINT_KEYS) (Unknown_Constraint t k)) (keys_of c)) @
        concat (map (\<lambda>k. require (case field k c of None \<Rightarrow> True | Some v \<Rightarrow> is_number v) (Constraint_Not_Numeric t k))
          VALID_CONSTRAINT_KEYS) @
        require (\<not> (is_number (get ''budget_cap_usd'' c) \<and> num_less (num_of (get ''budget_cap_usd'' c)) (Dec 0 0))) (Budget_Negative t) @
        require (\<not> (is_int (get ''max_steps'' c) \<and> num_less (num_of (get ''max_steps'' c)) (Dec 1 0))) (Max_Steps_Low t))"

definition check_preconditions :: "string \<Rightarrow> string list \<Rightarrow> json \<Rightarrow> contract_error list" where
  "check_preconditions t known v =
     (case str_list v of None \<Rightarrow> [Preconditions_Not_Strings t]
      | Some ps \<Rightarrow> concat (map (\<lambda>p.
          if CHR '':'' \<notin> set p then [Precondition_Form t p]
          else let (task, status) = rsplit_last CHR '':'' p in
            require (task \<in> set known) (Precondition_Unknown t task) @
            require (status = ''VERIFIED'') (Precondition_Status t p)) ps))"

definition strong_predicate :: "json \<Rightarrow> bool" where
  "strong_predicate p \<longleftrightarrow> is_obj p \<and> get ''kind'' p \<noteq> JStr ''exit_code''"

definition check_output :: "string \<Rightarrow> json \<Rightarrow> contract_error list" where
  "check_output t eo =
     (if eo = JNull then []
      else if \<not> is_obj eo then [Output_Not_Object t]
      else let preds = field_or ''predicates'' (JList []) eo in
        require (case field ''schema'' eo of None \<Rightarrow> True | Some s \<Rightarrow> is_obj s) (Schema_Not_Object t) @
        map (In_Predicates t) (validate_predicates preds) @
        require (list_of preds = [] \<or> list_ex strong_predicate (list_of preds)) (Weak_Predicates t))"

definition check_effects :: "string \<Rightarrow> json \<Rightarrow> contract_error list" where
  "check_effects t v =
     (case v of JList es \<Rightarrow> concat (map (\<lambda>s. if \<not> is_obj s then [Effect_Not_Object t]
          else require (among VALID_SIDE_EFFECT_KINDS (get ''kind'' s)) (Effect_Kind t (get ''kind'' s)) @
               require (is_str (get ''path'' s)) (Effect_Path t)) es)
      | _ \<Rightarrow> [Effects_Not_List t])"

definition check_rollback :: "string \<Rightarrow> json \<Rightarrow> contract_error list" where
  "check_rollback t r =
     (if r = JNull then []
      else if \<not> is_obj r then [Rollback_Not_Object t]
      else if \<not> among VALID_ROLLBACK_KINDS (get ''kind'' r) then [Rollback_Kind t (get ''kind'' r)]
      else require (is_str (get ''scope'' r)) (Rollback_Scope t))"

definition check_confidence :: "string \<Rightarrow> json \<Rightarrow> contract_error list" where
  "check_confidence t c =
     require (c = JNull \<or> (is_number c \<and> num_le (Dec 0 0) (num_of c) \<and> num_le (num_of c) (Dec 1 0))) (Bad_Confidence t)"

definition check_task :: "string \<Rightarrow> string list \<Rightarrow> json \<Rightarrow> contract_error list" where
  \<comment> \<open>the checks after the task id, in their order\<close>
  "check_task t known e =
     require (text_value (get ''objective'' e)) (Bad_Text t ''objective'') @
     require (text_value (get ''skill'' e)) (Bad_Text t ''skill'') @
     require (get ''args'' e = JNull \<or> is_obj (get ''args'' e)) (Args_Not_Object t) @
     check_inputs t known (field_or ''inputs'' (JList []) e) @
     require (str_list (field_or ''allowed_tools'' (JList []) e) \<noteq> None) (Not_Strings t ''allowed_tools'') @
     require (str_list (field_or ''allowed_data'' (JList []) e) \<noteq> None) (Not_Strings t ''allowed_data'') @
     check_constraints t (get ''constraints'' e) @
     check_preconditions t known (field_or ''preconditions'' (JList []) e) @
     check_output t (get ''expected_output'' e) @
     require (among VALID_VERIFICATION_MODES (field_or ''verification'' (JStr ''on_submit'') e)) (Bad_Verification t) @
     check_effects t (field_or ''side_effects'' (JList []) e) @
     check_rollback t (get ''rollback'' e) @
     check_confidence t (get ''confidence'' e) @
     require (get ''parent'' e = JNull \<or> among known (get ''parent'' e)) (Bad_Parent t (get ''parent'' e)) @
     require (among VALID_STATUSES (field_or ''status'' (JStr ''READY'') e)) (Bad_Status t (field_or ''status'' (JStr ''READY'') e))"

definition unknown_keys :: "string list \<Rightarrow> json \<Rightarrow> string list" where
  "unknown_keys fields e = sort (remdups (filter (\<lambda>k. k \<notin> set fields) (keys_of e)))"

definition validate_contract :: "json \<Rightarrow> string list \<Rightarrow> contract_error list" where
  "validate_contract e known =
     (if \<not> is_obj e then [Entry_Not_Object]
      else case field ''task_id'' e of
        None \<Rightarrow>
          require (unknown_keys LEGACY_FIELDS e = []) (Legacy_Unknown (unknown_keys LEGACY_FIELDS e)) @
          require (is_str (get ''skill'' e) \<and> str_of (get ''skill'' e) \<noteq> []) Legacy_Skill
      | Some tid \<Rightarrow>
          require (unknown_keys CONTRACT_FIELDS e = []) (Unknown_Fields tid (unknown_keys CONTRACT_FIELDS e)) @
          (if \<not> text_value tid then [Bad_Task_Id] else check_task (str_of tid) known e))"

section \<open>The whole graph\<close>

definition parent_of :: "(string \<times> json) list \<Rightarrow> json \<Rightarrow> json" where
  \<comment> \<open>\<^verbatim>\<open>parent_map.get(cur)\<close>; the map is listed newest entry first\<close>
  "parent_of m cur = (if is_str cur then (case map_of m (str_of cur) of None \<Rightarrow> JNull | Some p \<Rightarrow> p) else JNull)"

datatype type_error = Type_Error

definition fresh_keys :: "(string \<times> json) list \<Rightarrow> json list \<Rightarrow> string set" where
  "fresh_keys m seen = {k \<in> fst ` set m. JStr k \<notin> set seen}"

function depth_from :: "(string \<times> json) list \<Rightarrow> json list \<Rightarrow> json \<Rightarrow> (type_error, nat) result" where
  \<comment> \<open>the loop of \<^verbatim>\<open>_depth_of\<close>; a list or an object in the chain is not hashable\<close>
  "depth_from m seen cur =
     (if cur = JNull then Inr (length seen)
      else if unhashable cur then Inl Type_Error
      else if cur \<in> set seen then Inr (MAX_DAG_DEPTH + 1)
      else depth_from m (cur # seen) (parent_of m cur))"
  by pat_completeness auto

lemma fresh_keys_finite: "finite (fresh_keys m seen)"
  by (rule finite_subset [of _ "fst ` set m"]) (auto simp: fresh_keys_def)

lemma parent_of_key: "parent_of m cur \<noteq> JNull \<Longrightarrow> \<exists>k. cur = JStr k \<and> k \<in> fst ` set m"
proof -
  assume p: "parent_of m cur \<noteq> JNull"
  then have "is_str cur" by (simp add: parent_of_def split: if_splits)
  then obtain k where k: "cur = JStr k" by (auto simp: is_str_iff)
  then have "map_of m k \<noteq> None" using p by (simp add: parent_of_def split: option.splits)
  then show ?thesis using k by (simp add: map_of_eq_None_iff del: not_None_eq)
qed

termination depth_from
proof (relation "measure (\<lambda>(m, seen, cur). 2 * card (fresh_keys m seen) + (if cur = JNull then 0 else 1))")
  fix m :: "(string \<times> json) list" and seen cur
  assume cur: "cur \<noteq> JNull" "\<not> unhashable cur" "cur \<notin> set seen"
  have sub: "fresh_keys m (cur # seen) \<subseteq> fresh_keys m seen" by (auto simp: fresh_keys_def)
  have "2 * card (fresh_keys m (cur # seen)) + (if parent_of m cur = JNull then 0 else 1) < 2 * card (fresh_keys m seen) + 1"
  proof (cases "parent_of m cur = JNull")
    case True
    then show ?thesis using card_mono [OF fresh_keys_finite sub] by simp
  next
    case False
    then obtain k where k: "cur = JStr k" "k \<in> fst ` set m" using parent_of_key by blast
    then have "k \<in> fresh_keys m seen" "k \<notin> fresh_keys m (cur # seen)" using cur(3) by (auto simp: fresh_keys_def)
    then have "fresh_keys m (cur # seen) \<subset> fresh_keys m seen" using sub by blast
    from psubset_card_mono [OF fresh_keys_finite this] show ?thesis by simp
  qed
  then show "((m, cur # seen, parent_of m cur), (m, seen, cur)) \<in>
      measure (\<lambda>(m, seen, cur). 2 * card (fresh_keys m seen) + (if cur = JNull then 0 else 1))"
    using cur(1) by simp
qed simp

declare depth_from.simps [simp del]

definition depth_of :: "string \<Rightarrow> (string \<times> json) list \<Rightarrow> (type_error, nat) result" where
  "depth_of t m = depth_from m [] (JStr t)"

definition task_ids_of :: "json list \<Rightarrow> string list" where
  "task_ids_of es = map (\<lambda>e. str_of (get ''task_id'' e)) (filter (\<lambda>e. is_obj e \<and> text_value (get ''task_id'' e)) es)"

definition parent_map_of :: "json list \<Rightarrow> (string \<times> json) list" where
  "parent_map_of es = rev (map (\<lambda>e. (str_of (get ''task_id'' e), get ''parent'' e))
     (filter (\<lambda>e. is_obj e \<and> is_str (get ''task_id'' e)) es))"

fun duplicates :: "string list \<Rightarrow> string list \<Rightarrow> string list" where
  "duplicates seen [] = []"
| "duplicates seen (t # ts) = (if t \<in> set seen then t # duplicates (t # seen) ts else duplicates (t # seen) ts)"

definition level_key :: "(string \<times> json) list \<Rightarrow> string \<Rightarrow> json" where
  "level_key m t = (let p = parent_of m (JStr t) in if truthy p then p else JStr ''<root>'')"

definition level_errors :: "(string \<times> json) list \<Rightarrow> string list \<Rightarrow> contract_error list" where
  \<comment> \<open>one count per level, in the order the levels first appear; equal numbers are one key\<close>
  "level_errors m ts =
     (let ks = map (level_key m) ts;
          firsts = fold (\<lambda>k acc. if list_ex (\<lambda>a. py_eq a k) acc then acc else acc @ [k]) ks []
      in concat (map (\<lambda>k. require (length (filter (py_eq k) ks) \<le> MAX_NODES_PER_LEVEL) (Level_Full k)) firsts))"

definition depth_errors :: "(string \<times> json) list \<Rightarrow> string list \<Rightarrow> (type_error, contract_error list) result" where
  "depth_errors m ts =
     bind_result (map_result (\<lambda>t. bind_result (depth_of t m) (\<lambda>d. Inr (require (d \<le> MAX_DAG_DEPTH) (Too_Deep t)))) ts)
       (\<lambda>ess. Inr (concat ess))"

definition validate_dag :: "json \<Rightarrow> (type_error, contract_error list) result" where
  "validate_dag dag =
     (case dag of
        JList es \<Rightarrow>
          let ts = task_ids_of es; m = parent_map_of es in
          bind_result (if ts = [] then Inr [] else depth_errors m ts) (\<lambda>deep.
            Inr (require (length es \<le> MAX_DAG_NODES) Dag_Too_Large @
                 map Duplicate_Task (duplicates [] ts) @
                 concat (map (\<lambda>e. validate_contract e ts) es) @
                 deep @ level_errors m ts))
      | _ \<Rightarrow> Inr [Dag_Not_List])"

definition validate_workflow :: "json \<Rightarrow> (type_error, contract_error list) result" where
  "validate_workflow w =
     (if \<not> is_obj w then Inr [Workflow_Not_Object]
      else bind_result (validate_dag (field_or ''dag'' (JList []) w)) (\<lambda>dag.
        Inr (require (text_value (get ''goal'' w)) Bad_Goal @ dag @
          (let tr = get ''step_tracker'' w in
           if tr = JNull then []
           else if \<not> is_obj tr then [Tracker_Not_Object]
           else require (case field ''required_steps'' tr of None \<Rightarrow> True | Some v \<Rightarrow> str_list v \<noteq> None) Tracker_Steps))))"

section \<open>Graphs that pass\<close>

lemma concat_Nil_iff: "concat (map f xs) = [] \<longleftrightarrow> (\<forall>x \<in> set xs. f x = [])"
  by (induction xs) auto

lemma duplicates_Nil: "duplicates seen ts = [] \<Longrightarrow> distinct ts \<and> set ts \<inter> set seen = {}"
proof (induction ts arbitrary: seen)
  case (Cons t ts)
  then have "t \<notin> set seen" "duplicates (t # seen) ts = []" by (auto split: if_splits)
  with Cons.IH [of "t # seen"] show ?case by auto
qed simp

lemma depth_from_chain:
  "depth_from m seen cur = Inr d \<Longrightarrow> d \<le> MAX_DAG_DEPTH \<Longrightarrow>
     length seen \<le> d \<and> (parent_of m ^^ (d - length seen)) cur = JNull"
proof (induction m seen cur rule: depth_from.induct)
  case (1 m seen cur)
  show ?case
  proof (cases "cur = JNull")
    case True
    with 1(2) show ?thesis by (simp add: depth_from.simps)
  next
    case False
    have rec: "\<not> unhashable cur" "cur \<notin> set seen" "depth_from m (cur # seen) (parent_of m cur) = Inr d"
      using 1(2,3) False by (auto simp: depth_from.simps [of m seen cur] split: if_splits)
    then have ih: "Suc (length seen) \<le> d" "(parent_of m ^^ (d - Suc (length seen))) (parent_of m cur) = JNull"
      using 1(1) [OF False rec(1,2) rec(3)] 1(3) by auto
    then have "(parent_of m ^^ Suc (d - Suc (length seen))) cur = JNull" by (simp only: funpow_Suc_right o_apply)
    moreover have "Suc (d - Suc (length seen)) = d - length seen" using ih(1) by simp
    ultimately show ?thesis using ih(1) by simp
  qed
qed

lemma parent_of_JNull [simp]: "(parent_of m ^^ n) JNull = JNull"
  by (induction n) (simp_all add: parent_of_def)

lemma depth_of_bound:
  assumes "depth_of t m = Inr d" "d \<le> MAX_DAG_DEPTH"
  shows "(parent_of m ^^ MAX_DAG_DEPTH) (JStr t) = JNull"
proof -
  have "(parent_of m ^^ d) (JStr t) = JNull" using depth_from_chain assms by (fastforce simp: depth_of_def)
  then have "(parent_of m ^^ (MAX_DAG_DEPTH - d + d)) (JStr t) = JNull" by (simp add: funpow_add)
  then show ?thesis using assms(2) by simp
qed

lemma map_result_Inr_all:
  "map_result f xs = Inr ys \<Longrightarrow> x \<in> set xs \<Longrightarrow> \<exists>y \<in> set ys. f x = Inr y"
  by (induction xs arbitrary: ys) (auto simp: result_simps)

lemma depth_errors_Nil:
  assumes "depth_errors m ts = Inr []" "t \<in> set ts"
  shows "(parent_of m ^^ MAX_DAG_DEPTH) (JStr t) = JNull"
proof -
  let ?f = "\<lambda>t. bind_result (depth_of t m) (\<lambda>d. Inr (require (d \<le> MAX_DAG_DEPTH) (Too_Deep t)))"
  obtain ess where ess: "map_result ?f ts = Inr ess" "concat ess = []"
    using assms(1) by (auto simp: depth_errors_def result_simps)
  obtain es where "es \<in> set ess" "?f t = Inr es" using map_result_Inr_all [OF ess(1) assms(2)] by blast
  then show ?thesis using ess(2) depth_of_bound by (auto simp: result_simps concat_eq_Nil_conv)
qed

lemma validate_dag_Nil:
  assumes "validate_dag (JList es) = Inr []"
  shows "length es \<le> MAX_DAG_NODES" "distinct (task_ids_of es)"
    "\<And>e. e \<in> set es \<Longrightarrow> validate_contract e (task_ids_of es) = []"
    "level_errors (parent_map_of es) (task_ids_of es) = []"
    "\<And>t. t \<in> set (task_ids_of es) \<Longrightarrow> (parent_of (parent_map_of es) ^^ MAX_DAG_DEPTH) (JStr t) = JNull"
proof -
  let ?ts = "task_ids_of es" and ?m = "parent_map_of es"
  obtain deep where deep: "(if ?ts = [] then Inr [] else depth_errors ?m ?ts) = Inr deep"
      "require (length es \<le> MAX_DAG_NODES) Dag_Too_Large @ map Duplicate_Task (duplicates [] ?ts) @
       concat (map (\<lambda>e. validate_contract e ?ts) es) @ deep @ level_errors ?m ?ts = []"
    using assms by (auto simp: validate_dag_def Let_def result_simps)
  then show "length es \<le> MAX_DAG_NODES" "level_errors ?m ?ts = []"
    "\<And>e. e \<in> set es \<Longrightarrow> validate_contract e ?ts = []" by (auto simp: concat_Nil_iff)
  show "distinct ?ts" using deep(2) duplicates_Nil [of "[]"] by simp
  show "(parent_of ?m ^^ MAX_DAG_DEPTH) (JStr t) = JNull" if "t \<in> set ?ts" for t
    using that deep depth_errors_Nil [of ?m ?ts t] by (cases ?ts) auto
qed

lemma validate_contract_task:
  assumes "validate_contract e known = []" "field ''task_id'' e = Some (JStr t)"
  shows "check_task t known e = []" "is_obj e" "text_value (JStr t)"
  using assms by (auto simp: validate_contract_def split: if_splits)

lemma validated_parent:
  assumes "validate_contract e known = []" "field ''task_id'' e = Some (JStr t)"
  shows "get ''parent'' e = JNull \<or> among known (get ''parent'' e)"
  using validate_contract_task(1) [OF assms] by (simp add: check_task_def)

section \<open>Levels\<close>

lemma level_firsts:
  assumes "k \<in> set ks \<or> (\<exists>a \<in> set acc. py_eq a k)" "\<And>k. k \<in> set ks \<Longrightarrow> py_eq k k"
  shows "\<exists>a \<in> set (fold (\<lambda>k acc. if list_ex (\<lambda>a. py_eq a k) acc then acc else acc @ [k]) ks acc). py_eq a k"
  using assms
proof (induction ks arbitrary: acc)
  case (Cons x ks)
  let ?acc = "if list_ex (\<lambda>a. py_eq a x) acc then acc else acc @ [x]"
  have "k \<in> set ks \<or> (\<exists>a \<in> set ?acc. py_eq a k)"
  proof (cases "k = x")
    case True
    then show ?thesis using Cons.prems(2) [of x] by (auto simp: list_ex_iff)
  next
    case False
    then show ?thesis using Cons.prems(1) by auto
  qed
  then show ?case using Cons.IH [of ?acc] Cons.prems(2) by simp
qed simp

lemma py_eq_str: "py_eq a (JStr s) \<longleftrightarrow> a = JStr s"
  by (cases a) auto

lemma length_filter_le_imp: "(\<And>x. P x \<Longrightarrow> Q x) \<Longrightarrow> length (filter P xs) \<le> length (filter Q xs)"
  by (induction xs) auto

lemma level_bound:
  assumes "level_errors m ts = []" "\<And>t. t \<in> set ts \<Longrightarrow> is_str (level_key m t)"
  shows "length (filter (\<lambda>t. level_key m t = k) ts) \<le> MAX_NODES_PER_LEVEL"
proof (cases "k \<in> set (map (level_key m) ts)")
  case True
  let ?ks = "map (level_key m) ts"
  let ?firsts = "fold (\<lambda>k acc. if list_ex (\<lambda>a. py_eq a k) acc then acc else acc @ [k]) ?ks []"
  have str: "is_str x" if "x \<in> set ?ks" for x using that assms(2) by auto
  have "py_eq x x" if "x \<in> set ?ks" for x using str [OF that] by (auto simp: is_str_iff py_eq_str)
  then obtain a where a: "a \<in> set ?firsts" "py_eq a k" using level_firsts [of k ?ks "[]"] True by auto
  obtain s where s: "k = JStr s" using str [OF True] by (auto simp: is_str_iff)
  then have ak: "a = k" using a(2) by (simp add: py_eq_str)
  have "length (filter (py_eq k) ?ks) \<le> MAX_NODES_PER_LEVEL"
    using assms(1) a(1) unfolding ak by (simp add: level_errors_def Let_def concat_Nil_iff)
  moreover have "length (filter (\<lambda>t. level_key m t = k) ts) \<le> length (filter (py_eq k) ?ks)"
    unfolding filter_map length_map by (rule length_filter_le_imp) (simp add: s)
  ultimately show ?thesis by simp
next
  case False
  then have "filter (\<lambda>t. level_key m t = k) ts = []" by (auto simp: filter_empty_conv)
  then show ?thesis by simp
qed

section \<open>Properties\<close>

text \<open>C30: A graph that passes is a bounded forest of known tasks: at most 50 entries, no task id twice, every
  parent a task of the graph, no chain of parents longer than three (so no cycle), and at most twenty
  tasks under one parent or at the root.\<close>

theorem valid_graphs_are_bounded_forests:
  assumes "validate_dag (JList es) = Inr []"
  shows "length es \<le> 50 \<and> distinct (task_ids_of es) \<and>
     (\<forall>t \<in> set (task_ids_of es).
        (parent_of (parent_map_of es) ^^ 3) (JStr t) = JNull \<and>
        (parent_of (parent_map_of es) (JStr t) = JNull \<or> among (task_ids_of es) (parent_of (parent_map_of es) (JStr t))) \<and>
        length (filter (\<lambda>u. level_key (parent_map_of es) u = level_key (parent_map_of es) t) (task_ids_of es)) \<le> 20)"
proof -
  let ?ts = "task_ids_of es" and ?m = "parent_map_of es"
  note valid = validate_dag_Nil [OF assms]
  have parent: "parent_of ?m (JStr t) = JNull \<or> among ?ts (parent_of ?m (JStr t))" for t
  proof (cases "map_of ?m t")
    case (Some p)
    then have "(t, p) \<in> set ?m" by (rule map_of_SomeD)
    then obtain e where e: "e \<in> set es" "is_str (get ''task_id'' e)" "t = str_of (get ''task_id'' e)" "p = get ''parent'' e"
      by (auto simp: parent_map_of_def)
    then have "field ''task_id'' e = Some (JStr t)" by (auto simp: is_str_iff field_or_def split: option.splits)
    from validated_parent [OF valid(3) [OF e(1)] this] show ?thesis using e(4) Some by (simp add: parent_of_def)
  qed (simp add: parent_of_def)
  have "is_str (level_key ?m t)" for t
    using parent [of t] by (auto simp: level_key_def Let_def among_def truthy_def)
  from level_bound [OF valid(4) this]
  have "length (filter (\<lambda>u. level_key ?m u = k) ?ts) \<le> 20" for k by (simp add: MAX_NODES_PER_LEVEL_def)
  moreover have "(parent_of ?m ^^ 3) (JStr t) = JNull" if "t \<in> set ?ts" for t
    using valid(5) [OF that] by (simp only: MAX_DAG_DEPTH_def)
  ultimately show ?thesis using valid(1,2) parent by (simp add: MAX_DAG_NODES_def)
qed

definition entry :: "string \<Rightarrow> (string \<times> json) list \<Rightarrow> json" where
  "entry t more = obj ([(''task_id'', JStr t), (''objective'', JStr ''o''), (''skill'', JStr ''s'')] @ more)"

theorem valid_graphs_are_bounded_forests_witness:
  "distinct (task_ids_of [entry ''a'' [], entry ''b'' [(''parent'', JStr ''a'')]])"
proof -
  have "validate_dag (JList [entry ''a'' [], entry ''b'' [(''parent'', JStr ''a'')]]) = Inr []" by code_simp
  from valid_graphs_are_bounded_forests [OF this] show ?thesis by blast
qed

text \<open>Inputs may point forwards and in a circle: two tasks that each take the other's output pass.\<close>

theorem circular_inputs_pass:
  "validate_dag (JList [entry ''a'' [(''inputs'', JList [JStr ''b'']), (''preconditions'', JList [JStr ''b:VERIFIED''])],
      entry ''b'' [(''inputs'', JList [JStr ''a:out'']), (''preconditions'', JList [JStr ''a:VERIFIED''])]]) = Inr []"
  by code_simp

text \<open>A parent that is a list is reported by the entry's check, but the depth check then raises.\<close>

theorem list_parent_raises:
  "validate_contract (entry ''a'' [(''parent'', JList [])]) [''a''] = [Bad_Parent ''a'' (JList [])] \<and>
   validate_dag (JList [entry ''a'' [(''parent'', JList [])]]) = Inl Type_Error"
  by code_simp

end
