(* ===== verification/Conv_Predicates.thy ===== *)
theory Conv_Predicates
  imports Conv_Contract
begin

text \<open>
  The predicate registry of task contracts (\<^verbatim>\<open>conversation/task_contract.py\<close>) over an
  explicit file system: absolute paths are component lists, and no link lies on them, so resolution
  is textual. Decoding of bytes, the digest and the canonical text of a value are parameters of the
  environment; the detail texts of the outcomes are left out.
\<close>

section \<open>Paths\<close>

type_synonym path = "string list"

definition join_path :: "path \<Rightarrow> string \<Rightarrow> path" where
  \<comment> \<open>\<^verbatim>\<open>base / rel\<close>: an absolute second part replaces the first\<close>
  "join_path base rel =
     (if starts_with ''/'' rel then [] else base) @ filter (\<lambda>c. c \<noteq> [] \<and> c \<noteq> ''.'') (split_on CHR ''/'' rel)"

fun walk_up :: "path \<Rightarrow> path \<Rightarrow> path" where
  "walk_up acc [] = rev acc"
| "walk_up acc (c # cs) = (if c = ''..'' then walk_up (drop 1 acc) cs else walk_up (c # acc) cs)"

definition normalise :: "path \<Rightarrow> path" where
  "normalise p = walk_up [] p"

definition inside :: "path \<Rightarrow> path \<Rightarrow> bool" where
  \<comment> \<open>\<^verbatim>\<open>os.path.commonpath([b, t]) == b\<close>\<close>
  "inside b t \<longleftrightarrow> take (length b) t = b"

definition resolved :: "path \<Rightarrow> bool" where
  "resolved p \<longleftrightarrow> ''..'' \<notin> set p"

lemma walk_up_resolved: "''..'' \<notin> set acc \<Longrightarrow> resolved (walk_up acc p)"
  by (induction acc p rule: walk_up.induct) (auto simp: resolved_def dest: in_set_dropD)

lemma normalise_resolved [simp]: "resolved (normalise p)"
  by (simp add: normalise_def walk_up_resolved)

lemma walk_up_plain: "''..'' \<notin> set p \<Longrightarrow> walk_up acc p = rev acc @ p"
  by (induction p arbitrary: acc) auto

lemma normalise_id: "resolved p \<Longrightarrow> normalise p = p"
  by (simp add: normalise_def resolved_def walk_up_plain)

lemma inside_refl [simp]: "inside b b"
  by (simp add: inside_def)

lemma inside_iff: "inside b t \<longleftrightarrow> (\<exists>u. t = b @ u)"
  by (auto simp: inside_def intro: exI [of _ "drop (length b) t"]) (metis append_take_drop_id)

lemma inside_trans: "inside a b \<Longrightarrow> inside b c \<Longrightarrow> inside a c"
  by (auto simp: inside_iff)

section \<open>Files\<close>

datatype node = Directory | File string      \<comment> \<open>the bytes\<close>

type_synonym files = "path \<Rightarrow> node option"

record pred_env =
  pe_decode :: "string \<Rightarrow> string"     \<comment> \<open>UTF-8 with replacement\<close>
  pe_digest :: "string \<Rightarrow> string"     \<comment> \<open>hexadecimal SHA-256\<close>

datatype py_error = Value_Error | OS_Error | Key_Error | Type_Fault | Attribute_Error

definition scoped_path :: "path \<Rightarrow> json \<Rightarrow> (py_error, path) result" where
  \<comment> \<open>a path that is no string, holds a null byte or leaves the root raises\<close>
  "scoped_path rt rel =
     (case rel of
        JStr s \<Rightarrow>
          if CHR 0x00 \<in> set s then Inl Value_Error
          else let target = normalise (join_path (normalise rt) s)
               in if inside (normalise rt) target then Inr target else Inl Value_Error
      | _ \<Rightarrow> Inl Type_Fault)"

definition item :: "string \<Rightarrow> json \<Rightarrow> (py_error, json) result" where
  \<comment> \<open>\<^verbatim>\<open>pred[k]\<close>\<close>
  "item k p = (case field k p of None \<Rightarrow> Inl Key_Error | Some v \<Rightarrow> Inr v)"

definition pred_path :: "path \<Rightarrow> json \<Rightarrow> (py_error, path) result" where
  "pred_path rt p = bind_result (item ''path'' p) (scoped_path rt)"

fun read_file :: "node option \<Rightarrow> (py_error, string) result" where
  "read_file (Some (File c)) = Inr c"
| "read_file _ = Inl OS_Error"

definition canonical_json :: "json \<Rightarrow> (py_error, string) result" where
  "canonical_json v = (if sortable v then Inr (dumps '','' '':'' (sort_keys v)) else Inl Type_Fault)"

section \<open>Runners\<close>

definition run_exit_code :: "json \<Rightarrow> json \<Rightarrow> (py_error, bool) result" where
  "run_exit_code p result = bind_result (item ''code'' p) (\<lambda>want. Inr (py_eq (get ''exit_code'' result) want))"

definition run_file_exists :: "path \<Rightarrow> files \<Rightarrow> json \<Rightarrow> (py_error, bool) result" where
  "run_file_exists rt fs p = bind_result (pred_path rt p) (\<lambda>t. Inr (fs t \<noteq> None))"

definition text_in :: "pred_env \<Rightarrow> node option \<Rightarrow> json \<Rightarrow> (py_error, bool) result" where
  \<comment> \<open>\<^verbatim>\<open>pred["text"] in p.read_text(...)\<close>\<close>
  "text_in env n p = bind_result (read_file n) (\<lambda>c. bind_result (item ''text'' p) (\<lambda>t.
     case t of JStr s \<Rightarrow> Inr (contains s (pe_decode env c)) | _ \<Rightarrow> Inl Type_Fault))"

definition run_file_contains :: "pred_env \<Rightarrow> path \<Rightarrow> files \<Rightarrow> json \<Rightarrow> (py_error, bool) result" where
  "run_file_contains env rt fs p = bind_result (pred_path rt p) (\<lambda>t.
     if fs t = None then Inr False else text_in env (fs t) p)"

definition run_file_not_contains :: "pred_env \<Rightarrow> path \<Rightarrow> files \<Rightarrow> json \<Rightarrow> (py_error, bool) result" where
  "run_file_not_contains env rt fs p = bind_result (pred_path rt p) (\<lambda>t.
     if fs t = None then Inr True else bind_result (text_in env (fs t) p) (\<lambda>hit. Inr (\<not> hit)))"

definition run_output_equals :: "json \<Rightarrow> json \<Rightarrow> (py_error, bool) result" where
  "run_output_equals p result = bind_result (canonical_json (get ''output'' result)) (\<lambda>got.
     bind_result (item ''expected'' p) (\<lambda>e. bind_result (canonical_json e) (\<lambda>want. Inr (got = want))))"

definition run_artifact_hash :: "pred_env \<Rightarrow> path \<Rightarrow> files \<Rightarrow> json \<Rightarrow> (py_error, bool) result" where
  "run_artifact_hash env rt fs p = bind_result (pred_path rt p) (\<lambda>t.
     if fs t = None then Inr False
     else bind_result (read_file (fs t)) (\<lambda>c. bind_result (item ''sha256'' p) (\<lambda>h.
       case h of JStr want \<Rightarrow> Inr (pe_digest env c = py_lower want) | _ \<Rightarrow> Inl Attribute_Error)))"

definition run_predicate :: "pred_env \<Rightarrow> path \<Rightarrow> files \<Rightarrow> json \<Rightarrow> json \<Rightarrow> (py_error, bool) result" where
  "run_predicate env rt fs result p =
     (let kind = get ''kind'' p in
      if kind = JStr ''exit_code'' then run_exit_code p result
      else if kind = JStr ''file_exists'' then run_file_exists rt fs p
      else if kind = JStr ''file_contains'' then run_file_contains env rt fs p
      else if kind = JStr ''file_not_contains'' then run_file_not_contains env rt fs p
      else if kind = JStr ''output_equals'' then run_output_equals p result
      else if kind = JStr ''artifact_hash'' then run_artifact_hash env rt fs p
      else Inr False)"

record outcome =
  oc_kind :: json
  oc_passed :: bool

definition run_one :: "pred_env \<Rightarrow> path \<Rightarrow> files \<Rightarrow> json \<Rightarrow> json \<Rightarrow> (py_error, outcome) result" where
  \<comment> \<open>the handler catches value, system, key and type errors, and no attribute error\<close>
  "run_one env rt fs result p =
     (if \<not> is_obj p then Inl Attribute_Error
      else case run_predicate env rt fs result p of
             Inr b \<Rightarrow> Inr \<lparr>oc_kind = get ''kind'' p, oc_passed = b\<rparr>
           | Inl e \<Rightarrow> if e = Attribute_Error then Inl Attribute_Error else Inr \<lparr>oc_kind = get ''kind'' p, oc_passed = False\<rparr>)"

definition prefixes_of :: "path \<Rightarrow> path list" where
  "prefixes_of p = map (\<lambda>n. take n p) [0..<Suc (length p)]"

definition blocked :: "path \<Rightarrow> files \<Rightarrow> bool" where
  \<comment> \<open>a file lies where the root or a directory above it should be\<close>
  "blocked rt fs \<longleftrightarrow> list_ex (\<lambda>p. case fs p of Some (File _) \<Rightarrow> True | _ \<Rightarrow> False) (prefixes_of rt)"

definition make_root :: "path \<Rightarrow> files \<Rightarrow> files" where
  \<comment> \<open>\<^verbatim>\<open>root.mkdir(parents=True, exist_ok=True)\<close>\<close>
  "make_root rt fs = (\<lambda>p. if fs p = None \<and> p \<in> set (prefixes_of rt) then Some Directory else fs p)"

definition run_predicates :: "pred_env \<Rightarrow> path \<Rightarrow> files \<Rightarrow> json \<Rightarrow> json list \<Rightarrow> (py_error, outcome list) result" where
  "run_predicates env rt fs result ps =
     (if blocked rt fs then Inl OS_Error else map_result (run_one env rt (make_root rt fs) result) ps)"

definition predicates_pass :: "outcome list \<Rightarrow> bool" where
  "predicates_pass os \<longleftrightarrow> list_all oc_passed os"

section \<open>What the predicates can see\<close>

lemma scoped_path_inside: "scoped_path rt v = Inr t \<Longrightarrow> inside (normalise rt) t \<and> resolved t"
  by (auto simp: scoped_path_def Let_def split: json.splits if_splits)

lemma pred_path_inside: "pred_path rt p = Inr t \<Longrightarrow> inside (normalise rt) t"
  by (auto simp: pred_path_def result_simps dest: scoped_path_inside)

definition agree_inside :: "path \<Rightarrow> files \<Rightarrow> files \<Rightarrow> bool" where
  "agree_inside rt fs gs \<longleftrightarrow> (\<forall>t. inside (normalise rt) t \<longrightarrow> fs t = gs t)"

lemma bind_pred_path_cong:
  "(\<And>t. inside (normalise rt) t \<Longrightarrow> f t = g t) \<Longrightarrow> bind_result (pred_path rt p) f = bind_result (pred_path rt p) g"
  using pred_path_inside by (cases "pred_path rt p") auto

lemma run_predicate_local:
  assumes "agree_inside rt fs gs"
  shows "run_predicate env rt fs result p = run_predicate env rt gs result p"
proof -
  have eq: "fs t = gs t" if "inside (normalise rt) t" for t using assms that by (simp add: agree_inside_def)
  have "run_file_exists rt fs p = run_file_exists rt gs p"
    unfolding run_file_exists_def by (rule bind_pred_path_cong) (simp add: eq)
  moreover have "run_file_contains env rt fs p = run_file_contains env rt gs p"
    unfolding run_file_contains_def by (rule bind_pred_path_cong) (simp add: eq)
  moreover have "run_file_not_contains env rt fs p = run_file_not_contains env rt gs p"
    unfolding run_file_not_contains_def by (rule bind_pred_path_cong) (simp add: eq)
  moreover have "run_artifact_hash env rt fs p = run_artifact_hash env rt gs p"
    unfolding run_artifact_hash_def by (rule bind_pred_path_cong) (simp add: eq)
  ultimately show ?thesis by (simp add: run_predicate_def Let_def)
qed

lemma map_result_cong: "(\<And>x. x \<in> set xs \<Longrightarrow> f x = g x) \<Longrightarrow> map_result f xs = map_result g xs"
  by (induction xs) auto

section \<open>Validated predicates do not raise\<close>

lemma validated_predicate:
  assumes "validate_predicates (JList ps) = []" "p \<in> set ps"
  shows "is_obj p" "get ''kind'' p = JStr ''artifact_hash'' \<Longrightarrow> \<exists>h. field ''sha256'' p = Some (JStr h)"
proof -
  obtain i where "i < length ps" "ps ! i = p" using assms(2) by (auto simp: in_set_conv_nth)
  then have "(i, p) \<in> set (enumerate 0 ps)" by (simp add: in_set_enumerate_eq)
  moreover have "\<forall>(i, p) \<in> set (enumerate 0 ps). validate_predicate i p = []"
    using assms(1) by (auto simp: validate_predicates_def concat_Nil_iff)
  ultimately have i: "validate_predicate i p = []" by blast
  then show o: "is_obj p" by (auto simp: validate_predicate_def split: if_splits)
  show "\<exists>h. field ''sha256'' p = Some (JStr h)" if "get ''kind'' p = JStr ''artifact_hash''"
    using i o that
    by (simp add: validate_predicate_def PREDICATE_ARGS_def has_type_def is_str_iff Let_def split: option.splits)
qed

lemma run_predicate_catches:
  assumes "get ''kind'' p = JStr ''artifact_hash'' \<Longrightarrow> \<exists>h. field ''sha256'' p = Some (JStr h)"
  shows "run_predicate env rt fs result p \<noteq> Inl Attribute_Error"
proof -
  have scope: "scoped_path rt v \<noteq> Inl Attribute_Error" for v
    by (auto simp: scoped_path_def Let_def split: json.splits if_splits)
  have it: "item k p \<noteq> Inl Attribute_Error" for k by (simp add: item_def split: option.splits)
  have path: "pred_path rt p \<noteq> Inl Attribute_Error" using scope it by (auto simp: pred_path_def result_simps)
  have rf: "read_file n \<noteq> Inl Attribute_Error" for n by (cases n rule: read_file.cases) auto
  have tin: "text_in env n p \<noteq> Inl Attribute_Error" for n
    using rf it by (auto simp: text_in_def result_simps split: json.splits)
  have ahash: "run_artifact_hash env rt fs p \<noteq> Inl Attribute_Error" if "get ''kind'' p = JStr ''artifact_hash''"
    using assms [OF that] path rf by (auto simp: run_artifact_hash_def result_simps item_def split: if_splits)
  show ?thesis
    using path it tin ahash
    by (auto simp: run_predicate_def Let_def run_exit_code_def run_file_exists_def run_file_contains_def
        run_file_not_contains_def run_output_equals_def canonical_json_def result_simps split: if_splits)
qed

lemma run_one_validated:
  assumes "validate_predicates (JList ps) = []" "p \<in> set ps"
  shows "\<exists>b. run_one env rt fs result p = Inr \<lparr>oc_kind = get ''kind'' p, oc_passed = b\<rparr>"
  using validated_predicate [OF assms] run_predicate_catches [of p env rt fs result]
  by (auto simp: run_one_def split: sum.splits)

section \<open>Properties\<close>

lemma agree_make_root: "agree_inside rt fs gs \<Longrightarrow> agree_inside rt (make_root rt fs) (make_root rt gs)"
  by (simp add: agree_inside_def make_root_def)

text \<open>C31: A verification run reads nothing outside the declared output scope: two file systems that agree
  inside it, and in which the scope is a directory, give the same outcomes, whatever paths the predicates name.\<close>

theorem predicates_stay_inside:
  assumes "agree_inside rt fs gs" "\<not> blocked rt fs" "\<not> blocked rt gs"
  shows "run_predicates env rt fs result ps = run_predicates env rt gs result ps"
proof -
  have "run_one env rt (make_root rt fs) result p = run_one env rt (make_root rt gs) result p" for p
    by (simp add: run_one_def run_predicate_local [OF agree_make_root [OF assms(1)]])
  then show ?thesis using assms(2,3) unfolding run_predicates_def by (simp cong: map_result_cong)
qed

definition toy_pred_env :: pred_env where
  "toy_pred_env = \<lparr>pe_decode = id, pe_digest = id\<rparr>"

definition file_pred :: "string \<Rightarrow> string \<Rightarrow> (string \<times> json) list \<Rightarrow> json" where
  "file_pred k p kvs = obj ([(''kind'', JStr k), (''path'', JStr p)] @ kvs)"

theorem predicates_stay_inside_witness:
  "run_predicates toy_pred_env [''out''] (Map.empty([''etc'', ''passwd''] \<mapsto> File ''x'')) JNull
     [file_pred ''file_exists'' ''../etc/passwd'' []] =
   run_predicates toy_pred_env [''out''] Map.empty JNull [file_pred ''file_exists'' ''../etc/passwd'' []]"
proof (rule predicates_stay_inside)
  show "\<not> blocked [''out''] (Map.empty([''etc'', ''passwd''] \<mapsto> File ''x''))" "\<not> blocked [''out''] Map.empty" by code_simp+
  show "agree_inside [''out''] (Map.empty([''etc'', ''passwd''] \<mapsto> File ''x'')) Map.empty"
    by (auto simp: agree_inside_def inside_def normalise_def)
qed

text \<open>On predicates that passed validation, where the output scope can be a directory, the runner never
  raises: it gives one outcome per predicate, of that predicate's kind, in their order.\<close>

theorem validated_predicates_never_raise:
  assumes "validate_predicates (JList ps) = []" "\<not> blocked rt fs"
  shows "\<exists>os. run_predicates env rt fs result ps = Inr os \<and> map oc_kind os = map (get ''kind'') ps"
proof -
  let ?run = "run_one env rt (make_root rt fs) result"
  let ?out = "\<lambda>p. \<lparr>oc_kind = get ''kind'' p, oc_passed = oc_passed (projr (?run p))\<rparr>"
  have "?run p = Inr (?out p)" if "p \<in> set ps" for p
    using run_one_validated [OF assms(1) that, of env rt "make_root rt fs" result] by auto
  then have "map_result ?run ps = Inr (map ?out ps)" by (rule map_result_all)
  then show ?thesis using assms(2) by (simp add: run_predicates_def comp_def)
qed

theorem validated_predicates_never_raise_witness:
  "\<exists>os. run_predicates toy_pred_env [] Map.empty JNull [file_pred ''artifact_hash'' ''a'' [(''sha256'', JStr ''AB'')]] = Inr os"
proof -
  have "validate_predicates (JList [file_pred ''artifact_hash'' ''a'' [(''sha256'', JStr ''AB'')]]) = []" by code_simp
  moreover have "\<not> blocked [] Map.empty" by code_simp
  ultimately show ?thesis using validated_predicates_never_raise by blast
qed

text \<open>Without validation it can: a digest that is a number raises, where a missing one is a failed outcome.\<close>

theorem malformed_digest_raises:
  "run_predicates toy_pred_env [] (Map.empty([''a''] \<mapsto> File ''x'')) JNull [file_pred ''artifact_hash'' ''a'' [(''sha256'', JInt 5)]]
     = Inl Attribute_Error \<and>
   run_predicates toy_pred_env [] (Map.empty([''a''] \<mapsto> File ''x'')) JNull [file_pred ''artifact_hash'' ''a'' []]
     = Inr [\<lparr>oc_kind = JStr ''artifact_hash'', oc_passed = False\<rparr>]"
  by code_simp

end
