(* ===== verification/Conv_Ledger.thy ===== *)
theory Conv_Ledger
  imports Conv_Predicates "HOL-Library.Multiset"
begin

text \<open>
  The evidence ledger both conversation producers write (\<^verbatim>\<open>conversation/producer.py\<close>,
  \<^verbatim>\<open>conversation/task_producer.py\<close>): the verdict transitions, the claim registry, the
  replay cursor, the evidence files, and the production of one record. The digest is a parameter;
  sub-objects of a record are objects where the source reads them as such.
\<close>

section \<open>Verdicts and claims\<close>

datatype polarity = Supporting | Inconclusive | Contradicting

fun polarity_text :: "polarity \<Rightarrow> string" where
  "polarity_text Supporting = ''SUPPORTING''"
| "polarity_text Inconclusive = ''INCONCLUSIVE''"
| "polarity_text Contradicting = ''CONTRADICTING''"

definition PREVIOUSLY_VERIFIED :: "string list" where
  "PREVIOUSLY_VERIFIED = [''VERIFIED'', ''SUPPORTED'', ''VALIDATED'', ''REGRESSED'']"

record claim_entry =
  ce_id :: string
  ce_subject :: string
  ce_text :: string
  ce_type :: string
  ce_tier :: string
  ce_verdict :: string
  ce_supporting :: "string list"
  ce_inconclusive :: "string list"
  ce_negative :: "string list"
  ce_first_neg :: "string option"
  ce_last_neg :: "string option"
  ce_first_sup :: "string option"       \<comment> \<open>\<open>None\<close>: the key is absent\<close>
  ce_last_sup :: "string option"
  ce_last_inc :: "string option"

definition verdict_for :: "claim_entry option \<Rightarrow> polarity \<Rightarrow> string" where
  "verdict_for prior p =
     (case p of
        Contradicting \<Rightarrow>
          (case prior of None \<Rightarrow> ''UNVERIFIED''
           | Some e \<Rightarrow> if ce_verdict e \<in> set PREVIOUSLY_VERIFIED then ''REGRESSED''
                      else if ce_verdict e = ''CONTESTED'' then ''CONTESTED'' else ''UNVERIFIED'')
      | Supporting \<Rightarrow>
          (case prior of None \<Rightarrow> ''VERIFIED''
           | Some e \<Rightarrow> if ce_verdict e = ''CONTESTED'' then ''CONTESTED''
                      else if ce_negative e \<noteq> [] then ''CONTESTED'' else ''VERIFIED'')
      | Inconclusive \<Rightarrow>
          (case prior of None \<Rightarrow> ''UNVERIFIED''
           | Some e \<Rightarrow> if ce_verdict e \<in> set PREVIOUSLY_VERIFIED then ''REGRESSED''
                      else if ce_verdict e = ''CONTESTED'' then ''CONTESTED'' else ''UNVERIFIED''))"

definition add_evidence :: "string \<Rightarrow> string list \<Rightarrow> string list" where
  \<comment> \<open>\<^verbatim>\<open>sorted({*old, ev_id})\<close>\<close>
  "add_evidence ev old = sort (remdups (ev # old))"

definition prior_list :: "(claim_entry \<Rightarrow> 'a list) \<Rightarrow> claim_entry option \<Rightarrow> 'a list" where
  "prior_list f prior = (case prior of None \<Rightarrow> [] | Some e \<Rightarrow> f e)"

definition prior_time :: "(claim_entry \<Rightarrow> string option) \<Rightarrow> claim_entry option \<Rightarrow> string option" where
  \<comment> \<open>an empty timestamp counts as none\<close>
  "prior_time f prior = (case Option.bind prior f of None \<Rightarrow> None | Some t \<Rightarrow> if t = [] then None else Some t)"

text \<open>What a producer derives from one record before it touches the ledger.\<close>

record prepared =
  pp_claim :: string
  pp_subject :: string
  pp_text :: string
  pp_ctype :: string
  pp_polarity :: polarity
  pp_etype :: string
  pp_evidence :: string
  pp_time :: string
  pp_hash :: string
  pp_artifact :: json

definition TIER :: string where "TIER = ''T3''"

definition claim_entry_of :: "prepared \<Rightarrow> claim_entry option \<Rightarrow> claim_entry" where
  "claim_entry_of p prior =
     (let sup = prior_list ce_supporting prior; inc = prior_list ce_inconclusive prior; neg = prior_list ce_negative prior;
          base = \<lparr>ce_id = pp_claim p, ce_subject = pp_subject p, ce_text = pp_text p, ce_type = pp_ctype p, ce_tier = TIER,
            ce_verdict = verdict_for prior (pp_polarity p), ce_supporting = sup, ce_inconclusive = inc, ce_negative = neg,
            ce_first_neg = Option.bind prior ce_first_neg, ce_last_neg = Option.bind prior ce_last_neg,
            ce_first_sup = None, ce_last_sup = None, ce_last_inc = None\<rparr>
      in case pp_polarity p of
           Supporting \<Rightarrow> base\<lparr>ce_supporting := add_evidence (pp_evidence p) sup,
             ce_first_sup := (if prior_time ce_first_sup prior = None then Some (pp_time p) else None),
             ce_last_sup := Some (pp_time p)\<rparr>
         | Inconclusive \<Rightarrow> base\<lparr>ce_inconclusive := add_evidence (pp_evidence p) inc, ce_last_inc := Some (pp_time p)\<rparr>
         | Contradicting \<Rightarrow> base\<lparr>ce_negative := add_evidence (pp_evidence p) neg,
             ce_first_neg := (case prior_time ce_first_neg prior of None \<Rightarrow> Some (pp_time p) | Some t \<Rightarrow> Some t),
             ce_last_neg := Some (pp_time p)\<rparr>)"

section \<open>The ledger directory\<close>

datatype 'a stored = Absent | Garbled | Stored 'a

fun loaded :: "'a \<Rightarrow> 'a stored \<Rightarrow> 'a" where
  \<comment> \<open>\<^verbatim>\<open>load_registry\<close> and \<^verbatim>\<open>load_cursor\<close>: a missing or malformed file is empty\<close>
  "loaded z (Stored x) = x"
| "loaded z _ = z"

record ledger =
  lg_claims :: "claim_entry list stored"
  lg_cursor :: "string list stored"
  lg_files :: "(string \<times> json) list"         \<comment> \<open>evidence files by path\<close>
  lg_records :: "json list"                    \<comment> \<open>\<^verbatim>\<open>records/conversation.jsonl\<close>\<close>
  lg_events :: "json list"                     \<comment> \<open>\<^verbatim>\<open>records/task_events.jsonl\<close>\<close>

abbreviation claims_of :: "ledger \<Rightarrow> claim_entry list" where
  "claims_of l \<equiv> loaded [] (lg_claims l)"

abbreviation cursor_of :: "ledger \<Rightarrow> string list" where
  "cursor_of l \<equiv> loaded [] (lg_cursor l)"

definition sanitize :: "string \<Rightarrow> string" where
  "sanitize s = map (\<lambda>c. if c \<in> set '':+/ '' \<or> c = CHR 0x5C then CHR ''_'' else c) s"

definition artifact_filename :: "prepared \<Rightarrow> string" where
  "artifact_filename p = sanitize (pp_time p) @ ''_'' @ pp_evidence p @ ''.json''"

definition evidence_ref :: "prepared \<Rightarrow> string" where
  "evidence_ref p = ''ledger://evidence/'' @ pp_etype p @ ''/'' @ artifact_filename p"

record production =
  pr_ref :: string
  pr_claim :: string
  pr_verdict :: "string option"
  pr_ingested :: bool

definition put_claim :: "claim_entry \<Rightarrow> claim_entry list \<Rightarrow> claim_entry list" where
  \<comment> \<open>append a new claim, or replace the first one of that id\<close>
  "put_claim e cs =
     (if list_ex (\<lambda>c. ce_id c = ce_id e) cs
      then (let i = length (takeWhile (\<lambda>c. ce_id c \<noteq> ce_id e) cs) in cs[i := e]) else cs @ [e])"

definition claim_of :: "string \<Rightarrow> claim_entry list \<Rightarrow> claim_entry option" where
  \<comment> \<open>\<^verbatim>\<open>by_id.get(claim_id)\<close>: of several entries the last\<close>
  "claim_of i cs = find (\<lambda>c. ce_id c = i) (rev cs)"

definition store_file :: "string \<Rightarrow> json \<Rightarrow> (string \<times> json) list \<Rightarrow> (string \<times> json) list" where
  "store_file f a fs = (if map_of fs f = None then fs @ [(f, a)] else fs)"

definition store_claims :: "prepared \<Rightarrow> ledger \<Rightarrow> ledger" where
  "store_claims p l =
     (let entry = claim_entry_of p (claim_of (pp_claim p) (claims_of l))
      in l\<lparr>lg_files := store_file (evidence_ref p) (pp_artifact p) (lg_files l),
           lg_claims := Stored (sort_key ce_id (put_claim entry (claims_of l)))\<rparr>)"

definition store_cursor :: "prepared \<Rightarrow> string list \<Rightarrow> ledger \<Rightarrow> ledger" where
  "store_cursor p old l = l\<lparr>lg_cursor := Stored (add_evidence (pp_hash p) old)\<rparr>"

definition produce_prepared :: "prepared \<Rightarrow> bool \<Rightarrow> ledger \<Rightarrow> production \<times> ledger" where
  "produce_prepared p dry l =
     (let prior = claim_of (pp_claim p) (claims_of l);
          answer = (\<lambda>v new. \<lparr>pr_ref = evidence_ref p, pr_claim = pp_claim p, pr_verdict = v, pr_ingested = new\<rparr>)
      in if pp_hash p \<in> set (cursor_of l) \<and> \<not> dry
         then (answer (map_option (\<lambda>e. ce_verdict (claim_entry_of p (Some e))) prior) False, l)
         else (answer (Some (ce_verdict (claim_entry_of p prior))) True,
               if dry then l else store_cursor p (cursor_of l) (store_claims p l)))"

section \<open>The verdict of a history\<close>

text \<open>What the transition table amounts to: the verdict as a function of the polarities a claim has
  received, in order.\<close>

definition contested :: "polarity list \<Rightarrow> bool" where
  \<comment> \<open>support came after an attack\<close>
  "contested h \<longleftrightarrow> Supporting \<in> set (dropWhile (\<lambda>p. p \<noteq> Contradicting) h)"

definition claim_status :: "polarity list \<Rightarrow> string" where
  "claim_status h =
     (if contested h then ''CONTESTED'' else if Supporting \<notin> set h then ''UNVERIFIED''
      else if last h = Supporting then ''VERIFIED'' else ''REGRESSED'')"

definition tracks :: "polarity list \<Rightarrow> claim_entry option \<Rightarrow> bool" where
  "tracks h prior \<longleftrightarrow>
     (case prior of None \<Rightarrow> h = []
      | Some e \<Rightarrow> h \<noteq> [] \<and> ce_verdict e = claim_status h \<and> (ce_negative e \<noteq> [] \<longleftrightarrow> Contradicting \<in> set h))"

lemma add_evidence_simps [simp]: "set (add_evidence ev old) = insert ev (set old)" "add_evidence ev old \<noteq> []"
proof -
  show set: "set (add_evidence ev old) = insert ev (set old)" by (auto simp: add_evidence_def)
  then show "add_evidence ev old \<noteq> []" by force
qed

lemma claim_entry_of_fields [simp]:
  "ce_id (claim_entry_of p prior) = pp_claim p"
  "ce_verdict (claim_entry_of p prior) = verdict_for prior (pp_polarity p)"
  "ce_negative (claim_entry_of p prior) =
     (if pp_polarity p = Contradicting then add_evidence (pp_evidence p) (prior_list ce_negative prior) else prior_list ce_negative prior)"
  "ce_supporting (claim_entry_of p prior) =
     (if pp_polarity p = Supporting then add_evidence (pp_evidence p) (prior_list ce_supporting prior) else prior_list ce_supporting prior)"
  "ce_inconclusive (claim_entry_of p prior) =
     (if pp_polarity p = Inconclusive then add_evidence (pp_evidence p) (prior_list ce_inconclusive prior) else prior_list ce_inconclusive prior)"
  by (simp_all add: claim_entry_of_def Let_def split: polarity.split)

lemma no_attack:
  "Contradicting \<notin> set h \<Longrightarrow> dropWhile (\<lambda>p. p \<noteq> Contradicting) (h @ g) = dropWhile (\<lambda>p. p \<noteq> Contradicting) g"
  by (induction h) auto

lemma not_contested: "Contradicting \<notin> set h \<Longrightarrow> \<not> contested h"
  unfolding contested_def by (induction h) auto

lemma contested_snoc:
  "contested (h @ [p]) \<longleftrightarrow> contested h \<or> (p = Supporting \<and> Contradicting \<in> set h)"
proof (cases "Contradicting \<in> set h")
  case True
  then show ?thesis by (auto simp: contested_def dropWhile_append1)
next
  case False
  have "contested (h @ [p]) \<longleftrightarrow> contested [p]" unfolding contested_def no_attack [OF False] ..
  then show ?thesis using not_contested [OF False] False by (simp add: contested_def)
qed

lemma contested_parts: "contested h \<Longrightarrow> Supporting \<in> set h \<and> Contradicting \<in> set h"
  using not_contested by (auto simp: contested_def dest: set_dropWhileD)

lemma status_cases:
  "claim_status h \<in> set PREVIOUSLY_VERIFIED \<longleftrightarrow> \<not> contested h \<and> Supporting \<in> set h"
  "claim_status h = ''CONTESTED'' \<longleftrightarrow> contested h"
  by (auto simp: claim_status_def PREVIOUSLY_VERIFIED_def)

lemma claim_status_snoc:
  "claim_status (h @ [p]) =
     (if contested h \<or> (p = Supporting \<and> Contradicting \<in> set h) then ''CONTESTED''
      else if p = Supporting then ''VERIFIED'' else if Supporting \<notin> set h then ''UNVERIFIED'' else ''REGRESSED'')"
  by (simp add: claim_status_def contested_snoc)

lemma verdict_tracks:
  assumes "tracks h prior"
  shows "verdict_for prior p = claim_status (h @ [p])"
proof (cases prior)
  case None
  with assms show ?thesis
    by (cases p) (simp_all add: tracks_def verdict_for_def claim_status_def contested_def)
next
  case (Some e)
  with assms have e: "h \<noteq> []" "ce_verdict e = claim_status h" "ce_negative e \<noteq> [] \<longleftrightarrow> Contradicting \<in> set h"
    by (simp_all add: tracks_def)
  have c: "contested h \<Longrightarrow> Supporting \<in> set h \<and> Contradicting \<in> set h" by (rule contested_parts)
  show ?thesis
    unfolding claim_status_snoc verdict_for_def Some option.case e(2) status_cases
    using c e(3) by (cases p) auto
qed

lemma entry_tracks: "tracks h prior \<Longrightarrow> tracks (h @ [pp_polarity p]) (Some (claim_entry_of p prior))"
  using verdict_tracks [of h prior "pp_polarity p"]
  by (auto simp: tracks_def prior_list_def split: option.splits)

section \<open>The registry as a table\<close>

definition keyed :: "claim_entry list \<Rightarrow> bool" where
  "keyed cs \<longleftrightarrow> distinct (map ce_id cs)"

lemma find_Some_member: "find P xs = Some x \<Longrightarrow> x \<in> set xs \<and> P x"
  by (induction xs) (auto split: if_splits)

lemma claim_of_iff: "keyed cs \<Longrightarrow> claim_of i cs = Some c \<longleftrightarrow> c \<in> set cs \<and> ce_id c = i"
proof
  assume "claim_of i cs = Some c"
  then show "c \<in> set cs \<and> ce_id c = i" by (auto simp: claim_of_def dest!: find_Some_member)
next
  assume k: "keyed cs" and c: "c \<in> set cs \<and> ce_id c = i"
  then have "claim_of i cs \<noteq> None" by (auto simp: claim_of_def find_None_iff)
  then obtain d where d: "claim_of i cs = Some d" by blast
  then have "d \<in> set cs" "ce_id d = i" by (auto simp: claim_of_def dest!: find_Some_member)
  then have "d = c" using k c by (auto simp: keyed_def distinct_map inj_on_def)
  with d show "claim_of i cs = Some c" by simp
qed

lemma claim_of_None: "keyed cs \<Longrightarrow> claim_of i cs = None \<longleftrightarrow> i \<notin> ce_id ` set cs"
proof (cases "claim_of i cs")
  case None
  assume "keyed cs"
  with None claim_of_iff [of cs i] show ?thesis by force
next
  case (Some c)
  assume "keyed cs"
  then have "c \<in> set cs" "ce_id c = i" using claim_of_iff [of cs i c] Some by auto
  with Some show ?thesis by force
qed

lemma takeWhile_key: "\<forall>x \<in> set xs. f x \<noteq> k \<Longrightarrow> f c = k \<Longrightarrow> takeWhile (\<lambda>c. f c \<noteq> k) (xs @ c # ys) = xs"
  by (induction xs) auto

lemma put_claim_split:
  assumes "keyed cs"
  shows "map ce_id (put_claim e cs) = (if ce_id e \<in> ce_id ` set cs then map ce_id cs else map ce_id cs @ [ce_id e]) \<and>
    set (put_claim e cs) = insert e {c \<in> set cs. ce_id c \<noteq> ce_id e}"
proof (cases "ce_id e \<in> ce_id ` set cs")
  case True
  then obtain xs c ys where cs: "cs = xs @ c # ys" "ce_id c = ce_id e"
    by (auto dest: split_list)
  have tw: "takeWhile (\<lambda>c. ce_id c \<noteq> ce_id e) cs = xs"
    unfolding cs(1) by (rule takeWhile_key) (use assms cs in \<open>auto simp: keyed_def image_iff\<close>)
  have "put_claim e cs = xs @ e # ys"
    using cs tw by (simp add: put_claim_def)
  then show ?thesis using assms cs by (auto simp: keyed_def image_iff)
next
  case False
  then have "put_claim e cs = cs @ [e]" by (auto simp: put_claim_def list_ex_iff image_iff)
  then show ?thesis using False by (auto simp: image_iff)
qed

lemma stored_claims:
  assumes "keyed cs"
  shows "keyed (sort_key ce_id (put_claim e cs))"
    "claim_of i (sort_key ce_id (put_claim e cs)) = (if i = ce_id e then Some e else claim_of i cs)"
proof -
  note split = put_claim_split [OF assms, of e]
  have "distinct (map ce_id (put_claim e cs))" using assms by (simp add: conjunct1 [OF split] keyed_def)
  moreover have "mset (map ce_id (sort_key ce_id (put_claim e cs))) = mset (map ce_id (put_claim e cs))" by simp
  ultimately show k: "keyed (sort_key ce_id (put_claim e cs))"
    unfolding keyed_def by (metis mset_eq_imp_distinct_iff)
  show "claim_of i (sort_key ce_id (put_claim e cs)) = (if i = ce_id e then Some e else claim_of i cs)"
  proof (cases "i = ce_id e")
    case True
    then show ?thesis using claim_of_iff [OF k] split by simp
  next
    case False
    have "claim_of i (sort_key ce_id (put_claim e cs)) = Some c \<longleftrightarrow> claim_of i cs = Some c" for c
      using False by (auto simp: claim_of_iff [OF k] claim_of_iff [OF assms] split)
    then show ?thesis using False by (cases "claim_of i cs") (auto simp: option.expand)
  qed
qed

section \<open>Histories of productions\<close>

text \<open>The evidence a sequence of productions has ingested, without the repetitions of a record, and
  the polarities one claim received from it.\<close>

fun ingested :: "prepared list \<Rightarrow> prepared list" where
  "ingested [] = []"
| "ingested (p # ps) = (if pp_hash p \<in> pp_hash ` set ps then ingested ps else ingested ps @ [p])"

definition history_of :: "string \<Rightarrow> prepared list \<Rightarrow> polarity list" where
  "history_of c ps = map pp_polarity (filter (\<lambda>p. pp_claim p = c) ps)"

definition wf_ledger :: "prepared list \<Rightarrow> ledger \<Rightarrow> bool" where
  \<comment> \<open>the second argument is what the productions of the first, newest first, leave\<close>
  "wf_ledger ps l \<longleftrightarrow> keyed (claims_of l) \<and> set (cursor_of l) = pp_hash ` set ps \<and>
     (\<forall>c. tracks (history_of c (ingested ps)) (claim_of c (claims_of l)))"

definition no_ledger :: ledger where
  "no_ledger = \<lparr>lg_claims = Absent, lg_cursor = Absent, lg_files = [], lg_records = [], lg_events = []\<rparr>"

lemma wf_no_ledger: "wf_ledger [] no_ledger"
  by (simp add: wf_ledger_def no_ledger_def keyed_def history_of_def claim_of_def tracks_def)

lemma store_claims_fields:
  "claims_of (store_claims p l) = sort_key ce_id (put_claim (claim_entry_of p (claim_of (pp_claim p) (claims_of l))) (claims_of l))"
  "lg_cursor (store_claims p l) = lg_cursor l" "lg_claims (store_cursor p old l) = lg_claims l"
  "cursor_of (store_cursor p old l) = add_evidence (pp_hash p) old"
  by (simp_all add: store_claims_def store_cursor_def Let_def)

lemma produce_seen:
  "pp_hash p \<in> set (cursor_of l) \<Longrightarrow> \<exists>v. produce_prepared p False l =
     (\<lparr>pr_ref = evidence_ref p, pr_claim = pp_claim p, pr_verdict = v, pr_ingested = False\<rparr>, l)"
  by (simp add: produce_prepared_def Let_def)

lemma produce_new:
  "pp_hash p \<notin> set (cursor_of l) \<Longrightarrow> produce_prepared p False l =
     (\<lparr>pr_ref = evidence_ref p, pr_claim = pp_claim p,
       pr_verdict = Some (ce_verdict (claim_entry_of p (claim_of (pp_claim p) (claims_of l)))), pr_ingested = True\<rparr>,
      store_cursor p (cursor_of l) (store_claims p l))"
  by (simp add: produce_prepared_def Let_def)

lemma wf_produce:
  assumes "wf_ledger ps l"
  shows "wf_ledger (p # ps) (snd (produce_prepared p False l))"
proof (cases "pp_hash p \<in> set (cursor_of l)")
  case True
  obtain v where "produce_prepared p False l = (\<lparr>pr_ref = evidence_ref p, pr_claim = pp_claim p, pr_verdict = v, pr_ingested = False\<rparr>, l)"
    using produce_seen [OF True] by blast
  moreover have "pp_hash p \<in> pp_hash ` set ps" using True assms by (simp add: wf_ledger_def)
  ultimately show ?thesis using assms by (auto simp: wf_ledger_def)
next
  case False
  let ?cs = "claims_of l" and ?e = "claim_entry_of p (claim_of (pp_claim p) (claims_of l))"
  have k: "keyed ?cs" and cur: "set (cursor_of l) = pp_hash ` set ps"
    and tr: "\<And>c. tracks (history_of c (ingested ps)) (claim_of c ?cs)" using assms by (auto simp: wf_ledger_def)
  have new: "pp_hash p \<notin> pp_hash ` set ps" using False cur by simp
  have "tracks (history_of c (ingested (p # ps))) (claim_of c (sort_key ce_id (put_claim ?e ?cs)))" for c
    using new tr [of c] entry_tracks [OF tr, of "pp_claim p" p] by (simp add: stored_claims(2) [OF k] history_of_def)
  then show ?thesis
    using stored_claims(1) [OF k] cur
    by (simp add: produce_new [OF False] wf_ledger_def store_claims_fields)
qed

lemma wf_produce_all: "wf_ledger ps l \<Longrightarrow> wf_ledger (rev qs @ ps) (fold (\<lambda>p l. snd (produce_prepared p False l)) qs l)"
proof (induction qs arbitrary: ps l)
  case (Cons q qs)
  show ?case using Cons.IH [OF wf_produce [OF Cons.prems, of q]] by simp
qed simp

lemma verdict_again: "tracks h prior \<Longrightarrow> verdict_for (Some (claim_entry_of p prior)) (pp_polarity p) = verdict_for prior (pp_polarity p)"
proof -
  assume t: "tracks h prior"
  have c: "contested h \<Longrightarrow> Supporting \<in> set h \<and> Contradicting \<in> set h" by (rule contested_parts)
  show ?thesis
    unfolding verdict_tracks [OF entry_tracks [OF t]] verdict_tracks [OF t] claim_status_snoc contested_snoc
    using c by (cases "pp_polarity p") auto
qed

lemma add_evidence_again: "add_evidence ev (add_evidence ev old) = add_evidence ev old"
proof (rule sorted_distinct_set_unique)
  have "sorted (add_evidence ev xs)" "distinct (add_evidence ev xs)" for xs
    by (simp_all only: add_evidence_def sorted_sort distinct_sort distinct_remdups)
  then show "sorted (add_evidence ev (add_evidence ev old))" "distinct (add_evidence ev (add_evidence ev old))"
    "sorted (add_evidence ev old)" "distinct (add_evidence ev old)" by blast+
qed simp

definition standing :: "claim_entry \<Rightarrow> string \<times> string list \<times> string list \<times> string list" where
  "standing e = (ce_verdict e, ce_supporting e, ce_inconclusive e, ce_negative e)"

lemma entry_again:
  "tracks h prior \<Longrightarrow> standing (claim_entry_of p (Some (claim_entry_of p prior))) = standing (claim_entry_of p prior)"
  by (simp add: standing_def verdict_again prior_list_def add_evidence_again)

text \<open>A production that stored the claims and lost the cursor is completed by the next delivery.\<close>

lemma torn_production:
  assumes "wf_ledger ps l" "pp_hash p \<notin> set (cursor_of l)"
  shows "map_option standing (claim_of c (claims_of (snd (produce_prepared p False (store_claims p l))))) =
     map_option standing (claim_of c (claims_of (snd (produce_prepared p False l))))"
    "cursor_of (snd (produce_prepared p False (store_claims p l))) = cursor_of (snd (produce_prepared p False l))"
proof -
  let ?l = "store_claims p l" and ?prior = "claim_of (pp_claim p) (claims_of l)"
  have k: "keyed (claims_of l)" and tr: "tracks (history_of (pp_claim p) (ingested ps)) ?prior"
    using assms(1) by (auto simp: wf_ledger_def)
  have new: "pp_hash p \<notin> set (cursor_of ?l)" using assms(2) by (simp add: store_claims_fields)
  have k1: "keyed (claims_of ?l)" using stored_claims(1) [OF k] by (simp add: store_claims_fields)
  have own: "claim_of i (claims_of ?l) = (if i = pp_claim p then Some (claim_entry_of p ?prior) else claim_of i (claims_of l))" for i
    using stored_claims(2) [OF k, of i] by (simp add: store_claims_fields)
  show "map_option standing (claim_of c (claims_of (snd (produce_prepared p False ?l)))) =
     map_option standing (claim_of c (claims_of (snd (produce_prepared p False l))))"
    unfolding produce_new [OF new] produce_new [OF assms(2)] snd_conv store_claims_fields(3)
    by (simp only: store_claims_fields(1) [of p ?l] stored_claims(2) [OF k1] own)
       (simp add: entry_again [OF tr])
  show "cursor_of (snd (produce_prepared p False ?l)) = cursor_of (snd (produce_prepared p False l))"
    by (simp add: produce_new [OF new] produce_new [OF assms(2)] store_claims_fields)
qed

section \<open>What the ledger loses\<close>

text \<open>A registry file that does not parse counts as empty, and the next production replaces it by the one
  claim it is about; the cursor keeps the records of the lost claims from being delivered again.\<close>

theorem garbled_registry_is_erased:
  assumes "lg_claims l = Garbled" "pp_hash p \<notin> set (cursor_of l)"
  shows "claims_of (snd (produce_prepared p False l)) = [claim_entry_of p None] \<and>
     set (cursor_of l) \<subseteq> set (cursor_of (snd (produce_prepared p False l)))"
  using assms(1) by (auto simp: produce_new [OF assms(2)] store_claims_fields claim_of_def put_claim_def)

text \<open>The time of the first support is kept by no later entry: the second supporting record drops it, and
  the third is recorded as the first.\<close>

theorem first_support_is_forgotten:
  assumes "\<forall>p \<in> {p1, p2, p3}. pp_polarity p = Supporting \<and> pp_time p \<noteq> []"
  shows "ce_first_sup (claim_entry_of p1 None) = Some (pp_time p1) \<and>
     ce_first_sup (claim_entry_of p2 (Some (claim_entry_of p1 None))) = None \<and>
     ce_first_sup (claim_entry_of p3 (Some (claim_entry_of p2 (Some (claim_entry_of p1 None))))) = Some (pp_time p3)"
  using assms by (simp add: claim_entry_of_def Let_def prior_time_def)

end
