(* ===== verification/Conv_Producers.thy ===== *)
theory Conv_Producers
  imports Conv_Ledger
begin

text \<open>
  The two producers (\<^verbatim>\<open>conversation/producer.py\<close>,
  \<^verbatim>\<open>conversation/task_producer.py\<close>): validation of a record, the mapping of its
  outcome to a polarity, an evidence type and a claim, the evidence object, and production into the
  shared ledger. \<open>H\<close> is the hexadecimal digest of a text.
\<close>

type_synonym digest = "string \<Rightarrow> string"

datatype produce_error = Not_A_Dict | Missing_Fields "string list" | Bad_Version json | Bad_Record_Type json
  | Bad_Record_Status json | Bad_Outcome json | Bad_Failure_Kind json | Empty_Field | No_Contract
  | Claim_Mismatch json string | Not_Serialisable

definition or_empty :: "json \<Rightarrow> json" where
  \<comment> \<open>\<^verbatim>\<open>v or {}\<close>\<close>
  "or_empty v = (if truthy v then v else JObj [])"

definition str_get :: "string \<Rightarrow> json \<Rightarrow> string" where
  \<comment> \<open>\<^verbatim>\<open>str(d.get(k, ""))\<close>\<close>
  "str_get k v = str_json (field_or k (JStr []) v)"

definition copy_fields :: "string list \<Rightarrow> json \<Rightarrow> (string \<times> json) list" where
  "copy_fields ks v = map (\<lambda>k. (k, get k v)) ks"

definition short_hash :: "digest \<Rightarrow> json \<Rightarrow> string" where
  \<comment> \<open>the first 12 characters of the digest of the canonical text\<close>
  "short_hash H v = (case canonical_json v of Inl _ \<Rightarrow> [] | Inr t \<Rightarrow> take 12 (H t))"

definition missing_fields :: "string list \<Rightarrow> json \<Rightarrow> string list" where
  "missing_fields ks v = filter (\<lambda>k. field k v = None) ks"

section \<open>Conversations\<close>

definition claim_id_for_ans :: "digest \<Rightarrow> string \<Rightarrow> string list \<Rightarrow> string \<Rightarrow> string" where
  "claim_id_for_ans H q ids ans = ''claim:ans:'' @ short_hash H (obj [(''query'', JStr q),
     (''source_ids'', JList (map JStr (sort ids))), (''answer_text'', JStr ans)])"

definition claim_id_for_query :: "digest \<Rightarrow> string \<Rightarrow> string" where
  "claim_id_for_query H q = ''claim:ok:query:'' @ short_hash H (obj [(''query'', JStr q)])"

definition conv_required :: "string list" where
  "conv_required = [''record_version'', ''trace_id'', ''mode'', ''query'', ''status'', ''input_guardrail'', ''output_guardrail'',
     ''sources'', ''answer'', ''latency_ms'', ''git_head'', ''recorded_at'']"

definition source_ids :: "json \<Rightarrow> string list" where
  "source_ids r = map (str_get ''source_id'') (filter (\<lambda>s. truthy (get ''source_id'' s)) (list_of (field_or ''sources'' (JList []) r)))"

definition conv_polarity :: "digest \<Rightarrow> json \<Rightarrow> polarity \<times> string \<times> string" where
  "conv_polarity H r =
     (let q = str_get ''query'' r; verdict = get ''verdict'' (or_empty (get ''output_guardrail'' r));
          ans = claim_id_for_ans H q (source_ids r) (str_get ''text'' (or_empty (get ''answer'' r)))
      in if get ''status'' r = JStr ''blocked'' then (Contradicting, ''conversation_block'', claim_id_for_query H q)
         else if verdict = JStr ''BLOCKED'' then (Contradicting, ''conversation_block'', claim_id_for_query H q)
         else if verdict = JStr ''SUPPORTING'' then (Supporting, ''conversation'', ans)
         else (Inconclusive, ''conversation'', ans))"

definition conv_validate :: "json \<Rightarrow> (produce_error, unit) result" where
  "conv_validate r =
     guard_result (is_obj r) Not_A_Dict
       (guard_result (missing_fields conv_required r = []) (Missing_Fields (missing_fields conv_required r))
         (guard_result (str_json (get ''record_version'' r) = ''1.0'') (Bad_Version (get ''record_version'' r))
           (guard_result (among [''answered'', ''blocked''] (get ''status'' r)) (Bad_Record_Status (get ''status'' r))
             (guard_result (truthy (get ''trace_id'' r) \<and> truthy (get ''query'' r)) Empty_Field (Inr ())))))"

definition conv_consistent :: "digest \<Rightarrow> json \<Rightarrow> (produce_error, string) result" where
  "conv_consistent H r =
     (let supplied = get ''claim_id'' (or_empty (get ''answer'' r)); claim = snd (snd (conv_polarity H r))
      in guard_result (\<not> (truthy supplied \<and> supplied \<noteq> JStr claim)) (Claim_Mismatch supplied claim) (Inr claim))"

definition record_head :: "json \<Rightarrow> string \<Rightarrow> string" where
  \<comment> \<open>the record's commit, the argument only when it carries none\<close>
  "record_head r head = (if truthy (get ''git_head'' r) then str_json (get ''git_head'' r) else head)"

definition record_hash :: "digest \<Rightarrow> json \<Rightarrow> (produce_error, string) result" where
  "record_hash H r = (case canonical_json r of Inl _ \<Rightarrow> Inl Not_Serialisable | Inr t \<Rightarrow> Inr (H t))"

definition evidence_id :: "string \<Rightarrow> string" where
  "evidence_id h = ''ev_'' @ take 12 h"

definition conv_artifact :: "digest \<Rightarrow> json \<Rightarrow> string \<Rightarrow> string \<Rightarrow> json" where
  "conv_artifact H r head h =
     (let (pol, etype, claim) = conv_polarity H r; out = or_empty (get ''output_guardrail'' r);
          inp = or_empty (get ''input_guardrail'' r); q = str_get ''query'' r; hd' = JStr (record_head r head)
      in obj [(''evidence_id'', JStr (evidence_id h)), (''subject_id'', JStr (''trace:'' @ str_get ''trace_id'' r)),
        (''claim_id'', JStr claim), (''evidence_type'', JStr etype), (''polarity'', JStr (polarity_text pol)),
        (''git_head'', hd'), (''artifact_hash'', JStr (take 16 h)), (''toolchain'', JStr ''msb-v3/conversation-ledger''),
        (''timestamp'', JStr (str_get ''recorded_at'' r)),
        (''result'', JStr (if get ''status'' r = JStr ''answered'' then ''ANSWERED'' else ''BLOCKED'')),
        (''provenance'', obj
          [(''execution'', obj [(''mode'', get ''mode'' r), (''input_guardrail'', get ''verdict'' inp),
              (''output_guardrail'', get ''verdict'' out), (''citation_rate'', get ''citation_rate'' out),
              (''latency_ms'', get ''latency_ms'' r)]),
           (''environment'', obj (copy_fields [''tenant_id'', ''session_id'', ''model''] r @ [(''git_head'', hd')])),
           (''input'', obj [(''query'', JStr q), (''query_hash'', JStr (short_hash H (obj [(''query'', JStr q)]))),
              (''source_ids'', JList (map JStr (sort (source_ids r)))), (''dag'', get ''workflow_dag'' r)]),
           (''verifier'', obj [(''tool'', JStr ''msb-v3/conversation-ledger''), (''version'', JStr ''1.0''),
              (''output_guardrail'', get ''verdict'' out)]),
           (''dependency'', obj [(''sources'', JList (map
              (\<lambda>s. obj (copy_fields [''source_id'', ''score'', ''source_ts'', ''freshness''] s))
              (list_of (field_or ''sources'' (JList []) r))))])]),
        (''freshness'', JStr ''FRESH'')])"

definition conv_prepare :: "digest \<Rightarrow> string \<Rightarrow> json \<Rightarrow> (produce_error, prepared) result" where
  "conv_prepare H head r =
     bind_result (conv_validate r) (\<lambda>_. bind_result (conv_consistent H r) (\<lambda>claim. bind_result (record_hash H r) (\<lambda>h.
       let (pol, etype, _) = conv_polarity H r; q = str_get ''query'' r in
       Inr \<lparr>pp_claim = claim, pp_subject = ''trace:'' @ str_get ''trace_id'' r,
            pp_text = (if starts_with ''claim:ans:'' claim then ''answer to query \"'' @ q @ ''\" is supported by its sources''
                       else ''query \"'' @ q @ ''\" is safely answerable''),
            pp_ctype = (if starts_with ''claim:ok:'' claim then ''query_answerable'' else ''answer_supported''),
            pp_polarity = pol, pp_etype = etype, pp_evidence = evidence_id h, pp_time = str_get ''recorded_at'' r,
            pp_hash = h, pp_artifact = conv_artifact H r head h\<rparr>)))"

definition conv_produce :: "digest \<Rightarrow> string \<Rightarrow> bool \<Rightarrow> json \<Rightarrow> ledger \<Rightarrow> (produce_error, production) result \<times> ledger" where
  "conv_produce H head dry r l =
     (case conv_prepare H head r of
        Inl e \<Rightarrow> (Inl e, l)
      | Inr p \<Rightarrow> (case produce_prepared p dry l of (a, l') \<Rightarrow> (Inr a, l')))"

definition append_record :: "json \<Rightarrow> ledger \<Rightarrow> (produce_error, unit) result \<times> ledger" where
  "append_record r l =
     (case conv_validate r of Inl e \<Rightarrow> (Inl e, l) | Inr _ \<Rightarrow> (Inr (), l\<lparr>lg_records := lg_records l @ [r]\<rparr>))"

section \<open>Tasks\<close>

definition VALID_OUTCOMES :: "string list" where
  "VALID_OUTCOMES = [''VERIFIED'', ''SUBMITTED'', ''FAILED'', ''ROLLED_BACK'']"

definition VALID_FAILURE_KINDS :: "string list" where
  "VALID_FAILURE_KINDS = [''predicates'', ''crash'', ''budget'', ''steps'', ''permission'', ''scope'', ''rollback_failed'']"

definition task_required :: "string list" where
  "task_required = [''record_version'', ''record_type'', ''task_id'', ''contract'', ''outcome'', ''exit_code'', ''git_head'', ''recorded_at'']"

definition claim_ok_task :: "string \<Rightarrow> string" where
  "claim_ok_task t = ''claim:ok:task:'' @ t"

definition claim_done_task :: "digest \<Rightarrow> string \<Rightarrow> json \<Rightarrow> json \<Rightarrow> string" where
  "claim_done_task H t expected preds = ''claim:done:task:'' @ short_hash H (obj [(''task_id'', JStr t),
     (''expected_output'', or_empty expected), (''predicates'', if truthy preds then preds else JList [])])"

definition expected_preds :: "json \<Rightarrow> json" where
  "expected_preds eo = (if is_obj eo then field_or ''predicates'' (JList []) eo else JList [])"

definition done_claim :: "digest \<Rightarrow> json \<Rightarrow> string" where
  "done_claim H contract =
     (let eo = get ''expected_output'' contract in claim_done_task H (str_get ''task_id'' contract) eo (expected_preds eo))"

definition task_polarity :: "digest \<Rightarrow> json \<Rightarrow> polarity \<times> string \<times> string" where
  "task_polarity H r =
     (let outc = str_get ''outcome'' r; contract = or_empty (get ''contract'' r) in
      if outc = ''VERIFIED'' then (Supporting, ''task_verified'', done_claim H contract)
      else if outc = ''SUBMITTED'' then (Inconclusive, ''task_submitted'', done_claim H contract)
      else if outc = ''FAILED'' \<and> get ''failure_kind'' r = JStr ''predicates''
        then (Contradicting, ''task_failed_verify'', done_claim H contract)
      else (Contradicting, ''task_failed'', claim_ok_task (str_get ''task_id'' r)))"

definition task_validate :: "json \<Rightarrow> (produce_error, unit) result" where
  "task_validate r =
     guard_result (is_obj r) Not_A_Dict
       (guard_result (missing_fields task_required r = []) (Missing_Fields (missing_fields task_required r))
         (guard_result (str_json (get ''record_version'' r) = ''1.0'') (Bad_Version (get ''record_version'' r))
           (guard_result (get ''record_type'' r = JStr ''task'') (Bad_Record_Type (get ''record_type'' r))
             (guard_result (among VALID_OUTCOMES (get ''outcome'' r)) (Bad_Outcome (get ''outcome'' r))
               (guard_result (get ''failure_kind'' r = JNull \<or> among VALID_FAILURE_KINDS (get ''failure_kind'' r))
                   (Bad_Failure_Kind (get ''failure_kind'' r))
                 (guard_result (truthy (get ''task_id'' r) \<and> truthy (get ''git_head'' r)) Empty_Field
                   (guard_result (is_obj (get ''contract'' r)) No_Contract (Inr ()))))))))"

definition task_consistent :: "digest \<Rightarrow> json \<Rightarrow> (produce_error, string) result" where
  "task_consistent H r =
     (let expected = get ''claim_id'' r; actual = snd (snd (task_polarity H r))
      in guard_result (\<not> (truthy expected \<and> expected \<noteq> JStr actual)) (Claim_Mismatch expected actual) (Inr actual))"

definition task_artifact :: "digest \<Rightarrow> json \<Rightarrow> string \<Rightarrow> string \<Rightarrow> json" where
  "task_artifact H r head h =
     (let (pol, etype, claim) = task_polarity H r; hd' = JStr (record_head r head); contract = or_empty (get ''contract'' r);
          eo = get ''expected_output'' contract; os = list_of (get ''predicate_outcomes'' r)
      in obj [(''evidence_id'', JStr (evidence_id h)), (''subject_id'', JStr (''task:'' @ str_get ''task_id'' r)),
        (''claim_id'', JStr claim), (''evidence_type'', JStr etype), (''polarity'', JStr (polarity_text pol)),
        (''git_head'', hd'), (''artifact_hash'', JStr (take 16 h)), (''toolchain'', JStr ''msb-v3/task-contract''),
        (''timestamp'', JStr (str_get ''recorded_at'' r)), (''result'', get ''outcome'' r),
        (''provenance'', obj
          [(''execution'', obj (copy_fields [''exit_code'', ''outcome'', ''failure_kind''] r @
              [(''predicates_passed'', JInt (int (length (filter (\<lambda>o'. truthy (get ''passed'' o')) os)))),
               (''predicates_total'', JInt (int (length os))), (''rollback'', get ''kind'' (or_empty (get ''rollback'' r)))])),
           (''environment'', obj [(''tenant_id'', get ''tenant_id'' r), (''git_head'', hd')]),
           (''input'', obj [(''task_id'', get ''task_id'' r), (''expected_output'', eo), (''predicates'', expected_preds eo),
              (''args'', get ''args'' contract)]),
           (''verifier'', obj [(''tool'', JStr ''msb-v3/task-contract''), (''version'', JStr ''1.0''),
              (''predicate_outcomes'', JList (map (\<lambda>o'. obj (copy_fields [''kind'', ''passed''] o')) os))]),
           (''dependency'', obj (copy_fields [''inputs'', ''preconditions'', ''side_effects''] contract))]),
        (''freshness'', JStr ''FRESH'')])"

definition task_prepare :: "digest \<Rightarrow> string \<Rightarrow> json \<Rightarrow> (produce_error, prepared) result" where
  "task_prepare H head r =
     bind_result (task_validate r) (\<lambda>_. bind_result (task_consistent H r) (\<lambda>claim. bind_result (record_hash H r) (\<lambda>h.
       let (pol, etype, _) = task_polarity H r; t = str_get ''task_id'' r; is_done = starts_with ''claim:done:'' claim in
       Inr \<lparr>pp_claim = claim, pp_subject = ''task:'' @ t,
            pp_text = (if is_done then ''task \"'' @ t @ ''\" produces its declared output''
                       else ''task \"'' @ t @ ''\" completes without failure''),
            pp_ctype = (if is_done then ''task_done'' else ''task_ok''),
            pp_polarity = pol, pp_etype = etype, pp_evidence = evidence_id h, pp_time = str_get ''recorded_at'' r,
            pp_hash = h, pp_artifact = task_artifact H r head h\<rparr>)))"

definition task_produce :: "digest \<Rightarrow> string \<Rightarrow> bool \<Rightarrow> json \<Rightarrow> ledger \<Rightarrow> (produce_error, production) result \<times> ledger" where
  "task_produce H head dry r l =
     (case task_prepare H head r of
        Inl e \<Rightarrow> (Inl e, l)
      | Inr p \<Rightarrow> (case produce_prepared p dry l of (a, l') \<Rightarrow> (Inr a, l')))"

definition event_fields :: "string list" where
  "event_fields = [''failed_step'', ''failed_index'', ''error'', ''attempt'', ''max_attempts'', ''decision'', ''dag'', ''revised_dag'', ''ts'']"

definition append_task_event :: "json \<Rightarrow> ledger \<Rightarrow> (produce_error, unit) result \<times> ledger" where
  "append_task_event e l =
     (case guard_result (is_obj e \<and> get ''event'' e = JStr ''TASK_FAILED'') (Bad_Record_Type (get ''event'' e))
             (guard_result (truthy (get ''task_id'' e) \<and> truthy (get ''version'' e)) Empty_Field
               (guard_result (missing_fields event_fields e = []) (Missing_Fields (missing_fields event_fields e)) (Inr ()))) of
        Inl x \<Rightarrow> (Inl x, l)
      | Inr _ \<Rightarrow> (Inr (), l\<lparr>lg_events := lg_events l @ [e]\<rparr>))"

section \<open>What both producers promise\<close>

locale record_producer =
  fixes prepare :: "json \<Rightarrow> (produce_error, prepared) result"
    and produce :: "json \<Rightarrow> ledger \<Rightarrow> (produce_error, production) result \<times> ledger"
  assumes refused: "prepare r = Inl e \<Longrightarrow> produce r l = (Inl e, l)"
    and accepted: "prepare r = Inr p \<Longrightarrow> produce r l = (Inr (fst (produce_prepared p False l)), snd (produce_prepared p False l))"
begin

lemma produced:
  assumes "produce r l = (Inr a, l')"
  obtains p where "prepare r = Inr p" "a = fst (produce_prepared p False l)" "l' = snd (produce_prepared p False l)"
  using assms refused [of r _ l] accepted [of r _ l] by (cases "prepare r") auto

lemma redelivery:
  assumes "produce r l = (Inr a, l')"
  shows "\<exists>b. produce r l' = (Inr b, l') \<and> \<not> pr_ingested b \<and> pr_claim b = pr_claim a \<and> pr_ref b = pr_ref a"
proof -
  obtain p where p: "prepare r = Inr p" "a = fst (produce_prepared p False l)" "l' = snd (produce_prepared p False l)"
    using produced [OF assms] .
  have a: "pr_claim a = pp_claim p" "pr_ref a = evidence_ref p"
    unfolding p(2) by (simp_all add: produce_prepared_def Let_def)
  have "pp_hash p \<in> set (cursor_of l')"
    unfolding p(3) using produce_seen [of p l] produce_new [of p l]
    by (cases "pp_hash p \<in> set (cursor_of l)") (auto simp: store_claims_fields)
  then obtain v where "produce_prepared p False l' =
      (\<lparr>pr_ref = evidence_ref p, pr_claim = pp_claim p, pr_verdict = v, pr_ingested = False\<rparr>, l')"
    using produce_seen by blast
  then show ?thesis using accepted [OF p(1), of l'] a by simp
qed

lemma keeps_history:
  assumes "wf_ledger ps l"
  shows "wf_ledger ((case prepare r of Inl e \<Rightarrow> [] | Inr p \<Rightarrow> [p]) @ ps) (snd (produce r l))"
  using assms wf_produce refused [of r _ l] accepted [of r _ l] by (cases "prepare r") auto

end

interpretation conversations: record_producer "conv_prepare H head" "conv_produce H head False" for H head
  by unfold_locales (simp_all add: conv_produce_def split: prod.split)

interpretation tasks: record_producer "task_prepare H head" "task_produce H head False" for H head
  by unfold_locales (simp_all add: task_produce_def split: prod.split)

section \<open>Deliveries of both producers\<close>

datatype delivery = Conversation json | Task_Run json

fun deliver :: "digest \<Rightarrow> string \<Rightarrow> delivery \<Rightarrow> ledger \<Rightarrow> ledger" where
  "deliver H head (Conversation r) l = snd (conv_produce H head False r l)"
| "deliver H head (Task_Run r) l = snd (task_produce H head False r l)"

fun prepared_by :: "digest \<Rightarrow> string \<Rightarrow> delivery \<Rightarrow> prepared list" where
  "prepared_by H head (Conversation r) = (case conv_prepare H head r of Inl e \<Rightarrow> [] | Inr p \<Rightarrow> [p])"
| "prepared_by H head (Task_Run r) = (case task_prepare H head r of Inl e \<Rightarrow> [] | Inr p \<Rightarrow> [p])"

definition evidence_for :: "digest \<Rightarrow> string \<Rightarrow> delivery list \<Rightarrow> string \<Rightarrow> polarity list" where
  \<comment> \<open>the polarities of the distinct accepted records about one claim, in order of arrival\<close>
  "evidence_for H head ds c = history_of c (ingested (rev (concat (map (prepared_by H head) ds))))"

lemma deliver_wf: "wf_ledger ps l \<Longrightarrow> wf_ledger (prepared_by H head d @ ps) (deliver H head d l)"
  by (cases d) (simp_all add: conversations.keeps_history tasks.keeps_history)

lemma prepared_by_rev: "rev (prepared_by H head d) = prepared_by H head d"
  by (cases d) (auto split: sum.split)

lemma deliver_all_wf:
  "wf_ledger ps l \<Longrightarrow> wf_ledger (rev (concat (map (prepared_by H head) ds)) @ ps) (fold (deliver H head) ds l)"
proof (induction ds arbitrary: ps l)
  case (Cons d ds)
  from Cons.IH [OF deliver_wf [OF Cons.prems, of H head d]] show ?case by (simp add: prepared_by_rev)
qed simp

lemma delivered: "wf_ledger (rev (concat (map (prepared_by H head) ds))) (fold (deliver H head) ds no_ledger)"
  using deliver_all_wf [OF wf_no_ledger, of H head ds] by simp

lemma task_prepare_claim:
  assumes "task_prepare H head r = Inr p"
  shows "pp_claim p = snd (snd (task_polarity H r))" "pp_polarity p = fst (task_polarity H r)"
    "\<not> truthy (get ''claim_id'' r) \<or> get ''claim_id'' r = JStr (pp_claim p)"
proof -
  obtain pol et cl where m: "task_polarity H r = (pol, et, cl)" by (cases "task_polarity H r") auto
  obtain claim h where c: "task_consistent H r = Inr claim" "record_hash H r = Inr h"
    using assms by (auto simp: task_prepare_def result_simps)
  then have p: "pp_claim p = claim" "pp_polarity p = pol"
    using assms m by (auto simp: task_prepare_def result_simps Let_def)
  have "claim = cl" "\<not> truthy (get ''claim_id'' r) \<or> get ''claim_id'' r = JStr cl"
    using c(1) m by (auto simp: task_consistent_def Let_def result_simps)
  then show "pp_claim p = snd (snd (task_polarity H r))" "pp_polarity p = fst (task_polarity H r)"
    "\<not> truthy (get ''claim_id'' r) \<or> get ''claim_id'' r = JStr (pp_claim p)"
    using p m by simp_all
qed

section \<open>Properties\<close>

text \<open>C4: The registry is a function of the evidence: after any sequence of records through either producer,
  accepted, refused or repeated, there is one entry per claim, and its verdict is the status of the
  polarities of the distinct records about it, in their order.\<close>

theorem verdicts_follow_the_evidence:
  "keyed (claims_of (fold (deliver H head) ds no_ledger)) \<and>
   map_option ce_verdict (claim_of c (claims_of (fold (deliver H head) ds no_ledger))) =
     (if evidence_for H head ds c = [] then None else Some (claim_status (evidence_for H head ds c)))"
proof -
  note wf = delivered [of H head ds]
  have "tracks (evidence_for H head ds c) (claim_of c (claims_of (fold (deliver H head) ds no_ledger)))"
    using wf by (simp add: wf_ledger_def evidence_for_def)
  with wf show ?thesis by (auto simp: wf_ledger_def tracks_def split: option.splits)
qed

text \<open>Delivering a task record again changes nothing in the ledger and answers with the same claim and
  reference, as not ingested.\<close>

theorem redelivered_tasks_change_nothing:
  assumes "task_produce H head False r l = (Inr a, l')"
  shows "\<exists>b. task_produce H head False r l' = (Inr b, l') \<and> \<not> pr_ingested b \<and> pr_claim b = pr_claim a \<and> pr_ref b = pr_ref a"
  using assms by (rule tasks.redelivery)

definition toy_record :: "string \<Rightarrow> string \<Rightarrow> json" where
  "toy_record t res = obj [(''record_version'', JStr ''1.0''), (''record_type'', JStr ''task''), (''task_id'', JStr t),
     (''contract'', obj [(''task_id'', JStr t)]), (''outcome'', JStr res), (''exit_code'', JInt 0),
     (''git_head'', JStr ''h''), (''recorded_at'', JStr ''now'')]"

theorem redelivered_tasks_change_nothing_witness:
  "\<exists>b. task_produce id ''h'' False (toy_record ''t'' ''VERIFIED'')
      (snd (task_produce id ''h'' False (toy_record ''t'' ''VERIFIED'') no_ledger)) =
      (Inr b, snd (task_produce id ''h'' False (toy_record ''t'' ''VERIFIED'') no_ledger)) \<and> \<not> pr_ingested b"
proof -
  have "\<not> isl (fst (task_produce id ''h'' False (toy_record ''t'' ''VERIFIED'') no_ledger))" by code_simp
  then obtain a where "fst (task_produce id ''h'' False (toy_record ''t'' ''VERIFIED'') no_ledger) = Inr a"
    by (auto simp: isl_def split: sum.splits) (metis isl_def sum.collapse(2))
  then have "task_produce id ''h'' False (toy_record ''t'' ''VERIFIED'') no_ledger =
      (Inr a, snd (task_produce id ''h'' False (toy_record ''t'' ''VERIFIED'') no_ledger))"
    by (metis prod.collapse)
  from redelivered_tasks_change_nothing [OF this] show ?thesis by blast
qed

text \<open>An accepted task record is filed under the claim recomputed from its contract and outcome; one that
  supplies another claim is refused, and the ledger stays as it is.\<close>

theorem task_claims_are_recomputed:
  "case task_produce H head dry r l of
     (Inl e, l') \<Rightarrow> l' = l
   | (Inr a, l') \<Rightarrow> pr_claim a = snd (snd (task_polarity H r)) \<and>
       (\<not> truthy (get ''claim_id'' r) \<or> get ''claim_id'' r = JStr (pr_claim a))"
proof (cases "task_prepare H head r")
  case (Inr p)
  moreover have "pr_claim (fst (produce_prepared p dry l)) = pp_claim p" by (simp add: produce_prepared_def Let_def)
  ultimately show ?thesis
    using task_prepare_claim [OF Inr] by (cases "produce_prepared p dry l") (auto simp: task_produce_def)
qed (simp add: task_produce_def)

text \<open>C32: A task production interrupted between the write of the claims and the write of the cursor is
  completed by the next delivery of the record: every claim then has the verdict and the evidence, and the
  cursor the records, of an uninterrupted production.\<close>

theorem interrupted_production_is_completed:
  assumes "l = fold (deliver H head) ds no_ledger" "task_prepare H head r = Inr p" "pp_hash p \<notin> set (cursor_of l)"
  shows "map_option standing (claim_of c (claims_of (snd (task_produce H head False r (store_claims p l))))) =
       map_option standing (claim_of c (claims_of (snd (task_produce H head False r l)))) \<and>
     cursor_of (snd (task_produce H head False r (store_claims p l))) = cursor_of (snd (task_produce H head False r l))"
proof -
  have "wf_ledger (rev (concat (map (prepared_by H head) ds))) l" unfolding assms(1) by (rule delivered)
  from torn_production [OF this assms(3)] show ?thesis by (simp add: tasks.accepted [OF assms(2)])
qed

definition toy_prepared :: prepared where
  "toy_prepared = projr (task_prepare id ''h'' (toy_record ''t'' ''VERIFIED''))"

theorem interrupted_production_is_completed_witness:
  "cursor_of (snd (task_produce id ''h'' False (toy_record ''t'' ''VERIFIED'') (store_claims toy_prepared no_ledger))) =
   cursor_of (snd (task_produce id ''h'' False (toy_record ''t'' ''VERIFIED'') no_ledger))"
proof -
  have l: "no_ledger = fold (deliver id ''h'') [] no_ledger" by simp
  have "\<not> isl (task_prepare id ''h'' (toy_record ''t'' ''VERIFIED''))" by code_simp
  then have p: "task_prepare id ''h'' (toy_record ''t'' ''VERIFIED'') = Inr toy_prepared"
    by (simp add: toy_prepared_def)
  have "pp_hash toy_prepared \<notin> set (cursor_of no_ledger)" by (simp add: no_ledger_def)
  from interrupted_production_is_completed [OF l p this] show ?thesis by blast
qed

text \<open>The answer to a repeated record is not the ledger's verdict: a verified task that was contradicted since
  is REGRESSED, and the repetition reports CONTESTED.\<close>

theorem repeated_record_reports_another_verdict:
  "let r = toy_record ''t'' ''VERIFIED'';
       f = set_field ''failure_kind'' (JStr ''predicates'') (toy_record ''t'' ''FAILED'');
       l = snd (task_produce id ''h'' False f (snd (task_produce id ''h'' False r no_ledger)))
   in map ce_verdict (claims_of l) = [''REGRESSED''] \<and>
      pr_verdict (projr (fst (task_produce id ''h'' False r l))) = Some ''CONTESTED''"
  by code_simp

end
