(* ===== verification/Conv_Stream.thy ===== *)
theory Conv_Stream
  imports Conv_Producers
begin

text \<open>
  The durable stream of conversation records and its ingestion (\<^verbatim>\<open>append_record\<close> and
  \<^verbatim>\<open>ingest_stream\<close> of \<^verbatim>\<open>conversation/producer.py\<close>). Reading one line back
  (\<^verbatim>\<open>json.loads\<close>) is a parameter. Texts are of characters with codes below 256: the line breaks
  U+2028 and U+2029 lie outside the model.
\<close>

section \<open>Lines\<close>

definition record_line :: "json \<Rightarrow> string" where
  \<comment> \<open>\<^verbatim>\<open>json.dumps(record, sort_keys=True, ensure_ascii=False)\<close>\<close>
  "record_line r = dumps '', '' '': '' (sort_keys r)"

definition stream_text :: "json list \<Rightarrow> string" where
  "stream_text rs = concat (map (\<lambda>r. record_line r @ [CHR 0x0A]) rs)"

definition stream_lines :: "string \<Rightarrow> string list" where
  \<comment> \<open>the lines that are not blank, stripped\<close>
  "stream_lines s = filter (\<lambda>l. l \<noteq> []) (map py_strip (splitlines s))"

datatype ingest_error = Malformed_Lines nat | Record_Rejected produce_error

record ingest_report =
  ig_records :: nat
  ig_ingested :: nat
  ig_skipped :: nat
  ig_claims :: nat
  ig_error :: "ingest_error option"

definition report :: "nat \<Rightarrow> nat \<Rightarrow> nat \<Rightarrow> nat \<Rightarrow> ingest_error option \<Rightarrow> ingest_report" where
  "report n i k c e = \<lparr>ig_records = n, ig_ingested = i, ig_skipped = k, ig_claims = c, ig_error = e\<rparr>"

fun ingest_records :: "digest \<Rightarrow> string \<Rightarrow> bool \<Rightarrow> nat \<Rightarrow> nat \<Rightarrow> nat \<Rightarrow> json list \<Rightarrow> ledger \<Rightarrow> ingest_report \<times> ledger" where
  "ingest_records H head dry n i k [] l = (report n i k (length (claims_of l)) None, l)"
| "ingest_records H head dry n i k (r # rs) l =
     (case conv_produce H head dry r l of
        (Inl e, l') \<Rightarrow> (report n i k 0 (Some (Record_Rejected e)), l')
      | (Inr a, l') \<Rightarrow>
          if pr_ingested a then ingest_records H head dry n (Suc i) k rs l' else ingest_records H head dry n i (Suc k) rs l')"

definition ingest_stream :: "digest \<Rightarrow> string \<Rightarrow> bool \<Rightarrow> (string \<Rightarrow> json option) \<Rightarrow> string option \<Rightarrow> ledger \<Rightarrow> ingest_report \<times> ledger" where
  \<comment> \<open>\<open>None\<close>: the stream does not exist\<close>
  "ingest_stream H head dry loads stream l =
     (case stream of
        None \<Rightarrow> (report 0 0 0 0 None, l)
      | Some s \<Rightarrow>
          let ls = stream_lines s; rs = List.map_filter loads ls; bad = length (filter (\<lambda>x. loads x = None) ls) in
          if bad \<noteq> 0 then (report (length rs) 0 0 0 (Some (Malformed_Lines bad)), l)
          else ingest_records H head dry (length rs) 0 0 rs l)"

section \<open>A record is one line\<close>

text \<open>Serialised text holds no character below the space; the one line break it can hold is the next-line
  character, code 133.\<close>

definition unbroken :: "string \<Rightarrow> bool" where
  "unbroken s \<longleftrightarrow> (\<forall>c \<in> set s. \<not> line_break c)"

fun one_line :: "json \<Rightarrow> bool" where
  "one_line (JStr s) = (CHR 0x85 \<notin> set s)"
| "one_line (JFloat f) = unbroken (show_float f)"
| "one_line (JList vs) = list_all one_line vs"
| "one_line (JObj kvs) = list_all (\<lambda>(k, v). CHR 0x85 \<notin> set (key_text k) \<and> one_line v) kvs"
| "one_line v = True"

lemma unbroken_simps [simp]:
  "unbroken []" "unbroken (c # s) \<longleftrightarrow> \<not> line_break c \<and> unbroken s" "unbroken (s @ t) \<longleftrightarrow> unbroken s \<and> unbroken t"
  by (auto simp: unbroken_def)

lemma line_break_code: "line_break c \<longleftrightarrow> (let n = (of_char c :: nat) in (10 \<le> n \<and> n \<le> 13) \<or> (28 \<le> n \<and> n \<le> 30) \<or> c = CHR 0x85)"
proof -
  have "(of_char c :: nat) = 133 \<longleftrightarrow> c = CHR 0x85" using of_char_eq_iff [of c "CHR 0x85", where 'a = nat] by simp
  then show ?thesis by (simp add: line_break_def Let_def)
qed

lemma hex_digit_unbroken: "n < 16 \<Longrightarrow> \<not> line_break (hex_digit n)"
  by (simp add: hex_digit_def line_break_def Let_def)

lemma esc_char_unbroken: "c \<noteq> CHR 0x85 \<Longrightarrow> unbroken (esc_char c)"
proof -
  assume c: "c \<noteq> CHR 0x85"
  have d: "\<not> line_break (CHR 0x5C)" "\<not> line_break (CHR 0x22)" "\<not> line_break (CHR ''n'')" "\<not> line_break (CHR ''r'')"
    "\<not> line_break (CHR ''t'')" "\<not> line_break (CHR ''f'')" "\<not> line_break (CHR ''b'')" "\<not> line_break (CHR ''u'')" "\<not> line_break (CHR ''0'')"
    by code_simp+
  have "\<not> line_break c" if "\<not> (of_char c :: nat) < 32" using that c by (auto simp: line_break_code Let_def)
  moreover have "(of_char c :: nat) div 16 < 16" if "(of_char c :: nat) < 32" using that by simp
  ultimately show ?thesis
    using d hex_digit_unbroken by (simp add: esc_char_def Let_def)
qed

lemma show_str_unbroken: "CHR 0x85 \<notin> set s \<Longrightarrow> unbroken (show_str s)"
proof -
  assume "CHR 0x85 \<notin> set s"
  then have "unbroken (concat (map esc_char s))"
    by (induction s) (auto intro: esc_char_unbroken)
  moreover have "\<not> line_break quote" by code_simp
  ultimately show ?thesis by (simp add: show_str_def)
qed

lemma digit_unbroken: "is_digit c \<Longrightarrow> \<not> line_break c"
  by (auto simp: is_digit_def line_break_def Let_def)

lemma show_int_unbroken: "unbroken (show_int i)"
proof -
  have "unbroken (show_nat n)" for n using show_nat_digits [of n] digit_unbroken by (auto simp: unbroken_def)
  moreover have "\<not> line_break (CHR ''-'')" by code_simp
  ultimately show ?thesis by (simp add: show_int_def)
qed

lemma dumps_unbroken:
  "unbroken isep \<Longrightarrow> unbroken ksep \<Longrightarrow> one_line v \<Longrightarrow> unbroken (dumps isep ksep v)"
  "unbroken isep \<Longrightarrow> unbroken ksep \<Longrightarrow> list_all one_line vs \<Longrightarrow> unbroken (dumps_items isep ksep vs)"
  "unbroken isep \<Longrightarrow> unbroken ksep \<Longrightarrow> list_all (\<lambda>(k, v). CHR 0x85 \<notin> set (key_text k) \<and> one_line v) kvs \<Longrightarrow>
     unbroken (dumps_pairs isep ksep kvs)"
proof (induction isep ksep v and isep ksep vs and isep ksep kvs rule: dumps_dumps_items_dumps_pairs.induct)
  case (1 isep ksep)
  then show ?case by code_simp
next
  case (2 isep ksep b)
  have "unbroken ''true''" "unbroken ''false''" by code_simp+
  then show ?case by simp
next
  case (6 isep ksep vs)
  have "\<not> line_break (CHR ''['')" "\<not> line_break (CHR '']'')" by code_simp+
  with 6 show ?case by simp
next
  case (7 isep ksep kvs)
  have "\<not> line_break (CHR ''{'')" "\<not> line_break (CHR ''}'')" by code_simp+
  with 7 show ?case by simp
qed (simp_all add: show_int_unbroken show_str_unbroken)

lemma insert_item_all: "list_all P (insert_item p ps) \<longleftrightarrow> P p \<and> list_all P ps"
  by (induction ps) auto

lemma sort_items_all: "list_all P (foldr insert_item ps []) \<longleftrightarrow> list_all P ps"
  by (induction ps) (simp_all add: insert_item_all)

lemma sort_keys_one_line: "one_line v \<Longrightarrow> one_line (sort_keys v)"
proof (induction v rule: one_line.induct)
  case (3 vs)
  then show ?case by (auto simp: list_all_iff)
next
  case (4 kvs)
  then show ?case by (simp add: sort_items_all) (auto simp: list_all_iff)
qed simp_all

lemma record_line_unbroken: "one_line r \<Longrightarrow> unbroken (record_line r)"
proof -
  have "unbroken '', ''" "unbroken '': ''" by code_simp+
  then show "one_line r \<Longrightarrow> ?thesis"
    unfolding record_line_def by (intro dumps_unbroken(1) sort_keys_one_line)
qed

lemma lines_from_line: "unbroken t \<Longrightarrow> lines_from acc (t @ CHR 0x0A # s) = (acc @ t) # lines_from [] s"
proof (induction t arbitrary: acc)
  case Nil
  have "line_break (CHR 0x0A)" by code_simp
  then show ?case by simp
qed simp

lemma splitlines_stream: "\<forall>r \<in> set rs. one_line r \<Longrightarrow> splitlines (stream_text rs) = map record_line rs"
  by (induction rs) (simp_all add: splitlines_def stream_text_def lines_from_line record_line_unbroken)

lemma object_line: "is_obj r \<Longrightarrow> \<exists>u. record_line r = CHR ''{'' # u @ ''}''"
  by (cases r) (auto simp: record_line_def)

lemma py_strip_object: "py_strip (CHR ''{'' # u @ ''}'') = CHR ''{'' # u @ ''}''"
proof -
  have "\<not> is_space (CHR ''{'')" "\<not> is_space (CHR ''}'')" by code_simp+
  then show ?thesis by (simp add: py_strip_def)
qed

lemma stream_lines_records: "\<forall>r \<in> set rs. one_line r \<and> is_obj r \<Longrightarrow> stream_lines (stream_text rs) = map record_line rs"
proof -
  assume rs: "\<forall>r \<in> set rs. one_line r \<and> is_obj r"
  have strip: "py_strip (record_line r) = record_line r \<and> record_line r \<noteq> []" if "r \<in> set rs" for r
    using object_line [of r] rs that by (auto simp: py_strip_object)
  have "stream_lines (stream_text rs) = filter (\<lambda>l. l \<noteq> []) (map (\<lambda>r. py_strip (record_line r)) rs)"
    using rs by (simp add: stream_lines_def splitlines_stream comp_def)
  also have "\<dots> = map record_line rs" using strip by (induction rs) auto
  finally show ?thesis .
qed

section \<open>Replaying a stream\<close>

lemma produced_cursor: "set (cursor_of (snd (produce_prepared p False l))) = insert (pp_hash p) (set (cursor_of l))"
proof (cases "pp_hash p \<in> set (cursor_of l)")
  case True
  then have "snd (produce_prepared p False l) = l" using produce_seen by fastforce
  with True show ?thesis by auto
qed (simp add: produce_new store_claims_fields)

lemma cursor_grows: "set (cursor_of l) \<subseteq> set (cursor_of (snd (produce_prepared p False l)))"
  and produce_marks: "pp_hash p \<in> set (cursor_of (snd (produce_prepared p False l)))"
  by (simp_all add: produced_cursor subset_insertI)

definition known_record :: "digest \<Rightarrow> string \<Rightarrow> ledger \<Rightarrow> json \<Rightarrow> bool" where
  "known_record H head l r \<longleftrightarrow> (\<exists>p. conv_prepare H head r = Inr p \<and> pp_hash p \<in> set (cursor_of l))"

lemma known_ingest:
  "\<forall>r \<in> set rs. known_record H head l r \<Longrightarrow>
     ingest_records H head False n i k rs l = (report n i (k + length rs) (length (claims_of l)) None, l)"
proof (induction rs arbitrary: k)
  case (Cons r rs)
  then obtain p where p: "conv_prepare H head r = Inr p" "pp_hash p \<in> set (cursor_of l)" by (auto simp: known_record_def)
  obtain v where "produce_prepared p False l = (\<lparr>pr_ref = evidence_ref p, pr_claim = pp_claim p, pr_verdict = v, pr_ingested = False\<rparr>, l)"
    using produce_seen [OF p(2)] by blast
  then have "conv_produce H head False r l = (Inr \<lparr>pr_ref = evidence_ref p, pr_claim = pp_claim p, pr_verdict = v, pr_ingested = False\<rparr>, l)"
    using p(1) by (simp add: conv_produce_def)
  with Cons show ?case by simp
qed simp

lemma known_grows: "known_record H head l r \<Longrightarrow> set (cursor_of l) \<subseteq> set (cursor_of l') \<Longrightarrow> known_record H head l' r"
  by (auto simp: known_record_def)

lemma ingest_knows:
  "ingest_records H head False n i k rs l = (rep, l') \<Longrightarrow> ig_error rep = None \<Longrightarrow>
     set (cursor_of l) \<subseteq> set (cursor_of l') \<and> (\<forall>r \<in> set rs. known_record H head l' r)"
proof (induction rs arbitrary: i k l)
  case (Cons r rs)
  obtain p where p: "conv_prepare H head r = Inr p"
    using Cons.prems by (cases "conv_prepare H head r") (auto simp: conv_produce_def report_def)
  let ?l = "snd (produce_prepared p False l)"
  obtain j m where "ingest_records H head False n j m rs ?l = (rep, l')"
    using Cons.prems(1) p by (auto simp: conv_produce_def split: prod.splits if_splits)
  from Cons.IH [OF this Cons.prems(2)] have ih: "set (cursor_of ?l) \<subseteq> set (cursor_of l')" "\<forall>r \<in> set rs. known_record H head l' r"
    by auto
  moreover have "known_record H head ?l r" using p produce_marks by (auto simp: known_record_def)
  ultimately show ?case using cursor_grows [of l p] known_grows by (metis (no_types, opaque_lifting) order_trans set_ConsD)
qed simp

section \<open>Properties\<close>

text \<open>C36: A stream written by the producer is read back record for record: take records that are objects, whose texts
  are of characters with codes below 256 without the next-line character, and whose lines \<^verbatim>\<open>json.loads\<close> reads back as the
  records with sorted keys. Then ingesting the stream is ingesting these records, in their order. (The source splits the
  stream at U+2028 and U+2029 too, which are not among these characters; a record that holds one is torn apart.)\<close>

theorem stream_round_trip:
  assumes "\<forall>r \<in> set rs. one_line r \<and> is_obj r \<and> loads (record_line r) = Some (sort_keys r)"
  shows "ingest_stream H head dry loads (Some (stream_text rs)) l = ingest_records H head dry (length rs) 0 0 (map sort_keys rs) l"
proof -
  have lines: "stream_lines (stream_text rs) = map record_line rs" using assms by (intro stream_lines_records) blast
  have "List.map_filter loads (map record_line rs) = map sort_keys rs" "filter (\<lambda>x. loads x = None) (map record_line rs) = []"
    using assms by (induction rs) (auto simp: map_filter_simps)
  then show ?thesis by (simp add: ingest_stream_def Let_def lines)
qed

text \<open>Ingesting a stream a second time, after a run without error, ingests nothing and leaves the ledger as it is.\<close>

theorem second_ingestion_is_idle:
  assumes "ingest_stream H head False loads stream l = (rep, l')" "ig_error rep = None"
  shows "\<exists>rep'. ingest_stream H head False loads stream l' = (rep', l') \<and> ig_ingested rep' = 0 \<and> ig_error rep' = None"
proof (cases stream)
  case None
  with assms show ?thesis by (auto simp: ingest_stream_def report_def)
next
  case (Some s)
  let ?ls = "stream_lines s"
  have bad: "filter (\<lambda>x. loads x = None) ?ls = []"
    using assms Some by (auto simp: ingest_stream_def Let_def report_def split: if_splits)
  then have "ingest_records H head False (length (List.map_filter loads ?ls)) 0 0 (List.map_filter loads ?ls) l = (rep, l')"
    using assms(1) Some by (simp add: ingest_stream_def Let_def)
  from ingest_knows [OF this assms(2)] have "\<forall>r \<in> set (List.map_filter loads ?ls). known_record H head l' r" by blast
  from known_ingest [OF this] show ?thesis using Some bad by (simp add: ingest_stream_def Let_def report_def)
qed

definition toy_loads :: "string \<Rightarrow> json option" where
  "toy_loads t = (if t = record_line (obj [(''a'', JNull)]) then Some (obj [(''a'', JNull)]) else None)"

theorem stream_round_trip_witness:
  "ingest_stream id [] False toy_loads (Some (stream_text [obj [(''a'', JNull)]])) no_ledger =
   ingest_records id [] False 1 0 0 [obj [(''a'', JNull)]] no_ledger"
proof -
  have "one_line (obj [(''a'', JNull)]) \<and> is_obj (obj [(''a'', JNull)]) \<and>
      toy_loads (record_line (obj [(''a'', JNull)])) = Some (sort_keys (obj [(''a'', JNull)]))"
    by code_simp
  then have "\<forall>r \<in> set [obj [(''a'', JNull)]]. one_line r \<and> is_obj r \<and> toy_loads (record_line r) = Some (sort_keys r)"
    by (metis empty_iff empty_set set_ConsD)
  from stream_round_trip [OF this, of id "[]" False no_ledger] show ?thesis by simp
qed

definition toy_conversation :: json where
  "toy_conversation = obj (map (\<lambda>k. (k, JStr ''x'')) (remove1 ''record_version'' (remove1 ''status'' conv_required)) @
     [(''record_version'', JStr ''1.0''), (''status'', JStr ''blocked'')])"

theorem second_ingestion_is_idle_witness:
  "\<exists>rep'. ingest_stream id [] False (\<lambda>_. Some toy_conversation) (Some ''x'')
       (snd (ingest_stream id [] False (\<lambda>_. Some toy_conversation) (Some ''x'') no_ledger)) =
     (rep', snd (ingest_stream id [] False (\<lambda>_. Some toy_conversation) (Some ''x'') no_ledger)) \<and> ig_ingested rep' = 0"
proof -
  have "ig_error (fst (ingest_stream id [] False (\<lambda>_. Some toy_conversation) (Some ''x'') no_ledger)) = None" by code_simp
  from second_ingestion_is_idle [OF prod.collapse [symmetric] this] show ?thesis by blast
qed

text \<open>A query that holds a next-line character is written as it is and torn into two lines on reading: where
  neither half parses, the whole stream is refused, and nothing of it is ingested.\<close>

theorem next_line_tears_the_stream:
  "stream_lines (stream_text [obj [(''query'', JStr (''a'' @ [CHR 0x85] @ ''b''))]]) =
     [CHR ''{'' # quote # ''query'' @ [quote] @ '': '' @ [quote] @ ''a'', ''b'' @ [quote] @ ''}'']"
  by code_simp

end
