(* ===== verification/Conv_Executor.thy ===== *)
theory Conv_Executor
  imports Conv_Producers
begin

text \<open>
  The task contract executor (\<^verbatim>\<open>conversation/executor.py\<close>): the permission envelope,
  the caps, verification, rollback, the ledger entry, and one step of a task graph. The runner and
  \<^verbatim>\<open>git\<close> are parameters; what the runner does to files is its effect on the file system, and its
  report arrives with the types the source coerces it to. Reasons are constructors, and their wording
  is a parameter.
\<close>

section \<open>Environment\<close>

record run_report =
  rr_exit :: "int option"
  rr_output :: json
  rr_steps :: "int option"
  rr_cost :: "pynum option"
  rr_tools :: "string list"
  rr_data :: "string list"
  rr_artifacts :: "string list"

datatype runner_answer = Runner_Crash string | Reported run_report

datatype revert_answer = Reset_Failed | Head_Differs | Scope_Dirty | Git_Error | Restored

datatype violation = None_Declared string | Empty_Declaration | Absolute_Declaration string | Escaping_Declaration string
  | Outside_Scope string

datatype exec_reason =
    Crashed string | Tools_Denied "string list" | Data_Denied "string list" | Scope_Violated "violation list"
  | Steps_Exceeded int int | Budget_Exceeded pynum pynum | Exit_Code int
  | No_Expected_Output | All_Pass | Some_Fail nat nat
  | With_Rollback exec_reason rollback_note
and rollback_note =
    Deleted nat | Is_Directory string | Still_Present "string list" | No_Head | Revert revert_answer | Unknown_Rollback json

record exec_env =
  ee_pred :: pred_env
  ee_digest :: digest
  ee_run :: "json \<Rightarrow> files \<Rightarrow> runner_answer \<times> files"
  ee_head :: "path \<Rightarrow> files \<Rightarrow> string option"                          \<comment> \<open>\<^verbatim>\<open>git rev-parse HEAD\<close>\<close>
  ee_revert :: "path \<Rightarrow> string \<Rightarrow> string \<Rightarrow> files \<Rightarrow> revert_answer \<times> files"   \<comment> \<open>reset, then head and status\<close>
  ee_root :: path
  ee_git :: string
  ee_tenant :: string
  ee_goal :: string
  ee_now :: string
  ee_dry :: bool
  ee_text :: "exec_reason \<Rightarrow> string"   \<comment> \<open>the wording of a reason\<close>

record exec_result =
  er_task :: string
  er_status :: string
  er_kind :: "string option"
  er_reason :: exec_reason
  er_claim :: string
  er_ref :: string
  er_verdict :: "string option"
  er_event :: bool
  er_outcomes :: "outcome list"

datatype exec_error = Legacy_Entry | Invalid_Contract "contract_error list" | Bad_Number | Predicate_Fault py_error
  | Ledger_Fault produce_error | Bad_Preconditions json | Not_A_Mapping json

record exec_state =
  es_files :: files
  es_ledger :: ledger

section \<open>The permission envelope\<close>

definition authorize_tool :: "string list \<Rightarrow> string \<Rightarrow> bool" where
  "authorize_tool allowed tool \<longleftrightarrow> tool \<in> set allowed"

definition authorize_data :: "string list \<Rightarrow> string \<Rightarrow> bool" where
  "authorize_data scope tenant \<longleftrightarrow> tenant \<in> set scope"

fun before_stars :: "string \<Rightarrow> string" where
  \<comment> \<open>\<^verbatim>\<open>raw.split("**", 1)[0]\<close>\<close>
  "before_stars [] = []"
| "before_stars (c # s) = (if starts_with ''**'' (c # s) then [] else c # before_stars s)"

definition rstrip_slash :: "string \<Rightarrow> string" where
  "rstrip_slash s = rev (dropWhile (\<lambda>c. c = CHR ''/'') (rev s))"

definition effect_dir :: "path \<Rightarrow> json \<Rightarrow> (violation, path) result" where
  "effect_dir rt effect =
     (let raw = str_get ''path'' effect; cut = rstrip_slash (before_stars raw);
          d = normalise (join_path (normalise rt) (if cut = [] then ''.'' else cut))
      in guard_result (py_strip raw \<noteq> []) Empty_Declaration
           (guard_result (\<not> starts_with ''/'' raw) (Absolute_Declaration raw)
             (guard_result (inside (normalise rt) d) (Escaping_Declaration raw) (Inr d))))"

definition target_of :: "path \<Rightarrow> string \<Rightarrow> path" where
  "target_of rt a = normalise (join_path (normalise rt) a)"

definition side_effect_violations :: "json list \<Rightarrow> string list \<Rightarrow> path \<Rightarrow> violation list" where
  "side_effect_violations declared artifacts rt =
     (if declared = [] then map None_Declared artifacts
      else case map_result (effect_dir rt) declared of
        Inl v \<Rightarrow> [v]
      | Inr dirs \<Rightarrow> concat (map (\<lambda>a. require (list_ex (\<lambda>d. inside d (target_of rt a)) dirs) (Outside_Scope a)) artifacts))"

section \<open>Rollback\<close>

fun os_exists :: "files \<Rightarrow> path \<Rightarrow> path \<Rightarrow> bool" where
  \<comment> \<open>\<^verbatim>\<open>exists()\<close> of an unresolved path: a parent step needs a directory to step from\<close>
  "os_exists fs acc [] = (fs acc \<noteq> None \<or> acc = [])"
| "os_exists fs acc (c # cs) =
     (if c = ''..'' then (fs acc = Some Directory \<or> acc = []) \<and> os_exists fs (butlast acc) cs else os_exists fs (acc @ [c]) cs)"

fun delete_artifacts :: "path \<Rightarrow> string list \<Rightarrow> nat \<Rightarrow> files \<Rightarrow> (rollback_note, nat) result \<times> files" where
  "delete_artifacts rt [] n fs = (Inr n, fs)"
| "delete_artifacts rt (a # as) n fs =
     (let p = target_of rt a in
      if \<not> inside (normalise rt) p then delete_artifacts rt as n fs
      else case fs p of
             None \<Rightarrow> delete_artifacts rt as n fs
           | Some Directory \<Rightarrow> (Inl (Is_Directory a), fs)
           | Some (File _) \<Rightarrow> delete_artifacts rt as (Suc n) (fs(p := None)))"

definition run_rollback :: "exec_env \<Rightarrow> json \<Rightarrow> string list \<Rightarrow> string option \<Rightarrow> files \<Rightarrow> (bool \<times> rollback_note) \<times> files" where
  "run_rollback env rb artifacts head fs =
     (let kind = get ''kind'' rb; scope = str_get ''scope'' rb; rt = ee_root env in
      if kind = JStr ''file_delete'' then
        (case delete_artifacts rt artifacts 0 fs of
           (Inl e, fs') \<Rightarrow> ((False, e), fs')
         | (Inr n, fs') \<Rightarrow>
             let remaining = filter (\<lambda>a. os_exists fs' [] (join_path (normalise rt) a)) artifacts in
             if remaining \<noteq> [] then ((False, Still_Present remaining), fs') else ((True, Deleted n), fs'))
      else if kind = JStr ''git_revert'' then
        (case head of
           None \<Rightarrow> ((False, No_Head), fs)
         | Some h \<Rightarrow> if h = [] then ((False, No_Head), fs)
                     else (case ee_revert env (normalise rt) h scope fs of (ans, fs') \<Rightarrow> ((ans = Restored, Revert ans), fs')))
      else ((False, Unknown_Rollback kind), fs))"

section \<open>The ledger entry\<close>

definition outcome_json :: "outcome \<Rightarrow> json" where
  "outcome_json oc = obj [(''kind'', oc_kind oc), (''passed'', JBool (oc_passed oc))]"

definition opt_str :: "string option \<Rightarrow> json" where
  "opt_str o' = (case o' of None \<Rightarrow> JNull | Some s \<Rightarrow> JStr s)"

definition record_for :: "exec_env \<Rightarrow> json \<Rightarrow> exec_result \<Rightarrow> int \<Rightarrow> json \<Rightarrow> json" where
  \<comment> \<open>the record of a result with its exit code and output\<close>
  "record_for env c res exit out =
     (let rec = obj [(''record_version'', JStr ''1.0''), (''record_type'', JStr ''task''), (''task_id'', get ''task_id'' c),
          (''contract'', obj (copy_fields [''task_id'', ''objective'', ''skill'', ''args'', ''expected_output'', ''inputs'',
              ''preconditions'', ''side_effects''] c)),
          (''outcome'', JStr (er_status res)), (''failure_kind'', opt_str (er_kind res)), (''exit_code'', JInt exit),
          (''output'', out), (''predicate_outcomes'', JList (map outcome_json (er_outcomes res))),
          (''rollback'', get ''rollback'' c), (''tenant_id'', JStr (ee_tenant env)), (''git_head'', JStr (ee_git env)),
          (''recorded_at'', JStr (ee_now env))]
      in set_field ''claim_id'' (JStr (snd (snd (task_polarity (ee_digest env) rec)))) rec)"

definition failed_event :: "exec_env \<Rightarrow> json \<Rightarrow> exec_result \<Rightarrow> json list \<Rightarrow> json" where
  "failed_event env c res dag = obj [(''event'', JStr ''TASK_FAILED''), (''version'', JStr ''1.0''), (''task_id'', get ''task_id'' c),
     (''goal'', JStr (ee_goal env)), (''failed_step'', get ''task_id'' c), (''failed_index'', JInt 0), (''error'', JStr (ee_text env (er_reason res))),
     (''attempt'', JInt 1), (''max_attempts'', JInt 1),
     (''decision'', JStr (if er_status res = ''ROLLED_BACK'' then ''rollback'' else ''fail'')),
     (''dag'', JList (if dag = [] then [c] else dag)), (''revised_dag'', JNull), (''ts'', JStr (ee_now env))]"

definition finalize :: "exec_env \<Rightarrow> json \<Rightarrow> json list \<Rightarrow> exec_result \<Rightarrow> int \<Rightarrow> json \<Rightarrow> exec_state \<Rightarrow>
    (exec_error, exec_result) result \<times> exec_state" where
  "finalize env c dag res exit out s =
     (case task_produce (ee_digest env) (ee_git env) (ee_dry env) (record_for env c res exit out) (es_ledger s) of
        (Inl e, l) \<Rightarrow> (Inl (Ledger_Fault e), s\<lparr>es_ledger := l\<rparr>)
      | (Inr a, l) \<Rightarrow>
          let res1 = res\<lparr>er_claim := pr_claim a, er_ref := pr_ref a, er_verdict := pr_verdict a\<rparr> in
          if er_status res \<in> {''FAILED'', ''ROLLED_BACK''} \<and> \<not> ee_dry env
          then (case append_task_event (failed_event env c res dag) l of
                  (Inl e, l') \<Rightarrow> (Inl (Ledger_Fault e), s\<lparr>es_ledger := l'\<rparr>)
                | (Inr _, l') \<Rightarrow> (Inr (res1\<lparr>er_event := True\<rparr>), s\<lparr>es_ledger := l'\<rparr>))
          else (Inr res1, s\<lparr>es_ledger := l\<rparr>))"

section \<open>One contract\<close>

definition blank_result :: "string \<Rightarrow> string \<Rightarrow> string option \<Rightarrow> exec_reason \<Rightarrow> outcome list \<Rightarrow> exec_result" where
  "blank_result t st kind why os = \<lparr>er_task = t, er_status = st, er_kind = kind, er_reason = why, er_claim = [], er_ref = [],
     er_verdict = Some [], er_event = False, er_outcomes = os\<rparr>"

definition exit_of :: "run_report \<Rightarrow> int" where
  "exit_of r = (case rr_exit r of None \<Rightarrow> 1 | Some i \<Rightarrow> i)"

definition steps_of :: "run_report \<Rightarrow> int" where
  "steps_of r = (case rr_steps r of None \<Rightarrow> 1 | Some i \<Rightarrow> i)"

definition cost_of :: "run_report \<Rightarrow> pynum" where
  "cost_of r = (case rr_cost r of None \<Rightarrow> Dec 0 0 | Some x \<Rightarrow> x)"

definition budget_cap :: "json \<Rightarrow> pynum" where
  "budget_cap c = (case field ''budget_cap_usd'' (or_empty (get ''constraints'' c)) of None \<Rightarrow> Dec 1 0 | Some v \<Rightarrow> num_of v)"

definition max_steps :: "json \<Rightarrow> int option" where
  \<comment> \<open>\<^verbatim>\<open>int(...)\<close>; \<open>None\<close> where the conversion raises\<close>
  "max_steps c = (case field ''max_steps'' (or_empty (get ''constraints'' c)) of None \<Rightarrow> Some 12 | Some v \<Rightarrow> trunc (num_of v))"

definition allowed_tools :: "json \<Rightarrow> string list" where
  "allowed_tools c = map str_of (list_of (get ''allowed_tools'' c))"

definition data_scope :: "exec_env \<Rightarrow> json \<Rightarrow> string list" where
  "data_scope env c = (let d = map str_of (list_of (get ''allowed_data'' c)) in if d = [] then [ee_tenant env] else d)"

definition refusal :: "exec_env \<Rightarrow> json \<Rightarrow> int \<Rightarrow> run_report \<Rightarrow> (string \<times> exec_reason) option" where
  \<comment> \<open>the first check a report fails: kind and reason\<close>
  "refusal env c steps r =
     (let tools = filter (\<lambda>t. \<not> authorize_tool (allowed_tools c) t) (rr_tools r);
          dat = filter (\<lambda>d. \<not> authorize_data (data_scope env c) d) (rr_data r);
          out = side_effect_violations (list_of (get ''side_effects'' c)) (rr_artifacts r) (ee_root env)
      in if tools \<noteq> [] then Some (''permission'', Tools_Denied tools)
         else if dat \<noteq> [] then Some (''permission'', Data_Denied dat)
         else if out \<noteq> [] then Some (''scope'', Scope_Violated out)
         else if steps_of r > steps then Some (''steps'', Steps_Exceeded (steps_of r) steps)
         else if num_less (budget_cap c) (cost_of r) then Some (''budget'', Budget_Exceeded (cost_of r) (budget_cap c))
         else if exit_of r \<noteq> 0 then Some (''crash'', Exit_Code (exit_of r))
         else None)"

definition contract_preds :: "json \<Rightarrow> json list" where
  "contract_preds c = list_of (expected_preds (get ''expected_output'' c))"

definition settle :: "exec_env \<Rightarrow> json \<Rightarrow> string \<Rightarrow> string option \<Rightarrow> run_report \<Rightarrow> outcome list \<Rightarrow> files \<Rightarrow> exec_result \<times> files" where
  \<comment> \<open>the verdict on the outcomes, with the rollback of a failed verification\<close>
  "settle env c t head r os fs =
     (if predicates_pass os then (blank_result t ''VERIFIED'' None All_Pass os, fs)
      else let why = Some_Fail (length (filter (\<lambda>oc. \<not> oc_passed oc) os)) (length os); rb = get ''rollback'' c in
        if truthy rb
        then (case run_rollback env rb (rr_artifacts r) head fs of
                ((True, note), fs') \<Rightarrow> (blank_result t ''ROLLED_BACK'' (Some ''predicates'') (With_Rollback why note) os, fs')
              | ((False, note), fs') \<Rightarrow> (blank_result t ''FAILED'' (Some ''rollback_failed'') (With_Rollback why note) os, fs'))
        else (blank_result t ''FAILED'' (Some ''predicates'') why os, fs))"

definition judge :: "exec_env \<Rightarrow> json \<Rightarrow> string \<Rightarrow> string option \<Rightarrow> run_report \<Rightarrow> files \<Rightarrow> (exec_error, exec_result) result \<times> files" where
  \<comment> \<open>a report that passed the envelope and the caps\<close>
  "judge env c t head r fs =
     (if get ''expected_output'' c = JNull then (Inr (blank_result t ''SUBMITTED'' None No_Expected_Output []), fs)
      else let seen = obj [(''exit_code'', JInt (exit_of r)), (''output'', rr_output r)] in
        (case run_predicates (ee_pred env) (ee_root env) fs seen (contract_preds c) of
           Inl e \<Rightarrow> (Inl (Predicate_Fault e), fs)
         | Inr os \<Rightarrow> (case settle env c t head r os (make_root (ee_root env) fs) of (res, fs') \<Rightarrow> (Inr res, fs'))))"

definition graph_ids :: "json list \<Rightarrow> string list" where
  "graph_ids es = map (\<lambda>e. str_of (get ''task_id'' e)) (filter (\<lambda>e. is_obj e \<and> is_str (get ''task_id'' e)) es)"

definition run_contract :: "exec_env \<Rightarrow> json \<Rightarrow> json list \<Rightarrow> string \<Rightarrow> int \<Rightarrow> string option \<Rightarrow> exec_state \<Rightarrow>
    (exec_error, exec_result) result \<times> exec_state" where
  \<comment> \<open>from the call of the runner on\<close>
  "run_contract env c dag t steps head s =
     (case ee_run env c (es_files s) of
        (Runner_Crash e, fs) \<Rightarrow>
          finalize env c dag (blank_result t ''FAILED'' (Some ''crash'') (Crashed e) []) 1 JNull (s\<lparr>es_files := fs\<rparr>)
      | (Reported r, fs) \<Rightarrow>
          (case refusal env c steps r of
             Some (kind, why) \<Rightarrow>
               finalize env c dag (blank_result t ''FAILED'' (Some kind) why []) (exit_of r) (rr_output r) (s\<lparr>es_files := fs\<rparr>)
           | None \<Rightarrow>
               (case judge env c t head r fs of
                  (Inl e, fs') \<Rightarrow> (Inl e, s\<lparr>es_files := fs'\<rparr>)
                | (Inr res, fs') \<Rightarrow> finalize env c dag res (exit_of r) (rr_output r) (s\<lparr>es_files := fs'\<rparr>))))"

definition execute_contract :: "exec_env \<Rightarrow> json \<Rightarrow> json list \<Rightarrow> string option \<Rightarrow> exec_state \<Rightarrow>
    (exec_error, exec_result) result \<times> exec_state" where
  \<comment> \<open>an empty graph stands for the contract alone\<close>
  "execute_contract env c dag head s =
     (let tid = get ''task_id'' c; errors = validate_contract c (graph_ids (if dag = [] then [c] else dag)); rb = get ''rollback'' c in
      if \<not> is_str tid \<or> str_of tid = [] then (Inl Legacy_Entry, s)
      else if errors \<noteq> [] then (Inl (Invalid_Contract errors), s)
      else case max_steps c of
             None \<Rightarrow> (Inl Bad_Number, s)
           | Some steps \<Rightarrow>
               run_contract env c dag (str_of tid) steps
                 (if truthy rb \<and> get ''kind'' rb = JStr ''git_revert'' \<and> head = None
                  then ee_head env (ee_root env) (es_files s) else head) s)"

section \<open>One step of a graph\<close>

definition is_verified :: "json \<Rightarrow> bool" where
  "is_verified e \<longleftrightarrow> is_obj e \<and> get ''status'' e = JStr ''VERIFIED''"

definition ready_preconditions :: "json \<Rightarrow> (exec_error, string list) result" where
  "ready_preconditions e =
     (let p = get ''preconditions'' e in
      if \<not> truthy p then Inr [] else case str_list p of None \<Rightarrow> Inl (Bad_Preconditions p) | Some ps \<Rightarrow> Inr ps)"

fun select_from :: "json list \<Rightarrow> json list \<Rightarrow> (exec_error, json option) result" where
  \<comment> \<open>the first argument lists the ids of the verified tasks\<close>
  "select_from ids [] = Inr None"
| "select_from ids (e # es) =
     (if \<not> is_obj e \<or> get ''status'' e \<noteq> JStr ''READY'' then select_from ids es
      else bind_result (ready_preconditions e) (\<lambda>ps.
        if list_all (\<lambda>p. JStr (fst (rsplit_last CHR '':'' p)) \<in> set ids) ps then Inr (Some e) else select_from ids es))"

definition select_ready_task :: "json list \<Rightarrow> (exec_error, json option) result" where
  "select_ready_task dag = select_from (map (get ''task_id'') (filter is_verified dag)) dag"

definition as_dict :: "json \<Rightarrow> json option" where
  \<comment> \<open>\<^verbatim>\<open>dict(e)\<close>\<close>
  "as_dict v = (case v of JObj _ \<Rightarrow> Some v | JList [] \<Rightarrow> Some (JObj []) | JStr [] \<Rightarrow> Some (JObj []) | _ \<Rightarrow> None)"

definition advance_status :: "json \<Rightarrow> string \<Rightarrow> json \<Rightarrow> json" where
  "advance_status tid st e = (if get ''task_id'' e = tid then set_field ''status'' (JStr st) e else e)"

definition advance_dag :: "exec_env \<Rightarrow> json list \<Rightarrow> exec_state \<Rightarrow>
    (exec_error, json list \<times> exec_result option) result \<times> exec_state" where
  "advance_dag env dag s =
     (case select_ready_task dag of
        Inl e \<Rightarrow> (Inl e, s)
      | Inr None \<Rightarrow> (Inr (dag, None), s)
      | Inr (Some c) \<Rightarrow>
          let errors = validate_contract c (graph_ids dag) in
          if errors \<noteq> [] then (Inl (Invalid_Contract errors), s)
          else (case execute_contract env c dag None s of
                  (Inl e, s') \<Rightarrow> (Inl e, s')
                | (Inr res, s') \<Rightarrow>
                    (case map_result (\<lambda>e. case as_dict e of None \<Rightarrow> Inl (Not_A_Mapping e) | Some d \<Rightarrow> Inr d) dag of
                       Inl e \<Rightarrow> (Inl e, s')
                     | Inr ds \<Rightarrow> (Inr (map (advance_status (get ''task_id'' c) (er_status res)) ds, Some res), s'))))"

section \<open>What a result means\<close>

lemma finalize_result:
  assumes "finalize env c dag res exit out s = (Inr res', s')"
  shows "er_status res' = er_status res" "er_task res' = er_task res" "er_kind res' = er_kind res"
    "er_reason res' = er_reason res" "er_outcomes res' = er_outcomes res" "es_files s' = es_files s"
  using assms by (auto simp: finalize_def Let_def split: prod.splits sum.splits if_splits)

lemma finalize_files: "es_files (snd (finalize env c dag res exit out s)) = es_files s"
  by (auto simp: finalize_def Let_def split: prod.splits sum.splits)

lemma blank_fields [simp]:
  "er_status (blank_result t st kind why os) = st" "er_kind (blank_result t st kind why os) = kind"
  "er_outcomes (blank_result t st kind why os) = os" "er_reason (blank_result t st kind why os) = why"
  "er_task (blank_result t st kind why os) = t"
  by (simp_all add: blank_result_def)

lemma executed:
  assumes "execute_contract env c dag head s = (Inr res, s')"
  obtains t steps h where "get ''task_id'' c = JStr t" "t \<noteq> []" "max_steps c = Some steps"
    "validate_contract c (graph_ids (if dag = [] then [c] else dag)) = []"
    "run_contract env c dag t steps h s = (Inr res, s')"
  using assms by (auto simp: execute_contract_def Let_def is_str_iff split: if_splits option.splits)

lemma settled_status:
  "er_status (fst (settle env c t head r os fs)) = ''VERIFIED'' \<longleftrightarrow> predicates_pass os"
  "er_status (fst (settle env c t head r os fs)) = ''ROLLED_BACK'' \<Longrightarrow>
     \<not> predicates_pass os \<and> (\<exists>note. run_rollback env (get ''rollback'' c) (rr_artifacts r) head fs =
        ((True, note), snd (settle env c t head r os fs)))"
  by (auto simp: settle_def Let_def split: prod.splits bool.splits if_splits)

lemma judged_status:
  assumes "judge env c t head r fs = (Inr res, fs')" "er_status res = ''VERIFIED'' \<or> er_status res = ''ROLLED_BACK''"
  obtains os where "get ''expected_output'' c \<noteq> JNull"
    "run_predicates (ee_pred env) (ee_root env) fs (obj [(''exit_code'', JInt (exit_of r)), (''output'', rr_output r)])
       (contract_preds c) = Inr os"
    "settle env c t head r os (make_root (ee_root env) fs) = (res, fs')"
  using assms by (auto simp: judge_def Let_def split: if_splits sum.splits prod.splits)

lemma ran:
  assumes "run_contract env c dag t steps head s = (Inr res, s')" "er_status res = ''VERIFIED'' \<or> er_status res = ''ROLLED_BACK''"
  obtains r fs res1 where "ee_run env c (es_files s) = (Reported r, fs)" "refusal env c steps r = None"
    "judge env c t head r fs = (Inr res1, es_files s')" "er_status res1 = er_status res"
proof (cases "ee_run env c (es_files s)")
  case (Pair ans fs)
  show ?thesis
  proof (cases ans)
    case (Runner_Crash e)
    with assms Pair show ?thesis by (auto simp: run_contract_def dest: finalize_result)
  next
    case (Reported r)
    show ?thesis
    proof (cases "refusal env c steps r")
      case (Some kw)
      with assms Pair Reported show ?thesis
        by (cases kw) (auto simp: run_contract_def dest: finalize_result)
    next
      case None
      obtain ans1 fs1 where j: "judge env c t head r fs = (ans1, fs1)" by (cases "judge env c t head r fs") auto
      with assms Pair Reported None obtain res1 where "ans1 = Inr res1"
          "finalize env c dag res1 (exit_of r) (rr_output r) (s\<lparr>es_files := fs1\<rparr>) = (Inr res, s')"
        by (auto simp: run_contract_def split: sum.splits)
      moreover from finalize_result [OF this(2)] have "er_status res1 = er_status res" "fs1 = es_files s'" by simp_all
      ultimately show ?thesis using that Pair Reported None j by simp
    qed
  qed
qed

lemma not_refused:
  assumes "refusal env c steps r = None"
  shows "set (rr_tools r) \<subseteq> set (allowed_tools c)" "set (rr_data r) \<subseteq> set (data_scope env c)"
    "side_effect_violations (list_of (get ''side_effects'' c)) (rr_artifacts r) (ee_root env) = []"
    "steps_of r \<le> steps" "\<not> num_less (budget_cap c) (cost_of r)" "exit_of r = 0"
  using assms
  by (auto simp: refusal_def Let_def authorize_tool_def authorize_data_def filter_empty_conv split: if_splits)

lemma effect_dir_inside: "effect_dir rt e = Inr d \<Longrightarrow> inside (normalise rt) d"
  by (auto simp: effect_dir_def Let_def result_simps)

lemma artifacts_inside:
  assumes "side_effect_violations declared artifacts rt = []" "a \<in> set artifacts"
  shows "inside (normalise rt) (target_of rt a)"
proof -
  have "declared \<noteq> []" using assms by (auto simp: side_effect_violations_def)
  then obtain dirs where dirs: "map_result (effect_dir rt) declared = Inr dirs"
      "\<forall>a \<in> set artifacts. list_ex (\<lambda>d. inside d (target_of rt a)) dirs"
    using assms(1) by (auto simp: side_effect_violations_def concat_Nil_iff split: sum.splits)
  then obtain d where d: "d \<in> set dirs" "inside d (target_of rt a)" using assms(2) by (auto simp: list_ex_iff)
  have "inside (normalise rt) d" using map_result_Inr_set [OF dirs(1) d(1)] effect_dir_inside by blast
  then show ?thesis using d(2) by (rule inside_trans)
qed

section \<open>What a rollback does\<close>

lemma delete_untouched:
  "\<not> (inside (normalise rt) p \<and> p \<in> target_of rt ` set as) \<Longrightarrow> snd (delete_artifacts rt as n fs) p = fs p"
proof (induction rt as n fs rule: delete_artifacts.induct)
  case (2 rt a as n fs)
  then show ?case by (auto simp: Let_def fun_upd_def split: option.split node.split)
qed simp

lemma delete_only_removes: "fs p = None \<Longrightarrow> snd (delete_artifacts rt as n fs) p = None"
proof (induction rt as n fs rule: delete_artifacts.induct)
  case (2 rt a as n fs)
  then show ?case by (auto simp: Let_def fun_upd_def split: option.split node.split)
qed simp

lemma delete_done:
  "delete_artifacts rt as n fs = (Inr k, fs') \<Longrightarrow> a \<in> set as \<Longrightarrow> inside (normalise rt) (target_of rt a) \<Longrightarrow>
     fs' (target_of rt a) = None"
proof (induction rt as n fs rule: delete_artifacts.induct)
  case (2 rt b as n fs)
  have keep: "fs' q = None" if "delete_artifacts rt as m gs = (Inr k, fs')" "gs q = None" for m gs q
    using delete_only_removes [of gs q rt as m] that by simp
  show ?case
  proof (cases "a \<in> set as")
    case True
    with 2 show ?thesis by (auto simp: Let_def fun_upd_def split: if_splits option.splits node.splits)
  next
    case False
    then have "b = a" using 2(5) by simp
    with 2(4,6) keep show ?thesis by (auto simp: Let_def fun_upd_def split: option.splits node.splits)
  qed
qed simp

section \<open>Steps of a graph\<close>

lemma run_status:
  assumes "run_contract env c dag t steps head s = (Inr res, s')"
  shows "er_status res \<noteq> ''READY''"
proof -
  have fin: "er_status res = er_status r1" if "finalize env c dag r1 x out s1 = (Inr res, s')" for r1 x out s1
    using finalize_result(1) [OF that] .
  have set: "er_status (fst (settle env c t head r os fs)) \<noteq> ''READY''" for r os fs
    by (auto simp: settle_def Let_def split: prod.splits bool.splits)
  have jud: "er_status r1 \<noteq> ''READY''" if "judge env c t head r fs = (Inr r1, fs')" for r fs r1 fs'
    using that set by (auto simp: judge_def Let_def split: if_splits sum.splits prod.splits) (metis fst_conv)
  show ?thesis
    using assms by (auto simp: run_contract_def dest!: fin jud split: prod.splits runner_answer.splits option.splits sum.splits)
qed

lemma executed_status: "execute_contract env c dag head s = (Inr res, s') \<Longrightarrow> er_status res \<noteq> ''READY''"
  by (erule executed) (rule run_status)

definition preconditions_of :: "json \<Rightarrow> string list" where
  "preconditions_of e = map (\<lambda>p. fst (rsplit_last CHR '':'' (str_of p))) (list_of (get ''preconditions'' e))"

definition verified_in :: "json list \<Rightarrow> string \<Rightarrow> bool" where
  "verified_in dag t \<longleftrightarrow> (\<exists>v \<in> set dag. is_verified v \<and> get ''task_id'' v = JStr t)"

lemma ready_preconditions_of: "ready_preconditions e = Inr ps \<Longrightarrow> preconditions_of e = map (\<lambda>p. fst (rsplit_last CHR '':'' p)) ps"
  by (cases "get ''preconditions'' e")
    (auto simp: ready_preconditions_def preconditions_of_def Let_def truthy_def split: if_splits option.splits)

lemma select_from_Some:
  "select_from ids es = Inr (Some c) \<Longrightarrow> c \<in> set es \<and> is_obj c \<and> get ''status'' c = JStr ''READY'' \<and>
     (\<forall>t \<in> set (preconditions_of c). JStr t \<in> set ids)"
proof (induction es)
  case (Cons e es)
  show ?case
  proof (cases "\<not> is_obj e \<or> get ''status'' e \<noteq> JStr ''READY''")
    case True
    with Cons show ?thesis by auto
  next
    case False
    then obtain ps where ps: "ready_preconditions e = Inr ps"
        "(if list_all (\<lambda>p. JStr (fst (rsplit_last CHR '':'' p)) \<in> set ids) ps then Inr (Some e) else select_from ids es) = Inr (Some c)"
      using Cons.prems by (auto simp: result_simps)
    show ?thesis
    proof (cases "list_all (\<lambda>p. JStr (fst (rsplit_last CHR '':'' p)) \<in> set ids) ps")
      case True
      have pre: "preconditions_of e = map (\<lambda>p. fst (rsplit_last CHR '':'' p)) ps" by (rule ready_preconditions_of [OF ps(1)])
      have "c = e" using ps(2) True by simp
      with True False pre show ?thesis by (auto simp: list_all_iff)
    next
      case False
      with ps Cons.IH show ?thesis by auto
    qed
  qed
qed simp

lemma selected:
  assumes "select_ready_task dag = Inr (Some c)"
  shows "c \<in> set dag" "is_obj c" "get ''status'' c = JStr ''READY''" "\<forall>t \<in> set (preconditions_of c). verified_in dag t"
proof -
  note sel = select_from_Some [OF assms [unfolded select_ready_task_def]]
  show "c \<in> set dag" "is_obj c" "get ''status'' c = JStr ''READY''" using sel by auto
  show "\<forall>t \<in> set (preconditions_of c). verified_in dag t"
  proof
    fix t assume "t \<in> set (preconditions_of c)"
    then obtain v where "v \<in> set dag" "is_verified v" "get ''task_id'' v = JStr t" using sel by auto
    then show "verified_in dag t" by (auto simp: verified_in_def)
  qed
qed

lemma as_dict_all: "list_all is_obj dag \<Longrightarrow>
   map_result (\<lambda>e. case as_dict e of None \<Rightarrow> Inl (Not_A_Mapping e) | Some d \<Rightarrow> Inr d) dag = Inr dag"
  by (induction dag) (auto simp: as_dict_def is_obj_iff)

lemma advanced:
  assumes "advance_dag env dag s = (Inr (dag', Some res), s')" "list_all is_obj dag"
  obtains c where "select_ready_task dag = Inr (Some c)" "execute_contract env c dag None s = (Inr res, s')"
    "dag' = map (advance_status (get ''task_id'' c) (er_status res)) dag"
  using assms by (auto simp: advance_dag_def Let_def as_dict_all split: sum.splits option.splits if_splits prod.splits)

lemma get_set_field: "is_obj e \<Longrightarrow> get j (set_field k x e) = (if j = k then x else get j e)"
  by (auto simp: field_or_def field_set_field is_obj_iff)

lemma advance_status_fields:
  assumes "is_obj e"
  shows "is_obj (advance_status tid st e)" "get ''task_id'' (advance_status tid st e) = get ''task_id'' e"
    "get ''preconditions'' (advance_status tid st e) = get ''preconditions'' e"
    "get ''status'' (advance_status tid st e) = (if get ''task_id'' e = tid then JStr st else get ''status'' e)"
  using assms by (auto simp: advance_status_def get_set_field is_obj_iff)

definition well_keyed :: "json list \<Rightarrow> bool" where
  "well_keyed dag \<longleftrightarrow> list_all is_obj dag \<and> distinct (map (get ''task_id'') dag)"

definition justified :: "json list \<Rightarrow> bool" where
  "justified dag \<longleftrightarrow> (\<forall>e \<in> set dag. get ''status'' e \<noteq> JStr ''READY'' \<longrightarrow> (\<forall>t \<in> set (preconditions_of e). verified_in dag t))"

definition ready_count :: "json list \<Rightarrow> nat" where
  "ready_count dag = length (filter (\<lambda>e. get ''status'' e = JStr ''READY'') dag)"

inductive graph_step :: "exec_env \<Rightarrow> json list \<times> exec_state \<Rightarrow> json list \<times> exec_state \<Rightarrow> bool" for env where
  step: "advance_dag env dag s = (Inr (dag', Some res), s') \<Longrightarrow> graph_step env (dag, s) (dag', s')"

inductive_cases graph_stepE: "graph_step env (dag, s) (dag', s')"

lemma step_effect:
  assumes "graph_step env (dag, s) (dag', s')" "well_keyed dag"
  obtains c st where "c \<in> set dag" "get ''status'' c = JStr ''READY''" "\<forall>t \<in> set (preconditions_of c). verified_in dag t"
    "st \<noteq> ''READY''" "dag' = map (advance_status (get ''task_id'' c) st) dag"
proof -
  obtain res where "advance_dag env dag s = (Inr (dag', Some res), s')" using assms(1) by (rule graph_stepE)
  then obtain c where "select_ready_task dag = Inr (Some c)" "execute_contract env c dag None s = (Inr res, s')"
      "dag' = map (advance_status (get ''task_id'' c) (er_status res)) dag"
    using assms(2) by (auto simp: well_keyed_def elim: advanced)
  then show ?thesis using that selected executed_status by metis
qed

lemma step_other:
  assumes "well_keyed dag" "c \<in> set dag" "e \<in> set dag"
  shows "get ''status'' (advance_status (get ''task_id'' c) st e) = (if e = c then JStr st else get ''status'' e)"
proof -
  have "e = c" if "get ''task_id'' e = get ''task_id'' c"
    using assms that by (auto simp: well_keyed_def distinct_map inj_on_def)
  then show ?thesis using assms by (auto simp: advance_status_fields well_keyed_def list_all_iff)
qed

lemma step_invariant:
  assumes "graph_step env (dag, s) (dag', s')" "well_keyed dag" "justified dag"
  shows "well_keyed dag'" "justified dag'" "ready_count dag' < ready_count dag"
proof -
  obtain c st where c: "c \<in> set dag" "get ''status'' c = JStr ''READY''" "\<forall>t \<in> set (preconditions_of c). verified_in dag t"
    and st: "st \<noteq> ''READY''" and dag': "dag' = map (advance_status (get ''task_id'' c) st) dag"
    using step_effect [OF assms(1,2)] .
  let ?f = "advance_status (get ''task_id'' c) st"
  have obj: "is_obj e" if "e \<in> set dag" for e using assms(2) that by (simp add: well_keyed_def list_all_iff)
  have ids: "map (get ''task_id'') dag' = map (get ''task_id'') dag"
    unfolding dag' using obj by (simp add: advance_status_fields)
  then show "well_keyed dag'"
    using assms(2) obj unfolding dag' by (auto simp: well_keyed_def list_all_iff advance_status_fields simp del: map_map)
  have ver: "verified_in dag' t" if vt: "verified_in dag t" for t
  proof -
    obtain v where v: "v \<in> set dag" "is_verified v" "get ''task_id'' v = JStr t" using vt by (auto simp: verified_in_def)
    then have "v \<noteq> c" using c(2) by (auto simp: is_verified_def)
    then have "is_verified (?f v)" using v step_other [OF assms(2) c(1) v(1)] obj [OF v(1)]
      by (simp add: is_verified_def advance_status_fields)
    then show ?thesis using v obj [OF v(1)] unfolding dag' verified_in_def
      by (intro bexI [of _ "?f v"]) (auto simp: advance_status_fields)
  qed
  show "justified dag'" unfolding justified_def
  proof (intro ballI impI)
    fix e' t assume e': "e' \<in> set dag'" "get ''status'' e' \<noteq> JStr ''READY''" "t \<in> set (preconditions_of e')"
    then obtain e where e: "e \<in> set dag" "e' = ?f e" unfolding dag' by auto
    have pre: "preconditions_of e' = preconditions_of e"
      using obj [OF e(1)] by (simp add: preconditions_of_def e(2) advance_status_fields)
    have "verified_in dag t"
    proof (cases "e = c")
      case True
      then show ?thesis using c(3) e'(3) pre by simp
    next
      case False
      then have "get ''status'' e \<noteq> JStr ''READY''" using e'(2) step_other [OF assms(2) c(1) e(1), of st] e(2) by simp
      then show ?thesis using assms(3) e(1) e'(3) pre by (auto simp: justified_def)
    qed
    then show "verified_in dag' t" by (rule ver)
  qed
  have "filter (\<lambda>e. get ''status'' (?f e) = JStr ''READY'') dag = filter (\<lambda>e. e \<noteq> c \<and> get ''status'' e = JStr ''READY'') dag"
    using step_other [OF assms(2) c(1)] st by (intro filter_cong) auto
  then have "ready_count dag' = length (filter (\<lambda>e. e \<noteq> c) (filter (\<lambda>e. get ''status'' e = JStr ''READY'') dag))"
    unfolding ready_count_def dag' by (simp add: filter_map comp_def conj_commute)
  also have "\<dots> < ready_count dag"
    unfolding ready_count_def by (rule length_filter_less [of c]) (use c in auto)
  finally show "ready_count dag' < ready_count dag" .
qed

section \<open>Properties\<close>

text \<open>C3: A task is VERIFIED only by a run that stayed in its envelope and whose declared output was
  checked: exit code 0, tools and data within the contract, artifacts inside the output root, steps and
  cost within the caps, and every predicate passing on the files the run left.\<close>

theorem verified_means_checked:
  assumes "execute_contract env c dag head s = (Inr res, s')" "er_status res = ''VERIFIED''"
  shows "\<exists>r fs steps os. ee_run env c (es_files s) = (Reported r, fs) \<and> exit_of r = 0 \<and>
     set (rr_tools r) \<subseteq> set (allowed_tools c) \<and> set (rr_data r) \<subseteq> set (data_scope env c) \<and>
     (\<forall>a \<in> set (rr_artifacts r). inside (normalise (ee_root env)) (target_of (ee_root env) a)) \<and>
     max_steps c = Some steps \<and> steps_of r \<le> steps \<and> \<not> num_less (budget_cap c) (cost_of r) \<and>
     get ''expected_output'' c \<noteq> JNull \<and>
     run_predicates (ee_pred env) (ee_root env) fs (obj [(''exit_code'', JInt (exit_of r)), (''output'', rr_output r)])
       (contract_preds c) = Inr os \<and> predicates_pass os"
proof -
  obtain t steps h where ex: "max_steps c = Some steps" "run_contract env c dag t steps h s = (Inr res, s')"
    using executed [OF assms(1)] by metis
  obtain r fs res1 where r: "ee_run env c (es_files s) = (Reported r, fs)" "refusal env c steps r = None"
      "judge env c t h r fs = (Inr res1, es_files s')" "er_status res1 = er_status res"
    using ran [OF ex(2)] assms(2) by metis
  obtain os where os: "get ''expected_output'' c \<noteq> JNull"
      "run_predicates (ee_pred env) (ee_root env) fs (obj [(''exit_code'', JInt (exit_of r)), (''output'', rr_output r)])
         (contract_preds c) = Inr os"
      "settle env c t h r os (make_root (ee_root env) fs) = (res1, es_files s')"
    using judged_status [OF r(3)] r(4) assms(2) by metis
  have "predicates_pass os" using settled_status(1) [of env c t h r os "make_root (ee_root env) fs"] os(3) r(4) assms(2) by simp
  with r ex os not_refused [OF r(2)] artifacts_inside [OF not_refused(3) [OF r(2)]] show ?thesis by blast
qed

definition toy_exec :: "run_report \<Rightarrow> exec_env" where
  "toy_exec r = \<lparr>ee_pred = toy_pred_env, ee_digest = id, ee_run = (\<lambda>c fs. (Reported r, fs)), ee_head = (\<lambda>_ _. None),
     ee_revert = (\<lambda>_ _ _ fs. (Reset_Failed, fs)), ee_root = [''out''], ee_git = ''h'', ee_tenant = ''default'', ee_goal = [],
     ee_now = ''now'', ee_dry = False, ee_text = (\<lambda>_. ''why'')\<rparr>"

definition toy_report :: "string list \<Rightarrow> run_report" where
  "toy_report as = \<lparr>rr_exit = Some 0, rr_output = JStr ''done'', rr_steps = None, rr_cost = None, rr_tools = [], rr_data = [],
     rr_artifacts = as\<rparr>"

definition toy_files :: exec_state where
  "toy_files = \<lparr>es_files = Map.empty([''out''] \<mapsto> Directory, [''out'', ''junk''] \<mapsto> File ''x''), es_ledger = no_ledger\<rparr>"

definition toy_task :: "json list \<Rightarrow> (string \<times> json) list \<Rightarrow> json" where
  "toy_task ps kvs = entry ''t'' ([(''status'', JStr ''READY''), (''expected_output'', obj [(''predicates'', JList ps)]),
     (''side_effects'', JList [obj [(''kind'', JStr ''file_write''), (''path'', JStr ''**'')]])] @ kvs)"

definition output_pred :: json where
  "output_pred = obj [(''kind'', JStr ''output_equals''), (''expected'', JStr ''done'')]"

theorem verified_means_checked_witness:
  "get ''expected_output'' (toy_task [output_pred] []) \<noteq> JNull \<and> set (rr_data (toy_report [])) \<subseteq> {''default''}"
proof -
  let ?run = "execute_contract (toy_exec (toy_report [])) (toy_task [output_pred] []) [] None toy_files"
  have st: "(case fst ?run of Inr res \<Rightarrow> er_status res = ''VERIFIED'' | Inl e \<Rightarrow> False)" by code_simp
  then obtain res where "fst ?run = Inr res" "er_status res = ''VERIFIED''" by (auto split: sum.splits)
  then have "?run = (Inr res, snd ?run)" by (metis prod.collapse)
  from verified_means_checked [OF this \<open>er_status res = _\<close>] show ?thesis
    by (auto simp: toy_exec_def data_scope_def Let_def toy_report_def)
qed

text \<open>With an output declaration that holds no predicate, exit code 0 alone is VERIFIED, and the ledger
  records it as such.\<close>

theorem empty_output_declaration_is_verified:
  "case execute_contract (toy_exec (toy_report [])) (toy_task [] []) [] None toy_files of
     (Inr res, s') \<Rightarrow> er_status res = ''VERIFIED'' \<and> er_outcomes res = [] \<and> map ce_verdict (claims_of (es_ledger s')) = [''VERIFIED'']
   | _ \<Rightarrow> False"
  by code_simp

text \<open>C27: ROLLED_BACK after a file deletion means what it says: the verification had failed, that is the contract's
  predicates, evaluated on the files the run left, gave outcomes that do not pass; no reported artifact exists any
  more; and nothing outside the output root and nothing that was not reported has been touched.\<close>

theorem rolled_back_means_gone:
  assumes "execute_contract env c dag head s = (Inr res, s')" "er_status res = ''ROLLED_BACK''"
    "get ''kind'' (get ''rollback'' c) = JStr ''file_delete''"
  shows "\<exists>r fs os. ee_run env c (es_files s) = (Reported r, fs) \<and>
     run_predicates (ee_pred env) (ee_root env) fs (obj [(''exit_code'', JInt (exit_of r)), (''output'', rr_output r)])
       (contract_preds c) = Inr os \<and> \<not> predicates_pass os \<and>
     (\<forall>a \<in> set (rr_artifacts r). es_files s' (target_of (ee_root env) a) = None \<and>
        \<not> os_exists (es_files s') [] (join_path (normalise (ee_root env)) a)) \<and>
     (\<forall>p. \<not> (inside (normalise (ee_root env)) p \<and> p \<in> target_of (ee_root env) ` set (rr_artifacts r)) \<longrightarrow>
        es_files s' p = make_root (ee_root env) fs p)"
proof -
  obtain t steps h where ex: "run_contract env c dag t steps h s = (Inr res, s')" using executed [OF assms(1)] by metis
  obtain r fs res1 where r: "ee_run env c (es_files s) = (Reported r, fs)" "refusal env c steps r = None"
      "judge env c t h r fs = (Inr res1, es_files s')" "er_status res1 = er_status res"
    using ran [OF ex] assms(2) by metis
  obtain os where preds: "run_predicates (ee_pred env) (ee_root env) fs
        (obj [(''exit_code'', JInt (exit_of r)), (''output'', rr_output r)]) (contract_preds c) = Inr os"
      and os: "settle env c t h r os (make_root (ee_root env) fs) = (res1, es_files s')"
    using judged_status [OF r(3)] r(4) assms(2) by metis
  let ?rt = "ee_root env" and ?fs = "make_root (ee_root env) fs"
  have failed: "\<not> predicates_pass os"
    using settled_status(2) [of env c t h r os ?fs] os r(4) assms(2) by auto
  obtain nt where "run_rollback env (get ''rollback'' c) (rr_artifacts r) h ?fs = ((True, nt), es_files s')"
    using settled_status(2) [of env c t h r os ?fs] os r(4) assms(2) by auto
  then obtain k where del: "delete_artifacts ?rt (rr_artifacts r) 0 ?fs = (Inr k, es_files s')"
      "filter (\<lambda>a. os_exists (es_files s') [] (join_path (normalise ?rt) a)) (rr_artifacts r) = []"
    by (auto simp: run_rollback_def Let_def assms(3) split: prod.splits sum.splits if_splits)
  have "es_files s' (target_of ?rt a) = None" if "a \<in> set (rr_artifacts r)" for a
    using delete_done [OF del(1) that] artifacts_inside [OF not_refused(3) [OF r(2)] that] by simp
  moreover have "\<not> os_exists (es_files s') [] (join_path (normalise ?rt) a)" if "a \<in> set (rr_artifacts r)" for a
    using del(2) that by (auto simp: filter_empty_conv)
  moreover have "es_files s' p = ?fs p" if "\<not> (inside (normalise ?rt) p \<and> p \<in> target_of ?rt ` set (rr_artifacts r))" for p
    using delete_untouched [OF that, of 0 ?fs] del(1) by simp
  ultimately show ?thesis using r(1) preds failed by blast
qed

definition missing_pred :: json where
  "missing_pred = file_pred ''file_exists'' ''real'' []"

definition deleting :: "(string \<times> json) list" where
  "deleting = [(''rollback'', obj [(''kind'', JStr ''file_delete''), (''scope'', JStr ''.'')])]"

theorem rolled_back_means_gone_witness:
  "\<exists>s'. es_files s' [''out'', ''junk''] = None \<and> es_files toy_files [''out'', ''junk''] = Some (File ''x'') \<and>
     s' = snd (execute_contract (toy_exec (toy_report [''junk''])) (toy_task [missing_pred] deleting) [] None toy_files)"
proof -
  let ?run = "execute_contract (toy_exec (toy_report [''junk''])) (toy_task [missing_pred] deleting) [] None toy_files"
  have st: "(case fst ?run of Inr res \<Rightarrow> er_status res = ''ROLLED_BACK'' | Inl e \<Rightarrow> False)" by code_simp
  then obtain res where res: "fst ?run = Inr res" "er_status res = ''ROLLED_BACK''" by (auto split: sum.splits)
  then have run: "?run = (Inr res, snd ?run)" by (metis prod.collapse)
  have kind: "get ''kind'' (get ''rollback'' (toy_task [missing_pred] deleting)) = JStr ''file_delete''" by code_simp
  have there: "target_of (ee_root (toy_exec (toy_report [''junk'']))) ''junk'' = [''out'', ''junk'']" by code_simp
  from rolled_back_means_gone [OF run res(2) kind] obtain r fs where
      "ee_run (toy_exec (toy_report [''junk''])) (toy_task [missing_pred] deleting) (es_files toy_files) = (Reported r, fs)"
      and gone: "\<forall>a \<in> set (rr_artifacts r). es_files (snd ?run) (target_of (ee_root (toy_exec (toy_report [''junk'']))) a) = None"
    by blast
  moreover have "fst (ee_run (toy_exec (toy_report [''junk''])) x y) = Reported (toy_report [''junk''])" for x y
    by (simp add: toy_exec_def)
  ultimately have "r = toy_report [''junk'']" by (metis fst_conv runner_answer.inject(2))
  then have "es_files (snd ?run) (target_of (ee_root (toy_exec (toy_report [''junk'']))) ''junk'') = None"
    using gone by (simp add: toy_report_def)
  with there show ?thesis by (auto simp: toy_files_def)
qed

text \<open>A run refused by the envelope, a cap or its exit code keeps its files, whatever rollback the contract
  declares.\<close>

theorem refused_runs_are_not_rolled_back:
  assumes "ee_run env c (es_files s) = (Reported r, fs)" "refusal env c steps r \<noteq> None" "max_steps c = Some steps"
    "get ''task_id'' c = JStr t" "t \<noteq> []" "validate_contract c (graph_ids (if dag = [] then [c] else dag)) = []"
  shows "es_files (snd (execute_contract env c dag head s)) = fs"
  using assms by (auto simp: execute_contract_def run_contract_def Let_def finalize_files split: option.splits)

text \<open>However a graph is advanced, from the point where every task is READY on, a task that has been run had
  all its preconditions VERIFIED, and still has; and a graph is advanced at most as often as it has READY tasks.\<close>

theorem graphs_run_in_order:
  assumes "(graph_step env ^^ n) (dag, s) (dag', s')" "well_keyed dag" "\<forall>e \<in> set dag. get ''status'' e = JStr ''READY''"
  shows "n + ready_count dag' \<le> length dag \<and>
     (\<forall>e \<in> set dag'. get ''status'' e \<noteq> JStr ''READY'' \<longrightarrow> (\<forall>t \<in> set (preconditions_of e). verified_in dag' t))"
proof -
  have main: "well_keyed dag' \<and> justified dag' \<and> n + ready_count dag' \<le> ready_count dag"
    if "(graph_step env ^^ n) (dag, s) (dag', s')" "justified dag" for n dag' s'
    using that(1)
  proof (induction n arbitrary: dag' s')
    case 0
    then show ?case using assms(2) that(2) by simp
  next
    case (Suc n)
    then obtain dag1 s1 where "(graph_step env ^^ n) (dag, s) (dag1, s1)" "graph_step env (dag1, s1) (dag', s')" by auto
    with Suc.IH [OF this(1)] step_invariant [OF this(2)] show ?case by auto
  qed
  have "justified dag" using assms(3) by (simp add: justified_def)
  moreover have "ready_count dag \<le> length dag" by (simp add: ready_count_def)
  ultimately show ?thesis using main [OF assms(1)] by (auto simp: justified_def)
qed

theorem graphs_run_in_order_witness:
  "\<exists>dag' s'. (graph_step (toy_exec (toy_report [])) ^^ 1) ([toy_task [output_pred] []], toy_files) (dag', s') \<and>
     ready_count dag' = 0"
proof -
  let ?env = "toy_exec (toy_report [])" and ?dag = "[toy_task [output_pred] []]"
  have "(case fst (advance_dag ?env ?dag toy_files) of Inr (_, Some _) \<Rightarrow> True | _ \<Rightarrow> False)" by code_simp
  then obtain dag' res where "advance_dag ?env ?dag toy_files = (Inr (dag', Some res), snd (advance_dag ?env ?dag toy_files))"
    by (auto split: sum.splits prod.splits option.splits) (metis prod.collapse)
  then have "(graph_step ?env ^^ 1) (?dag, toy_files) (dag', snd (advance_dag ?env ?dag toy_files))"
    by (simp add: relpowp_1 graph_step.step eq_OO)
  moreover have "well_keyed ?dag" "\<forall>e \<in> set ?dag. get ''status'' e = JStr ''READY''" by code_simp+
  ultimately have "(1::nat) + ready_count dag' \<le> length ?dag" using graphs_run_in_order by blast
  then have "ready_count dag' = 0" by simp
  with \<open>(graph_step ?env ^^ 1) _ _\<close> show ?thesis by blast
qed

text \<open>A task without a status passes validation as READY and is never selected.\<close>

theorem task_without_status_is_never_selected:
  "validate_dag (JList [entry ''t'' []]) = Inr [] \<and> select_ready_task [entry ''t'' []] = Inr None"
  by code_simp

end
