(* ===== verification/Json_Ascii.thy ===== *)
theory Json_Ascii
  imports Json
begin

text \<open>
  The compact canonical text \<^verbatim>\<open>json.dumps(v, sort_keys=True, separators=(",", ":"))\<close> with
  the default \<^verbatim>\<open>ensure_ascii=True\<close>: what signatures and fingerprints of the program are
  taken over. Characters outside the ASCII range are written as escapes; the main result is that the text still
  determines the value up to the order of its keys.
\<close>

section \<open>Escaping\<close>

abbreviation bslash :: char where "bslash \<equiv> CHR 0x5C"

definition ascii_char :: "char \<Rightarrow> string" where
  "ascii_char c =
     (let n = (of_char c :: nat) in
      if n < 127 then [c] else [bslash, CHR ''u'', CHR ''0'', CHR ''0'', hex_digit (n div 16), hex_digit (n mod 16)])"

definition ascii_text :: "string \<Rightarrow> string" where
  "ascii_text s = concat (map ascii_char s)"

definition canon_ascii :: "json \<Rightarrow> string" where
  "canon_ascii v = ascii_text (dumps '','' '':'' (sort_keys v))"

section \<open>Reading the escapes back\<close>

fun undo :: "string \<Rightarrow> string" where
  "undo [] = []"
| "undo [c] = [c]"
| "undo (c # d # r) =
     (if c \<noteq> bslash then c # undo (d # r)
      else if d \<noteq> CHR ''u'' then c # d # undo r
      else (case r of
              a # b # h # l # r' \<Rightarrow>
                (if 127 \<le> 16 * hex_val h + hex_val l then char_of (16 * hex_val h + hex_val l) # undo r'
                 else c # d # a # b # h # l # undo r')
            | _ \<Rightarrow> c # d # undo r))"

text \<open>Texts made of plain characters and of the escapes \<open>esc_char\<close> writes.\<close>

inductive clean :: "string \<Rightarrow> bool" where
  clean_Nil: "clean []"
| clean_plain: "c \<noteq> bslash \<Longrightarrow> clean s \<Longrightarrow> clean (c # s)"
| clean_pair: "d \<noteq> CHR ''u'' \<Longrightarrow> (of_char d :: nat) < 127 \<Longrightarrow> clean s \<Longrightarrow> clean (bslash # d # s)"
| clean_code: "n < 32 \<Longrightarrow> clean s \<Longrightarrow>
    clean (bslash # CHR ''u'' # CHR ''0'' # CHR ''0'' # hex_digit (n div 16) # hex_digit (n mod 16) # s)"

lemma ascii_text_simps [simp]:
  "ascii_text [] = []" "ascii_text (c # s) = ascii_char c @ ascii_text s" "ascii_text (s @ t) = ascii_text s @ ascii_text t"
  by (simp_all add: ascii_text_def)

lemma ascii_char_low: "(of_char c :: nat) < 127 \<Longrightarrow> ascii_char c = [c]"
  by (simp add: ascii_char_def)

lemma of_char_less: "(of_char c :: nat) < 256"
  using nat_of_char_less_256 [of c] by simp

lemma of_char_hex_digit: "n < 16 \<Longrightarrow> (of_char (hex_digit n) :: nat) = (if n < 10 then 48 + n else 87 + n)"
  by (simp add: hex_digit_def)

lemma ascii_hex_digit: "n < 16 \<Longrightarrow> ascii_char (hex_digit n) = [hex_digit n]"
  by (simp add: ascii_char_low of_char_hex_digit)

lemma undo_plain: "c \<noteq> bslash \<Longrightarrow> undo (c # s) = c # undo s"
  by (cases s) auto

lemma undo_escape: "n < 256 \<Longrightarrow>
   undo (bslash # CHR ''u'' # CHR ''0'' # CHR ''0'' # hex_digit (n div 16) # hex_digit (n mod 16) # s) =
   (if 127 \<le> n then char_of n # undo s
    else bslash # CHR ''u'' # CHR ''0'' # CHR ''0'' # hex_digit (n div 16) # hex_digit (n mod 16) # undo s)"
  by (simp add: hex_val_digit)

lemma undo_ascii: "clean s \<Longrightarrow> undo (ascii_text s) = s"
proof (induction s rule: clean.induct)
  case (clean_plain c s)
  show ?case
  proof (cases "(of_char c :: nat) < 127")
    case True
    with clean_plain show ?thesis by (simp add: ascii_char_low undo_plain)
  next
    case False
    with clean_plain undo_escape [of "of_char c" "ascii_text s"] of_char_less [of c] show ?thesis
      by (simp add: ascii_char_def Let_def del: undo.simps)
  qed
next
  case (clean_pair d s)
  then show ?case by (simp add: ascii_char_low)
next
  case (clean_code n s)
  moreover have "(of_char CHR ''u'' :: nat) < 127" "(of_char CHR ''0'' :: nat) < 127" "(of_char bslash :: nat) < 127" by simp_all
  ultimately show ?case using undo_escape [of n "ascii_text s"]
    by (simp add: ascii_char_low ascii_hex_digit del: undo.simps)
qed simp

lemma clean_append: "clean s \<Longrightarrow> clean t \<Longrightarrow> clean (s @ t)"
  by (induction s rule: clean.induct) (auto intro: clean.intros)

lemma clean_no_bslash: "bslash \<notin> set s \<Longrightarrow> clean s"
  by (induction s) (auto intro: clean.intros)

lemma clean_esc: "clean (esc_char c)"
proof -
  have "(of_char c :: nat) \<noteq> 92 \<Longrightarrow> c \<noteq> bslash" by auto
  moreover have "clean [bslash, d]" if "d \<in> {quote, bslash, CHR ''n'', CHR ''r'', CHR ''t'', CHR ''f'', CHR ''b''}" for d
    using that by (intro clean_pair clean_Nil) auto
  moreover have "clean [bslash, CHR ''u'', CHR ''0'', CHR ''0'', hex_digit (n div 16), hex_digit (n mod 16)]" if "n < 32" for n
    using clean_code [OF that clean_Nil] .
  ultimately show ?thesis
    by (auto simp: esc_char_def Let_def intro: clean.intros)
qed

lemma clean_show_str: "clean (show_str s)"
proof -
  have "clean (concat (map esc_char s))"
    by (induction s) (auto intro: clean_append clean_esc clean_Nil)
  then show ?thesis by (auto simp: show_str_def intro!: clean_append clean.intros)
qed

lemma clean_digits: "list_all num_char s \<Longrightarrow> clean s"
  by (rule clean_no_bslash) (auto simp: list_all_iff num_char_def is_digit_def)

lemma clean_float: "float_repr r \<Longrightarrow> clean r"
  by (intro clean_digits float_repr_chars)

lemma clean_cons: "c \<noteq> bslash \<Longrightarrow> clean (c # s) \<longleftrightarrow> clean s"
  by (auto intro: clean_plain elim: clean.cases)

lemma clean_dumps:
  assumes "clean isep" "clean ksep"
  shows "well_formed v \<Longrightarrow> clean (dumps isep ksep v)"
    and "list_all well_formed vs \<Longrightarrow> clean (dumps_items isep ksep vs)"
    and "list_all (\<lambda>(k, v). well_formed v) kvs \<Longrightarrow> clean (dumps_pairs isep ksep kvs)"
  using assms
  by (induction isep ksep v and isep ksep vs and isep ksep kvs rule: dumps_dumps_items_dumps_pairs.induct)
    (auto simp: clean_cons clean_Nil clean_float clean_digits show_int_chars clean_show_str
      intro!: clean_append split: pyfloat.splits)

theorem canon_ascii_inj:
  assumes "canon_ascii v = canon_ascii w" "well_formed v" "well_formed w"
  shows "sort_keys v = sort_keys w"
proof -
  have undone: "undo (canon_ascii x) = dumps '','' '':'' (sort_keys x)" if "well_formed x" for x
  proof -
    have "clean '',''" "clean '':''" by (simp_all add: clean_cons clean_Nil)
    from clean_dumps(1) [OF this well_formed_sort_keys [OF that]] show ?thesis
      unfolding canon_ascii_def by (rule undo_ascii)
  qed
  have "dumps '','' '':'' (sort_keys v) = dumps '','' '':'' (sort_keys w)"
    using undone [OF assms(2)] undone [OF assms(3)] assms(1) by simp
  then show ?thesis
    using assms by (intro dumps_inj [of "'',''" "'':''"]) (simp_all add: comma_sep_def well_formed_sort_keys)
qed

lemma canon_ascii_sort: "well_formed v \<Longrightarrow> canon_ascii (sort_keys v) = canon_ascii v"
  by (simp add: canon_ascii_def sort_keys_idem)

lemma sort_keys_field:
  assumes "sort_keys (JObj kvs) = sort_keys (JObj kws)" "distinct (map fst kvs)" "distinct (map fst kws)"
  shows "map_option sort_keys (map_of kvs k) = map_option sort_keys (map_of kws k)"
proof -
  have "map_of (foldr insert_item (map sort_item xs) []) k = map_option sort_keys (map_of xs k)"
    if "distinct (map fst xs)" for xs
  proof -
    have "distinct (map fst (map sort_item xs))" using that by (simp only: fst_sort_item)
    then show ?thesis by (simp add: map_of_sort_items map_of_sort_item)
  qed
  with assms show ?thesis by (metis json.inject(6) sort_keys.simps(2))
qed

end
