(* ===== verification/Ledger_Keys.thy ===== *)
theory Ledger_Keys
  imports Json_Ascii Pyvalue Ledger_Merkle
begin

text \<open>
  The key registry of the chain anchor (\<^verbatim>\<open>KeyRegistry\<close> of
  \<^verbatim>\<open>src/src/msb_ledger/chain_anchor.py\<close>) and the signature dispatch of
  \<^verbatim>\<open>signing.py\<close>: which key is current, which offline key may recover, which rotations were
  endorsed and which keys are retired. The signature library is a parameter: for an algorithm, a key, a signature
  and a message, whether its \<^verbatim>\<open>verify\<close> returns (it raises otherwise). The registry file is
  its decoded JSON; no reader depends on the order of the keys. The files are only read back through
  \<^verbatim>\<open>json.loads\<close>, so every dictionary key is a string.
\<close>

section \<open>Errors and decoded fields\<close>

datatype anchor_error =
    Malformed            \<comment> \<open>KeyError, TypeError or AttributeError on the content of a file\<close>
  | BadHex               \<comment> \<open>the ValueError of \<^verbatim>\<open>bytes.fromhex\<close>\<close>
  | UnsupportedAlgorithm
  | VerifyOnly
  | SignerDown           \<comment> \<open>SigningBackendUnavailable\<close>
  | NotCurrentKey
  | NoRecoveryKey
  | RecoveryMismatch
  | RecoveryRevoked
  | NotRegistered
  | StoreDown            \<comment> \<open>sqlite3.DatabaseError\<close>
  | ForeignAnchor
  | ChainRaised

definition need :: "string \<Rightarrow> json \<Rightarrow> (anchor_error, json) result" where
  \<comment> \<open>\<^verbatim>\<open>d[k]\<close>\<close>
  "need k v = (case field k v of None \<Rightarrow> Inl Malformed | Some x \<Rightarrow> Inr x)"

fun unhex :: "json \<Rightarrow> (anchor_error, string) result" where
  \<comment> \<open>\<^verbatim>\<open>bytes.fromhex(v)\<close>\<close>
  "unhex (JStr s) = (case fromhex s of None \<Rightarrow> Inl BadHex | Some b \<Rightarrow> Inr b)"
| "unhex _ = Inl Malformed"

fun iterate :: "json \<Rightarrow> (anchor_error, json list) result" where
  \<comment> \<open>\<^verbatim>\<open>for x in v\<close>\<close>
  "iterate (JList vs) = Inr vs"
| "iterate (JObj kvs) = Inr (map (\<lambda>(k, v). JStr (key_text k)) kvs)"
| "iterate (JStr s) = Inr (map (\<lambda>c. JStr [c]) s)"
| "iterate _ = Inl Malformed"

fun without :: "string \<Rightarrow> json \<Rightarrow> json" where
  \<comment> \<open>\<^verbatim>\<open>{k: v for k, v in d.items() if k != name}\<close>\<close>
  "without k (JObj kvs) = JObj (filter (\<lambda>p. fst p \<noteq> KStr k) kvs)"
| "without k v = v"

section \<open>Signatures\<close>

definition ED25519 :: string where "ED25519 = ''ed25519''"
definition SECP256R1 :: string where "SECP256R1 = ''secp256r1''"
definition SECP384R1 :: string where "SECP384R1 = ''secp384r1''"

type_synonym signature_check = "string \<Rightarrow> string \<Rightarrow> string \<Rightarrow> string \<Rightarrow> bool"

definition point_size :: "string \<Rightarrow> nat" where
  "point_size alg = (if alg = SECP256R1 then 32 else 48)"

definition is_point :: "string \<Rightarrow> string \<Rightarrow> bool" where
  \<comment> \<open>\<^verbatim>\<open>_public_point_bytes\<close> accepts: an uncompressed point of the curve's size\<close>
  "is_point key alg \<longleftrightarrow> length key = 1 + 2 * point_size alg \<and> key ! 0 = CHR 0x04"

definition verify_signature ::
  "signature_check \<Rightarrow> string \<Rightarrow> string \<Rightarrow> string \<Rightarrow> json \<Rightarrow> (anchor_error, bool) result" where
  \<comment> \<open>message, signature, public key, algorithm\<close>
  "verify_signature X msg sig key alg =
     (if alg = JStr ED25519 then Inr (X ED25519 key sig msg)
      else if alg = JStr SECP256R1 then Inr (is_point key SECP256R1 \<and> X SECP256R1 key sig msg)
      else if alg = JStr SECP384R1 then Inr (is_point key SECP384R1 \<and> X SECP384R1 key sig msg)
      else Inl UnsupportedAlgorithm)"

record signer =
  sg_key :: string
  sg_alg :: string
  sg_sign :: "string \<Rightarrow> string option"      \<comment> \<open>None: the backend is unavailable\<close>

section \<open>The registry\<close>

record key_registry =
  current_key :: string              \<comment> \<open>empty: no current key yet\<close>
  current_alg :: json
  recovery_key :: "string option"
  recovery_alg :: json
  rotations :: json
  revocations :: json

definition empty_registry :: key_registry where
  "empty_registry = \<lparr>current_key = [], current_alg = JStr ED25519, recovery_key = None, recovery_alg = JNull,
     rotations = JList [], revocations = JList []\<rparr>"

definition load_registry :: "json option \<Rightarrow> (anchor_error, key_registry) result" where
  "load_registry f = (case f of
     None \<Rightarrow> Inr empty_registry
   | Some d \<Rightarrow>
       guard_result (is_obj d) Malformed
         (bind_result (unhex (field_or ''current_public_key'' (JStr []) d)) (\<lambda>cur.
            let rec = get ''recovery_public_key'' d in
            bind_result (if truthy rec then bind_result (unhex rec) (\<lambda>b. Inr (Some b)) else Inr None) (\<lambda>rk.
              Inr \<lparr>current_key = cur, current_alg = field_or ''algorithm'' (JStr ED25519) d, recovery_key = rk,
                   recovery_alg = get ''recovery_algorithm'' d,
                   rotations = field_or ''rotations'' (JList []) d,
                   revocations = field_or ''revocations'' (JList []) d\<rparr>))))"

definition registry_json :: "key_registry \<Rightarrow> json" where
  \<comment> \<open>what \<^verbatim>\<open>save\<close> writes\<close>
  "registry_json r = obj
     [(''version'', JInt 1), (''current_public_key'', JStr (hex (current_key r))), (''algorithm'', current_alg r),
      (''recovery_public_key'', (case recovery_key r of None \<Rightarrow> JNull | Some b \<Rightarrow> if b = [] then JNull else JStr (hex b))),
      (''recovery_algorithm'', recovery_alg r), (''rotations'', rotations r), (''revocations'', revocations r)]"

definition is_current :: "key_registry \<Rightarrow> string \<Rightarrow> bool" where
  "is_current r k \<longleftrightarrow> current_key r \<noteq> [] \<and> k = current_key r"

definition is_recovery :: "key_registry \<Rightarrow> string \<Rightarrow> bool" where
  "is_recovery r k \<longleftrightarrow> (case recovery_key r of None \<Rightarrow> False | Some b \<Rightarrow> b \<noteq> [] \<and> k = b)"

fun any_revoked :: "string \<Rightarrow> json list \<Rightarrow> (anchor_error, bool) result" where
  "any_revoked h [] = Inr False"
| "any_revoked h (r # rs) = bind_result (need ''key'' r) (\<lambda>k. if k = JStr h then Inr True else any_revoked h rs)"

definition is_revoked :: "key_registry \<Rightarrow> string \<Rightarrow> (anchor_error, bool) result" where
  "is_revoked r k = bind_result (iterate (revocations r)) (any_revoked (hex k))"

fun any_party :: "string \<Rightarrow> json list \<Rightarrow> (anchor_error, bool) result" where
  "any_party h [] = Inr False"
| "any_party h (r # rs) =
     (if \<not> is_obj r then Inl Malformed
      else if get ''from'' r = JStr h \<or> get ''to'' r = JStr h then Inr True
      else any_party h rs)"

definition is_registered :: "key_registry \<Rightarrow> string \<Rightarrow> (anchor_error, bool) result" where
  "is_registered r k =
     (if is_current r k \<or> is_recovery r k then Inr True
      else bind_result (iterate (rotations r)) (any_party (hex k)))"

fun extend :: "json \<Rightarrow> json \<Rightarrow> (anchor_error, json) result" where
  \<comment> \<open>\<^verbatim>\<open>v.append(x)\<close>\<close>
  "extend (JList vs) x = Inr (JList (vs @ [x]))"
| "extend _ x = Inl Malformed"

definition rotation_body :: "signer \<Rightarrow> string \<Rightarrow> string \<Rightarrow> string \<Rightarrow> string \<Rightarrow> json" where
  "rotation_body sg to_key to_alg reason now = obj
     [(''type'', JStr ''key-rotation''), (''from'', JStr (hex (sg_key sg))), (''to'', JStr (hex to_key)),
      (''from_algorithm'', JStr (sg_alg sg)), (''to_algorithm'', JStr to_alg), (''rotated_at'', JStr now),
      (''reason'', JStr reason)]"

definition rotate_registry ::
  "signer \<Rightarrow> string \<Rightarrow> string \<Rightarrow> string \<Rightarrow> string \<Rightarrow> key_registry \<Rightarrow> (anchor_error, json \<times> key_registry) result" where
  "rotate_registry sg to_key to_alg reason now r =
     (let body = rotation_body sg to_key to_alg reason now in
      case sg_sign sg (canon_ascii body) of
        None \<Rightarrow> Inl SignerDown
      | Some s \<Rightarrow>
          (let record = set_field ''from_signature'' (JStr (hex s)) body in
           bind_result (extend (rotations r) record) (\<lambda>rs.
             Inr (record, r\<lparr>rotations := rs, current_key := to_key, current_alg := JStr to_alg\<rparr>))))"

definition register_recovery_key :: "string \<Rightarrow> string \<Rightarrow> key_registry \<Rightarrow> key_registry" where
  "register_recovery_key key alg r = r\<lparr>recovery_key := Some key, recovery_alg := JStr alg\<rparr>"

definition revocation_body :: "string \<Rightarrow> string \<Rightarrow> string \<Rightarrow> json" where
  "revocation_body key reason now = obj
     [(''type'', JStr ''key-revocation''), (''key'', JStr (hex key)), (''revoked_at'', JStr now), (''reason'', JStr reason)]"

definition revoke_key ::
  "signer \<Rightarrow> string \<Rightarrow> string \<Rightarrow> string \<Rightarrow> key_registry \<Rightarrow> (anchor_error, json \<times> key_registry) result" where
  "revoke_key sg key reason now r =
     (let body = revocation_body key reason now in
      case sg_sign sg (canon_ascii body) of
        None \<Rightarrow> Inl SignerDown
      | Some s \<Rightarrow>
          (let record = set_field ''signature'' (JStr (hex s)) body in
           bind_result (extend (revocations r) record) (\<lambda>rs. Inr (record, r\<lparr>revocations := rs\<rparr>))))"

definition verify_rotation :: "signature_check \<Rightarrow> json \<Rightarrow> (anchor_error, bool) result" where
  "verify_rotation X record =
     guard_result (is_obj record) Malformed
       (case field ''from'' record of
          None \<Rightarrow> Inr False
        | Some f \<Rightarrow> (case unhex f of
            Inl e \<Rightarrow> (if e = BadHex then Inr False else Inl e)
          | Inr pub \<Rightarrow> (case field ''from_signature'' record of
              None \<Rightarrow> Inr False
            | Some g \<Rightarrow> (case unhex g of
                Inl e \<Rightarrow> (if e = BadHex then Inr False else Inl e)
              | Inr sig \<Rightarrow> verify_signature X (canon_ascii (without ''from_signature'' record)) sig pub
                            (field_or ''from_algorithm'' (JStr ED25519) record)))))"

section \<open>Laws\<close>

definition honest :: "signature_check \<Rightarrow> signer \<Rightarrow> bool" where
  \<comment> \<open>what a signing backend promises: the verifier accepts what it signs\<close>
  "honest X sg \<longleftrightarrow> (\<forall>m s. sg_sign sg m = Some s \<longrightarrow> verify_signature X m s (sg_key sg) (JStr (sg_alg sg)) = Inr True)"

lemma need_simps [simp]:
  "need k (JObj kvs) = (case map_of kvs (KStr k) of None \<Rightarrow> Inl Malformed | Some x \<Rightarrow> Inr x)"
  by (simp add: need_def)

lemma need_Inr_iff: "need k v = Inr x \<longleftrightarrow> field k v = Some x"
  by (auto simp: need_def split: option.splits)

lemma unhex_hex [simp]: "unhex (JStr (hex b)) = Inr b"
  by simp

lemma hex_empty_iff [simp]: "hex b = [] \<longleftrightarrow> b = []"
  using hex_inj [of b "[]"] by (auto simp: hex_def byte_hex_def)

definition tidy :: "key_registry \<Rightarrow> key_registry" where
  \<comment> \<open>an empty recovery key is written as no key\<close>
  "tidy r = (if recovery_key r = Some [] then r\<lparr>recovery_key := None\<rparr> else r)"

lemma registry_saved [simp]: "load_registry (Some (registry_json r)) = Inr (tidy r)"
  by (cases r) (auto simp: load_registry_def registry_json_def field_or_def truthy_def tidy_def split: option.splits)

lemma tidy_simps [simp]:
  "current_key (tidy r) = current_key r" "rotations (tidy r) = rotations r" "revocations (tidy r) = revocations r"
  "recovery_alg (tidy r) = recovery_alg r" "current_alg (tidy r) = current_alg r"
  "is_current (tidy r) k = is_current r k" "is_recovery (tidy r) k = is_recovery r k"
  "is_revoked (tidy r) k = is_revoked r k" "is_registered (tidy r) k = is_registered r k"
  by (auto simp: tidy_def is_current_def is_recovery_def is_revoked_def is_registered_def)

lemma any_revoked_append: "any_revoked h vs = Inr True \<Longrightarrow> any_revoked h (vs @ ws) = Inr True"
  by (induction vs) (auto simp: result_simps split: if_splits)

lemma any_revoked_last: "any_revoked h vs = Inr b \<Longrightarrow> field ''key'' w = Some (JStr h) \<Longrightarrow> any_revoked h (vs @ [w]) = Inr True"
  by (induction vs) (auto simp: result_simps need_def split: if_splits)

lemma extend_Inr_iff: "extend v x = Inr w \<longleftrightarrow> (\<exists>vs. v = JList vs \<and> w = JList (vs @ [x]))"
  by (cases v) auto

lemma rotate_registry_Inr:
  "rotate_registry sg k alg reason now r = Inr (rec, r') \<longleftrightarrow>
   (\<exists>s vs. sg_sign sg (canon_ascii (rotation_body sg k alg reason now)) = Some s \<and> rotations r = JList vs \<and>
      rec = set_field ''from_signature'' (JStr (hex s)) (rotation_body sg k alg reason now) \<and>
      r' = r\<lparr>rotations := JList (vs @ [rec]), current_key := k, current_alg := JStr alg\<rparr>)"
  by (auto simp: rotate_registry_def Let_def result_simps extend_Inr_iff split: option.splits)

lemma revoke_key_Inr:
  "revoke_key sg k reason now r = Inr (rec, r') \<longleftrightarrow>
   (\<exists>s vs. sg_sign sg (canon_ascii (revocation_body k reason now)) = Some s \<and> revocations r = JList vs \<and>
      rec = set_field ''signature'' (JStr (hex s)) (revocation_body k reason now) \<and>
      r' = r\<lparr>revocations := JList (vs @ [rec])\<rparr>)"
  by (auto simp: revoke_key_def Let_def result_simps extend_Inr_iff split: option.splits)

lemma revocation_names_key:
  "field ''key'' (set_field ''signature'' s (revocation_body k reason now)) = Some (JStr (hex k))"
  by (simp add: revocation_body_def)

lemma revoked_key_is_revoked:
  assumes "revoke_key sg k reason now r = Inr (rec, r')" "is_revoked r k = Inr b"
  shows "is_revoked r' k = Inr True"
  using assms any_revoked_last revocation_names_key by (fastforce simp: revoke_key_Inr is_revoked_def)

lemma revocation_stays:
  assumes "is_revoked r k = Inr True"
  shows "rotate_registry sg j alg reason now r = Inr (rec, r') \<Longrightarrow> is_revoked r' k = Inr True"
    and "is_revoked (register_recovery_key j alg r) k = Inr True"
    and "revoke_key sg j reason now r = Inr (rec, r') \<Longrightarrow> is_revoked r' k = Inr True"
  using assms any_revoked_append
  by (auto simp: rotate_registry_Inr revoke_key_Inr register_recovery_key_def is_revoked_def)

lemma any_party_append: "any_party h vs = Inr True \<Longrightarrow> any_party h (vs @ ws) = Inr True"
  by (induction vs) (auto simp: result_simps split: if_splits)

lemma any_party_total: "list_all is_obj vs \<Longrightarrow> any_party h vs = Inr (list_ex (\<lambda>r. get ''from'' r = JStr h \<or> get ''to'' r = JStr h) vs)"
  by (induction vs) auto

lemma rotation_record_fields:
  "field ''from'' (set_field ''from_signature'' s (rotation_body sg k alg reason now)) = Some (JStr (hex (sg_key sg)))"
  "field ''to'' (set_field ''from_signature'' s (rotation_body sg k alg reason now)) = Some (JStr (hex k))"
  "field ''from_algorithm'' (set_field ''from_signature'' s (rotation_body sg k alg reason now)) = Some (JStr (sg_alg sg))"
  "field ''from_signature'' (set_field ''from_signature'' s (rotation_body sg k alg reason now)) = Some s"
  "without ''from_signature'' (set_field ''from_signature'' s (rotation_body sg k alg reason now)) = rotation_body sg k alg reason now"
  "is_obj (set_field ''from_signature'' s (rotation_body sg k alg reason now))"
  by (simp_all add: rotation_body_def)

lemma rotation_keeps_registered:
  assumes "rotate_registry sg j alg reason now r = Inr (rec, r')" "is_registered r k = Inr True"
    and "rotations r = JList vs" "list_all is_obj vs" "sg_key sg = current_key r" "\<not> is_recovery r k \<or> is_recovery r' k"
  shows "is_registered r' k = Inr True"
proof -
  from assms(1,3) obtain s where
    rec: "rec = set_field ''from_signature'' (JStr (hex s)) (rotation_body sg j alg reason now)"
    and rs: "rotations r' = JList (vs @ [rec])" by (auto simp: rotate_registry_Inr)
  have "list_all is_obj (vs @ [rec])" using assms(4) by (simp add: rec rotation_record_fields)
  note total = any_party_total [OF this] any_party_total [OF assms(4)]
  have from_key: "get ''from'' rec = JStr (hex (sg_key sg))" by (simp add: field_or_def rec rotation_record_fields)
  consider "is_current r k" | "is_recovery r k" | "list_ex (\<lambda>q. get ''from'' q = JStr (hex k) \<or> get ''to'' q = JStr (hex k)) vs"
    using assms(2,3) total(2) by (auto simp: is_registered_def split: if_splits)
  then show ?thesis
  proof cases
    case 1
    then have "get ''from'' rec = JStr (hex k)" using from_key assms(5) by (simp add: is_current_def)
    then show ?thesis using rs total(1) by (simp add: is_registered_def)
  next
    case 2
    then show ?thesis using assms(6) by (simp add: is_registered_def)
  next
    case 3
    then show ?thesis using rs total(1) by (simp add: is_registered_def)
  qed
qed

lemma own_rotation_verifies:
  assumes "honest X sg" "rotate_registry sg j alg reason now r = Inr (rec, r')"
  shows "verify_rotation X rec = Inr True"
proof -
  from assms(2) obtain s where sig: "sg_sign sg (canon_ascii (rotation_body sg j alg reason now)) = Some s"
    and rec: "rec = set_field ''from_signature'' (JStr (hex s)) (rotation_body sg j alg reason now)"
    by (auto simp: rotate_registry_Inr)
  have "verify_signature X (canon_ascii (rotation_body sg j alg reason now)) s (sg_key sg) (JStr (sg_alg sg)) = Inr True"
    using assms(1) sig by (simp add: honest_def)
  then show ?thesis
    unfolding verify_rotation_def rec rotation_record_fields
    by (simp add: field_or_def rotation_record_fields)
qed

section \<open>Properties\<close>

text \<open>The registry file keeps the registry: what is saved is what is loaded, keys, algorithms, rotations and
  revocations alike, for every registry with a usable recovery key or none.\<close>

theorem saved_registries_load_back:
  "load_registry (Some (registry_json r)) = Inr (if recovery_key r = Some [] then r\<lparr>recovery_key := None\<rparr> else r)"
  by (simp add: tidy_def)

text \<open>A recorded rotation proves nothing by itself: a key is registered, and its notary entries are accepted, as
  soon as some record names it, with no signature on that record and without the verification of one.\<close>

definition endorsement :: "string \<Rightarrow> json" where
  \<comment> \<open>a rotation record anyone can write\<close>
  "endorsement k = obj [(''from'', JStr (hex k)), (''to'', JStr (hex k))]"

theorem unsigned_rotation_registers_a_key:
  assumes "rotations r = JList vs" "list_all is_obj vs"
  shows "is_registered (r\<lparr>rotations := JList (vs @ [endorsement k])\<rparr>) k = Inr True \<and>
         verify_rotation X (endorsement k) = Inr False"
proof -
  have "list_all is_obj (vs @ [endorsement k])" using assms by (simp add: endorsement_def)
  note any_party_total [OF this, of "hex k"]
  then show ?thesis
    by (simp add: is_registered_def is_current_def is_recovery_def endorsement_def field_or_def verify_rotation_def)
qed

theorem unsigned_rotation_registers_a_key_witness:
  "is_registered (empty_registry\<lparr>rotations := JList [endorsement ''k'']\<rparr>) ''k'' = Inr True"
  using unsigned_rotation_registers_a_key [of empty_registry "[]" "''k''"] by (simp add: empty_registry_def)

end
