(* ===== verification/Ledger_Anchor.thy ===== *)
theory Ledger_Anchor
  imports Ledger_Chain Ledger_Keys
begin

text \<open>
  The external chain-tip anchor (\<^verbatim>\<open>ChainAnchor\<close>, \<^verbatim>\<open>AnchoredAuditChain\<close> and
  the verify daemon of \<^verbatim>\<open>src/src/msb_ledger/chain_anchor.py\<close>): a signed snapshot of the
  audit chain's tip in a file of its own, checked against the live chain and the key registry. An unreadable audit
  store is \<open>None\<close>. The digest \<open>H\<close>, the signature library \<open>X\<close>, the clock and
  \<^verbatim>\<open>datetime.fromisoformat\<close> (\<open>fromiso\<close>) are arguments.
\<close>

section \<open>Snapshots\<close>

datatype instant = Aware rat | Naive rat       \<comment> \<open>seconds; with or without an offset\<close>

record anchor_obj =
  ao_signer :: "signer option"
  ao_key :: string
  ao_alg :: string

definition signing_anchor :: "signer \<Rightarrow> anchor_obj" where
  "signing_anchor sg = \<lparr>ao_signer = Some sg, ao_key = sg_key sg, ao_alg = sg_alg sg\<rparr>"

record vault =
  anchor_file :: "json option"
  registry_file :: "json option"

definition chain_seq :: "chain \<Rightarrow> nat" where
  "chain_seq c = (if rows c = [] then 0 else seq (last (rows c)))"

definition chain_sha :: "(string \<Rightarrow> string) \<Rightarrow> chain \<Rightarrow> string" where
  "chain_sha H c = hex (H (join_with [CHR 0x0A] (map record_hash (rows c))))"

definition snapshot_of :: "(string \<Rightarrow> string) \<Rightarrow> string \<Rightarrow> string \<Rightarrow> chain \<Rightarrow> json" where
  "snapshot_of H loc now c = obj
     [(''version'', JInt 1), (''db_path'', JStr loc), (''seq'', JInt (int (chain_seq c))),
      (''record_count'', JInt (int (length (rows c)))), (''tip_hash'', JStr (last_hash c)),
      (''merkle_root'', JStr (chain_merkle_root H c)), (''chain_sha256'', JStr (chain_sha H c)),
      (''anchored_at'', JStr now)]"

definition replace_z :: "string \<Rightarrow> string" where
  \<comment> \<open>\<^verbatim>\<open>s.replace("Z", "+00:00")\<close>\<close>
  "replace_z s = concat (map (\<lambda>c. if c = CHR ''Z'' then ''+00:00'' else [c]) s)"

fun seconds_between :: "instant \<Rightarrow> instant \<Rightarrow> (anchor_error, rat) result" where
  "seconds_between (Aware a) (Aware b) = Inr (b - a)"
| "seconds_between (Naive a) (Naive b) = Inr (b - a)"
| "seconds_between _ _ = Inl Malformed"      \<comment> \<open>TypeError: naive and aware\<close>

definition newer_than_anchor :: "(string \<Rightarrow> instant option) \<Rightarrow> chain \<Rightarrow> json \<Rightarrow> (anchor_error, rat) result" where
  "newer_than_anchor fromiso c ats =
     (if rows c = [] then Inr 0
      else if \<not> is_str ats then Inl Malformed
      else (case (fromiso (replace_z (str_of ats)), fromiso (replace_z (timestamp (last (rows c))))) of
              (Some a, Some b) \<Rightarrow> bind_result (seconds_between a b) (\<lambda>d. Inr (max 0 d))
            | _ \<Rightarrow> Inr 0))"

section \<open>Operations\<close>

definition adopt :: "anchor_obj \<Rightarrow> key_registry \<Rightarrow> key_registry" where
  \<comment> \<open>a registry without a current key takes the anchor's own\<close>
  "adopt a r = (if current_key r = [] then r\<lparr>current_key := ao_key a, current_alg := JStr (ao_alg a)\<rparr> else r)"

definition bootstrap :: "anchor_obj \<Rightarrow> vault \<Rightarrow> (anchor_error, key_registry) result \<times> vault" where
  \<comment> \<open>\<^verbatim>\<open>_registry(chain, bootstrap=True)\<close>\<close>
  "bootstrap a v = (case load_registry (registry_file v) of
     Inl e \<Rightarrow> (Inl e, v)
   | Inr r \<Rightarrow> (if current_key r = [] then (Inr (adopt a r), v\<lparr>registry_file := Some (registry_json (adopt a r))\<rparr>)
               else (Inr r, v)))"

definition anchor_chain ::
  "(string \<Rightarrow> string) \<Rightarrow> anchor_obj \<Rightarrow> string \<Rightarrow> string \<Rightarrow> chain option \<Rightarrow> vault \<Rightarrow> (anchor_error, json) result \<times> vault" where
  "anchor_chain H a loc now live v = (case ao_signer a of
     None \<Rightarrow> (Inl VerifyOnly, v)
   | Some sg \<Rightarrow> (case live of
       None \<Rightarrow> (Inl StoreDown, v)
     | Some c \<Rightarrow> (case sg_sign sg (canon_ascii (snapshot_of H loc now c)) of
         None \<Rightarrow> (Inl SignerDown, v)
       | Some s \<Rightarrow>
           (let record = obj [(''snapshot'', snapshot_of H loc now c), (''signature'', JStr (hex s)),
                              (''public_key'', JStr (hex (ao_key a))), (''key_algorithm'', JStr (ao_alg a))]
            in (Inr record, v\<lparr>anchor_file := Some record\<rparr>)))))"

datatype anchor_verdict =
    NoAnchor
  | Unauthorized
  | AnchorRevoked
  | KeyMismatch
  | AlgorithmMismatch
  | SignatureInvalid
  | LiveUnreadable
  | Stale rat
  | Replaced
  | FingerprintMismatch
  | RootMismatch
  | Anchored nat string rat bool     \<comment> \<open>records, tip, stale seconds, signed by the recovery key\<close>

definition compare_live ::
  "(string \<Rightarrow> string) \<Rightarrow> (string \<Rightarrow> instant option) \<Rightarrow> bool \<Rightarrow> json \<Rightarrow> chain \<Rightarrow> (anchor_error, anchor_verdict) result" where
  "compare_live H fromiso by_recovery snap c =
     bind_result (need ''tip_hash'' snap) (\<lambda>tip.
     bind_result (if tip \<noteq> JStr (last_hash c) then Inr True
                  else bind_result (need ''seq'' snap) (\<lambda>s. Inr (\<not> py_eq (JInt (int (chain_seq c))) s))) (\<lambda>differs.
       if differs then
         bind_result (need ''seq'' snap) (\<lambda>s.
           if list_ex (\<lambda>r. JStr (record_hash r) = tip) (rows c) then
             guard_result (is_number s) Malformed
               (if num_less (num_of s) (num_of (JInt (int (chain_seq c))))
                then bind_result (need ''anchored_at'' snap) (\<lambda>ats.
                     bind_result (newer_than_anchor fromiso c ats) (\<lambda>d. Inr (Stale d)))
                else Inr Replaced)
           else Inr Replaced)
       else
         bind_result (need ''chain_sha256'' snap) (\<lambda>sha.
           if sha \<noteq> JStr (chain_sha H c) then Inr FingerprintMismatch
           else if (case field ''merkle_root'' snap of None \<Rightarrow> False | Some m \<Rightarrow> m \<noteq> JStr (chain_merkle_root H c))
           then Inr RootMismatch
           else bind_result (need ''anchored_at'' snap) (\<lambda>ats.
                bind_result (newer_than_anchor fromiso c ats) (\<lambda>d.
                  Inr (Anchored (length (rows c)) (last_hash c) d by_recovery))))))"

definition verify_anchor ::
  "signature_check \<Rightarrow> (string \<Rightarrow> string) \<Rightarrow> (string \<Rightarrow> instant option) \<Rightarrow> anchor_obj \<Rightarrow> chain option \<Rightarrow> vault \<Rightarrow>
     (anchor_error, anchor_verdict) result" where
  "verify_anchor X H fromiso a live v = (case anchor_file v of
     None \<Rightarrow> Inr NoAnchor
   | Some an \<Rightarrow>
     bind_result (need ''snapshot'' an) (\<lambda>snap.
     bind_result (bind_result (need ''signature'' an) unhex) (\<lambda>sig.
     bind_result (bind_result (need ''public_key'' an) unhex) (\<lambda>pub.
     bind_result (load_registry (registry_file v)) (\<lambda>r0.
       let r = adopt a r0; alg = field_or ''key_algorithm'' (JStr ED25519) an in
       if \<not> is_obj snap then Inl Malformed       \<comment> \<open>\<^verbatim>\<open>snapshot.get\<close> or \<^verbatim>\<open>snapshot[...]\<close> on every path below\<close>
       else if \<not> (is_current r pub \<or> is_recovery r pub) then Inr Unauthorized
       else bind_result (is_revoked r pub) (\<lambda>rv.
         if rv then Inr AnchorRevoked
         else if pub \<noteq> ao_key a \<and> \<not> is_recovery r pub then Inr KeyMismatch
         else if alg \<noteq> JStr (ao_alg a) \<and> \<not> py_eq alg (recovery_alg r) then Inr AlgorithmMismatch
         else bind_result (verify_signature X (canon_ascii snap) sig (ao_key a) (JStr (ao_alg a))) (\<lambda>ok.
           if \<not> ok then Inr SignatureInvalid
           else (case live of None \<Rightarrow> Inr LiveUnreadable
                 | Some c \<Rightarrow> compare_live H fromiso (is_recovery r pub) snap c))))))))"

section \<open>Keys\<close>

record world =                \<comment> \<open>what the operations below share\<close>
  w_check :: signature_check
  w_digest :: "string \<Rightarrow> string"
  w_iso :: "string \<Rightarrow> instant option"
  w_path :: string
  w_now :: string
  w_live :: "chain option"

definition reanchor :: "world \<Rightarrow> signer \<Rightarrow> json \<Rightarrow> vault \<Rightarrow> (anchor_error, json \<times> anchor_verdict) result \<times> vault" where
  \<comment> \<open>the last lines of \<^verbatim>\<open>rotate\<close> and \<^verbatim>\<open>recover\<close>\<close>
  "reanchor W sg record v =
     (case anchor_chain (w_digest W) (signing_anchor sg) (w_path W) (w_now W) (w_live W) v of
        (Inl e, v') \<Rightarrow> (Inl e, v')
      | (Inr _, v') \<Rightarrow>
          (case verify_anchor (w_check W) (w_digest W) (w_iso W) (signing_anchor sg) (w_live W) v' of
             Inl e \<Rightarrow> (Inl e, v')
           | Inr vd \<Rightarrow> (Inr (record, vd), v')))"

definition rotate_anchor ::
  "world \<Rightarrow> anchor_obj \<Rightarrow> signer \<Rightarrow> string \<Rightarrow> vault \<Rightarrow> (anchor_error, json \<times> anchor_verdict) result \<times> vault" where
  "rotate_anchor W a new reason v = (case ao_signer a of
     None \<Rightarrow> (Inl VerifyOnly, v)
   | Some sg \<Rightarrow> (case bootstrap a v of
       (Inl e, v1) \<Rightarrow> (Inl e, v1)
     | (Inr r, v1) \<Rightarrow>
         (if \<not> is_current r (ao_key a) then (Inl NotCurrentKey, v1)
          else (case rotate_registry sg (sg_key new) (sg_alg new) reason (w_now W) r of
                  Inl e \<Rightarrow> (Inl e, v1)
                | Inr (record, r') \<Rightarrow> reanchor W new record (v1\<lparr>registry_file := Some (registry_json r')\<rparr>)))))"

definition register_recovery :: "anchor_obj \<Rightarrow> string \<Rightarrow> string \<Rightarrow> vault \<Rightarrow> (anchor_error, unit) result \<times> vault" where
  "register_recovery a key alg v = (case bootstrap a v of
     (Inl e, v1) \<Rightarrow> (Inl e, v1)
   | (Inr r, v1) \<Rightarrow> (Inr (), v1\<lparr>registry_file := Some (registry_json (register_recovery_key key alg r))\<rparr>))"

definition recover_anchor ::
  "world \<Rightarrow> anchor_obj \<Rightarrow> signer \<Rightarrow> string \<Rightarrow> vault \<Rightarrow> (anchor_error, json \<times> anchor_verdict) result \<times> vault" where
  "recover_anchor W a rec reason v = (case bootstrap a v of
     (Inl e, v1) \<Rightarrow> (Inl e, v1)
   | (Inr r, v1) \<Rightarrow> (case recovery_key r of
       None \<Rightarrow> (Inl NoRecoveryKey, v1)
     | Some k \<Rightarrow>
         (if sg_key rec \<noteq> k then (Inl RecoveryMismatch, v1)
          else (case is_revoked r (sg_key rec) of
                  Inl e \<Rightarrow> (Inl e, v1)
                | Inr True \<Rightarrow> (Inl RecoveryRevoked, v1)
                | Inr False \<Rightarrow>
                    (case rotate_registry rec (sg_key rec) (sg_alg rec)
                            (if reason = [] then ''recovery: primary key lost'' else reason) (w_now W) r of
                       Inl e \<Rightarrow> (Inl e, v1)
                     | Inr (record, r') \<Rightarrow> reanchor W rec record (v1\<lparr>registry_file := Some (registry_json r')\<rparr>))))))"

definition revoke_anchor_key ::
  "anchor_obj \<Rightarrow> string option \<Rightarrow> string \<Rightarrow> string \<Rightarrow> vault \<Rightarrow> (anchor_error, json) result \<times> vault" where
  "revoke_anchor_key a key reason now v = (case ao_signer a of
     None \<Rightarrow> (Inl VerifyOnly, v)
   | Some sg \<Rightarrow> (case bootstrap a v of
       (Inl e, v1) \<Rightarrow> (Inl e, v1)
     | (Inr r, v1) \<Rightarrow>
         (let target = (case key of None \<Rightarrow> ao_key a | Some k \<Rightarrow> if k = [] then ao_key a else k) in
          case (if is_current r target then Inr True else is_registered r target) of
            Inl e \<Rightarrow> (Inl e, v1)
          | Inr False \<Rightarrow> (Inl NotRegistered, v1)
          | Inr True \<Rightarrow>
              (case revoke_key sg target reason now r of
                 Inl e \<Rightarrow> (Inl e, v1)
               | Inr (record, r') \<Rightarrow> (Inr record, v1\<lparr>registry_file := Some (registry_json r')\<rparr>)))))"

section \<open>The anchored chain\<close>

definition open_anchored :: "world \<Rightarrow> anchor_obj \<Rightarrow> vault \<Rightarrow> (anchor_error, unit) result \<times> vault" where
  \<comment> \<open>\<^verbatim>\<open>AnchoredAuditChain.__init__\<close>\<close>
  "open_anchored W a v = (case anchor_file v of
     None \<Rightarrow> (case anchor_chain (w_digest W) a (w_path W) (w_now W) (w_live W) v of
                (Inl e, v') \<Rightarrow> (Inl e, v') | (Inr _, v') \<Rightarrow> (Inr (), v'))
   | Some an \<Rightarrow>
       (bind_result (bind_result (need ''public_key'' an) unhex) (\<lambda>pub.
        bind_result (load_registry (registry_file v)) (\<lambda>r.
          guard_result (pub = ao_key a \<or> is_recovery r pub \<or> is_current r pub) ForeignAnchor (Inr ()))), v))"

definition append_anchored ::
  "world \<Rightarrow> chain_env \<Rightarrow> anchor_obj \<Rightarrow> string \<Rightarrow> string \<Rightarrow> json \<Rightarrow> chain \<times> vault \<Rightarrow>
     (anchor_error, audit_record) result \<times> chain \<times> vault" where
  \<comment> \<open>the inner chain is marked anchored, so the keyless-append guard lets it pass\<close>
  "append_anchored W env a cmp ev p = (\<lambda>(c, v).
     (case append_chain (w_digest W) (env\<lparr>anchored := True\<rparr>) cmp ev p c of
        (Inl e, c') \<Rightarrow> (Inl ChainRaised, c', v)
      | (Inr r, c') \<Rightarrow>
          (case anchor_chain (w_digest W) a (w_path W) (w_now W) (Some c') v of
             (Inl e, v') \<Rightarrow> (Inl e, c', v')
           | (Inr _, v') \<Rightarrow> (Inr r, c', v'))))"

record daemon_report =
  dr_healthy :: bool
  dr_internal :: bool
  dr_anchored :: "anchor_verdict option"       \<comment> \<open>None where the store could not be opened\<close>
  dr_reanchored :: bool
  dr_exit :: nat

definition passes :: "anchor_verdict \<Rightarrow> bool" where
  \<comment> \<open>\<^verbatim>\<open>valid\<close> and not \<^verbatim>\<open>stale\<close>\<close>
  "passes vd = (case vd of Anchored n t d rec \<Rightarrow> \<not> 0 < d | _ \<Rightarrow> False)"

definition is_stale :: "anchor_verdict \<Rightarrow> bool" where
  "is_stale vd = (case vd of Stale d \<Rightarrow> True | _ \<Rightarrow> False)"

definition daemon_report_of :: "bool \<Rightarrow> anchor_verdict \<Rightarrow> bool \<Rightarrow> daemon_report" where
  "daemon_report_of internal vd re =
     \<lparr>dr_healthy = internal \<and> passes vd, dr_internal = internal, dr_anchored = Some vd, dr_reanchored = re,
      dr_exit = (if internal \<and> passes vd then 0 else 2)\<rparr>"

definition verify_daemon ::
  "world \<Rightarrow> anchor_obj \<Rightarrow> bool \<Rightarrow> vault \<Rightarrow> (anchor_error, daemon_report) result \<times> vault" where
  "verify_daemon W a auto v = (case w_live W of
     None \<Rightarrow> (Inr \<lparr>dr_healthy = False, dr_internal = False, dr_anchored = None, dr_reanchored = False, dr_exit = 2\<rparr>, v)
   | Some c \<Rightarrow> (case verify_chain (w_digest W) c of
       Inl e \<Rightarrow> (Inl ChainRaised, v)
     | Inr iv \<Rightarrow>
       (let internal = (case iv of Valid n \<Rightarrow> True | Broken s why \<Rightarrow> False);
            check = (\<lambda>v. verify_anchor (w_check W) (w_digest W) (w_iso W) a (w_live W) v)
        in case check v of
             Inl e \<Rightarrow> (Inl e, v)
           | Inr vd \<Rightarrow>
               (if auto \<and> internal \<and> is_stale vd
                then (case anchor_chain (w_digest W) a (w_path W) (w_now W) (w_live W) v of
                        (Inl e, v') \<Rightarrow> (Inl e, v')
                      | (Inr _, v') \<Rightarrow>
                          (case check v' of
                             Inl e \<Rightarrow> (Inl e, v')
                           | Inr vd' \<Rightarrow> (Inr (daemon_report_of internal vd' True), v')))
                else (Inr (daemon_report_of internal vd False), v)))))"

section \<open>Laws of the operations\<close>

lemma snapshot_fields:
  "field ''tip_hash'' (snapshot_of H loc now c) = Some (JStr (last_hash c))"
  "field ''seq'' (snapshot_of H loc now c) = Some (JInt (int (chain_seq c)))"
  "field ''chain_sha256'' (snapshot_of H loc now c) = Some (JStr (chain_sha H c))"
  "field ''merkle_root'' (snapshot_of H loc now c) = Some (JStr (chain_merkle_root H c))"
  "field ''anchored_at'' (snapshot_of H loc now c) = Some (JStr now)"
  "is_obj (snapshot_of H loc now c)" "well_formed (snapshot_of H loc now c)"
  by (simp_all add: snapshot_of_def)

lemma adopt_simps [simp]:
  "revocations (adopt a r) = revocations r" "rotations (adopt a r) = rotations r"
  "recovery_key (adopt a r) = recovery_key r" "recovery_alg (adopt a r) = recovery_alg r"
  "is_recovery (adopt a r) k = is_recovery r k" "is_revoked (adopt a r) k = is_revoked r k"
  by (simp_all add: adopt_def is_recovery_def is_revoked_def)

lemma adopt_tidy: "adopt a (tidy r) = tidy (adopt a r)"
  by (simp add: adopt_def tidy_def)

lemma anchor_chain_Inr:
  "anchor_chain H a loc now live v = (Inr rec, v') \<longleftrightarrow>
   (\<exists>sg c s. ao_signer a = Some sg \<and> live = Some c \<and> sg_sign sg (canon_ascii (snapshot_of H loc now c)) = Some s \<and>
      rec = obj [(''snapshot'', snapshot_of H loc now c), (''signature'', JStr (hex s)),
                 (''public_key'', JStr (hex (ao_key a))), (''key_algorithm'', JStr (ao_alg a))] \<and>
      v' = v\<lparr>anchor_file := Some rec\<rparr>)"
  by (auto simp: anchor_chain_def Let_def split: option.splits)

lemma anchor_chain_registry [simp]: "registry_file (snd (anchor_chain H a loc now live v)) = registry_file v"
  by (simp add: anchor_chain_def Let_def split: option.splits)

lemma reanchor_registry [simp]: "registry_file (snd (reanchor W sg rec v)) = registry_file v"
  using anchor_chain_registry [of "w_digest W" "signing_anchor sg" "w_path W" "w_now W" "w_live W" v]
  by (auto simp: reanchor_def split: prod.splits sum.splits simp del: anchor_chain_registry)

lemma bootstrap_Inr:
  assumes "bootstrap a v = (Inr r, v1)"
  obtains r0 where "load_registry (registry_file v) = Inr r0" "r = adopt a r0" "anchor_file v1 = anchor_file v"
    "load_registry (registry_file v1) = Inr r \<or> load_registry (registry_file v1) = Inr (tidy r)"
  using assms that by (auto simp: bootstrap_def adopt_def split: sum.splits if_splits)

lemma bootstrap_Inl: "bootstrap a v = (Inl e, v1) \<Longrightarrow> v1 = v"
  by (auto simp: bootstrap_def split: sum.splits if_splits)

text \<open>An anchor whose key the registry takes for current and has not revoked.\<close>

definition usable :: "anchor_obj \<Rightarrow> json option \<Rightarrow> bool" where
  "usable a f \<longleftrightarrow> (\<exists>r. load_registry f = Inr r \<and> is_current (adopt a r) (ao_key a) \<and> is_revoked r (ao_key a) = Inr False)"

lemma fresh_comparison:
  "newer_than_anchor fromiso c (JStr now) = Inr d \<Longrightarrow>
   compare_live H fromiso b (snapshot_of H loc now c) c = Inr (Anchored (length (rows c)) (last_hash c) d b)"
  unfolding compare_live_def need_def snapshot_fields by simp

lemma fresh_anchor_verifies:
  assumes "anchor_chain H (signing_anchor sg) loc now (Some c) v = (Inr rec, v')" "honest X sg"
    and "usable (signing_anchor sg) (registry_file v)" "newer_than_anchor fromiso c (JStr now) = Inr d"
  shows "\<exists>b. verify_anchor X H fromiso (signing_anchor sg) (Some c) v' = Inr (Anchored (length (rows c)) (last_hash c) d b)"
proof -
  from assms(1) obtain s where s: "sg_sign sg (canon_ascii (snapshot_of H loc now c)) = Some s"
    and rec: "rec = obj [(''snapshot'', snapshot_of H loc now c), (''signature'', JStr (hex s)),
                 (''public_key'', JStr (hex (sg_key sg))), (''key_algorithm'', JStr (sg_alg sg))]"
    and v': "v' = v\<lparr>anchor_file := Some rec\<rparr>"
    by (auto simp: anchor_chain_Inr signing_anchor_def)
  from assms(3) obtain r where r: "load_registry (registry_file v) = Inr r"
      "is_current (adopt (signing_anchor sg) r) (sg_key sg)" "is_revoked r (sg_key sg) = Inr False"
    by (auto simp: usable_def signing_anchor_def)
  have sig: "verify_signature X (canon_ascii (snapshot_of H loc now c)) s (sg_key sg) (JStr (sg_alg sg)) = Inr True"
    using assms(2) s by (simp add: honest_def)
  have a: "ao_key (signing_anchor sg) = sg_key sg" "ao_alg (signing_anchor sg) = sg_alg sg"
    by (simp_all add: signing_anchor_def)
  show ?thesis
    using r sig fresh_comparison [OF assms(4)] snapshot_fields(6)
    by (simp add: verify_anchor_def v' rec a Let_def field_or_def)
qed

lemma accepted_anchor:
  assumes "verify_anchor X H fromiso a (Some c) v = Inr (Anchored n t d b)"
  obtains an snap sig r where "anchor_file v = Some an" "field ''snapshot'' an = Some snap"
    "load_registry (registry_file v) = Inr r" "unhex (get ''signature'' an) = Inr sig"
    "verify_signature X (canon_ascii snap) sig (ao_key a) (JStr (ao_alg a)) = Inr True"
    "\<exists>b'. compare_live H fromiso b' snap c = Inr (Anchored n t d b)" "is_obj snap"
proof -
  from assms obtain an where an: "anchor_file v = Some an" by (auto simp: verify_anchor_def split: option.splits)
  with assms obtain snap f where *: "field ''snapshot'' an = Some snap" "field ''signature'' an = Some f"
    by (auto simp: verify_anchor_def result_simps need_Inr_iff)
  then have "get ''signature'' an = f" by (simp add: field_or_def)
  moreover have "\<exists>sig r b'. unhex f = Inr sig \<and> load_registry (registry_file v) = Inr r \<and> is_obj snap \<and>
      verify_signature X (canon_ascii snap) sig (ao_key a) (JStr (ao_alg a)) = Inr True \<and>
      compare_live H fromiso b' snap c = Inr (Anchored n t d b)"
    using an * assms by (auto simp: verify_anchor_def Let_def result_simps need_Inr_iff split: if_splits)
  ultimately show thesis using an * that by blast
qed

lemma accepted_comparison:
  assumes "compare_live H fromiso b snap c = Inr (Anchored n t d b')"
  shows "field ''tip_hash'' snap = Some (JStr (last_hash c))" "field ''chain_sha256'' snap = Some (JStr (chain_sha H c))"
    "n = length (rows c)" "t = last_hash c"
  using assms by (auto simp: compare_live_def result_simps need_Inr_iff split: if_splits)

section \<open>Revocation\<close>

definition revoked :: "string \<Rightarrow> vault \<Rightarrow> bool" where
  "revoked k v \<longleftrightarrow> (\<exists>r. load_registry (registry_file v) = Inr r \<and> is_revoked r k = Inr True)"

lemma revoked_saved [simp]: "revoked k (v\<lparr>registry_file := Some (registry_json r)\<rparr>) \<longleftrightarrow> is_revoked r k = Inr True"
  by (simp add: revoked_def)

lemma revoked_anchor_file [simp]: "revoked k (v\<lparr>anchor_file := f\<rparr>) = revoked k v"
  by (simp add: revoked_def)

lemma revoked_writes [simp]:
  "revoked k (snd (anchor_chain H a loc now live v)) = revoked k v" "revoked k (snd (reanchor W sg rec v)) = revoked k v"
  by (simp_all add: revoked_def)

lemma bootstrap_revoked:
  assumes "revoked k v" "bootstrap a v = (x, v1)"
  shows "revoked k v1 \<and> (\<forall>r. x = Inr r \<longrightarrow> is_revoked r k = Inr True)"
proof -
  from assms(1) obtain r0 where r0: "load_registry (registry_file v) = Inr r0" "is_revoked r0 k = Inr True"
    by (auto simp: revoked_def)
  show ?thesis
  proof (cases "current_key r0 = []")
    case True
    with r0 assms(2) have "x = Inr (adopt a r0)" "v1 = v\<lparr>registry_file := Some (registry_json (adopt a r0))\<rparr>"
      by (simp_all add: bootstrap_def)
    with r0 show ?thesis by simp
  next
    case False
    with r0 assms(2) have "x = Inr r0" "v1 = v" by (simp_all add: bootstrap_def)
    with r0 assms(1) show ?thesis by simp
  qed
qed

inductive vault_step :: "vault \<Rightarrow> vault \<Rightarrow> bool" where
  anchored: "vault_step v (snd (anchor_chain H a loc now live v))"
| rotated: "vault_step v (snd (rotate_anchor W a new reason v))"
| registered: "vault_step v (snd (register_recovery a key alg v))"
| recovered: "vault_step v (snd (recover_anchor W a rec reason v))"
| retired: "vault_step v (snd (revoke_anchor_key a key reason now v))"

lemma rotate_keeps_revoked: "revoked k v \<Longrightarrow> revoked k (snd (rotate_anchor W a new reason v))"
proof (cases "bootstrap a v")
  case (Pair x v1)
  assume "revoked k v"
  note boot = bootstrap_revoked [OF this Pair]
  show ?thesis
  proof (cases x)
    case (Inl e)
    with boot Pair \<open>revoked k v\<close> show ?thesis by (simp add: rotate_anchor_def split: option.split)
  next
    case (Inr r)
    have "is_revoked r' k = Inr True" if "rotate_registry sg j alg m t r = Inr (rec, r')" for sg j alg m t rec r'
      using revocation_stays(1) [OF _ that] boot Inr by simp
    then show ?thesis
      using boot Pair Inr \<open>revoked k v\<close> by (auto simp: rotate_anchor_def split: option.split sum.split)
  qed
qed

lemma register_keeps_revoked: "revoked k v \<Longrightarrow> revoked k (snd (register_recovery a key alg v))"
  using bootstrap_revoked [of k v a] revocation_stays(2)
  by (cases "bootstrap a v"; cases "fst (bootstrap a v)") (auto simp: register_recovery_def)

lemma recover_keeps_revoked: "revoked k v \<Longrightarrow> revoked k (snd (recover_anchor W a rec reason v))"
proof (cases "bootstrap a v")
  case (Pair x v1)
  assume "revoked k v"
  note boot = bootstrap_revoked [OF this Pair]
  show ?thesis
  proof (cases x)
    case (Inl e)
    with boot Pair show ?thesis by (simp add: recover_anchor_def)
  next
    case (Inr r)
    have "is_revoked r' k = Inr True" if "rotate_registry sg j alg m t r = Inr (rec, r')" for sg j alg m t rec r'
      using revocation_stays(1) [OF _ that] boot Inr by simp
    then show ?thesis
      using boot Pair Inr
      by (auto simp: recover_anchor_def split: option.split sum.split bool.split)
  qed
qed

lemma retire_keeps_revoked: "revoked k v \<Longrightarrow> revoked k (snd (revoke_anchor_key a key reason now v))"
proof (cases "bootstrap a v")
  case (Pair x v1)
  assume "revoked k v"
  note boot = bootstrap_revoked [OF this Pair]
  show ?thesis
  proof (cases x)
    case (Inl e)
    with boot Pair \<open>revoked k v\<close> show ?thesis by (simp add: revoke_anchor_key_def split: option.split)
  next
    case (Inr r)
    have "is_revoked r' k = Inr True" if "revoke_key sg j m t r = Inr (rec, r')" for sg j m t rec r'
      using revocation_stays(3) [OF _ that] boot Inr by simp
    then show ?thesis
      using boot Pair Inr \<open>revoked k v\<close>
      by (auto simp: revoke_anchor_key_def Let_def split: option.split sum.split bool.split)
  qed
qed

lemma step_keeps_revoked: "vault_step v v' \<Longrightarrow> revoked k v \<Longrightarrow> revoked k v'"
  by (induction rule: vault_step.induct)
    (auto intro: rotate_keeps_revoked register_keeps_revoked recover_keeps_revoked retire_keeps_revoked)

lemma run_keeps_revoked: "vault_step\<^sup>*\<^sup>* v v' \<Longrightarrow> revoked k v \<Longrightarrow> revoked k v'"
  by (induction rule: rtranclp_induct) (auto intro: step_keeps_revoked)

lemma revoked_key_refused:
  assumes "revoked k v" "anchor_file v = Some an" "field ''public_key'' an = Some (JStr (hex k))"
  shows "verify_anchor X H fromiso a live v \<noteq> Inr (Anchored n t d b)"
  using assms by (auto simp: verify_anchor_def revoked_def Let_def result_simps need_Inr_iff split: if_splits)

section \<open>Recovery\<close>

lemma reanchor_Inr:
  "reanchor W sg rn v = (Inr x, v') \<Longrightarrow>
   \<exists>c s. w_live W = Some c \<and> sg_sign sg (canon_ascii (snapshot_of (w_digest W) (w_path W) (w_now W) c)) = Some s \<and>
     v' = v\<lparr>anchor_file := Some (obj [(''snapshot'', snapshot_of (w_digest W) (w_path W) (w_now W) c),
       (''signature'', JStr (hex s)), (''public_key'', JStr (hex (sg_key sg))), (''key_algorithm'', JStr (sg_alg sg))])\<rparr>"
  by (auto simp: reanchor_def anchor_chain_Inr signing_anchor_def split: prod.splits sum.splits)

lemma recover_anchor_Inr:
  assumes "recover_anchor W a rec reason v = (Inr x, v')"
  obtains r v1 rn r' where "bootstrap a v = (Inr r, v1)" "recovery_key r = Some (sg_key rec)"
    "is_revoked r (sg_key rec) = Inr False"
    "rotate_registry rec (sg_key rec) (sg_alg rec) (if reason = [] then ''recovery: primary key lost'' else reason) (w_now W) r
       = Inr (rn, r')"
    "reanchor W rec rn (v1\<lparr>registry_file := Some (registry_json r')\<rparr>) = (Inr x, v')"
proof (cases "bootstrap a v")
  case (Pair b v1)
  with assms obtain r where b: "b = Inr r" by (cases b) (auto simp: recover_anchor_def)
  with assms Pair have k: "recovery_key r = Some (sg_key rec)"
    by (auto simp: recover_anchor_def split: option.splits if_splits)
  with assms Pair b have rv: "is_revoked r (sg_key rec) = Inr False"
    by (auto simp: recover_anchor_def split: sum.splits bool.splits)
  from assms Pair b k rv that show thesis
    by (auto simp: recover_anchor_def split: sum.splits prod.splits)
qed

section \<open>Properties\<close>


text \<open>C5: The anchored history cannot be replaced: let the accepted signatures of the verifying key be those over
  snapshots of the chains in \<open>signed\<close>, each of which verified (\<open>anchor\<close> itself does not check the chain it signs), let
  all payloads and the stored snapshot be well formed (finite floats, distinct string keys), and let the hash neither
  collide on the texts of the records nor send one to the genesis marker. Then a live chain that verifies and that its
  anchor covers holds, record by record, the content of one of the chains in \<open>signed\<close>.\<close>

theorem anchored_history_cannot_be_replaced:
  assumes "verify_anchor X H fromiso a (Some c) v = Inr (Anchored n t d b)" "verify_chain H c = Inr (Valid m)"
    and "\<And>s msg. verify_signature X msg s (ao_key a) (JStr (ao_alg a)) = Inr True \<Longrightarrow>
           \<exists>loc now e. e \<in> signed \<and> msg = canon_ascii (snapshot_of H loc now e)"
    and "\<And>e. e \<in> signed \<Longrightarrow> \<exists>k. verify_chain H e = Inr (Valid k)"
    and "\<And>an snap. anchor_file v = Some an \<Longrightarrow> field ''snapshot'' an = Some snap \<Longrightarrow> well_formed snap"
    and "\<And>e. e \<in> signed \<Longrightarrow> collision_free H (rows c @ rows e) \<and> (\<forall>q \<in> set (rows c @ rows e). well_formed (payload q))"
  shows "\<exists>e \<in> signed. map content (rows c) = map content (rows e)"
proof -
  from assms(1) obtain an snap sig r b' where an: "anchor_file v = Some an" "field ''snapshot'' an = Some snap"
    and sig: "verify_signature X (canon_ascii snap) sig (ao_key a) (JStr (ao_alg a)) = Inr True"
    and cmp: "compare_live H fromiso b' snap c = Inr (Anchored n t d b)" and dict: "is_obj snap"
    by (rule accepted_anchor) blast
  from assms(3) [OF sig] obtain loc now e where e: "e \<in> signed"
    and same: "canon_ascii snap = canon_ascii (snapshot_of H loc now e)" by blast
  have wf: "well_formed snap" using assms(5) an by blast
  from dict obtain kvs where kvs: "snap = JObj kvs" by (auto simp: is_obj_iff)
  obtain kws where kws: "snapshot_of H loc now e = JObj kws" by (simp add: snapshot_of_def)
  have wfe: "well_formed (JObj kws)" using snapshot_fields(7) [of H loc now e] unfolding kws .
  have "sort_keys (JObj kvs) = sort_keys (JObj kws)"
    using canon_ascii_inj [of "JObj kvs" "JObj kws"] same wf wfe unfolding kvs kws by blast
  moreover have "distinct (map fst kvs)" "distinct (map fst kws)"
    using wf wfe unfolding kvs by simp_all
  ultimately have "map_option sort_keys (map_of kvs (KStr ''tip_hash'')) = map_option sort_keys (map_of kws (KStr ''tip_hash''))"
    by (rule sort_keys_field)
  moreover have "map_of kvs (KStr ''tip_hash'') = Some (JStr (last_hash c))"
    using accepted_comparison(1) [OF cmp] kvs by simp
  moreover have "map_of kws (KStr ''tip_hash'') = Some (JStr (last_hash e))"
    using snapshot_fields(1) [of H loc now e] kws by simp
  ultimately have tips: "last_hash c = last_hash e" by simp
  from assms(4) [OF e] obtain k where "verify_chain H e = Inr (Valid k)" by blast
  with assms(2) tips assms(6) [OF e] have "map content (rows c) = map content (rows e)"
    by (intro same_tip_same_content [of H]) (simp_all add: verify_chain_valid last_hash_tip)
  with e show ?thesis by blast
qed

text \<open>C18: A revoked key stays revoked and its anchors stay refused: no rotation, recovery, registration, further
  revocation or new anchor makes the verifier accept an anchor under that key again.\<close>

theorem revoked_keys_never_verify_again:
  assumes "revoked k v" "vault_step\<^sup>*\<^sup>* v v'" "anchor_file v' = Some an" "field ''public_key'' an = Some (JStr (hex k))"
  shows "verify_anchor X H fromiso a live v' \<noteq> Inr (Anchored n t d b)"
  using revoked_key_refused [OF run_keeps_revoked] assms by blast

text \<open>After a recovery the chain is anchored by the recovery key, and the verifier that runs with the primary key
  refuses that anchor as tampered: it accepts the recovery key as authorized and then checks the signature under
  its own.\<close>

theorem recovered_anchor_fails_the_primary_verifier:
  assumes "recover_anchor W a rec reason v = (Inr x, v')" "sg_key rec \<noteq> []" "sg_key rec \<noteq> ao_key a" "sg_alg rec = ao_alg a"
    and "\<And>m s. sg_sign rec m = Some s \<Longrightarrow> verify_signature X m s (ao_key a) (JStr (ao_alg a)) = Inr False"
  shows "verify_anchor X H fromiso a live v' = Inr SignatureInvalid"
proof -
  from assms(1) obtain r v1 rn r' where r: "recovery_key r = Some (sg_key rec)" "is_revoked r (sg_key rec) = Inr False"
    and rot: "rotate_registry rec (sg_key rec) (sg_alg rec) (if reason = [] then ''recovery: primary key lost'' else reason) (w_now W) r
       = Inr (rn, r')"
    and re: "reanchor W rec rn (v1\<lparr>registry_file := Some (registry_json r')\<rparr>) = (Inr x, v')"
    by (rule recover_anchor_Inr)
  from reanchor_Inr [OF re] obtain c s where
    s: "sg_sign rec (canon_ascii (snapshot_of (w_digest W) (w_path W) (w_now W) c)) = Some s"
    and v': "v' = v1\<lparr>registry_file := Some (registry_json r'), anchor_file := Some (obj
       [(''snapshot'', snapshot_of (w_digest W) (w_path W) (w_now W) c), (''signature'', JStr (hex s)),
        (''public_key'', JStr (hex (sg_key rec))), (''key_algorithm'', JStr (sg_alg rec))])\<rparr>" by auto
  have r': "current_key r' = sg_key rec" "recovery_key r' = Some (sg_key rec)" "is_revoked r' (sg_key rec) = Inr False"
    using rot r by (auto simp: rotate_registry_Inr is_revoked_def)
  have "is_recovery (adopt a (tidy r')) (sg_key rec)" "is_revoked (adopt a (tidy r')) (sg_key rec) = Inr False"
    using r' assms(2) is_recovery_def [of r' "sg_key rec"] by simp_all
  then show ?thesis
    using assms(3,4) assms(5) [OF s] snapshot_fields(6)
    by (simp add: verify_anchor_def v' Let_def field_or_def)
qed

text \<open>A recovery orphans the history of the key it replaces: the record it writes endorses the recovery key by
  itself, so a primary key that took part in no earlier rotation is no longer registered, and neither the anchor
  nor the notary accepts its signatures.\<close>

theorem recovery_orphans_the_replaced_key:
  assumes "recover_anchor W a rec reason v = (Inr x, v')" "load_registry (registry_file v) = Inr r0"
    and "rotations r0 = JList vs" "list_all is_obj vs" "sg_key rec \<noteq> ao_key a"
    and "\<And>q. q \<in> set vs \<Longrightarrow> get ''from'' q \<noteq> JStr (hex (ao_key a)) \<and> get ''to'' q \<noteq> JStr (hex (ao_key a))"
  shows "\<exists>r'. load_registry (registry_file v') = Inr r' \<and> current_key r' = sg_key rec \<and>
     is_registered r' (ao_key a) = Inr False"
proof -
  from assms(1) obtain r v1 rn r' where boot: "bootstrap a v = (Inr r, v1)"
    and k: "recovery_key r = Some (sg_key rec)"
    and rot: "rotate_registry rec (sg_key rec) (sg_alg rec) (if reason = [] then ''recovery: primary key lost'' else reason) (w_now W) r
       = Inr (rn, r')"
    and re: "reanchor W rec rn (v1\<lparr>registry_file := Some (registry_json r')\<rparr>) = (Inr x, v')"
    by (rule recover_anchor_Inr)
  from boot have "r = adopt a r0" using assms(2) by (auto elim: bootstrap_Inr)
  then have rs: "rotations r = JList vs" using assms(3) by simp
  from rot rs obtain s where rec: "rn = set_field ''from_signature'' (JStr (hex s)) (rotation_body rec (sg_key rec) (sg_alg rec)
        (if reason = [] then ''recovery: primary key lost'' else reason) (w_now W))"
    and r': "rotations r' = JList (vs @ [rn])" "current_key r' = sg_key rec" "recovery_key r' = Some (sg_key rec)"
    using k by (auto simp: rotate_registry_Inr)
  have "get ''from'' rn = JStr (hex (sg_key rec))" "get ''to'' rn = JStr (hex (sg_key rec))" "is_obj rn"
    unfolding rec by (simp_all add: field_or_def rotation_record_fields)
  moreover have "\<not> list_ex (\<lambda>q. get ''from'' q = JStr (hex (ao_key a)) \<or> get ''to'' q = JStr (hex (ao_key a))) vs"
    using assms(6) by (auto simp: list_ex_iff)
  ultimately have "any_party (hex (ao_key a)) (vs @ [rn]) = Inr False"
    using any_party_total [of "vs @ [rn]"] assms(4,5) by (simp add: hex_inj)
  then have "is_registered r' (ao_key a) = Inr False"
    using r' assms(5) by (simp add: is_registered_def is_current_def is_recovery_def)
  moreover have "registry_file v' = Some (registry_json r')" using reanchor_registry [of W rec rn] re by (metis snd_conv vault.select_convs(2) vault.surjective vault.update_convs(2))
  ultimately show ?thesis using r'(2) by (intro exI [of _ "tidy r'"]) simp
qed

text \<open>A failing signature does not undo the append: the caller sees an error and the chain holds the record.\<close>

theorem unsigned_append_is_committed:
  assumes "append_anchored W env a cmp ev p (c, v) = (Inl e, c', v')" "e \<noteq> ChainRaised"
  shows "\<exists>r. rows c' = rows c @ [r] \<and> component r = cmp \<and> event_type r = ev \<and> v' = v"
proof -
  from assms obtain r where ap: "append_chain (w_digest W) (env\<lparr>anchored := True\<rparr>) cmp ev p c = (Inr r, c')"
    and an: "anchor_chain (w_digest W) a (w_path W) (w_now W) (Some c') v = (Inl e, v')"
    by (auto simp: append_anchored_def split: prod.splits sum.splits)
  have "v' = v" using an by (auto simp: anchor_chain_def Let_def split: option.splits)
  with append_chain_Inr [OF ap] show ?thesis by (intro exI [of _ "r\<lparr>payload := reload p\<rparr>"]) simp
qed

text \<open>The health check tells the truth about what it leaves behind: it exits with 0 only where the chain verifies
  and the anchor then on disk covers it freshly, and it writes a new anchor only over one that was merely stale.\<close>

theorem healthy_daemon_means_covered:
  assumes "verify_daemon W a auto v = (Inr rep, v')"
  shows "(dr_exit rep = 0 \<longrightarrow> (\<exists>c n vd. w_live W = Some c \<and> verify_chain (w_digest W) c = Inr (Valid n) \<and>
            verify_anchor (w_check W) (w_digest W) (w_iso W) a (w_live W) v' = Inr vd \<and> passes vd)) \<and>
         (v' \<noteq> v \<longrightarrow> auto \<and> dr_reanchored rep \<and>
            (\<exists>d. verify_anchor (w_check W) (w_digest W) (w_iso W) a (w_live W) v = Inr (Stale d)))"
proof (cases "w_live W")
  case None
  with assms show ?thesis by (auto simp: verify_daemon_def)
next
  case (Some c)
  with assms obtain iv where iv: "verify_chain (w_digest W) c = Inr iv"
    by (cases "verify_chain (w_digest W) c") (simp_all add: verify_daemon_def)
  from assms Some iv obtain vd where vd: "verify_anchor (w_check W) (w_digest W) (w_iso W) a (w_live W) v = Inr vd"
    by (cases "verify_anchor (w_check W) (w_digest W) (w_iso W) a (w_live W) v") (simp_all add: verify_daemon_def)
  show ?thesis
  proof (cases "auto \<and> (\<exists>n. iv = Valid n) \<and> is_stale vd")
    case False
    with assms Some iv vd have "v' = v" "rep = daemon_report_of (case iv of Valid n \<Rightarrow> True | Broken s why \<Rightarrow> False) vd False"
      by (auto simp: verify_daemon_def split: verdict.splits if_splits)
    with Some iv vd show ?thesis by (auto simp: daemon_report_of_def split: verdict.splits if_splits)
  next
    case True
    with assms Some iv vd obtain vd' where
      "verify_anchor (w_check W) (w_digest W) (w_iso W) a (w_live W) v' = Inr vd'" "rep = daemon_report_of True vd' True"
      by (auto simp: verify_daemon_def split: prod.splits sum.splits)
    with Some iv vd True show ?thesis
      by (auto simp: daemon_report_of_def is_stale_def split: if_splits anchor_verdict.splits)
  qed
qed

section \<open>Witnesses\<close>

definition toy_check :: signature_check where
  "toy_check alg key sig msg \<longleftrightarrow> sig = key @ msg"

definition toy_signer :: "string \<Rightarrow> signer" where
  "toy_signer k = \<lparr>sg_key = k, sg_alg = ED25519, sg_sign = (\<lambda>m. Some (k @ m))\<rparr>"

definition toy_world :: "chain \<Rightarrow> world" where
  "toy_world c = \<lparr>w_check = toy_check, w_digest = (\<lambda>s. s), w_iso = (\<lambda>s. None), w_path = ''/db'', w_now = ''now'', w_live = Some c\<rparr>"

definition new_vault :: vault where
  "new_vault = \<lparr>anchor_file = None, registry_file = None\<rparr>"

lemma toy_honest: "honest toy_check (toy_signer k)"
  by (simp add: honest_def verify_signature_def toy_check_def toy_signer_def)

lemma no_registry [simp]: "load_registry None = Inr empty_registry"
  by (simp add: load_registry_def)

lemma toy_usable: "k \<noteq> [] \<Longrightarrow> usable (signing_anchor (toy_signer k)) None"
  by (simp add: usable_def empty_registry_def is_current_def adopt_def is_revoked_def
      signing_anchor_def toy_signer_def)


definition retired_vault :: vault where
  \<comment> \<open>an anchor under the key \<open>k\<close>, then the key revoked\<close>
  "retired_vault = snd (revoke_anchor_key (signing_anchor (toy_signer ''k'')) None ''lost'' ''now''
     (snd (anchor_chain (\<lambda>s. s) (signing_anchor (toy_signer ''k'')) ''/db'' ''now'' (Some empty_chain) new_vault)))"

lemma retired_vault:
  "revoked ''k'' retired_vault" "\<exists>an. anchor_file retired_vault = Some an \<and> field ''public_key'' an = Some (JStr (hex ''k''))"
  by (simp_all add: retired_vault_def revoke_anchor_key_def signing_anchor_def toy_signer_def new_vault_def bootstrap_def
      anchor_chain_def empty_registry_def Let_def is_current_def adopt_def revoke_key_def
      is_revoked_def revocation_body_def revoked_def)

theorem revoked_keys_never_verify_again_witness:
  "verify_anchor toy_check (\<lambda>s. s) (\<lambda>s. None) (signing_anchor (toy_signer ''k'')) (Some empty_chain) retired_vault
     \<noteq> Inr (Anchored 0 genesis_hash 0 False)"
  using revoked_keys_never_verify_again [OF retired_vault(1) rtranclp.rtrancl_refl] retired_vault(2) by blast

definition strict_check :: "chain \<Rightarrow> signature_check" where
  \<comment> \<open>accepts one signature only: that over the snapshot of \<open>e\<close>\<close>
  "strict_check e alg key sig msg \<longleftrightarrow> sig = key @ msg \<and> msg = canon_ascii (snapshot_of (\<lambda>s. s) ''/db'' ''now'' e)"

definition strict_signer :: "chain \<Rightarrow> signer" where
  "strict_signer e = \<lparr>sg_key = ''k'', sg_alg = ED25519,
     sg_sign = (\<lambda>m. if m = canon_ascii (snapshot_of (\<lambda>s. s) ''/db'' ''now'' e) then Some (''k'' @ m) else None)\<rparr>"

lemma one_record_chain:
  obtains c where "length (rows c) = 1" "verify_chain (\<lambda>s. s) c = Inr (Valid 1)"
    "collision_free (\<lambda>s. s) (rows c @ rows c)" "\<forall>r \<in> set (rows c @ rows c). well_formed (payload r)"
proof -
  obtain r c where a: "append_chain (\<lambda>s. s) quiet_env ''c'' ''e'' (JObj []) empty_chain = (Inr r, c)"
    using quiet_sink(1) [OF empty_chain_ready(1) _ _ empty_chain_ready(2), of "JObj []"] by fastforce
  have rows: "rows c = [r\<lparr>payload := JObj []\<rparr>]" using append_chain_Inr(1) [OF a] by (simp add: empty_chain_def)
  show thesis
  proof (rule that)
    show "verify_chain (\<lambda>s. s) c = Inr (Valid 1)"
      using append_chained [OF _ a stable_well_formed] rows by (simp add: verify_chain_valid empty_chain_def)
  qed (simp_all add: rows collision_free_def hex_preimage_not_genesis)
qed

theorem anchored_history_cannot_be_replaced_witness:
  "\<exists>c v t b. length (rows c) = 1 \<and>
     verify_anchor (strict_check c) (\<lambda>s. s) (\<lambda>s. None) (signing_anchor (strict_signer c)) (Some c) v = Inr (Anchored 1 t 0 b) \<and>
     (\<exists>e \<in> {c}. map content (rows c) = map content (rows e))"
proof -
  obtain c where c: "length (rows c) = 1" "verify_chain (\<lambda>s. s) c = Inr (Valid 1)"
    "collision_free (\<lambda>s. s) (rows c @ rows c)" "\<forall>r \<in> set (rows c @ rows c). well_formed (payload r)"
    by (rule one_record_chain)
  let ?a = "signing_anchor (strict_signer c)" and ?X = "strict_check c"
  obtain rec v where an: "anchor_chain (\<lambda>s. s) ?a ''/db'' ''now'' (Some c) new_vault = (Inr rec, v)"
    by (simp add: anchor_chain_def signing_anchor_def strict_signer_def Let_def)
  have "honest ?X (strict_signer c)" by (simp add: honest_def verify_signature_def strict_check_def strict_signer_def)
  moreover have "usable ?a (registry_file new_vault)"
    by (simp add: usable_def empty_registry_def is_current_def adopt_def is_revoked_def
        signing_anchor_def strict_signer_def new_vault_def)
  moreover have "newer_than_anchor (\<lambda>s. None) c (JStr ''now'') = Inr 0" by (simp add: newer_than_anchor_def)
  ultimately obtain b where v: "verify_anchor ?X (\<lambda>s. s) (\<lambda>s. None) ?a (Some c) v = Inr (Anchored 1 (last_hash c) 0 b)"
    using fresh_anchor_verifies [OF an, of ?X "\<lambda>s. None" 0] c(1) by auto
  have stored: "anchor_file v = Some rec" "field ''snapshot'' rec = Some (snapshot_of (\<lambda>s. s) ''/db'' ''now'' c)"
    using an by (auto simp: anchor_chain_Inr)
  have "\<exists>e \<in> {c}. map content (rows c) = map content (rows e)"
  proof (rule anchored_history_cannot_be_replaced [OF v c(2)])
    show "\<exists>loc now e. e \<in> {c} \<and> msg = canon_ascii (snapshot_of (\<lambda>s. s) loc now e)"
      if "verify_signature ?X msg s (ao_key ?a) (JStr (ao_alg ?a)) = Inr True" for s msg
      using that by (auto simp: verify_signature_def strict_check_def signing_anchor_def strict_signer_def)
    show "well_formed snap" if "anchor_file v = Some an" "field ''snapshot'' an = Some snap" for an snap
      using that stored snapshot_fields(7) by auto
  qed (use c in auto)
  with c(1) v show ?thesis by blast
qed

definition before_recovery :: vault where
  "before_recovery = \<lparr>anchor_file = None,
     registry_file = Some (registry_json (empty_registry\<lparr>current_key := ''p'', recovery_key := Some ''r''\<rparr>))\<rparr>"

lemma recovery_runs:
  obtains x v' where "recover_anchor (toy_world empty_chain) (signing_anchor (toy_signer ''p'')) (toy_signer ''r'') [] before_recovery
    = (Inr x, v')"
proof -
  define r where "r = empty_registry\<lparr>current_key := ''p'', recovery_key := Some ''r''\<rparr>"
  have "bootstrap (signing_anchor (toy_signer ''p'')) before_recovery = (Inr r, before_recovery)"
    by (simp add: bootstrap_def before_recovery_def r_def tidy_def)
  moreover have "is_revoked r ''r'' = Inr False" by (simp add: r_def is_revoked_def empty_registry_def)
  moreover obtain q r' where "rotate_registry (toy_signer ''r'') ''r'' ED25519 ''recovery: primary key lost'' ''now'' r = (Inr (q, r'))"
    and "revocations r' = JList []" "current_key r' = ''r''"
    by (simp add: rotate_registry_def toy_signer_def Let_def r_def empty_registry_def)
  moreover have "\<exists>x v'. reanchor (toy_world empty_chain) (toy_signer ''r'') q (before_recovery\<lparr>registry_file := Some (registry_json r')\<rparr>)
      = (Inr x, v')"
  proof -
    let ?v = "before_recovery\<lparr>registry_file := Some (registry_json r')\<rparr>"
    obtain rec v' where an: "anchor_chain (\<lambda>s. s) (signing_anchor (toy_signer ''r'')) ''/db'' ''now'' (Some empty_chain) ?v = (Inr rec, v')"
      by (simp add: anchor_chain_def signing_anchor_def toy_signer_def Let_def)
    have "usable (signing_anchor (toy_signer ''r'')) (registry_file ?v)"
      using \<open>revocations r' = JList []\<close> \<open>current_key r' = ''r''\<close>
      by (simp add: usable_def is_current_def adopt_def is_revoked_def signing_anchor_def toy_signer_def)
    moreover have "newer_than_anchor (\<lambda>s. None) empty_chain (JStr ''now'') = Inr 0" by (simp add: newer_than_anchor_def)
    ultimately show ?thesis
      using fresh_anchor_verifies [OF an toy_honest] an by (fastforce simp: reanchor_def toy_world_def)
  qed
  ultimately show thesis
    using that by (fastforce simp: recover_anchor_def toy_signer_def toy_world_def r_def)
qed

theorem recovered_anchor_fails_the_primary_verifier_witness:
  "\<exists>v'. verify_anchor toy_check (\<lambda>s. s) (\<lambda>s. None) (signing_anchor (toy_signer ''p'')) (Some empty_chain) v' = Inr SignatureInvalid"
proof -
  obtain x v' where r: "recover_anchor (toy_world empty_chain) (signing_anchor (toy_signer ''p'')) (toy_signer ''r'') [] before_recovery
    = (Inr x, v')" by (rule recovery_runs)
  have "verify_anchor toy_check (\<lambda>s. s) (\<lambda>s. None) (signing_anchor (toy_signer ''p'')) (Some empty_chain) v' = Inr SignatureInvalid"
    by (rule recovered_anchor_fails_the_primary_verifier [OF r])
      (auto simp: signing_anchor_def toy_signer_def verify_signature_def toy_check_def)
  then show ?thesis by blast
qed

theorem recovery_orphans_the_replaced_key_witness:
  "\<exists>r'. current_key r' = ''r'' \<and> is_registered r' ''p'' = Inr False"
proof -
  obtain x v' where r: "recover_anchor (toy_world empty_chain) (signing_anchor (toy_signer ''p'')) (toy_signer ''r'') [] before_recovery
    = (Inr x, v')" by (rule recovery_runs)
  have "load_registry (registry_file before_recovery) = Inr (empty_registry\<lparr>current_key := ''p'', recovery_key := Some ''r''\<rparr>)"
    by (simp add: before_recovery_def tidy_def)
  from recovery_orphans_the_replaced_key [OF r this, of "[]"] show ?thesis
    by (auto simp: empty_registry_def signing_anchor_def toy_signer_def)
qed

theorem unsigned_append_is_committed_witness:
  "\<exists>c'. length (rows c') = 1 \<and> append_anchored (toy_world empty_chain) quiet_env
     (signing_anchor ((toy_signer ''k'')\<lparr>sg_sign := (\<lambda>m. None)\<rparr>)) ''c'' ''e'' (JObj []) (empty_chain, new_vault) = (Inl SignerDown, c', new_vault)"
proof -
  have "\<exists>r c'. append_chain (\<lambda>s. s) (quiet_env\<lparr>anchored := True\<rparr>) ''c'' ''e'' (JObj []) empty_chain = (Inr r, c')"
    by (rule append_chain_ok; simp add: quiet_env_def refuse_keyless_def default_storage_def
        assert_write_allowed_def storage_state_of_def read_state_def override_active_def latched_def
        derived_state_def state_from_ratio_def free_ratio_def Let_def empty_chain_ready)
  then obtain c' where a: "append_anchored (toy_world empty_chain) quiet_env
     (signing_anchor ((toy_signer ''k'')\<lparr>sg_sign := (\<lambda>m. None)\<rparr>)) ''c'' ''e'' (JObj []) (empty_chain, new_vault) = (Inl SignerDown, c', new_vault)"
    by (auto simp: append_anchored_def toy_world_def anchor_chain_def signing_anchor_def)
  from unsigned_append_is_committed [OF a] have "length (rows c') = 1" by (auto simp: empty_chain_def)
  with a show ?thesis by blast
qed

theorem healthy_daemon_means_covered_witness:
  "\<exists>v rep vd. verify_daemon (toy_world empty_chain) (signing_anchor (toy_signer ''k'')) True v = (Inr rep, v) \<and> dr_exit rep = 0 \<and>
     verify_anchor toy_check (\<lambda>s. s) (\<lambda>s. None) (signing_anchor (toy_signer ''k'')) (Some empty_chain) v = Inr vd \<and> passes vd"
proof -
  obtain rec v where an: "anchor_chain (\<lambda>s. s) (signing_anchor (toy_signer ''k'')) ''/db'' ''now'' (Some empty_chain) new_vault = (Inr rec, v)"
    by (simp add: anchor_chain_def signing_anchor_def toy_signer_def Let_def)
  have "usable (signing_anchor (toy_signer ''k'')) (registry_file new_vault)" by (simp add: new_vault_def toy_usable)
  moreover have "newer_than_anchor (\<lambda>s. None) empty_chain (JStr ''now'') = Inr 0" by (simp add: newer_than_anchor_def)
  ultimately obtain n t b where
    v: "verify_anchor toy_check (\<lambda>s. s) (\<lambda>s. None) (signing_anchor (toy_signer ''k'')) (Some empty_chain) v = Inr (Anchored n t 0 b)"
    using fresh_anchor_verifies [OF an toy_honest] by blast
  have "verify_chain (\<lambda>s. s) empty_chain = Inr (Valid 0)" by (simp add: verify_chain_def empty_chain_def)
  with v obtain rep where d: "verify_daemon (toy_world empty_chain) (signing_anchor (toy_signer ''k'')) True v = (Inr rep, v)"
    and "dr_exit rep = 0"
    by (simp add: verify_daemon_def toy_world_def is_stale_def daemon_report_of_def passes_def)
  with healthy_daemon_means_covered [OF d] show ?thesis by (auto simp: toy_world_def)
qed

end
