(* ===== verification/Ledger_Timestamp.thy ===== *)
theory Ledger_Timestamp
  imports Ledger_Keys
begin

text \<open>
  Provable time for notary entries (\<^verbatim>\<open>src/src/msb_ledger/timestamping.py\<close>): the local
  receive time, and the RFC 3161 client with its checks on the token a time-stamping authority returns. ASN.1
  decoding and the signature primitives belong to libraries: a response is what the decoder yields, the verdict of
  the public-key primitive a parameter. Notes and the serial number are left out.
\<close>

section \<open>Proofs\<close>

record timestamp_proof =
  tp_source :: json
  tp_digest :: json
  tp_tsa_url :: json
  tp_gen_time :: json
  tp_received_at :: json
  tp_token :: json
  tp_verified :: json
  tp_note :: json

definition local_proof :: "string \<Rightarrow> string \<Rightarrow> timestamp_proof" where
  \<comment> \<open>digest (hexadecimal), clock\<close>
  "local_proof digest now = \<lparr>tp_source = JStr ''receive_time'', tp_digest = JStr digest, tp_tsa_url = JNull, tp_gen_time = JNull,
     tp_received_at = JStr now, tp_token = JNull, tp_verified = JBool False, tp_note = JStr ''''\<rparr>"

definition proof_json :: "timestamp_proof \<Rightarrow> json" where
  \<comment> \<open>\<^verbatim>\<open>to_dict\<close>\<close>
  "proof_json p = obj
     [(''source'', tp_source p), (''digest_sha256'', tp_digest p), (''tsa_url'', tp_tsa_url p), (''gen_time'', tp_gen_time p),
      (''received_at'', tp_received_at p), (''token_b64'', tp_token p), (''verified'', tp_verified p), (''note'', tp_note p)]"

definition proof_of_json :: "json \<Rightarrow> (anchor_error, timestamp_proof) result" where
  \<comment> \<open>\<^verbatim>\<open>from_dict\<close>: the two fields without a default are required (TypeError)\<close>
  "proof_of_json d =
     bind_result (need ''source'' d) (\<lambda>src. bind_result (need ''digest_sha256'' d) (\<lambda>dg.
       Inr \<lparr>tp_source = src, tp_digest = dg, tp_tsa_url = get ''tsa_url'' d, tp_gen_time = get ''gen_time'' d,
            tp_received_at = get ''received_at'' d, tp_token = get ''token_b64'' d,
            tp_verified = field_or ''verified'' (JBool False) d, tp_note = field_or ''note'' (JStr '''') d\<rparr>))"

section \<open>Tokens\<close>

record tsa_cert =
  tc_issuer :: string
  tc_serial :: int
  tc_ski :: "string option"
  tc_key :: string                \<comment> \<open>the subject's public key, DER\<close>
  tc_window :: "(rat \<times> rat) option"      \<comment> \<open>validity; None where it does not parse\<close>

datatype signer_id = IssuerSerial string int | KeyId string | OtherId

record signer_info =
  si_sid :: signer_id
  si_attrs :: "(string \<times> string) list option"    \<comment> \<open>signed attributes: object identifier and value\<close>
  si_signature :: string
  si_alg :: string

record tst_token =
  tk_content_type :: string           \<comment> \<open>of the encapsulated content\<close>
  tk_content :: string                \<comment> \<open>the DER of the TSTInfo\<close>
  tk_imprint :: string
  tk_nonce :: "int option"
  tk_gen_time :: rat
  tk_certs :: "tsa_cert list"
  tk_signers :: "signer_info list"

datatype tsa_response =
    Undecodable
  | Response string "tst_token option"   \<comment> \<open>status; the token, None where missing or not SignedData\<close>

datatype stamp_error = Unavailable | VerificationFailed | Crashed

definition ID_CT_TSTINFO :: string where "ID_CT_TSTINFO = ''1.2.840.113549.1.9.16.1.4''"
definition ATTR_CONTENT_TYPE :: string where "ATTR_CONTENT_TYPE = ''1.2.840.113549.1.9.3''"
definition ATTR_MESSAGE_DIGEST :: string where "ATTR_MESSAGE_DIGEST = ''1.2.840.113549.1.9.4''"

definition select_signer_cert :: "tst_token \<Rightarrow> signer_info \<Rightarrow> tsa_cert option" where
  "select_signer_cert t si = (case si_sid si of
     IssuerSerial iss n \<Rightarrow> find (\<lambda>c. tc_serial c = n \<and> tc_issuer c = iss) (tk_certs t)
   | KeyId k \<Rightarrow> find (\<lambda>c. tc_ski c = Some k) (tk_certs t)
   | OtherId \<Rightarrow> None)"

definition verify_cms_signature ::
  "(string \<Rightarrow> string \<Rightarrow> string \<Rightarrow> string \<Rightarrow> bool) \<Rightarrow> string \<Rightarrow> string \<Rightarrow> string \<Rightarrow> string \<Rightarrow> (stamp_error, bool) result" where
  \<comment> \<open>the parameter: algorithm, key, signature, signed attributes; False also where the key is of another kind\<close>
  "verify_cms_signature X key sig attrs alg =
     (if alg \<in> {''rsassa_pkcs1v15'', ''rsassa_pss'', ''ecdsa'', ''ed25519''} then Inr (X alg key sig attrs)
      else Inl VerificationFailed)"

record stamp_world =
  sw_digest :: "string \<Rightarrow> string"
  sw_verify :: "string \<Rightarrow> string \<Rightarrow> string \<Rightarrow> string \<Rightarrow> bool"
  sw_attrs_der :: "(string \<times> string) list \<Rightarrow> string"
  sw_time_text :: "rat \<Rightarrow> string"
  sw_token_text :: "tst_token \<Rightarrow> string"
  sw_url :: string
  sw_now :: string

definition validate_response ::
  "stamp_world \<Rightarrow> tsa_response \<Rightarrow> string \<Rightarrow> int \<Rightarrow> (stamp_error, timestamp_proof) result" where
  \<comment> \<open>the second argument is the content that was stamped\<close>
  "validate_response S resp contents nonce = (case resp of
     Undecodable \<Rightarrow> Inl VerificationFailed
   | Response status tok \<Rightarrow>
       guard_result (status = ''granted'') Unavailable (case tok of
         None \<Rightarrow> Inl VerificationFailed
       | Some t \<Rightarrow>
         guard_result (tk_content_type t = ID_CT_TSTINFO) VerificationFailed (
         guard_result (tk_imprint t = sw_digest S contents) VerificationFailed (
         guard_result (tk_nonce t = Some nonce) VerificationFailed (case tk_signers t of
           [] \<Rightarrow> Inl VerificationFailed
         | si # rest \<Rightarrow> (case select_signer_cert t si of
             None \<Rightarrow> Inl VerificationFailed
           | Some cert \<Rightarrow> (case si_attrs si of
               None \<Rightarrow> Inl VerificationFailed
             | Some attrs \<Rightarrow>
               guard_result (map_of attrs ATTR_MESSAGE_DIGEST = Some (sw_digest S (tk_content t))) VerificationFailed (
               guard_result (map_of attrs ATTR_CONTENT_TYPE = Some ID_CT_TSTINFO) VerificationFailed (
               bind_result (verify_cms_signature (sw_verify S) (tc_key cert) (si_signature si) (sw_attrs_der S attrs) (si_alg si)) (\<lambda>ok.
               guard_result ok VerificationFailed (case tc_window cert of
                 None \<Rightarrow> Inl VerificationFailed
               | Some (lo, hi) \<Rightarrow>
                 guard_result (lo \<le> tk_gen_time t \<and> tk_gen_time t \<le> hi) VerificationFailed (
                 Inr \<lparr>tp_source = JStr ''rfc3161'', tp_digest = JStr (hex (sw_digest S contents)), tp_tsa_url = JStr (sw_url S),
                      tp_gen_time = JStr (sw_time_text S (tk_gen_time t)), tp_received_at = JStr (sw_now S),
                      tp_token = JStr (sw_token_text S t), tp_verified = JBool True, tp_note = JStr ''''\<rparr>))))))))))))"

datatype transport = Unreachable | Http nat bool tsa_response     \<comment> \<open>status, whether the body is empty, what it decodes to\<close>

definition stamp :: "stamp_world \<Rightarrow> bool \<Rightarrow> transport \<Rightarrow> int \<Rightarrow> string \<Rightarrow> (stamp_error, timestamp_proof) result" where
  "stamp S fallback sent nonce contents =
     (let fb = local_proof (hex (sw_digest S contents)) (sw_now S) in case sent of
        Unreachable \<Rightarrow> (if fallback then Inr fb else Inl Unavailable)
      | Http status blank resp \<Rightarrow>
          (if status \<noteq> 200 \<or> blank then (if fallback then Inr fb else Inl Unavailable)
           else (case validate_response S resp contents nonce of
                   Inr p \<Rightarrow> Inr p
                 | Inl e \<Rightarrow> (if fallback then Inr fb else Inl e))))"

lemma local_proof_fields [simp]:
  "tp_source (local_proof d now) = JStr ''receive_time''" "tp_digest (local_proof d now) = JStr d"
  "tp_verified (local_proof d now) = JBool False"
  by (simp_all add: local_proof_def)

lemma proof_round_trip: "proof_of_json (proof_json p) = Inr p"
  by (simp add: proof_of_json_def proof_json_def field_or_def)

section \<open>Properties\<close>

text \<open>A stamp is never an unverified third-party proof: what the client returns covers the content it was given, and
  where it names the authority the token was granted, echoes the nonce, imprints the content's digest and carries a
  signature by a certificate the token holds, valid at the stated time; otherwise it is the local receive time, which
  needs the fallback to be allowed.\<close>

theorem stamps_are_verified_or_local:
  assumes "stamp S fallback sent nonce contents = Inr p"
  shows "tp_digest p = JStr (hex (sw_digest S contents)) \<and>
    ((fallback \<and> p = local_proof (hex (sw_digest S contents)) (sw_now S)) \<or>
     (tp_source p = JStr ''rfc3161'' \<and> tp_verified p = JBool True \<and>
      (\<exists>t si cert attrs lo hi. sent = Http 200 False (Response ''granted'' (Some t)) \<and>
         tk_imprint t = sw_digest S contents \<and> tk_nonce t = Some nonce \<and> si = hd (tk_signers t) \<and>
         cert \<in> set (tk_certs t) \<and> si_attrs si = Some attrs \<and>
         map_of attrs ATTR_MESSAGE_DIGEST = Some (sw_digest S (tk_content t)) \<and>
         sw_verify S (si_alg si) (tc_key cert) (si_signature si) (sw_attrs_der S attrs) \<and>
         tc_window cert = Some (lo, hi) \<and> lo \<le> tk_gen_time t \<and> tk_gen_time t \<le> hi)))"
proof (cases "fallback \<and> p = local_proof (hex (sw_digest S contents)) (sw_now S)")
  case False
  with assms obtain resp where sent: "sent = Http 200 False resp" and v: "validate_response S resp contents nonce = Inr p"
    by (auto simp: stamp_def Let_def split: transport.splits if_splits sum.splits)
  from v obtain t where resp: "resp = Response ''granted'' (Some t)"
    by (auto simp: validate_response_def result_simps split: tsa_response.splits option.splits)
  from v resp obtain si rest where si: "tk_signers t = si # rest"
    by (auto simp: validate_response_def result_simps split: list.splits)
  from v resp si obtain cert where cert: "select_signer_cert t si = Some cert"
    by (auto simp: validate_response_def result_simps split: option.splits)
  then have "cert \<in> set (tk_certs t)"
    by (auto simp: select_signer_cert_def find_Some_iff split: signer_id.splits)
  with v resp si cert sent show ?thesis
    by (auto simp: validate_response_def result_simps verify_cms_signature_def split: option.splits prod.splits if_splits)
qed simp

text \<open>A response without certificates never verifies. The request asks the authority to leave its certificates out,
  so the token of an authority that honours the request is refused.\<close>

theorem tokens_without_certificates_are_refused:
  assumes "tk_certs t = []"
  shows "\<exists>e. stamp S False (Http 200 False (Response status (Some t))) nonce contents = Inl e"
  using assms
  by (auto simp: stamp_def validate_response_def guard_result_def select_signer_cert_def
      split: list.splits signer_id.splits)

definition toy_stamp_world :: stamp_world where
  "toy_stamp_world = \<lparr>sw_digest = (\<lambda>s. s), sw_verify = (\<lambda>alg key sig attrs. sig = key @ attrs), sw_attrs_der = (\<lambda>a. concat (map snd a)),
     sw_time_text = (\<lambda>t. ''time''), sw_token_text = (\<lambda>t. ''token''), sw_url = ''tsa'', sw_now = ''now''\<rparr>"

definition toy_token :: tst_token where
  "toy_token = \<lparr>tk_content_type = ID_CT_TSTINFO, tk_content = ''info'', tk_imprint = ''doc'', tk_nonce = Some 7, tk_gen_time = 5,
     tk_certs = [\<lparr>tc_issuer = ''ca'', tc_serial = 1, tc_ski = None, tc_key = ''K'', tc_window = Some (0, 9)\<rparr>],
     tk_signers = [\<lparr>si_sid = IssuerSerial ''ca'' 1,
       si_attrs = Some [(ATTR_MESSAGE_DIGEST, ''info''), (ATTR_CONTENT_TYPE, ID_CT_TSTINFO)],
       si_signature = ''K'' @ ''info'' @ ID_CT_TSTINFO, si_alg = ''ed25519''\<rparr>]\<rparr>"

theorem stamps_are_verified_or_local_witness:
  "\<exists>p. stamp toy_stamp_world False (Http 200 False (Response ''granted'' (Some toy_token))) 7 ''doc'' = Inr p \<and>
     tp_source p = JStr ''rfc3161'' \<and> tp_digest p = JStr (hex ''doc'')"
proof -
  obtain p where p: "stamp toy_stamp_world False (Http 200 False (Response ''granted'' (Some toy_token))) 7 ''doc'' = Inr p"
    by (simp add: stamp_def validate_response_def toy_stamp_world_def toy_token_def select_signer_cert_def
        verify_cms_signature_def ATTR_MESSAGE_DIGEST_def ATTR_CONTENT_TYPE_def ID_CT_TSTINFO_def)
  with stamps_are_verified_or_local [OF p] show ?thesis by (auto simp: toy_stamp_world_def)
qed

theorem tokens_without_certificates_are_refused_witness:
  "\<exists>e. stamp toy_stamp_world False (Http 200 False (Response ''granted'' (Some (toy_token\<lparr>tk_certs := []\<rparr>)))) 7 ''doc'' = Inl e"
  by (rule tokens_without_certificates_are_refused) simp

end
