(* ===== verification/Ledger_Notary.thy ===== *)
theory Ledger_Notary
  imports Ledger_Anchor Ledger_Timestamp
begin

text \<open>
  The notary of the chain anchor: notary entries and their verification (\<^verbatim>\<open>chain_anchor.py\<close>)
  and the service that keeps a local log and mirrors it to a remote sink
  (\<^verbatim>\<open>src/src/msb_ledger/notary.py\<close>). The local log is the list of its non-blank lines, a
  remote object its name and content; a line or content is its decoded JSON, \<open>None\<close> where it does not decode.
  How a sink answers (what it lists, which pushes it accepts, which objects it reads) is part of its environment.
\<close>

section \<open>Entries\<close>

datatype entry_check =
    NoSnapshot
  | UnregisteredKey
  | BadSignature
  | NotInChain
  | NotCovered
  | Unverified
  | EntryValid json json "json option"     \<comment> \<open>tip, record count, source of the timestamp\<close>

fun optional_hex :: "json \<Rightarrow> (anchor_error, string) result" where
  \<comment> \<open>\<^verbatim>\<open>bytes.fromhex(v) if isinstance(v, str) else b""\<close>\<close>
  "optional_hex (JStr s) = unhex (JStr s)"
| "optional_hex _ = Inr []"

definition has_tip :: "chain \<Rightarrow> json \<Rightarrow> bool" where
  "has_tip c tip = list_ex (\<lambda>r. JStr (record_hash r) = tip) (rows c)"

definition check_timestamp :: "(string \<Rightarrow> string) \<Rightarrow> json \<Rightarrow> json \<Rightarrow> json \<Rightarrow> (anchor_error, entry_check) result" where
  \<comment> \<open>tip, record count, entry\<close>
  "check_timestamp H tip n entry =
     (let ts = get ''timestamp'' entry in
      if is_obj ts \<and> truthy (get ''digest_sha256'' ts) then
        bind_result (proof_of_json ts) (\<lambda>p.
          if tp_digest p \<noteq> JStr (hex (H (canon_ascii (without ''timestamp'' entry)))) then Inr NotCovered
          else if tp_source p = JStr ''rfc3161'' \<and> \<not> truthy (tp_verified p) then Inr Unverified
          else Inr (EntryValid tip n (Some (tp_source p))))
      else Inr (EntryValid tip n None))"

definition verify_notary_entry ::
  "signature_check \<Rightarrow> (string \<Rightarrow> string) \<Rightarrow> anchor_obj \<Rightarrow> chain \<Rightarrow> json option \<Rightarrow> json \<Rightarrow> (anchor_error, entry_check) result" where
  "verify_notary_entry X H a c reg entry =
     guard_result (is_obj entry) Malformed
      (let an = get ''anchor'' entry in
       if \<not> is_obj an \<or> field ''snapshot'' an = None then Inr NoSnapshot
       else (let snap = get ''snapshot'' an in
         bind_result (optional_hex (get ''signature'' an)) (\<lambda>sig.
         bind_result (optional_hex (get ''public_key'' an)) (\<lambda>pub.
         bind_result (load_registry reg) (\<lambda>r0.
         bind_result (is_registered (adopt a r0) pub) (\<lambda>known.
           if \<not> known then Inr UnregisteredKey
           else if verify_signature X (canon_ascii snap) sig pub (field_or ''key_algorithm'' (JStr ED25519) an) \<noteq> Inr True
           then Inr BadSignature       \<comment> \<open>an unsupported algorithm counts as invalid\<close>
           else guard_result (is_obj snap) Malformed
             (let tip = field_or ''tip_hash'' (JStr []) snap in
              if \<not> has_tip c tip then Inr NotInChain
              else check_timestamp H tip (get ''record_count'' snap) entry)))))))"

definition build_notary_entry :: "world \<Rightarrow> anchor_obj \<Rightarrow> vault \<Rightarrow> (anchor_error, json) result \<times> vault" where
  "build_notary_entry W a v =
     (let entry = (\<lambda>an. obj [(''notarized_at'', JStr (w_now W)), (''anchor'', an)]) in
      case anchor_file v of
        Some an \<Rightarrow> (Inr (entry an), v)
      | None \<Rightarrow> (case anchor_chain (w_digest W) a (w_path W) (w_now W) (w_live W) v of
                   (Inl e, v') \<Rightarrow> (Inl e, v')
                 | (Inr an, v') \<Rightarrow> (Inr (entry an), v')))"

datatype log_check = LogMissing | LogEmpty | LastUnreadable | LastChecked entry_check nat

definition verify_notary ::
  "signature_check \<Rightarrow> (string \<Rightarrow> string) \<Rightarrow> anchor_obj \<Rightarrow> chain \<Rightarrow> json option \<Rightarrow> json option list option \<Rightarrow>
     (anchor_error, log_check) result" where
  "verify_notary X H a c reg lg = (case lg of
     None \<Rightarrow> Inr LogMissing
   | Some ls \<Rightarrow> (if ls = [] then Inr LogEmpty
       else (case last ls of
         None \<Rightarrow> Inr LastUnreadable
       | Some e \<Rightarrow> bind_result (verify_notary_entry X H a c reg e) (\<lambda>r. Inr (LastChecked r (length ls))))))"

section \<open>Object names\<close>

definition name_char :: "char \<Rightarrow> bool" where
  "name_char ch \<longleftrightarrow> is_digit ch \<or> ch \<in> set ''T:.+Z-''"

definition entry_seq :: "string \<Rightarrow> nat option" where
  \<comment> \<open>the group of \<^verbatim>\<open>ENTRY_NAME_RE\<close>; \<^verbatim>\<open>$\<close> also matches before a final newline\<close>
  "entry_seq name =
     (let s = (if name \<noteq> [] \<and> last name = CHR 0x0A then butlast name else name); n = length s;
          body = take (n - 12) (drop 7 s)
      in if 13 \<le> n \<and> list_all is_digit (take 6 s) \<and> s ! 6 = CHR ''-'' \<and> list_all name_char body \<and> drop (n - 5) s = ''.line''
         then Some (nat (digits_val (take 6 s))) else None)"

definition pad6 :: "nat \<Rightarrow> string" where
  "pad6 n = replicate (6 - length (show_nat n)) CHR ''0'' @ show_nat n"

definition entry_name :: "nat \<Rightarrow> string \<Rightarrow> string" where
  \<comment> \<open>the second replacement of the source looks for colons the first has removed\<close>
  "entry_name n at_text = pad6 n @ ''-'' @ filter (\<lambda>ch. ch \<noteq> CHR '':'') at_text @ ''.line''"

section \<open>The service\<close>

datatype listing = Lists | ListsNothing | ListRaises      \<comment> \<open>an rclone error reads as an empty listing\<close>

record sink_env =
  sk_listing :: listing
  sk_accepts :: "string \<Rightarrow> bool"
  sk_reads :: "string \<Rightarrow> bool"

type_synonym objects = "(string \<times> json option) list"

record notary =
  nt_local :: "json option list"
  nt_remote :: "objects option"
  nt_vault :: vault

datatype notary_error = LogCorrupt | Diverged | AnchorRaised anchor_error | StampFailed | EntryMalformed

record notary_report =
  np_seq :: nat
  np_pushed :: "bool option"
  np_backfilled :: "nat list"
  np_failed :: "nat list"

definition report_ok :: "notary_report \<Rightarrow> bool" where
  "report_ok p \<longleftrightarrow> np_pushed p \<noteq> Some False \<and> np_failed p = []"

fun put_object :: "string \<Rightarrow> json option \<Rightarrow> objects \<Rightarrow> objects" where
  "put_object n d [] = [(n, d)]"
| "put_object n d ((m, e) # r) = (if m = n then (n, d) # r else (m, e) # put_object n d r)"

definition listed :: "sink_env \<Rightarrow> objects \<Rightarrow> string list option" where
  \<comment> \<open>None: NotaryRemoteError\<close>
  "listed K objs = (case sk_listing K of
     Lists \<Rightarrow> Some (sort (filter (\<lambda>n. entry_seq n \<noteq> None) (map fst objs)))
   | ListsNothing \<Rightarrow> Some []
   | ListRaises \<Rightarrow> None)"

definition seqs_of :: "string list \<Rightarrow> nat set" where
  "seqs_of names = {s. \<exists>n \<in> set names. entry_seq n = Some s}"

definition seq_list :: "string list \<Rightarrow> nat list" where
  "seq_list names = remdups (concat (map (\<lambda>n. case entry_seq n of None \<Rightarrow> [] | Some s \<Rightarrow> [s]) names))"

definition read_local :: "notary \<Rightarrow> (notary_error, json list) result" where
  "read_local nt = (if None \<in> set (nt_local nt) then Inl LogCorrupt else Inr (map the (nt_local nt)))"

fun backfill ::
  "sink_env \<Rightarrow> json list \<Rightarrow> nat list \<Rightarrow> objects \<Rightarrow> (notary_error, nat list \<times> nat list) result \<times> objects" where
  "backfill K entries [] objs = (Inr ([], []), objs)"
| "backfill K entries (s # ss) objs =
     (case get ''notarized_at'' (entries ! (s - 1)) of
        JStr t \<Rightarrow>
          (let ok = sk_accepts K (entry_name s t);
               objs' = (if ok then put_object (entry_name s t) (Some (entries ! (s - 1))) objs else objs)
           in (case backfill K entries ss objs' of
                 (Inl e, o') \<Rightarrow> (Inl e, o')
               | (Inr (good, bad), o') \<Rightarrow> (Inr (if ok then (s # good, bad) else (good, s # bad)), o')))
      | _ \<Rightarrow> (Inl EntryMalformed, objs))"

definition tip_of_entry :: "json \<Rightarrow> json option" where
  \<comment> \<open>\<^verbatim>\<open>entry["anchor"]["snapshot"]["tip_hash"]\<close>\<close>
  "tip_of_entry e = Option.bind (field ''anchor'' e) (\<lambda>an. Option.bind (field ''snapshot'' an) (field ''tip_hash''))"

type_synonym stamper = "string \<Rightarrow> (stamp_error, timestamp_proof) result"

definition stamped :: "stamper option \<Rightarrow> json \<Rightarrow> json option" where
  "stamped st entry = (case st of
     None \<Rightarrow> Some entry
   | Some f \<Rightarrow> (case f (canon_ascii entry) of
       Inl e \<Rightarrow> None
     | Inr p \<Rightarrow> Some (set_field ''timestamp'' (proof_json p) entry)))"

definition push_entry ::
  "sink_env \<Rightarrow> string \<Rightarrow> json list \<Rightarrow> json \<Rightarrow> nat set \<Rightarrow> objects \<Rightarrow> (notary_error, notary_report) result \<times> objects" where
  \<comment> \<open>the remote half of \<^verbatim>\<open>notarize\<close>: the new entry, then the older ones the remote lacks\<close>
  "push_entry K now entries entry remote_seqs objs =
     (let n = length entries + 1; name = entry_name n now; ok = sk_accepts K name;
          objs1 = (if ok then put_object name (Some entry) objs else objs)
      in (case backfill K entries (filter (\<lambda>s. s \<notin> remote_seqs) [1..<n]) objs1 of
            (Inl e, o') \<Rightarrow> (Inl e, o')
          | (Inr (good, bad), o') \<Rightarrow>
              (Inr \<lparr>np_seq = n, np_pushed = Some ok, np_backfilled = good, np_failed = bad\<rparr>, o')))"

definition notarize ::
  "world \<Rightarrow> anchor_obj \<Rightarrow> sink_env \<Rightarrow> stamper option \<Rightarrow> notary \<Rightarrow> (notary_error, notary_report) result \<times> notary" where
  "notarize W a K st nt = (case read_local nt of
     Inl e \<Rightarrow> (Inl e, nt)
   | Inr entries \<Rightarrow>
      (case (case nt_remote nt of None \<Rightarrow> Some [] | Some objs \<Rightarrow> listed K objs) of
         None \<Rightarrow> (Inl Diverged, nt)
       | Some names \<Rightarrow>
          (if list_ex (\<lambda>s. length entries < s) (seq_list names) then (Inl Diverged, nt)
           else (case build_notary_entry W a (nt_vault nt) of
              (Inl e, v) \<Rightarrow> (Inl (AnchorRaised e), nt\<lparr>nt_vault := v\<rparr>)
            | (Inr base, v) \<Rightarrow> (case stamped st base of
                None \<Rightarrow> (Inl StampFailed, nt\<lparr>nt_vault := v\<rparr>)
              | Some entry \<Rightarrow>
                  (let nt1 = nt\<lparr>nt_vault := v, nt_local := nt_local nt @ [Some entry]\<rparr> in
                   if tip_of_entry entry = None then (Inl EntryMalformed, nt1)
                   else (case nt_remote nt of
                     None \<Rightarrow> (Inr \<lparr>np_seq = length entries + 1, np_pushed = None, np_backfilled = [], np_failed = []\<rparr>, nt1)
                   | Some objs \<Rightarrow>
                       (case push_entry K (w_now W) entries entry (seqs_of names) objs of
                          (r, o') \<Rightarrow> (r, nt1\<lparr>nt_remote := Some o'\<rparr>)))))))))"

datatype notary_verdict = LOCAL_INVALID | LOCAL_ONLY | REMOTE_UNREACHABLE | REMOTE_INVALID | DIVERGED | REMOTE_BEHIND | HEALTHY

definition is_valid :: "entry_check \<Rightarrow> bool" where
  "is_valid r = (case r of EntryValid t n s \<Rightarrow> True | _ \<Rightarrow> False)"

definition name_for :: "nat \<Rightarrow> string list \<Rightarrow> string" where
  \<comment> \<open>of several names with one number the last in the listing\<close>
  "name_for s names = last (filter (\<lambda>n. entry_seq n = Some s) names)"

definition object_content :: "sink_env \<Rightarrow> objects \<Rightarrow> string \<Rightarrow> json option" where
  \<comment> \<open>None: unreadable or not JSON\<close>
  "object_content K objs n = (if sk_reads K n then Option.bind (map_of objs n) id else None)"

fun all_valid :: "('k \<Rightarrow> json option) \<Rightarrow> (json \<Rightarrow> (anchor_error, entry_check) result) \<Rightarrow> 'k list \<Rightarrow> (anchor_error, bool) result" where
  \<comment> \<open>every object is checked, whatever the others gave\<close>
  "all_valid rd chk [] = Inr True"
| "all_valid rd chk (n # ns) =
     bind_result (case rd n of None \<Rightarrow> Inr False | Some e \<Rightarrow> bind_result (chk e) (\<lambda>r. Inr (is_valid r))) (\<lambda>ok.
     bind_result (all_valid rd chk ns) (\<lambda>oks. Inr (ok \<and> oks)))"

definition verify_service ::
  "world \<Rightarrow> anchor_obj \<Rightarrow> sink_env \<Rightarrow> chain \<Rightarrow> notary \<Rightarrow> (anchor_error, notary_verdict) result" where
  "verify_service W a K c nt =
     (let chk = verify_notary_entry (w_check W) (w_digest W) a c (registry_file (nt_vault nt)) in
      case read_local nt of
        Inl e \<Rightarrow> Inr LOCAL_INVALID
      | Inr [] \<Rightarrow> Inr LOCAL_INVALID
      | Inr entries \<Rightarrow>
          bind_result (chk (last entries)) (\<lambda>r.
            if \<not> is_valid r then Inr LOCAL_INVALID
            else (case nt_remote nt of
              None \<Rightarrow> Inr LOCAL_ONLY
            | Some objs \<Rightarrow> (case listed K objs of
                None \<Rightarrow> Inr REMOTE_UNREACHABLE
              | Some names \<Rightarrow>
                  (if seq_list names = [] then Inr REMOTE_UNREACHABLE
                   else bind_result (all_valid (\<lambda>s. object_content K objs (name_for s names)) chk (sort (seq_list names))) (\<lambda>ok.
                     if \<not> ok then Inr REMOTE_INVALID
                     else if list_ex (\<lambda>s. s = 0 \<or> length entries < s) (seq_list names) then Inr DIVERGED
                     else if list_ex (\<lambda>s. s \<notin> set (seq_list names)) [1..<length entries + 1] then Inr REMOTE_BEHIND
                     else Inr HEALTHY))))))"

section \<open>Names carry their numbers\<close>

lemma length_show_nat: "n < 10 ^ Suc k \<Longrightarrow> length (show_nat n) \<le> Suc k"
proof (induction k arbitrary: n)
  case 0
  then show ?case by (subst show_nat.simps) simp
next
  case (Suc k)
  then have "n div 10 < 10 ^ Suc k" by auto
  from Suc.IH [OF this] show ?case by (subst show_nat.simps) simp
qed

lemma digits_val_pad: "digits_val (replicate k CHR ''0'' @ s) = digits_val s"
  by (induction k) (simp_all add: digits_val_def digit_val_def)

lemma pad6:
  assumes "n < 1000000"
  shows "length (pad6 n) = 6" "list_all is_digit (pad6 n)" "nat (digits_val (pad6 n)) = n"
proof -
  have "length (show_nat n) \<le> Suc 5" using assms by (intro length_show_nat) simp
  then show "length (pad6 n) = 6" by (simp add: pad6_def)
  have "is_digit CHR ''0''" by (simp add: is_digit_def)
  then show "list_all is_digit (pad6 n)" using show_nat_digits [of n] by (auto simp: pad6_def list_all_iff)
  show "nat (digits_val (pad6 n)) = n" by (simp add: pad6_def digits_val_pad digits_val_show_nat)
qed

definition stamp_text :: "string \<Rightarrow> bool" where
  \<comment> \<open>an ISO instant: something is left without its colons, all of it allowed in a name\<close>
  "stamp_text t \<longleftrightarrow> filter (\<lambda>ch. ch \<noteq> CHR '':'') t \<noteq> [] \<and> list_all name_char t"

lemma entry_seq_name:
  assumes "n < 1000000" "stamp_text t"
  shows "entry_seq (entry_name n t) = Some n"
proof -
  define body where "body = filter (\<lambda>ch. ch \<noteq> CHR '':'') t"
  define s where "s = entry_name n t"
  have s: "s = pad6 n @ ''-'' @ body @ ''.line''" by (simp add: s_def entry_name_def body_def)
  have b: "body \<noteq> []" "list_all name_char body" using assms(2) by (auto simp: stamp_text_def body_def list_all_iff)
  note p = pad6 [OF assms(1)]
  have len: "length s = length body + 12" by (simp add: s p)
  have last: "last s \<noteq> CHR 0x0A" by (simp add: s)
  have "take 6 s = pad6 n" "s ! 6 = CHR ''-''" by (simp_all add: s p nth_append)
  moreover have "drop 7 s = body @ ''.line''" by (simp add: s p)
  moreover have "drop (length s - 5) s = ''.line''"
  proof -
    have "s = (pad6 n @ ''-'' @ body) @ ''.line''" by (simp add: s)
    moreover have "length s - 5 = length (pad6 n @ ''-'' @ body)" by (simp add: len p)
    ultimately show ?thesis by (metis append_eq_conv_conj)
  qed
  ultimately show ?thesis
    using b p last len length_greater_0_conv [of body] unfolding entry_seq_def s_def [symmetric]
    by (simp add: Let_def Suc_le_eq)
qed

lemma set_seq_list: "set (seq_list names) = seqs_of names"
  by (auto simp: seq_list_def seqs_of_def split: option.splits)

section \<open>What verification of the service means\<close>

lemma all_valid_iff:
  "all_valid rd chk ns = Inr True \<longleftrightarrow> (\<forall>n \<in> set ns. \<exists>e r. rd n = Some e \<and> chk e = Inr r \<and> is_valid r)"
proof (induction ns)
  case (Cons n ns)
  show ?case
  proof (cases "rd n")
    case (Some e)
    show ?thesis using Cons by (cases "chk e") (auto simp: Some result_simps)
  qed (auto simp: result_simps)
qed simp

definition entry_checker :: "world \<Rightarrow> anchor_obj \<Rightarrow> chain \<Rightarrow> notary \<Rightarrow> json \<Rightarrow> (anchor_error, entry_check) result" where
  "entry_checker W a c nt = verify_notary_entry (w_check W) (w_digest W) a c (registry_file (nt_vault nt))"

definition entry_ok :: "world \<Rightarrow> anchor_obj \<Rightarrow> chain \<Rightarrow> notary \<Rightarrow> json \<Rightarrow> bool" where
  "entry_ok W a c nt e \<longleftrightarrow> (\<exists>r. entry_checker W a c nt e = Inr r \<and> is_valid r)"

lemma healthyI:
  assumes "read_local nt = Inr entries" "entries \<noteq> []" "entry_ok W a c nt (last entries)"
    and "nt_remote nt = Some objs" "listed K objs = Some names" "seqs_of names = {1..length entries}"
    and "\<And>s. s \<in> {1..length entries} \<Longrightarrow> \<exists>e. object_content K objs (name_for s names) = Some e \<and> entry_ok W a c nt e"
  shows "verify_service W a K c nt = Inr HEALTHY"
proof -
  from assms(3) obtain r where r: "entry_checker W a c nt (last entries) = Inr r" "is_valid r" by (auto simp: entry_ok_def)
  have all: "all_valid (\<lambda>s. object_content K objs (name_for s names)) (entry_checker W a c nt) (sort (seq_list names)) = Inr True"
    using assms(6,7) by (auto simp: all_valid_iff set_seq_list entry_ok_def)
  have set: "set (seq_list names) = {1..length entries}" by (simp add: set_seq_list assms(6))
  with assms(2) have "seq_list names \<noteq> []" by (metis Suc_le_eq atLeastAtMost_iff empty_iff length_greater_0_conv list.set(1) One_nat_def order_refl)
  moreover have "\<not> list_ex (\<lambda>s. s = 0 \<or> length entries < s) (seq_list names)"
    "\<not> list_ex (\<lambda>s. s \<notin> set (seq_list names)) [1..<length entries + 1]"
    using set by (auto simp: list_ex_iff)
  ultimately show ?thesis
    using assms(1,2,4,5) r all unfolding verify_service_def entry_checker_def [symmetric]
    by (cases entries) (simp_all add: Let_def)
qed

lemma healthyD:
  assumes "verify_service W a K c nt = Inr HEALTHY"
  shows "\<exists>entries objs names. read_local nt = Inr entries \<and> entries \<noteq> [] \<and> entry_ok W a c nt (last entries) \<and>
    nt_remote nt = Some objs \<and> listed K objs = Some names \<and> seqs_of names = {1..length entries} \<and>
    (\<forall>s \<in> {1..length entries}. \<exists>e. object_content K objs (name_for s names) = Some e \<and> entry_ok W a c nt e)"
proof -
  from assms obtain entries where loc: "read_local nt = Inr entries" "entries \<noteq> []"
    by (auto simp: verify_service_def Let_def split: sum.splits list.splits)
  then obtain e0 es where cons: "entries = e0 # es" by (cases entries) auto
  note chk = entry_checker_def [of W a c nt, symmetric]
  from assms loc cons obtain r where r: "entry_checker W a c nt (last entries) = Inr r" "is_valid r"
    by (auto simp: verify_service_def Let_def chk result_simps split: if_splits)
  with assms loc cons obtain objs where objs: "nt_remote nt = Some objs"
    by (auto simp: verify_service_def Let_def chk split: option.splits)
  with assms loc cons r obtain names where names: "listed K objs = Some names"
    by (auto simp: verify_service_def Let_def chk split: option.splits)
  from assms loc cons r objs names have
    all: "all_valid (\<lambda>s. object_content K objs (name_for s names)) (entry_checker W a c nt) (sort (seq_list names)) = Inr True"
    and ex: "\<not> list_ex (\<lambda>s. s = 0 \<or> length entries < s) (seq_list names)"
    and mi: "\<not> list_ex (\<lambda>s. s \<notin> set (seq_list names)) [1..<length entries + 1]"
    by (auto simp: verify_service_def Let_def chk result_simps split: if_splits)
  have seqs: "seqs_of names = {1..length entries}"
  proof -
    have "x \<in> seqs_of names" if "1 \<le> x" "x \<le> length entries" for x
    proof -
      have "x \<in> set [1..<length entries + 1]" using that by auto
      with mi have "x \<in> set (seq_list names)" unfolding list_ex_iff by blast
      then show ?thesis by (simp add: set_seq_list)
    qed
    moreover have "1 \<le> x \<and> x \<le> length entries" if "x \<in> seqs_of names" for x
    proof -
      from that have "x \<in> set (seq_list names)" by (simp add: set_seq_list)
      with ex have "\<not> (x = 0 \<or> length entries < x)" unfolding list_ex_iff by blast
      then show ?thesis by simp
    qed
    ultimately show ?thesis by (intro set_eqI) (unfold atLeastAtMost_iff, blast)
  qed
  have "\<forall>s \<in> {1..length entries}. \<exists>e. object_content K objs (name_for s names) = Some e \<and> entry_ok W a c nt e"
  proof -
    from all have "\<forall>s \<in> seqs_of names. \<exists>e r. object_content K objs (name_for s names) = Some e \<and>
        entry_checker W a c nt e = Inr r \<and> is_valid r"
      by (simp add: all_valid_iff set_seq_list)
    then show ?thesis unfolding seqs entry_ok_def by blast
  qed
  moreover have "entry_ok W a c nt (last entries)" using r by (auto simp: entry_ok_def)
  ultimately show ?thesis using loc objs names seqs by blast
qed

section \<open>Mirroring\<close>

lemma put_object_keys: "fst ` set (put_object n d objs) = insert n (fst ` set objs)"
  by (induction n d objs rule: put_object.induct) auto

lemma put_object_distinct: "distinct (map fst objs) \<Longrightarrow> distinct (map fst (put_object n d objs))"
proof (induction n d objs rule: put_object.induct)
  case (2 n d m e r)
  have "m \<notin> fst ` set (put_object n d r)" if "m \<noteq> n" using 2(2) that by (auto simp: put_object_keys)
  with 2 show ?case by auto
qed simp

lemma put_object_set: "set (put_object n d objs) \<subseteq> insert (n, d) (set objs)"
  by (induction n d objs rule: put_object.induct) auto

definition image_of :: "json list \<Rightarrow> string \<times> json option \<Rightarrow> bool" where
  \<comment> \<open>the object is the copy of a local entry under its own number\<close>
  "image_of entries ob \<longleftrightarrow> (\<exists>i t. i < length entries \<and> get ''notarized_at'' (entries ! i) = JStr t \<and>
     ob = (entry_name (i + 1) t, Some (entries ! i)))"

lemma image_of_append:
  assumes "image_of entries ob"
  shows "image_of (entries @ ls) ob"
proof -
  from assms obtain i t where "i < length entries" "get ''notarized_at'' (entries ! i) = JStr t"
    "ob = (entry_name (i + 1) t, Some (entries ! i))" by (auto simp: image_of_def)
  then show ?thesis unfolding image_of_def by (intro exI [of _ i] exI [of _ t]) (simp add: nth_append)
qed

lemma backfill_step:
  assumes "backfill K entries (q # ss) objs = (x, objs')"
  shows "((\<forall>t. get ''notarized_at'' (entries ! (q - 1)) \<noteq> JStr t) \<and> x = Inl EntryMalformed \<and> objs' = objs) \<or>
    (\<exists>t y. get ''notarized_at'' (entries ! (q - 1)) = JStr t \<and>
       backfill K entries ss (if sk_accepts K (entry_name q t)
         then put_object (entry_name q t) (Some (entries ! (q - 1))) objs else objs) = (y, objs') \<and>
       (\<forall>good. x = Inr (good, []) \<longrightarrow> sk_accepts K (entry_name q t) \<and> (\<exists>good'. y = Inr (good', []))))"
proof (cases "get ''notarized_at'' (entries ! (q - 1))")
  case (JStr t)
  let ?o = "if sk_accepts K (entry_name q t) then put_object (entry_name q t) (Some (entries ! (q - 1))) objs else objs"
  obtain y o' where r: "backfill K entries ss ?o = (y, o')" by (cases "backfill K entries ss ?o")
  show ?thesis
  proof (cases y)
    case (Inl e)
    with assms JStr r have "x = Inl e" "o' = objs'" by (simp_all add: Let_def)
    with JStr r show ?thesis by blast
  next
    case (Inr gb)
    obtain g b where "gb = (g, b)" by (cases gb)
    with assms JStr r Inr have "o' = objs'"
      "x = Inr (if sk_accepts K (entry_name q t) then (q # g, b) else (g, q # b))" by (simp_all add: Let_def)
    with JStr r Inr \<open>gb = (g, b)\<close> show ?thesis by auto
  qed
qed (use assms in simp_all)

lemma backfill_error: "backfill K entries ss objs = (Inl e, objs') \<Longrightarrow> e = EntryMalformed"
proof (induction ss arbitrary: objs)
  case (Cons q ss)
  show ?case
  proof (cases "get ''notarized_at'' (entries ! (q - 1))")
    case (JStr t)
    let ?o = "if sk_accepts K (entry_name q t) then put_object (entry_name q t) (Some (entries ! (q - 1))) objs else objs"
    obtain y o' where r: "backfill K entries ss ?o = (y, o')" by (cases "backfill K entries ss ?o")
    with Cons.prems JStr obtain f where "y = Inl f" "f = e" "o' = objs'"
      by (cases y) (auto simp: Let_def)
    with Cons.IH [of ?o] r show ?thesis by simp
  qed (use Cons.prems in simp_all)
qed simp

lemma backfill_mirrors:
  assumes "backfill K entries ss objs = (x, objs')" "\<forall>s \<in> set ss. 1 \<le> s \<and> s \<le> length entries"
    and "distinct (map fst objs)" "\<forall>ob \<in> set objs. image_of entries ob"
  shows "distinct (map fst objs') \<and> (\<forall>ob \<in> set objs'. image_of entries ob) \<and> fst ` set objs \<subseteq> fst ` set objs'"
  using assms
proof (induction ss arbitrary: objs x)
  case (Cons q ss)
  from backfill_step [OF Cons.prems(1)] show ?case
  proof (elim disjE exE conjE)
    fix t y
    let ?o = "if sk_accepts K (entry_name q t) then put_object (entry_name q t) (Some (entries ! (q - 1))) objs else objs"
    assume t: "get ''notarized_at'' (entries ! (q - 1)) = JStr t" and r: "backfill K entries ss ?o = (y, objs')"
    have "image_of entries (entry_name q t, Some (entries ! (q - 1)))"
      using t Cons.prems(2) by (auto simp: image_of_def intro!: exI [of _ "q - 1"])
    then have "\<forall>ob \<in> set ?o. image_of entries ob"
      using Cons.prems(4) put_object_set [of "entry_name q t" "Some (entries ! (q - 1))" objs] by auto
    moreover have "distinct (map fst ?o)" using Cons.prems(3) put_object_distinct by auto
    ultimately have "distinct (map fst objs') \<and> (\<forall>ob \<in> set objs'. image_of entries ob) \<and> fst ` set ?o \<subseteq> fst ` set objs'"
      using Cons.IH [OF r] Cons.prems(2) by simp
    moreover have "fst ` set objs \<subseteq> fst ` set ?o" by (simp add: put_object_keys subset_insertI)
    ultimately show ?thesis by blast
  qed (use Cons.prems in simp)
qed simp

lemma backfill_keys: "backfill K entries ss objs = (x, objs') \<Longrightarrow> fst ` set objs \<subseteq> fst ` set objs'"
proof (induction ss arbitrary: objs x)
  case (Cons q ss)
  from backfill_step [OF Cons.prems(1)] show ?case
  proof (elim disjE exE conjE)
    fix t y
    let ?o = "if sk_accepts K (entry_name q t) then put_object (entry_name q t) (Some (entries ! (q - 1))) objs else objs"
    assume "backfill K entries ss ?o = (y, objs')"
    from Cons.IH [OF this] have "fst ` set ?o \<subseteq> fst ` set objs'" .
    moreover have "fst ` set objs \<subseteq> fst ` set ?o" by (simp add: put_object_keys subset_insertI)
    ultimately show ?thesis by blast
  qed simp
qed simp

lemma backfill_complete:
  "backfill K entries ss objs = (Inr (good, []), objs') \<Longrightarrow> s \<in> set ss \<Longrightarrow>
   \<exists>t. get ''notarized_at'' (entries ! (s - 1)) = JStr t \<and> entry_name s t \<in> fst ` set objs'"
proof (induction ss arbitrary: objs good)
  case (Cons q ss)
  from backfill_step [OF Cons.prems(1)] obtain t good' where t: "get ''notarized_at'' (entries ! (q - 1)) = JStr t"
    and r: "backfill K entries ss (put_object (entry_name q t) (Some (entries ! (q - 1))) objs) = (Inr (good', []), objs')"
    by (auto split: if_splits)
  show ?case
  proof (cases "s = q")
    case True
    have "entry_name q t \<in> fst ` set objs'" using backfill_keys [OF r] by (auto simp: put_object_keys)
    with True t show ?thesis by blast
  next
    case False
    with Cons.prems(2) Cons.IH [OF r] show ?thesis by auto
  qed
qed simp

definition mirrors :: "notary \<Rightarrow> bool" where
  \<comment> \<open>every remote object is the copy of a local entry\<close>
  "mirrors nt \<longleftrightarrow> (case nt_remote nt of None \<Rightarrow> True | Some objs \<Rightarrow>
     None \<notin> set (nt_local nt) \<and> distinct (map fst objs) \<and> (\<forall>ob \<in> set objs. image_of (map the (nt_local nt)) ob))"

lemma push_entry_backfill:
  assumes "push_entry K now entries entry known objs = (x, objs')"
  obtains y where "backfill K entries (filter (\<lambda>s. s \<notin> known) [1..<length entries + 1])
      (if sk_accepts K (entry_name (length entries + 1) now) then put_object (entry_name (length entries + 1) now) (Some entry) objs
       else objs) = (y, objs')"
    and "\<And>p. x = Inr p \<Longrightarrow> report_ok p \<Longrightarrow> sk_accepts K (entry_name (length entries + 1) now) \<and> (\<exists>good. y = Inr (good, []))"
proof -
  let ?b = "backfill K entries (filter (\<lambda>s. s \<notin> known) [1..<length entries + 1])
      (if sk_accepts K (entry_name (length entries + 1) now) then put_object (entry_name (length entries + 1) now) (Some entry) objs
       else objs)"
  obtain y o' where r: "?b = (y, o')" by (cases ?b)
  from assms have "o' = objs'"
    unfolding push_entry_def Let_def r by (simp split: sum.splits prod.splits)
  with r have b: "?b = (y, objs')" by simp
  have "sk_accepts K (entry_name (length entries + 1) now) \<and> (\<exists>good. y = Inr (good, []))"
    if "x = Inr p" "report_ok p" for p
    using assms that unfolding push_entry_def Let_def r
    by (auto simp: report_ok_def split: sum.splits prod.splits)
  with b show thesis by (rule that)
qed

lemma push_entry_mirrors:
  assumes "push_entry K now entries entry known objs = (x, objs')" "distinct (map fst objs)"
    "\<forall>ob \<in> set objs. image_of entries ob" "get ''notarized_at'' entry = JStr now"
  shows "distinct (map fst objs') \<and> (\<forall>ob \<in> set objs'. image_of (entries @ [entry]) ob) \<and> fst ` set objs \<subseteq> fst ` set objs'"
proof -
  let ?n = "length entries + 1"
  let ?o = "if sk_accepts K (entry_name ?n now) then put_object (entry_name ?n now) (Some entry) objs else objs"
  let ?ss = "filter (\<lambda>s. s \<notin> known) [1..<?n]"
  obtain y where r: "backfill K entries ?ss ?o = (y, objs')"
    using assms(1) by (rule push_entry_backfill)
  have same: "backfill K (entries @ [entry]) ss o' = backfill K entries ss o'" if "\<forall>s \<in> set ss. 1 \<le> s \<and> s \<le> length entries" for ss o'
    using that
  proof (induction ss arbitrary: o')
    case (Cons q ss)
    then have e: "(entries @ [entry]) ! (q - 1) = entries ! (q - 1)" by (auto simp: nth_append)
    have IH: "backfill K (entries @ [entry]) ss p = backfill K entries ss p" for p using Cons by simp
    show ?case unfolding backfill.simps e IH ..
  qed simp
  have bounds: "\<forall>s \<in> set ?ss. 1 \<le> s \<and> s \<le> length entries" by auto
  have "image_of (entries @ [entry]) (entry_name ?n now, Some entry)"
    using assms(4) by (auto simp: image_of_def intro!: exI [of _ "length entries"])
  then have "\<forall>ob \<in> set ?o. image_of (entries @ [entry]) ob"
    using assms(3) image_of_append put_object_set [of "entry_name ?n now" "Some entry" objs] by auto
  moreover have "distinct (map fst ?o)" using assms(2) put_object_distinct by auto
  moreover have "backfill K (entries @ [entry]) ?ss ?o = (y, objs')" using r same [OF bounds] by simp
  moreover have "\<forall>s \<in> set ?ss. 1 \<le> s \<and> s \<le> length (entries @ [entry])" by auto
  ultimately have "distinct (map fst objs') \<and> (\<forall>ob \<in> set objs'. image_of (entries @ [entry]) ob) \<and> fst ` set ?o \<subseteq> fst ` set objs'"
    by (intro backfill_mirrors)
  moreover have "fst ` set objs \<subseteq> fst ` set ?o" by (auto simp: put_object_keys)
  ultimately show ?thesis by blast
qed

lemma push_entry_complete:
  assumes "push_entry K now entries entry known objs = (Inr p, objs')" "report_ok p"
  shows "entry_name (length entries + 1) now \<in> fst ` set objs'"
    and "s \<in> {1..length entries} \<Longrightarrow> s \<notin> known \<Longrightarrow>
         \<exists>t. get ''notarized_at'' (entries ! (s - 1)) = JStr t \<and> entry_name s t \<in> fst ` set objs'"
proof -
  let ?n = "length entries + 1"
  let ?o = "if sk_accepts K (entry_name ?n now) then put_object (entry_name ?n now) (Some entry) objs else objs"
  let ?ss = "filter (\<lambda>s. s \<notin> known) [1..<?n]"
  obtain y where y: "backfill K entries ?ss ?o = (y, objs')"
    and yok: "\<And>q. Inr p = Inr q \<Longrightarrow> report_ok q \<Longrightarrow> sk_accepts K (entry_name ?n now) \<and> (\<exists>good. y = Inr (good, []))"
    using assms(1) by (rule push_entry_backfill) blast
  from yok [OF refl assms(2)] obtain good where ok: "sk_accepts K (entry_name ?n now)" and "y = Inr (good, [])" by blast
  with y have r: "backfill K entries ?ss ?o = (Inr (good, []), objs')" by simp
  show "entry_name ?n now \<in> fst ` set objs'" using backfill_keys [OF r] ok by (auto simp: put_object_keys)
  show "\<exists>t. get ''notarized_at'' (entries ! (s - 1)) = JStr t \<and> entry_name s t \<in> fst ` set objs'"
    if "s \<in> {1..length entries}" "s \<notin> known"
  proof -
    from that have "s \<in> set ?ss" by (auto simp del: upt_Suc)
    with backfill_complete [OF r] show ?thesis by blast
  qed
qed

lemma build_entry_time: "build_notary_entry W a v = (Inr e, v') \<Longrightarrow> get ''notarized_at'' e = JStr (w_now W) \<and> is_obj e"
  by (auto simp: build_notary_entry_def Let_def field_or_def split: option.splits prod.splits sum.splits)

lemma stamped_time:
  "stamped st e = Some e' \<Longrightarrow> is_obj e \<Longrightarrow> get ''notarized_at'' e' = get ''notarized_at'' e"
  by (auto simp: stamped_def field_or_def map_of_dict_put is_obj_iff split: option.splits sum.splits)

lemma notarize_appends:
  assumes "notarize W a K st nt = (x, nt')" "nt_local nt' \<noteq> nt_local nt \<or> nt_remote nt' \<noteq> nt_remote nt"
  obtains entries names base v entry where "read_local nt = Inr entries"
    "(case nt_remote nt of None \<Rightarrow> Some [] | Some objs \<Rightarrow> listed K objs) = Some names"
    "\<not> list_ex (\<lambda>s. length entries < s) (seq_list names)"
    "build_notary_entry W a (nt_vault nt) = (Inr base, v)" "stamped st base = Some entry"
    "nt_local nt' = nt_local nt @ [Some entry]" "nt_vault nt' = v"
    "case nt_remote nt of
       None \<Rightarrow> nt_remote nt' = None
     | Some objs \<Rightarrow> (x = Inl EntryMalformed \<and> nt_remote nt' = Some objs) \<or>
         (\<exists>objs'. push_entry K (w_now W) entries entry (seqs_of names) objs = (x, objs') \<and> nt_remote nt' = Some objs')"
proof -
  from assms obtain entries where e: "read_local nt = Inr entries" by (cases "read_local nt") (auto simp: notarize_def)
  from assms e obtain names where n: "(case nt_remote nt of None \<Rightarrow> Some [] | Some objs \<Rightarrow> listed K objs) = Some names"
    by (cases "case nt_remote nt of None \<Rightarrow> Some [] | Some objs \<Rightarrow> listed K objs") (auto simp: notarize_def)
  from assms e n have d: "\<not> list_ex (\<lambda>s. length entries < s) (seq_list names)" by (auto simp: notarize_def)
  obtain r v where b: "build_notary_entry W a (nt_vault nt) = (r, v)" by (cases "build_notary_entry W a (nt_vault nt)")
  from assms e n d b obtain base where r: "r = Inr base" by (cases r) (auto simp: notarize_def)
  from assms e n d b r obtain entry where s: "stamped st base = Some entry"
    by (cases "stamped st base") (auto simp: notarize_def)
  show thesis
  proof (rule that [OF e n d])
    show "build_notary_entry W a (nt_vault nt) = (Inr base, v)" using b r by simp
    show "stamped st base = Some entry" by (rule s)
    show "nt_local nt' = nt_local nt @ [Some entry]" "nt_vault nt' = v"
      using assms(1) e n d b r s by (auto simp: notarize_def Let_def split: if_splits option.splits prod.splits)
    show "case nt_remote nt of
       None \<Rightarrow> nt_remote nt' = None
     | Some objs \<Rightarrow> (x = Inl EntryMalformed \<and> nt_remote nt' = Some objs) \<or>
         (\<exists>objs'. push_entry K (w_now W) entries entry (seqs_of names) objs = (x, objs') \<and> nt_remote nt' = Some objs')"
      using assms(1) e n d b r s by (auto simp: notarize_def Let_def split: if_splits option.splits prod.splits)
  qed
qed

lemma read_local_Inr: "read_local nt = Inr entries \<longleftrightarrow> None \<notin> set (nt_local nt) \<and> entries = map the (nt_local nt)"
  by (auto simp: read_local_def)

definition keeps_objects :: "notary \<Rightarrow> notary \<Rightarrow> bool" where
  \<comment> \<open>a remote stays configured and every object name on it stays; without a remote none appears\<close>
  "keeps_objects nt nt' \<longleftrightarrow> (case nt_remote nt of
     None \<Rightarrow> nt_remote nt' = None
   | Some objs \<Rightarrow> \<exists>objs'. nt_remote nt' = Some objs' \<and> fst ` set objs \<subseteq> fst ` set objs')"

lemma notarize_keeps_mirror:
  assumes "mirrors nt" "notarize W a K st nt = (x, nt')"
  shows "mirrors nt' \<and> keeps_objects nt nt'"
proof (cases "nt_local nt' = nt_local nt \<and> nt_remote nt' = nt_remote nt")
  case True
  with assms(1) show ?thesis by (simp add: mirrors_def keeps_objects_def split: option.splits)
next
  case False
  then have ch: "nt_local nt' \<noteq> nt_local nt \<or> nt_remote nt' \<noteq> nt_remote nt" by blast
  obtain entries names base v entry where
    e: "read_local nt = Inr entries"
    and "(case nt_remote nt of None \<Rightarrow> Some [] | Some objs \<Rightarrow> listed K objs) = Some names"
    and "\<not> list_ex (\<lambda>s. length entries < s) (seq_list names)"
    and b: "build_notary_entry W a (nt_vault nt) = (Inr base, v)"
    and s: "stamped st base = Some entry" and l: "nt_local nt' = nt_local nt @ [Some entry]"
    and "nt_vault nt' = v"
    and r: "case nt_remote nt of
       None \<Rightarrow> nt_remote nt' = None
     | Some objs \<Rightarrow> (x = Inl EntryMalformed \<and> nt_remote nt' = Some objs) \<or>
         (\<exists>objs'. push_entry K (w_now W) entries entry (seqs_of names) objs = (x, objs') \<and> nt_remote nt' = Some objs')"
    by (rule notarize_appends [OF assms(2) ch])
  show ?thesis
  proof (cases "nt_remote nt")
    case None
    with r show ?thesis by (simp add: mirrors_def keeps_objects_def)
  next
    case (Some objs)
    have loc: "None \<notin> set (nt_local nt')" "map the (nt_local nt') = entries @ [entry]"
      using e l by (auto simp: read_local_Inr)
    have m: "distinct (map fst objs)" "\<forall>ob \<in> set objs. image_of entries ob"
      using assms(1) Some e by (auto simp: mirrors_def read_local_Inr)
    have time: "get ''notarized_at'' entry = JStr (w_now W)"
      using build_entry_time [OF b] stamped_time [OF s] by simp
    from r Some consider "nt_remote nt' = Some objs"
      | objs' where "push_entry K (w_now W) entries entry (seqs_of names) objs = (x, objs')" "nt_remote nt' = Some objs'" by auto
    then show ?thesis
    proof cases
      case 1
      with m loc image_of_append Some show ?thesis by (auto simp: mirrors_def keeps_objects_def)
    next
      case 2
      with push_entry_mirrors [OF 2(1) m time] loc Some show ?thesis by (simp add: mirrors_def keeps_objects_def)
    qed
  qed
qed

lemma name_for_listed:
  assumes "s \<in> seqs_of names"
  shows "name_for s names \<in> set names" "entry_seq (name_for s names) = Some s"
proof -
  let ?f = "filter (\<lambda>n. entry_seq n = Some s) names"
  from assms have "?f \<noteq> []" by (auto simp: seqs_of_def filter_empty_conv)
  then have "last ?f \<in> set ?f" by (rule last_in_set)
  then show "name_for s names \<in> set names" "entry_seq (name_for s names) = Some s" by (auto simp: name_for_def)
qed

lemma listed_names:
  "sk_listing K = Lists \<Longrightarrow> \<exists>names. listed K objs = Some names \<and> set names = {n \<in> fst ` set objs. entry_seq n \<noteq> None}"
  by (auto simp: listed_def)

lemma mirrored_content:
  assumes "\<forall>ob \<in> set objs. image_of entries ob" "n \<in> fst ` set objs" "sk_reads K n"
  shows "\<exists>e \<in> set entries. object_content K objs n = Some e"
proof -
  from assms(2) obtain d where d: "map_of objs n = Some d" "(n, d) \<in> set objs"
    by (metis list.set_map map_of_SomeD map_of_eq_None_iff not_None_eq set_map)
  with assms(1) obtain i where "i < length entries" "d = Some (entries ! i)" by (auto simp: image_of_def)
  with d assms(3) show ?thesis by (auto simp: object_content_def)
qed

lemma mirrored_seqs:
  assumes "\<forall>ob \<in> set objs. image_of entries ob" "length entries < 1000000"
    and "\<And>e t. e \<in> set entries \<Longrightarrow> get ''notarized_at'' e = JStr t \<Longrightarrow> stamp_text t"
    and "n \<in> fst ` set objs" "entry_seq n = Some s"
  shows "s \<in> {1..length entries}"
proof -
  from assms(4,1) obtain i t where i: "i < length entries" "get ''notarized_at'' (entries ! i) = JStr t"
    "n = entry_name (i + 1) t" by (auto simp: image_of_def)
  then have "stamp_text t" using assms(3) nth_mem by blast
  then have "entry_seq n = Some (i + 1)" using i assms(2) entry_seq_name [of "i + 1" t] by simp
  with i(1) assms(5) show ?thesis by simp
qed

text \<open>The notary verifies its own entries: a snapshot of a chain with records, signed by a key the registry takes for
  current, makes a valid entry for that chain.\<close>

lemma own_entries_verify:
  assumes "anchor_chain H (signing_anchor sg) loc now (Some c) v = (Inr rec, v')" "honest X sg"
    and "usable (signing_anchor sg) (registry_file v)" "rows c \<noteq> []"
  shows "verify_notary_entry X H (signing_anchor sg) c (registry_file v)
      (obj [(''notarized_at'', JStr t), (''anchor'', rec)]) =
    Inr (EntryValid (JStr (last_hash c)) (JInt (int (length (rows c)))) None)"
proof -
  from assms(1) obtain s where s: "sg_sign sg (canon_ascii (snapshot_of H loc now c)) = Some s"
    and rec: "rec = obj [(''snapshot'', snapshot_of H loc now c), (''signature'', JStr (hex s)),
                 (''public_key'', JStr (hex (sg_key sg))), (''key_algorithm'', JStr (sg_alg sg))]"
    by (auto simp: anchor_chain_Inr signing_anchor_def)
  from assms(3) obtain r where r: "load_registry (registry_file v) = Inr r"
      "is_current (adopt (signing_anchor sg) r) (sg_key sg)"
    by (auto simp: usable_def signing_anchor_def)
  then have known: "is_registered (adopt (signing_anchor sg) r) (sg_key sg) = Inr True" by (simp add: is_registered_def)
  have sig: "verify_signature X (canon_ascii (snapshot_of H loc now c)) s (sg_key sg) (JStr (sg_alg sg)) = Inr True"
    using assms(2) s by (simp add: honest_def)
  have tip: "has_tip c (JStr (last_hash c))"
    using assms(4) by (auto simp: has_tip_def last_hash_def list_ex_iff intro!: bexI [of _ "last (rows c)"])
  have snap: "field_or ''tip_hash'' (JStr []) (snapshot_of H loc now c) = JStr (last_hash c)"
    "get ''record_count'' (snapshot_of H loc now c) = JInt (int (length (rows c)))"
    by (simp_all add: field_or_def snapshot_of_def)
  show ?thesis
    using r known sig tip snap snapshot_fields(6)
    by (simp add: verify_notary_entry_def rec Let_def field_or_def check_timestamp_def)
qed

section \<open>Properties\<close>

text \<open>C19: The remote only ever holds what the local log holds: a run of the notary, whatever pushes fail and however
  the remote lists itself, appends at most one entry to the local log, keeps every remote object the copy of the local
  entry its name numbers, and never removes one: every name on the remote before the run is there after it.\<close>

theorem remote_mirrors_the_local_log:
  assumes "mirrors nt" "notarize W a K st nt = (x, nt')"
  shows "mirrors nt' \<and> (\<exists>added. nt_local nt' = nt_local nt @ added \<and> length added \<le> 1) \<and>
    (case nt_remote nt of
       None \<Rightarrow> nt_remote nt' = None
     | Some objs \<Rightarrow> \<exists>objs'. nt_remote nt' = Some objs' \<and> fst ` set objs \<subseteq> fst ` set objs')"
proof -
  have "\<exists>added. nt_local nt' = nt_local nt @ added \<and> length added \<le> 1"
  proof (cases "nt_local nt' = nt_local nt")
    case False
    then have "nt_local nt' \<noteq> nt_local nt \<or> nt_remote nt' \<noteq> nt_remote nt" by blast
    then show ?thesis
      by (rule notarize_appends [OF assms(2)]) (auto intro!: exI)
  qed simp
  with notarize_keeps_mirror [OF assms] show ?thesis unfolding keeps_objects_def by blast
qed

text \<open>C6: Notarizing heals the remote: take a run that reports success, over a remote that mirrors the local log, lists
  itself and can be read, object by object, while the log has fewer than 1,000,000 entries and every entry's
  \<open>notarized_at\<close> is a text that the entry names allow. It leaves a notary that verifies as healthy, with every earlier
  gap filled, where the entries of the log are valid for the live chain. (From 1,000,000 entries on, the names have
  seven digits and no longer match the pattern by which the remote is listed.)\<close>

theorem successful_notarization_is_healthy:
  assumes "notarize W a K st nt = (Inr p, nt')" "report_ok p" "mirrors nt" "nt_remote nt \<noteq> None"
    and "sk_listing K = Lists" "\<And>n. sk_reads K n" "length (nt_local nt') < 1000000"
    and "\<And>e t. Some e \<in> set (nt_local nt') \<Longrightarrow> get ''notarized_at'' e = JStr t \<Longrightarrow> stamp_text t"
    and "\<And>e. Some e \<in> set (nt_local nt') \<Longrightarrow> entry_ok W' b c nt' e"
  shows "verify_service W' b K c nt' = Inr HEALTHY"
proof -
  obtain objs where objs: "nt_remote nt = Some objs" using assms(4) by auto
  have grown: "nt_local nt' \<noteq> nt_local nt"
    using assms(1) objs by (auto simp: notarize_def Let_def split: sum.splits option.splits if_splits prod.splits)
  then have "nt_local nt' \<noteq> nt_local nt \<or> nt_remote nt' \<noteq> nt_remote nt" by blast
  then obtain entries names base v entry where
    e: "read_local nt = Inr entries"
    and n0: "(case nt_remote nt of None \<Rightarrow> Some [] | Some objs \<Rightarrow> listed K objs) = Some names"
    and "\<not> list_ex (\<lambda>s. length entries < s) (seq_list names)"
    and bd: "build_notary_entry W a (nt_vault nt) = (Inr base, v)" and s: "stamped st base = Some entry"
    and l: "nt_local nt' = nt_local nt @ [Some entry]"
    and "nt_vault nt' = v"
    and r: "case nt_remote nt of
       None \<Rightarrow> nt_remote nt' = None
     | Some objs \<Rightarrow> (Inr p = Inl EntryMalformed \<and> nt_remote nt' = Some objs) \<or>
         (\<exists>objs'. push_entry K (w_now W) entries entry (seqs_of names) objs = (Inr p, objs') \<and> nt_remote nt' = Some objs')"
    by (rule notarize_appends [OF assms(1)])
  from n0 objs have n: "listed K objs = Some names" by simp
  from r objs obtain objs' where push: "push_entry K (w_now W) entries entry (seqs_of names) objs = (Inr p, objs')"
    and o': "nt_remote nt' = Some objs'" by auto
  let ?es = "entries @ [entry]"
  have loc: "read_local nt' = Inr ?es" "set (nt_local nt') = Some ` set ?es" "length (nt_local nt') = length ?es"
    using e l by (auto simp: read_local_Inr image_iff) (metis option.collapse)+
  have time: "get ''notarized_at'' entry = JStr (w_now W)"
    using build_entry_time [OF bd] stamped_time [OF s] by simp
  have m: "distinct (map fst objs)" "\<forall>ob \<in> set objs. image_of entries ob"
    using assms(3) objs e by (auto simp: mirrors_def read_local_Inr)
  note pm = push_entry_mirrors [OF push m time]
  have len: "length ?es < 1000000" using assms(7) loc(3) by simp
  have st: "stamp_text t" if "x \<in> set ?es" "get ''notarized_at'' x = JStr t" for x t
    using assms(8) that loc(2) by blast
  have ok: "entry_ok W' b c nt' x" if "x \<in> set ?es" for x using assms(9) that loc(2) by blast
  obtain names' where n': "listed K objs' = Some names'" "set names' = {q \<in> fst ` set objs'. entry_seq q \<noteq> None}"
    using listed_names [OF assms(5)] by blast
  have seqs: "seqs_of names' = {1..length ?es}"
  proof (intro set_eqI iffI)
    fix q assume "q \<in> seqs_of names'"
    then obtain x where "x \<in> fst ` set objs'" "entry_seq x = Some q" using n'(2) by (auto simp: seqs_of_def)
    then show "q \<in> {1..length ?es}" using mirrored_seqs [of objs' ?es x q] pm len st by blast
  next
    fix q assume q: "q \<in> {1..length ?es}"
    have named: "q \<in> seqs_of names'" if "entry_name q t \<in> fst ` set objs'" "stamp_text t" for t
    proof -
      have "entry_seq (entry_name q t) = Some q" using that(2) q len by (intro entry_seq_name) auto
      moreover from this that(1) have "entry_name q t \<in> set names'" unfolding n'(2) by simp
      ultimately show ?thesis by (auto simp: seqs_of_def)
    qed
    consider "q = length entries + 1" | "q \<in> {1..length entries}" "q \<in> seqs_of names"
      | "q \<in> {1..length entries}" "q \<notin> seqs_of names" using q by fastforce
    then show "q \<in> seqs_of names'"
    proof cases
      case 1
      with push_entry_complete(1) [OF push assms(2)] named st [OF _ time] show ?thesis by simp
    next
      case 2
      then obtain x where x: "x \<in> set names" "entry_seq x = Some q" by (auto simp: seqs_of_def)
      have "x \<in> fst ` set objs" using x(1) listed_names [OF assms(5), of objs] n by auto
      with pm x(2) have "x \<in> set names'" unfolding n'(2) by auto
      with x(2) show ?thesis by (auto simp: seqs_of_def)
    next
      case 3
      then obtain t where "get ''notarized_at'' (entries ! (q - 1)) = JStr t" "entry_name q t \<in> fst ` set objs'"
        using push_entry_complete(2) [OF push assms(2)] by blast
      moreover have "entries ! (q - 1) \<in> set ?es" using 3(1) by auto
      ultimately show ?thesis using named st by blast
    qed
  qed
  show ?thesis
  proof (rule healthyI [OF loc(1) _ _ o' n'(1) seqs])
    show "\<exists>x. object_content K objs' (name_for q names') = Some x \<and> entry_ok W' b c nt' x" if "q \<in> {1..length ?es}" for q
    proof -
      have "q \<in> seqs_of names'" using that seqs by simp
      then have "name_for q names' \<in> fst ` set objs'" using name_for_listed(1) n'(2) by auto
      moreover have "\<forall>ob \<in> set objs'. image_of ?es ob" using pm by blast
      ultimately obtain x where "x \<in> set ?es" "object_content K objs' (name_for q names') = Some x"
        using mirrored_content assms(6) by blast
      with ok show ?thesis by blast
    qed
  qed (use ok in auto)
qed

text \<open>What a healthy verdict means, exactly: the log decodes and is not empty, its last entry is valid for the live
  chain, the remote lists the numbers of the local entries and no other, and each listed object reads as some valid
  entry.\<close>

theorem healthy_iff:
  "verify_service W a K c nt = Inr HEALTHY \<longleftrightarrow>
   (\<exists>entries objs names. read_local nt = Inr entries \<and> entries \<noteq> [] \<and> entry_ok W a c nt (last entries) \<and>
     nt_remote nt = Some objs \<and> listed K objs = Some names \<and> seqs_of names = {1..length entries} \<and>
     list_all (\<lambda>s. \<exists>e. object_content K objs (name_for s names) = Some e \<and> entry_ok W a c nt e) [1..<length entries + 1])"
proof -
  have r: "list_all P [1..<n + 1] \<longleftrightarrow> (\<forall>s \<in> {1..n}. P s)" for P and n :: nat
    by (auto simp: list_all_iff less_Suc_eq_le simp del: upt_Suc)
  show ?thesis unfolding r using healthyI [of nt _ W a c _ K] healthyD [of W a K c nt] by blast
qed

text \<open>A healthy verdict never compares the two histories: one valid entry, copied under the number of every local
  entry, passes for the whole remote.\<close>

definition replayed :: "nat \<Rightarrow> json \<Rightarrow> objects" where
  "replayed n e = map (\<lambda>i. (entry_name (i + 1) ''Z'', Some e)) [0..<n]"

theorem replayed_remote_is_healthy:
  assumes "read_local nt = Inr entries" "entries \<noteq> []" "length entries < 1000000"
    and "entry_ok W a c nt (last entries)" "nt_remote nt = Some (replayed (length entries) (last entries))"
    and "sk_listing K = Lists" "\<And>n. sk_reads K n"
  shows "verify_service W a K c nt = Inr HEALTHY"
proof -
  let ?o = "replayed (length entries) (last entries)"
  obtain names where n: "listed K ?o = Some names" "set names = {q \<in> fst ` set ?o. entry_seq q \<noteq> None}"
    using listed_names [OF assms(6)] by blast
  have "stamp_text ''Z''" by (simp add: stamp_text_def name_char_def)
  then have num: "entry_seq (entry_name (i + 1) ''Z'') = Some (i + 1)" if "i < length entries" for i
    using that assms(3) by (intro entry_seq_name) auto
  have set: "set names = (\<lambda>i. entry_name (i + 1) ''Z'') ` {0..<length entries}"
    unfolding n(2) using num by (auto simp: replayed_def image_iff)
  have "seqs_of names = {s. \<exists>i \<in> {0..<length entries}. entry_seq (entry_name (i + 1) ''Z'') = Some s}"
    unfolding seqs_of_def set by blast
  also have "\<dots> = (\<lambda>i. i + 1) ` {0..<length entries}" using num by (auto simp: image_iff simp del: image_Suc_atLeastLessThan)
  also have "\<dots> = {1..length entries}" by (simp add: image_Suc_atLeastLessThan atLeastLessThanSuc_atLeastAtMost)
  finally have seqs: "seqs_of names = {1..length entries}" .
  show ?thesis
  proof (rule healthyI [OF assms(1,2,4,5) n(1) seqs])
    show "\<exists>e. object_content K ?o (name_for s names) = Some e \<and> entry_ok W a c nt e" if "s \<in> {1..length entries}" for s
    proof -
      have "name_for s names \<in> fst ` set ?o" using that seqs name_for_listed(1) n(2) by auto
      then have "\<exists>d. map_of ?o (name_for s names) = Some d" by (metis list.set_map map_of_eq_None_iff not_None_eq set_map)
      then obtain d where d: "map_of ?o (name_for s names) = Some d" by blast
      then have "d = Some (last entries)" using map_of_SomeD [OF d] by (auto simp: replayed_def)
      with d assms(4,7) show ?thesis by (simp add: object_content_def)
    qed
  qed
qed

text \<open>The rollback guard trusts a listing that fails quietly: with a remote that answers an error by listing nothing,
  a rolled back local log is notarized, whatever the remote holds.\<close>

theorem quiet_listing_disarms_the_rollback_guard:
  assumes "sk_listing K = ListsNothing"
  shows "fst (notarize W a K st nt) \<noteq> Inl Diverged"
proof -
  have named: "(case nt_remote nt of None \<Rightarrow> Some [] | Some objs \<Rightarrow> listed K objs) = Some []"
    using assms by (simp add: listed_def split: option.split)
  have pushed: "push_entry K now es e known objs = (Inl Diverged, objs') \<Longrightarrow> False" for now es e known objs objs'
    by (auto simp: push_entry_def Let_def simp del: upt_Suc split: prod.splits sum.splits dest: backfill_error)
  show ?thesis
  proof
    assume "fst (notarize W a K st nt) = Inl Diverged"
    then obtain nt' where "notarize W a K st nt = (Inl Diverged, nt')" by (metis prod.collapse)
    then show False
      using pushed unfolding notarize_def named
      by (auto simp: read_local_def seq_list_def Let_def split: option.splits prod.splits sum.splits if_splits)
  qed
qed

text \<open>The timestamp of an entry is not evidence by itself: anyone can add a proof that names the authority and the
  digest of the entry, and verification reports a valid third-party time without reading a token.\<close>

definition forged_time :: "(string \<Rightarrow> string) \<Rightarrow> json \<Rightarrow> json" where
  "forged_time H entry = set_field ''timestamp''
     (obj [(''source'', JStr ''rfc3161''), (''digest_sha256'', JStr (hex (H (canon_ascii entry)))), (''verified'', JBool True)]) entry"

lemma dict_put_filter:
  "k \<notin> fst ` set kvs \<Longrightarrow> filter (\<lambda>p. fst p \<noteq> k) (dict_put k x kvs) = kvs"
  by (induction k x kvs rule: dict_put.induct) (auto simp: filter_id_conv)

theorem forged_timestamps_are_reported_valid:
  assumes "verify_notary_entry X H a c reg entry = Inr (EntryValid tip n None)" "field ''timestamp'' entry = None"
    and "H (canon_ascii entry) \<noteq> []"
  shows "verify_notary_entry X H a c reg (forged_time H entry) = Inr (EntryValid tip n (Some (JStr ''rfc3161'')))"
proof -
  from assms(1) obtain kvs where kvs: "entry = JObj kvs" by (auto simp: verify_notary_entry_def result_simps is_obj_iff)
  have fresh: "KStr ''timestamp'' \<notin> fst ` set kvs" using assms(2) kvs by (auto simp: map_of_eq_None_iff)
  have same: "get k (forged_time H entry) = get k entry" if "k \<noteq> ''timestamp''" for k
    using that by (simp add: forged_time_def kvs field_or_def map_of_dict_put)
  have stripped: "without ''timestamp'' (forged_time H entry) = entry"
    using dict_put_filter [OF fresh] by (simp add: forged_time_def kvs)
  have ts: "check_timestamp H tip n (forged_time H entry) = Inr (EntryValid tip n (Some (JStr ''rfc3161'')))" for tip n
    unfolding check_timestamp_def stripped using assms(3)
    by (simp add: forged_time_def kvs field_or_def map_of_dict_put proof_of_json_def truthy_def Let_def)
  have obj: "is_obj (forged_time H entry)" "is_obj entry" by (simp_all add: forged_time_def kvs)
  have none: "check_timestamp H t m entry = Inr (EntryValid t m None)" for t m
    using assms(2) by (simp add: check_timestamp_def field_or_def)
  let ?an = "get ''anchor'' entry" and ?snap = "get ''snapshot'' (get ''anchor'' entry)"
  from assms(1) obj(2) obtain sig pub r0 where
    "is_obj ?an" "field ''snapshot'' ?an \<noteq> None" "optional_hex (get ''signature'' ?an) = Inr sig"
    "optional_hex (get ''public_key'' ?an) = Inr pub" "load_registry reg = Inr r0" "is_registered (adopt a r0) pub = Inr True"
    "verify_signature X (canon_ascii ?snap) sig pub (field_or ''key_algorithm'' (JStr ED25519) ?an) = Inr True"
    "is_obj ?snap" "has_tip c (field_or ''tip_hash'' (JStr []) ?snap)"
    and "tip = field_or ''tip_hash'' (JStr []) ?snap" "n = get ''record_count'' ?snap"
    unfolding verify_notary_entry_def none by (auto simp: Let_def result_simps split: if_splits)
  with obj(1) show ?thesis
    unfolding verify_notary_entry_def ts by (simp add: same Let_def)
qed

section \<open>Witnesses\<close>

definition open_sink :: sink_env where
  "open_sink = \<lparr>sk_listing = Lists, sk_accepts = (\<lambda>n. True), sk_reads = (\<lambda>n. True)\<rparr>"

definition new_notary :: notary where
  "new_notary = \<lparr>nt_local = [], nt_remote = Some [], nt_vault = new_vault\<rparr>"

definition year_world :: "chain \<Rightarrow> world" where
  "year_world c = (toy_world c)\<lparr>w_now := ''2026''\<rparr>"

abbreviation "toy_anchor \<equiv> signing_anchor (toy_signer ''k'')"

lemma first_notarization:
  assumes "length (rows c) = 1"
  obtains p nt' e where "notarize (year_world c) toy_anchor open_sink None new_notary = (Inr p, nt')" "report_ok p"
    "nt_local nt' = [Some e]" "get ''notarized_at'' e = JStr ''2026''" "field ''timestamp'' e = None"
    "verify_notary_entry toy_check (\<lambda>s. s) toy_anchor c (registry_file (nt_vault nt')) e =
       Inr (EntryValid (JStr (last_hash c)) (JInt 1) None)"
proof -
  obtain rec v where an: "anchor_chain (\<lambda>s. s) toy_anchor ''/db'' ''2026'' (Some c) new_vault = (Inr rec, v)"
    by (simp add: anchor_chain_def signing_anchor_def toy_signer_def Let_def)
  let ?e = "obj [(''notarized_at'', JStr ''2026''), (''anchor'', rec)]"
  have b: "build_notary_entry (year_world c) toy_anchor new_vault = (Inr ?e, v)"
    using an by (simp add: build_notary_entry_def new_vault_def year_world_def toy_world_def)
  have tip: "tip_of_entry ?e = Some (JStr (last_hash c))"
    using an by (auto simp: tip_of_entry_def anchor_chain_Inr snapshot_of_def)
  obtain p o' where push: "push_entry open_sink ''2026'' [] ?e {} [] = (Inr p, o')" "report_ok p"
    by (simp add: push_entry_def open_sink_def report_ok_def)
  have "notarize (year_world c) toy_anchor open_sink None new_notary =
      (Inr p, \<lparr>nt_local = [Some ?e], nt_remote = Some o', nt_vault = v\<rparr>)"
    using b tip push by (simp add: notarize_def read_local_def new_notary_def listed_def open_sink_def stamped_def
        seq_list_def seqs_of_def year_world_def toy_world_def)
  moreover have "registry_file v = registry_file new_vault"
    using anchor_chain_registry [of "\<lambda>s. s" toy_anchor "''/db''" "''2026''" "Some c" new_vault] an by simp
  moreover have v: "verify_notary_entry toy_check (\<lambda>s. s) toy_anchor c (registry_file new_vault) ?e =
       Inr (EntryValid (JStr (last_hash c)) (JInt 1) None)"
    using own_entries_verify [OF an toy_honest] toy_usable [of "''k''"] assms by (fastforce simp: new_vault_def)
  ultimately show thesis
    by (intro that [of p _ ?e]) (simp_all only: push notary.select_convs, simp_all add: field_or_def)
qed

lemma new_notary_mirrors: "mirrors new_notary"
  by (simp add: mirrors_def new_notary_def)

lemma year_stamp: "stamp_text ''2026''"
  by (simp add: stamp_text_def name_char_def is_digit_def)

text \<open>From the millionth entry on, the names have seven digits before the dash and are not listed.\<close>

lemma show_nat_bound: "n < 10 ^ length (show_nat n)"
proof (induction n rule: show_nat.induct)
  case (1 n)
  show ?case
  proof (cases "n < 10")
    case True
    then show ?thesis by (subst show_nat.simps) simp
  next
    case False
    with 1 have "n div 10 < 10 ^ length (show_nat (n div 10))" by simp
    then have "n < 10 * 10 ^ length (show_nat (n div 10))" by simp
    with False show ?thesis by (subst show_nat.simps) simp
  qed
qed

theorem seventh_digit_is_not_listed:
  "entry_seq (entry_name (1000000 + n) t) = None"
proof -
  let ?d = "show_nat (1000000 + n)"
  have len: "6 < length ?d"
  proof (rule ccontr)
    assume "\<not> 6 < length ?d"
    then have "(10 :: nat) ^ length ?d \<le> 10 ^ 6" by (intro power_increasing) simp_all
    with show_nat_bound [of "1000000 + n"] show False by simp
  qed
  then have name: "entry_name (1000000 + n) t = ?d @ ''-'' @ filter (\<lambda>ch. ch \<noteq> CHR '':'') t @ ''.line''"
    by (simp add: entry_name_def pad6_def)
  let ?s = "entry_name (1000000 + n) t"
  have "?s ! 6 = ?d ! 6" "butlast ?s ! 6 = ?d ! 6" using len by (simp_all add: name nth_append butlast_append)
  moreover have "is_digit (?d ! 6)" using show_nat_digits len nth_mem by blast
  ultimately have "?s ! 6 \<noteq> CHR ''-''" "butlast ?s ! 6 \<noteq> CHR ''-''" by (auto simp: is_digit_def)
  then show ?thesis by (simp add: entry_seq_def Let_def)
qed

definition mirrored_notary :: notary where
  "mirrored_notary = new_notary\<lparr>nt_local := [Some (obj [(''notarized_at'', JStr ''2026'')])],
     nt_remote := Some [(entry_name 1 ''2026'', Some (obj [(''notarized_at'', JStr ''2026'')]))]\<rparr>"

lemma mirrored_notary_mirrors: "mirrors mirrored_notary"
  by (auto simp: mirrors_def mirrored_notary_def image_of_def field_or_def intro!: exI [of _ "''2026''"])

theorem remote_mirrors_the_local_log_witness:
  "case notarize (year_world empty_chain) toy_anchor open_sink None mirrored_notary of
     (x, nt') \<Rightarrow> mirrors nt' \<and> (\<exists>objs. nt_remote nt' = Some objs \<and> entry_name 1 ''2026'' \<in> fst ` set objs)"
proof -
  obtain x nt' where n: "notarize (year_world empty_chain) toy_anchor open_sink None mirrored_notary = (x, nt')"
    by (cases "notarize (year_world empty_chain) toy_anchor open_sink None mirrored_notary")
  from remote_mirrors_the_local_log [OF mirrored_notary_mirrors n] n show ?thesis
    by (auto simp: mirrored_notary_def)
qed

theorem successful_notarization_is_healthy_witness:
  "\<exists>c p nt'. notarize (year_world c) toy_anchor open_sink None new_notary = (Inr p, nt') \<and>
     verify_service (year_world c) toy_anchor open_sink c nt' = Inr HEALTHY"
proof -
  obtain c :: chain where c: "length (rows c) = 1" by (rule one_record_chain)
  obtain p nt' e where n: "notarize (year_world c) toy_anchor open_sink None new_notary = (Inr p, nt')" "report_ok p"
    "nt_local nt' = [Some e]" "get ''notarized_at'' e = JStr ''2026''"
    and v: "verify_notary_entry toy_check (\<lambda>s. s) toy_anchor c (registry_file (nt_vault nt')) e =
       Inr (EntryValid (JStr (last_hash c)) (JInt 1) None)"
    by (rule first_notarization [OF c])
  have "entry_ok (year_world c) toy_anchor c nt' e"
    using v by (simp add: entry_ok_def entry_checker_def year_world_def toy_world_def is_valid_def)
  then have "verify_service (year_world c) toy_anchor open_sink c nt' = Inr HEALTHY"
    using n year_stamp
    by (intro successful_notarization_is_healthy [OF n(1,2) new_notary_mirrors]) (auto simp: new_notary_def open_sink_def)
  with n(1) show ?thesis by blast
qed

theorem replayed_remote_is_healthy_witness:
  "\<exists>c nt. verify_service (year_world c) toy_anchor open_sink c nt = Inr HEALTHY \<and> length (nt_local nt) = 2"
proof -
  obtain c :: chain where c: "length (rows c) = 1" by (rule one_record_chain)
  obtain p nt' e where "notarize (year_world c) toy_anchor open_sink None new_notary = (Inr p, nt')" "report_ok p"
    and n: "nt_local nt' = [Some e]" "get ''notarized_at'' e = JStr ''2026''" "field ''timestamp'' e = None"
    and v: "verify_notary_entry toy_check (\<lambda>s. s) toy_anchor c (registry_file (nt_vault nt')) e =
       Inr (EntryValid (JStr (last_hash c)) (JInt 1) None)"
    by (rule first_notarization [OF c])
  let ?nt = "nt'\<lparr>nt_local := [Some JNull, Some e], nt_remote := Some (replayed 2 e)\<rparr>"
  have "entry_ok (year_world c) toy_anchor c ?nt (last [JNull, e])"
    using v by (simp add: entry_ok_def entry_checker_def year_world_def toy_world_def is_valid_def)
  then have "verify_service (year_world c) toy_anchor open_sink c ?nt = Inr HEALTHY"
    by (intro replayed_remote_is_healthy [of _ "[JNull, e]"]) (auto simp: read_local_def open_sink_def numeral_2_eq_2)
  then show ?thesis by (intro exI [of _ c] exI [of _ ?nt]) simp
qed

theorem quiet_listing_disarms_the_rollback_guard_witness:
  "\<exists>c. fst (notarize (year_world c) toy_anchor (open_sink\<lparr>sk_listing := ListsNothing\<rparr>) None
      (new_notary\<lparr>nt_remote := Some (replayed 9 JNull)\<rparr>)) \<noteq> Inl Diverged"
  using quiet_listing_disarms_the_rollback_guard [of "open_sink\<lparr>sk_listing := ListsNothing\<rparr>"] by (simp add: open_sink_def)

theorem forged_timestamps_are_reported_valid_witness:
  "\<exists>c e n. verify_notary_entry toy_check (\<lambda>s. s) toy_anchor c None (forged_time (\<lambda>s. s) e) =
     Inr (EntryValid (JStr (last_hash c)) n (Some (JStr ''rfc3161'')))"
proof -
  obtain c :: chain where c: "length (rows c) = 1" by (rule one_record_chain)
  obtain rec v where an: "anchor_chain (\<lambda>s. s) toy_anchor ''/db'' ''2026'' (Some c) new_vault = (Inr rec, v)"
    by (simp add: anchor_chain_def signing_anchor_def toy_signer_def Let_def)
  let ?e = "obj [(''notarized_at'', JStr ''2026''), (''anchor'', rec)]"
  have v: "verify_notary_entry toy_check (\<lambda>s. s) toy_anchor c None ?e =
       Inr (EntryValid (JStr (last_hash c)) (JInt 1) None)"
    using own_entries_verify [OF an toy_honest] toy_usable [of "''k''"] c by (fastforce simp: new_vault_def)
  have "canon_ascii ?e \<noteq> []"
    by (simp add: canon_ascii_def ascii_text_def ascii_char_def)
  from forged_timestamps_are_reported_valid [OF v _ this] show ?thesis
    by (intro exI [of _ c] exI [of _ ?e] exI [of _ "JInt 1"]) simp
qed

end
