(* ===== verification/Agent_Loop.thy ===== *)
theory Agent_Loop
  imports Json_Ascii Pytext Ledger_Merkle
begin

text \<open>
  The deterministic agent loop (\<^verbatim>\<open>RalphLoopHarness\<close> and
  \<^verbatim>\<open>LoopMemory\<close> of \<^verbatim>\<open>src/src/msb_v3/agent/execution_loop.py\<close>):
  the persisted status and the way it is saved, the budget, scope and stagnation guards, the evaluation of an
  iteration, the annealing of errors and the main loop. The action of an iteration is a parameter over a state
  \<open>'w\<close> of its own; it may change the status and the context it is handed. Amounts are exact: the costs have six
  decimals and the scores, sixths of ten-thousandths, never round at a tie.
\<close>

section \<open>Status\<close>

datatype loop_phase = READY | RUNNING | COMPLETED | FAILED | OPEN

record locks =
  lk_scope :: string
  lk_mission :: string
  lk_ethics :: string
  lk_tools :: string

record limits =
  li_spent :: rat
  li_cap :: rat
  li_max :: int
  li_stall :: int

record usage =
  us_prompt :: int
  us_completion :: int
  us_cpu :: rat
  us_gpu :: rat
  us_writes :: int

record scores =
  sc_novelty :: rat
  sc_correctness :: rat
  sc_completeness :: rat
  sc_evidence :: rat
  sc_confidence :: rat
  sc_risk :: rat
  sc_score :: rat
  sc_changed :: bool

record improvement =
  im_iteration :: nat
  im_score :: rat
  im_patch :: "string option"        \<comment> \<open>None: accepted as a candidate\<close>

record directive =
  dv_error :: string
  dv_diagnosis :: string
  dv_fix :: string
  dv_iteration :: nat

record loop_output =                 \<comment> \<open>the dictionary \<^verbatim>\<open>result\<close>\<close>
  lo_goal :: "string option"
  lo_scope :: "(nat \<times> string) list"
  lo_mission :: "(string \<times> string \<times> string list) option"
  lo_improvements :: "improvement list"
  lo_anneals :: "directive list"
  lo_eval :: "scores option"
  lo_last :: "string option"

datatype log_line = ScopeLine nat | PatchLine string | AnnealLine string string

record status =
  st_loop :: string
  st_phase :: loop_phase
  st_current :: nat                  \<comment> \<open>the number in \<^verbatim>\<open>iteration_n\<close>\<close>
  st_next :: string
  st_out :: loop_output
  st_artifacts :: string
  st_locks :: locks
  st_limits :: limits
  st_usage :: usage
  st_logs :: "log_line list"
  st_iterations :: nat

definition fresh_status :: status where
  "fresh_status = \<lparr>st_loop = [], st_phase = READY, st_current = 0, st_next = [],
     st_out = \<lparr>lo_goal = None, lo_scope = [], lo_mission = None, lo_improvements = [], lo_anneals = [], lo_eval = None, lo_last = None\<rparr>,
     st_artifacts = [], st_locks = \<lparr>lk_scope = [], lk_mission = [], lk_ethics = [], lk_tools = []\<rparr>,
     st_limits = \<lparr>li_spent = 0, li_cap = 1, li_max = 12, li_stall = 3\<rparr>,
     st_usage = \<lparr>us_prompt = 0, us_completion = 0, us_cpu = 0, us_gpu = 0, us_writes = 0\<rparr>,
     st_logs = [], st_iterations = 0\<rparr>"

section \<open>The status file\<close>

datatype status_file = Absent | Corrupt | Holds status

record disk =
  dk_primary :: status_file
  dk_backup :: status_file
  dk_locked :: bool

definition read_status :: "disk \<Rightarrow> status option" where
  \<comment> \<open>None: a corrupt backup raises\<close>
  "read_status d = (case dk_primary d of
     Absent \<Rightarrow> Some fresh_status
   | Holds s \<Rightarrow> Some s
   | Corrupt \<Rightarrow> (case dk_backup d of Absent \<Rightarrow> Some fresh_status | Holds s \<Rightarrow> Some s | Corrupt \<Rightarrow> None))"

definition save_steps :: "status \<Rightarrow> disk \<Rightarrow> disk list" where
  \<comment> \<open>the disk after each step of \<^verbatim>\<open>_write_status\<close>: temporary file, rename onto the primary, rename
     of the primary onto the backup, temporary file, rename onto the primary\<close>
  "save_steps s d =
     (let d2 = d\<lparr>dk_primary := Holds s\<rparr>; d3 = d2\<lparr>dk_primary := Absent, dk_backup := Holds s\<rparr>
      in [d, d2, d3, d3, d3\<lparr>dk_primary := Holds s\<rparr>])"

definition write_status :: "status \<Rightarrow> disk \<Rightarrow> disk" where
  "write_status s d = last (save_steps s d)"

section \<open>Hashes and locks\<close>

definition hash_content :: "(string \<Rightarrow> string) \<Rightarrow> string \<Rightarrow> string" where
  "hash_content H s = take 16 (hex (H s))"

type_synonym files = "(string \<times> string) list"     \<comment> \<open>relative path and content, in path order\<close>

definition artifacts_hash :: "(string \<Rightarrow> string) \<Rightarrow> files \<Rightarrow> string" where
  "artifacts_hash H fs = take 16 (hex (H (concat (map (\<lambda>(rel, body). rel @ body) fs))))"

definition default_dumps :: "json \<Rightarrow> string" where
  \<comment> \<open>\<^verbatim>\<open>json.dumps(v)\<close>\<close>
  "default_dumps v = ascii_text (dumps '', '' '': '' v)"

definition hash_mission :: "(string \<Rightarrow> string) \<Rightarrow> string \<Rightarrow> string \<Rightarrow> string list \<Rightarrow> string" where
  "hash_mission H mission ethics tools =
     hash_content H (default_dumps (sort_keys (obj [(''mission'', JStr mission), (''ethics'', JStr ethics),
       (''allowed_tools'', JList (map JStr (sort tools)))])))"

definition bind_mission :: "(string \<Rightarrow> string) \<Rightarrow> string \<Rightarrow> string \<Rightarrow> string list \<Rightarrow> status \<Rightarrow> status" where
  "bind_mission H mission ethics tools s =
     s\<lparr>st_locks := (st_locks s)\<lparr>lk_mission := hash_mission H mission ethics tools, lk_ethics := hash_content H ethics,
         lk_tools := hash_content H (default_dumps (JList (map JStr (sort tools))))\<rparr>,
       st_out := (st_out s)\<lparr>lo_mission := Some (mission, ethics, sort tools)\<rparr>\<rparr>"

definition bind_scope :: "(string \<Rightarrow> string) \<Rightarrow> string \<Rightarrow> status \<Rightarrow> status" where
  "bind_scope H goal s =
     s\<lparr>st_locks := (st_locks s)\<lparr>lk_scope := hash_content H goal\<rparr>, st_out := (st_out s)\<lparr>lo_goal := Some goal, lo_scope := []\<rparr>\<rparr>"

definition scope_json :: "(nat \<times> string) list \<Rightarrow> json" where
  "scope_json es = JList (map (\<lambda>(n, t). obj [(''at_iteration'', JInt (int n)), (''new_scope'', JStr t)]) es)"

definition evolve_scope :: "(string \<Rightarrow> string) \<Rightarrow> string \<Rightarrow> status \<Rightarrow> status" where
  "evolve_scope H scope s =
     (let es = lo_scope (st_out s) @ [(st_iterations s, scope)] in
      s\<lparr>st_out := (st_out s)\<lparr>lo_scope := es\<rparr>,
        st_locks := (st_locks s)\<lparr>lk_scope := hash_content H (default_dumps (scope_json es))\<rparr>,
        st_logs := st_logs s @ [ScopeLine (st_iterations s)]\<rparr>)"

section \<open>Evaluation and annealing\<close>

definition round4 :: "rat \<Rightarrow> rat" where
  "round4 x = of_int (round (x * 10000)) / 10000"

definition evaluate :: "string \<Rightarrow> nat \<Rightarrow> string \<Rightarrow> string \<Rightarrow> scores" where
  "evaluate txt_out written prev cur =
     (let novelty = min 1 (of_nat (length (py_split txt_out)) / 200);
          correctness = (if contains ''[DONE]'' (ascii_upper txt_out) \<or> 0 < written then 1 else 1/2);
          completeness = (if 2 \<le> written then 9/10 else if written = 1 then 1/2 else 1/10);
          evidence = (if 0 < written then 8/10 else 0)
      in \<lparr>sc_novelty = round4 novelty, sc_correctness = correctness, sc_completeness = completeness, sc_evidence = evidence,
          sc_confidence = 75/100, sc_risk = 1/10,
          sc_score = round4 ((novelty + correctness + completeness + evidence + 75/100 + (1 - 1/10)) / 6),
          sc_changed = (prev \<noteq> cur)\<rparr>)"

definition weak_axes :: "scores \<Rightarrow> string list" where
  \<comment> \<open>the values below one half, the boolean read as a number, the score itself skipped\<close>
  "weak_axes e =
     map fst (filter snd
       [(''novelty'', sc_novelty e < 1/2), (''correctness'', sc_correctness e < 1/2), (''completeness'', sc_completeness e < 1/2),
        (''evidence'', sc_evidence e < 1/2), (''confidence'', sc_confidence e < 1/2), (''risk'', sc_risk e < 1/2),
        (''changed'', \<not> sc_changed e)])"

definition propose_patch :: "scores \<Rightarrow> string" where
  "propose_patch e = (if weak_axes e = [] then ''increase_artifact_diversity'' else ''strengthen_'' @ join_with ''_'' (weak_axes e))"

definition maybe_improve :: "scores \<Rightarrow> status \<Rightarrow> string option \<times> status" where
  "maybe_improve e s =
     (let entry = (\<lambda>p. \<lparr>im_iteration = st_iterations s, im_score = sc_score e, im_patch = p\<rparr>);
          log_it = (\<lambda>p. s\<lparr>st_out := (st_out s)\<lparr>lo_improvements := lo_improvements (st_out s) @ [entry p]\<rparr>\<rparr>)
      in if 85/100 \<le> sc_score e then (None, log_it None)
         else if sc_score e < 4/10
         then (Some (propose_patch e),
               (log_it (Some (propose_patch e)))\<lparr>st_logs := st_logs s @ [PatchLine (propose_patch e)]\<rparr>)
         else (None, s))"

definition diagnose :: "string \<Rightarrow> string" where
  "diagnose err =
     (let e = py_lower err in
      if contains ''budget'' e \<or> contains ''cost'' e then ''budget_exhausted''
      else if contains ''timeout'' e \<or> contains ''stall'' e then ''stall_detected''
      else if contains ''scope'' e \<or> contains ''hash'' e then ''scope_mismatch''
      else ''unknown_failure'')"

definition presets :: "(string \<times> string) list" where
  "presets = [(''budget_exhausted'', ''reduce_scope_or_abort''), (''stall_detected'', ''restart_from_checkpoint''),
     (''scope_mismatch'', ''evolve_scope_with_approval''), (''unknown_failure'', ''quarantine_and_escalate'')]"

definition prescribe :: "string \<Rightarrow> string" where
  "prescribe d = (case map_of presets d of None \<Rightarrow> ''escalate_to_operator'' | Some f \<Rightarrow> f)"

definition anneal :: "string \<Rightarrow> status \<Rightarrow> string \<times> status" where
  "anneal err s =
     (let d = diagnose err; fx = prescribe d in
      (fx, s\<lparr>st_out := (st_out s)\<lparr>lo_anneals := lo_anneals (st_out s) @
               [\<lparr>dv_error = err, dv_diagnosis = d, dv_fix = fx, dv_iteration = st_iterations s\<rparr>]\<rparr>,
             st_logs := st_logs s @ [AnnealLine d fx]\<rparr>))"

definition account_resources :: "usage \<Rightarrow> status \<Rightarrow> status" where
  \<comment> \<open>the reported amounts, with their defaults in place\<close>
  "account_resources u s =
     (let v = st_usage s;
          w = \<lparr>us_prompt = us_prompt v + us_prompt u, us_completion = us_completion v + us_completion u,
               us_cpu = us_cpu v + us_cpu u, us_gpu = us_gpu v + us_gpu u, us_writes = us_writes v + us_writes u\<rparr>
      in s\<lparr>st_usage := w, st_limits := (st_limits s)\<lparr>li_spent := of_int (us_completion w) / 1000 * (1/1000)\<rparr>\<rparr>)"

section \<open>The loop\<close>

record context_in =
  cx_mission :: "string option"
  cx_ethics :: "string option"
  cx_tools :: "string list option"
  cx_scope :: string                 \<comment> \<open>\<^verbatim>\<open>current_scope_hash\<close>; empty when absent\<close>
  cx_resources :: "usage option"     \<comment> \<open>None when absent or empty\<close>

datatype action_outcome = Finished string string | Raised_Error string     \<comment> \<open>text and error; an empty error is none\<close>

type_synonym 'w action = "string \<Rightarrow> status \<Rightarrow> context_in \<Rightarrow> 'w \<Rightarrow> action_outcome \<times> status \<times> context_in \<times> 'w"

datatype breaker = BUDGET | SCOPE | STAGNATION

datatype journal_event =
    LoopStart
  | Broke breaker
  | Annealed string string
  | Patched string
  | Iterated nat
  | EndedEscalated nat
  | EndedCompleted nat
  | EndedExhausted nat

datatype loop_exit = Completed | Exhausted | Escalated string | Tripped breaker | Unreadable

record 'w loop =
  lp_status :: status
  lp_ctx :: context_in
  lp_world :: 'w
  lp_disk :: disk
  lp_journal :: "journal_event list"

definition save :: "status \<Rightarrow> journal_event list \<Rightarrow> 'w loop \<Rightarrow> 'w loop" where
  \<comment> \<open>\<^verbatim>\<open>_write_status\<close>, then the journal\<close>
  "save s es l = l\<lparr>lp_status := s, lp_disk := write_status s (lp_disk l), lp_journal := lp_journal l @ es\<rparr>"

definition is_complete :: "string \<Rightarrow> bool" where
  "is_complete out_text \<longleftrightarrow> out_text \<noteq> [] \<and>
     list_ex (\<lambda>sig. contains sig (ascii_upper out_text)) [''[DONE]'', ''COMPLETE'', ''FINAL'', ''TERMINAL'']"

datatype step_end = Stop loop_exit | Go nat string      \<comment> \<open>consecutive unchanged iterations, last artifacts hash\<close>

definition finish_iteration ::
  "(string \<Rightarrow> string) \<Rightarrow> ('w \<Rightarrow> files) \<Rightarrow> string \<Rightarrow> nat \<Rightarrow> string \<Rightarrow> 'w loop \<Rightarrow> step_end \<times> 'w loop" where
  \<comment> \<open>after an action without an error: stagnation, evaluation, accounting, completion\<close>
  "finish_iteration H files out_text unchanged last_hash l =
     (let h = artifacts_hash H (files (lp_world l));
          s1 = (lp_status l)\<lparr>st_artifacts := h\<rparr>;
          n = (if h \<noteq> [] \<and> h = last_hash then unchanged + 1 else 0)
      in if li_stall (st_limits s1) \<le> int n
         then (Stop (Tripped STAGNATION), save (s1\<lparr>st_phase := OPEN\<rparr>) [Broke STAGNATION] l)
         else (let e = evaluate out_text (length (files (lp_world l))) h h;
                   s2 = s1\<lparr>st_out := (st_out s1)\<lparr>lo_eval := Some e\<rparr>\<rparr>
               in case maybe_improve e s2 of
                    (Some p, s3) \<Rightarrow> (Go n h, save (s3\<lparr>st_next := p\<rparr>) [Patched p] l)
                  | (None, s3) \<Rightarrow>
                      (let s4 = s3\<lparr>st_out := (st_out s3)\<lparr>lo_last := Some out_text\<rparr>, st_next := ''next''\<rparr>;
                           s5 = (case cx_resources (lp_ctx l) of None \<Rightarrow> s4 | Some u \<Rightarrow> account_resources u s4);
                           l5 = save s5 [Iterated (st_iterations s5)] (l\<lparr>lp_ctx := (lp_ctx l)\<lparr>cx_resources := None\<rparr>\<rparr>)
                       in if is_complete out_text
                          then (Stop Completed, save (s5\<lparr>st_phase := COMPLETED\<rparr>) [EndedCompleted (st_iterations s5)] l5)
                          else (Go n h, l5))))"

definition iterate_once ::
  "(string \<Rightarrow> string) \<Rightarrow> 'w action \<Rightarrow> ('w \<Rightarrow> files) \<Rightarrow> string \<Rightarrow> nat \<Rightarrow> nat \<Rightarrow> string \<Rightarrow> 'w loop \<Rightarrow> step_end \<times> 'w loop" where
  "iterate_once H act files goal i unchanged last_hash l =
     (let s = (lp_status l)\<lparr>st_iterations := i + 1, st_current := i + 1\<rparr> in
      if li_cap (st_limits s) \<le> li_spent (st_limits s)
      then (Stop (Tripped BUDGET), save (s\<lparr>st_phase := OPEN\<rparr>) [Broke BUDGET] l)
      else if lk_scope (st_locks s) \<noteq> [] \<and> cx_scope (lp_ctx l) \<noteq> [] \<and> lk_scope (st_locks s) \<noteq> cx_scope (lp_ctx l)
      then (Stop (Tripped SCOPE), save (s\<lparr>st_phase := OPEN\<rparr>) [Broke SCOPE] l)
      else (case act goal s (lp_ctx l) (lp_world l) of (out, s', ctx, w) \<Rightarrow>
        (let l' = l\<lparr>lp_status := s', lp_ctx := ctx, lp_world := w\<rparr>;
             (out_text, err) = (case out of Finished t e \<Rightarrow> (t, e) | Raised_Error e \<Rightarrow> ([], e))
         in if err \<noteq> []
            then (case anneal err s' of (fx, s2) \<Rightarrow>
              (let l2 = save (s2\<lparr>st_next := fx\<rparr>) [Annealed fx err] l' in
               if fx = ''escalate_to_operator''
               then (Stop (Escalated err), save (s2\<lparr>st_next := fx, st_phase := FAILED\<rparr>) [EndedEscalated (st_iterations s2)] l2)
               else (Go unchanged last_hash, l2)))
            else finish_iteration H files out_text unchanged last_hash l')))"

fun run_from ::
  "(string \<Rightarrow> string) \<Rightarrow> 'w action \<Rightarrow> ('w \<Rightarrow> files) \<Rightarrow> string \<Rightarrow> nat list \<Rightarrow> nat \<Rightarrow> string \<Rightarrow> 'w loop \<Rightarrow> loop_exit \<times> 'w loop" where
  "run_from H act files goal [] unchanged last_hash l =
     (Exhausted, save ((lp_status l)\<lparr>st_phase := OPEN\<rparr>) [EndedExhausted (st_iterations (lp_status l))] l)"
| "run_from H act files goal (i # is) unchanged last_hash l =
     (case iterate_once H act files goal i unchanged last_hash l of
        (Stop x, l') \<Rightarrow> (x, l')
      | (Go n h, l') \<Rightarrow> run_from H act files goal is n h l')"

declare run_from.simps [simp del]

definition prepare :: "(string \<Rightarrow> string) \<Rightarrow> string \<Rightarrow> string \<Rightarrow> context_in \<Rightarrow> status \<Rightarrow> status" where
  \<comment> \<open>the first lines of \<^verbatim>\<open>_run_loop\<close>\<close>
  "prepare H loop_id goal ctx s0 =
     (let s1 = s0\<lparr>st_loop := loop_id, st_phase := RUNNING\<rparr>;
          s2 = (if lk_scope (st_locks s1) = [] then bind_scope H goal s1 else s1)
      in if lk_mission (st_locks s2) = []
         then bind_mission H (case cx_mission ctx of None \<Rightarrow> goal | Some m \<Rightarrow> m)
                (case cx_ethics ctx of None \<Rightarrow> ''no_harm; verify_before_act'' | Some e \<Rightarrow> e)
                (case cx_tools ctx of None \<Rightarrow> [] | Some t \<Rightarrow> t) s2
         else s2)"

definition run_loop ::
  "(string \<Rightarrow> string) \<Rightarrow> 'w action \<Rightarrow> ('w \<Rightarrow> files) \<Rightarrow> string \<Rightarrow> string \<Rightarrow> context_in \<Rightarrow> 'w \<Rightarrow> disk \<Rightarrow> loop_exit \<times> 'w \<times> disk" where
  "run_loop H act files loop_id goal ctx w d = (case read_status d of
     None \<Rightarrow> (Unreadable, w, d)
   | Some s0 \<Rightarrow>
       (let s = prepare H loop_id goal ctx s0;
            l = \<lparr>lp_status = s, lp_ctx = ctx, lp_world = w, lp_disk = d, lp_journal = [LoopStart]\<rparr>
        in case run_from H act files goal [st_iterations s..<nat (li_max (st_limits s))] 0 (st_artifacts s) l of
             (x, l') \<Rightarrow> (x, lp_world l', lp_disk l')))"

datatype harness_result = ActionMissing | LockHeld | Ran loop_exit

definition execute ::
  "(string \<Rightarrow> string) \<Rightarrow> 'w action option \<Rightarrow> ('w \<Rightarrow> files) \<Rightarrow> string \<Rightarrow> string \<Rightarrow> context_in \<Rightarrow> 'w \<Rightarrow> disk \<Rightarrow>
     harness_result \<times> 'w \<times> disk" where
  "execute H action files loop_id goal ctx w d = (case action of
     None \<Rightarrow> (ActionMissing, w, d)
   | Some act \<Rightarrow>
       (if dk_locked d then (LockHeld, w, d)
        else (case run_loop H act files loop_id goal ctx w (d\<lparr>dk_locked := True\<rparr>) of
                (x, w', d') \<Rightarrow> (Ran x, w', d'\<lparr>dk_locked := False\<rparr>))))"

section \<open>The research action\<close>

record lab =
  lab_files :: files          \<comment> \<open>the artifacts\<close>
  lab_inbox :: nat

datatype chat_reply = Reply bool string | ChatRaised       \<comment> \<open>\<^verbatim>\<open>ok\<close> and the text of the payload\<close>

definition pad3 :: "nat \<Rightarrow> string" where
  "pad3 n = replicate (3 - length (show_nat n)) CHR ''0'' @ show_nat n"

definition finding_name :: "nat \<Rightarrow> string" where
  "finding_name n = ''finding_'' @ pad3 n @ ''.md''"

fun put_file :: "string \<Rightarrow> string \<Rightarrow> files \<Rightarrow> files" where
  "put_file n b [] = [(n, b)]"
| "put_file n b ((m, c) # r) =
     (if m = n then (n, b) # r else if m < n then (m, c) # put_file n b r else (n, b) # (m, c) # r)"

definition research_prompt :: "nat \<Rightarrow> string \<Rightarrow> nat \<Rightarrow> string option \<Rightarrow> string" where
  "research_prompt n goal sources prev =
     ''Iteration '' @ show_nat n @ '' of research loop. Goal: '' @ goal @ ''. Sources available: '' @ show_nat sources @
     ''. Previous output: '' @ (case prev of None \<Rightarrow> ''none'' | Some t \<Rightarrow> t) @ ''. Write a concise finding for this iteration.''"

definition research_action :: "(string \<Rightarrow> chat_reply) option \<Rightarrow> lab action" where
  "research_action chat goal s ctx w =
     (let n = st_iterations s; nl = [CHR 0x0A];
          small = \<lparr>us_prompt = 50, us_completion = 30, us_cpu = 1/10, us_gpu = 5/100, us_writes = 1\<rparr>;
          prompt = research_prompt n goal (lab_inbox w) (lo_last (st_out s));
          (body, u) = (case chat of
             None \<Rightarrow> (''# Finding '' @ show_nat n @ nl @ nl @ ''Goal: '' @ goal @ nl @ ''Sources: '' @ show_nat (lab_inbox w) @ nl, small)
           | Some f \<Rightarrow> (case f prompt of
               ChatRaised \<Rightarrow> (''[fallback] Research iteration '' @ show_nat n @ '' for: '' @ goal, small)
             | Reply ok t \<Rightarrow>
                 (let body = (if ok then t else ''[fallback] '' @ prompt)
                  in (body, \<lparr>us_prompt = int (length (py_split prompt)), us_completion = int (length (py_split body)),
                             us_cpu = 5/10, us_gpu = 2/10, us_writes = 1\<rparr>))))
      in (Finished (''Wrote '' @ finding_name n) [], s, ctx\<lparr>cx_resources := Some u\<rparr>,
          w\<lparr>lab_files := put_file (''artifacts/'' @ finding_name n) body (lab_files w)\<rparr>))"

section \<open>Memory of past runs\<close>

record memory_entry =
  me_time :: string
  me_summary :: json

type_synonym memory_index = "(string \<times> memory_entry) list option option"
  \<comment> \<open>no file; a file that does not decode; the index in insertion order\<close>

fun put_entry :: "string \<Rightarrow> memory_entry \<Rightarrow> (string \<times> memory_entry) list \<Rightarrow> (string \<times> memory_entry) list" where
  "put_entry k e [] = [(k, e)]"
| "put_entry k e ((j, f) # r) = (if j = k then (k, e) # r else (j, f) # put_entry k e r)"

definition memory_list :: "memory_index \<Rightarrow> (string \<times> memory_entry) list" where
  "memory_list m = (case m of Some (Some es) \<Rightarrow> es | _ \<Rightarrow> [])"

definition record_run :: "string \<Rightarrow> json \<Rightarrow> string \<Rightarrow> memory_index \<Rightarrow> memory_index" where
  "record_run k summary now m = Some (Some (put_entry k \<lparr>me_time = now, me_summary = summary\<rparr> (memory_list m)))"

definition recall_run :: "string \<Rightarrow> memory_index \<Rightarrow> memory_entry option" where
  "recall_run k m = map_of (memory_list m) k"

function count_from :: "string \<Rightarrow> string \<Rightarrow> nat" where
  \<comment> \<open>\<^verbatim>\<open>s.count(p)\<close> for a non-empty pattern: occurrences that do not overlap\<close>
  "count_from p s =
     (if p = [] \<or> s = [] then 0
      else if starts_with p s then 1 + count_from p (drop (length p) s)
      else count_from p (tl s))"
  by pat_completeness auto
termination
  by (relation "measure (\<lambda>(p, s). length s)") (auto simp: length_greater_0_conv)

declare count_from.simps [simp del]

definition py_count :: "string \<Rightarrow> string \<Rightarrow> nat" where
  "py_count p s = (if p = [] then length s + 1 else count_from p s)"

fun insert_score :: "nat \<times> 'a \<Rightarrow> (nat \<times> 'a) list \<Rightarrow> (nat \<times> 'a) list" where
  \<comment> \<open>descending, after the equal scores already there\<close>
  "insert_score x [] = [x]"
| "insert_score x (y # ys) = (if fst y < fst x then x # y # ys else y # insert_score x ys)"

definition search_runs :: "string \<Rightarrow> nat \<Rightarrow> memory_index \<Rightarrow> (string \<times> memory_entry) list" where
  "search_runs query limit m =
     (let q = py_lower query;
          scored = map (\<lambda>(k, e). (py_count q (py_lower (default_dumps (me_summary e))), k, e)) (memory_list m)
      in take limit (map snd (foldl (\<lambda>acc x. insert_score x acc) [] (filter (\<lambda>x. 0 < fst x) scored))))"

section \<open>Laws\<close>

lemma write_status_simps [simp]:
  "dk_primary (write_status s d) = Holds s" "dk_backup (write_status s d) = Holds s" "dk_locked (write_status s d) = dk_locked d"
  by (simp_all add: write_status_def save_steps_def Let_def)

lemma save_simps [simp]:
  "lp_status (save s es l) = s" "lp_world (save s es l) = lp_world l" "lp_ctx (save s es l) = lp_ctx l"
  "dk_primary (lp_disk (save s es l)) = Holds s"
  by (simp_all add: save_def)

lemma prescribe_diagnose: "prescribe (diagnose err) \<noteq> ''escalate_to_operator''"
  by (simp add: diagnose_def prescribe_def presets_def Let_def)

lemma anneal_fix: "anneal err s = (fx, s') \<Longrightarrow> fx \<noteq> ''escalate_to_operator''"
  using prescribe_diagnose by (auto simp: anneal_def Let_def)

lemma maybe_improve_status:
  "maybe_improve e s = (p, s') \<Longrightarrow> st_limits s' = st_limits s \<and> st_iterations s' = st_iterations s"
  by (auto simp: maybe_improve_def Let_def split: if_splits)

lemma account_limits: "li_cap (st_limits (account_resources u s)) = li_cap (st_limits s)"
  "li_stall (st_limits (account_resources u s)) = li_stall (st_limits s)"
  by (simp_all add: account_resources_def Let_def)

definition good_exit :: "loop_exit \<Rightarrow> 'w loop \<Rightarrow> bool" where
  \<comment> \<open>what an exit says about the status on disk\<close>
  "good_exit x l \<longleftrightarrow> dk_primary (lp_disk l) = Holds (lp_status l) \<and>
     (case x of
        Completed \<Rightarrow> st_phase (lp_status l) = COMPLETED \<and>
          (\<exists>t. lo_last (st_out (lp_status l)) = Some t \<and> is_complete t)
      | Exhausted \<Rightarrow> st_phase (lp_status l) = OPEN
      | Tripped b \<Rightarrow> st_phase (lp_status l) = OPEN
      | Escalated e \<Rightarrow> False
      | Unreadable \<Rightarrow> False)"

lemma account_last: "lo_last (st_out (account_resources u s)) = lo_last (st_out s)"
  by (simp add: account_resources_def Let_def)

lemma finish_exit:
  assumes "finish_iteration H files t n h l = (Stop x, l')"
  shows "good_exit x l'"
  using assms
  by (auto simp: finish_iteration_def Let_def good_exit_def account_last split: if_splits prod.splits option.splits)

lemma iterate_exit:
  assumes "iterate_once H act files goal i n h l = (Stop x, l')"
  shows "good_exit x l'"
  using assms finish_exit anneal_fix
  by (fastforce simp: iterate_once_def Let_def good_exit_def split: if_splits prod.splits action_outcome.splits)

lemma run_exit: "run_from H act files goal is n h l = (x, l') \<Longrightarrow> good_exit x l'"
proof (induction "is" arbitrary: n h l)
  case Nil
  then show ?case by (auto simp: run_from.simps good_exit_def)
next
  case (Cons i "is")
  then show ?case
    by (auto simp: run_from.simps split: prod.splits step_end.splits intro: iterate_exit)
qed

lemma finish_world: "lp_world (snd (finish_iteration H files t n h l)) = lp_world l"
  by (simp add: finish_iteration_def Let_def split: prod.splits option.splits)

text \<open>The action runs only past the guards.\<close>

definition admitted :: "status \<Rightarrow> context_in \<Rightarrow> bool" where
  "admitted s ctx \<longleftrightarrow> li_spent (st_limits s) < li_cap (st_limits s) \<and>
     (lk_scope (st_locks s) = [] \<or> cx_scope ctx = [] \<or> lk_scope (st_locks s) = cx_scope ctx)"

lemma iterate_world:
  assumes "iterate_once H act files goal i n h l = (x, l')" "P (lp_world l)"
    and "\<And>s ctx w out s' ctx' w'. P w \<Longrightarrow> admitted s ctx \<Longrightarrow> st_iterations s = i + 1 \<Longrightarrow> act goal s ctx w = (out, s', ctx', w') \<Longrightarrow> P w'"
  shows "P (lp_world l')"
proof -
  let ?s = "(lp_status l)\<lparr>st_iterations := i + 1, st_current := i + 1\<rparr>"
  show ?thesis
  proof (cases "admitted ?s (lp_ctx l)")
    case False
    then show ?thesis using assms(1,2)
      by (auto simp: iterate_once_def Let_def admitted_def not_less split: if_splits)
  next
    case True
    obtain out s' ctx w where a: "act goal ?s (lp_ctx l) (lp_world l) = (out, s', ctx, w)"
      by (cases "act goal ?s (lp_ctx l) (lp_world l)") auto
    have "P w" using assms(3) [OF assms(2) True _ a] by simp
    moreover have "lp_world l' = w"
    proof -
      let ?l = "l\<lparr>lp_status := s', lp_ctx := ctx, lp_world := w\<rparr>"
      have fin: "lp_world (snd (finish_iteration H files t n h ?l)) = w" for t by (simp add: finish_world)
      have "\<not> li_cap (st_limits ?s) \<le> li_spent (st_limits ?s)"
        "\<not> (lk_scope (st_locks ?s) \<noteq> [] \<and> cx_scope (lp_ctx l) \<noteq> [] \<and> lk_scope (st_locks ?s) \<noteq> cx_scope (lp_ctx l))"
        using True by (auto simp: admitted_def)
      then show ?thesis using assms(1) a fin
        unfolding iterate_once_def Let_def
        by (auto split: if_splits prod.splits action_outcome.splits) (metis snd_conv)+
    qed
    ultimately show ?thesis by simp
  qed
qed

lemma run_world:
  assumes "run_from H act files goal is n h l = (x, l')" "P (lp_world l)"
    and "\<And>i s ctx w out s' ctx' w'. i \<in> set is \<Longrightarrow> P w \<Longrightarrow> admitted s ctx \<Longrightarrow> st_iterations s = i + 1 \<Longrightarrow>
           act goal s ctx w = (out, s', ctx', w') \<Longrightarrow> P w'"
  shows "P (lp_world l')"
  using assms
proof (induction "is" arbitrary: n h l)
  case Nil
  then show ?case by (auto simp: run_from.simps)
next
  case (Cons i "is")
  obtain y l1 where it: "iterate_once H act files goal i n h l = (y, l1)" by (cases "iterate_once H act files goal i n h l")
  have P1: "P (lp_world l1)"
  proof (rule iterate_world [where P = P, OF it Cons.prems(2)])
    show "P w'" if "P w" "admitted s ctx" "st_iterations s = i + 1" "act goal s ctx w = (out, s', ctx', w')"
      for s ctx w out s' ctx' w'
      by (rule Cons.prems(3) [OF _ that]) simp
  qed
  show ?case
  proof (cases y)
    case (Stop z)
    with it Cons.prems(1) P1 show ?thesis by (simp add: run_from.simps)
  next
    case (Go m k)
    with it Cons.prems(1) have r: "run_from H act files goal is m k l1 = (x, l')" by (simp add: run_from.simps)
    show ?thesis
    proof (rule Cons.IH [OF r P1])
      show "P w'" if "j \<in> set is" "P w" "admitted s ctx" "st_iterations s = j + 1" "act goal s ctx w = (out, s', ctx', w')"
        for j s ctx w out s' ctx' w'
        by (rule Cons.prems(3) [OF _ that(2-5)]) (use that(1) in simp)
    qed
  qed
qed

lemma finish_limits:
  assumes "finish_iteration H files t n h l = (Go m k, l')"
  shows "li_stall (st_limits (lp_status l')) = li_stall (st_limits (lp_status l))"
    and "k = artifacts_hash H (files (lp_world l))"
    and "m = (if k \<noteq> [] \<and> k = h then n + 1 else 0)" "int m < li_stall (st_limits (lp_status l))"
  using assms
  by (auto simp: finish_iteration_def Let_def account_limits not_le dest: maybe_improve_status
      split: if_splits prod.splits option.splits)

lemma iterate_stall:
  assumes "iterate_once H act files goal i n h l = (Go m k, l')"
    and "\<And>s ctx w out s' ctx' w'. act goal s ctx w = (out, s', ctx', w') \<Longrightarrow>
           (\<exists>t. out = Finished t []) \<and> artifacts_hash H (files w') = artifacts_hash H (files w) \<and> st_limits s' = st_limits s"
    and "h = artifacts_hash H (files (lp_world l))" "h \<noteq> []"
  shows "m = n + 1 \<and> k = h \<and> h = artifacts_hash H (files (lp_world l')) \<and>
    li_stall (st_limits (lp_status l')) = li_stall (st_limits (lp_status l)) \<and> int m < li_stall (st_limits (lp_status l))"
proof -
  let ?s = "(lp_status l)\<lparr>st_iterations := i + 1, st_current := i + 1\<rparr>"
  obtain out s' ctx w where a: "act goal ?s (lp_ctx l) (lp_world l) = (out, s', ctx, w)"
    by (cases "act goal ?s (lp_ctx l) (lp_world l)") auto
  from assms(2) [OF a] obtain t where t: "out = Finished t []" and w: "artifacts_hash H (files w) = h"
    and lim: "st_limits s' = st_limits (lp_status l)"
    using assms(3) by auto
  let ?l = "l\<lparr>lp_status := s', lp_ctx := ctx, lp_world := w\<rparr>"
  have fin: "finish_iteration H files t n h ?l = (Go m k, l')"
    using assms(1) a t unfolding iterate_once_def Let_def by (simp split: if_splits)
  have "lp_world l' = w" using finish_world [of H files t n h ?l] fin by simp
  with finish_limits [OF fin] w lim assms(4) show ?thesis by auto
qed

section \<open>Properties\<close>

text \<open>A loop ends as it says: completed means that the last output of the action carries a completion signal, a
  tripped breaker or an exhausted loop leaves the status open, what is on disk is the status at the end, and no loop
  ever escalates, whatever the action reports.\<close>

theorem loops_end_as_recorded:
  assumes "run_loop H act files loop_id goal ctx w d = (x, w', d')" "x \<noteq> Unreadable"
  shows "\<exists>s. dk_primary d' = Holds s \<and> (case x of
     Completed \<Rightarrow> st_phase s = COMPLETED \<and> (\<exists>t. lo_last (st_out s) = Some t \<and> is_complete t)
   | Exhausted \<Rightarrow> st_phase s = OPEN
   | Tripped b \<Rightarrow> st_phase s = OPEN
   | _ \<Rightarrow> False)"
proof -
  from assms obtain s0 where s0: "read_status d = Some s0" by (auto simp: run_loop_def split: option.splits)
  let ?s = "prepare H loop_id goal ctx s0"
  let ?l = "\<lparr>lp_status = ?s, lp_ctx = ctx, lp_world = w, lp_disk = d, lp_journal = [LoopStart]\<rparr>"
  obtain y l' where r: "run_from H act files goal [st_iterations ?s..<nat (li_max (st_limits ?s))] 0 (st_artifacts ?s) ?l = (y, l')"
    by (cases "run_from H act files goal [st_iterations ?s..<nat (li_max (st_limits ?s))] 0 (st_artifacts ?s) ?l")
  with assms(1) s0 have "x = y" "d' = lp_disk l'" by (simp_all add: run_loop_def Let_def)
  with run_exit [OF r] show ?thesis
    by (auto simp: good_exit_def split: loop_exit.splits)
qed

definition demo_action :: "files action" where
  "demo_action goal s c w = (Finished ''[DONE]'' [], s, c, (''artifacts/a'', goal) # w)"

definition demo_context :: context_in where
  "demo_context = \<lparr>cx_mission = None, cx_ethics = None, cx_tools = None, cx_scope = [], cx_resources = None\<rparr>"

definition demo_disk :: disk where
  "demo_disk = \<lparr>dk_primary = Absent, dk_backup = Absent, dk_locked = False\<rparr>"

definition demo_loop :: "loop_exit \<times> files \<times> disk" where
  "demo_loop = run_loop (\<lambda>x. x) demo_action (\<lambda>w. w) ''l'' ''g'' demo_context [] demo_disk"

lemma demo_loop_run: "fst demo_loop = Completed"
  by code_simp

theorem loops_end_as_recorded_witness:
  "\<exists>s. dk_primary (snd (snd demo_loop)) = Holds s \<and> st_phase s = COMPLETED"
proof -
  have r: "run_loop (\<lambda>x. x) demo_action (\<lambda>w. w) ''l'' ''g'' demo_context [] demo_disk =
    (fst demo_loop, fst (snd demo_loop), snd (snd demo_loop))"
    by (simp add: demo_loop_def)
  from loops_end_as_recorded [OF r] demo_loop_run show ?thesis by auto
qed

text \<open>C34: The action runs only within its limits: whatever property of the outside world its admitted calls preserve, a
  whole loop preserves, where a call is admitted if the spending is below the cap, the scope agrees and the
  iteration is within the limit read at the start.\<close>

theorem actions_run_past_the_guards:
  assumes "run_loop H act files loop_id goal ctx w d = (x, w', d')" "P w" "read_status d = Some s0"
    and "\<And>s c w out s' c' w'. P w \<Longrightarrow> admitted s c \<Longrightarrow>
           st_iterations s0 < st_iterations s \<Longrightarrow> int (st_iterations s) \<le> li_max (st_limits s0) \<Longrightarrow>
           act goal s c w = (out, s', c', w') \<Longrightarrow> P w'"
  shows "P w'"
proof -
  let ?s = "prepare H loop_id goal ctx s0"
  let ?l = "\<lparr>lp_status = ?s, lp_ctx = ctx, lp_world = w, lp_disk = d, lp_journal = [LoopStart]\<rparr>"
  let ?is = "[st_iterations ?s..<nat (li_max (st_limits ?s))]"
  have same: "st_iterations ?s = st_iterations s0" "st_limits ?s = st_limits s0"
    by (simp_all add: prepare_def Let_def bind_scope_def bind_mission_def)
  obtain y l' where r: "run_from H act files goal ?is 0 (st_artifacts ?s) ?l = (y, l')"
    by (cases "run_from H act files goal ?is 0 (st_artifacts ?s) ?l")
  with assms(1,3) have w': "w' = lp_world l'" by (simp add: run_loop_def Let_def)
  have "P (lp_world l')"
  proof (rule run_world [where P = P, OF r])
    show "P w2" if "i \<in> set ?is" "P w1" "admitted s c" "st_iterations s = i + 1" "act goal s c w1 = (out, s', c', w2)"
      for i s c w1 out s' c' w2
      by (rule assms(4) [OF that(2,3) _ _ that(5)]) (use that(1,4) same in auto)
  qed (use assms(2) in simp)
  with w' show ?thesis by simp
qed

definition counting_action :: "nat list action" where
  "counting_action goal s c w = (Finished ''more'' [], s, c, st_iterations s # w)"

theorem actions_run_past_the_guards_witness:
  "list_all (\<lambda>k. k \<le> 12) (fst (snd (run_loop (\<lambda>x. x) counting_action (\<lambda>w. []) ''l'' ''g'' demo_context [] demo_disk)))"
proof -
  let ?r = "run_loop (\<lambda>x. x) counting_action (\<lambda>w. []) ''l'' ''g'' demo_context [] demo_disk"
  have r: "?r = (fst ?r, fst (snd ?r), snd (snd ?r))" by simp
  have d: "read_status demo_disk = Some fresh_status" by (simp add: read_status_def demo_disk_def)
  show ?thesis
    by (rule actions_run_past_the_guards [where P = "list_all (\<lambda>k. k \<le> 12)", OF r _ d])
      (auto simp: counting_action_def fresh_status_def)
qed

text \<open>A loop that makes no progress stops: with an action that neither fails nor changes the artifacts nor the limits,
  a loop with more iterations left than the stagnation threshold never exhausts them.\<close>

theorem idle_loops_stop:
  assumes "\<And>s c w out s' c' w'. act goal s c w = (out, s', c', w') \<Longrightarrow>
       (\<exists>t. out = Finished t []) \<and> artifacts_hash H (files w') = artifacts_hash H (files w) \<and> st_limits s' = st_limits s"
    and "h = artifacts_hash H (files (lp_world l))" "h \<noteq> []"
    and "li_stall (st_limits (lp_status l)) \<le> int (n + length is)" "is \<noteq> []"
  shows "fst (run_from H act files goal is n h l) \<noteq> Exhausted"
  using assms(2-5)
proof (induction "is" arbitrary: n l)
  case (Cons i "is")
  obtain y l1 where it: "iterate_once H act files goal i n h l = (y, l1)" by (cases "iterate_once H act files goal i n h l")
  show ?case
  proof (cases y)
    case (Stop z)
    have "z \<noteq> Exhausted"
      using it Stop by (auto simp: iterate_once_def finish_iteration_def Let_def
          split: if_splits prod.splits action_outcome.splits option.splits)
    with it Stop show ?thesis by (simp add: run_from.simps)
  next
    case (Go m k)
    with it have g: "iterate_once H act files goal i n h l = (Go m k, l1)" by simp
    have all: "m = n + 1 \<and> k = h \<and> h = artifacts_hash H (files (lp_world l1)) \<and>
      li_stall (st_limits (lp_status l1)) = li_stall (st_limits (lp_status l)) \<and> int m < li_stall (st_limits (lp_status l))"
      by (rule iterate_stall [OF g _ Cons.prems(1,2)]) (rule assms(1))
    have m: "m = n + 1" "k = h" "h = artifacts_hash H (files (lp_world l1))"
      "li_stall (st_limits (lp_status l1)) = li_stall (st_limits (lp_status l))" "int m < li_stall (st_limits (lp_status l))"
      using all by blast+
    have "is \<noteq> []" using m(1,5) Cons.prems(3) by auto
    moreover have "li_stall (st_limits (lp_status l1)) \<le> int (m + length is)" using m Cons.prems(3) by simp
    ultimately have "fst (run_from H act files goal is m h l1) \<noteq> Exhausted"
      using Cons.IH [OF m(3) Cons.prems(2)] by blast
    with it Go m(2) show ?thesis by (simp add: run_from.simps)
  qed
qed simp

text \<open>Saving has a gap: between the renames the primary is gone, and a start at that point reads a fresh status
  although the backup holds the new one.\<close>

theorem crash_between_renames_loses_the_status:
  "map read_status (save_steps s d) = [read_status d, Some s, Some fresh_status, Some fresh_status, Some s] \<and>
   dk_backup (save_steps s d ! 2) = Holds s"
  by (simp add: save_steps_def read_status_def Let_def)

text \<open>The mission is bound once and never compared: a later run with another mission, ethics and tool list under the
  same status starts from the very same state.\<close>

theorem the_bound_mission_is_never_compared:
  assumes "lk_mission (st_locks s) \<noteq> []"
  shows "prepare H loop_id goal (ctx\<lparr>cx_mission := m, cx_ethics := e, cx_tools := t\<rparr>) s = prepare H loop_id goal ctx s"
  using assms by (simp add: prepare_def bind_scope_def Let_def)

text \<open>An exception without a message is a success: the iteration goes on as if the action had returned an empty
  text.\<close>

theorem silent_exceptions_count_as_success:
  assumes "act goal ((lp_status l)\<lparr>st_iterations := i + 1, st_current := i + 1\<rparr>) (lp_ctx l) (lp_world l) = (Raised_Error [], s', c', w')"
    and "act' goal ((lp_status l)\<lparr>st_iterations := i + 1, st_current := i + 1\<rparr>) (lp_ctx l) (lp_world l) = (Finished [] [], s', c', w')"
  shows "iterate_once H act files goal i n h l = iterate_once H act' files goal i n h l"
  using assms by (simp add: iterate_once_def Let_def)

text \<open>The research loop never completes: its action reports the name of the file it wrote, which carries no completion
  signal, so every run ends open.\<close>

lemma contains_set: "contains p s \<Longrightarrow> set p \<subseteq> set s"
  by (auto simp: contains_iff)

lemma upper_digits: "list_all is_digit s \<Longrightarrow> ascii_upper s = s"
  by (auto simp: ascii_upper_def list_all_iff upper_char_def is_digit_def Let_def intro!: map_idI)

lemma finding_digits: "list_all is_digit (pad3 n)"
  using show_nat_digits [of n] by (auto simp: pad3_def list_all_iff is_digit_def)

lemma finding_not_complete: "\<not> is_complete (''Wrote '' @ finding_name n)"
proof -
  let ?t = "ascii_upper (''Wrote '' @ finding_name n)"
  have up: "?t = ''WROTE FINDING_'' @ pad3 n @ ''.MD''"
    using upper_digits [OF finding_digits [of n]]
    by (simp add: finding_name_def ascii_upper_def) (simp add: upper_char_def Let_def, code_simp)
  have d: "c \<in> set (pad3 n) \<Longrightarrow> is_digit c" for c using finding_digits [of n] by (simp add: list_all_iff)
  have "CHR ''L'' \<notin> set ?t" "CHR ''['' \<notin> set ?t"
    unfolding up using d [of "CHR ''L''"] d [of "CHR ''[''"] by (auto simp: is_digit_def)
  then have "\<not> contains ''[DONE]'' ?t" "\<not> contains ''COMPLETE'' ?t" "\<not> contains ''FINAL'' ?t" "\<not> contains ''TERMINAL'' ?t"
    using contains_set [of _ ?t] by fastforce+
  then show ?thesis by (simp add: is_complete_def)
qed

lemma research_outcome:
  assumes "research_action chat goal s c w = (out, s', c', w')"
  shows "\<exists>n. out = Finished (''Wrote '' @ finding_name n) []" "s' = s"
  using assms by (auto simp: research_action_def Let_def split: option.splits chat_reply.splits prod.splits)

lemma finish_incomplete:
  "\<not> is_complete t \<Longrightarrow> finish_iteration H files t n h l = (Stop x, l') \<Longrightarrow> x \<noteq> Completed"
  by (auto simp: finish_iteration_def Let_def split: if_splits prod.splits option.splits)

lemma research_iterations_go_on:
  assumes "iterate_once H (research_action chat) files goal i n h l = (Stop x, l')"
  shows "x \<noteq> Completed"
proof -
  let ?s = "(lp_status l)\<lparr>st_iterations := i + 1, st_current := i + 1\<rparr>"
  obtain out s' c w where a: "research_action chat goal ?s (lp_ctx l) (lp_world l) = (out, s', c, w)"
    by (cases "research_action chat goal ?s (lp_ctx l) (lp_world l)") auto
  from research_outcome(1) [OF a] finding_not_complete obtain t where t: "out = Finished t []" "\<not> is_complete t" by blast
  show ?thesis
    using assms a t unfolding iterate_once_def Let_def by (auto split: if_splits dest: finish_incomplete [OF t(2)])
qed

theorem research_loops_never_complete:
  "fst (run_loop H (research_action chat) lab_files loop_id goal ctx w d) \<noteq> Completed"
proof -
  have run: "fst (run_from H (research_action chat) lab_files goal is n h l) \<noteq> Completed" for "is" n h l
    by (induction "is" arbitrary: n h l)
      (auto simp: run_from.simps split: prod.splits step_end.splits dest: research_iterations_go_on)
  show ?thesis
    by (auto simp: run_loop_def Let_def split: option.splits prod.splits) (metis run fst_conv)
qed

subsection \<open>Memory\<close>

lemma map_of_put_entry: "map_of (put_entry k e es) = (map_of es)(k \<mapsto> e)"
  by (induction es) auto

theorem recalled_runs_are_the_last_recorded:
  "recall_run j (record_run k summary now m) =
     (if j = k then Some \<lparr>me_time = now, me_summary = summary\<rparr> else recall_run j m)"
  by (simp add: recall_run_def record_run_def memory_list_def map_of_put_entry)

lemma insert_score_mset: "set (insert_score x ys) = insert x (set ys)"
  by (induction ys) auto

lemma insert_score_sorted:
  "sorted_wrt (\<lambda>a b. fst b \<le> fst a) ys \<Longrightarrow> sorted_wrt (\<lambda>a b. fst b \<le> fst a) (insert_score x ys)"
  by (induction ys) (auto simp: insert_score_mset)

definition score_of :: "string \<Rightarrow> memory_entry \<Rightarrow> nat" where
  "score_of query e = py_count (py_lower query) (py_lower (default_dumps (me_summary e)))"

lemma foldl_insert_score:
  assumes "sorted_wrt (\<lambda>a b. fst b \<le> fst a) acc"
  shows "sorted_wrt (\<lambda>a b. fst b \<le> fst a) (foldl (\<lambda>acc x. insert_score x acc) acc xs) \<and>
    set (foldl (\<lambda>acc x. insert_score x acc) acc xs) = set acc \<union> set xs"
  using assms by (induction xs arbitrary: acc) (auto simp: insert_score_sorted insert_score_mset)

text \<open>Search returns stored runs that mention the query, most mentions first, and no more than asked for.\<close>

theorem search_ranks_the_runs:
  "length (search_runs query limit m) \<le> limit"
  "set (search_runs query limit m) \<subseteq> {(k, e) \<in> set (memory_list m). 0 < score_of query e}"
  "sorted_wrt (\<lambda>a b. score_of query (snd b) \<le> score_of query (snd a)) (search_runs query limit m)"
proof -
  let ?xs = "filter (\<lambda>x. 0 < fst x) (map (\<lambda>(k, e). (score_of query e, k, e)) (memory_list m))"
  let ?ys = "foldl (\<lambda>acc x. insert_score x acc) [] ?xs"
  have eq: "search_runs query limit m = take limit (map snd ?ys)"
    by (simp add: search_runs_def score_of_def Let_def)
  have f: "sorted_wrt (\<lambda>a b. fst b \<le> fst a) ?ys" "set ?ys = set ?xs"
    using foldl_insert_score [of "[]" ?xs] by auto
  have score: "fst y = score_of query (snd (snd y))" if "y \<in> set ?ys" for y using that f(2) by auto
  have "sorted_wrt (\<lambda>a b. score_of query (snd (snd b)) \<le> score_of query (snd (snd a))) ?ys"
  proof (rule sorted_wrt_mono_rel [OF _ f(1)])
    show "score_of query (snd (snd b)) \<le> score_of query (snd (snd a))"
      if "a \<in> set ?ys" "b \<in> set ?ys" "fst b \<le> fst a" for a b
      using that(3) score [OF that(1)] score [OF that(2)] by (simp only:)
  qed
  then show "sorted_wrt (\<lambda>a b. score_of query (snd b) \<le> score_of query (snd a)) (search_runs query limit m)"
    unfolding eq by (simp add: sorted_wrt_map sorted_wrt_take)
  show "set (search_runs query limit m) \<subseteq> {(k, e) \<in> set (memory_list m). 0 < score_of query e}"
    unfolding eq using f(2) by (auto dest!: in_set_takeD)
  show "length (search_runs query limit m) \<le> limit" unfolding eq by simp
qed

end
