(* ===== verification/Node_Identity.thy ===== *)
theory Node_Identity
  imports Json Pytext
begin

text \<open>
  Devices, sessions and replay protection of the sovereign node (\<^verbatim>\<open>msb_v3/node/identity.py\<close>,
  \<^verbatim>\<open>crypto.py\<close>, \<^verbatim>\<open>protocol.py\<close>): enrolment behind a pairing code, single-use challenges, sessions with
  an expiry, and signed requests that are accepted once. Times are microseconds; the source compares their texts, which
  order the same way. The elliptic-curve library is a parameter, and so is \<^verbatim>\<open>datetime.fromisoformat\<close>. Every
  reading of the clock is an argument. An exception inside a transaction undoes it.
\<close>

section \<open>Wire format\<close>

definition node_json :: "json \<Rightarrow> string" where
  "node_json v = dumps '','' '':'' (sort_keys v)"

definition b64_value :: "char \<Rightarrow> nat option" where
  \<comment> \<open>both alphabets: \<^verbatim>\<open>urlsafe_b64decode\<close> maps the dash and the underscore onto the other two\<close>
  "b64_value c = (let n = (of_char c :: nat) in
     if 65 \<le> n \<and> n \<le> 90 then Some (n - 65)
     else if 97 \<le> n \<and> n \<le> 122 then Some (n - 71)
     else if 48 \<le> n \<and> n \<le> 57 then Some (n + 4)
     else if n = 43 \<or> n = 45 then Some 62
     else if n = 47 \<or> n = 95 then Some 63
     else None)"

fun b64_scan :: "nat \<Rightarrow> nat \<Rightarrow> nat \<Rightarrow> string \<Rightarrow> string \<Rightarrow> string option" where
  \<comment> \<open>the decoder: position in the group, bits left over, padding seen, bytes so far; other characters are skipped\<close>
  "b64_scan q left pads out [] = (if q = 0 then Some out else None)"
| "b64_scan q left pads out (c # cs) =
     (if c = CHR ''='' then
        (if 2 \<le> q \<and> 4 \<le> q + pads + 1 then Some out else b64_scan q left (if 2 \<le> q then pads + 1 else pads) out cs)
      else (case b64_value c of
        None \<Rightarrow> b64_scan q left pads out cs
      | Some v \<Rightarrow>
          if q = 0 then b64_scan 1 v 0 out cs
          else if q = 1 then b64_scan 2 (v mod 16) 0 (out @ [char_of (left * 4 + v div 16)]) cs
          else if q = 2 then b64_scan 3 (v mod 4) 0 (out @ [char_of (left * 16 + v div 4)]) cs
          else b64_scan 0 0 0 (out @ [char_of (left * 64 + v)]) cs))"

definition ascii_only :: "string \<Rightarrow> bool" where
  "ascii_only s \<longleftrightarrow> list_all (\<lambda>c. (of_char c :: nat) < 128) s"

definition b64decode :: "string \<Rightarrow> string option" where
  \<comment> \<open>the text is padded first; None: the decoder raises\<close>
  "b64decode s = (let t = s @ replicate ((4 - length s mod 4) mod 4) CHR ''='' in
     if ascii_only t then b64_scan 0 0 0 [] t else None)"

definition session_signature_payload :: "string \<Rightarrow> string \<Rightarrow> json" where
  "session_signature_payload device challenge =
     obj [(''protocol'', JStr ''node.v1''), (''device_id'', JStr device), (''challenge'', JStr challenge)]"

definition request_signature_payload :: "string \<Rightarrow> string \<Rightarrow> string \<Rightarrow> string \<Rightarrow> json \<Rightarrow> json" where
  "request_signature_payload request session timestamp nonce intent =
     obj [(''protocol'', JStr ''node.v1''), (''request_id'', JStr request), (''session_id'', JStr session),
          (''timestamp'', JStr timestamp), (''nonce'', JStr nonce), (''intent'', intent)]"

section \<open>Signatures\<close>

definition curve_order :: int where
  "curve_order = 0xFFFFFFFF00000000FFFFFFFFFFFFFFFFBCE6FAADA7179E84F3B9CAC2FC632551"

definition from_bytes :: "string \<Rightarrow> int" where
  \<comment> \<open>big endian\<close>
  "from_bytes s = foldl (\<lambda>n c. n * 256 + of_char c) 0 s"

type_synonym curve = "string \<Rightarrow> int \<Rightarrow> int \<Rightarrow> string \<Rightarrow> bool"
  \<comment> \<open>the library: whether the key loads and the signature (r, s) of the message verifies\<close>

definition node_verify :: "curve \<Rightarrow> string \<Rightarrow> string \<Rightarrow> string \<Rightarrow> bool" where
  "node_verify V key msg sig =
     (if length key \<noteq> 65 \<or> hd key \<noteq> CHR 0x04 \<or> length sig \<noteq> 64 then False
      else (let r = from_bytes (take 32 sig); s = from_bytes (drop 32 sig) in
        if \<not> (1 \<le> r \<and> r < curve_order \<and> 1 \<le> s \<and> s \<le> curve_order div 2) then False
        else V key r s msg))"

fun to_bytes :: "nat \<Rightarrow> int \<Rightarrow> string" where
  \<comment> \<open>\<^verbatim>\<open>n.to_bytes(k, "big")\<close> for a number that fits\<close>
  "to_bytes 0 n = []"
| "to_bytes (Suc k) n = to_bytes k (n div 256) @ [char_of (n mod 256)]"

definition node_sign :: "(string \<Rightarrow> int \<times> int) \<Rightarrow> string \<Rightarrow> string" where
  \<comment> \<open>the private key's signatures are the parameter\<close>
  "node_sign priv msg = (case priv msg of (r, s) \<Rightarrow> to_bytes 32 r @ to_bytes 32 (min s (curve_order - s)))"

section \<open>The store\<close>

record device_row =
  de_id :: string
  de_key :: string
  de_assurance :: string
  de_status :: string
  de_created :: int
  de_seen :: int

record challenge_row =
  ch_value :: string
  ch_device :: string
  ch_created :: int
  ch_used :: bool

record session_row =
  se_id :: string
  se_device :: string
  se_issued :: int
  se_expires :: int
  se_status :: string

record replay_row =
  rp_request :: string
  rp_session :: string
  rp_nonce :: string
  rp_seen :: int

record identity_db =
  id_devices :: "device_row list"
  id_challenges :: "challenge_row list"
  id_sessions :: "session_row list"
  id_replays :: "replay_row list"

record identity_cfg =
  ic_pairing :: string
  ic_ttl :: int                \<comment> \<open>seconds\<close>
  ic_skew :: int

datatype node_error =
    Compare_Type               \<comment> \<open>\<^verbatim>\<open>compare_digest\<close> refuses text outside ASCII with a TypeError\<close>
  | Invalid_Pairing | Bad_Key_Encoding | Bad_Key_Form | Device_Revoked | Other_Key | Device_Inactive
  | Unknown_Challenge | Challenge_Used | Challenge_Expired | Bad_Session_Signature
  | Malformed_Request | Bad_Timestamp | Outside_Skew | Session_Inactive | Session_Expired | Request_Used | Bad_Request_Signature
  | Row_Exists                 \<comment> \<open>an IntegrityError that escapes\<close>

definition seconds :: "int \<Rightarrow> int" where
  "seconds n = n * 1000000"

definition active_device :: "identity_db \<Rightarrow> string \<Rightarrow> bool" where
  "active_device db i \<longleftrightarrow> (\<exists>d \<in> set (id_devices db). de_id d = i \<and> de_status d = ''ACTIVE'')"

definition enroll :: "identity_cfg \<Rightarrow> int \<Rightarrow> string \<Rightarrow> string \<Rightarrow> string \<Rightarrow> string \<Rightarrow> identity_db \<Rightarrow>
    (node_error, string \<times> string) result \<times> identity_db" where
  \<comment> \<open>the answer: device and hardware assurance\<close>
  "enroll cfg now device key code assurance db =
     (if ic_pairing cfg = [] then (Inl Invalid_Pairing, db)
      else if \<not> ascii_only code \<or> \<not> ascii_only (ic_pairing cfg) then (Inl Compare_Type, db)
      else if code \<noteq> ic_pairing cfg then (Inl Invalid_Pairing, db)
      else (case b64decode key of
        None \<Rightarrow> (Inl Bad_Key_Encoding, db)
      | Some k \<Rightarrow>
          if length k \<noteq> 65 \<or> hd k \<noteq> CHR 0x04 then (Inl Bad_Key_Form, db)
          else (case row_of de_id device (id_devices db) of
            None \<Rightarrow> (Inr (device, assurance), db\<lparr>id_devices := id_devices db @
                [\<lparr>de_id = device, de_key = key, de_assurance = assurance, de_status = ''ACTIVE'', de_created = now, de_seen = now\<rparr>]\<rparr>)
          | Some d \<Rightarrow>
              if de_status d = ''REVOKED'' then (Inl Device_Revoked, db)
              else if de_key d \<noteq> key then (Inl Other_Key, db)
              else (Inr (device, assurance), db\<lparr>id_devices :=
                row_update de_id device (\<lambda>d. d\<lparr>de_status := ''ACTIVE'', de_seen := now\<rparr>) (id_devices db)\<rparr>))))"

definition lapsed :: "int \<Rightarrow> session_row \<Rightarrow> bool" where
  "lapsed now s \<longleftrightarrow> se_status s \<noteq> ''ACTIVE'' \<or> se_expires s < now"

definition prune :: "identity_cfg \<Rightarrow> int \<Rightarrow> identity_db \<Rightarrow> identity_db" where
  "prune cfg now db =
     db\<lparr>id_replays := filter (\<lambda>r. \<not> (\<exists>s \<in> set (id_sessions db). se_id s = rp_session r \<and> lapsed now s)) (id_replays db),
        id_challenges := filter (\<lambda>c. \<not> (ch_used c \<or> ch_created c < now - seconds (ic_skew cfg * 2) \<or>
          \<not> active_device db (ch_device c))) (id_challenges db),
        id_sessions := filter (\<lambda>s. \<not> lapsed now s) (id_sessions db)\<rparr>"

definition challenge :: "identity_cfg \<Rightarrow> (nat \<Rightarrow> int) \<Rightarrow> string \<Rightarrow> string \<Rightarrow> identity_db \<Rightarrow>
    (node_error, string) result \<times> identity_db" where
  \<comment> \<open>the token drawn is an argument\<close>
  "challenge cfg clk device token db0 =
     (let db = prune cfg (clk 0) db0 in
      case row_of de_id device (id_devices db) of
        None \<Rightarrow> (Inl Device_Inactive, db)
      | Some d \<Rightarrow>
          if de_status d \<noteq> ''ACTIVE'' then (Inl Device_Inactive, db)
          else (case row_insert ch_value \<lparr>ch_value = token, ch_device = device, ch_created = clk 1, ch_used = False\<rparr> (id_challenges db) of
                  None \<Rightarrow> (Inl Row_Exists, db)
                | Some cs \<Rightarrow> (Inr token, db\<lparr>id_challenges := cs\<rparr>)))"

definition signed_by :: "curve \<Rightarrow> string \<Rightarrow> json \<Rightarrow> string \<Rightarrow> bool" where
  \<comment> \<open>false also where decoding the key or the signature raises\<close>
  "signed_by V key payload sig = (case (b64decode key, b64decode sig) of
     (Some k, Some s) \<Rightarrow> node_verify V k (node_json payload) s
   | _ \<Rightarrow> False)"

definition open_session :: "curve \<Rightarrow> identity_cfg \<Rightarrow> (nat \<Rightarrow> int) \<Rightarrow> string \<Rightarrow> string \<Rightarrow> string \<Rightarrow> string \<Rightarrow> identity_db \<Rightarrow>
    (node_error, string \<times> int) result \<times> identity_db" where
  \<comment> \<open>the session id drawn is the argument \<open>sid\<close>; the answer: session and expiry\<close>
  "open_session V cfg clk sid device token sig db0 =
     (let db = prune cfg (clk 0) db0 in
      case (find (\<lambda>c. ch_value c = token \<and> ch_device c = device) (id_challenges db), row_of de_id device (id_devices db)) of
        (Some c, Some d) \<Rightarrow>
          if de_status d \<noteq> ''ACTIVE'' then (Inl Unknown_Challenge, db)
          else if ch_used c then (Inl Challenge_Used, db)
          else if seconds (ic_skew cfg * 2) < clk 1 - ch_created c then (Inl Challenge_Expired, db)
          else if \<not> signed_by V (de_key d) (session_signature_payload device token) sig then (Inl Bad_Session_Signature, db)
          else (let expires = clk 2 + seconds (ic_ttl cfg);
                    s = \<lparr>se_id = sid, se_device = device, se_issued = clk 2, se_expires = expires, se_status = ''ACTIVE''\<rparr>
                in case row_insert se_id s (id_sessions db) of
                     None \<Rightarrow> (Inl Row_Exists, db)
                   | Some ss \<Rightarrow> (Inr (sid, expires),
                       db\<lparr>id_challenges := row_update ch_value token (\<lambda>c. c\<lparr>ch_used := True\<rparr>) (id_challenges db), id_sessions := ss\<rparr>))
      | _ \<Rightarrow> (Inl Unknown_Challenge, db))"

record envelope =
  en_request :: string
  en_session :: string
  en_timestamp :: string
  en_nonce :: string
  en_intent :: json
  en_signature :: string

fun is_dict :: "json \<Rightarrow> bool" where
  "is_dict (JObj _) = True"
| "is_dict _ = False"

definition well_signed :: "curve \<Rightarrow> envelope \<Rightarrow> string \<Rightarrow> bool" where
  "well_signed V e key =
     signed_by V key (request_signature_payload (en_request e) (en_session e) (en_timestamp e) (en_nonce e) (en_intent e)) (en_signature e)"

definition verify_request :: "curve \<Rightarrow> (string \<Rightarrow> int option) \<Rightarrow> identity_cfg \<Rightarrow> (nat \<Rightarrow> int) \<Rightarrow> envelope \<Rightarrow> identity_db \<Rightarrow>
    (node_error, string) result \<times> identity_db" where
  \<comment> \<open>an expired session is marked in the transaction that the exception undoes\<close>
  "verify_request V fromiso cfg clk e db0 =
     (let db = prune cfg (clk 0) db0 in
      if en_request e = [] \<or> en_session e = [] \<or> en_timestamp e = [] \<or> en_nonce e = [] \<or> \<not> is_dict (en_intent e)
      then (Inl Malformed_Request, db)
      else (case fromiso (en_timestamp e) of
        None \<Rightarrow> (Inl Bad_Timestamp, db)
      | Some t \<Rightarrow>
          if seconds (ic_skew cfg) < \<bar>clk 1 - t\<bar> then (Inl Outside_Skew, db)
          else (case row_of se_id (en_session e) (id_sessions db) of
            None \<Rightarrow> (Inl Session_Inactive, db)
          | Some s \<Rightarrow>
              (case row_of de_id (se_device s) (id_devices db) of
                None \<Rightarrow> (Inl Session_Inactive, db)
              | Some d \<Rightarrow>
                  if se_status s \<noteq> ''ACTIVE'' \<or> de_status d \<noteq> ''ACTIVE'' then (Inl Session_Inactive, db)
                  else if se_expires s \<le> clk 2 then (Inl Session_Expired, db)
                  else if \<exists>r \<in> set (id_replays db). rp_request r = en_request e \<or> rp_nonce r = en_nonce e then (Inl Request_Used, db)
                  else if \<not> well_signed V e (de_key d) then (Inl Bad_Request_Signature, db)
                  else (Inr (de_id d), db\<lparr>
                    id_replays := id_replays db @
                      [\<lparr>rp_request = en_request e, rp_session = en_session e, rp_nonce = en_nonce e, rp_seen = clk 3\<rparr>],
                    id_devices := row_update de_id (de_id d) (\<lambda>d. d\<lparr>de_seen := clk 4\<rparr>) (id_devices db)\<rparr>)))))"

definition revoke :: "string \<Rightarrow> identity_db \<Rightarrow> identity_db" where
  "revoke device db =
     db\<lparr>id_devices := row_update de_id device (\<lambda>d. d\<lparr>de_status := ''REVOKED''\<rparr>) (id_devices db),
        id_sessions := map (\<lambda>s. if se_device s = device then s\<lparr>se_status := ''REVOKED''\<rparr> else s) (id_sessions db)\<rparr>"

definition identity_status :: "identity_db \<Rightarrow> (string \<times> string \<times> string \<times> int) list \<times> nat" where
  "identity_status db =
     (map (\<lambda>d. (de_id d, de_status d, de_assurance d, de_seen d)) (id_devices db),
      length (filter (\<lambda>s. se_status s = ''ACTIVE'') (id_sessions db)))"

section \<open>Histories\<close>

datatype id_op =
    EnrollOp int string string string string
  | ChallengeOp "nat \<Rightarrow> int" string string
  | SessionOp "nat \<Rightarrow> int" string string string string
  | VerifyOp "nat \<Rightarrow> int" envelope
  | RevokeOp string

fun id_step :: "curve \<Rightarrow> (string \<Rightarrow> int option) \<Rightarrow> identity_cfg \<Rightarrow> id_op \<Rightarrow> identity_db \<Rightarrow> identity_db" where
  "id_step V fromiso cfg (EnrollOp now dev key code hw) db = snd (enroll cfg now dev key code hw db)"
| "id_step V fromiso cfg (ChallengeOp clk dev token) db = snd (challenge cfg clk dev token db)"
| "id_step V fromiso cfg (SessionOp clk sid dev token sig) db = snd (open_session V cfg clk sid dev token sig db)"
| "id_step V fromiso cfg (VerifyOp clk e) db = snd (verify_request V fromiso cfg clk e db)"
| "id_step V fromiso cfg (RevokeOp dev) db = revoke dev db"

definition id_run :: "curve \<Rightarrow> (string \<Rightarrow> int option) \<Rightarrow> identity_cfg \<Rightarrow> id_op list \<Rightarrow> identity_db \<Rightarrow> identity_db" where
  "id_run V fromiso cfg ops db = fold (id_step V fromiso cfg) ops db"

fun opens :: "id_op \<Rightarrow> string option" where
  "opens (SessionOp clk sid dev token sig) = Some sid"
| "opens _ = None"

interpretation devices: keyed_table de_id "\<lambda>f. \<forall>d. de_id (f d) = de_id d" by unfold_locales simp
interpretation sessions: keyed_table se_id "\<lambda>f. \<forall>s. se_id (f s) = se_id s" by unfold_locales simp

definition wf_sessions :: "identity_db \<Rightarrow> bool" where
  "wf_sessions db \<longleftrightarrow> distinct (map se_id (id_sessions db))"

definition spent :: "envelope \<Rightarrow> identity_db \<Rightarrow> bool" where
  \<comment> \<open>the request is on record for its session, or the session is gone\<close>
  "spent e db \<longleftrightarrow> (\<exists>r \<in> set (id_replays db). rp_request r = en_request e \<and> rp_session r = en_session e) \<or>
     en_session e \<notin> se_id ` set (id_sessions db)"

lemma prune_simps [simp]:
  "id_devices (prune cfg now db) = id_devices db"
  "id_sessions (prune cfg now db) = filter (\<lambda>s. \<not> lapsed now s) (id_sessions db)"
  by (simp_all add: prune_def)

lemma wf_prune [simp]: "wf_sessions db \<Longrightarrow> wf_sessions (prune cfg now db)"
  by (simp add: wf_sessions_def distinct_map_filter)

lemma same_session: "wf_sessions db \<Longrightarrow> s \<in> set (id_sessions db) \<Longrightarrow> t \<in> set (id_sessions db) \<Longrightarrow> se_id s = se_id t \<Longrightarrow> s = t"
  by (auto simp: wf_sessions_def distinct_map dest: inj_onD)

lemma spent_prune:
  assumes "wf_sessions db" "spent e db"
  shows "spent e (prune cfg now db)"
proof (cases "en_session e \<in> se_id ` set (id_sessions (prune cfg now db))")
  case True
  then obtain s where s: "s \<in> set (id_sessions db)" "\<not> lapsed now s" "se_id s = en_session e" by auto
  then have "en_session e \<in> se_id ` set (id_sessions db)" by (metis image_eqI)
  with assms(2) obtain r where r: "r \<in> set (id_replays db)" "rp_request r = en_request e" "rp_session r = en_session e"
    by (auto simp: spent_def)
  have "\<not> (\<exists>s' \<in> set (id_sessions db). se_id s' = rp_session r \<and> lapsed now s')"
    using s r(3) same_session [OF assms(1)] by metis
  with r have "r \<in> set (id_replays (prune cfg now db))" by (simp add: prune_def)
  with r show ?thesis by (auto simp: spent_def)
qed (simp add: spent_def)

lemma spent_fields:
  "id_replays db' = id_replays db \<Longrightarrow> se_id ` set (id_sessions db') = se_id ` set (id_sessions db) \<Longrightarrow> spent e db' = spent e db"
  by (simp add: spent_def)

lemma step_spent:
  assumes "wf_sessions db" "spent e db" "opens x \<noteq> Some (en_session e)"
  shows "wf_sessions (id_step V fromiso cfg x db) \<and> spent e (id_step V fromiso cfg x db)"
proof (cases x)
  case (EnrollOp now dev key code hw)
  then show ?thesis using assms
    by (auto simp: enroll_def wf_sessions_def spent_def split: option.splits)
next
  case (ChallengeOp clk dev token)
  have "wf_sessions (prune cfg (clk 0) db)" "spent e (prune cfg (clk 0) db)" using assms spent_prune by auto
  then show ?thesis using ChallengeOp
    by (auto simp: challenge_def Let_def wf_sessions_def spent_def split: option.splits)
next
  case (SessionOp clk sid dev token sig)
  have w: "wf_sessions (prune cfg (clk 0) db)" "spent e (prune cfg (clk 0) db)" using assms spent_prune by auto
  have ne: "sid \<noteq> en_session e" using assms(3) SessionOp by auto
  show ?thesis using w ne
    unfolding SessionOp id_step.simps open_session_def Let_def
    by (auto simp: wf_sessions_def spent_def row_insert_def split: option.splits prod.splits simp del: prune_simps)
next
  case (VerifyOp clk e')
  have w: "wf_sessions (prune cfg (clk 0) db)" "spent e (prune cfg (clk 0) db)" using assms spent_prune by auto
  show ?thesis using w
    unfolding VerifyOp id_step.simps verify_request_def Let_def
    by (auto simp: wf_sessions_def spent_def split: option.splits simp del: prune_simps)
next
  case (RevokeOp dev)
  then show ?thesis using assms
    by (auto simp: revoke_def wf_sessions_def spent_def comp_def if_distrib image_iff cong: if_cong)
qed

lemma run_spent:
  assumes "wf_sessions db" "spent e db" "\<And>x. x \<in> set ops \<Longrightarrow> opens x \<noteq> Some (en_session e)"
  shows "wf_sessions (id_run V fromiso cfg ops db) \<and> spent e (id_run V fromiso cfg ops db)"
  using assms
proof (induction ops arbitrary: db)
  case (Cons x ops)
  have "wf_sessions (id_step V fromiso cfg x db) \<and> spent e (id_step V fromiso cfg x db)"
    by (rule step_spent) (use Cons.prems in auto)
  then show ?case using Cons.IH [of "id_step V fromiso cfg x db"] Cons.prems(3) by (simp add: id_run_def)
qed (simp add: id_run_def)

lemma verify_accepts:
  assumes "verify_request V fromiso cfg clk e db = (Inr dev, db')"
  obtains t s d where
    "fromiso (en_timestamp e) = Some t" "\<bar>clk 1 - t\<bar> \<le> seconds (ic_skew cfg)"
    "row_of se_id (en_session e) (id_sessions (prune cfg (clk 0) db)) = Some s" "row_of de_id (se_device s) (id_devices db) = Some d"
    "se_status s = ''ACTIVE''" "de_status d = ''ACTIVE''" "clk 2 < se_expires s" "dev = de_id d"
    "\<forall>r \<in> set (id_replays (prune cfg (clk 0) db)). rp_request r \<noteq> en_request e \<and> rp_nonce r \<noteq> en_nonce e"
    "well_signed V e (de_key d)"
    "\<exists>r \<in> set (id_replays db'). rp_request r = en_request e \<and> rp_session r = en_session e"
    "id_sessions db' = id_sessions (prune cfg (clk 0) db)"
  using assms
  by (auto simp: verify_request_def Let_def not_le not_less split: if_splits option.splits)

lemma spent_refuses:
  assumes "wf_sessions db" "spent e db"
  shows "\<exists>err. fst (verify_request V fromiso cfg clk e db) = Inl err"
proof (rule ccontr)
  assume "\<not> ?thesis"
  then obtain dev where "fst (verify_request V fromiso cfg clk e db) = Inr dev"
    by (cases "fst (verify_request V fromiso cfg clk e db)") auto
  then obtain db' where v: "verify_request V fromiso cfg clk e db = (Inr dev, db')"
    by (cases "verify_request V fromiso cfg clk e db") auto
  obtain s where s: "row_of se_id (en_session e) (id_sessions (prune cfg (clk 0) db)) = Some s"
    and no: "\<forall>r \<in> set (id_replays (prune cfg (clk 0) db)). rp_request r \<noteq> en_request e \<and> rp_nonce r \<noteq> en_nonce e"
    by (rule verify_accepts [OF v])
  have "en_session e \<in> se_id ` set (id_sessions (prune cfg (clk 0) db))"
    using sessions.row_of_key [OF s] by force
  with spent_prune [OF assms, of cfg "clk 0"] no show False by (auto simp: spent_def simp del: prune_simps)
qed

section \<open>Properties\<close>

definition demo_identity :: identity_db where
  "demo_identity =
     \<lparr>id_devices = [\<lparr>de_id = ''d'', de_key = ''BA'' @ replicate 85 CHR ''A'', de_assurance = ''software'', de_status = ''ACTIVE'',
                     de_created = 0, de_seen = 0\<rparr>],
      id_challenges = [], id_sessions = [\<lparr>se_id = ''s'', se_device = ''d'', se_issued = 0, se_expires = 900000000, se_status = ''ACTIVE''\<rparr>],
      id_replays = []\<rparr>"

definition demo_envelope :: envelope where
  "demo_envelope = \<lparr>en_request = ''r'', en_session = ''s'', en_timestamp = ''t'', en_nonce = ''n'', en_intent = JObj [],
     en_signature = concat (replicate 21 ''AQEB'') @ ''AQ''\<rparr>"

definition demo_cfg :: identity_cfg where
  "demo_cfg = \<lparr>ic_pairing = ''p'', ic_ttl = 900, ic_skew = 60\<rparr>"

definition demo_verify :: "identity_db \<Rightarrow> (node_error, string) result \<times> identity_db" where
  "demo_verify db = verify_request (\<lambda>k r s m. True) (\<lambda>t. Some 5) demo_cfg (\<lambda>n. 5) demo_envelope db"

lemma demo_verify_ok: "fst (demo_verify demo_identity) = Inr ''d''"
  by code_simp

lemma demo_verify_eq:
  "verify_request (\<lambda>k r s m. True) (\<lambda>t. Some 5) demo_cfg (\<lambda>n. 5) demo_envelope demo_identity = (Inr ''d'', snd (demo_verify demo_identity))"
  using demo_verify_ok by (simp add: demo_verify_def prod_eq_iff)

text \<open>A signed request is accepted at most once: after it was accepted, no sequence of enrolments, challenges,
  sessions under other tokens, requests and revocations, at whatever clock readings, makes it acceptable again.\<close>

theorem requests_are_accepted_once:
  assumes "verify_request V fromiso cfg clk e db = (Inr dev, db')" "wf_sessions db"
    and "\<And>x. x \<in> set ops \<Longrightarrow> opens x \<noteq> Some (en_session e)"
  shows "\<exists>err. fst (verify_request V fromiso cfg clk' e (id_run V fromiso cfg ops db')) = Inl err"
proof -
  have "spent e db'" "wf_sessions db'"
    by (rule verify_accepts [OF assms(1)]; use wf_prune [OF assms(2), of cfg "clk 0"] in \<open>auto simp: spent_def wf_sessions_def\<close>)+
  with run_spent [OF _ _ assms(3)] spent_refuses show ?thesis by blast
qed

theorem requests_are_accepted_once_witness:
  "\<exists>err. fst (demo_verify (revoke ''d'' (snd (demo_verify demo_identity)))) = Inl err"
proof -
  have "wf_sessions demo_identity" by (simp add: wf_sessions_def demo_identity_def)
  from requests_are_accepted_once [OF demo_verify_eq this, of "[RevokeOp ''d'']" "\<lambda>n. 5"]
  show ?thesis by (simp add: id_run_def demo_verify_def)
qed

text \<open>An accepted request comes from its device: the envelope, all six fields of it, carries a low signature by the key
  enrolled for the device that holds the session, both are active, and the time is within the allowed skew.\<close>

theorem accepted_requests_are_authentic:
  assumes "verify_request V fromiso cfg clk e db = (Inr dev, db')"
  shows "\<exists>d s k sig t. d \<in> set (id_devices db) \<and> de_id d = dev \<and> de_status d = ''ACTIVE'' \<and>
     s \<in> set (id_sessions db) \<and> se_id s = en_session e \<and> se_device s = dev \<and> se_status s = ''ACTIVE'' \<and> clk 2 < se_expires s \<and>
     b64decode (de_key d) = Some k \<and> b64decode (en_signature e) = Some sig \<and> length sig = 64 \<and>
     from_bytes (drop 32 sig) \<le> curve_order div 2 \<and>
     V k (from_bytes (take 32 sig)) (from_bytes (drop 32 sig)) (node_json (request_signature_payload
       (en_request e) (en_session e) (en_timestamp e) (en_nonce e) (en_intent e))) \<and>
     fromiso (en_timestamp e) = Some t \<and> \<bar>clk 1 - t\<bar> \<le> seconds (ic_skew cfg)"
proof -
  obtain t s d where *: "fromiso (en_timestamp e) = Some t" "\<bar>clk 1 - t\<bar> \<le> seconds (ic_skew cfg)"
    "row_of se_id (en_session e) (id_sessions (prune cfg (clk 0) db)) = Some s" "row_of de_id (se_device s) (id_devices db) = Some d"
    "se_status s = ''ACTIVE''" "de_status d = ''ACTIVE''" "clk 2 < se_expires s" "dev = de_id d" "well_signed V e (de_key d)"
    by (rule verify_accepts [OF assms])
  from *(9) obtain k sig where k: "b64decode (de_key d) = Some k" "b64decode (en_signature e) = Some sig" "length sig = 64"
    "from_bytes (drop 32 sig) \<le> curve_order div 2"
    "V k (from_bytes (take 32 sig)) (from_bytes (drop 32 sig)) (node_json (request_signature_payload
       (en_request e) (en_session e) (en_timestamp e) (en_nonce e) (en_intent e)))"
    by (auto simp: well_signed_def signed_by_def node_verify_def Let_def split: option.splits if_splits)
  from sessions.row_of_key [OF *(3)] have s: "s \<in> set (id_sessions db)" "se_id s = en_session e" by auto
  from devices.row_of_key [OF *(4)] have d: "d \<in> set (id_devices db)" "de_id d = se_device s" by auto
  show ?thesis using * k s d by metis
qed

theorem accepted_requests_are_authentic_witness:
  "\<exists>k. b64decode (de_key (hd (id_devices demo_identity))) = Some k"
proof -
  from accepted_requests_are_authentic [OF demo_verify_eq] obtain d k where
    "d \<in> set (id_devices demo_identity)" "b64decode (de_key d) = Some k" by blast
  then show ?thesis by (auto simp: demo_identity_def)
qed

definition revoked :: "string \<Rightarrow> identity_db \<Rightarrow> bool" where
  "revoked dev db \<longleftrightarrow> (\<exists>d. row_of de_id dev (id_devices db) = Some d \<and> de_status d = ''REVOKED'')"

lemma row_of_append: "row_of key k (xs @ ys) = (case row_of key k xs of None \<Rightarrow> row_of key k ys | Some x \<Rightarrow> Some x)"
  by (induction xs) (auto simp: row_of_def)

lemma step_revoked: "revoked dev db \<Longrightarrow> revoked dev (id_step V fromiso cfg x db)"
proof (cases x)
  case (VerifyOp clk e)
  assume r: "revoked dev db"
  show ?thesis
  proof (cases "fst (verify_request V fromiso cfg clk e db)")
    case (Inl err)
    then have "id_devices (snd (verify_request V fromiso cfg clk e db)) = id_devices db"
      by (auto simp: verify_request_def Let_def split: if_splits option.splits)
    with r VerifyOp show ?thesis by (simp add: revoked_def)
  next
    case (Inr d)
    then have "id_devices (snd (verify_request V fromiso cfg clk e db)) = row_update de_id d (\<lambda>d. d\<lparr>de_seen := clk 4\<rparr>) (id_devices db)"
      by (auto simp: verify_request_def Let_def split: if_splits option.splits)
    with r VerifyOp show ?thesis by (auto simp: revoked_def devices.row_of_update)
  qed
qed (auto simp: revoked_def enroll_def challenge_def open_session_def revoke_def Let_def row_of_append devices.row_of_update
    split: option.splits)

lemma run_revoked: "revoked dev db \<Longrightarrow> revoked dev (id_run V fromiso cfg ops db)"
  by (induction ops arbitrary: db) (auto simp: id_run_def step_revoked)

lemma revoke_revokes: "row_of de_id dev (id_devices db) \<noteq> None \<Longrightarrow> revoked dev (revoke dev db)"
  by (auto simp: revoked_def revoke_def devices.row_of_update)

text \<open>C23: Revocation is final: a device once revoked opens no session and has no request accepted, whatever happens
  afterwards, enrolment with the pairing code included.\<close>

theorem revoked_devices_stay_out:
  assumes "row_of de_id dev (id_devices db) \<noteq> None"
  shows "fst (verify_request V fromiso cfg clk e (id_run V fromiso cfg ops (revoke dev db))) \<noteq> Inr dev \<and>
    (\<exists>err. fst (open_session V cfg clk sid dev token sig (id_run V fromiso cfg ops (revoke dev db))) = Inl err)"
proof -
  let ?db = "id_run V fromiso cfg ops (revoke dev db)"
  have "revoked dev ?db" by (rule run_revoked [OF revoke_revokes [OF assms]])
  then obtain d where d: "row_of de_id dev (id_devices ?db) = Some d" "de_status d = ''REVOKED''"
    by (auto simp: revoked_def)
  have "fst (verify_request V fromiso cfg clk e ?db) \<noteq> Inr dev"
  proof
    assume "fst (verify_request V fromiso cfg clk e ?db) = Inr dev"
    then obtain db' where v: "verify_request V fromiso cfg clk e ?db = (Inr dev, db')"
      by (cases "verify_request V fromiso cfg clk e ?db") auto
    obtain s :: session_row and d' where "row_of de_id (se_device s) (id_devices ?db) = Some d'" "de_status d' = ''ACTIVE''" "dev = de_id d'"
      by (rule verify_accepts [OF v]) blast
    with d devices.row_of_key show False by fastforce
  qed
  moreover have "\<exists>err. fst (open_session V cfg clk sid dev token sig ?db) = Inl err"
    using d by (auto simp: open_session_def Let_def split: option.splits)
  ultimately show ?thesis by blast
qed

theorem revoked_devices_stay_out_witness:
  "fst (demo_verify (revoke ''d'' demo_identity)) \<noteq> Inr ''d''"
proof -
  have "row_of de_id ''d'' (id_devices demo_identity) \<noteq> None" by (simp add: demo_identity_def row_of_def)
  from revoked_devices_stay_out [OF this, of "\<lambda>k r s m. True" "\<lambda>t. Some 5" demo_cfg "\<lambda>n. 5" demo_envelope "[]"]
  show ?thesis by (simp add: id_run_def demo_verify_def)
qed

text \<open>Signatures are not malleable: when a signature is accepted, the one with its second half negated is not.\<close>

theorem negated_signatures_are_refused:
  assumes "node_verify V key msg sig" "from_bytes (drop 32 sig') = curve_order - from_bytes (drop 32 sig)"
  shows "\<not> node_verify V key msg sig'"
  using assms by (auto simp: node_verify_def Let_def curve_order_def split: if_splits)

text \<open>Enrolling again answers with the assurance level asked for and keeps the one on record.\<close>

theorem assurance_is_answered_not_stored:
  assumes "enroll cfg now dev key code hw db = (Inr r, db')" "row_of de_id dev (id_devices db) = Some d"
  shows "r = (dev, hw) \<and> (\<exists>d'. row_of de_id dev (id_devices db') = Some d' \<and> de_assurance d' = de_assurance d)"
  using assms by (auto simp: enroll_def devices.row_of_update split: if_splits option.splits)

end
