(* ===== verification/Node_Files.thy ===== *)
theory Node_Files
  imports Conv_Predicates
begin

text \<open>
  The scoped file provider of the node and of the desktop perimeter (\<^verbatim>\<open>msb_v3/node/filesystem.py\<close>): reading
  inside a root, and atomic writing with a receipt that can be rolled back. The file system is a function from absolute
  paths to nodes without links; file modes are not modelled. \<open>H\<close> is the hexadecimal digest of some bytes.
  Whether a temporary file can be written and renamed is an argument.
\<close>

section \<open>Path resolution\<close>

datatype file_fault =
    Invalid_Path | No_File | Outside_Scope | Not_Regular | Too_Big | Bad_Precondition | Bad_Postcondition | No_Snapshot
  | Os_Fault               \<comment> \<open>an OSError, which nothing here turns into a violation\<close>

definition violation :: "file_fault \<Rightarrow> bool" where
  "violation x \<longleftrightarrow> x \<noteq> Os_Fault"

datatype resolve_fault = Missing | Not_A_Directory

fun resolve_strict :: "files \<Rightarrow> path \<Rightarrow> path \<Rightarrow> (resolve_fault, path) result" where
  \<comment> \<open>\<^verbatim>\<open>Path.resolve(strict=True)\<close>: every component is looked up, the parent directory is taken textually\<close>
  "resolve_strict fs acc [] = Inr acc"
| "resolve_strict fs acc (c # cs) =
     (if c = ''..'' then resolve_strict fs (butlast acc) cs
      else (case fs (acc @ [c]) of
        Some _ \<Rightarrow> resolve_strict fs (acc @ [c]) cs
      | None \<Rightarrow> Inl (if fs acc = Some Directory then Missing else Not_A_Directory)))"

fun lookup_path :: "files \<Rightarrow> path \<Rightarrow> path \<Rightarrow> path option" where
  \<comment> \<open>what the system finds under a path; None: nothing there\<close>
  "lookup_path fs acc [] = Some acc"
| "lookup_path fs acc (c # cs) =
     (if fs acc \<noteq> Some Directory then None
      else if c = ''..'' then lookup_path fs (butlast acc) cs
      else if fs (acc @ [c]) = None then None
      else lookup_path fs (acc @ [c]) cs)"

definition bad_name :: "string \<Rightarrow> bool" where
  "bad_name s \<longleftrightarrow> s = [] \<or> CHR 0x00 \<in> set s"

section \<open>Reading\<close>

definition reader_path :: "files \<Rightarrow> path \<Rightarrow> string \<Rightarrow> (file_fault, path) result" where
  "reader_path fs rt requested =
     (if bad_name requested then Inl Invalid_Path
      else (case resolve_strict fs [] (join_path rt requested) of
        Inl Missing \<Rightarrow> Inl No_File
      | Inl Not_A_Directory \<Rightarrow> Inl Os_Fault
      | Inr p \<Rightarrow>
          if \<not> inside rt p then Inl Outside_Scope
          else (case fs p of Some (File _) \<Rightarrow> Inr p | _ \<Rightarrow> Inl Not_Regular)))"

fun cont_bytes :: "nat \<Rightarrow> nat list \<Rightarrow> bool" where
  "cont_bytes k bs \<longleftrightarrow> k \<le> length bs \<and> list_all (\<lambda>b. 128 \<le> b \<and> b < 192) (take k bs)"

function utf8_ok :: "nat list \<Rightarrow> bool" where
  \<comment> \<open>whether the bytes decode as UTF-8\<close>
  "utf8_ok bs = (case bs of
     [] \<Rightarrow> True
   | b # r \<Rightarrow>
       if b < 128 then utf8_ok r
       else if 194 \<le> b \<and> b < 224 then cont_bytes 1 r \<and> utf8_ok (drop 1 r)
       else if 224 \<le> b \<and> b < 240
       then cont_bytes 2 r \<and> (b = 224 \<longrightarrow> 160 \<le> hd r) \<and> (b = 237 \<longrightarrow> hd r < 160) \<and> utf8_ok (drop 2 r)
       else if 240 \<le> b \<and> b < 245
       then cont_bytes 3 r \<and> (b = 240 \<longrightarrow> 144 \<le> hd r) \<and> (b = 244 \<longrightarrow> hd r < 144) \<and> utf8_ok (drop 3 r)
       else False)"
  by pat_completeness auto
termination
  by (relation "measure length") auto

declare utf8_ok.simps [simp del]

datatype file_content = Utf8_Text string | Base64_Of string     \<comment> \<open>the bytes the text or the encoding stands for\<close>

record read_result =
  rd_path :: path
  rd_size :: nat
  rd_sha :: string
  rd_content :: file_content

definition read_scoped :: "(string \<Rightarrow> string) \<Rightarrow> nat \<Rightarrow> path \<Rightarrow> files \<Rightarrow> string \<Rightarrow> (file_fault, read_result) result" where
  "read_scoped H limit rt fs requested = bind_result (reader_path fs rt requested) (\<lambda>p.
     case fs p of
       Some (File b) \<Rightarrow>
         if limit < length b then Inl Too_Big
         else Inr \<lparr>rd_path = drop (length rt) p, rd_size = length b, rd_sha = H b,
                   rd_content = (if utf8_ok (map of_char b) then Utf8_Text b else Base64_Of b)\<rparr>
     | _ \<Rightarrow> Inl Os_Fault)"

section \<open>Writing\<close>

record receipt =
  rc_path :: path                    \<comment> \<open>relative to the root\<close>
  rc_existed :: bool
  rc_before_sha :: "string option"
  rc_after_sha :: string
  rc_size :: nat
  rc_before :: "string option"

definition target_of :: "files \<Rightarrow> path \<Rightarrow> path \<Rightarrow> (file_fault, path) result" where
  \<comment> \<open>\<^verbatim>\<open>_safe_target\<close> from the candidate on\<close>
  "target_of fs rt candidate =
     (case resolve_strict fs [] (butlast candidate) of
        Inl Missing \<Rightarrow> Inl Outside_Scope
      | Inl Not_A_Directory \<Rightarrow> Inl Os_Fault
      | Inr parent \<Rightarrow>
          if \<not> inside rt parent then Inl Outside_Scope
          else if lookup_path fs [] candidate \<noteq> None
          then (case resolve_strict fs [] candidate of
                  Inl Missing \<Rightarrow> Inl Outside_Scope
                | Inl Not_A_Directory \<Rightarrow> Inl Os_Fault
                | Inr p \<Rightarrow>
                    if \<not> inside rt p then Inl Outside_Scope
                    else (case fs p of Some (File _) \<Rightarrow> Inr p | _ \<Rightarrow> Inl Not_Regular))
          else Inr (parent @ (if candidate = [] then [] else [last candidate])))"

definition safe_target :: "files \<Rightarrow> path \<Rightarrow> string \<Rightarrow> (file_fault, path) result" where
  "safe_target fs rt requested =
     (if bad_name requested then Inl Invalid_Path else target_of fs rt (join_path rt requested))"

definition bytes_at :: "files \<Rightarrow> path \<Rightarrow> (file_fault, string option) result" where
  \<comment> \<open>\<^verbatim>\<open>path.read_bytes() if path.exists() else None\<close>\<close>
  "bytes_at fs p = (case lookup_path fs [] p of
     None \<Rightarrow> Inr None
   | Some q \<Rightarrow> (case fs q of Some (File b) \<Rightarrow> Inr (Some b) | _ \<Rightarrow> Inl Os_Fault))"

definition write_at :: "(string \<Rightarrow> string) \<Rightarrow> path \<Rightarrow> bool \<Rightarrow> (file_fault, path) result \<Rightarrow> string \<Rightarrow> string option \<Rightarrow> files \<Rightarrow>
    (file_fault, receipt) result \<times> files" where
  \<comment> \<open>\<^verbatim>\<open>write\<close> after the target is known\<close>
  "write_at H rt io target content expected fs = (case target of
     Inl x \<Rightarrow> (Inl x, fs)
   | Inr p \<Rightarrow> (case bytes_at fs p of
       Inl x \<Rightarrow> (Inl x, fs)
     | Inr before \<Rightarrow>
         if expected \<noteq> None \<and> map_option H before \<noteq> expected then (Inl Bad_Precondition, fs)
         else if \<not> io \<or> fs (butlast p) \<noteq> Some Directory then (Inl Os_Fault, fs)
         else (let fs' = fs(p \<mapsto> File content) in
           case fs' p of
             Some (File observed) \<Rightarrow>
               if H observed \<noteq> H content then (Inl Bad_Postcondition, fs')
               else (Inr \<lparr>rc_path = drop (length rt) p, rc_existed = (before \<noteq> None), rc_before_sha = map_option H before,
                          rc_after_sha = H content, rc_size = length content, rc_before = before\<rparr>, fs')
           | _ \<Rightarrow> (Inl Os_Fault, fs'))))"

definition write_scoped :: "(string \<Rightarrow> string) \<Rightarrow> nat \<Rightarrow> path \<Rightarrow> bool \<Rightarrow> string \<Rightarrow> string \<Rightarrow> string option \<Rightarrow> files \<Rightarrow>
    (file_fault, receipt) result \<times> files" where
  "write_scoped H limit rt io requested content expected fs =
     (if limit < length content then (Inl Too_Big, fs)
      else write_at H rt io (safe_target fs rt requested) content expected fs)"

definition rollback_write :: "(string \<Rightarrow> string) \<Rightarrow> nat \<Rightarrow> path \<Rightarrow> bool \<Rightarrow> receipt \<Rightarrow> files \<Rightarrow> (file_fault, bool) result \<times> files" where
  \<comment> \<open>the answer: whether the old state was seen again; removing the file succeeds\<close>
  "rollback_write H limit rt io r fs = (case target_of fs rt (rt @ rc_path r) of
     Inl x \<Rightarrow> (Inl x, fs)
   | Inr p \<Rightarrow>
       if rc_existed r
       then (case rc_before r of
         None \<Rightarrow> (Inl No_Snapshot, fs)
       | Some b \<Rightarrow>
           if limit < length b then (Inl Too_Big, fs)
           else (case write_at H rt io (target_of fs rt (rt @ rc_path r)) b None fs of
             (Inl x, fs') \<Rightarrow> (Inl x, fs')
           | (Inr _, fs') \<Rightarrow> (case fs' p of
               Some (File c) \<Rightarrow> (Inr (Some (H c) = rc_before_sha r), fs')
             | _ \<Rightarrow> (Inl Os_Fault, fs'))))
       else (Inr True, fs(p := None)))"

section \<open>Laws\<close>

definition wf_files :: "files \<Rightarrow> bool" where
  "wf_files fs \<longleftrightarrow> fs [] = Some Directory \<and>
     (\<forall>p c. fs (p @ [c]) \<noteq> None \<longrightarrow> fs p = Some Directory) \<and> (\<forall>p. fs p \<noteq> None \<longrightarrow> ''..'' \<notin> set p)"

lemma wf_prefix: "wf_files fs \<Longrightarrow> fs (p @ q) \<noteq> None \<Longrightarrow> q \<noteq> [] \<Longrightarrow> fs p = Some Directory"
proof (induction q rule: rev_induct)
  case (snoc c q)
  then have "fs (p @ q) = Some Directory" unfolding wf_files_def by (metis append.assoc)
  with snoc show ?case by (cases "q = []") auto
qed simp

lemma wf_names: "wf_files fs \<Longrightarrow> fs p \<noteq> None \<Longrightarrow> ''..'' \<notin> set p"
  by (simp add: wf_files_def)

lemma wf_up: "wf_files fs \<Longrightarrow> fs acc \<noteq> None \<Longrightarrow> fs (butlast acc) \<noteq> None"
  by (cases acc rule: rev_cases) (auto simp: wf_files_def)

lemma resolve_strict_exists:
  "wf_files fs \<Longrightarrow> fs acc \<noteq> None \<Longrightarrow> resolve_strict fs acc cs = Inr p \<Longrightarrow> fs p \<noteq> None"
proof (induction cs arbitrary: acc)
  case (Cons c cs)
  have up: "fs (butlast acc) \<noteq> None" by (rule wf_up [OF Cons.prems(1,2)])
  show ?case
  proof (cases "c = ''..''")
    case True
    then show ?thesis using Cons.IH [OF Cons.prems(1) up] Cons.prems(3) by simp
  next
    case False
    then show ?thesis using Cons.IH [OF Cons.prems(1), of "acc @ [c]"] Cons.prems(3) by (simp split: option.splits)
  qed
qed simp

lemma lookup_resolves: "lookup_path fs acc cs = Some p \<Longrightarrow> resolve_strict fs acc cs = Inr p"
  by (induction cs arbitrary: acc) (auto split: if_splits)

lemma lookup_exists: "fs acc \<noteq> None \<Longrightarrow> wf_files fs \<Longrightarrow> lookup_path fs acc cs = Some p \<Longrightarrow> fs p \<noteq> None"
  using resolve_strict_exists lookup_resolves by metis

lemma resolve_plain: "wf_files fs \<Longrightarrow> fs (acc @ cs) \<noteq> None \<Longrightarrow> resolve_strict fs acc cs = Inr (acc @ cs)"
proof (induction cs arbitrary: acc)
  case (Cons c cs)
  have "c \<noteq> ''..''" using wf_names [OF Cons.prems] by auto
  moreover have "fs (acc @ [c]) \<noteq> None"
    using Cons.prems wf_prefix [OF Cons.prems(1), of "acc @ [c]" cs] by (cases "cs = []") auto
  ultimately show ?case using Cons by auto
qed simp

lemma lookup_plain: "wf_files fs \<Longrightarrow> fs (acc @ cs) \<noteq> None \<Longrightarrow> lookup_path fs acc cs = Some (acc @ cs)"
proof (induction cs arbitrary: acc)
  case (Cons c cs)
  have "c \<noteq> ''..''" using wf_names [OF Cons.prems] by auto
  moreover have "fs (acc @ [c]) \<noteq> None"
    using Cons.prems wf_prefix [OF Cons.prems(1), of "acc @ [c]" cs] by (cases "cs = []") auto
  moreover have "fs acc = Some Directory" using wf_prefix [OF Cons.prems] by simp
  ultimately show ?case using Cons by auto
qed simp

lemma lookup_absent:
  "wf_files fs \<Longrightarrow> fs (acc @ cs) = None \<Longrightarrow> ''..'' \<notin> set cs \<Longrightarrow> fs acc \<noteq> None \<Longrightarrow> lookup_path fs acc cs = None"
  by (induction cs arbitrary: acc) auto

lemma target_cases:
  assumes "target_of fs rt candidate = Inr p" "wf_files fs"
  obtains b where "fs p = Some (File b)" "inside rt p"
  | parent where "resolve_strict fs [] (butlast candidate) = Inr parent" "inside rt parent" "fs parent \<noteq> None"
      "lookup_path fs [] candidate = None" "candidate \<noteq> []" "p = parent @ [last candidate]"
proof -
  have rt: "fs [] \<noteq> None" using assms(2) by (simp add: wf_files_def)
  obtain parent where par: "resolve_strict fs [] (butlast candidate) = Inr parent" "inside rt parent"
    using assms(1) by (auto simp: target_of_def split: sum.splits resolve_fault.splits if_splits)
  have ex: "fs parent \<noteq> None" by (rule resolve_strict_exists [OF assms(2) rt par(1)])
  show thesis
  proof (cases "lookup_path fs [] candidate")
    case None
    then have "candidate \<noteq> []" by auto
    moreover have "p = parent @ [last candidate]" using None par assms(1) calculation by (simp add: target_of_def)
    ultimately show thesis by (rule that(2) [OF par ex None])
  next
    case (Some q)
    then have "resolve_strict fs [] candidate = Inr q" by (rule lookup_resolves)
    with Some par assms(1) have "fs p \<noteq> None \<and> inside rt p \<and> (\<exists>b. fs p = Some (File b))"
      by (auto simp: target_of_def split: if_splits option.splits node.splits)
    then show thesis using that(1) by blast
  qed
qed

lemma bytes_at_file: "wf_files fs \<Longrightarrow> fs p = Some (File b) \<Longrightarrow> bytes_at fs p = Inr (Some b)"
  using lookup_plain [of fs "[]" p] by (simp add: bytes_at_def)

lemma bytes_at_parent:
  assumes "wf_files fs" "fs parent = Some Directory" "bytes_at fs (parent @ [c]) = Inr before"
  shows "c \<noteq> ''..'' \<and> before = (case fs (parent @ [c]) of Some (File b) \<Rightarrow> Some b | _ \<Rightarrow> None) \<and>
    (fs (parent @ [c]) = None \<or> (\<exists>b. fs (parent @ [c]) = Some (File b)))"
proof -
  have walk: "fs (acc @ cs) = Some Directory \<Longrightarrow> lookup_path fs acc (cs @ [c]) =
      (if c = ''..'' then Some (butlast (acc @ cs)) else if fs (acc @ cs @ [c]) = None then None else Some (acc @ cs @ [c]))"
    for acc cs
  proof (induction cs arbitrary: acc)
    case (Cons d cs)
    have "fs (acc @ [d]) \<noteq> None"
      using Cons.prems wf_prefix [OF assms(1), of "acc @ [d]" cs] by (cases "cs = []") auto
    moreover have "fs acc = Some Directory" using wf_prefix [OF assms(1), of acc "d # cs"] Cons.prems by simp
    moreover have "d \<noteq> ''..''" using wf_names [OF assms(1), of "acc @ d # cs"] Cons.prems by auto
    ultimately show ?case using Cons.IH [of "acc @ [d]"] Cons.prems by auto
  qed simp
  have up: "fs (butlast parent) = Some Directory"
    using assms(1,2) by (cases parent rule: rev_cases) (auto simp: wf_files_def)
  show ?thesis using assms(3) walk [of "[]" parent] assms(2) up
    by (auto simp: bytes_at_def split: if_splits option.splits node.splits)
qed

text \<open>What a write does: nothing, or one file inside the root.\<close>

lemma write_at_cases:
  assumes "write_at H rt io (target_of fs rt candidate) content expected fs = (r, fs')" "wf_files fs"
  obtains x where "r = Inl x" "fs' = fs"
  | p before where "target_of fs rt candidate = Inr p" "inside rt p" "fs p = map_option File before" "io"
      "fs (butlast p) = Some Directory" "''..'' \<notin> set p" "p \<noteq> []"
      "expected = None \<or> map_option H before = expected" "fs' = fs(p \<mapsto> File content)"
      "r = Inr \<lparr>rc_path = drop (length rt) p, rc_existed = (before \<noteq> None), rc_before_sha = map_option H before,
         rc_after_sha = H content, rc_size = length content, rc_before = before\<rparr>"
proof (cases "fs' = fs \<and> (\<exists>x. r = Inl x)")
  case True
  then show thesis using that(1) by blast
next
  case False
  obtain p where t: "target_of fs rt candidate = Inr p"
    using assms(1) False by (cases "target_of fs rt candidate") (auto simp: write_at_def)
  obtain before where b: "bytes_at fs p = Inr before"
    using assms(1) False t by (cases "bytes_at fs p") (auto simp: write_at_def)
  have c: "expected = None \<or> map_option H before = expected"
    using assms(1) False t b by (auto simp: write_at_def split: if_splits)
  have d: "io" "fs (butlast p) = Some Directory"
    using assms(1) False t b c by (auto simp: write_at_def split: if_splits)
  have e: "fs' = fs(p \<mapsto> File content)"
    "r = Inr \<lparr>rc_path = drop (length rt) p, rc_existed = (before \<noteq> None), rc_before_sha = map_option H before,
       rc_after_sha = H content, rc_size = length content, rc_before = before\<rparr>"
    using assms(1) t b c d by (auto simp: write_at_def Let_def split: if_splits)
  note p = t b c d e
  have "inside rt p \<and> fs p = map_option File before \<and> ''..'' \<notin> set p \<and> p \<noteq> []"
  proof (rule target_cases [OF p(1) assms(2)])
    fix b assume b: "fs p = Some (File b)" "inside rt p"
    then have "p \<noteq> []" using assms(2) by (auto simp: wf_files_def)
    with b p(2) bytes_at_file [OF assms(2) b(1)] wf_names [OF assms(2), of p] show ?thesis by auto
  next
    fix parent assume q: "inside rt parent" "fs parent \<noteq> None" "p = parent @ [last candidate]"
    have par: "fs parent = Some Directory" using p(5) q(3) by simp
    have "''..'' \<notin> set parent" using wf_names [OF assms(2)] q(2) by blast
    moreover have "inside rt p" using q(1,3) by (auto simp: inside_iff)
    moreover have "bytes_at fs (parent @ [last candidate]) = Inr before" using p(2) q(3) by simp
    note bytes_at_parent [OF assms(2) par this]
    ultimately show ?thesis using q(3) by auto
  qed
  then show thesis using that(2) p by blast
qed

lemma wf_files_update:
  assumes "wf_files fs" "fs (butlast p) = Some Directory" "fs p \<noteq> Some Directory" "''..'' \<notin> set p" "p \<noteq> []"
  shows "wf_files (fs(p \<mapsto> File b))"
proof -
  have up: "fs (q @ [c]) \<noteq> None \<Longrightarrow> fs q = Some Directory" for q c using assms(1) by (auto simp: wf_files_def)
  have "(fs(p \<mapsto> File b)) q = Some Directory" if "(fs(p \<mapsto> File b)) (q @ [c]) \<noteq> None" for q c
  proof (cases "q @ [c] = p")
    case True
    then have "fs q = Some Directory" using assms(2) by auto
    then show ?thesis using True by auto
  next
    case False
    then have "fs q = Some Directory" using that up by simp
    then show ?thesis using assms(3) by auto
  qed
  then show ?thesis using assms(1,4,5) by (simp add: wf_files_def)
qed

section \<open>Properties\<close>

text \<open>A read stays inside: what it returns is a file below the root, whole, within the size limit, with the digest of
  its bytes.\<close>

theorem reads_stay_inside:
  assumes "read_scoped H limit rt fs requested = Inr r"
  shows "\<exists>b. fs (rt @ rd_path r) = Some (File b) \<and> rd_sha r = H b \<and> rd_size r = length b \<and> length b \<le> limit"
proof -
  from assms obtain p where rp: "reader_path fs rt requested = Inr p" by (auto simp: read_scoped_def result_simps)
  with assms obtain b where p: "fs p = Some (File b)" "\<not> limit < length b"
    and r: "rd_path r = drop (length rt) p" "rd_sha r = H b" "rd_size r = length b"
    by (cases "fs p"; cases "the (fs p)") (auto simp: read_scoped_def split: if_splits)
  have "inside rt p" using rp
    by (auto simp: reader_path_def split: if_splits sum.splits resolve_fault.splits option.splits node.splits)
  then have "rt @ rd_path r = p" by (auto simp: r inside_def) (metis append_take_drop_id)
  with p r show ?thesis by auto
qed

text \<open>A write stays inside: it leaves the file system alone, or it puts exactly the given bytes into one file below the
  root that was absent or a regular file, with the digest the caller expected.\<close>

theorem writes_stay_inside:
  assumes "write_scoped H limit rt io requested content expected fs = (r, fs')" "wf_files fs"
  shows "fs' = fs \<or> (\<exists>p before. inside rt p \<and> fs p = map_option File before \<and> fs' = fs(p \<mapsto> File content) \<and>
     length content \<le> limit \<and> (expected = None \<or> map_option H before = expected) \<and> (\<exists>rc. r = Inr rc))"
proof (cases "limit < length content \<or> bad_name requested")
  case True
  with assms(1) show ?thesis by (auto simp: write_scoped_def safe_target_def write_at_def split: if_splits)
next
  case False
  with assms(1) have w: "write_at H rt io (target_of fs rt (join_path rt requested)) content expected fs = (r, fs')"
    by (simp add: write_scoped_def safe_target_def)
  have len: "length content \<le> limit" using False by simp
  show ?thesis by (rule write_at_cases [OF w assms(2)]) (use len in blast)+
qed

text \<open>A rollback undoes the write: where the old content is within the size limit, rolling back the receipt right away
  gives the old file system back.\<close>

lemma target_again:
  assumes "wf_files fs" "fs (butlast p) = Some Directory" "fs p \<noteq> Some Directory" "''..'' \<notin> set p" "p \<noteq> []"
    "inside rt p" "fs rt = Some Directory"
  shows "target_of (fs(p \<mapsto> File b)) rt p = Inr p"
proof -
  let ?fs = "fs(p \<mapsto> File b)"
  have wf: "wf_files ?fs" by (rule wf_files_update [OF assms(1-5)])
  have par: "resolve_strict ?fs [] (butlast p) = Inr (butlast p)"
    using resolve_plain [OF wf, of "[]" "butlast p"] assms(2,5) by (cases "p = butlast p") auto
  have ex: "lookup_path ?fs [] p = Some p" "resolve_strict ?fs [] p = Inr p"
    using lookup_plain [OF wf, of "[]" p] resolve_plain [OF wf, of "[]" p] by simp_all
  have "p \<noteq> rt" using assms(3,7) by auto
  with assms(6) have "inside rt (butlast p)"
    by (auto simp: inside_iff butlast_append)
  with par ex assms(6) show ?thesis by (simp add: target_of_def)
qed

lemma inside_drop: "inside rt p \<Longrightarrow> rt @ drop (length rt) p = p"
  by (metis append_take_drop_id inside_def)

lemma write_scoped_Inr:
  assumes "write_scoped H limit rt io requested content expected fs = (Inr rc, fs')" "wf_files fs"
  obtains p before where "inside rt p" "fs p = map_option File before" "fs (butlast p) = Some Directory" "''..'' \<notin> set p" "p \<noteq> []"
    "fs' = fs(p \<mapsto> File content)" "rt @ rc_path rc = p" "rc_existed rc = (before \<noteq> None)" "rc_before rc = before"
    "rc_before_sha rc = map_option H before" "expected = None \<or> map_option H before = expected"
proof -
  have "\<not> limit < length content \<and> \<not> bad_name requested"
    using assms(1) by (auto simp: write_scoped_def safe_target_def write_at_def split: if_splits)
  with assms(1) have "write_at H rt io (target_of fs rt (join_path rt requested)) content expected fs = (Inr rc, fs')"
    by (simp add: write_scoped_def safe_target_def)
  then show thesis
    by (rule write_at_cases [OF _ assms(2)]) (use that in \<open>auto simp: inside_drop\<close>)
qed

theorem rollback_restores:
  assumes "write_scoped H limit rt io requested content expected fs = (Inr rc, fs')" "wf_files fs" "fs rt = Some Directory"
    and "\<And>b. rc_before rc = Some b \<Longrightarrow> length b \<le> limit"
  shows "rollback_write H limit rt True rc fs' = (Inr True, fs)"
proof (rule write_scoped_Inr [OF assms(1,2)])
  fix p before
  assume p: "inside rt p" "fs p = map_option File before" "fs (butlast p) = Some Directory" "''..'' \<notin> set p" "p \<noteq> []"
    "fs' = fs(p \<mapsto> File content)" "rt @ rc_path rc = p" "rc_existed rc = (before \<noteq> None)" "rc_before rc = before"
    "rc_before_sha rc = map_option H before"
  have nd: "fs p \<noteq> Some Directory" using p(2) by (cases before) auto
  have t: "target_of fs' rt (rt @ rc_path rc) = Inr p"
    unfolding p(6,7) by (rule target_again [OF assms(2) p(3) nd p(4,5,1) assms(3)])
  show ?thesis
  proof (cases before)
    case None
    with p t show ?thesis by (simp add: rollback_write_def fun_upd_idem_iff)
  next
    case (Some b)
    have wf: "wf_files fs'" unfolding p(6) by (rule wf_files_update [OF assms(2) p(3) nd p(4,5)])
    have bytes: "bytes_at fs' p = Inr (Some content)" using bytes_at_file [OF wf] p(6) by simp
    have par: "fs' (butlast p) = Some Directory" using p(3,5,6) by (cases p rule: rev_cases) auto
    have undo: "fs'(p \<mapsto> File b) = fs" using p(2,6) Some by (simp add: fun_upd_idem_iff)
    have len: "\<not> limit < length b" using assms(4) p(9) Some by (simp add: not_less)
    have old: "fs p = Some (File b)" using p(2) Some by simp
    have w: "write_at H rt True (target_of fs' rt (rt @ rc_path rc)) b None fs' =
        (Inr \<lparr>rc_path = drop (length rt) p, rc_existed = True, rc_before_sha = Some (H content), rc_after_sha = H b,
              rc_size = length b, rc_before = Some content\<rparr>, fs)"
      using t bytes par undo old by (simp add: write_at_def Let_def)
    show ?thesis using t w len old p(8-10) Some by (simp add: rollback_write_def)
  qed
qed

text \<open>Without that condition it does not: overwriting a file larger than the limit is allowed, and rolling it back
  fails and leaves the new content, although the receipt holds the old one.\<close>

theorem large_files_cannot_be_rolled_back:
  assumes "write_scoped H limit rt io requested content expected fs = (Inr rc, fs')" "wf_files fs" "fs rt = Some Directory"
    and "rc_before rc = Some b" "limit < length b"
  shows "rollback_write H limit rt True rc fs' = (Inl Too_Big, fs')"
proof (rule write_scoped_Inr [OF assms(1,2)])
  fix p before
  assume p: "inside rt p" "fs p = map_option File before" "fs (butlast p) = Some Directory" "''..'' \<notin> set p" "p \<noteq> []"
    "fs' = fs(p \<mapsto> File content)" "rt @ rc_path rc = p" "rc_existed rc = (before \<noteq> None)" "rc_before rc = before"
  have nd: "fs p \<noteq> Some Directory" using p(2) by (cases before) auto
  have "target_of fs' rt (rt @ rc_path rc) = Inr p"
    unfolding p(6,7) by (rule target_again [OF assms(2) p(3) nd p(4,5,1) assms(3)])
  moreover have "rc_existed rc" using p(8,9) assms(4) by auto
  ultimately show ?thesis using assms(4,5) by (simp add: rollback_write_def)
qed

lemma rollback_outcomes:
  assumes "write_scoped H limit rt io requested data expected fs = (Inr rc, fs')" "wf_files fs" "fs rt = Some Directory"
    and "rollback_write H limit rt io' rc fs' = (q, fs'')"
  shows "(fs'' = fs' \<and> (\<exists>x. q = Inl x)) \<or> (fs'' = fs \<and> q = Inr True)"
proof (cases "rc_before rc")
  case None
  have "rc_existed rc = False" by (rule write_scoped_Inr [OF assms(1,2)]) (use None in simp)
  then have "rollback_write H limit rt io' rc fs' = rollback_write H limit rt True rc fs'"
    by (simp add: rollback_write_def split: sum.splits)
  with rollback_restores [OF assms(1-3)] None assms(4) show ?thesis by simp
next
  case (Some b)
  have ex: "rc_existed rc" by (rule write_scoped_Inr [OF assms(1,2)]) (use Some in auto)
  show ?thesis
  proof (cases "limit < length b \<or> io'")
    case True
    then show ?thesis
    proof
      assume "limit < length b"
      then have "rollback_write H limit rt True rc fs' = (Inl Too_Big, fs')"
        by (rule large_files_cannot_be_rolled_back [OF assms(1-3) Some])
      moreover have "rollback_write H limit rt io' rc fs' = rollback_write H limit rt True rc fs'"
        using \<open>limit < length b\<close> Some ex by (simp add: rollback_write_def split: sum.splits)
      ultimately show ?thesis using assms(4) by simp
    next
      assume io: "io'"
      show ?thesis
      proof (cases "limit < length b")
        case True
        with large_files_cannot_be_rolled_back [OF assms(1-3) Some] assms(4) io show ?thesis by auto
      next
        case False
        with rollback_restores [OF assms(1-3)] Some assms(4) io show ?thesis by simp
      qed
    qed
  next
    case False
    with assms(4) Some ex show ?thesis
      by (auto simp: rollback_write_def write_at_def split: sum.splits if_splits)
  qed
qed

text \<open>A target below a regular file passes the scope check and ends in an operating-system error.\<close>

theorem targets_below_files_escape:
  assumes "wf_files fs" "fs (rt @ [d]) = Some (File b)" "c \<noteq> ''..''"
  shows "target_of fs rt (rt @ [d, c]) = Inr (rt @ [d, c])"
    and "fst (write_at H rt io (target_of fs rt (rt @ [d, c])) content None fs) = Inl Os_Fault"
proof -
  have none: "fs (rt @ [d, c]) = None"
  proof (rule ccontr)
    assume "fs (rt @ [d, c]) \<noteq> None"
    with wf_prefix [OF assms(1), of "rt @ [d]" "[c]"] have "fs (rt @ [d]) = Some Directory" by simp
    with assms(2) show False by simp
  qed
  have names: "''..'' \<notin> set (rt @ [d, c])" using wf_names [OF assms(1), of "rt @ [d]"] assms(2,3) by auto
  have l: "lookup_path fs [] (rt @ [d, c]) = None"
    using lookup_absent [OF assms(1), of "[]" "rt @ [d, c]"] none names assms(1) by (simp add: wf_files_def)
  have r: "resolve_strict fs [] (rt @ [d]) = Inr (rt @ [d])" using resolve_plain [OF assms(1), of "[]" "rt @ [d]"] assms(2) by simp
  show t: "target_of fs rt (rt @ [d, c]) = Inr (rt @ [d, c])"
    using l r by (simp add: target_of_def butlast_append inside_def)
  show "fst (write_at H rt io (target_of fs rt (rt @ [d, c])) content None fs) = Inl Os_Fault"
    unfolding t using l assms(2) by (simp add: write_at_def bytes_at_def butlast_append)
qed

end
