(* ===== verification/Effects.thy ===== *)
theory Effects
  imports Ledger_Chain
begin

text \<open>
  Sequences of effects with exceptions, for services that call several stores one after the other: an effect takes the
  state and gives a result or an exception together with the state at that point; nothing is undone. The rules for
  \<open>valid\<close> carry an assertion through a sequence, on the normal and on the exceptional exit.
\<close>

named_theorems valid_rules "assertions about effects"

type_synonym ('s, 'e, 'a) eff = "'s \<Rightarrow> ('e, 'a) result \<times> 's"

definition ret :: "'a \<Rightarrow> ('s, 'e, 'a) eff" where
  "ret x s = (Inr x, s)"

definition fail_with :: "'e \<Rightarrow> ('s, 'e, 'a) eff" where
  "fail_with e s = (Inl e, s)"

definition andthen :: "('s, 'e, 'a) eff \<Rightarrow> ('a \<Rightarrow> ('s, 'e, 'b) eff) \<Rightarrow> ('s, 'e, 'b) eff" where
  "andthen m f s = (case m s of (Inl e, s') \<Rightarrow> (Inl e, s') | (Inr x, s') \<Rightarrow> f x s')"

definition rescue :: "('s, 'e, 'a) eff \<Rightarrow> ('e \<Rightarrow> ('s, 'e, 'a) eff) \<Rightarrow> ('s, 'e, 'a) eff" where
  \<comment> \<open>\<^verbatim>\<open>try: m except ...: h\<close>; \<open>h\<close> passes on what it does not catch\<close>
  "rescue m h s = (case m s of (Inl e, s') \<Rightarrow> h e s' | (Inr x, s') \<Rightarrow> (Inr x, s'))"

definition asks :: "('s \<Rightarrow> 'a) \<Rightarrow> ('s, 'e, 'a) eff" where
  "asks f s = (Inr (f s), s)"

definition valid :: "('s \<Rightarrow> bool) \<Rightarrow> ('s, 'e, 'a) eff \<Rightarrow> ('a \<Rightarrow> 's \<Rightarrow> bool) \<Rightarrow> ('e \<Rightarrow> 's \<Rightarrow> bool) \<Rightarrow> bool" where
  "valid P m Q E \<longleftrightarrow> (\<forall>s r s'. P s \<longrightarrow> m s = (r, s') \<longrightarrow> (case r of Inr x \<Rightarrow> Q x s' | Inl e \<Rightarrow> E e s'))"

lemma validI:
  "(\<And>s x s'. P s \<Longrightarrow> m s = (Inr x, s') \<Longrightarrow> Q x s') \<Longrightarrow> (\<And>s e s'. P s \<Longrightarrow> m s = (Inl e, s') \<Longrightarrow> E e s') \<Longrightarrow> valid P m Q E"
  by (auto simp: valid_def split: sum.splits)

lemma valid_Inr: "valid P m Q E \<Longrightarrow> P s \<Longrightarrow> m s = (Inr x, s') \<Longrightarrow> Q x s'"
  by (fastforce simp: valid_def)

lemma valid_Inl: "valid P m Q E \<Longrightarrow> P s \<Longrightarrow> m s = (Inl e, s') \<Longrightarrow> E e s'"
  by (fastforce simp: valid_def)

lemma valid_ret [valid_rules]: "(\<And>s. P s \<Longrightarrow> Q x s) \<Longrightarrow> valid P (ret x) Q E"
  by (simp add: valid_def ret_def)

lemma valid_fail [valid_rules]: "(\<And>s. P s \<Longrightarrow> E e s) \<Longrightarrow> valid P (fail_with e) Q E"
  by (simp add: valid_def fail_with_def)

lemma valid_asks [valid_rules]: "(\<And>s. P s \<Longrightarrow> Q (f s) s) \<Longrightarrow> valid P (asks f) Q E"
  by (simp add: valid_def asks_def)

lemma valid_andthen: "valid P m R E \<Longrightarrow> (\<And>x. valid (R x) (f x) Q E) \<Longrightarrow> valid P (andthen m f) Q E"
  by (rule validI) (auto simp: andthen_def split: prod.splits sum.splits dest: valid_Inr valid_Inl)

lemma valid_rescue: "valid P m Q R \<Longrightarrow> (\<And>e. valid (R e) (h e) Q E) \<Longrightarrow> valid P (rescue m h) Q E"
  by (rule validI) (auto simp: rescue_def split: prod.splits sum.splits dest: valid_Inr valid_Inl)

lemma valid_weaken:
  "valid P m Q E \<Longrightarrow> (\<And>s. P' s \<Longrightarrow> P s) \<Longrightarrow> (\<And>x s. Q x s \<Longrightarrow> Q' x s) \<Longrightarrow> (\<And>e s. E e s \<Longrightarrow> E' e s) \<Longrightarrow> valid P' m Q' E'"
  by (fastforce simp: valid_def split: sum.splits)

lemma valid_if [valid_rules]:
  "(b \<Longrightarrow> valid P m Q E) \<Longrightarrow> (\<not> b \<Longrightarrow> valid P n Q E) \<Longrightarrow> valid P (if b then m else n) Q E"
  by simp

lemma valid_conj: "valid P m Q E \<Longrightarrow> valid P' m Q' E' \<Longrightarrow>
    valid (\<lambda>s. P s \<and> P' s) m (\<lambda>x s. Q x s \<and> Q' x s) (\<lambda>e s. E e s \<and> E' e s)"
  by (fastforce simp: valid_def split: sum.splits)

text \<open>An effect keeps a property when both its exits do.\<close>

definition keeps :: "('s \<Rightarrow> bool) \<Rightarrow> ('s, 'e, 'a) eff \<Rightarrow> bool" where
  "keeps I m \<longleftrightarrow> valid I m (\<lambda>_. I) (\<lambda>_. I)"

named_theorems keeps_rules "what effects keep"

lemma keepsD: "keeps I m \<Longrightarrow> I s \<Longrightarrow> m s = (r, s') \<Longrightarrow> I s'"
  by (cases r) (auto simp: keeps_def dest: valid_Inr valid_Inl)

lemma keepsI: "(\<And>s r s'. I s \<Longrightarrow> m s = (r, s') \<Longrightarrow> I s') \<Longrightarrow> keeps I m"
  by (simp add: keeps_def validI)

lemma keeps_ret [keeps_rules]: "keeps I (ret x)"
  by (simp add: keeps_def valid_ret)

lemma keeps_fail [keeps_rules]: "keeps I (fail_with e)"
  by (simp add: keeps_def valid_fail)

lemma keeps_asks [keeps_rules]: "keeps I (asks f)"
  by (simp add: keeps_def valid_asks)

lemma keeps_andthen [keeps_rules]: "keeps I m \<Longrightarrow> (\<And>x. keeps I (f x)) \<Longrightarrow> keeps I (andthen m f)"
  unfolding keeps_def by (rule valid_andthen)

lemma keeps_rescue [keeps_rules]: "keeps I m \<Longrightarrow> (\<And>e. keeps I (h e)) \<Longrightarrow> keeps I (rescue m h)"
  unfolding keeps_def by (rule valid_rescue)

lemma keeps_if [keeps_rules]: "(b \<Longrightarrow> keeps I m) \<Longrightarrow> (\<not> b \<Longrightarrow> keeps I n) \<Longrightarrow> keeps I (if b then m else n)"
  by simp

lemma keeps_option [keeps_rules]:
  "(r = None \<Longrightarrow> keeps I g) \<Longrightarrow> (\<And>x. r = Some x \<Longrightarrow> keeps I (f x)) \<Longrightarrow> keeps I (case r of None \<Rightarrow> g | Some x \<Rightarrow> f x)"
  by (cases r) simp_all

lemma keeps_sum [keeps_rules]:
  "(\<And>e. r = Inl e \<Longrightarrow> keeps I (g e)) \<Longrightarrow> (\<And>x. r = Inr x \<Longrightarrow> keeps I (f x)) \<Longrightarrow> keeps I (case r of Inl e \<Rightarrow> g e | Inr x \<Rightarrow> f x)"
  by (cases r) simp_all

lemma keeps_prod [keeps_rules]: "(\<And>a b. p = (a, b) \<Longrightarrow> keeps I (f a b)) \<Longrightarrow> keeps I (case p of (a, b) \<Rightarrow> f a b)"
  by (cases p) simp

lemma keeps_let [keeps_rules]: "keeps I (f x) \<Longrightarrow> keeps I (let y = x in f y)"
  by simp

lemma keeps_conj: "keeps I m \<Longrightarrow> keeps J m \<Longrightarrow> keeps (\<lambda>s. I s \<and> J s) m"
  by (rule keepsI) (blast dest: keepsD)

lemma keeps_const: "keeps (\<lambda>_. b) m"
  by (rule keepsI)

lemma valid_step: "keeps I m \<Longrightarrow> (\<And>x. valid I (f x) Q (\<lambda>_ _. True)) \<Longrightarrow> valid I (andthen m f) Q (\<lambda>_ _. True)"
  by (rule valid_andthen [of _ _ "\<lambda>_. I"]) (simp_all add: valid_weaken [of I m "\<lambda>_. I" "\<lambda>_. I"] keeps_def)

lemma andthen_Inr: "andthen m f s = (Inr y, s') \<longleftrightarrow> (\<exists>x s1. m s = (Inr x, s1) \<and> f x s1 = (Inr y, s'))"
  by (auto simp: andthen_def split: prod.splits sum.splits)

lemma andthen_Inl: "andthen m f s = (Inl e, s') \<longleftrightarrow> m s = (Inl e, s') \<or> (\<exists>x s1. m s = (Inr x, s1) \<and> f x s1 = (Inl e, s'))"
  by (auto simp: andthen_def split: prod.splits sum.splits)

lemma andthen_assoc: "andthen (andthen m f) g = andthen m (\<lambda>x. andthen (f x) g)"
  by (auto simp: andthen_def fun_eq_iff split: prod.splits sum.splits)

lemma effect_simps [simp]: "ret x s = (Inr x, s)" "fail_with e s = (Inl e, s)" "asks f s = (Inr (f s), s)"
  by (simp_all add: ret_def fail_with_def asks_def)

end
