(* ===== verification/Node_Service.thy ===== *)
theory Node_Service
  imports Effects Node_Identity Node_Files
begin

text \<open>
  The sovereign node (\<^verbatim>\<open>msb_v3/node/service.py\<close>, \<^verbatim>\<open>policy.py\<close>, \<^verbatim>\<open>approval.py\<close>): the
  normalisation of an intent, the deterministic policy, the approvals of mutations, and the handling of one signed
  request from authentication to the verified read. An append to the audit chain that raises escapes. The readings of
  the kill switch and of the clock and the ids drawn are arguments; the texts of policy reasons are constructors, and
  \<open>txt\<close> is \<^verbatim>\<open>str\<close> on values that are not strings.
\<close>

section \<open>Intents\<close>

definition read_argument :: "string \<Rightarrow> string option" where
  \<comment> \<open>what is left after the keyword: white space, then one line\<close>
  "read_argument t = (let r = dropWhile is_space t in
     if t \<noteq> [] \<and> is_space (hd t) \<and> r \<noteq> [] \<and> CHR 0x0A \<notin> set r then Some r else None)"

definition match_read :: "string \<Rightarrow> string option" where
  \<comment> \<open>\<^verbatim>\<open>re.fullmatch(r"read(?: file)?\s+(.+)", command, IGNORECASE)\<close> on stripped text\<close>
  "match_read s =
     (if py_lower (take 4 s) = ''read''
      then (let t = drop 4 s; short = read_argument t in
        if py_lower (take 5 t) = '' file''
        then (case read_argument (drop 5 t) of Some x \<Rightarrow> Some x | None \<Rightarrow> short)
        else short)
      else None)"

definition value_or_null :: "json option \<Rightarrow> json" where
  "value_or_null v = (case v of None \<Rightarrow> JNull | Some x \<Rightarrow> x)"

definition key_of :: "string \<Rightarrow> json \<Rightarrow> json option" where
  "key_of k v = (case v of JObj kvs \<Rightarrow> map_of kvs (KStr k) | _ \<Rightarrow> None)"

definition plain_text :: "(json \<Rightarrow> string) \<Rightarrow> json \<Rightarrow> string" where
  \<comment> \<open>\<^verbatim>\<open>str(v)\<close>\<close>
  "plain_text txt v = (case v of JStr s \<Rightarrow> s | _ \<Rightarrow> txt v)"

definition compile_intent :: "(json \<Rightarrow> string) \<Rightarrow> json \<Rightarrow> json" where
  "compile_intent txt i =
     (let normal = obj [(''type'', value_or_null (key_of ''type'' i)),
                        (''objective'', case key_of ''objective'' i of None \<Rightarrow> JStr [] | Some v \<Rightarrow> v),
                        (''target'', value_or_null (key_of ''target'' i)),
                        (''requested_capabilities'', value_or_null (key_of ''requested_capabilities'' i))]
      in if key_of ''command'' i \<noteq> None \<and> key_of ''type'' i = None
         then (case match_read (py_strip (plain_text txt (value_or_null (key_of ''command'' i)))) of
                 Some p \<Rightarrow> obj [(''type'', JStr ''read_file''), (''objective'', JStr (''Read '' @ p)),
                                (''target'', obj [(''path'', JStr p)]), (''requested_capabilities'', JList [JStr ''FILE_READ''])]
               | None \<Rightarrow> normal)
         else normal)"

section \<open>State\<close>

record node_approval =
  na_id :: string
  na_request :: string
  na_device :: string
  na_intent :: json
  na_status :: string
  na_decided :: "(int \<times> string \<times> string) option"    \<comment> \<open>time, operator, reason\<close>

record 'c node_state =
  nd_ids :: identity_db
  nd_approvals :: "node_approval list"
  nd_chain :: 'c

datatype node_fault =
    Auth node_error
  | Audit_Raised
  | Id_Taken
  | Bad_Approval_Status | Not_Pending
  | Read_Fault file_fault
  | Key_Missing               \<comment> \<open>a KeyError or TypeError on a decoded value\<close>

type_synonym ('c, 'a) node_eff = "('c node_state, node_fault, 'a) eff"

definition node_audit :: "'c appender \<Rightarrow> string \<Rightarrow> json \<Rightarrow> ('c, nat) node_eff" where
  "node_audit app ev p s = (case app (nd_chain s) ''node'' ev p of
     (None, c) \<Rightarrow> (Inl Audit_Raised, s\<lparr>nd_chain := c\<rparr>)
   | (Some n, c) \<Rightarrow> (Inr n, s\<lparr>nd_chain := c\<rparr>))"

definition with_ids :: "(identity_db \<Rightarrow> (node_error, 'a) result \<times> identity_db) \<Rightarrow> ('c, 'a) node_eff" where
  "with_ids f s = (case f (nd_ids s) of
     (Inl e, d) \<Rightarrow> (Inl (Auth e), s\<lparr>nd_ids := d\<rparr>)
   | (Inr x, d) \<Rightarrow> (Inr x, s\<lparr>nd_ids := d\<rparr>))"

section \<open>Approvals\<close>

definition insert_approval :: "node_approval \<Rightarrow> ('c, unit) node_eff" where
  "insert_approval a s = (case row_insert na_id a (nd_approvals s) of
     None \<Rightarrow> (Inl Id_Taken, s)
   | Some rs \<Rightarrow> (Inr (), s\<lparr>nd_approvals := rs\<rparr>))"

definition submit_approval :: "'c appender \<Rightarrow> string \<Rightarrow> string \<Rightarrow> string \<Rightarrow> json \<Rightarrow> ('c, string) node_eff" where
  "submit_approval app aid request device intent =
     andthen (insert_approval \<lparr>na_id = aid, na_request = request, na_device = device, na_intent = intent,
                na_status = ''PENDING'', na_decided = None\<rparr>) (\<lambda>_.
     andthen (node_audit app ''approval.created'' (obj [(''approval_id'', JStr aid), (''request_id'', JStr request)])) (\<lambda>_.
     ret aid))"

definition decide_row :: "string \<Rightarrow> (node_approval \<Rightarrow> node_approval) \<Rightarrow> ('c, unit) node_eff" where
  \<comment> \<open>the guarded UPDATE; any row count but one raises\<close>
  "decide_row aid f s = (case row_of na_id aid (nd_approvals s) of
     None \<Rightarrow> (Inl Not_Pending, s)
   | Some a \<Rightarrow>
       if na_status a \<noteq> ''PENDING'' then (Inl Not_Pending, s)
       else (Inr (), s\<lparr>nd_approvals := row_update na_id aid f (nd_approvals s)\<rparr>))"

definition decide_approval :: "'c appender \<Rightarrow> int \<Rightarrow> string \<Rightarrow> string \<Rightarrow> string \<Rightarrow> string \<Rightarrow> ('c, node_approval option) node_eff" where
  "decide_approval app now aid status operator reason =
     (if status \<notin> {''APPROVED'', ''REJECTED''} then fail_with Bad_Approval_Status
      else andthen (decide_row aid (\<lambda>a. a\<lparr>na_status := status, na_decided := Some (now, operator, reason)\<rparr>)) (\<lambda>_.
        andthen (asks (\<lambda>s. row_of na_id aid (nd_approvals s))) (\<lambda>item.
        if item = None then fail_with Not_Pending
        else andthen (node_audit app ''approval.decided''
               (obj [(''approval_id'', JStr aid), (''status'', JStr status), (''operator'', JStr operator)])) (\<lambda>_. ret item))))"

section \<open>Policy\<close>

definition CAPABILITIES :: "string list" where
  "CAPABILITIES = [''SCREEN_READ'', ''FILE_READ'', ''FILE_WRITE'', ''SHELL_EXEC'', ''GUI_CLICK'', ''GUI_TYPE'', ''BROWSER_NAVIGATE'',
     ''NETWORK_REQUEST'', ''APP_LAUNCH'']"

definition SLICE_DENIED :: "string list" where
  "SLICE_DENIED = [''SHELL_EXEC'', ''GUI_CLICK'', ''GUI_TYPE'', ''BROWSER_NAVIGATE'', ''APP_LAUNCH'', ''NETWORK_REQUEST'']"

datatype policy_reason = Kill_Armed | Unstructured | Unknown_Capabilities "string list" | No_Target_Path | Owner_Needed
  | Not_Enabled | No_Match | Within_Sandbox

record grant =
  gr_id :: string
  gr_capability :: string
  gr_device :: string
  gr_request :: string
  gr_root :: path
  gr_path :: string
  gr_expires :: int
  gr_max :: int

datatype decision =
    Quarantine                             \<comment> \<open>risk L7\<close>
  | Deny string policy_reason              \<comment> \<open>the risk level\<close>
  | Require_Approval string                \<comment> \<open>risk L3\<close>
  | Allow_With_Limits grant                \<comment> \<open>risk L1\<close>

fun decision_name :: "decision \<Rightarrow> string" where
  "decision_name Quarantine = ''QUARANTINE''"
| "decision_name (Deny _ _) = ''DENY''"
| "decision_name (Require_Approval _) = ''REQUIRE_APPROVAL''"
| "decision_name (Allow_With_Limits _) = ''ALLOW_WITH_LIMITS''"

record node_env =
  ne_root :: path
  ne_limit :: nat
  ne_ttl :: int                    \<comment> \<open>of a grant, in seconds\<close>
  ne_cfg :: identity_cfg

record draws =
  dw_clock :: "nat \<Rightarrow> int"
  dw_armed :: "nat \<Rightarrow> bool"        \<comment> \<open>the reading of the kill switch\<close>
  dw_id :: "nat \<Rightarrow> string"

datatype intent_class = Refused string policy_reason | Read_Of string | Mutation

definition classify_intent :: "(json \<Rightarrow> string) \<Rightarrow> json \<Rightarrow> intent_class" where
  \<comment> \<open>\<^verbatim>\<open>evaluate\<close> after the kill switch, up to its effects\<close>
  "classify_intent txt intent =
     (case (value_or_null (key_of ''target'' intent), value_or_null (key_of ''requested_capabilities'' intent)) of
        (JObj target, JList requested) \<Rightarrow>
          (let caps = map (ascii_upper \<circ> plain_text txt) requested;
               unknown = sort (remdups (filter (\<lambda>c. c \<notin> set CAPABILITIES) caps))
           in if unknown \<noteq> [] then Refused ''L7'' (Unknown_Capabilities unknown)
              else if plain_text txt (value_or_null (key_of ''type'' intent)) = ''read_file'' \<and> set caps = {''FILE_READ''}
              then (case key_of ''path'' (JObj target) of
                      Some (JStr p) \<Rightarrow> if p = [] then Refused ''L7'' No_Target_Path else Read_Of p
                    | _ \<Rightarrow> Refused ''L7'' No_Target_Path)
              else if ''FILE_WRITE'' \<in> set caps then Mutation
              else if set caps \<inter> set SLICE_DENIED \<noteq> {} then Refused ''L4'' Not_Enabled
              else Refused ''L7'' No_Match)
      | _ \<Rightarrow> Refused ''L7'' Unstructured)"

definition grant_for :: "node_env \<Rightarrow> draws \<Rightarrow> string \<Rightarrow> string \<Rightarrow> string \<Rightarrow> grant" where
  "grant_for env dw request device p =
     \<lparr>gr_id = dw_id dw 0, gr_capability = ''FILE_READ'', gr_device = device, gr_request = request,
      gr_root = ne_root env, gr_path = p, gr_expires = dw_clock dw 5 + seconds (ne_ttl env), gr_max = 1\<rparr>"

definition evaluate_policy :: "'c appender \<Rightarrow> (json \<Rightarrow> string) \<Rightarrow> node_env \<Rightarrow> draws \<Rightarrow> string \<Rightarrow> string \<Rightarrow> json \<Rightarrow> ('c, decision) node_eff" where
  "evaluate_policy app txt env dw request device intent =
     (if dw_armed dw 0 then ret Quarantine
      else (case classify_intent txt intent of
        Refused risk why \<Rightarrow> ret (Deny risk why)
      | Read_Of p \<Rightarrow> ret (Allow_With_Limits (grant_for env dw request device p))
      | Mutation \<Rightarrow> andthen (submit_approval app (dw_id dw 1) request device intent) (\<lambda>a. ret (Require_Approval a))))"

section \<open>One request\<close>

datatype node_response =
    Approval_Required "nat list" string
  | Denied "nat list" string policy_reason
  | Failed "nat list" string file_fault            \<comment> \<open>the execution id\<close>
  | Completed "nat list" string read_result

definition policy_payload :: "string \<Rightarrow> decision \<Rightarrow> json" where
  \<comment> \<open>the event's leading fields; risk, reasons and grant are left out\<close>
  "policy_payload request d = obj [(''request_id'', JStr request), (''decision'', JStr (decision_name d))]"

definition scoped_read :: "(string \<Rightarrow> string) \<Rightarrow> node_env \<Rightarrow> files \<Rightarrow> grant \<Rightarrow> (file_fault, read_result) result" where
  \<comment> \<open>the body of the \<^verbatim>\<open>try\<close>, up to the verification\<close>
  "scoped_read H env fs g =
     (if gr_capability g \<noteq> ''FILE_READ'' \<or> gr_max g < 1 then Inl Invalid_Path
      else bind_result (read_scoped H (ne_limit env) (ne_root env) fs (gr_path g)) (\<lambda>r.
        if rd_sha r = [] then Inl Invalid_Path else Inr r))"

definition execute_grant :: "'c appender \<Rightarrow> (string \<Rightarrow> string) \<Rightarrow> node_env \<Rightarrow> draws \<Rightarrow> files \<Rightarrow> nat list \<Rightarrow> grant \<Rightarrow>
    ('c, node_response) node_eff" where
  "execute_grant app H env dw fs ids g =
     (let x = dw_id dw 2 in
      if dw_armed dw 1 then ret (Denied ids ''L1'' Kill_Armed)
      else andthen (node_audit app ''execution.started'' (obj [(''execution_id'', JStr x), (''grant_id'', JStr (gr_id g))])) (\<lambda>n1.
        case scoped_read H env fs g of
          Inr r \<Rightarrow> andthen (node_audit app ''execution.verified''
              (obj [(''execution_id'', JStr x), (''ok'', JBool True), (''method'', JStr ''file_exists_and_sha256''), (''sha256'', JStr (rd_sha r))]))
              (\<lambda>n2. ret (Completed (ids @ [n1, n2]) x r))
        | Inl e \<Rightarrow>
            if violation e
            then andthen (node_audit app ''execution.failed'' (obj [(''execution_id'', JStr x)])) (\<lambda>n2. ret (Failed (ids @ [n1, n2]) x e))
            else fail_with (Read_Fault e)))"

definition engage_device :: "'c appender \<Rightarrow> (string \<Rightarrow> string) \<Rightarrow> (json \<Rightarrow> string) \<Rightarrow> node_env \<Rightarrow> draws \<Rightarrow>
    files \<Rightarrow> envelope \<Rightarrow> string \<Rightarrow> ('c, node_response) node_eff" where
  \<comment> \<open>\<^verbatim>\<open>engage\<close> after the authentication\<close>
  "engage_device app H txt env dw fs e device =
     andthen (node_audit app ''request.authenticated'' (obj [(''request_id'', JStr (en_request e)), (''device_id'', JStr device)])) (\<lambda>n1.
     let intent = compile_intent txt (en_intent e) in
     andthen (node_audit app ''intent.compiled'' (obj [(''request_id'', JStr (en_request e)), (''intent'', intent)])) (\<lambda>_.
     andthen (evaluate_policy app txt env dw (en_request e) device intent) (\<lambda>d.
     andthen (node_audit app ''policy.decided'' (policy_payload (en_request e) d)) (\<lambda>n2.
     (case d of
        Require_Approval a \<Rightarrow> ret (Approval_Required [n1, n2] a)
      | Deny risk why \<Rightarrow> ret (Denied [n1, n2] risk why)
      | Quarantine \<Rightarrow> ret (Denied [n1, n2] ''L7'' Kill_Armed)
      | Allow_With_Limits g \<Rightarrow> execute_grant app H env dw fs [n1, n2] g)))))"

definition engage :: "'c appender \<Rightarrow> (string \<Rightarrow> string) \<Rightarrow> curve \<Rightarrow> (string \<Rightarrow> int option) \<Rightarrow> (json \<Rightarrow> string) \<Rightarrow> node_env \<Rightarrow> draws \<Rightarrow>
    files \<Rightarrow> envelope \<Rightarrow> ('c, node_response) node_eff" where
  "engage app H V fromiso txt env dw fs e =
     andthen (with_ids (verify_request V fromiso (ne_cfg env) (dw_clock dw) e)) (engage_device app H txt env dw fs e)"

definition node_enroll :: "'c appender \<Rightarrow> node_env \<Rightarrow> int \<Rightarrow> string \<Rightarrow> string \<Rightarrow> string \<Rightarrow> string \<Rightarrow> ('c, string \<times> string) node_eff" where
  "node_enroll app env now device key code hw =
     andthen (with_ids (enroll (ne_cfg env) now device key code hw)) (\<lambda>r.
     andthen (node_audit app ''device.enrolled'' (obj [(''device_id'', JStr device), (''hardware_assurance'', JStr hw)])) (\<lambda>_. ret r))"

definition node_challenge :: "node_env \<Rightarrow> (nat \<Rightarrow> int) \<Rightarrow> string \<Rightarrow> string \<Rightarrow> ('c, string \<times> string) node_eff" where
  "node_challenge env clk device token =
     andthen (with_ids (challenge (ne_cfg env) clk device token)) (\<lambda>v. ret (device, v))"

definition node_session :: "'c appender \<Rightarrow> curve \<Rightarrow> node_env \<Rightarrow> (nat \<Rightarrow> int) \<Rightarrow> string \<Rightarrow> string \<Rightarrow> string \<Rightarrow> string \<Rightarrow>
    ('c, string \<times> int) node_eff" where
  "node_session app V env clk sid device token sig =
     andthen (with_ids (open_session V (ne_cfg env) clk sid device token sig)) (\<lambda>r.
     andthen (node_audit app ''session.opened'' (obj [(''device_id'', JStr device), (''session_id'', JStr (fst r))])) (\<lambda>_. ret r))"

section \<open>Laws\<close>

interpretation node_approvals: keyed_table na_id "\<lambda>f. \<forall>a. na_id (f a) = na_id a" by unfold_locales simp

lemma node_audit_ids: "node_audit app ev p s = (r, s') \<Longrightarrow> nd_ids s' = nd_ids s"
  by (auto simp: node_audit_def split: prod.splits option.splits)

lemma node_audit_approvals: "node_audit app ev p s = (r, s') \<Longrightarrow> nd_approvals s' = nd_approvals s"
  by (auto simp: node_audit_def split: prod.splits option.splits)

definition same_ids :: "identity_db \<Rightarrow> 'c node_state \<Rightarrow> bool" where
  "same_ids d s \<longleftrightarrow> nd_ids s = d"

lemma keeps_node_audit [keeps_rules]: "keeps (same_ids d) (node_audit app ev p)"
  by (rule keepsI) (auto simp: same_ids_def node_audit_ids)

lemma keeps_insert_approval [keeps_rules]: "keeps (same_ids d) (insert_approval a)"
  by (rule keepsI) (auto simp: same_ids_def insert_approval_def split: option.splits)

lemma keeps_decision_case [keeps_rules]:
  assumes "\<And>a. keeps I (f a)" "\<And>r w. keeps I (g r w)" "keeps I h" "\<And>gr. keeps I (k gr)"
  shows "keeps I (case d of Quarantine \<Rightarrow> h | Deny r w \<Rightarrow> g r w | Require_Approval a \<Rightarrow> f a | Allow_With_Limits gr \<Rightarrow> k gr)"
  by (cases d) (simp_all add: assms)

lemma keeps_class_case [keeps_rules]:
  assumes "\<And>r w. keeps I (f r w)" "\<And>p. keeps I (g p)" "keeps I h"
  shows "keeps I (case c of Refused r w \<Rightarrow> f r w | Read_Of p \<Rightarrow> g p | Mutation \<Rightarrow> h)"
  by (cases c) (simp_all add: assms)

lemma keeps_evaluate [keeps_rules]: "keeps (same_ids d) (evaluate_policy app txt env dw request device intent)"
  unfolding evaluate_policy_def submit_approval_def by (intro keeps_rules)

lemma keeps_execute [keeps_rules]: "keeps (same_ids d) (execute_grant app H env dw fs ids g)"
  unfolding execute_grant_def Let_def by (intro keeps_rules)

lemma keeps_device: "keeps (same_ids d) (engage_device app H txt env dw fs e device)"
  unfolding engage_device_def Let_def by (intro keeps_rules)

lemma with_ids_Inr: "with_ids f s = (Inr x, s') \<longleftrightarrow> (\<exists>d. f (nd_ids s) = (Inr x, d) \<and> s' = s\<lparr>nd_ids := d\<rparr>)"
  by (auto simp: with_ids_def split: prod.splits sum.splits)

lemma with_ids_Inl: "with_ids f s = (Inl x, s') \<longleftrightarrow> (\<exists>e d. f (nd_ids s) = (Inl e, d) \<and> x = Auth e \<and> s' = s\<lparr>nd_ids := d\<rparr>)"
  by (auto simp: with_ids_def split: prod.splits sum.splits)

text \<open>A request that gets past authentication leaves the identities as the authentication left them.\<close>

lemma engage_authenticated:
  assumes "engage app H V fromiso txt env dw fs e s = (r, s')" "\<And>err. r \<noteq> Inl (Auth err)"
  obtains device where "verify_request V fromiso (ne_cfg env) (dw_clock dw) e (nd_ids s) = (Inr device, nd_ids s')"
proof -
  let ?v = "with_ids (verify_request V fromiso (ne_cfg env) (dw_clock dw) e)"
  let ?rest = "engage_device app H txt env dw fs e"
  have eng: "engage app H V fromiso txt env dw fs e = andthen ?v ?rest" by (simp add: engage_def)
  show thesis
  proof (cases "?v s")
    case (Pair v s1)
    show thesis
    proof (cases v)
      case (Inl err)
      then have "r = Inl err" using assms(1) Pair by (simp add: eng andthen_def)
      moreover from Pair Inl obtain x where "err = Auth x" by (auto simp: with_ids_Inl)
      ultimately show thesis using assms(2) by simp
    next
      case (Inr device)
      with Pair obtain d where d: "verify_request V fromiso (ne_cfg env) (dw_clock dw) e (nd_ids s) = (Inr device, d)" "s1 = s\<lparr>nd_ids := d\<rparr>"
        by (auto simp: with_ids_Inr)
      have "?rest device s1 = (r, s')" using assms(1) Pair Inr by (simp add: eng andthen_def)
      then have "same_ids d s'" by (rule keepsD [OF keeps_device, rotated]) (simp add: same_ids_def d)
      with d(1) show thesis using that by (simp add: same_ids_def)
    qed
  qed
qed

section \<open>Properties\<close>

definition demo_env :: node_env where
  "demo_env = \<lparr>ne_root = [''r''], ne_limit = 10, ne_ttl = 120, ne_cfg = demo_cfg\<rparr>"

definition demo_draws :: draws where
  "demo_draws = \<lparr>dw_clock = (\<lambda>n. 5), dw_armed = (\<lambda>n. False), dw_id = (\<lambda>n. ''x'')\<rparr>"

definition demo_files :: files where
  "demo_files p = (if p = [] \<or> p = [''r''] then Some Directory else if p = [''r'', ''f''] then Some (File ''hi'') else None)"

definition demo_read :: envelope where
  "demo_read = demo_envelope\<lparr>en_intent := obj [(''command'', JStr ''read f'')]\<rparr>"

definition demo_node :: "unit node_state" where
  "demo_node = \<lparr>nd_ids = demo_identity, nd_approvals = [], nd_chain = ()\<rparr>"

definition demo_engage :: "unit node_state \<Rightarrow> (node_fault, node_response) result \<times> unit node_state" where
  "demo_engage s = engage (\<lambda>c k e p. (Some 0, c)) (\<lambda>b. b) (\<lambda>k r s m. True) (\<lambda>t. Some 5) (\<lambda>v. []) demo_env demo_draws demo_files demo_read s"

definition demo_response :: node_response where
  "demo_response = Completed [0, 0, 0, 0] ''x'' \<lparr>rd_path = [''f''], rd_size = 2, rd_sha = ''hi'', rd_content = Utf8_Text ''hi''\<rparr>"

lemma demo_engage_ok: "fst (demo_engage demo_node) = Inr demo_response"
  by code_simp

lemma demo_engage_eq:
  "engage (\<lambda>c k e p. (Some 0, c)) (\<lambda>b. b) (\<lambda>k r s m. True) (\<lambda>t. Some 5) (\<lambda>v. []) demo_env demo_draws demo_files demo_read demo_node
     = (Inr demo_response, snd (demo_engage demo_node))"
  using demo_engage_ok by (simp add: demo_engage_def prod_eq_iff)

text \<open>C11: A request is executed at most once: when it got past authentication, whatever became of it afterwards, the same
  envelope is refused from then on, and the refusal changes neither the approvals nor the audit chain.\<close>

theorem requests_execute_once:
  assumes "engage app H V fromiso txt env dw fs e s = (r, s')" "\<And>err. r \<noteq> Inl (Auth err)" "wf_sessions (nd_ids s)"
    and "\<And>x. x \<in> set ops \<Longrightarrow> opens x \<noteq> Some (en_session e)"
    and "t = s'\<lparr>nd_ids := id_run V fromiso (ne_cfg env) ops (nd_ids s')\<rparr>"
  shows "\<exists>err t'. engage app H V fromiso txt env dw' fs' e t = (Inl (Auth err), t') \<and>
    nd_approvals t' = nd_approvals t \<and> nd_chain t' = nd_chain t"
proof (rule engage_authenticated [OF assms(1,2)])
  fix device assume v: "verify_request V fromiso (ne_cfg env) (dw_clock dw) e (nd_ids s) = (Inr device, nd_ids s')"
  have "\<exists>err. fst (verify_request V fromiso (ne_cfg env) (dw_clock dw') e (nd_ids t)) = Inl err"
    using requests_are_accepted_once [OF v assms(3,4)] assms(5) by simp
  then obtain err d where "verify_request V fromiso (ne_cfg env) (dw_clock dw') e (nd_ids t) = (Inl err, d)"
    by (metis prod.collapse)
  then have "engage app H V fromiso txt env dw' fs' e t = (Inl (Auth err), t\<lparr>nd_ids := d\<rparr>)"
    by (simp add: engage_def andthen_def with_ids_def)
  then show ?thesis by simp
qed

theorem requests_execute_once_witness:
  "\<exists>err t'. demo_engage (snd (demo_engage demo_node)) = (Inl (Auth err), t')"
proof -
  have "wf_sessions (nd_ids demo_node)" by (simp add: wf_sessions_def demo_identity_def demo_node_def)
  moreover have "snd (demo_engage demo_node) = (snd (demo_engage demo_node))\<lparr>nd_ids := id_run (\<lambda>k r s m. True) (\<lambda>t. Some 5) (ne_cfg demo_env) []
      (nd_ids (snd (demo_engage demo_node)))\<rparr>"
    by (simp add: id_run_def)
  ultimately show ?thesis
    using requests_execute_once [OF demo_engage_eq, of "[]" "snd (demo_engage demo_node)" demo_draws demo_files]
    by (auto simp: demo_engage_def)
qed

lemma scoped_read_Inr: "scoped_read H env fs g = Inr r \<Longrightarrow> read_scoped H (ne_limit env) (ne_root env) fs (gr_path g) = Inr r"
  by (auto simp: scoped_read_def result_simps split: if_splits)

lemma execute_completed:
  assumes "execute_grant app H env dw fs ids g s = (Inr (Completed ids' x r), s')"
  shows "\<not> dw_armed dw 1 \<and> read_scoped H (ne_limit env) (ne_root env) fs (gr_path g) = Inr r"
proof (cases "scoped_read H env fs g")
  case (Inl e)
  with assms show ?thesis by (auto simp: execute_grant_def Let_def andthen_Inr split: if_splits)
next
  case (Inr q)
  with assms have "\<not> dw_armed dw 1 \<and> q = r" by (auto simp: execute_grant_def Let_def andthen_Inr split: if_splits)
  with scoped_read_Inr [OF Inr] show ?thesis by simp
qed

lemma evaluate_allows:
  assumes "evaluate_policy app txt env dw request device intent s = (Inr (Allow_With_Limits g), s')"
  shows "\<not> dw_armed dw 0 \<and> (\<exists>p. classify_intent txt intent = Read_Of p \<and> g = grant_for env dw request device p)"
  using assms
  by (auto simp: evaluate_policy_def andthen_Inr split: if_splits intent_class.splits)

text \<open>C22: What a completed request may have done: its envelope was accepted, the kill switch was off when the policy was
  evaluated and again before execution, and the result is a file below the sandbox root, within the size limit, with
  the digest of its bytes.\<close>

theorem completed_reads_are_governed:
  assumes "engage app H V fromiso txt env dw fs e s = (Inr (Completed ids x r), s')"
  shows "(\<exists>device. fst (verify_request V fromiso (ne_cfg env) (dw_clock dw) e (nd_ids s)) = Inr device) \<and>
    \<not> dw_armed dw 0 \<and> \<not> dw_armed dw 1 \<and>
    (\<exists>b. fs (ne_root env @ rd_path r) = Some (File b) \<and> rd_sha r = H b \<and> length b \<le> ne_limit env)"
proof -
  from assms obtain device s1 where v: "with_ids (verify_request V fromiso (ne_cfg env) (dw_clock dw) e) s = (Inr device, s1)"
    and rest: "engage_device app H txt env dw fs e device s1 = (Inr (Completed ids x r), s')"
    by (auto simp: engage_def andthen_Inr)
  from rest obtain s2 s3 d s4 n1 n2 where
    p: "evaluate_policy app txt env dw (en_request e) device (compile_intent txt (en_intent e)) s2 = (Inr d, s3)"
    and c: "(case d of Require_Approval a \<Rightarrow> ret (Approval_Required [n1, n2] a) | Deny risk why \<Rightarrow> ret (Denied [n1, n2] risk why)
      | Quarantine \<Rightarrow> ret (Denied [n1, n2] ''L7'' Kill_Armed) | Allow_With_Limits g \<Rightarrow> execute_grant app H env dw fs [n1, n2] g) s4
      = (Inr (Completed ids x r), s')"
    unfolding engage_device_def Let_def andthen_Inr by blast
  obtain g where g: "d = Allow_With_Limits g" using c by (cases d) simp_all
  with c have x: "execute_grant app H env dw fs [n1, n2] g s4 = (Inr (Completed ids x r), s')" by simp
  from v have "\<exists>device. fst (verify_request V fromiso (ne_cfg env) (dw_clock dw) e (nd_ids s)) = Inr device"
    by (auto simp: with_ids_Inr)
  moreover from evaluate_allows [OF p [unfolded g]] have "\<not> dw_armed dw 0" by blast
  moreover from execute_completed [OF x] have "\<not> dw_armed dw 1" "read_scoped H (ne_limit env) (ne_root env) fs (gr_path g) = Inr r"
    by blast+
  moreover from reads_stay_inside [OF calculation(4)]
  have "\<exists>b. fs (ne_root env @ rd_path r) = Some (File b) \<and> rd_sha r = H b \<and> length b \<le> ne_limit env" by blast
  ultimately show ?thesis by blast
qed

theorem completed_reads_are_governed_witness:
  "\<exists>b. demo_files [''r'', ''f''] = Some (File b) \<and> length b \<le> 10"
  using completed_reads_are_governed [OF demo_engage_eq [unfolded demo_response_def]]
  by (simp add: demo_env_def)

text \<open>The decision on a mutation is final: a decided approval takes no other decision.\<close>

theorem node_decisions_are_final:
  assumes "decide_approval app now aid status operator reason s = (r, s')"
    and "row_of na_id i (nd_approvals s) = Some a" "na_status a \<noteq> ''PENDING''"
  shows "row_of na_id i (nd_approvals s') = Some a"
proof -
  let ?I = "\<lambda>s. row_of na_id i (nd_approvals s) = Some a"
  have row: "keeps ?I (decide_row aid (\<lambda>a. a\<lparr>na_status := status, na_decided := Some (now, operator, reason)\<rparr>))"
  proof (rule keepsI)
    fix s r s'
    assume s: "?I s" and d: "decide_row aid (\<lambda>a. a\<lparr>na_status := status, na_decided := Some (now, operator, reason)\<rparr>) s = (r, s')"
    show "?I s'"
    proof (cases "aid = i")
      case True
      with s d assms(3) show ?thesis by (simp add: decide_row_def split: if_splits)
    next
      case False
      have "row_of na_id i (row_update na_id aid f (nd_approvals s)) = Some a" if "\<forall>a. na_id (f a) = na_id a" for f
        using False s that by (simp add: node_approvals.row_of_update)
      with s d show ?thesis by (auto simp: decide_row_def split: option.splits if_splits)
    qed
  qed
  have audit: "keeps ?I (node_audit app ev p)" for ev p
    by (rule keepsI) (simp add: node_audit_approvals)
  have "keeps ?I (decide_approval app now aid status operator reason)"
    unfolding decide_approval_def by (intro keeps_rules row audit)
  from keepsD [OF this assms(2,1)] show ?thesis .
qed

end
