(* ===== verification/Vesta_Tasks.thy ===== *)
theory Vesta_Tasks
  imports Effects Pytext
begin

text \<open>
  The tasks of the Vesta perimeter (\<^verbatim>\<open>msb_v3/vesta/runtime.py\<close>), the immutable authorisation context and the
  deterministic policy (\<^verbatim>\<open>models.py\<close>, \<^verbatim>\<open>policy.py\<close>): a task table, the history of its transitions, and the
  quarantine of work in flight after a restart. Ids and clock readings are arguments, times are microseconds. Metadata
  is kept as the dictionary it decodes to.
\<close>

section \<open>The authorisation context\<close>

record abind =
  ab_bind :: string
  ab_task :: string
  ab_session :: string
  ab_actor :: string
  ab_capabilities :: "string list"
  ab_deadline :: int
  ab_policy :: string

definition make_bind :: "string \<Rightarrow> string \<Rightarrow> string \<Rightarrow> string list \<Rightarrow> string \<Rightarrow> int \<Rightarrow> int \<Rightarrow> string \<Rightarrow> abind" where
  \<comment> \<open>the two ids drawn come first; the risk class is always normal, evidence never required, there is no parent\<close>
  "make_bind b t session capabilities actor ttl now version =
     \<lparr>ab_bind = b, ab_task = t, ab_session = session, ab_actor = actor, ab_capabilities = sort (remdups capabilities),
      ab_deadline = now + ttl * 1000000, ab_policy = version\<rparr>"

definition bind_expired :: "int \<Rightarrow> abind \<Rightarrow> bool" where
  "bind_expired now b \<longleftrightarrow> ab_deadline b \<le> now"

section \<open>Policy\<close>

definition CHAT_CAPABILITIES :: "string list" where
  "CHAT_CAPABILITIES = [''model.inference'', ''memory.read'']"

definition KNOWN_CAPABILITIES :: "string list" where
  "KNOWN_CAPABILITIES = [''model.inference'', ''memory.read'', ''memory.write'', ''sensor.read'', ''evidence.create'', ''ledger.append'',
     ''filesystem.read'', ''filesystem.write'', ''shell.exec'', ''network.none'', ''network.allowlist'', ''mcp.invoke'',
     ''human.request_ack'', ''external.message'', ''external.call'']"

datatype verdict = ALLOW | DENY | REQUIRE_APPROVAL

fun verdict_name :: "verdict \<Rightarrow> string" where
  "verdict_name ALLOW = ''ALLOW''"
| "verdict_name DENY = ''DENY''"
| "verdict_name REQUIRE_APPROVAL = ''REQUIRE_APPROVAL''"

record policy_decision =
  pd_verdict :: verdict
  pd_risk :: string
  pd_capabilities :: "string list"
  pd_reasons :: "string list"
  pd_version :: string

definition decide_with :: "abind \<Rightarrow> verdict \<Rightarrow> string \<Rightarrow> string \<Rightarrow> policy_decision" where
  "decide_with b v risk why = \<lparr>pd_verdict = v, pd_risk = risk, pd_capabilities = ab_capabilities b, pd_reasons = [why], pd_version = ab_policy b\<rparr>"

definition decision_json :: "policy_decision \<Rightarrow> json" where
  "decision_json d = obj [(''decision'', JStr (verdict_name (pd_verdict d))), (''risk_class'', JStr (pd_risk d)),
     (''capabilities'', JList (map JStr (pd_capabilities d))), (''reasons'', JList (map JStr (pd_reasons d))),
     (''policy_version'', JStr (pd_version d))]"

definition outside :: "string list \<Rightarrow> string list \<Rightarrow> string list" where
  \<comment> \<open>\<^verbatim>\<open>sorted(set(xs) - ys)\<close>\<close>
  "outside xs ys = sort (remdups (filter (\<lambda>x. x \<notin> set ys) xs))"

definition authorize_chat :: "int \<Rightarrow> abind \<Rightarrow> policy_decision" where
  "authorize_chat now b =
     (let unknown = outside (ab_capabilities b) KNOWN_CAPABILITIES; blocked = outside (ab_capabilities b) CHAT_CAPABILITIES in
      if unknown \<noteq> [] then decide_with b DENY ''critical'' (''unknown capabilities: '' @ join_with '', '' unknown)
      else if blocked \<noteq> [] then decide_with b DENY ''high'' (''capabilities not enabled in Phase 0-2: '' @ join_with '', '' blocked)
      else if bind_expired now b then decide_with b DENY ''high'' ''A-BIND deadline has expired''
      else decide_with b ALLOW ''normal'' ''chat capabilities are within the Phase 0-2 policy'')"

definition authorize_file_read :: "int \<Rightarrow> abind \<Rightarrow> policy_decision" where
  "authorize_file_read now b =
     (let unknown = outside (ab_capabilities b) KNOWN_CAPABILITIES; blocked = outside (ab_capabilities b) [''filesystem.read''] in
      if unknown \<noteq> [] then decide_with b DENY ''critical'' (''unknown capabilities: '' @ join_with '', '' unknown)
      else if blocked \<noteq> [] then decide_with b DENY ''high'' (''capabilities not enabled for FILE_READ: '' @ join_with '', '' blocked)
      else if bind_expired now b then decide_with b DENY ''high'' ''A-BIND deadline has expired''
      else decide_with b ALLOW ''low'' ''scoped read-only filesystem access is enabled'')"

definition authorize_shell :: "int \<Rightarrow> string \<Rightarrow> string list \<Rightarrow> string option \<Rightarrow> abind \<Rightarrow> policy_decision" where
  \<comment> \<open>the guard against NUL looks for a backslash followed by x00\<close>
  "authorize_shell now executable args expected b =
     (if set (ab_capabilities b) \<noteq> {''shell.exec''} then decide_with b DENY ''critical'' ''SHELL_EXEC requires the exact shell.exec capability''
      else if executable \<notin> {''echo'', ''pwd''} then decide_with b DENY ''critical'' (''executable is not allowlisted: '' @ executable)
      else if list_ex (\<lambda>a. contains (CHR 0x5C # ''x00'') a \<or> 1024 < int (length a)) args \<or> 8192 < int (sum_list (map length args))
      then decide_with b DENY ''high'' ''shell arguments exceed the bounded contract''
      else if 32 < length args then decide_with b DENY ''high'' ''too many shell arguments''
      else if executable = ''pwd'' \<and> args \<noteq> [] then decide_with b DENY ''high'' ''pwd accepts no arguments''
      else if executable = ''echo'' \<and> list_ex (starts_with ''-'') args then decide_with b DENY ''high'' ''echo flags are not permitted''
      else if (case expected of None \<Rightarrow> False | Some t \<Rightarrow> 65536 < int (length t))
      then decide_with b DENY ''high'' ''expected output exceeds the bounded contract''
      else if bind_expired now b then decide_with b DENY ''high'' ''A-BIND deadline has expired''
      else decide_with b REQUIRE_APPROVAL ''high'' ''shell execution requires exact owner approval'')"

definition capability_catalog :: "(string \<times> bool \<times> string) list" where
  \<comment> \<open>name, enabled, phase\<close>
  "capability_catalog = map (\<lambda>n. (n, n \<in> set (CHAT_CAPABILITIES @ [''filesystem.read'']),
     if n \<in> set CHAT_CAPABILITIES then ''0-2'' else if n = ''filesystem.read'' then ''G'' else ''deferred'')) (sort KNOWN_CAPABILITIES)"

section \<open>Task states\<close>

definition TASK_STATES :: "string list" where
  "TASK_STATES = [''RECEIVED'', ''AUTHENTICATED'', ''PLANNED'', ''AUTHORIZED'', ''WAITING_APPROVAL'', ''APPROVED'', ''EXECUTING'',
     ''VERIFYING'', ''RECOVERING'', ''COMPLETED'', ''DENIED'', ''QUARANTINED'']"

definition TRANSITIONS :: "(string \<times> string list) list" where
  "TRANSITIONS =
     [(''RECEIVED'', [''AUTHENTICATED'', ''DENIED'', ''QUARANTINED'']),
      (''AUTHENTICATED'', [''PLANNED'', ''DENIED'', ''QUARANTINED'']),
      (''PLANNED'', [''AUTHORIZED'', ''WAITING_APPROVAL'', ''DENIED'', ''QUARANTINED'']),
      (''AUTHORIZED'', [''APPROVED'', ''EXECUTING'', ''DENIED'', ''QUARANTINED'']),
      (''WAITING_APPROVAL'', [''APPROVED'', ''DENIED'', ''QUARANTINED'']),
      (''APPROVED'', [''EXECUTING'', ''DENIED'', ''QUARANTINED'']),
      (''EXECUTING'', [''VERIFYING'', ''RECOVERING'', ''QUARANTINED'']),
      (''VERIFYING'', [''COMPLETED'', ''RECOVERING'', ''QUARANTINED'']),
      (''RECOVERING'', [''COMPLETED'', ''QUARANTINED'']),
      (''COMPLETED'', []), (''DENIED'', []), (''QUARANTINED'', [])]"

definition IN_FLIGHT :: "string list" where
  "IN_FLIGHT = [''EXECUTING'', ''VERIFYING'', ''RECOVERING'']"

definition next_states :: "string \<Rightarrow> string list" where
  "next_states s = (case map_of TRANSITIONS s of None \<Rightarrow> [] | Some ts \<Rightarrow> ts)"

section \<open>The store\<close>

record task_row =
  vt_id :: string
  vt_bind :: string
  vt_session :: string
  vt_actor :: string
  vt_capabilities :: "string list"
  vt_policy :: string
  vt_deadline :: int
  vt_state :: string
  vt_created :: int
  vt_updated :: int
  vt_error :: "string option"
  vt_meta :: "(string \<times> json) list"

record transition_row =
  tr_task :: string
  tr_from :: "string option"
  tr_to :: string
  tr_reason :: string
  tr_meta :: json
  tr_created :: int

record task_db =
  td_tasks :: "task_row list"
  td_history :: "transition_row list"      \<comment> \<open>in the order of the autoincrement ids\<close>

datatype task_fault = Task_Exists | Unknown_Task | Unknown_State string | Invalid_Transition string string
  | Bad_State string                        \<comment> \<open>a KeyError on a stored state\<close>

type_synonym 'a task_op = "task_db \<Rightarrow> (task_fault, 'a) result \<times> task_db"

definition get_task :: "string \<Rightarrow> task_db \<Rightarrow> (task_fault, task_row) result" where
  "get_task i d = (case row_of vt_id i (td_tasks d) of None \<Rightarrow> Inl Unknown_Task | Some t \<Rightarrow> Inr t)"

definition history_of :: "string \<Rightarrow> task_db \<Rightarrow> transition_row list" where
  \<comment> \<open>the \<^verbatim>\<open>transitions\<close> of \<^verbatim>\<open>get\<close>\<close>
  "history_of i d = filter (\<lambda>h. tr_task h = i) (td_history d)"

definition create_vtask :: "abind \<Rightarrow> (string \<times> json) list \<Rightarrow> int \<Rightarrow> task_row task_op" where
  "create_vtask b meta now d =
     (let t = \<lparr>vt_id = ab_task b, vt_bind = ab_bind b, vt_session = ab_session b, vt_actor = ab_actor b,
               vt_capabilities = ab_capabilities b, vt_policy = ab_policy b, vt_deadline = ab_deadline b, vt_state = ''RECEIVED'',
               vt_created = now, vt_updated = now, vt_error = None, vt_meta = meta\<rparr>
      in if ab_task b \<in> vt_id ` set (td_tasks d) \<or> ab_bind b \<in> vt_bind ` set (td_tasks d) then (Inl Task_Exists, d)
         else (Inr t, d\<lparr>td_tasks := td_tasks d @ [t],
           td_history := td_history d @ [\<lparr>tr_task = ab_task b, tr_from = None, tr_to = ''RECEIVED'', tr_reason = ''task created'',
             tr_meta = JObj [], tr_created = now\<rparr>]\<rparr>))"

definition move_task :: "string \<Rightarrow> string \<Rightarrow> string \<Rightarrow> json \<Rightarrow> int \<Rightarrow> task_row task_op" where
  \<comment> \<open>\<^verbatim>\<open>transition\<close>\<close>
  "move_task i to_state why meta now d =
     (if to_state \<notin> set TASK_STATES then (Inl (Unknown_State to_state), d)
      else (case row_of vt_id i (td_tasks d) of
        None \<Rightarrow> (Inl Unknown_Task, d)
      | Some t \<Rightarrow>
          (case map_of TRANSITIONS (vt_state t) of
             None \<Rightarrow> (Inl (Bad_State (vt_state t)), d)
           | Some ts \<Rightarrow>
               if to_state \<notin> set ts then (Inl (Invalid_Transition (vt_state t) to_state), d)
               else (let f = (\<lambda>t. t\<lparr>vt_state := to_state, vt_updated := now,
                                  vt_error := (if to_state \<in> {''RECOVERING'', ''QUARANTINED''} then Some why else None)\<rparr>)
                     in (Inr (f t), d\<lparr>td_tasks := row_update vt_id i f (td_tasks d),
                          td_history := td_history d @ [\<lparr>tr_task = i, tr_from = Some (vt_state t), tr_to = to_state, tr_reason = why,
                            tr_meta = meta, tr_created = now\<rparr>]\<rparr>)))))"

fun put_meta :: "string \<times> json \<Rightarrow> (string \<times> json) list \<Rightarrow> (string \<times> json) list" where
  "put_meta (k, v) [] = [(k, v)]"
| "put_meta (k, v) ((j, w) # r) = (if j = k then (k, v) # r else (j, w) # put_meta (k, v) r)"

definition update_metadata :: "string \<Rightarrow> (string \<times> json) list \<Rightarrow> int \<Rightarrow> task_row task_op" where
  "update_metadata i patch now d = (case row_of vt_id i (td_tasks d) of
     None \<Rightarrow> (Inl Unknown_Task, d)
   | Some t \<Rightarrow>
       (let f = (\<lambda>t. t\<lparr>vt_meta := fold put_meta patch (vt_meta t), vt_updated := now\<rparr>)
        in (Inr (f t), d\<lparr>td_tasks := row_update vt_id i f (td_tasks d)\<rparr>)))"

fun quarantine_all :: "string list \<Rightarrow> (string \<Rightarrow> int) \<Rightarrow> task_row list task_op" where
  "quarantine_all [] clk d = (Inr [], d)"
| "quarantine_all (i # ids) clk d =
     (case move_task i ''QUARANTINED'' ''in-flight task requires operator recovery after restart'' (JObj []) (clk i) d of
        (Inl e, d') \<Rightarrow> (Inl e, d')
      | (Inr t, d') \<Rightarrow>
          (case quarantine_all ids clk d' of
             (Inl e, d'') \<Rightarrow> (Inl e, d'')
           | (Inr ts, d'') \<Rightarrow> (Inr (t # ts), d'')))"

definition recover_incomplete :: "(string \<Rightarrow> int) \<Rightarrow> task_row list task_op" where
  "recover_incomplete clk d =
     quarantine_all (map vt_id (filter (\<lambda>t. vt_state t \<in> set IN_FLIGHT) (td_tasks d))) clk d"

section \<open>The state machine\<close>

definition task_step :: "string \<Rightarrow> string \<Rightarrow> bool" where
  "task_step s t \<longleftrightarrow> t \<in> set (next_states s)"

definition final_task_state :: "string \<Rightarrow> bool" where
  "final_task_state s \<longleftrightarrow> s \<in> {''COMPLETED'', ''DENIED'', ''QUARANTINED''}"

interpretation vesta_life: lifecycle task_step final_task_state
  by unfold_locales (auto simp: task_step_def final_task_state_def next_states_def TRANSITIONS_def)

interpretation vesta_tasks: keyed_table vt_id "\<lambda>f. \<forall>t. vt_id (f t) = vt_id t" by unfold_locales simp

lemma in_flight_quarantines: "s \<in> set IN_FLIGHT \<Longrightarrow> task_step s ''QUARANTINED''"
  by (auto simp: IN_FLIGHT_def task_step_def next_states_def TRANSITIONS_def)

lemma move_task_Inr:
  assumes "move_task i st why meta now d = (Inr t, d')"
  obtains t0 f where "row_of vt_id i (td_tasks d) = Some t0" "task_step (vt_state t0) st" "t = f t0"
    "f = (\<lambda>t. t\<lparr>vt_state := st, vt_updated := now, vt_error := (if st \<in> {''RECOVERING'', ''QUARANTINED''} then Some why else None)\<rparr>)"
    "d' = d\<lparr>td_tasks := row_update vt_id i f (td_tasks d), td_history := td_history d @ [\<lparr>tr_task = i, tr_from = Some (vt_state t0),
       tr_to = st, tr_reason = why, tr_meta = meta, tr_created = now\<rparr>]\<rparr>"
  using assms that
  by (auto simp: move_task_def Let_def task_step_def next_states_def split: if_splits option.splits)

lemma move_task_Inl: "move_task i st why meta now d = (Inl e, d') \<Longrightarrow> d' = d"
  by (auto simp: move_task_def Let_def split: if_splits option.splits)

text \<open>The history of a task tells its state: it starts with its receipt, every step of it is legal and the last one
  is the state in the table.\<close>

definition told_by :: "task_row \<Rightarrow> transition_row list \<Rightarrow> bool" where
  "told_by t hs \<longleftrightarrow> (\<exists>ss. map tr_to hs = ''RECEIVED'' # ss \<and> vesta_life.legal_run ''RECEIVED'' ss \<and> vt_state t = last (''RECEIVED'' # ss))"

definition wf_tasks :: "task_db \<Rightarrow> bool" where
  "wf_tasks d \<longleftrightarrow> distinct (map vt_id (td_tasks d)) \<and> (\<forall>t \<in> set (td_tasks d). told_by t (history_of (vt_id t) d)) \<and>
     (\<forall>h \<in> set (td_history d). tr_task h \<in> vt_id ` set (td_tasks d))"

definition empty_tasks :: task_db where
  "empty_tasks = \<lparr>td_tasks = [], td_history = []\<rparr>"

lemma wf_empty_tasks: "wf_tasks empty_tasks"
  by (simp add: wf_tasks_def empty_tasks_def)

lemma wf_create:
  assumes "wf_tasks d"
  shows "wf_tasks (snd (create_vtask b meta now d))"
proof (cases "ab_task b \<in> vt_id ` set (td_tasks d) \<or> ab_bind b \<in> vt_bind ` set (td_tasks d)")
  case True
  with assms show ?thesis by (auto simp: create_vtask_def Let_def)
next
  case False
  then have new: "ab_task b \<notin> vt_id ` set (td_tasks d)" by blast
  have "tr_task h \<noteq> ab_task b" if "h \<in> set (td_history d)" for h
  proof -
    have "tr_task h \<in> vt_id ` set (td_tasks d)" using assms that by (simp add: wf_tasks_def)
    with new show ?thesis by metis
  qed
  then have "filter (\<lambda>h. tr_task h = ab_task b) (td_history d) = []" by (simp add: filter_empty_conv)
  with assms False new show ?thesis
    by (auto simp: create_vtask_def Let_def wf_tasks_def told_by_def history_of_def)
qed

lemma wf_move:
  assumes "wf_tasks d" "move_task i st why meta now d = (Inr t, d')"
  shows "wf_tasks d'"
proof (rule move_task_Inr [OF assms(2)])
  fix t0 f
  assume t0: "row_of vt_id i (td_tasks d) = Some t0" "task_step (vt_state t0) st"
    and f: "f = (\<lambda>t. t\<lparr>vt_state := st, vt_updated := now, vt_error := (if st \<in> {''RECOVERING'', ''QUARANTINED''} then Some why else None)\<rparr>)"
    and d': "d' = d\<lparr>td_tasks := row_update vt_id i f (td_tasks d), td_history := td_history d @ [\<lparr>tr_task = i, tr_from = Some (vt_state t0),
       tr_to = st, tr_reason = why, tr_meta = meta, tr_created = now\<rparr>]\<rparr>"
  have key: "vt_id (f t) = vt_id t" for t by (simp add: f)
  have ids: "map vt_id (row_update vt_id i f (td_tasks d)) = map vt_id (td_tasks d)"
    by (rule vesta_tasks.map_key_update) (simp add: key)
  have t0in: "t0 \<in> set (td_tasks d)" "vt_id t0 = i" using vesta_tasks.row_of_key [OF t0(1)] by auto
  have hist: "history_of k d' = history_of k d @ (if k = i then [\<lparr>tr_task = i, tr_from = Some (vt_state t0),
       tr_to = st, tr_reason = why, tr_meta = meta, tr_created = now\<rparr>] else [])" for k
    by (simp add: d' history_of_def)
  have "told_by u (history_of (vt_id u) d')" if u: "u \<in> set (td_tasks d')" for u
  proof -
    from u obtain v where v: "v \<in> set (td_tasks d)" "u = (if vt_id v = i then f v else v)"
      by (auto simp: d' row_update_def)
    have tv: "told_by v (history_of (vt_id v) d)" using assms(1) v(1) by (simp add: wf_tasks_def)
    show ?thesis
    proof (cases "vt_id v = i")
      case True
      have "v = t0" using True t0in v(1) assms(1) by (auto simp: wf_tasks_def distinct_map dest: inj_onD)
      with tv t0in(2) obtain ss where ss: "map tr_to (history_of i d) = ''RECEIVED'' # ss" "vesta_life.legal_run ''RECEIVED'' ss"
        "vt_state t0 = last (''RECEIVED'' # ss)" by (auto simp: told_by_def)
      have "map tr_to (history_of i d') = ''RECEIVED'' # (ss @ [st])" by (simp add: hist ss(1))
      moreover have "vesta_life.legal_run ''RECEIVED'' (ss @ [st])"
        using ss(2) t0(2) unfolding ss(3) vesta_life.legal_run_snoc by blast
      moreover have "vt_state u = last (''RECEIVED'' # (ss @ [st]))" using v(2) True by (simp add: f)
      moreover have ui: "vt_id u = i" using v(2) True by (simp add: f)
      ultimately show ?thesis unfolding told_by_def ui by (intro exI [of _ "ss @ [st]"] conjI)
    next
      case False
      with tv v(2) show ?thesis by (auto simp: hist)
    qed
  qed
  moreover have "vt_id ` set (td_tasks d') = vt_id ` set (td_tasks d)"
    using arg_cong [OF ids, of set] by (simp add: d')
  moreover have "distinct (map vt_id (td_tasks d'))" using ids assms(1) by (simp add: d' wf_tasks_def)
  moreover have "i \<in> vt_id ` set (td_tasks d)" using t0in by force
  ultimately show ?thesis using assms(1) by (auto simp: wf_tasks_def d')
qed

lemma wf_move_any: "wf_tasks d \<Longrightarrow> wf_tasks (snd (move_task i st why meta now d))"
  by (cases "move_task i st why meta now d"; cases "fst (move_task i st why meta now d)")
    (auto dest: wf_move move_task_Inl)

lemma wf_metadata:
  assumes "wf_tasks d"
  shows "wf_tasks (snd (update_metadata i patch now d))"
proof (cases "row_of vt_id i (td_tasks d)")
  case (Some t)
  let ?f = "\<lambda>t. t\<lparr>vt_meta := fold put_meta patch (vt_meta t), vt_updated := now\<rparr>"
  have ids: "map vt_id (row_update vt_id i ?f (td_tasks d)) = map vt_id (td_tasks d)"
    by (rule vesta_tasks.map_key_update) simp
  let ?d = "d\<lparr>td_tasks := row_update vt_id i ?f (td_tasks d)\<rparr>"
  have set_ids: "vt_id ` set (td_tasks ?d) = vt_id ` set (td_tasks d)" using arg_cong [OF ids, of set] by simp
  have told: "told_by u (history_of (vt_id u) ?d)" if "u \<in> set (td_tasks ?d)" for u
  proof -
    from that obtain v where v: "v \<in> set (td_tasks d)" "u = (if vt_id v = i then ?f v else v)"
      by (auto simp: row_update_def)
    have "vt_id u = vt_id v" "vt_state u = vt_state v" using v(2) by simp_all
    moreover have "told_by v (history_of (vt_id v) d)" using assms v(1) by (simp add: wf_tasks_def)
    ultimately show ?thesis by (simp add: told_by_def history_of_def)
  qed
  have "wf_tasks ?d" using assms ids set_ids told by (simp add: wf_tasks_def)
  with Some show ?thesis by (simp add: update_metadata_def Let_def)
qed (use assms in \<open>simp add: update_metadata_def\<close>)

section \<open>Properties\<close>

datatype task_call =
    Create_Call abind "(string \<times> json) list" int
  | Move_Call string string string json int
  | Meta_Call string "(string \<times> json) list" int
  | Recover_Call "string \<Rightarrow> int"

fun task_run :: "task_call \<Rightarrow> task_db \<Rightarrow> task_db" where
  "task_run (Create_Call b m n) d = snd (create_vtask b m n d)"
| "task_run (Move_Call i st w m n) d = snd (move_task i st w m n d)"
| "task_run (Meta_Call i p n) d = snd (update_metadata i p n d)"
| "task_run (Recover_Call clk) d = snd (recover_incomplete clk d)"

lemma wf_quarantine_all: "wf_tasks d \<Longrightarrow> wf_tasks (snd (quarantine_all ids clk d))"
proof (induction ids arbitrary: d)
  case (Cons i ids)
  obtain r d1 where m: "move_task i ''QUARANTINED'' ''in-flight task requires operator recovery after restart'' (JObj []) (clk i) d = (r, d1)"
    by (cases "move_task i ''QUARANTINED'' ''in-flight task requires operator recovery after restart'' (JObj []) (clk i) d")
  have "wf_tasks d1" using wf_move_any [OF Cons.prems, of i "''QUARANTINED''"] m by (metis snd_conv)
  then show ?case using Cons.IH [of d1] by (cases r) (auto simp: m split: prod.splits sum.splits)
qed simp

lemma wf_task_run: "wf_tasks d \<Longrightarrow> wf_tasks (task_run x d)"
  by (cases x) (simp_all add: wf_create wf_move_any wf_metadata recover_incomplete_def wf_quarantine_all)

text \<open>C24: The history of a task tells its state: after any sequence of operations, refused or not, the recorded transitions
  of every task start with its receipt, are all legal, and end in the state the table shows.\<close>

theorem histories_tell_states:
  "\<forall>t \<in> set (td_tasks (fold task_run xs empty_tasks)). told_by t (history_of (vt_id t) (fold task_run xs empty_tasks))"
proof -
  have "wf_tasks d \<Longrightarrow> wf_tasks (fold task_run xs d)" for d by (induction xs arbitrary: d) (auto simp: wf_task_run)
  from this [OF wf_empty_tasks] show ?thesis by (simp add: wf_tasks_def)
qed

theorem histories_tell_states_witness:
  "told_by (hd (td_tasks (fold task_run [Create_Call (make_bind ''b'' ''t'' ''s'' [] ''o'' 1 0 ''v'') [] 0] empty_tasks)))
     (td_history (fold task_run [Create_Call (make_bind ''b'' ''t'' ''s'' [] ''o'' 1 0 ''v'') [] 0] empty_tasks))"
  using histories_tell_states [of "[Create_Call (make_bind ''b'' ''t'' ''s'' [] ''o'' 1 0 ''v'') [] 0]"]
  by (simp add: create_vtask_def empty_tasks_def make_bind_def Let_def history_of_def)

text \<open>Recovery leaves nothing in flight: on a store whose histories tell its states it never fails, quarantines exactly
  the tasks that were executing, verifying or recovering, and leaves every other task as it was.\<close>

lemma move_quarantine:
  assumes "wf_tasks d" "row_of vt_id i (td_tasks d) = Some t" "vt_state t \<in> set IN_FLIGHT"
  shows "\<exists>t' d'. move_task i ''QUARANTINED'' why meta now d = (Inr t', d') \<and>
    (\<forall>j. row_of vt_id j (td_tasks d') = (if j = i then Some (t\<lparr>vt_state := ''QUARANTINED'', vt_updated := now, vt_error := Some why\<rparr>)
       else row_of vt_id j (td_tasks d)))"
  using assms(2,3)
  by (auto simp: move_task_def Let_def IN_FLIGHT_def TRANSITIONS_def TASK_STATES_def vesta_tasks.row_of_update)

lemma quarantine_all_ok:
  assumes "wf_tasks d" "distinct ids" "\<And>i. i \<in> set ids \<Longrightarrow> \<exists>t. row_of vt_id i (td_tasks d) = Some t \<and> vt_state t \<in> set IN_FLIGHT"
  shows "\<exists>ts d'. quarantine_all ids clk d = (Inr ts, d') \<and>
    (\<forall>j. j \<notin> set ids \<longrightarrow> row_of vt_id j (td_tasks d') = row_of vt_id j (td_tasks d)) \<and>
    (\<forall>j \<in> set ids. \<exists>t. row_of vt_id j (td_tasks d') = Some t \<and> vt_state t = ''QUARANTINED'')"
  using assms
proof (induction ids arbitrary: d)
  case (Cons i ids)
  from Cons.prems(3) [of i] obtain t where t: "row_of vt_id i (td_tasks d) = Some t" "vt_state t \<in> set IN_FLIGHT" by auto
  obtain t' d1 where m: "move_task i ''QUARANTINED'' ''in-flight task requires operator recovery after restart'' (JObj []) (clk i) d = (Inr t', d1)"
    and rows: "\<And>j. row_of vt_id j (td_tasks d1) = (if j = i then Some (t\<lparr>vt_state := ''QUARANTINED'', vt_updated := clk i,
        vt_error := Some ''in-flight task requires operator recovery after restart''\<rparr>) else row_of vt_id j (td_tasks d))"
    using move_quarantine [OF Cons.prems(1) t] by blast
  have wf: "wf_tasks d1" by (rule wf_move [OF Cons.prems(1) m])
  have "\<exists>ts d'. quarantine_all ids clk d1 = (Inr ts, d') \<and>
    (\<forall>j. j \<notin> set ids \<longrightarrow> row_of vt_id j (td_tasks d') = row_of vt_id j (td_tasks d1)) \<and>
    (\<forall>j \<in> set ids. \<exists>t. row_of vt_id j (td_tasks d') = Some t \<and> vt_state t = ''QUARANTINED'')"
    by (rule Cons.IH [OF wf]) (use Cons.prems(2,3) rows in auto)
  then obtain ts d' where q: "quarantine_all ids clk d1 = (Inr ts, d')"
    "\<And>j. j \<notin> set ids \<Longrightarrow> row_of vt_id j (td_tasks d') = row_of vt_id j (td_tasks d1)"
    "\<And>j. j \<in> set ids \<Longrightarrow> \<exists>t. row_of vt_id j (td_tasks d') = Some t \<and> vt_state t = ''QUARANTINED''"
    by blast
  have "i \<notin> set ids" using Cons.prems(2) by simp
  then show ?case using m q rows by auto
qed simp

lemma row_of_distinct: "distinct (map key tbl) \<Longrightarrow> r \<in> set tbl \<Longrightarrow> row_of key (key r) tbl = Some r"
  by (induction tbl) (auto simp: row_of_def)

theorem recovery_leaves_nothing_in_flight:
  assumes "wf_tasks d"
  shows "\<exists>ts d'. recover_incomplete clk d = (Inr ts, d') \<and>
    (\<forall>i t. row_of vt_id i (td_tasks d) = Some t \<longrightarrow> (if vt_state t \<in> set IN_FLIGHT
       then \<exists>t'. row_of vt_id i (td_tasks d') = Some t' \<and> vt_state t' = ''QUARANTINED'' else row_of vt_id i (td_tasks d') = Some t))"
proof -
  let ?ids = "map vt_id (filter (\<lambda>t. vt_state t \<in> set IN_FLIGHT) (td_tasks d))"
  have dist: "distinct (map vt_id (td_tasks d))" using assms by (simp add: wf_tasks_def)
  have row: "t \<in> set (td_tasks d) \<Longrightarrow> row_of vt_id (vt_id t) (td_tasks d) = Some t" for t
    by (rule row_of_distinct [OF dist])
  have "\<exists>ts d'. quarantine_all ?ids clk d = (Inr ts, d') \<and>
    (\<forall>j. j \<notin> set ?ids \<longrightarrow> row_of vt_id j (td_tasks d') = row_of vt_id j (td_tasks d)) \<and>
    (\<forall>j \<in> set ?ids. \<exists>t. row_of vt_id j (td_tasks d') = Some t \<and> vt_state t = ''QUARANTINED'')"
    by (rule quarantine_all_ok [OF assms]) (use dist row in \<open>auto simp: distinct_map_filter\<close>)
  then obtain ts d' where q: "recover_incomplete clk d = (Inr ts, d')"
    "\<And>j. j \<notin> set ?ids \<Longrightarrow> row_of vt_id j (td_tasks d') = row_of vt_id j (td_tasks d)"
    "\<And>j. j \<in> set ?ids \<Longrightarrow> \<exists>t. row_of vt_id j (td_tasks d') = Some t \<and> vt_state t = ''QUARANTINED''"
    unfolding recover_incomplete_def by blast
  have "if vt_state t \<in> set IN_FLIGHT
       then \<exists>t'. row_of vt_id i (td_tasks d') = Some t' \<and> vt_state t' = ''QUARANTINED'' else row_of vt_id i (td_tasks d') = Some t"
    if t: "row_of vt_id i (td_tasks d) = Some t" for i t
  proof (cases "vt_state t \<in> set IN_FLIGHT")
    case True
    have "i \<in> set ?ids" using vesta_tasks.row_of_key [OF t] True by auto
    with q(3) True show ?thesis by simp
  next
    case False
    have "i \<notin> set ?ids"
    proof
      assume "i \<in> set ?ids"
      then obtain u where "u \<in> set (td_tasks d)" "vt_id u = i" "vt_state u \<in> set IN_FLIGHT" by auto
      with row [of u] t False show False by simp
    qed
    with q(2) t False show ?thesis by simp
  qed
  with q(1) show ?thesis by blast
qed

end
