(* ===== verification/Vesta_Evidence.thy ===== *)
theory Vesta_Evidence
  imports Effects Node_Files
begin

text \<open>
  The content-addressed evidence of the Vesta perimeter (\<^verbatim>\<open>msb_v3/vesta/evidence.py\<close>) and its durable approvals
  (\<^verbatim>\<open>approvals.py\<close> for file writes and the store of \<^verbatim>\<open>shell.py\<close> for commands, one shape with two
  contracts). A blob is addressed by its digest \<open>H\<close>; whether a blob can be opened and a new one be written
  are arguments. Times are microseconds, ids are arguments.
\<close>

section \<open>Evidence\<close>

record evidence_row =
  ev_id :: string
  ev_type :: string
  ev_sha :: string
  ev_size :: nat
  ev_captured :: int
  ev_meta :: json

record evidence_db =
  ed_rows :: "evidence_row list"
  ed_blobs :: "string \<Rightarrow> string option"     \<comment> \<open>by digest, the file name\<close>

record evidence_io =
  eo_readable :: "string \<Rightarrow> bool"
  eo_writable :: bool

datatype evidence_fault = Bad_Type | Blob_Corrupt | Unknown_Evidence | Unreadable | Hash_Changed
  | Evidence_Os                              \<comment> \<open>an OSError from writing, which escapes as such\<close>

definition hash_blob :: "(string \<Rightarrow> string) \<Rightarrow> evidence_io \<Rightarrow> string \<Rightarrow> string \<Rightarrow> (evidence_fault, string) result" where
  \<comment> \<open>of the blob under a name, with its content\<close>
  "hash_blob H io name data = (if eo_readable io name then Inr (H data) else Inl Unreadable)"

definition get_evidence :: "(string \<Rightarrow> string) \<Rightarrow> evidence_io \<Rightarrow> string \<Rightarrow> evidence_db \<Rightarrow> (evidence_fault, evidence_row \<times> bool) result" where
  \<comment> \<open>the row, and whether it verified\<close>
  "get_evidence H io i d = (case row_of ev_id i (ed_rows d) of
     None \<Rightarrow> Inl Unknown_Evidence
   | Some r \<Rightarrow> (case ed_blobs d (ev_sha r) of
       None \<Rightarrow> Inr (r, False)
     | Some b \<Rightarrow> bind_result (hash_blob H io (ev_sha r) b) (\<lambda>h. Inr (r, h = ev_sha r))))"

definition read_evidence :: "(string \<Rightarrow> string) \<Rightarrow> evidence_io \<Rightarrow> string \<Rightarrow> evidence_db \<Rightarrow> (evidence_fault, string) result" where
  \<comment> \<open>\<^verbatim>\<open>read_bytes\<close>\<close>
  "read_evidence H io i d = bind_result (get_evidence H io i d) (\<lambda>(r, ok).
     if \<not> ok then Inl Hash_Changed
     else (case ed_blobs d (ev_sha r) of Some b \<Rightarrow> Inr b | None \<Rightarrow> Inl Unreadable))"

definition store_blob :: "(string \<Rightarrow> string) \<Rightarrow> evidence_io \<Rightarrow> string \<Rightarrow> evidence_db \<Rightarrow> (evidence_fault, evidence_db) result" where
  \<comment> \<open>an existing blob is checked, a missing one written\<close>
  "store_blob H io data d = (let h = H data in case ed_blobs d h of
     Some b \<Rightarrow> bind_result (hash_blob H io h b) (\<lambda>g. if g \<noteq> h then Inl Blob_Corrupt else Inr d)
   | None \<Rightarrow> if eo_writable io then Inr (d\<lparr>ed_blobs := (ed_blobs d)(h \<mapsto> data)\<rparr>) else Inl Evidence_Os)"

definition evidence_id :: "string \<Rightarrow> string" where
  "evidence_id h = ''ev_'' @ h"

definition insert_evidence :: "evidence_row \<Rightarrow> evidence_db \<Rightarrow> evidence_db" where
  \<comment> \<open>\<^verbatim>\<open>ON CONFLICT DO NOTHING\<close>\<close>
  "insert_evidence r d = (case row_of ev_id (ev_id r) (ed_rows d) of None \<Rightarrow> d\<lparr>ed_rows := ed_rows d @ [r]\<rparr> | Some _ \<Rightarrow> d)"

definition record_bytes :: "(string \<Rightarrow> string) \<Rightarrow> evidence_io \<Rightarrow> int \<Rightarrow> string \<Rightarrow> string \<Rightarrow> json \<Rightarrow> evidence_db \<Rightarrow>
    (evidence_fault, evidence_row \<times> bool) result \<times> evidence_db" where
  "record_bytes H io now data ty meta d =
     (if ty = [] \<or> 128 < length ty then (Inl Bad_Type, d)
      else (case store_blob H io data d of
        Inl x \<Rightarrow> (Inl x, d)
      | Inr d1 \<Rightarrow>
          (let d2 = insert_evidence \<lparr>ev_id = evidence_id (H data), ev_type = ty, ev_sha = H data, ev_size = length data,
                      ev_captured = now, ev_meta = meta\<rparr> d1
           in (get_evidence H io (evidence_id (H data)) d2, d2))))"

definition evidence_text :: "json \<Rightarrow> string" where
  "evidence_text v = dumps '','' '':'' (sort_keys v)"

definition record_json :: "(string \<Rightarrow> string) \<Rightarrow> evidence_io \<Rightarrow> int \<Rightarrow> json \<Rightarrow> string \<Rightarrow> json \<Rightarrow> evidence_db \<Rightarrow>
    (evidence_fault, evidence_row \<times> bool) result \<times> evidence_db" where
  "record_json H io now v ty meta d = record_bytes H io now (evidence_text v) ty meta d"

definition manifest :: "(string \<Rightarrow> string) \<Rightarrow> evidence_io \<Rightarrow> string list \<Rightarrow> evidence_db \<Rightarrow> (evidence_fault, (evidence_row \<times> bool) list) result" where
  "manifest H io ids d = map_result (\<lambda>i. get_evidence H io i d) ids"

interpretation evidence_rows: keyed_table ev_id "\<lambda>f. \<forall>r. ev_id (f r) = ev_id r" by unfold_locales simp

text \<open>Rows name their content: the identifier of every row is its digest.\<close>

definition wf_evidence :: "evidence_db \<Rightarrow> bool" where
  "wf_evidence d \<longleftrightarrow> (\<forall>r \<in> set (ed_rows d). ev_id r = evidence_id (ev_sha r))"

lemma store_blob_rows: "store_blob H io data d = Inr d' \<Longrightarrow> ed_rows d' = ed_rows d"
  by (auto simp: store_blob_def Let_def result_simps split: option.splits if_splits)

lemma row_of_append_end:
  "row_of key k (xs @ [x]) = (case row_of key k xs of None \<Rightarrow> if key x = k then Some x else None | Some y \<Rightarrow> Some y)"
  by (induction xs) (auto simp: row_of_def)

lemma wf_record: "wf_evidence d \<Longrightarrow> wf_evidence (snd (record_bytes H io now data ty meta d))"
  by (auto simp: record_bytes_def insert_evidence_def Let_def wf_evidence_def split: sum.splits option.splits dest: store_blob_rows)

text \<open>What is recorded is read back: after a successful recording the identifier reads, and what it reads has the
  digest of what was recorded; a blob that changes afterwards is refused.\<close>

theorem recorded_evidence_reads_back:
  assumes "record_bytes H io now data ty meta d = (Inr (r, ok), d')" "wf_evidence d"
  shows "ev_id r = evidence_id (H data) \<and> ok \<and> (\<exists>b. read_evidence H io (ev_id r) d' = Inr b \<and> H b = H data)"
proof -
  from assms(1) obtain d1 where d1: "store_blob H io data d = Inr d1"
    by (auto simp: record_bytes_def split: if_splits sum.splits)
  let ?i = "evidence_id (H data)"
  let ?r = "\<lparr>ev_id = ?i, ev_type = ty, ev_sha = H data, ev_size = length data, ev_captured = now, ev_meta = meta\<rparr>"
  let ?d = "insert_evidence ?r d1"
  have g: "get_evidence H io ?i ?d = Inr (r, ok)" "d' = ?d"
    using assms(1) d1 by (auto simp: record_bytes_def Let_def split: if_splits)
  have row: "\<exists>q. row_of ev_id ?i (ed_rows ?d) = Some q \<and> ev_sha q = H data"
  proof (cases "row_of ev_id ?i (ed_rows d1)")
    case None
    then show ?thesis by (simp add: insert_evidence_def row_of_append_end)
  next
    case (Some q)
    from evidence_rows.row_of_key [OF Some] assms(2) store_blob_rows [OF d1] have "ev_id q = evidence_id (ev_sha q)" "ev_id q = ?i"
      by (auto simp: wf_evidence_def)
    with Some show ?thesis by (simp add: insert_evidence_def evidence_id_def)
  qed
  then obtain q where q: "row_of ev_id ?i (ed_rows ?d) = Some q" "ev_sha q = H data" by blast
  have blob: "\<exists>b. ed_blobs ?d (H data) = Some b \<and> H b = H data"
    using d1 by (auto simp: store_blob_def insert_evidence_def Let_def result_simps hash_blob_def split: option.splits if_splits)
  then obtain b where b: "ed_blobs ?d (H data) = Some b" "H b = H data" by blast
  have rq: "r = q" "ok" using g(1) q b by (auto simp: get_evidence_def result_simps hash_blob_def split: if_splits)
  have "ev_id q = ?i" using evidence_rows.row_of_key [OF q(1)] by simp
  moreover have "read_evidence H io ?i d' = Inr b"
    using g q b rq by (simp add: read_evidence_def)
  ultimately show ?thesis using rq b by auto
qed

text \<open>Evidence keeps its first attribution: recording the same bytes under another type and for another task leaves the
  row that is there, and answers with it.\<close>

theorem first_attribution_stays:
  assumes "row_of ev_id (evidence_id (H data)) (ed_rows d) = Some q" "record_bytes H io now data ty meta d = (Inr (r, ok), d')"
  shows "r = q \<and> ed_rows d' = ed_rows d"
proof -
  from assms(2) obtain d1 where d1: "store_blob H io data d = Inr d1"
    by (auto simp: record_bytes_def split: if_splits sum.splits)
  from assms d1 store_blob_rows [OF d1] show ?thesis
    by (auto simp: record_bytes_def insert_evidence_def Let_def get_evidence_def result_simps split: if_splits option.splits)
qed

text \<open>A changed blob is never read.\<close>

theorem changed_blobs_are_refused:
  assumes "row_of ev_id i (ed_rows d) = Some r" "ed_blobs d (ev_sha r) = Some b" "H b \<noteq> ev_sha r"
  shows "\<exists>x. read_evidence H io i d = Inl x"
  using assms by (auto simp: read_evidence_def get_evidence_def hash_blob_def)

section \<open>Approvals\<close>

datatype ack_status = Pending | Approved | Rejected | Expired | Void

record 'k ack =
  ak_id :: string
  ak_task :: string
  ak_bind :: string
  ak_contract :: 'k
  ak_policy :: string
  ak_expires :: "int option"           \<comment> \<open>None: the stored text does not parse\<close>
  ak_status :: ack_status
  ak_created :: int
  ak_decided :: "int option"
  ak_by :: "string option"
  ak_reason :: "string option"

datatype ack_fault = Ack_Exists | Unknown_Ack | Already_Decided | Bad_Expiration | Ack_Expired | Not_Open | Not_Approved

definition submit_ack :: "string \<Rightarrow> int \<Rightarrow> string \<Rightarrow> string \<Rightarrow> 'k \<Rightarrow> string \<Rightarrow> int option \<Rightarrow> 'k ack list \<Rightarrow>
    (ack_fault, 'k ack) result \<times> 'k ack list" where
  "submit_ack aid now task bnd contract policy expires tbl =
     (let a = \<lparr>ak_id = aid, ak_task = task, ak_bind = bnd, ak_contract = contract, ak_policy = policy, ak_expires = expires,
               ak_status = Pending, ak_created = now, ak_decided = None, ak_by = None, ak_reason = None\<rparr>
      in if aid \<in> ak_id ` set tbl \<or> bnd \<in> ak_bind ` set tbl then (Inl Ack_Exists, tbl) else (Inr a, tbl @ [a]))"

definition get_ack :: "string \<Rightarrow> 'k ack list \<Rightarrow> (ack_fault, 'k ack) result" where
  "get_ack i tbl = (case row_of ak_id i tbl of None \<Rightarrow> Inl Unknown_Ack | Some a \<Rightarrow> Inr a)"

definition list_acks :: "ack_status option \<Rightarrow> 'k ack list \<Rightarrow> 'k ack list" where
  "list_acks st tbl = sort_key ak_created (filter (\<lambda>a. st = None \<or> st = Some (ak_status a)) tbl)"

definition approve_ack :: "string \<Rightarrow> string \<Rightarrow> int \<Rightarrow> 'k ack list \<Rightarrow> (ack_fault, 'k ack) result \<times> 'k ack list" where
  "approve_ack i operator now tbl = (case row_of ak_id i tbl of
     None \<Rightarrow> (Inl Unknown_Ack, tbl)
   | Some a \<Rightarrow>
       if ak_status a \<noteq> Pending then (Inl Already_Decided, tbl)
       else (case ak_expires a of
         None \<Rightarrow> (Inl Bad_Expiration, tbl)
       | Some t \<Rightarrow>
           if t \<le> now
           then (Inl Ack_Expired, row_update ak_id i (\<lambda>a. a\<lparr>ak_status := Expired, ak_decided := Some now, ak_reason := Some ''approval expired''\<rparr>) tbl)
           else (let f = (\<lambda>a. a\<lparr>ak_status := Approved, ak_decided := Some now, ak_by := Some operator\<rparr>)
                 in (Inr (f a), row_update ak_id i f tbl))))"

definition reject_ack :: "string \<Rightarrow> string \<Rightarrow> string \<Rightarrow> int \<Rightarrow> 'k ack list \<Rightarrow> (ack_fault, 'k ack) result \<times> 'k ack list" where
  "reject_ack i operator why now tbl = (case row_of ak_id i tbl of
     None \<Rightarrow> (Inl Not_Open, tbl)
   | Some a \<Rightarrow>
       if ak_status a \<noteq> Pending then (Inl Not_Open, tbl)
       else (let f = (\<lambda>a. a\<lparr>ak_status := Rejected, ak_decided := Some now, ak_by := Some operator, ak_reason := Some why\<rparr>)
             in (Inr (f a), row_update ak_id i f tbl)))"

definition void_ack :: "string \<Rightarrow> string \<Rightarrow> int \<Rightarrow> 'k ack list \<Rightarrow> (ack_fault, 'k ack) result \<times> 'k ack list" where
  "void_ack i why now tbl = (case row_of ak_id i tbl of
     None \<Rightarrow> (Inl Not_Approved, tbl)
   | Some a \<Rightarrow>
       if ak_status a \<noteq> Approved then (Inl Not_Approved, tbl)
       else (let f = (\<lambda>a. a\<lparr>ak_status := Void, ak_decided := Some now, ak_reason := Some why\<rparr>)
             in (Inr (f a), row_update ak_id i f tbl)))"

interpretation ack_rows: keyed_table ak_id "\<lambda>f. \<forall>a. ak_id (f a) = ak_id a" by unfold_locales simp

fun ack_step :: "ack_status \<Rightarrow> ack_status \<Rightarrow> bool" where
  "ack_step Pending t \<longleftrightarrow> t \<in> {Approved, Rejected, Expired}"
| "ack_step Approved t \<longleftrightarrow> t = Void"
| "ack_step s t \<longleftrightarrow> False"

interpretation ack_life: lifecycle ack_step "\<lambda>s. s \<in> {Rejected, Expired, Void}"
  by unfold_locales auto

text \<open>One decision: what an operation does to the status of an approval is one legal step or nothing, and its
  contract, task and expiry never change.\<close>

definition same_contract :: "'k ack \<Rightarrow> 'k ack \<Rightarrow> bool" where
  "same_contract a b \<longleftrightarrow> ak_id b = ak_id a \<and> ak_task b = ak_task a \<and> ak_bind b = ak_bind a \<and> ak_contract b = ak_contract a \<and>
     ak_expires b = ak_expires a \<and> (ak_status b = ak_status a \<or> ack_step (ak_status a) (ak_status b))"

datatype ack_call = Approve_Call string string int | Reject_Call string string string int | Void_Call string string int

fun ack_run :: "ack_call \<Rightarrow> 'k ack list \<Rightarrow> 'k ack list" where
  "ack_run (Approve_Call i u n) tbl = snd (approve_ack i u n tbl)"
| "ack_run (Reject_Call i u w n) tbl = snd (reject_ack i u w n tbl)"
| "ack_run (Void_Call i w n) tbl = snd (void_ack i w n tbl)"

lemma same_contract_refl [simp]: "same_contract a a"
  by (simp add: same_contract_def)

lemma ack_run_step:
  assumes "row_of ak_id i tbl = Some a"
  shows "\<exists>b. row_of ak_id i (ack_run x tbl) = Some b \<and> same_contract a b"
proof (cases x)
  case (Approve_Call j u n)
  then show ?thesis using assms
    by (cases "j = i") (auto simp: approve_ack_def Let_def ack_rows.row_of_update same_contract_def split: option.splits)
next
  case (Reject_Call j u w n)
  then show ?thesis using assms
    by (cases "j = i") (auto simp: reject_ack_def Let_def ack_rows.row_of_update same_contract_def split: option.splits)
next
  case (Void_Call j w n)
  then show ?thesis using assms
    by (cases "j = i") (auto simp: void_ack_def Let_def ack_rows.row_of_update same_contract_def split: option.splits)
qed

lemma spent_rows_stay_spent:
  assumes "row_of ak_id i tbl = Some a" "ak_status a \<noteq> Pending"
  shows "\<exists>b. row_of ak_id i (ack_run x tbl) = Some b \<and> ak_status b \<noteq> Pending"
proof -
  from ack_run_step [OF assms(1), of x] obtain b where "row_of ak_id i (ack_run x tbl) = Some b" "same_contract a b" by blast
  moreover then have "ak_status b \<noteq> Pending" using assms(2) by (cases "ak_status a") (auto simp: same_contract_def)
  ultimately show ?thesis by blast
qed

text \<open>A spent approval is never approved again: once an approval is no longer pending, no sequence of decisions makes
  another approval of it succeed.\<close>

theorem spent_approvals_stay_spent:
  assumes "row_of ak_id i tbl = Some a" "ak_status a \<noteq> Pending"
  shows "\<exists>x. fst (approve_ack i operator now (fold ack_run xs tbl)) = Inl x"
proof -
  have "\<exists>b. row_of ak_id i (fold ack_run xs tbl) = Some b \<and> ak_status b \<noteq> Pending" if "row_of ak_id i tbl = Some a" "ak_status a \<noteq> Pending" for tbl a
    using that
  proof (induction xs arbitrary: tbl a)
    case (Cons x xs)
    from spent_rows_stay_spent [OF Cons.prems, of x] Cons.IH show ?case by auto
  qed auto
  from this [OF assms] show ?thesis by (auto simp: approve_ack_def)
qed

end
