(* ===== verification/Vesta_Write.thy ===== *)
theory Vesta_Write
  imports Vesta_Tasks Vesta_Evidence
begin

text \<open>
  Approved, reversible file writes (\<^verbatim>\<open>msb_v3/vesta/write.py\<close>): the submission of an exact write contract, its
  approval and execution, and its rejection, over the task store, the evidence, the approvals, the sandbox and the audit
  chain. An append that raises escapes and undoes nothing. One reading of the clock stands for the several an operation
  takes. The texts of exceptions are a parameter.
\<close>

section \<open>The stores together\<close>

record write_contract =
  wc_path :: string
  wc_evidence :: string
  wc_sha :: string
  wc_expected :: "string option"

record shell_contract =
  sh_command :: "json option"       \<comment> \<open>None: the stored text does not decode\<close>
  sh_sha :: string

record 'c vesta =
  vs_tasks :: task_db
  vs_evidence :: evidence_db
  vs_writes :: "write_contract ack list"
  vs_shells :: "shell_contract ack list"
  vs_files :: files
  vs_chain :: 'c
  vs_runs :: "(string \<times> string list) list"     \<comment> \<open>the processes started\<close>
  vs_events :: "nat list"                        \<comment> \<open>the local list \<^verbatim>\<open>event_ids\<close>\<close>
  vs_refs :: "string list"                       \<comment> \<open>the local list \<^verbatim>\<open>evidence_refs\<close>\<close>

datatype vesta_fault =
    Task_Fault task_fault
  | Ack_Fault ack_fault
  | Evidence_Fault evidence_fault
  | File_Fault file_fault
  | Untrusted_Chain
  | Audit_Failed
  | Command_Refused
  | Bad_Command                \<comment> \<open>a KeyError or TypeError on a decoded command\<close>

record 'c vesta_env =
  ve_app :: "'c appender"
  ve_trusted :: "'c \<Rightarrow> bool"    \<comment> \<open>\<^verbatim>\<open>verify_trustworthy\<close>\<close>
  ve_hash :: "string \<Rightarrow> string"
  ve_now :: int
  ve_armed :: bool              \<comment> \<open>the reading of the kill switch\<close>
  ve_eio :: evidence_io
  ve_wio :: bool                \<comment> \<open>the temporary file can be written and renamed\<close>
  ve_root :: path
  ve_limit :: nat
  ve_version :: string
  ve_text :: "vesta_fault \<Rightarrow> string"

type_synonym ('c, 'a) vesta_eff = "('c vesta, vesta_fault, 'a) eff"

definition on_tasks :: "'a task_op \<Rightarrow> ('c, 'a) vesta_eff" where
  "on_tasks f s = (case f (vs_tasks s) of
     (Inl e, d) \<Rightarrow> (Inl (Task_Fault e), s\<lparr>vs_tasks := d\<rparr>) | (Inr x, d) \<Rightarrow> (Inr x, s\<lparr>vs_tasks := d\<rparr>))"

definition on_writes :: "(write_contract ack list \<Rightarrow> (ack_fault, 'a) result \<times> write_contract ack list) \<Rightarrow> ('c, 'a) vesta_eff" where
  "on_writes f s = (case f (vs_writes s) of
     (Inl e, d) \<Rightarrow> (Inl (Ack_Fault e), s\<lparr>vs_writes := d\<rparr>) | (Inr x, d) \<Rightarrow> (Inr x, s\<lparr>vs_writes := d\<rparr>))"

definition vs_audit :: "'c vesta_env \<Rightarrow> string \<Rightarrow> json \<Rightarrow> ('c, unit) vesta_eff" where
  \<comment> \<open>\<^verbatim>\<open>event_ids.append(audit.append(...).seq)\<close>\<close>
  "vs_audit env ev p s = (case ve_app env (vs_chain s) ''vesta'' ev p of
     (None, c) \<Rightarrow> (Inl Audit_Failed, s\<lparr>vs_chain := c\<rparr>)
   | (Some n, c) \<Rightarrow> (Inr (), s\<lparr>vs_chain := c, vs_events := vs_events s @ [n]\<rparr>))"

definition add_bytes :: "'c vesta_env \<Rightarrow> string \<Rightarrow> string \<Rightarrow> json \<Rightarrow> ('c, string) vesta_eff" where
  \<comment> \<open>record, and append the evidence id to the list\<close>
  "add_bytes env data ty meta s = (case record_bytes (ve_hash env) (ve_eio env) (ve_now env) data ty meta (vs_evidence s) of
     (Inl e, d) \<Rightarrow> (Inl (Evidence_Fault e), s\<lparr>vs_evidence := d\<rparr>)
   | (Inr (r, ok), d) \<Rightarrow> (Inr (ev_id r), s\<lparr>vs_evidence := d, vs_refs := vs_refs s @ [ev_id r]\<rparr>))"

definition add_json :: "'c vesta_env \<Rightarrow> json \<Rightarrow> string \<Rightarrow> json \<Rightarrow> ('c, string) vesta_eff" where
  "add_json env v ty meta = add_bytes env (evidence_text v) ty meta"

definition refs_json :: "string list \<Rightarrow> json" where
  "refs_json refs = JList (map JStr refs)"

definition start_lists :: "string list \<Rightarrow> ('c, unit) vesta_eff" where
  "start_lists refs s = (Inr (), s\<lparr>vs_events := [], vs_refs := refs\<rparr>)"

definition vs_move :: "'c vesta_env \<Rightarrow> string \<Rightarrow> string \<Rightarrow> string \<Rightarrow> json \<Rightarrow> ('c, unit) vesta_eff" where
  \<comment> \<open>\<^verbatim>\<open>_transition\<close>\<close>
  "vs_move env i st why meta =
     andthen (on_tasks (move_task i st why meta (ve_now env))) (\<lambda>t.
     andthen (asks (\<lambda>s. tr_from (last (history_of i (vs_tasks s))))) (\<lambda>old.
     vs_audit env ''task.transition''
       (obj [(''task_id'', JStr i), (''from_state'', case old of None \<Rightarrow> JNull | Some x \<Rightarrow> JStr x), (''to_state'', JStr st),
             (''reason'', JStr why), (''metadata'', meta)])))"

definition save_refs :: "'c vesta_env \<Rightarrow> string \<Rightarrow> ('c, unit) vesta_eff" where
  "save_refs env i =
     andthen (asks vs_refs) (\<lambda>refs.
     andthen (on_tasks (update_metadata i [(''evidence_refs'', refs_json refs)] (ve_now env))) (\<lambda>_. ret ()))"

definition move_with_refs :: "'c vesta_env \<Rightarrow> string \<Rightarrow> string \<Rightarrow> string \<Rightarrow> (string \<times> json) list \<Rightarrow> ('c, unit) vesta_eff" where
  \<comment> \<open>a transition whose metadata ends with the evidence references\<close>
  "move_with_refs env i st why meta =
     andthen (asks vs_refs) (\<lambda>refs. vs_move env i st why (obj (meta @ [(''evidence_refs'', refs_json refs)])))"

definition refs_of_task :: "task_row \<Rightarrow> string list" where
  "refs_of_task t = (case map_of (vt_meta t) ''evidence_refs'' of
     Some (JList vs) \<Rightarrow> map (\<lambda>v. case v of JStr s \<Rightarrow> s | _ \<Rightarrow> []) vs | _ \<Rightarrow> [])"

definition opt_json :: "string option \<Rightarrow> json" where
  "opt_json v = (case v of None \<Rightarrow> JNull | Some x \<Rightarrow> JStr x)"

section \<open>Submission\<close>

record write_request =
  wr_session :: string
  wr_path :: string
  wr_data :: string              \<comment> \<open>the encoded content\<close>
  wr_expected :: "string option"

definition write_submit :: "'c vesta_env \<Rightarrow> string \<Rightarrow> string \<Rightarrow> string \<Rightarrow> write_request \<Rightarrow> ('c, write_contract ack) vesta_eff" where
  \<comment> \<open>the ids drawn for bind, task and approval come first\<close>
  "write_submit env b t aid rq =
     (let bnd = make_bind b t (wr_session rq) [''filesystem.write''] ''operator'' 300 (ve_now env) (ve_version env);
          sha = ve_hash env (wr_data rq);
          who = [(''bind_id'', JStr b), (''task_id'', JStr t)];
          what = [(''target_path'', JStr (wr_path rq)), (''payload_sha256'', JStr sha)];
          decision = decide_with bnd REQUIRE_APPROVAL ''high'' ''filesystem mutation requires exact owner approval''
      in
      andthen (start_lists []) (\<lambda>_.
      andthen (add_json env (obj (who @ what @ [(''expected_sha256'', opt_json (wr_expected rq))])) ''vesta.file_write_request'' (obj who)) (\<lambda>_.
      andthen (add_bytes env (wr_data rq) ''vesta.file_write_payload'' (obj (who @ [(''sha256'', JStr sha)]))) (\<lambda>payload.
      andthen (asks vs_refs) (\<lambda>refs.
      andthen (on_tasks (create_vtask bnd (what @ [(''expected_sha256'', opt_json (wr_expected rq)), (''evidence_refs'', refs_json refs)]) (ve_now env))) (\<lambda>_.
      andthen (vs_audit env ''request.received'' (obj (who @ [(''capability'', JStr ''filesystem.write'')] @ what @ [(''evidence_refs'', refs_json refs)]))) (\<lambda>_.
      andthen (move_with_refs env t ''AUTHENTICATED'' [] []) (\<lambda>_.
      andthen (vs_move env t ''PLANNED'' [] (obj [(''planner'', JStr ''vesta-file-write'')])) (\<lambda>_.
      andthen (add_json env (decision_json decision) ''vesta.file_write_policy'' (obj who)) (\<lambda>_.
      andthen (save_refs env t) (\<lambda>_.
      andthen (on_writes (submit_ack aid (ve_now env) t b \<lparr>wc_path = wr_path rq, wc_evidence = payload, wc_sha = sha, wc_expected = wr_expected rq\<rparr>
                 (ve_version env) (Some (ab_deadline bnd)))) (\<lambda>a.
      andthen (move_with_refs env t ''WAITING_APPROVAL'' ''owner approval required'' [(''approval_id'', JStr aid)]) (\<lambda>_.
      andthen (asks vs_refs) (\<lambda>refs.
      andthen (vs_audit env ''authorization.required'' (obj (who @ [(''approval_id'', JStr aid), (''decision'', JStr ''REQUIRE_APPROVAL''),
        (''evidence_refs'', refs_json refs)]))) (\<lambda>_.
      ret a)))))))))))))))"

section \<open>Approval and execution\<close>

datatype write_outcome =
    Quarantined string                       \<comment> \<open>the error\<close>
  | Rolled_Back string bool                  \<comment> \<open>the error, and whether the old state was seen again\<close>
  | Finished_Write receipt

definition receipt_json :: "receipt \<Rightarrow> json" where
  \<comment> \<open>\<^verbatim>\<open>public\<close>\<close>
  "receipt_json r = obj [(''path'', JStr (join_with ''/'' (rc_path r))), (''existed'', JBool (rc_existed r)),
     (''before_sha256'', opt_json (rc_before_sha r)), (''after_sha256'', JStr (rc_after_sha r)), (''size'', JInt (int (rc_size r)))]"

definition sandbox_write :: "'c vesta_env \<Rightarrow> string \<Rightarrow> string \<Rightarrow> string option \<Rightarrow> ('c, receipt) vesta_eff" where
  "sandbox_write env target data expected s =
     (case write_scoped (ve_hash env) (ve_limit env) (ve_root env) (ve_wio env) target data expected (vs_files s) of
        (Inl x, fs) \<Rightarrow> (Inl (File_Fault x), s\<lparr>vs_files := fs\<rparr>)
      | (Inr r, fs) \<Rightarrow> (Inr r, s\<lparr>vs_files := fs\<rparr>))"

definition sandbox_rollback :: "'c vesta_env \<Rightarrow> receipt \<Rightarrow> ('c, bool) vesta_eff" where
  "sandbox_rollback env r s =
     (case rollback_write (ve_hash env) (ve_limit env) (ve_root env) (ve_wio env) r (vs_files s) of
        (Inl x, fs) \<Rightarrow> (Inl (File_Fault x), s\<lparr>vs_files := fs\<rparr>)
      | (Inr ok, fs) \<Rightarrow> (Inr ok, s\<lparr>vs_files := fs\<rparr>))"

definition read_payload :: "'c vesta_env \<Rightarrow> write_contract \<Rightarrow> ('c, string) vesta_eff" where
  "read_payload env k s =
     (case read_evidence (ve_hash env) (ve_eio env) (wc_evidence k) (vs_evidence s) of
        Inl e \<Rightarrow> (Inl (Evidence_Fault e), s)
      | Inr b \<Rightarrow> if ve_hash env b \<noteq> wc_sha k then (Inl (Evidence_Fault Hash_Changed), s) else (Inr b, s))"

fun is_lifecycle :: "vesta_fault \<Rightarrow> bool" where
  \<comment> \<open>\<^verbatim>\<open>TaskLifecycleError\<close>\<close>
  "is_lifecycle (Task_Fault (Bad_State _)) = False"
| "is_lifecycle (Task_Fault _) = True"
| "is_lifecycle _ = False"

fun caught_write :: "vesta_fault \<Rightarrow> bool" where
  "caught_write (Ack_Fault _) = True"
| "caught_write (File_Fault x) = violation x"
| "caught_write (Evidence_Fault e) = (e \<noteq> Evidence_Os)"
| "caught_write Untrusted_Chain = True"
| "caught_write x = is_lifecycle x"

definition void_write :: "'c vesta_env \<Rightarrow> string \<Rightarrow> string \<Rightarrow> string \<Rightarrow> ('c, unit) vesta_eff" where
  \<comment> \<open>\<^verbatim>\<open>_void_approval\<close>: approval errors are swallowed\<close>
  "void_write env aid task why =
     rescue (andthen (on_writes (void_ack aid why (ve_now env))) (\<lambda>_.
             vs_audit env ''approval.voided'' (obj [(''approval_id'', JStr aid), (''task_id'', JStr task), (''reason'', JStr why)])))
            (\<lambda>x. case x of Ack_Fault _ \<Rightarrow> ret () | _ \<Rightarrow> fail_with x)"

definition note_quarantine :: "'c vesta_env \<Rightarrow> string \<Rightarrow> string \<Rightarrow> string \<Rightarrow> (string \<times> json) list \<Rightarrow> ('c, unit) vesta_eff" where
  \<comment> \<open>the best-effort transitions of the handler\<close>
  "note_quarantine env task why then_why meta =
     rescue (andthen (move_with_refs env task ''RECOVERING'' why meta) (\<lambda>_. move_with_refs env task ''QUARANTINED'' then_why meta))
            (\<lambda>x. if is_lifecycle x then ret () else fail_with x)"

definition rollback_json :: "receipt option \<Rightarrow> bool \<Rightarrow> json" where
  "rollback_json rc ok = (case rc of
     None \<Rightarrow> obj [(''ok'', JBool True), (''performed'', JBool False)]
   | Some r \<Rightarrow> obj [(''performed'', JBool True), (''ok'', JBool ok), (''path'', JStr (join_with ''/'' (rc_path r))),
                   (''restored_sha256'', opt_json (rc_before_sha r))])"

definition handle_write :: "'c vesta_env \<Rightarrow> string \<Rightarrow> string \<Rightarrow> receipt option \<Rightarrow> vesta_fault \<Rightarrow> ('c, write_outcome) vesta_eff" where
  "handle_write env aid task rc x =
     (if \<not> caught_write x then fail_with x
      else andthen (case rc of None \<Rightarrow> ret True | Some r \<Rightarrow> sandbox_rollback env r) (\<lambda>ok.
        andthen (note_quarantine env task (ve_text env x) ''write execution failed; operator review required'' [(''rollback'', rollback_json rc ok)]) (\<lambda>_.
        andthen (void_write env aid task (ve_text env x)) (\<lambda>_.
        andthen (asks vs_refs) (\<lambda>refs.
        andthen (vs_audit env ''execution.failed'' (obj [(''task_id'', JStr task), (''approval_id'', JStr aid), (''error'', JStr (ve_text env x)),
          (''rollback'', rollback_json rc ok), (''evidence_refs'', refs_json refs)])) (\<lambda>_.
        ret (if rc = None then Quarantined (ve_text env x) else Rolled_Back (ve_text env x) ok)))))))"

definition try_write :: "'c vesta_env \<Rightarrow> string \<Rightarrow> string \<Rightarrow> write_contract \<Rightarrow> ('c, receipt option) vesta_eff" where
  \<comment> \<open>the \<^verbatim>\<open>try\<close> up to the receipt; None: the kill switch was armed\<close>
  "try_write env aid task k =
     (let meta = obj [(''approval_id'', JStr aid)] in
      andthen (vs_move env task ''APPROVED'' [] meta) (\<lambda>_.
      andthen (vs_move env task ''EXECUTING'' [] meta) (\<lambda>_.
      if ve_armed env
      then andthen (vs_move env task ''QUARANTINED'' ''kill switch armed'' (JObj [])) (\<lambda>_.
           andthen (void_write env aid task ''kill switch armed'') (\<lambda>_. ret None))
      else andthen (read_payload env k) (\<lambda>b. andthen (sandbox_write env (wc_path k) b (wc_expected k)) (\<lambda>r. ret (Some r))))))"

definition confirm_write :: "'c vesta_env \<Rightarrow> string \<Rightarrow> string \<Rightarrow> receipt \<Rightarrow> ('c, write_outcome) vesta_eff" where
  \<comment> \<open>the \<^verbatim>\<open>try\<close> from the receipt on\<close>
  "confirm_write env aid task r =
     (let who = [(''task_id'', JStr task), (''approval_id'', JStr aid)] in
      andthen (add_json env (receipt_json r) ''vesta.file_write_receipt'' (obj who)) (\<lambda>_.
      andthen (save_refs env task) (\<lambda>_.
      andthen (move_with_refs env task ''VERIFYING'' [] [(''receipt'', receipt_json r)]) (\<lambda>_.
      andthen (asks vs_refs) (\<lambda>refs.
      andthen (vs_audit env ''execution.verified'' (obj (who @ [(''receipt'', receipt_json r), (''evidence_refs'', refs_json refs)]))) (\<lambda>_.
      andthen (move_with_refs env task ''COMPLETED'' [] []) (\<lambda>_.
      ret (Finished_Write r))))))))"

definition execute_write :: "'c vesta_env \<Rightarrow> string \<Rightarrow> string \<Rightarrow> write_contract \<Rightarrow> ('c, write_outcome) vesta_eff" where
  "execute_write env aid task k s = (case try_write env aid task k s of
     (Inl x, s1) \<Rightarrow> handle_write env aid task None x s1
   | (Inr None, s1) \<Rightarrow> (Inr (Quarantined ''kill switch armed''), s1)
   | (Inr (Some r), s1) \<Rightarrow> rescue (confirm_write env aid task r) (handle_write env aid task (Some r)) s1)"

definition approve_write :: "'c vesta_env \<Rightarrow> string \<Rightarrow> string \<Rightarrow> json \<Rightarrow> ('c, write_outcome) vesta_eff" where
  \<comment> \<open>\<^verbatim>\<open>approve_and_execute\<close>; the last argument is the signed proof\<close>
  "approve_write env aid operator proof_json =
     andthen (asks (\<lambda>s. ve_trusted env (vs_chain s))) (\<lambda>trusted.
     if \<not> trusted then fail_with Untrusted_Chain
     else andthen (on_writes (approve_ack aid operator (ve_now env))) (\<lambda>a.
       andthen (on_tasks (\<lambda>d. (get_task (ak_task a) d, d))) (\<lambda>task.
       andthen (start_lists (refs_of_task task)) (\<lambda>_.
       andthen (vs_audit env ''approval.decided'' (obj [(''approval_id'', JStr aid), (''task_id'', JStr (ak_task a)),
                  (''status'', JStr ''APPROVED''), (''operator'', JStr operator), (''signed_proof'', proof_json)])) (\<lambda>_.
       execute_write env aid (ak_task a) (ak_contract a))))))"

definition reject_write :: "'c vesta_env \<Rightarrow> string \<Rightarrow> string \<Rightarrow> string \<Rightarrow> ('c, unit) vesta_eff" where
  "reject_write env aid operator why =
     andthen (on_writes (reject_ack aid operator why (ve_now env))) (\<lambda>a.
     andthen (start_lists []) (\<lambda>_.
     andthen (vs_move env (ak_task a) ''DENIED'' (if why = [] then ''owner rejected write'' else why) (JObj [])) (\<lambda>_.
     vs_audit env ''approval.rejected'' (obj [(''approval_id'', JStr aid), (''task_id'', JStr (ak_task a)), (''operator'', JStr operator),
       (''reason'', JStr why)]))))"

section \<open>What the steps keep\<close>

definition files_are :: "files \<Rightarrow> 'c vesta \<Rightarrow> bool" where
  "files_are fs s \<longleftrightarrow> vs_files s = fs"

definition spent_write :: "string \<Rightarrow> 'c vesta \<Rightarrow> bool" where
  "spent_write i s \<longleftrightarrow> (\<exists>a. row_of ak_id i (vs_writes s) = Some a \<and> ak_status a \<noteq> Pending)"

definition tasks_are :: "task_db \<Rightarrow> 'c vesta \<Rightarrow> bool" where
  "tasks_are d s \<longleftrightarrow> vs_tasks s = d"

lemma audit_fields:
  "vs_audit env ev p s = (r, s') \<Longrightarrow> vs_files s' = vs_files s \<and> vs_writes s' = vs_writes s \<and> vs_tasks s' = vs_tasks s \<and>
     vs_shells s' = vs_shells s \<and> vs_runs s' = vs_runs s"
  by (auto simp: vs_audit_def split: prod.splits option.splits)

lemma add_fields:
  "add_bytes env data ty meta s = (r, s') \<Longrightarrow> vs_files s' = vs_files s \<and> vs_writes s' = vs_writes s \<and> vs_tasks s' = vs_tasks s \<and>
     vs_shells s' = vs_shells s \<and> vs_runs s' = vs_runs s"
  by (auto simp: add_bytes_def split: prod.splits sum.splits)

lemma on_tasks_fields:
  "on_tasks f s = (r, s') \<Longrightarrow> vs_files s' = vs_files s \<and> vs_writes s' = vs_writes s \<and> vs_shells s' = vs_shells s \<and> vs_runs s' = vs_runs s"
  by (auto simp: on_tasks_def split: prod.splits sum.splits)

lemma on_writes_fields:
  "on_writes f s = (r, s') \<Longrightarrow> vs_files s' = vs_files s \<and> vs_tasks s' = vs_tasks s \<and> vs_shells s' = vs_shells s \<and> vs_runs s' = vs_runs s"
  by (auto simp: on_writes_def split: prod.splits sum.splits)

lemma start_fields: "start_lists refs s = (Inr (), s\<lparr>vs_events := [], vs_refs := refs\<rparr>)"
  by (simp add: start_lists_def)

lemma keeps_files_steps [keeps_rules]:
  "keeps (files_are fs) (vs_audit env ev p)" "keeps (files_are fs) (add_bytes env data ty meta)"
  "keeps (files_are fs) (on_tasks f)" "keeps (files_are fs) (on_writes g)" "keeps (files_are fs) (start_lists refs)"
  "keeps (files_are fs) (read_payload env k)"
  by (rule keepsI; auto simp: files_are_def start_fields read_payload_def dest: audit_fields add_fields on_tasks_fields on_writes_fields
      split: sum.splits if_splits)+

lemma keeps_spent_steps [keeps_rules]:
  "keeps (spent_write i) (vs_audit env ev p)" "keeps (spent_write i) (add_bytes env data ty meta)"
  "keeps (spent_write i) (on_tasks f)" "keeps (spent_write i) (start_lists refs)"
  "keeps (spent_write i) (read_payload env k)" "keeps (spent_write i) (sandbox_write env tgt b x)" "keeps (spent_write i) (sandbox_rollback env rc)"
  by (rule keepsI; auto simp: spent_write_def start_fields read_payload_def sandbox_write_def sandbox_rollback_def
      dest: audit_fields add_fields on_tasks_fields split: sum.splits if_splits prod.splits)+

lemma keeps_spent_void [keeps_rules]: "keeps (spent_write i) (on_writes (void_ack j why now))"
proof (rule keepsI)
  fix s r s' assume s: "spent_write i s" and w: "on_writes (void_ack j why now) s = (r, s')"
  from s obtain a where a: "row_of ak_id i (vs_writes s) = Some a" "ak_status a \<noteq> Pending" by (auto simp: spent_write_def)
  from spent_rows_stay_spent [OF a, of "Void_Call j why now"] w show "spent_write i s'"
    by (auto simp: spent_write_def on_writes_def split: prod.splits sum.splits)
qed

lemma keeps_fault_case [keeps_rules]:
  assumes "\<And>x. keeps I (f x)"
  shows "keeps I (case x of Ack_Fault _ \<Rightarrow> ret () | _ \<Rightarrow> f x)"
  using assms by (cases x) (simp_all add: keeps_ret)

lemma keeps_composed [keeps_rules]:
  assumes "\<And>f :: task_row task_op. keeps I (on_tasks f)" "\<And>ev p. keeps I (vs_audit env ev p)"
  shows "keeps I (vs_move env i st why meta)" "keeps I (move_with_refs env i st why ms)" "keeps I (save_refs env i)"
    "keeps I (note_quarantine env i why why' ms)"
  unfolding vs_move_def move_with_refs_def save_refs_def note_quarantine_def by (intro keeps_rules assms)+

lemma keeps_void_write [keeps_rules]:
  assumes "\<And>ev p. keeps I (vs_audit env ev p)" "\<And>j w n. keeps I (on_writes (void_ack j w n))"
  shows "keeps I (void_write env i task why)"
  unfolding void_write_def by (intro keeps_rules assms)

lemma keeps_add_json [keeps_rules]: "(\<And>data. keeps I (add_bytes env data ty meta)) \<Longrightarrow> keeps I (add_json env v ty meta)"
  by (simp add: add_json_def)

lemma keeps_confirm [keeps_rules]: "keeps (files_are fs) (confirm_write env i task rc)" "keeps (spent_write j) (confirm_write env i task rc)"
  unfolding confirm_write_def Let_def by (intro keeps_rules)+

lemma keeps_handle: "keeps (spent_write j) (handle_write env i task rc x)"
  unfolding handle_write_def by (intro keeps_rules)

lemma keeps_handle_none: "keeps (files_are fs) (handle_write env i task None x)"
  unfolding handle_write_def option.case by (intro keeps_rules)

lemma keeps_try: "keeps (spent_write j) (try_write env i task k)"
  unfolding try_write_def Let_def by (intro keeps_rules)

section \<open>Properties\<close>

lemma read_payload_Inr: "read_payload env k s = (Inr b, s') \<Longrightarrow> ve_hash env b = wc_sha k \<and> s' = s"
  by (auto simp: read_payload_def split: sum.splits if_splits)

lemma sandbox_write_Inr:
  "sandbox_write env tgt b x s = (Inr rc, s') \<Longrightarrow>
     write_scoped (ve_hash env) (ve_limit env) (ve_root env) (ve_wio env) tgt b x (vs_files s) = (Inr rc, vs_files s')"
  by (auto simp: sandbox_write_def split: prod.splits sum.splits)

lemma sandbox_write_Inl:
  assumes "sandbox_write env tgt b x s = (Inl e, s')" "wf_files (vs_files s)"
  shows "vs_files s' = vs_files s"
proof -
  from assms(1) obtain y where "write_scoped (ve_hash env) (ve_limit env) (ve_root env) (ve_wio env) tgt b x (vs_files s) = (Inl y, vs_files s')"
    by (auto simp: sandbox_write_def split: prod.splits sum.splits)
  from writes_stay_inside [OF this assms(2)] show ?thesis by simp
qed

text \<open>Where the attempt stands when it ends.\<close>

lemma try_write_files:
  assumes "try_write env i task k s = (r, s')" "wf_files (vs_files s)"
  shows "(case r of Inr (Some rc) \<Rightarrow> \<not> ve_armed env \<and> (\<exists>b. ve_hash env b = wc_sha k \<and>
            write_scoped (ve_hash env) (ve_limit env) (ve_root env) (ve_wio env) (wc_path k) b (wc_expected k) (vs_files s) = (Inr rc, vs_files s'))
          | _ \<Rightarrow> vs_files s' = vs_files s)"
proof -
  let ?fs = "vs_files s" and ?W = "\<lambda>b rc fs'. write_scoped (ve_hash env) (ve_limit env) (ve_root env) (ve_wio env) (wc_path k) b (wc_expected k) (vs_files s) = (Inr rc, fs')"
  let ?Q = "\<lambda>r s'. (case r of Some rc \<Rightarrow> \<not> ve_armed env \<and> (\<exists>b. ve_hash env b = wc_sha k \<and> ?W b rc (vs_files s')) | None \<Rightarrow> files_are ?fs s')"
  have move: "valid (files_are ?fs) (vs_move env task st why meta) (\<lambda>_. files_are ?fs) (\<lambda>_. files_are ?fs)" for st why meta
    using keeps_composed(1) [OF keeps_files_steps(3,1)] by (simp add: keeps_def)
  have void: "valid (files_are ?fs) (void_write env i task why) (\<lambda>_. files_are ?fs) (\<lambda>_. files_are ?fs)" for why
    using keeps_void_write [OF keeps_files_steps(1,4)] by (simp add: keeps_def)
  have payload: "valid (files_are ?fs) (read_payload env k) (\<lambda>b s. files_are ?fs s \<and> ve_hash env b = wc_sha k) (\<lambda>_. files_are ?fs)"
    by (rule validI) (auto dest: read_payload_Inr keepsD [OF keeps_files_steps(6)])
  have step: "valid (\<lambda>s. files_are ?fs s \<and> ve_hash env b = wc_sha k) (sandbox_write env (wc_path k) b (wc_expected k))
      (\<lambda>rc s'. ve_hash env b = wc_sha k \<and> ?W b rc (vs_files s')) (\<lambda>_. files_are ?fs)" for b
    by (rule validI) (use assms(2) in \<open>auto simp: files_are_def dest: sandbox_write_Inr sandbox_write_Inl\<close>)
  have "valid (files_are ?fs) (try_write env i task k) ?Q (\<lambda>_. files_are ?fs)"
    unfolding try_write_def Let_def
    apply (rule valid_andthen [OF move])
    apply (rule valid_andthen [OF move])
    apply (rule valid_if)
     apply (rule valid_andthen [OF move])
     apply (rule valid_andthen [OF void])
     apply (rule valid_ret, simp)
    apply (rule valid_andthen [OF payload])
    apply (rule valid_andthen [OF step])
    apply (rule valid_ret, auto)
    done
  note v = this
  have fs: "files_are ?fs s" by (simp add: files_are_def)
  show ?thesis
  proof (cases r)
    case (Inl e)
    with valid_Inl [OF v fs] assms(1) show ?thesis by (simp add: files_are_def)
  next
    case (Inr rc)
    with valid_Inr [OF v fs] assms(1) show ?thesis by (auto simp: files_are_def split: option.splits)
  qed
qed

definition written :: "'c vesta_env \<Rightarrow> write_contract \<Rightarrow> files \<Rightarrow> files \<Rightarrow> bool" where
  \<comment> \<open>the contract, carried out\<close>
  "written env k fs fs' \<longleftrightarrow> (\<exists>b p before. ve_hash env b = wc_sha k \<and> inside (ve_root env) p \<and> fs p = map_option File before \<and>
     (wc_expected k = None \<or> map_option (ve_hash env) before = wc_expected k) \<and> fs' = fs(p \<mapsto> File b))"

lemma execute_write_files:
  assumes "execute_write env i task k s = (r, s')" "wf_files (vs_files s)" "vs_files s (ve_root env) = Some Directory"
  shows "vs_files s' = vs_files s \<or> (\<not> ve_armed env \<and> written env k (vs_files s) (vs_files s') \<and> (case r of Inr (Finished_Write rc) \<Rightarrow> True | Inl x \<Rightarrow> True | _ \<Rightarrow> False))"
  and "case r of Inr (Finished_Write rc) \<Rightarrow> \<not> ve_armed env \<and> written env k (vs_files s) (vs_files s') | _ \<Rightarrow> True"
proof -
  obtain t s1 where t: "try_write env i task k s = (t, s1)" by (cases "try_write env i task k s")
  note f = try_write_files [OF t assms(2)]
  have goal: "(vs_files s' = vs_files s \<or> (\<not> ve_armed env \<and> written env k (vs_files s) (vs_files s') \<and> (case r of Inr (Finished_Write rc) \<Rightarrow> True | Inl x \<Rightarrow> True | _ \<Rightarrow> False)))
    \<and> (case r of Inr (Finished_Write rc) \<Rightarrow> \<not> ve_armed env \<and> written env k (vs_files s) (vs_files s') | _ \<Rightarrow> True)"
  proof (cases t)
    case (Inl x)
    with t assms(1) have h: "handle_write env i task None x s1 = (r, s')" by (simp add: execute_write_def)
    have "files_are (vs_files s) s'"
      by (rule keepsD [OF keeps_handle_none _ h]) (use f Inl in \<open>simp add: files_are_def\<close>)
    moreover have "case r of Inr (Finished_Write rc) \<Rightarrow> False | _ \<Rightarrow> True"
      using h by (auto simp: handle_write_def andthen_Inr split: sum.splits write_outcome.splits if_splits)
    ultimately show ?thesis by (auto simp: files_are_def split: sum.splits write_outcome.splits)
  next
    case (Inr o')
    show ?thesis
    proof (cases o')
      case None
      with Inr t assms(1) f show ?thesis by (auto simp: execute_write_def)
    next
      case (Some rc)
      with Inr f obtain b where b: "\<not> ve_armed env" "ve_hash env b = wc_sha k"
        "write_scoped (ve_hash env) (ve_limit env) (ve_root env) (ve_wio env) (wc_path k) b (wc_expected k) (vs_files s) = (Inr rc, vs_files s1)"
        by auto
      have w: "written env k (vs_files s) (vs_files s1)"
        by (rule write_scoped_Inr [OF b(3) assms(2)]) (use b(2) in \<open>auto simp: written_def\<close>)
      have r: "rescue (confirm_write env i task rc) (handle_write env i task (Some rc)) s1 = (r, s')"
        using assms(1) t Inr Some by (simp add: execute_write_def)
      obtain c s2 where c: "confirm_write env i task rc s1 = (c, s2)" by (cases "confirm_write env i task rc s1")
      have f2: "vs_files s2 = vs_files s1"
        using keepsD [OF keeps_confirm(1) [of "vs_files s1"] _ c] by (simp add: files_are_def)
      show ?thesis
      proof (cases c)
        case (Inr out)
        with c have "\<exists>rc. out = Finished_Write rc" by (auto simp: confirm_write_def Let_def andthen_Inr)
        with Inr c r f2 w b(1) show ?thesis by (auto simp: rescue_def)
      next
        case (Inl x)
        with c r have h: "handle_write env i task (Some rc) x s2 = (r, s')" by (simp add: rescue_def)
        show ?thesis
        proof (cases "caught_write x")
          case False
          with h f2 w b(1) show ?thesis by (auto simp: handle_write_def)
        next
          case True
          obtain q s3 where q: "sandbox_rollback env rc s2 = (q, s3)" by (cases "sandbox_rollback env rc s2")
          then obtain q' where q': "rollback_write (ve_hash env) (ve_limit env) (ve_root env) (ve_wio env) rc (vs_files s1) = (q', vs_files s3)"
              "q = (case q' of Inl y \<Rightarrow> Inl (File_Fault y) | Inr ok \<Rightarrow> Inr ok)"
            by (auto simp: sandbox_rollback_def f2 split: prod.splits sum.splits)
          have out: "(vs_files s3 = vs_files s1 \<and> (\<exists>y. q = Inl y)) \<or> (vs_files s3 = vs_files s \<and> q = Inr True)"
            using rollback_outcomes [OF b(3) assms(2,3) q'(1)] q'(2) by auto
          show ?thesis
          proof (cases q)
            case (Inl y)
            with h q True have "r = Inl y" "s' = s3" by (simp_all add: handle_write_def andthen_def)
            with out Inl w b(1) show ?thesis by auto
          next
            case (Inr ok)
            with out have f3: "vs_files s3 = vs_files s" by auto
            let ?rest = "andthen (note_quarantine env task (ve_text env x) ''write execution failed; operator review required'' [(''rollback'', rollback_json (Some rc) ok)]) (\<lambda>_.
              andthen (void_write env i task (ve_text env x)) (\<lambda>_. andthen (asks vs_refs) (\<lambda>refs.
              andthen (vs_audit env ''execution.failed'' (obj [(''task_id'', JStr task), (''approval_id'', JStr i), (''error'', JStr (ve_text env x)),
                (''rollback'', rollback_json (Some rc) ok), (''evidence_refs'', refs_json refs)])) (\<lambda>_.
              ret (Rolled_Back (ve_text env x) ok)))))"
            have rest: "?rest s3 = (r, s')" using h q True Inr by (simp add: handle_write_def andthen_def)
            have "keeps (files_are (vs_files s)) ?rest" by (intro keeps_rules)
            from keepsD [OF this _ rest] f3 have "vs_files s' = vs_files s" by (simp add: files_are_def)
            moreover have "case r of Inr (Finished_Write rc) \<Rightarrow> False | _ \<Rightarrow> True"
              using rest by (auto simp: andthen_Inr split: sum.splits write_outcome.splits)
            ultimately show ?thesis by (auto split: sum.splits write_outcome.splits)
          qed
        qed
      qed
    qed
  qed
  from goal show "vs_files s' = vs_files s \<or> (\<not> ve_armed env \<and> written env k (vs_files s) (vs_files s') \<and> (case r of Inr (Finished_Write rc) \<Rightarrow> True | Inl x \<Rightarrow> True | _ \<Rightarrow> False))" by blast
  from goal show "case r of Inr (Finished_Write rc) \<Rightarrow> \<not> ve_armed env \<and> written env k (vs_files s) (vs_files s') | _ \<Rightarrow> True" by blast
qed

lemma approve_ack_Inr:
  assumes "approve_ack i operator now tbl = (Inr a', tbl')"
  obtains a t where "row_of ak_id i tbl = Some a" "ak_status a = Pending" "ak_expires a = Some t" "now < t"
    "ak_contract a' = ak_contract a" "ak_task a' = ak_task a" "row_of ak_id i tbl' = Some a'" "ak_status a' = Approved"
  using assms
  by (auto simp: approve_ack_def Let_def ack_rows.row_of_update not_le split: option.splits if_splits)

definition authorised :: "'c vesta_env \<Rightarrow> string \<Rightarrow> write_contract ack \<Rightarrow> 'c vesta \<Rightarrow> bool" where
  "authorised env i a s \<longleftrightarrow> ve_trusted env (vs_chain s) \<and> row_of ak_id i (vs_writes s) = Some a \<and> ak_status a = Pending \<and>
     (\<exists>t. ak_expires a = Some t \<and> ve_now env < t)"

lemma approve_write_cases:
  assumes "approve_write env i operator pj s = (r, s')"
  obtains x where "r = Inl x" "vs_files s' = vs_files s"
  | a s5 where "authorised env i a s" "vs_files s5 = vs_files s" "spent_write i s5"
      "execute_write env i (ak_task a) (ak_contract a) s5 = (r, s')"
proof (cases "ve_trusted env (vs_chain s)")
  case False
  with assms have "r = Inl Untrusted_Chain" "s' = s" by (auto simp: approve_write_def andthen_def)
  with that(1) show thesis by simp
next
  case trusted: True
  obtain x s1 where ap: "on_writes (approve_ack i operator (ve_now env)) s = (x, s1)"
    by (cases "on_writes (approve_ack i operator (ve_now env)) s")
  have f1: "vs_files s1 = vs_files s" using on_writes_fields [OF ap] by simp
  show thesis
  proof (cases x)
    case (Inl e)
    with assms ap trusted have "r = Inl e" "s' = s1" by (auto simp: approve_write_def andthen_def)
    with f1 that(1) show thesis by simp
  next
    case (Inr a')
    with ap have ack: "approve_ack i operator (ve_now env) (vs_writes s) = (Inr a', vs_writes s1)"
      by (auto simp: on_writes_def split: prod.splits sum.splits)
    obtain a t where a: "row_of ak_id i (vs_writes s) = Some a" "ak_status a = Pending" "ak_expires a = Some t" "ve_now env < t"
      "ak_contract a' = ak_contract a" "ak_task a' = ak_task a" "row_of ak_id i (vs_writes s1) = Some a'" "ak_status a' = Approved"
      by (rule approve_ack_Inr [OF ack])
    have auth: "authorised env i a s" using trusted a by (simp add: authorised_def)
    have spent1: "spent_write i s1" using a by (simp add: spent_write_def)
    let ?pre = "andthen (on_tasks (\<lambda>d. (get_task (ak_task a') d, d))) (\<lambda>task. andthen (start_lists (refs_of_task task)) (\<lambda>_.
       vs_audit env ''approval.decided'' (obj [(''approval_id'', JStr i), (''task_id'', JStr (ak_task a')),
                  (''status'', JStr ''APPROVED''), (''operator'', JStr operator), (''signed_proof'', pj)])))"
    have rest: "andthen ?pre (\<lambda>_. execute_write env i (ak_task a') (ak_contract a')) s1 = (r, s')"
      using assms ap trusted Inr unfolding andthen_assoc by (simp add: approve_write_def andthen_def)
    obtain y s5 where p: "?pre s1 = (y, s5)" by (cases "?pre s1")
    have kf: "keeps (files_are (vs_files s)) ?pre" and ks: "keeps (spent_write i) ?pre" by (intro keeps_rules)+
    have "files_are (vs_files s) s1" using f1 by (simp add: files_are_def)
    from kf this p have "files_are (vs_files s) s5" by (rule keepsD)
    then have k: "vs_files s5 = vs_files s" "spent_write i s5"
      using keepsD [of "spent_write i" ?pre s1 y s5] ks spent1 p by (auto simp: files_are_def)
    show thesis
    proof (cases y)
      case (Inl e)
      with rest p have "r = Inl e" "s' = s5" by (simp_all add: andthen_def)
      with k that(1) show thesis by simp
    next
      case (Inr u)
      with rest p have "execute_write env i (ak_task a') (ak_contract a') s5 = (r, s')" by (simp add: andthen_def)
      with a(5,6) that(2) [OF auth k] show thesis by simp
    qed
  qed
qed

text \<open>A write submitted and approved, for the examples below.\<close>

definition demo_store :: files where
  "demo_store = [[] \<mapsto> Directory, [''r''] \<mapsto> Directory, [''r'', ''f''] \<mapsto> File ''old'']"

definition counting :: "nat appender" where
  \<comment> \<open>a chain that counts its events\<close>
  "counting n s e p = (Some n, n + 1)"

definition demo_vesta_env :: "nat vesta_env" where
  "demo_vesta_env = \<lparr>ve_app = counting, ve_trusted = (\<lambda>_. True), ve_hash = take 3, ve_now = 0, ve_armed = False,
     ve_eio = \<lparr>eo_readable = (\<lambda>_. True), eo_writable = True\<rparr>, ve_wio = True, ve_root = [''r''], ve_limit = 9,
     ve_version = ''v'', ve_text = (\<lambda>_. ''error'')\<rparr>"

definition empty_vesta :: "files \<Rightarrow> 'c \<Rightarrow> 'c vesta" where
  "empty_vesta fs c = \<lparr>vs_tasks = empty_tasks, vs_evidence = \<lparr>ed_rows = [], ed_blobs = (\<lambda>_. None)\<rparr>, vs_writes = [], vs_shells = [],
     vs_files = fs, vs_chain = c, vs_runs = [], vs_events = [], vs_refs = []\<rparr>"

definition demo_pending :: "nat vesta" where
  "demo_pending = snd (write_submit demo_vesta_env ''b'' ''t'' ''a'' \<lparr>wr_session = ''s'', wr_path = ''f'', wr_data = ''new'', wr_expected = Some ''old''\<rparr>
     (empty_vesta demo_store 0))"

definition demo_approved :: "(vesta_fault, write_outcome) result \<times> nat vesta" where
  "demo_approved = approve_write demo_vesta_env ''a'' ''op'' JNull demo_pending"

definition completes :: "string \<Rightarrow> (vesta_fault, write_outcome) result \<times> nat vesta \<Rightarrow> bool" where
  "completes d x = (case x of (Inr (Finished_Write rc), s) \<Rightarrow> vs_files s [''r'', ''f''] = Some (File d) | _ \<Rightarrow> False)"

lemma demo_completes: "completes ''new'' demo_approved"
  by code_simp

lemma keeps_submit_files: "keeps (files_are fs) (write_submit env b t aid rq)"
  unfolding write_submit_def Let_def by (intro keeps_rules)

lemma demo_files_before: "vs_files demo_pending = demo_store"
proof -
  have "files_are demo_store demo_pending"
    unfolding demo_pending_def
    by (rule keepsD [OF keeps_submit_files _ surjective_pairing, of _ "empty_vesta demo_store 0"]) (simp add: files_are_def empty_vesta_def)
  then show ?thesis by (simp add: files_are_def)
qed

lemma demo_wf: "wf_files (vs_files demo_pending)"
  by (auto simp: demo_files_before wf_files_def demo_store_def)

lemma demo_root: "vs_files demo_pending (ve_root demo_vesta_env) = Some Directory"
  by (simp add: demo_files_before demo_store_def demo_vesta_env_def)

lemma demo_answer:
  obtains rc s' where "approve_write demo_vesta_env ''a'' ''op'' JNull demo_pending = (Inr (Finished_Write rc), s')"
    "vs_files s' [''r'', ''f''] = Some (File ''new'')"
  using demo_completes
  by (auto simp: completes_def demo_approved_def split: prod.splits sum.splits write_outcome.splits)

text \<open>C9: The sandbox changes only by an authorised write: if approving leaves the files different, then the chain was
  trusted, the approval pending and unexpired, the kill switch off, and exactly one file inside the root was replaced,
  by bytes with the approved digest, over content with the expected digest.\<close>

theorem sandbox_changes_as_approved:
  assumes "approve_write env i operator pj s = (r, s')" "wf_files (vs_files s)" "vs_files s (ve_root env) = Some Directory"
    and "vs_files s' \<noteq> vs_files s"
  shows "\<exists>a. authorised env i a s \<and> \<not> ve_armed env \<and> written env (ak_contract a) (vs_files s) (vs_files s')"
proof (rule approve_write_cases [OF assms(1)])
  fix a s5 assume a: "authorised env i a s" "vs_files s5 = vs_files s" "execute_write env i (ak_task a) (ak_contract a) s5 = (r, s')"
  from execute_write_files(1) [OF a(3)] a(2) assms(2-4) have "\<not> ve_armed env \<and> written env (ak_contract a) (vs_files s) (vs_files s')" by auto
  with a(1) show ?thesis by blast
qed (use assms(4) in simp)

theorem sandbox_changes_as_approved_witness:
  "\<exists>a. authorised demo_vesta_env ''a'' a demo_pending \<and> written demo_vesta_env (ak_contract a) demo_store (vs_files (snd demo_approved))"
proof (rule demo_answer)
  fix rc s' assume a: "approve_write demo_vesta_env ''a'' ''op'' JNull demo_pending = (Inr (Finished_Write rc), s')"
    "vs_files s' [''r'', ''f''] = Some (File ''new'')"
  have "demo_store [''r'', ''f''] \<noteq> Some (File ''new'')" by (simp add: demo_store_def)
  with a(2) have change: "vs_files s' \<noteq> vs_files demo_pending" unfolding demo_files_before by metis
  from sandbox_changes_as_approved [OF a(1) demo_wf demo_root change]
  show ?thesis unfolding demo_approved_def a(1) snd_conv demo_files_before by blast
qed

text \<open>C10: An answer tells what happened to the files: a finished write is the approved one, and after any other answer,
  quarantine or rollback, the files are as they were.\<close>

theorem answers_tell_the_files:
  assumes "approve_write env i operator pj s = (Inr out, s')" "wf_files (vs_files s)" "vs_files s (ve_root env) = Some Directory"
  shows "case out of
      Finished_Write rc \<Rightarrow> \<exists>a. authorised env i a s \<and> \<not> ve_armed env \<and> written env (ak_contract a) (vs_files s) (vs_files s')
    | _ \<Rightarrow> vs_files s' = vs_files s"
proof (rule approve_write_cases [OF assms(1)])
  fix a s5 assume a: "authorised env i a s" "vs_files s5 = vs_files s" "execute_write env i (ak_task a) (ak_contract a) s5 = (Inr out, s')"
  from execute_write_files [OF a(3)] a(2) assms(2,3) a(1) show ?thesis by (auto split: write_outcome.splits)
qed simp

theorem answers_tell_the_files_witness:
  "\<exists>a. authorised demo_vesta_env ''a'' a demo_pending \<and> \<not> ve_armed demo_vesta_env"
proof (rule demo_answer)
  fix rc s' assume a: "approve_write demo_vesta_env ''a'' ''op'' JNull demo_pending = (Inr (Finished_Write rc), s')"
  from answers_tell_the_files [OF a demo_wf demo_root] show ?thesis by auto
qed

text \<open>C20: An approval executes at most once: after an answer, whatever decisions follow, approving again fails and leaves
  the files alone.\<close>

theorem approvals_execute_once:
  assumes "approve_write env i operator pj s = (Inr out, s')" "vs_writes t = fold ack_run xs (vs_writes s')"
  shows "\<exists>x t'. approve_write env' i operator' pj' t = (Inl x, t') \<and> vs_files t' = vs_files t"
proof -
  have "spent_write i s'"
  proof (rule approve_write_cases [OF assms(1)])
    fix a s5 assume a: "spent_write i s5" "execute_write env i (ak_task a) (ak_contract a) s5 = (Inr out, s')"
    obtain q s6 where q: "try_write env i (ak_task a) (ak_contract a) s5 = (q, s6)" by (cases "try_write env i (ak_task a) (ak_contract a) s5")
    have s6: "spent_write i s6" by (rule keepsD [OF keeps_try a(1) q])
    have confirm: "keeps (spent_write i) (rescue (confirm_write env i (ak_task a) rc) (handle_write env i (ak_task a) (Some rc)))" for rc
      by (intro keeps_rules keeps_handle)
    show ?thesis
    proof (cases q)
      case (Inl x)
      with a(2) q have "handle_write env i (ak_task a) None x s6 = (Inr out, s')" by (simp add: execute_write_def)
      from keepsD [OF keeps_handle s6 this] show ?thesis .
    next
      case (Inr w)
      show ?thesis
      proof (cases w)
        case None
        with a(2) q Inr s6 show ?thesis by (simp add: execute_write_def)
      next
        case (Some rc)
        with a(2) q Inr have "rescue (confirm_write env i (ak_task a) rc) (handle_write env i (ak_task a) (Some rc)) s6 = (Inr out, s')"
          by (simp add: execute_write_def)
        from keepsD [OF confirm s6 this] show ?thesis .
      qed
    qed
  qed simp
  then obtain a where "row_of ak_id i (vs_writes s') = Some a" "ak_status a \<noteq> Pending" by (auto simp: spent_write_def)
  from spent_approvals_stay_spent [OF this, of operator' "ve_now env'" xs]
  obtain x where x: "fst (approve_ack i operator' (ve_now env') (vs_writes t)) = Inl x" by (auto simp: assms(2))
  obtain q t' where q: "approve_write env' i operator' pj' t = (q, t')" by (cases "approve_write env' i operator' pj' t")
  show ?thesis
  proof (rule approve_write_cases [OF q])
    fix a s5 assume "authorised env' i a t"
    with x have False by (auto simp: authorised_def approve_ack_def Let_def split: if_splits)
    then show ?thesis ..
  qed (use q in blast)
qed

theorem approvals_execute_once_witness:
  "\<exists>x t'. approve_write demo_vesta_env ''a'' ''op'' JNull (snd demo_approved) = (Inl x, t')"
proof (rule demo_answer)
  fix rc s' assume a: "approve_write demo_vesta_env ''a'' ''op'' JNull demo_pending = (Inr (Finished_Write rc), s')"
  have "vs_writes s' = fold ack_run [] (vs_writes s')" by simp
  from approvals_execute_once [OF a this, of demo_vesta_env "''op''" JNull]
  show ?thesis unfolding demo_approved_def a snd_conv by blast
qed

text \<open>What the audit does to an execution: when the chain refuses the event of a step after the write, the exception
  escapes; the new content stays, the approval stays approved and the task verifying.\<close>

definition failing_from :: "nat \<Rightarrow> nat appender" where
  "failing_from k n s e p = (if n < k then (Some n, n + 1) else (None, n))"

theorem audit_failure_leaves_the_write:
  "case approve_write (demo_vesta_env\<lparr>ve_app := failing_from 8\<rparr>) ''a'' ''op'' JNull demo_pending of
     (r, s) \<Rightarrow> r = Inl Audit_Failed \<and> vs_files s [''r'', ''f''] = Some (File ''new'') \<and> map ak_status (vs_writes s) = [Approved] \<and>
       map vt_state (td_tasks (vs_tasks s)) = [''VERIFYING'']"
  by code_simp

text \<open>An approval that expired is refused, and its task waits for it for ever: the task is left as it was.\<close>

theorem expiry_leaves_the_task_waiting:
  assumes "ve_trusted env (vs_chain s)" "row_of ak_id i (vs_writes s) = Some a" "ak_status a = Pending" "ak_expires a = Some t" "t \<le> ve_now env"
  shows "\<exists>s'. approve_write env i operator pj s = (Inl (Ack_Fault Ack_Expired), s') \<and> vs_tasks s' = vs_tasks s \<and> vs_files s' = vs_files s \<and>
    (\<exists>b. row_of ak_id i (vs_writes s') = Some b \<and> ak_status b = Expired)"
  using assms by (simp add: approve_write_def andthen_def on_writes_def approve_ack_def ack_rows.row_of_update)

end
