(* ===== verification/Vesta_Shell.thy ===== *)
theory Vesta_Shell
  imports Vesta_Write
begin

text \<open>
  Approved execution of exact commands (\<^verbatim>\<open>msb_v3/vesta/shell.py\<close>): the allowlist, the validation of a command, the
  run with its bounds on output, and the service that submits, approves, executes and rejects. The operating system is a
  parameter: what starting a program with some arguments gives; so is \<^verbatim>\<open>str()\<close> of a value that is not text. Every process started is recorded. Strings are the bytes
  of their UTF-8 encoding, of which the bounds on arguments count the characters of ASCII text.
\<close>

section \<open>The executor\<close>

record command =
  cm_executable :: string
  cm_args :: "string list"
  cm_expected :: "string option"

record process_result =
  pr_code :: int
  pr_out :: string
  pr_err :: string
  pr_timed_out :: bool
  pr_ms :: int

record execution =
  ex_executable :: string
  ex_args :: "string list"
  ex_code :: "int option"
  ex_out :: string
  ex_err :: string
  ex_timed_out :: bool
  ex_truncated :: bool
  ex_ms :: int

record shell_env =
  sx_allowed :: "(string \<times> string) list"
  sx_limit :: nat
  sx_start :: "string \<Rightarrow> string list \<Rightarrow> process_result option"   \<comment> \<open>None: an OSError\<close>
  sx_str :: "json \<Rightarrow> string"   \<comment> \<open>\<^verbatim>\<open>str()\<close> of a decoded value that is not text\<close>

definition usable_commands :: "(string \<Rightarrow> string option) \<Rightarrow> (string \<times> string) list \<Rightarrow> (string \<times> string) list" where
  \<comment> \<open>the constructor's filter; the argument resolves an absolute path to an executable file\<close>
  "usable_commands resolve configured =
     concat (map (\<lambda>(n, x). if n = [] \<or> CHR ''/'' \<in> set n \<or> CHR 0x5C \<in> set n then []
       else (case resolve x of None \<Rightarrow> [] | Some q \<Rightarrow> [(n, q)])) configured)"

definition valid_command :: "shell_env \<Rightarrow> string \<Rightarrow> string list \<Rightarrow> bool" where
  \<comment> \<open>\<^verbatim>\<open>validate_command\<close> raises nothing\<close>
  "valid_command sx executable args \<longleftrightarrow>
     map_of (sx_allowed sx) executable \<noteq> None \<and> length args \<le> 32 \<and>
     list_all (\<lambda>a. CHR 0x00 \<notin> set a \<and> int (length a) \<le> 1024) args \<and> int (sum_list (map length args)) \<le> 8192 \<and>
     \<not> (executable = ''pwd'' \<and> args \<noteq> []) \<and> \<not> (executable = ''echo'' \<and> list_ex (starts_with ''-'') args)"

fun good_prefix :: "nat \<Rightarrow> nat \<Rightarrow> nat \<Rightarrow> string \<Rightarrow> nat" where
  \<comment> \<open>how many of the next \<open>k\<close> bytes continue a character, the first of them between two bounds\<close>
  "good_prefix 0 lo hi s = 0"
| "good_prefix (Suc k) lo hi [] = 0"
| "good_prefix (Suc k) lo hi (c # s) =
     (if lo \<le> of_char c \<and> of_char c < hi then Suc (good_prefix k 128 192 s) else 0)"

definition lead_byte :: "nat \<Rightarrow> nat \<times> nat \<times> nat" where
  \<comment> \<open>continuation bytes and the bounds on the first; none for a byte that cannot lead\<close>
  "lead_byte b =
     (if 194 \<le> b \<and> b < 224 then (1, 128, 192)
      else if 224 \<le> b \<and> b < 240 then (2, if b = 224 then 160 else 128, if b = 237 then 160 else 192)
      else if 240 \<le> b \<and> b < 245 then (3, if b = 240 then 144 else 128, if b = 244 then 144 else 192)
      else (0, 0, 0))"

function decode_replace :: "string \<Rightarrow> string" where
  \<comment> \<open>\<^verbatim>\<open>decode("utf-8", errors="replace")\<close>: a broken sequence becomes one U+FFFD\<close>
  "decode_replace s = (case s of
     [] \<Rightarrow> []
   | c # r \<Rightarrow>
       if of_char c < (128 :: nat) then c # decode_replace r
       else (case lead_byte (of_char c) of (k, lo, hi) \<Rightarrow>
         (let n = good_prefix k lo hi r in
          if 0 < k \<and> n = k then c # take k r @ decode_replace (drop k r)
          else [CHR 0xEF, CHR 0xBF, CHR 0xBD] @ decode_replace (drop n r))))"
  by pat_completeness auto
termination
  by (relation "measure length") auto

declare decode_replace.simps [simp del]

definition bounded_result :: "shell_env \<Rightarrow> string \<Rightarrow> string list \<Rightarrow> process_result \<Rightarrow> execution" where
  \<comment> \<open>\<^verbatim>\<open>run\<close> once the process has ended\<close>
  "bounded_result sx executable args p =
     (let cut = sx_limit sx < length (pr_out p @ pr_err p);
          so = (if cut then take (sx_limit sx) (pr_out p) else pr_out p);
          se = (if cut then take (sx_limit sx - length so) (pr_err p) else pr_err p)
      in \<lparr>ex_executable = executable, ex_args = args, ex_code = (if pr_timed_out p then None else Some (pr_code p)),
          ex_out = decode_replace so, ex_err = decode_replace se, ex_timed_out = pr_timed_out p, ex_truncated = cut, ex_ms = pr_ms p\<rparr>)"

definition run_command :: "shell_env \<Rightarrow> string \<Rightarrow> string list \<Rightarrow> ('c, execution) vesta_eff" where
  "run_command sx executable args s =
     (if \<not> valid_command sx executable args then (Inl Command_Refused, s)
      else (case map_of (sx_allowed sx) executable of
        None \<Rightarrow> (Inl Command_Refused, s)
      | Some program \<Rightarrow> (case sx_start sx program args of
          None \<Rightarrow> (Inl Command_Refused, s)
        | Some p \<Rightarrow> (Inr (bounded_result sx executable args p), s\<lparr>vs_runs := vs_runs s @ [(program, args)]\<rparr>))))"

section \<open>Commands as stored\<close>

definition command_payload :: "command \<Rightarrow> json" where
  "command_payload c = obj [(''executable'', JStr (cm_executable c)), (''args'', JList (map JStr (cm_args c))),
     (''expected_stdout'', opt_json (cm_expected c))]"

definition command_hash :: "'c vesta_env \<Rightarrow> json \<Rightarrow> string" where
  "command_hash env v = ve_hash env (evidence_text v)"

definition py_str :: "shell_env \<Rightarrow> json \<Rightarrow> string" where
  "py_str sx v = (case v of JStr t \<Rightarrow> t | _ \<Rightarrow> sx_str sx v)"

definition py_items :: "shell_env \<Rightarrow> json \<Rightarrow> string list option" where
  \<comment> \<open>\<^verbatim>\<open>[str(value) for value in v]\<close>, None when v cannot be iterated\<close>
  "py_items sx v = (case v of
     JList vs \<Rightarrow> Some (map (py_str sx) vs)
   | JStr t \<Rightarrow> Some (map (\<lambda>c. [c]) t)
   | JObj kvs \<Rightarrow> Some (map (key_text \<circ> fst) kvs)
   | _ \<Rightarrow> None)"

definition command_of :: "shell_env \<Rightarrow> json \<Rightarrow> command option" where
  \<comment> \<open>the three keys, read from the stored object; an expected output that is neither text nor null, which
    no submission writes, counts as unreadable\<close>
  "command_of sx v = (case v of
     JObj kvs \<Rightarrow> (case (map_of kvs (KStr ''executable''), map_of kvs (KStr ''args''), map_of kvs (KStr ''expected_stdout'')) of
         (Some x, Some vs, e) \<Rightarrow>
           (case (py_items sx vs, e) of
              (Some as, Some (JStr t)) \<Rightarrow> Some \<lparr>cm_executable = py_str sx x, cm_args = as, cm_expected = Some t\<rparr>
            | (Some as, Some JNull) \<Rightarrow> Some \<lparr>cm_executable = py_str sx x, cm_args = as, cm_expected = None\<rparr>
            | (Some as, None) \<Rightarrow> Some \<lparr>cm_executable = py_str sx x, cm_args = as, cm_expected = None\<rparr>
            | _ \<Rightarrow> None)
       | _ \<Rightarrow> None)
   | _ \<Rightarrow> None)"

definition on_shells :: "(shell_contract ack list \<Rightarrow> (ack_fault, 'a) result \<times> shell_contract ack list) \<Rightarrow> ('c, 'a) vesta_eff" where
  "on_shells f s = (case f (vs_shells s) of
     (Inl e, d) \<Rightarrow> (Inl (Ack_Fault e), s\<lparr>vs_shells := d\<rparr>) | (Inr x, d) \<Rightarrow> (Inr x, s\<lparr>vs_shells := d\<rparr>))"

section \<open>Submission\<close>

datatype shell_answer = Shell_Denied policy_decision | Shell_Waiting "shell_contract ack"

definition shell_submit :: "'c vesta_env \<Rightarrow> string \<Rightarrow> string \<Rightarrow> string \<Rightarrow> string \<Rightarrow> command \<Rightarrow> ('c, shell_answer) vesta_eff" where
  \<comment> \<open>the ids drawn for bind, task and approval, then the session\<close>
  "shell_submit env b t aid session c =
     (let bnd = make_bind b t session [''shell.exec''] ''operator'' 300 (ve_now env) (ve_version env);
          v = command_payload c;
          who = [(''bind_id'', JStr b), (''task_id'', JStr t)];
          d = authorize_shell (ve_now env) (cm_executable c) (cm_args c) (cm_expected c) bnd
      in
      andthen (start_lists []) (\<lambda>_.
      andthen (add_json env (obj (who @ [(''command'', v)])) ''vesta.shell_request'' (obj (who @ [(''command_sha256'', JStr (command_hash env v))]))) (\<lambda>_.
      andthen (asks vs_refs) (\<lambda>refs.
      andthen (on_tasks (create_vtask bnd [(''command'', v), (''evidence_refs'', refs_json refs)] (ve_now env))) (\<lambda>_.
      andthen (vs_audit env ''request.received'' (obj (who @ [(''actor'', JStr ''operator''), (''capability'', JStr ''shell.exec''),
        (''command_sha256'', JStr (command_hash env v)), (''evidence_refs'', refs_json refs)]))) (\<lambda>_.
      andthen (move_with_refs env t ''AUTHENTICATED'' [] []) (\<lambda>_.
      andthen (vs_move env t ''PLANNED'' [] (obj [(''planner'', JStr ''vesta-shell'')])) (\<lambda>_.
      andthen (add_json env (decision_json d) ''vesta.shell_policy'' (obj who)) (\<lambda>_.
      andthen (save_refs env t) (\<lambda>_.
      andthen (asks vs_refs) (\<lambda>refs.
      andthen (vs_audit env ''authorization.decided'' (obj (who @ [(''evidence_refs'', refs_json refs), (''decision'', JStr (verdict_name (pd_verdict d))),
        (''risk_class'', JStr (pd_risk d)), (''capabilities'', JList (map JStr (pd_capabilities d))),
        (''reasons'', JList (map JStr (pd_reasons d))), (''policy_version'', JStr (pd_version d))]))) (\<lambda>_.
      if pd_verdict d = DENY
      then andthen (move_with_refs env t ''DENIED'' (join_with ''; '' (pd_reasons d)) []) (\<lambda>_. ret (Shell_Denied d))
      else
      andthen (on_shells (submit_ack aid (ve_now env) t b \<lparr>sh_command = Some v, sh_sha = command_hash env v\<rparr>
                 (ve_version env) (Some (ab_deadline bnd)))) (\<lambda>a.
      andthen (move_with_refs env t ''WAITING_APPROVAL'' ''owner approval required for shell execution'' [(''approval_id'', JStr aid)]) (\<lambda>_.
      andthen (vs_audit env ''authorization.required'' (obj (who @ [(''approval_id'', JStr aid),
        (''decision'', JStr (verdict_name (pd_verdict d))), (''evidence_refs'', refs_json refs)]))) (\<lambda>_.
      ret (Shell_Waiting a))))))))))))))))"

section \<open>Approval and execution\<close>

datatype shell_outcome =
    Shell_Quarantined string             \<comment> \<open>the error\<close>
  | Shell_Finished execution

definition execution_json :: "execution \<Rightarrow> json" where
  \<comment> \<open>\<^verbatim>\<open>as_dict\<close>\<close>
  "execution_json x = obj [(''executable'', JStr (ex_executable x)), (''args'', JList (map JStr (ex_args x))),
     (''returncode'', case ex_code x of None \<Rightarrow> JNull | Some n \<Rightarrow> JInt n), (''stdout'', JStr (ex_out x)), (''stderr'', JStr (ex_err x)),
     (''timed_out'', JBool (ex_timed_out x)), (''output_truncated'', JBool (ex_truncated x)), (''duration_ms'', JInt (ex_ms x))]"

definition execution_ok :: "string option \<Rightarrow> execution \<Rightarrow> bool" where
  "execution_ok expected x \<longleftrightarrow> \<not> ex_timed_out x \<and> ex_code x = Some 0 \<and> \<not> ex_truncated x \<and> (expected = None \<or> expected = Some (ex_out x))"

definition verification_json :: "string option \<Rightarrow> execution \<Rightarrow> json" where
  "verification_json expected x = obj [(''ok'', JBool (execution_ok expected x)),
     (''method'', JStr ''returncode_timeout_output_and_expected_stdout''),
     (''returncode'', case ex_code x of None \<Rightarrow> JNull | Some n \<Rightarrow> JInt n),
     (''timed_out'', JBool (ex_timed_out x)), (''output_truncated'', JBool (ex_truncated x))]"

definition check_contract :: "'c vesta_env \<Rightarrow> shell_env \<Rightarrow> shell_contract \<Rightarrow> (vesta_fault, command) result" where
  \<comment> \<open>the \<^verbatim>\<open>try\<close> up to the policy decision\<close>
  "check_contract env sx k = (case sh_command k of
     None \<Rightarrow> Inl Command_Refused
   | Some (JObj kvs) \<Rightarrow>
       if command_hash env (JObj kvs) \<noteq> sh_sha k then Inl Command_Refused
       else (case command_of sx (JObj kvs) of
         None \<Rightarrow> Inl Bad_Command
       | Some c \<Rightarrow>
           if \<not> valid_command sx (cm_executable c) (cm_args c) then Inl Command_Refused
           else if pd_verdict (authorize_shell (ve_now env) (cm_executable c) (cm_args c) (cm_expected c)
                      (make_bind [] [] ''approval'' [''shell.exec''] ''operator'' 120 (ve_now env) (ve_version env))) \<noteq> REQUIRE_APPROVAL
           then Inl Command_Refused
           else Inr c)
   | Some _ \<Rightarrow> Inl Command_Refused)"

definition lift_result :: "('e, 'a) result \<Rightarrow> ('s, 'e, 'a) eff" where
  "lift_result r s = (r, s)"

definition void_shell :: "'c vesta_env \<Rightarrow> string \<Rightarrow> string \<Rightarrow> ('c, unit) vesta_eff" where
  \<comment> \<open>\<^verbatim>\<open>_void_approval\<close>: approval errors are swallowed\<close>
  "void_shell env aid why =
     rescue (andthen (on_shells (void_ack aid why (ve_now env))) (\<lambda>a.
             vs_audit env ''approval.voided'' (obj [(''approval_id'', JStr aid), (''task_id'', JStr (ak_task a)), (''reason'', JStr why)])))
            (\<lambda>x. case x of Ack_Fault _ \<Rightarrow> ret () | _ \<Rightarrow> fail_with x)"

fun caught_shell :: "vesta_fault \<Rightarrow> bool" where
  "caught_shell (Ack_Fault _) = True"
| "caught_shell Command_Refused = True"
| "caught_shell Untrusted_Chain = True"
| "caught_shell (Evidence_Fault e) = (e \<noteq> Evidence_Os)"
| "caught_shell x = is_lifecycle x"

definition task_state :: "string \<Rightarrow> ('c, string) vesta_eff" where
  "task_state i = andthen (on_tasks (\<lambda>d. (get_task i d, d))) (\<lambda>t. ret (vt_state t))"

definition quarantine_shell :: "'c vesta_env \<Rightarrow> string \<Rightarrow> string \<Rightarrow> ('c, unit) vesta_eff" where
  \<comment> \<open>the best-effort transitions of the handler\<close>
  "quarantine_shell env task why =
     rescue
       (andthen (task_state task) (\<lambda>st.
        andthen (if st \<in> {''EXECUTING'', ''VERIFYING''} then vs_move env task ''RECOVERING'' why (JObj []) else ret ()) (\<lambda>_.
        andthen (task_state task) (\<lambda>st.
        if st \<in> {''WAITING_APPROVAL'', ''APPROVED'', ''RECOVERING''}
        then move_with_refs env task ''QUARANTINED'' ''shell execution failed; operator review required'' [] else ret ()))))
       (\<lambda>x. if is_lifecycle x then ret () else fail_with x)"

definition handle_shell :: "'c vesta_env \<Rightarrow> string \<Rightarrow> string \<Rightarrow> vesta_fault \<Rightarrow> ('c, shell_outcome) vesta_eff" where
  "handle_shell env aid task x =
     (if \<not> caught_shell x then fail_with x
      else andthen (quarantine_shell env task (ve_text env x)) (\<lambda>_.
        andthen (void_shell env aid (ve_text env x)) (\<lambda>_.
        andthen (asks vs_refs) (\<lambda>refs.
        andthen (vs_audit env ''execution.failed'' (obj [(''task_id'', JStr task), (''approval_id'', JStr aid), (''error'', JStr (ve_text env x)),
          (''evidence_refs'', refs_json refs)])) (\<lambda>_.
        ret (Shell_Quarantined (ve_text env x)))))))"

definition confirm_shell :: "'c vesta_env \<Rightarrow> string \<Rightarrow> string \<Rightarrow> string option \<Rightarrow> execution \<Rightarrow> ('c, shell_outcome) vesta_eff" where
  \<comment> \<open>the \<^verbatim>\<open>try\<close> once the process has ended\<close>
  "confirm_shell env aid task expected x =
     (let who = [(''task_id'', JStr task), (''approval_id'', JStr aid)] in
      andthen (add_json env (execution_json x) ''vesta.shell_output'' (obj who)) (\<lambda>_.
      andthen (save_refs env task) (\<lambda>_.
      andthen (move_with_refs env task ''VERIFYING'' [] [(''verification'', verification_json expected x)]) (\<lambda>_.
      if \<not> execution_ok expected x then fail_with Command_Refused
      else
      andthen (asks vs_refs) (\<lambda>refs.
      andthen (vs_audit env ''execution.verified'' (obj (who @ [(''verification'', verification_json expected x), (''evidence_refs'', refs_json refs)]))) (\<lambda>_.
      andthen (move_with_refs env task ''COMPLETED'' [] []) (\<lambda>_.
      ret (Shell_Finished x))))))))"

definition try_shell :: "'c vesta_env \<Rightarrow> shell_env \<Rightarrow> string \<Rightarrow> string \<Rightarrow> shell_contract \<Rightarrow> ('c, shell_outcome) vesta_eff" where
  "try_shell env sx aid task k =
     (let meta = obj [(''approval_id'', JStr aid)] in
      andthen (lift_result (check_contract env sx k)) (\<lambda>c.
      andthen (vs_move env task ''APPROVED'' [] meta) (\<lambda>_.
      andthen (vs_move env task ''EXECUTING'' [] meta) (\<lambda>_.
      if ve_armed env
      then andthen (vs_move env task ''QUARANTINED'' ''kill switch armed'' (JObj [])) (\<lambda>_.
           andthen (void_shell env aid ''kill switch armed'') (\<lambda>_. ret (Shell_Quarantined ''kill switch armed'')))
      else andthen (run_command sx (cm_executable c) (cm_args c)) (\<lambda>x. confirm_shell env aid task (cm_expected c) x)))))"

definition set_refs :: "string list \<Rightarrow> ('c, unit) vesta_eff" where
  "set_refs refs s = (Inr (), s\<lparr>vs_refs := refs\<rparr>)"

definition approve_shell :: "'c vesta_env \<Rightarrow> shell_env \<Rightarrow> string \<Rightarrow> string \<Rightarrow> json \<Rightarrow> ('c, shell_outcome) vesta_eff" where
  \<comment> \<open>\<^verbatim>\<open>approve_and_execute\<close>; the last argument is the signed proof\<close>
  "approve_shell env sx aid operator proof_json =
     andthen (asks (\<lambda>s. ve_trusted env (vs_chain s))) (\<lambda>trusted.
     if \<not> trusted then fail_with Untrusted_Chain
     else andthen (on_shells (approve_ack aid operator (ve_now env))) (\<lambda>a.
       andthen (start_lists []) (\<lambda>_.
       andthen (vs_audit env ''approval.decided'' (obj [(''approval_id'', JStr aid), (''task_id'', JStr (ak_task a)),
                  (''status'', JStr ''APPROVED''), (''operator'', JStr operator), (''signed_proof'', proof_json)])) (\<lambda>_.
       andthen (on_tasks (\<lambda>d. (get_task (ak_task a) d, d))) (\<lambda>task.
       andthen (set_refs (refs_of_task task)) (\<lambda>_.
       rescue (try_shell env sx aid (ak_task a) (ak_contract a)) (handle_shell env aid (ak_task a))))))))"

definition reject_shell :: "'c vesta_env \<Rightarrow> string \<Rightarrow> string \<Rightarrow> string \<Rightarrow> ('c, unit) vesta_eff" where
  "reject_shell env aid operator why =
     andthen (on_shells (reject_ack aid operator why (ve_now env))) (\<lambda>a.
     andthen (start_lists []) (\<lambda>_.
     andthen (vs_move env (ak_task a) ''DENIED'' (if why = [] then ''owner rejected shell execution'' else why) (JObj [])) (\<lambda>_.
     vs_audit env ''approval.rejected'' (obj [(''approval_id'', JStr aid), (''task_id'', JStr (ak_task a)), (''operator'', JStr operator),
       (''reason'', JStr why)]))))"

section \<open>What the steps keep\<close>

definition runs_in :: "((string \<times> string list) list \<Rightarrow> bool) \<Rightarrow> 'c vesta \<Rightarrow> bool" where
  "runs_in D s \<longleftrightarrow> D (vs_runs s)"

definition spent_shell :: "string \<Rightarrow> 'c vesta \<Rightarrow> bool" where
  "spent_shell i s \<longleftrightarrow> (\<exists>a. row_of ak_id i (vs_shells s) = Some a \<and> ak_status a \<noteq> Pending)"

lemma on_shells_fields:
  "on_shells f s = (r, s') \<Longrightarrow> vs_files s' = vs_files s \<and> vs_tasks s' = vs_tasks s \<and> vs_writes s' = vs_writes s \<and> vs_runs s' = vs_runs s"
  by (auto simp: on_shells_def split: prod.splits sum.splits)

lemma keeps_runs_steps [keeps_rules]:
  "keeps (runs_in D) (vs_audit env ev p)" "keeps (runs_in D) (add_bytes env data ty meta)"
  "keeps (runs_in D) (on_tasks f)" "keeps (runs_in D) (on_writes g)" "keeps (runs_in D) (on_shells h)"
  "keeps (runs_in D) (start_lists refs)"
  by (rule keepsI; auto simp: runs_in_def start_fields dest: audit_fields add_fields on_tasks_fields on_writes_fields on_shells_fields)+

lemma keeps_shell_steps [keeps_rules]:
  "keeps (spent_shell i) (vs_audit env ev p)" "keeps (spent_shell i) (add_bytes env data ty meta)"
  "keeps (spent_shell i) (on_tasks f)" "keeps (spent_shell i) (on_writes g)" "keeps (spent_shell i) (start_lists refs)"
  "keeps (spent_shell i) (run_command sx x xs)"
  by (rule keepsI; auto simp: spent_shell_def start_fields run_command_def dest: audit_fields add_fields on_tasks_fields on_writes_fields
      split: if_splits option.splits)+

lemma keeps_set_refs [keeps_rules]: "keeps (runs_in D) (set_refs refs)" "keeps (spent_shell i) (set_refs refs)"
  by (rule keepsI; auto simp: set_refs_def runs_in_def spent_shell_def)+

lemma andthen_lift: "andthen (lift_result (Inr x)) f = f x"
  by (rule ext) (simp add: andthen_def lift_result_def)

lemma keeps_lift [keeps_rules]: "keeps I (lift_result r)"
  by (rule keepsI) (simp add: lift_result_def)

lemma keeps_shell_void [keeps_rules]: "keeps (spent_shell i) (on_shells (void_ack j why now))"
proof (rule keepsI)
  fix s r s' assume s: "spent_shell i s" and w: "on_shells (void_ack j why now) s = (r, s')"
  from s obtain a where a: "row_of ak_id i (vs_shells s) = Some a" "ak_status a \<noteq> Pending" by (auto simp: spent_shell_def)
  from spent_rows_stay_spent [OF a, of "Void_Call j why now"] w show "spent_shell i s'"
    by (auto simp: spent_shell_def on_shells_def split: prod.splits sum.splits)
qed

lemma keeps_void_shell [keeps_rules]:
  assumes "\<And>ev p. keeps I (vs_audit env ev p)" "\<And>j w n. keeps I (on_shells (void_ack j w n))"
  shows "keeps I (void_shell env i why)"
  unfolding void_shell_def by (intro keeps_rules assms)

lemma keeps_task_state [keeps_rules]: "(\<And>f :: task_row task_op. keeps I (on_tasks f)) \<Longrightarrow> keeps I (task_state i)"
  unfolding task_state_def by (intro keeps_rules)

lemma keeps_quarantine_shell [keeps_rules]:
  assumes "\<And>f :: task_row task_op. keeps I (on_tasks f)" "\<And>ev p. keeps I (vs_audit env ev p)"
  shows "keeps I (quarantine_shell env task why)"
  unfolding quarantine_shell_def by (intro keeps_rules assms)

lemma keeps_handle_shell: "keeps (runs_in D) (handle_shell env i task x)" "keeps (spent_shell j) (handle_shell env i task x)"
  unfolding handle_shell_def by (intro keeps_rules)+

lemma keeps_confirm_shell [keeps_rules]:
  "keeps (runs_in D) (confirm_shell env i task expected x)" "keeps (spent_shell j) (confirm_shell env i task expected x)"
  unfolding confirm_shell_def Let_def by (intro keeps_rules)+

lemma keeps_try_shell: "keeps (spent_shell j) (try_shell env sx i task k)"
  unfolding try_shell_def Let_def by (intro keeps_rules)

lemma keeps_shell_submit: "keeps (runs_in D) (shell_submit env b t aid session c)"
  unfolding shell_submit_def Let_def by (intro keeps_rules)

section \<open>Properties\<close>

definition ran :: "'c vesta_env \<Rightarrow> shell_env \<Rightarrow> shell_contract \<Rightarrow> (string \<times> string list) list \<Rightarrow> (string \<times> string list) list \<Rightarrow> bool" where
  \<comment> \<open>the stored command started once: it still has the hash taken at its submission, the executor and the policy
    of now admit it, and the process is the allowlisted program on the stored arguments\<close>
  "ran env sx k before now \<longleftrightarrow> \<not> ve_armed env \<and> (\<exists>v c program.
     sh_command k = Some v \<and> command_hash env v = sh_sha k \<and> command_of sx v = Some c \<and>
     valid_command sx (cm_executable c) (cm_args c) \<and>
     pd_verdict (authorize_shell (ve_now env) (cm_executable c) (cm_args c) (cm_expected c)
       (make_bind [] [] ''approval'' [''shell.exec''] ''operator'' 120 (ve_now env) (ve_version env))) = REQUIRE_APPROVAL \<and>
     map_of (sx_allowed sx) (cm_executable c) = Some program \<and> now = before @ [(program, cm_args c)])"

lemma check_contract_Inr:
  assumes "check_contract env sx k = Inr c"
  obtains v where "sh_command k = Some v" "command_hash env v = sh_sha k" "command_of sx v = Some c"
    "valid_command sx (cm_executable c) (cm_args c)"
    "pd_verdict (authorize_shell (ve_now env) (cm_executable c) (cm_args c) (cm_expected c)
       (make_bind [] [] ''approval'' [''shell.exec''] ''operator'' 120 (ve_now env) (ve_version env))) = REQUIRE_APPROVAL"
  using assms by (auto simp: check_contract_def split: option.splits json.splits if_splits)

lemma try_shell_runs:
  "valid (\<lambda>s. vs_runs s = R) (try_shell env sx i task k)
     (\<lambda>out s. case out of Shell_Finished x \<Rightarrow> ran env sx k R (vs_runs s) | _ \<Rightarrow> vs_runs s = R)
     (\<lambda>e s. vs_runs s = R \<or> ran env sx k R (vs_runs s))"
proof -
  let ?at = "runs_in (\<lambda>x. x = R)" and ?ran = "runs_in (ran env sx k R)"
  have move: "valid ?at (vs_move env task st why meta) (\<lambda>_. ?at) (\<lambda>_. ?at)" for st why meta
    using keeps_composed(1) [OF keeps_runs_steps(3,1)] by (simp add: keeps_def)
  have void: "valid ?at (void_shell env i why) (\<lambda>_. ?at) (\<lambda>_. ?at)" for why
    using keeps_void_shell [OF keeps_runs_steps(1,5)] by (simp add: keeps_def)
  have confirm: "valid ?ran (confirm_shell env i task expected x) (\<lambda>out s. (case out of Shell_Finished _ \<Rightarrow> True | _ \<Rightarrow> False) \<and> ?ran s) (\<lambda>_. ?ran)" for expected x
  proof (rule validI)
    fix s out s' assume s: "?ran s" and c: "confirm_shell env i task expected x s = (Inr out, s')"
    from c have "out = Shell_Finished x" by (auto simp: confirm_shell_def Let_def andthen_Inr split: if_splits)
    with keepsD [OF keeps_confirm_shell(1) s c] show "(case out of Shell_Finished _ \<Rightarrow> True | _ \<Rightarrow> False) \<and> ?ran s'" by simp
  qed (rule keepsD [OF keeps_confirm_shell(1)])
  have run: "valid (\<lambda>s. ?at s \<and> \<not> ve_armed env \<and> check_contract env sx k = Inr c) (run_command sx (cm_executable c) (cm_args c)) (\<lambda>_. ?ran) (\<lambda>_. ?at)" for c
    by (rule validI) (auto simp: run_command_def runs_in_def ran_def elim!: check_contract_Inr split: if_splits option.splits)
  have "valid ?at (try_shell env sx i task k)
     (\<lambda>out s. case out of Shell_Finished x \<Rightarrow> ?ran s | _ \<Rightarrow> ?at s) (\<lambda>e s. ?at s \<or> ?ran s)"
  proof (cases "check_contract env sx k")
    case (Inl e)
    then show ?thesis by (auto simp: valid_def try_shell_def Let_def andthen_def lift_result_def)
  next
    case (Inr c)
    let ?rest = "if ve_armed env
      then andthen (vs_move env task ''QUARANTINED'' ''kill switch armed'' (JObj [])) (\<lambda>_.
           andthen (void_shell env i ''kill switch armed'') (\<lambda>_. ret (Shell_Quarantined ''kill switch armed'')))
      else andthen (run_command sx (cm_executable c) (cm_args c)) (\<lambda>x. confirm_shell env i task (cm_expected c) x)"
    have armed: "valid ?at (andthen (vs_move env task ''QUARANTINED'' ''kill switch armed'' (JObj [])) (\<lambda>_.
           andthen (void_shell env i ''kill switch armed'') (\<lambda>_. ret (Shell_Quarantined ''kill switch armed''))))
        (\<lambda>out s. out = Shell_Quarantined ''kill switch armed'' \<and> ?at s) (\<lambda>_. ?at)"
      by (rule valid_andthen, rule move, rule valid_andthen, rule void, rule valid_ret, simp)
    have "valid ?at ?rest (\<lambda>out s. case out of Shell_Finished x \<Rightarrow> ?ran s | _ \<Rightarrow> ?at s) (\<lambda>e s. ?at s \<or> ?ran s)"
    proof (rule valid_if)
      show "valid ?at (andthen (vs_move env task ''QUARANTINED'' ''kill switch armed'' (JObj [])) (\<lambda>_.
           andthen (void_shell env i ''kill switch armed'') (\<lambda>_. ret (Shell_Quarantined ''kill switch armed''))))
         (\<lambda>out s. case out of Shell_Finished x \<Rightarrow> ?ran s | _ \<Rightarrow> ?at s) (\<lambda>e s. ?at s \<or> ?ran s)"
        by (rule valid_weaken [OF armed]) auto
    next
      assume off: "\<not> ve_armed env"
      show "valid ?at (andthen (run_command sx (cm_executable c) (cm_args c)) (\<lambda>x. confirm_shell env i task (cm_expected c) x))
         (\<lambda>out s. case out of Shell_Finished x \<Rightarrow> ?ran s | _ \<Rightarrow> ?at s) (\<lambda>e s. ?at s \<or> ?ran s)"
      proof (rule valid_andthen)
        show "valid ?at (run_command sx (cm_executable c) (cm_args c)) (\<lambda>_. ?ran) (\<lambda>e s. ?at s \<or> ?ran s)"
          by (rule valid_weaken [OF run]) (use off Inr in auto)
        show "valid ?ran (confirm_shell env i task (cm_expected c) x) (\<lambda>out s. case out of Shell_Finished x \<Rightarrow> ?ran s | _ \<Rightarrow> ?at s) (\<lambda>e s. ?at s \<or> ?ran s)" for x
          by (rule valid_weaken [OF confirm]) (auto split: shell_outcome.splits)
      qed
    qed
    note rest = this
    have move': "valid ?at (vs_move env task st why meta) (\<lambda>_. ?at) (\<lambda>e s. ?at s \<or> ?ran s)" for st why meta
      by (rule valid_weaken [OF move]) simp_all
    have "valid ?at (andthen (vs_move env task ''APPROVED'' [] (obj [(''approval_id'', JStr i)])) (\<lambda>_.
      andthen (vs_move env task ''EXECUTING'' [] (obj [(''approval_id'', JStr i)])) (\<lambda>_. ?rest)))
      (\<lambda>out s. case out of Shell_Finished x \<Rightarrow> ?ran s | _ \<Rightarrow> ?at s) (\<lambda>e s. ?at s \<or> ?ran s)"
      by (rule valid_andthen [OF move' valid_andthen [OF move' rest]])
    then show ?thesis unfolding try_shell_def Let_def Inr andthen_lift .
  qed
  then show ?thesis unfolding runs_in_def .
qed

definition shell_authorised :: "'c vesta_env \<Rightarrow> string \<Rightarrow> shell_contract ack \<Rightarrow> 'c vesta \<Rightarrow> bool" where
  "shell_authorised env i a s \<longleftrightarrow> ve_trusted env (vs_chain s) \<and> row_of ak_id i (vs_shells s) = Some a \<and> ak_status a = Pending \<and>
     (\<exists>t. ak_expires a = Some t \<and> ve_now env < t)"

lemma approve_shell_cases:
  assumes "approve_shell env sx i operator pj s = (r, s')"
  obtains x where "r = Inl x" "vs_runs s' = vs_runs s"
  | a s5 where "shell_authorised env i a s" "vs_runs s5 = vs_runs s" "spent_shell i s5"
      "rescue (try_shell env sx i (ak_task a) (ak_contract a)) (handle_shell env i (ak_task a)) s5 = (r, s')"
proof (cases "ve_trusted env (vs_chain s)")
  case False
  with assms have "r = Inl Untrusted_Chain" "s' = s" by (auto simp: approve_shell_def andthen_def)
  with that(1) show thesis by simp
next
  case trusted: True
  obtain x s1 where ap: "on_shells (approve_ack i operator (ve_now env)) s = (x, s1)"
    by (cases "on_shells (approve_ack i operator (ve_now env)) s")
  have f1: "vs_runs s1 = vs_runs s" using on_shells_fields [OF ap] by simp
  show thesis
  proof (cases x)
    case (Inl e)
    with assms ap trusted have "r = Inl e" "s' = s1" by (auto simp: approve_shell_def andthen_def)
    with f1 that(1) show thesis by simp
  next
    case (Inr a')
    with ap have ack: "approve_ack i operator (ve_now env) (vs_shells s) = (Inr a', vs_shells s1)"
      by (auto simp: on_shells_def split: prod.splits sum.splits)
    obtain a t where a: "row_of ak_id i (vs_shells s) = Some a" "ak_status a = Pending" "ak_expires a = Some t" "ve_now env < t"
      "ak_contract a' = ak_contract a" "ak_task a' = ak_task a" "row_of ak_id i (vs_shells s1) = Some a'" "ak_status a' = Approved"
      by (rule approve_ack_Inr [OF ack])
    have auth: "shell_authorised env i a s" using trusted a by (simp add: shell_authorised_def)
    have spent1: "spent_shell i s1" using a by (simp add: spent_shell_def)
    let ?pre = "andthen (start_lists []) (\<lambda>_. andthen (vs_audit env ''approval.decided'' (obj [(''approval_id'', JStr i), (''task_id'', JStr (ak_task a')),
                  (''status'', JStr ''APPROVED''), (''operator'', JStr operator), (''signed_proof'', pj)])) (\<lambda>_.
       andthen (on_tasks (\<lambda>d. (get_task (ak_task a') d, d))) (\<lambda>task. set_refs (refs_of_task task))))"
    have rest: "andthen ?pre (\<lambda>_. rescue (try_shell env sx i (ak_task a') (ak_contract a')) (handle_shell env i (ak_task a'))) s1 = (r, s')"
      using assms ap trusted Inr unfolding andthen_assoc by (simp add: approve_shell_def andthen_def)
    obtain y s5 where p: "?pre s1 = (y, s5)" by (cases "?pre s1")
    have kr: "keeps (runs_in (\<lambda>x. x = vs_runs s)) ?pre" and ks: "keeps (spent_shell i) ?pre" by (intro keeps_rules)+
    have "runs_in (\<lambda>x. x = vs_runs s) s1" using f1 by (simp add: runs_in_def)
    from kr this p have "runs_in (\<lambda>x. x = vs_runs s) s5" by (rule keepsD)
    moreover from ks spent1 p have "spent_shell i s5" by (rule keepsD)
    ultimately have k: "vs_runs s5 = vs_runs s" "spent_shell i s5" by (simp_all add: runs_in_def)
    show thesis
    proof (cases y)
      case (Inl e)
      with rest p have "r = Inl e" "s' = s5" by (simp_all add: andthen_def)
      with k that(1) show thesis by simp
    next
      case (Inr u)
      with rest p have "rescue (try_shell env sx i (ak_task a') (ak_contract a')) (handle_shell env i (ak_task a')) s5 = (r, s')" by (simp add: andthen_def)
      with a(5,6) that(2) [OF auth k] show thesis by simp
    qed
  qed
qed

lemma execute_shell_runs:
  assumes "rescue (try_shell env sx i task k) (handle_shell env i task) s = (r, s')"
  shows "vs_runs s' = vs_runs s \<or> ran env sx k (vs_runs s) (vs_runs s')"
    and "case r of Inr (Shell_Finished x) \<Rightarrow> ran env sx k (vs_runs s) (vs_runs s') | _ \<Rightarrow> True"
proof -
  let ?D = "\<lambda>x. x = vs_runs s \<or> ran env sx k (vs_runs s) x"
  have handle: "valid (\<lambda>s'. ?D (vs_runs s')) (handle_shell env i task x)
      (\<lambda>out s'. ?D (vs_runs s') \<and> (case out of Shell_Finished _ \<Rightarrow> False | _ \<Rightarrow> True)) (\<lambda>_ s'. ?D (vs_runs s'))" for x
  proof (rule validI)
    fix s1 out s2 assume s: "?D (vs_runs s1)" and h: "handle_shell env i task x s1 = (Inr out, s2)"
    have "runs_in ?D s2" by (rule keepsD [OF keeps_handle_shell(1) _ h]) (use s in \<open>simp add: runs_in_def\<close>)
    moreover have "case out of Shell_Finished _ \<Rightarrow> False | _ \<Rightarrow> True"
      using h by (auto simp: handle_shell_def andthen_Inr split: if_splits)
    ultimately show "?D (vs_runs s2) \<and> (case out of Shell_Finished _ \<Rightarrow> False | _ \<Rightarrow> True)" by (simp add: runs_in_def)
  next
    fix s1 e s2 assume s: "?D (vs_runs s1)" and h: "handle_shell env i task x s1 = (Inl e, s2)"
    have "runs_in ?D s2" by (rule keepsD [OF keeps_handle_shell(1) _ h]) (use s in \<open>simp add: runs_in_def\<close>)
    then show "?D (vs_runs s2)" by (simp add: runs_in_def)
  qed
  have v: "valid (\<lambda>s'. vs_runs s' = vs_runs s) (rescue (try_shell env sx i task k) (handle_shell env i task))
    (\<lambda>out s'. ?D (vs_runs s') \<and> (case out of Shell_Finished x \<Rightarrow> ran env sx k (vs_runs s) (vs_runs s') | _ \<Rightarrow> True)) (\<lambda>_ s'. ?D (vs_runs s'))"
  proof (rule valid_rescue)
    show "valid (\<lambda>s'. vs_runs s' = vs_runs s) (try_shell env sx i task k)
      (\<lambda>out s'. ?D (vs_runs s') \<and> (case out of Shell_Finished x \<Rightarrow> ran env sx k (vs_runs s) (vs_runs s') | _ \<Rightarrow> True)) (\<lambda>_ s'. ?D (vs_runs s'))"
      by (rule valid_weaken [OF try_shell_runs]) (auto split: shell_outcome.splits)
    show "valid (\<lambda>s'. ?D (vs_runs s')) (handle_shell env i task x)
      (\<lambda>out s'. ?D (vs_runs s') \<and> (case out of Shell_Finished x \<Rightarrow> ran env sx k (vs_runs s) (vs_runs s') | _ \<Rightarrow> True)) (\<lambda>_ s'. ?D (vs_runs s'))" for x
      by (rule valid_weaken [OF handle]) (auto split: shell_outcome.splits)
  qed
  show "vs_runs s' = vs_runs s \<or> ran env sx k (vs_runs s) (vs_runs s')"
    using valid_Inr [OF v refl] valid_Inl [OF v refl] assms by (cases r) blast+
  show "case r of Inr (Shell_Finished x) \<Rightarrow> ran env sx k (vs_runs s) (vs_runs s') | _ \<Rightarrow> True"
    using valid_Inr [OF v refl] assms by (auto split: sum.splits shell_outcome.splits)
qed

text \<open>A command submitted and approved, for the examples below.\<close>

definition demo_shell_env :: shell_env where
  "demo_shell_env = \<lparr>sx_allowed = [(''echo'', ''/bin/echo'')], sx_limit = 9,
     sx_start = (\<lambda>q as. Some \<lparr>pr_code = 0, pr_out = concat as, pr_err = [], pr_timed_out = False, pr_ms = 1\<rparr>),
     sx_str = (\<lambda>_. [])\<rparr>"

definition demo_command :: "nat vesta" where
  "demo_command = snd (shell_submit demo_vesta_env ''b'' ''t'' ''a'' ''s'' \<lparr>cm_executable = ''echo'', cm_args = [''hi''], cm_expected = Some ''hi''\<rparr>
     (empty_vesta demo_store 0))"

definition demo_run :: "(vesta_fault, shell_outcome) result \<times> nat vesta" where
  "demo_run = approve_shell demo_vesta_env demo_shell_env ''a'' ''op'' JNull demo_command"

lemma demo_runs: "case demo_run of (Inr (Shell_Finished x), s) \<Rightarrow> ex_out x = ''hi'' \<and> vs_runs s = [(''/bin/echo'', [''hi''])] | _ \<Rightarrow> False"
  by code_simp

lemma demo_started: "vs_runs demo_command = []"
proof -
  have "runs_in (\<lambda>x. x = []) demo_command"
    unfolding demo_command_def
    by (rule keepsD [OF keeps_shell_submit _ surjective_pairing, of _ "empty_vesta demo_store 0"]) (simp add: runs_in_def empty_vesta_def)
  then show ?thesis by (simp add: runs_in_def)
qed

lemma demo_shell_answer:
  obtains x s' where "approve_shell demo_vesta_env demo_shell_env ''a'' ''op'' JNull demo_command = (Inr (Shell_Finished x), s')"
    "vs_runs s' = [(''/bin/echo'', [''hi''])]"
  using demo_runs by (auto simp: demo_run_def split: prod.splits sum.splits shell_outcome.splits)

text \<open>C12: A process starts only for an authorised command: approving leaves the processes started as they were, or it adds
  exactly one, and then the chain was trusted, the approval pending and unexpired, the kill switch off, and the process is
  the stored command's program on its stored arguments, where the stored command has the very hash taken at its submission,
  passes the executor's validation, is on the allowlist, and the policy of now still answers that it needs approval.\<close>

theorem processes_start_as_approved:
  assumes "approve_shell env sx i operator pj s = (r, s')" "vs_runs s' \<noteq> vs_runs s"
  shows "\<exists>a. shell_authorised env i a s \<and> ran env sx (ak_contract a) (vs_runs s) (vs_runs s')"
proof (rule approve_shell_cases [OF assms(1)])
  fix a s5 assume a: "shell_authorised env i a s" "vs_runs s5 = vs_runs s"
    "rescue (try_shell env sx i (ak_task a) (ak_contract a)) (handle_shell env i (ak_task a)) s5 = (r, s')"
  from execute_shell_runs(1) [OF a(3)] a(1,2) assms(2) show ?thesis by auto
qed (use assms(2) in simp)

theorem processes_start_as_approved_witness:
  "\<exists>a v. shell_authorised demo_vesta_env ''a'' a demo_command \<and> sh_command (ak_contract a) = Some v \<and>
     command_hash demo_vesta_env v = sh_sha (ak_contract a) \<and>
     (\<exists>c. command_of demo_shell_env v = Some c \<and> valid_command demo_shell_env (cm_executable c) [''hi''] \<and>
        map_of (sx_allowed demo_shell_env) (cm_executable c) = Some ''/bin/echo'')"
proof (rule demo_shell_answer)
  fix x s' assume a: "approve_shell demo_vesta_env demo_shell_env ''a'' ''op'' JNull demo_command = (Inr (Shell_Finished x), s')"
    "vs_runs s' = [(''/bin/echo'', [''hi''])]"
  then have "vs_runs s' \<noteq> vs_runs demo_command" by (simp add: demo_started)
  from processes_start_as_approved [OF a(1) this] a(2) demo_started show ?thesis
    by (auto simp: ran_def)
qed

text \<open>A finished command is a verified one: it ended in time with status zero, its output was not cut, and it printed
  what the contract expected, if it expected anything.\<close>

theorem finished_commands_are_verified:
  assumes "approve_shell env sx i operator pj s = (Inr (Shell_Finished x), s')"
  shows "\<exists>a c. shell_authorised env i a s \<and> check_contract env sx (ak_contract a) = Inr c \<and> execution_ok (cm_expected c) x \<and>
    ran env sx (ak_contract a) (vs_runs s) (vs_runs s')"
proof (rule approve_shell_cases [OF assms])
  fix a s5 assume a: "shell_authorised env i a s" "vs_runs s5 = vs_runs s"
    "rescue (try_shell env sx i (ak_task a) (ak_contract a)) (handle_shell env i (ak_task a)) s5 = (Inr (Shell_Finished x), s')"
  have "\<not> handle_shell env i (ak_task a) e s6 = (Inr (Shell_Finished x), s')" for e s6
    by (auto simp: handle_shell_def andthen_Inr)
  with a(3) have t: "try_shell env sx i (ak_task a) (ak_contract a) s5 = (Inr (Shell_Finished x), s')"
    by (auto simp: rescue_def split: prod.splits sum.splits)
  have "\<exists>c. check_contract env sx (ak_contract a) = Inr c \<and> execution_ok (cm_expected c) x"
    using t by (auto simp: try_shell_def Let_def andthen_Inr lift_result_def confirm_shell_def split: if_splits)
  with execute_shell_runs(2) [OF a(3)] a(1,2) show ?thesis by auto
qed simp

theorem finished_commands_are_verified_witness:
  "\<exists>a c. shell_authorised demo_vesta_env ''a'' a demo_command \<and> check_contract demo_vesta_env demo_shell_env (ak_contract a) = Inr c"
proof (rule demo_shell_answer)
  fix x s' assume "approve_shell demo_vesta_env demo_shell_env ''a'' ''op'' JNull demo_command = (Inr (Shell_Finished x), s')"
  from finished_commands_are_verified [OF this] show ?thesis by blast
qed

text \<open>An approval of a command executes at most once.\<close>

theorem shell_approvals_execute_once:
  assumes "approve_shell env sx i operator pj s = (Inr out, s')" "vs_shells t = fold ack_run xs (vs_shells s')"
  shows "\<exists>x t'. approve_shell env' sx' i operator' pj' t = (Inl x, t') \<and> vs_runs t' = vs_runs t"
proof -
  have "spent_shell i s'"
  proof (rule approve_shell_cases [OF assms(1)])
    fix a s5 assume a: "spent_shell i s5" "rescue (try_shell env sx i (ak_task a) (ak_contract a)) (handle_shell env i (ak_task a)) s5 = (Inr out, s')"
    have "keeps (spent_shell i) (rescue (try_shell env sx i (ak_task a) (ak_contract a)) (handle_shell env i (ak_task a)))"
      by (intro keeps_rules keeps_try_shell keeps_handle_shell)
    from keepsD [OF this a] show ?thesis .
  qed simp
  then obtain a where "row_of ak_id i (vs_shells s') = Some a" "ak_status a \<noteq> Pending" by (auto simp: spent_shell_def)
  from spent_approvals_stay_spent [OF this, of operator' "ve_now env'" xs]
  obtain x where x: "fst (approve_ack i operator' (ve_now env') (vs_shells t)) = Inl x" by (auto simp: assms(2))
  obtain q t' where q: "approve_shell env' sx' i operator' pj' t = (q, t')" by (cases "approve_shell env' sx' i operator' pj' t")
  show ?thesis
  proof (rule approve_shell_cases [OF q])
    fix a s5 assume "shell_authorised env' i a t"
    with x have False by (auto simp: shell_authorised_def approve_ack_def Let_def split: if_splits)
    then show ?thesis ..
  qed (use q in blast)
qed

theorem shell_approvals_execute_once_witness:
  "\<exists>x t'. approve_shell demo_vesta_env demo_shell_env ''a'' ''op'' JNull (snd demo_run) = (Inl x, t')"
proof (rule demo_shell_answer)
  fix x s' assume a: "approve_shell demo_vesta_env demo_shell_env ''a'' ''op'' JNull demo_command = (Inr (Shell_Finished x), s')"
  have "vs_shells s' = fold ack_run [] (vs_shells s')" by simp
  from shell_approvals_execute_once [OF a this, of demo_vesta_env demo_shell_env "''op''" JNull]
  show ?thesis unfolding demo_run_def a snd_conv by blast
qed

text \<open>A postcondition that fails voids the approval and quarantines the task; the process has run all the same.\<close>

theorem failed_postconditions_are_quarantined:
  "case approve_shell demo_vesta_env (demo_shell_env\<lparr>sx_limit := 1\<rparr>) ''a'' ''op'' JNull demo_command of
     (r, s) \<Rightarrow> r = Inr (Shell_Quarantined ''error'') \<and> vs_runs s = [(''/bin/echo'', [''hi''])] \<and> map ak_status (vs_shells s) = [Void] \<and>
       map vt_state (td_tasks (vs_tasks s)) = [''QUARANTINED'']"
  by code_simp

text \<open>The policy's guard against NUL lets one through, which the executor's guard then refuses.\<close>

theorem policy_misses_nul:
  "pd_verdict (authorize_shell 0 ''echo'' [[CHR 0x00]] None (make_bind [] [] [] [''shell.exec''] ''operator'' 300 0 ''v'')) = REQUIRE_APPROVAL \<and>
   \<not> valid_command demo_shell_env ''echo'' [[CHR 0x00]]"
  by code_simp

end
