(* ===== verification/Vesta_Read.thy ===== *)
theory Vesta_Read
  imports Vesta_Shell
begin

text \<open>
  Evidence-backed reads of the Vesta perimeter (\<^verbatim>\<open>msb_v3/vesta/read.py\<close>): one request from its bind to the recorded
  content, and the quarantine of a read that fails.
\<close>

section \<open>The service\<close>

datatype read_outcome =
    Read_Denied policy_decision
  | Read_Quarantined string
  | Read_Completed read_result

fun content_bytes :: "file_content \<Rightarrow> string" where
  \<comment> \<open>\<^verbatim>\<open>_content_bytes\<close>\<close>
  "content_bytes (Utf8_Text b) = b"
| "content_bytes (Base64_Of b) = b"

fun encoding_name :: "file_content \<Rightarrow> string" where
  "encoding_name (Utf8_Text b) = ''utf-8''"
| "encoding_name (Base64_Of b) = ''base64''"

definition sandbox_read :: "'c vesta_env \<Rightarrow> string \<Rightarrow> ('c, read_result) vesta_eff" where
  \<comment> \<open>reading, and the comparison of the digest with the content returned\<close>
  "sandbox_read env requested s = (case read_scoped (ve_hash env) (ve_limit env) (ve_root env) (vs_files s) requested of
     Inl x \<Rightarrow> (Inl (File_Fault x), s)
   | Inr r \<Rightarrow> if rd_sha r \<noteq> ve_hash env (content_bytes (rd_content r)) then (Inl (Evidence_Fault Hash_Changed), s) else (Inr r, s))"

fun caught_read :: "vesta_fault \<Rightarrow> bool" where
  "caught_read (File_Fault x) = violation x"
| "caught_read (Evidence_Fault e) = (e \<noteq> Evidence_Os)"
| "caught_read x = is_lifecycle x"

definition read_verification :: "read_result \<Rightarrow> json" where
  "read_verification r = obj [(''ok'', JBool True), (''method'', JStr ''file_exists_size_and_sha256''), (''sha256'', JStr (rd_sha r))]"

definition try_read :: "'c vesta_env \<Rightarrow> (string \<times> json) list \<Rightarrow> string \<Rightarrow> string \<Rightarrow> ('c, read_outcome) vesta_eff" where
  "try_read env who t requested =
     andthen (sandbox_read env requested) (\<lambda>r.
     let shown = join_with ''/'' (rd_path r) in
     andthen (add_bytes env (content_bytes (rd_content r)) ''vesta.file_read_content''
       (obj (who @ [(''target_path'', JStr shown), (''sha256'', JStr (rd_sha r))]))) (\<lambda>_.
     andthen (add_json env (obj [(''path'', JStr shown), (''size'', JInt (int (rd_size r))), (''sha256'', JStr (rd_sha r)),
         (''encoding'', JStr (encoding_name (rd_content r)))]) ''vesta.file_read_receipt'' (obj who)) (\<lambda>_.
     andthen (save_refs env t) (\<lambda>_.
     andthen (move_with_refs env t ''VERIFYING'' [] [(''verification'', read_verification r)]) (\<lambda>_.
     andthen (asks vs_refs) (\<lambda>refs.
     andthen (vs_audit env ''execution.verified'' (obj (who @ [(''verification'', read_verification r), (''evidence_refs'', refs_json refs)]))) (\<lambda>_.
     andthen (move_with_refs env t ''COMPLETED'' [] []) (\<lambda>_.
     ret (Read_Completed r)))))))))"

definition handle_read :: "'c vesta_env \<Rightarrow> (string \<times> json) list \<Rightarrow> string \<Rightarrow> vesta_fault \<Rightarrow> ('c, read_outcome) vesta_eff" where
  "handle_read env who t x =
     (if \<not> caught_read x then fail_with x
      else andthen (note_quarantine env t (ve_text env x) ''read verification failed; operator review required'' []) (\<lambda>_.
        andthen (asks vs_refs) (\<lambda>refs.
        andthen (vs_audit env ''execution.failed'' (obj (who @ [(''error'', JStr (ve_text env x)), (''evidence_refs'', refs_json refs)]))) (\<lambda>_.
        ret (Read_Quarantined (ve_text env x))))))"

definition execute_read :: "'c vesta_env \<Rightarrow> string \<Rightarrow> string \<Rightarrow> string \<Rightarrow> string \<Rightarrow> string \<Rightarrow> ('c, read_outcome) vesta_eff" where
  \<comment> \<open>\<^verbatim>\<open>execute\<close>: actor, the ids drawn for bind and task, session, path\<close>
  "execute_read env actor b t session requested =
     (let bnd = make_bind b t session [''filesystem.read''] actor 120 (ve_now env) (ve_version env);
          who = [(''bind_id'', JStr b), (''task_id'', JStr t)];
          d = authorize_file_read (ve_now env) bnd
      in
      andthen (start_lists []) (\<lambda>_.
      andthen (add_json env (obj (who @ [(''target_path'', JStr requested), (''capability'', JStr ''filesystem.read'')]))
        ''vesta.file_read_request'' (obj who)) (\<lambda>_.
      andthen (asks vs_refs) (\<lambda>refs.
      andthen (on_tasks (create_vtask bnd [(''target_path'', JStr requested), (''evidence_refs'', refs_json refs)] (ve_now env))) (\<lambda>_.
      andthen (vs_audit env ''request.received'' (obj (who @ [(''actor'', JStr actor), (''capability'', JStr ''filesystem.read''),
        (''target_path'', JStr requested), (''evidence_refs'', refs_json refs)]))) (\<lambda>_.
      andthen (move_with_refs env t ''AUTHENTICATED'' [] []) (\<lambda>_.
      andthen (vs_move env t ''PLANNED'' [] (obj [(''planner'', JStr ''vesta-file-read'')])) (\<lambda>_.
      andthen (add_json env (decision_json d) ''vesta.file_read_policy'' (obj who)) (\<lambda>_.
      andthen (save_refs env t) (\<lambda>_.
      andthen (asks vs_refs) (\<lambda>refs.
      andthen (vs_audit env ''authorization.decided'' (obj (who @ [(''evidence_refs'', refs_json refs), (''decision'', JStr (verdict_name (pd_verdict d))),
        (''risk_class'', JStr (pd_risk d)), (''capabilities'', JList (map JStr (pd_capabilities d))),
        (''reasons'', JList (map JStr (pd_reasons d))), (''policy_version'', JStr (pd_version d))]))) (\<lambda>_.
      if pd_verdict d \<noteq> ALLOW
      then andthen (move_with_refs env t ''DENIED'' (join_with ''; '' (pd_reasons d)) []) (\<lambda>_. ret (Read_Denied d))
      else
      andthen (move_with_refs env t ''AUTHORIZED'' [] []) (\<lambda>_.
      andthen (move_with_refs env t ''EXECUTING'' [] []) (\<lambda>_.
      if ve_armed env
      then andthen (move_with_refs env t ''QUARANTINED'' ''kill switch armed before read'' []) (\<lambda>_. ret (Read_Quarantined ''kill switch armed''))
      else rescue (try_read env who t requested) (handle_read env who t)))))))))))))))"

section \<open>Evidence grows\<close>

lemma read_evidence_mono:
  assumes "read_evidence H io i d = Inr c"
  shows "read_evidence H io i (snd (record_bytes H io now data ty meta d)) = Inr c"
proof -
  obtain r where r: "row_of ev_id i (ed_rows d) = Some r" "ed_blobs d (ev_sha r) = Some c" "eo_readable io (ev_sha r)" "H c = ev_sha r"
    using assms by (auto simp: read_evidence_def get_evidence_def hash_blob_def result_simps split: option.splits if_splits)
  have stored: "row_of ev_id i (ed_rows d1) = Some r \<and> ed_blobs d1 (ev_sha r) = Some c" if "store_blob H io data d = Inr d1" for d1
    using that r by (auto simp: store_blob_def Let_def result_simps split: option.splits if_splits)
  have "row_of ev_id i (ed_rows (insert_evidence q d1)) = Some r \<and> ed_blobs (insert_evidence q d1) (ev_sha r) = Some c"
    if "store_blob H io data d = Inr d1" for d1 q
    using stored [OF that] by (auto simp: insert_evidence_def row_of_append_end split: option.splits)
  with r show ?thesis
    by (auto simp: record_bytes_def Let_def read_evidence_def get_evidence_def hash_blob_def split: sum.splits)
qed

definition holds_evidence :: "'c vesta_env \<Rightarrow> string option \<Rightarrow> 'c vesta \<Rightarrow> bool" where
  \<comment> \<open>some bytes with the digest can be read back\<close>
  "holds_evidence env h s \<longleftrightarrow> wf_evidence (vs_evidence s) \<and>
     (case h of None \<Rightarrow> True | Some g \<Rightarrow>
       \<exists>c. read_evidence (ve_hash env) (ve_eio env) (evidence_id g) (vs_evidence s) = Inr c \<and> ve_hash env c = g)"

lemma add_evidence: "add_bytes env data ty meta s = (r, s') \<Longrightarrow>
    vs_evidence s' = snd (record_bytes (ve_hash env) (ve_eio env) (ve_now env) data ty meta (vs_evidence s))"
  by (auto simp: add_bytes_def split: prod.splits sum.splits)

lemma keeps_evidence_steps [keeps_rules]:
  "keeps (holds_evidence env h) (vs_audit env ev p)" "keeps (holds_evidence env h) (on_tasks f)" "keeps (holds_evidence env h) (start_lists refs)"
  "keeps (holds_evidence env h) (sandbox_read env requested)"
  by (rule keepsI; auto simp: holds_evidence_def vs_audit_def on_tasks_def start_fields sandbox_read_def split: prod.splits option.splits sum.splits if_splits)+

lemma keeps_evidence_add [keeps_rules]: "keeps (holds_evidence env h) (add_bytes env data ty meta)"
proof (rule keepsI)
  fix s r s' assume s: "holds_evidence env h s" "add_bytes env data ty meta s = (r, s')"
  from s show "holds_evidence env h s'"
    unfolding holds_evidence_def add_evidence [OF s(2)] by (auto intro: wf_record read_evidence_mono split: option.splits)
qed

lemma keeps_read_fields [keeps_rules]:
  "keeps (files_are fs) (sandbox_read env requested)" "keeps (runs_in D) (sandbox_read env requested)"
  by (rule keepsI; auto simp: files_are_def runs_in_def sandbox_read_def split: sum.splits if_splits)+

lemma keeps_execute_read:
  "keeps (files_are fs) (execute_read env actor b t session requested)" "keeps (runs_in D) (execute_read env actor b t session requested)"
  unfolding execute_read_def try_read_def handle_read_def Let_def by (intro keeps_rules)+

section \<open>Properties\<close>

lemma sandbox_read_valid:
  "valid (\<lambda>s. files_are fs s \<and> holds_evidence env None s) (sandbox_read env requested)
     (\<lambda>r s. (files_are fs s \<and> holds_evidence env None s) \<and>
        read_scoped (ve_hash env) (ve_limit env) (ve_root env) fs requested = Inr r \<and> rd_sha r = ve_hash env (content_bytes (rd_content r)))
     (\<lambda>_ _. True)"
  by (rule validI) (auto simp: sandbox_read_def files_are_def split: sum.splits if_splits)

lemma recorded_content_held:
  assumes "add_bytes env data ty meta s = (Inr i, s')" "wf_evidence (vs_evidence s)"
  shows "holds_evidence env (Some (ve_hash env data)) s'"
proof -
  obtain r ok d where d: "record_bytes (ve_hash env) (ve_eio env) (ve_now env) data ty meta (vs_evidence s) = (Inr (r, ok), d)" "vs_evidence s' = d"
    using assms(1) by (auto simp: add_bytes_def split: prod.splits sum.splits)
  from recorded_evidence_reads_back [OF d(1) assms(2)] wf_record [OF assms(2), of "ve_hash env" "ve_eio env" "ve_now env" data ty meta] d
  show ?thesis by (auto simp: holds_evidence_def)
qed

lemma move_reaches: "valid (\<lambda>_. True) (vs_move env i st why meta) (\<lambda>_ s. \<exists>t. row_of vt_id i (td_tasks (vs_tasks s)) = Some t \<and> vt_state t = st) (\<lambda>_ _. True)"
proof (rule validI)
  fix s u s' assume "vs_move env i st why meta s = (Inr u, s')"
  then obtain t s1 e where m: "on_tasks (move_task i st why meta (ve_now env)) s = (Inr t, s1)"
    and a: "vs_audit env ''task.transition'' e s1 = (Inr u, s')" by (auto simp: vs_move_def andthen_Inr)
  from m have "move_task i st why meta (ve_now env) (vs_tasks s) = (Inr t, vs_tasks s1)"
    by (auto simp: on_tasks_def split: prod.splits sum.splits)
  then have "\<exists>t. row_of vt_id i (td_tasks (vs_tasks s1)) = Some t \<and> vt_state t = st"
    by (rule move_task_Inr) (auto simp: vesta_tasks.row_of_update)
  with audit_fields [OF a] show "\<exists>t. row_of vt_id i (td_tasks (vs_tasks s')) = Some t \<and> vt_state t = st" by simp
qed simp

definition read_evidenced :: "'c vesta_env \<Rightarrow> files \<Rightarrow> string \<Rightarrow> string \<Rightarrow> read_result \<Rightarrow> 'c vesta \<Rightarrow> bool" where
  "read_evidenced env fs t requested r s \<longleftrightarrow> files_are fs s \<and>
     read_scoped (ve_hash env) (ve_limit env) (ve_root env) fs requested = Inr r \<and> holds_evidence env (Some (rd_sha r)) s \<and>
     (\<exists>q. row_of vt_id t (td_tasks (vs_tasks s)) = Some q \<and> vt_state q = ''COMPLETED'')"

lemma try_read_valid:
  "valid (\<lambda>s. files_are fs s \<and> holds_evidence env None s) (try_read env who t requested)
     (\<lambda>out s. case out of Read_Completed r \<Rightarrow> read_evidenced env fs t requested r s | _ \<Rightarrow> True) (\<lambda>_ _. True)"
  unfolding try_read_def Let_def
proof (rule valid_andthen [OF sandbox_read_valid])
  fix r
  let ?ok = "read_scoped (ve_hash env) (ve_limit env) (ve_root env) fs requested = Inr r \<and> rd_sha r = ve_hash env (content_bytes (rd_content r))"
  let ?J = "\<lambda>s. files_are fs s \<and> holds_evidence env (Some (rd_sha r)) s \<and> ?ok"
  have add: "valid (\<lambda>s. (files_are fs s \<and> holds_evidence env None s) \<and> ?ok) (add_bytes env (content_bytes (rd_content r)) ty meta) (\<lambda>_. ?J) (\<lambda>_ _. True)" for ty meta
    by (rule validI) (auto simp: holds_evidence_def files_are_def dest: add_fields recorded_content_held)
  have final: "valid ?J (andthen (move_with_refs env t ''COMPLETED'' [] []) (\<lambda>_. ret (Read_Completed r)))
      (\<lambda>out s. case out of Read_Completed r \<Rightarrow> read_evidenced env fs t requested r s | _ \<Rightarrow> True) (\<lambda>_ _. True)"
  proof (rule validI)
    fix s out s' assume J: "?J s" and m: "andthen (move_with_refs env t ''COMPLETED'' [] []) (\<lambda>_. ret (Read_Completed r)) s = (Inr out, s')"
    from m obtain meta where mv: "vs_move env t ''COMPLETED'' [] meta s = (Inr (), s')" and out: "out = Read_Completed r"
      by (auto simp: move_with_refs_def andthen_Inr)
    have "keeps ?J (vs_move env t ''COMPLETED'' [] meta)" unfolding vs_move_def by (intro keeps_conj keeps_const keeps_rules)
    from keepsD [OF this J mv] valid_Inr [OF move_reaches TrueI mv]
    show "case out of Read_Completed r \<Rightarrow> read_evidenced env fs t requested r s' | _ \<Rightarrow> True"
      unfolding out read_outcome.case read_evidenced_def by blast
  qed simp
  show "valid (\<lambda>s. (files_are fs s \<and> holds_evidence env None s) \<and> ?ok)
     (andthen (add_bytes env (content_bytes (rd_content r)) ''vesta.file_read_content''
       (obj (who @ [(''target_path'', JStr (join_with ''/'' (rd_path r))), (''sha256'', JStr (rd_sha r))]))) (\<lambda>_.
     andthen (add_json env (obj [(''path'', JStr (join_with ''/'' (rd_path r))), (''size'', JInt (int (rd_size r))), (''sha256'', JStr (rd_sha r)),
         (''encoding'', JStr (encoding_name (rd_content r)))]) ''vesta.file_read_receipt'' (obj who)) (\<lambda>_.
     andthen (save_refs env t) (\<lambda>_.
     andthen (move_with_refs env t ''VERIFYING'' [] [(''verification'', read_verification r)]) (\<lambda>_.
     andthen (asks vs_refs) (\<lambda>refs.
     andthen (vs_audit env ''execution.verified'' (obj (who @ [(''verification'', read_verification r), (''evidence_refs'', refs_json refs)]))) (\<lambda>_.
     andthen (move_with_refs env t ''COMPLETED'' [] []) (\<lambda>_.
     ret (Read_Completed r)))))))))
     (\<lambda>out s. case out of Read_Completed r \<Rightarrow> read_evidenced env fs t requested r s | _ \<Rightarrow> True) (\<lambda>_ _. True)"
    by (rule valid_andthen [OF add], rule valid_step, (intro keeps_conj keeps_const keeps_rules)[1],
        rule valid_step, (intro keeps_conj keeps_const keeps_rules)[1], rule valid_step, (intro keeps_conj keeps_const keeps_rules)[1],
        rule valid_step, (intro keeps_conj keeps_const keeps_rules)[1], rule valid_step, (intro keeps_conj keeps_const keeps_rules)[1], rule final)
qed

lemma execute_read_valid:
  "valid (\<lambda>s. files_are fs s \<and> holds_evidence env None s) (execute_read env actor b t session requested)
     (\<lambda>out s. case out of Read_Completed r \<Rightarrow> \<not> ve_armed env \<and> read_evidenced env fs t requested r s | _ \<Rightarrow> True) (\<lambda>_ _. True)"
proof -
  let ?I = "\<lambda>s. files_are fs s \<and> holds_evidence env None s"
  let ?Q = "\<lambda>out s. case out of Read_Completed r \<Rightarrow> \<not> ve_armed env \<and> read_evidenced env fs t requested r s | _ \<Rightarrow> True"
  have body: "valid ?I (rescue (try_read env who t requested) (handle_read env who t)) ?Q (\<lambda>_ _. True)" if "\<not> ve_armed env" for who
  proof (rule valid_rescue)
    show "valid ?I (try_read env who t requested) ?Q (\<lambda>_ _. True)"
      by (rule valid_weaken [OF try_read_valid]) (use that in \<open>auto split: read_outcome.splits\<close>)
    show "valid (\<lambda>_. True) (handle_read env who t e) ?Q (\<lambda>_ _. True)" for e
      by (rule validI) (auto simp: handle_read_def andthen_Inr split: if_splits)
  qed
  show ?thesis
    unfolding execute_read_def Let_def
    by (rule valid_step | rule valid_if | (rule body, assumption) | (rule valid_ret, simp) | (intro keeps_conj keeps_rules)[1])+
qed

text \<open>C21: A completed read is evidenced: the kill switch was off, the answer is what the file inside the root holds, nothing in
  the sandbox has changed, bytes with the reported digest can be read back from the evidence, and the task is COMPLETED.\<close>

theorem completed_reads_are_evidenced:
  assumes "execute_read env actor b t session requested s = (Inr (Read_Completed r), s')" "wf_evidence (vs_evidence s)"
  shows "\<not> ve_armed env \<and> read_evidenced env (vs_files s) t requested r s'"
  using valid_Inr [OF execute_read_valid _ assms(1)] assms(2) by (simp add: files_are_def holds_evidence_def)

definition demo_reading :: "(vesta_fault, read_outcome) result \<times> nat vesta" where
  "demo_reading = execute_read demo_vesta_env ''op'' ''b'' ''t'' ''s'' ''f'' (empty_vesta demo_store 0)"

lemma demo_reads: "case demo_reading of (Inr (Read_Completed r), s) \<Rightarrow> rd_content r = Utf8_Text ''old'' | _ \<Rightarrow> False"
  by code_simp

theorem completed_reads_are_evidenced_witness:
  "\<exists>r s'. demo_reading = (Inr (Read_Completed r), s') \<and> read_evidenced demo_vesta_env demo_store ''t'' ''f'' r s'"
proof -
  obtain r s' where a: "execute_read demo_vesta_env ''op'' ''b'' ''t'' ''s'' ''f'' (empty_vesta demo_store 0) = (Inr (Read_Completed r), s')"
    using demo_reads by (auto simp: demo_reading_def split: prod.splits sum.splits read_outcome.splits)
  have w: "wf_evidence (vs_evidence (empty_vesta demo_store (0 :: nat)))" and f: "vs_files (empty_vesta demo_store (0 :: nat)) = demo_store"
    by (simp_all add: empty_vesta_def wf_evidence_def)
  from completed_reads_are_evidenced [OF a w] show ?thesis unfolding demo_reading_def a f by blast
qed

text \<open>The policy's refusals of a read are never reached from here: the bind it is asked about was made with the one
  capability it allows, and has not expired.\<close>

theorem file_reads_are_always_allowed:
  "pd_verdict (authorize_file_read now (make_bind b t session [''filesystem.read''] actor 120 now version)) = ALLOW"
  by (simp add: authorize_file_read_def make_bind_def outside_def KNOWN_CAPABILITIES_def bind_expired_def decide_with_def Let_def)

end
