(* ===== verification/Vesta_Watchdog.thy ===== *)
theory Vesta_Watchdog
  imports Vesta_Write
begin

text \<open>
  The approval watchdog (\<^verbatim>\<open>msb_v3/vesta/approval_watchdog.py\<close>): it classifies every approved write against the
  state of its task, and voids the approvals whose execution never started, best effort, one after the other.
\<close>

section \<open>The scan\<close>

definition TERMINAL_TASK_STATES :: "string list" where
  "TERMINAL_TASK_STATES = [''COMPLETED'', ''DENIED'', ''QUARANTINED'']"

definition RECOVERABLE_TASK_STATES :: "string list" where
  "RECOVERABLE_TASK_STATES = [''EXECUTING'', ''VERIFYING'', ''RECOVERING'']"

datatype watch_class = Watch_Ok | Watch_In_Flight | Watch_Dangling

record watch_entry =
  wd_approval :: string
  wd_task :: string
  wd_path :: string
  wd_state :: string
  wd_class :: watch_class

definition classify_state :: "string \<Rightarrow> watch_class" where
  "classify_state st =
     (if st \<in> set TERMINAL_TASK_STATES then Watch_Ok
      else if st \<in> set RECOVERABLE_TASK_STATES then Watch_In_Flight else Watch_Dangling)"

definition classify_row :: "task_db \<Rightarrow> write_contract ack \<Rightarrow> watch_entry" where
  "classify_row d a =
     (let st = (case get_task (ak_task a) d of Inl _ \<Rightarrow> ''MISSING'' | Inr t \<Rightarrow> vt_state t)
      in \<lparr>wd_approval = ak_id a, wd_task = ak_task a, wd_path = wc_path (ak_contract a), wd_state = st, wd_class = classify_state st\<rparr>)"

definition approved_rows :: "write_contract ack list \<Rightarrow> write_contract ack list" where
  "approved_rows tbl = filter (\<lambda>a. ak_status a = Approved) tbl"

definition scan :: "'c vesta \<Rightarrow> watch_entry list" where
  \<comment> \<open>the three lists of the report are its parts by class\<close>
  "scan s = map (classify_row (vs_tasks s)) (approved_rows (vs_writes s))"

definition dangling :: "'c vesta \<Rightarrow> watch_entry list" where
  "dangling s = filter (\<lambda>e. wd_class e = Watch_Dangling) (scan s)"

section \<open>Voiding\<close>

record watch_action =
  wa_entry :: watch_entry
  wa_void_error :: "ack_fault option"         \<comment> \<open>None: voided\<close>
  wa_task_error :: "task_fault option"        \<comment> \<open>None: quarantined\<close>
  wa_audit_failed :: bool

definition attempt :: "('c, 'a) vesta_eff \<Rightarrow> ('c, vesta_fault option) vesta_eff" where
  \<comment> \<open>run, and note what was raised\<close>
  "attempt m = rescue (andthen m (\<lambda>_. ret None)) (\<lambda>x. ret (Some x))"

definition watch_reason :: string where
  "watch_reason = ''dangling approval: task never reached a terminal state (watchdog)''"

definition void_one :: "'c vesta_env \<Rightarrow> string \<Rightarrow> watch_entry \<Rightarrow> ('c, watch_action) vesta_eff" where
  \<comment> \<open>a KeyError on the state of the task escapes\<close>
  "void_one env operator e =
     andthen (attempt (on_writes (void_ack (wd_approval e) watch_reason (ve_now env)))) (\<lambda>v.
     andthen (if wd_task e \<noteq> [] \<and> wd_task e \<noteq> ''MISSING''
              then attempt (on_tasks (move_task (wd_task e) ''QUARANTINED'' watch_reason (JObj []) (ve_now env)))
              else ret (Some (Task_Fault Unknown_Task))) (\<lambda>t.
     if (case t of Some x \<Rightarrow> \<not> is_lifecycle x | None \<Rightarrow> False) then fail_with (the t)
     else andthen (attempt (vs_audit env ''approval.voided'' (obj [(''approval_id'', JStr (wd_approval e)), (''task_id'', JStr (wd_task e)),
            (''reason'', JStr watch_reason), (''source'', JStr ''watchdog''), (''operator'', JStr operator)]))) (\<lambda>a.
     ret \<lparr>wa_entry = e, wa_void_error = (case v of Some (Ack_Fault x) \<Rightarrow> Some x | _ \<Rightarrow> None),
          wa_task_error = (case t of Some (Task_Fault x) \<Rightarrow> Some x | _ \<Rightarrow> None), wa_audit_failed = (a \<noteq> None)\<rparr>)))"

fun void_all :: "'c vesta_env \<Rightarrow> string \<Rightarrow> watch_entry list \<Rightarrow> ('c, watch_action list) vesta_eff" where
  "void_all env operator [] = ret []"
| "void_all env operator (e # es) = andthen (void_one env operator e) (\<lambda>a. andthen (void_all env operator es) (\<lambda>as. ret (a # as)))"

definition watch_run :: "'c vesta_env \<Rightarrow> string \<Rightarrow> bool \<Rightarrow> ('c, watch_action list) vesta_eff" where
  \<comment> \<open>\<^verbatim>\<open>run\<close>; the second argument is \<^verbatim>\<open>dry_run\<close>\<close>
  "watch_run env operator dry = (if dry then ret [] else andthen (asks dangling) (void_all env operator))"

section \<open>Laws\<close>

definition known_states :: "'c vesta \<Rightarrow> bool" where
  \<comment> \<open>the task table holds states of the matrix\<close>
  "known_states s \<longleftrightarrow> (\<forall>i t. row_of vt_id i (td_tasks (vs_tasks s)) = Some t \<longrightarrow> vt_state t \<in> set TASK_STATES)"

lemma attempt_writes: "attempt (on_writes f) s =
    (Inr (case fst (f (vs_writes s)) of Inl e \<Rightarrow> Some (Ack_Fault e) | Inr _ \<Rightarrow> None), s\<lparr>vs_writes := snd (f (vs_writes s))\<rparr>)"
  by (auto simp: attempt_def rescue_def andthen_def on_writes_def split: prod.splits sum.splits)

lemma attempt_tasks: "attempt (on_tasks f) s =
    (Inr (case fst (f (vs_tasks s)) of Inl e \<Rightarrow> Some (Task_Fault e) | Inr _ \<Rightarrow> None), s\<lparr>vs_tasks := snd (f (vs_tasks s))\<rparr>)"
  by (auto simp: attempt_def rescue_def andthen_def on_tasks_def split: prod.splits sum.splits)

lemma attempt_audit: "\<exists>x s'. attempt (vs_audit env ev p) s = (Inr x, s') \<and> vs_writes s' = vs_writes s \<and> vs_tasks s' = vs_tasks s"
proof -
  obtain r s1 where a: "vs_audit env ev p s = (r, s1)" by (cases "vs_audit env ev p s")
  from audit_fields [OF a] show ?thesis by (cases r) (auto simp: attempt_def rescue_def andthen_def a)
qed

lemma states_transition: "st \<in> set TASK_STATES \<Longrightarrow> map_of TRANSITIONS st \<noteq> None"
  by (auto simp: TASK_STATES_def TRANSITIONS_def)

lemma move_known:
  assumes "known_states s" "st \<in> set TASK_STATES"
  shows "fst (move_task i st why meta now (vs_tasks s)) \<noteq> Inl (Bad_State x)"
    and "known_states (s\<lparr>vs_tasks := snd (move_task i st why meta now (vs_tasks s))\<rparr>)"
proof -
  show "fst (move_task i st why meta now (vs_tasks s)) \<noteq> Inl (Bad_State x)"
  proof
    assume bad: "fst (move_task i st why meta now (vs_tasks s)) = Inl (Bad_State x)"
    then obtain t where "row_of vt_id i (td_tasks (vs_tasks s)) = Some t" "map_of TRANSITIONS (vt_state t) = None"
      by (auto simp: move_task_def Let_def split: if_splits option.splits)
    with assms(1) states_transition [of "vt_state t"] show False by (auto simp: known_states_def)
  qed
  show "known_states (s\<lparr>vs_tasks := snd (move_task i st why meta now (vs_tasks s))\<rparr>)"
    using assms by (auto simp: move_task_def Let_def known_states_def vesta_tasks.row_of_update split: option.splits if_splits)
qed

text \<open>One approval: it is void afterwards, the other approvals are as they were, and no task comes alive.\<close>

lemma void_one_ok:
  assumes "known_states s"
  shows "\<exists>a s'. void_one env operator e s = (Inr a, s') \<and> known_states s' \<and>
    vs_writes s' = snd (void_ack (wd_approval e) watch_reason (ve_now env) (vs_writes s)) \<and>
    (\<forall>j t. row_of vt_id j (td_tasks (vs_tasks s)) = Some t \<longrightarrow>
       (\<exists>t'. row_of vt_id j (td_tasks (vs_tasks s')) = Some t' \<and> (vt_state t' = vt_state t \<or> vt_state t' = ''QUARANTINED'')))"
proof -
  let ?s1 = "s\<lparr>vs_writes := snd (void_ack (wd_approval e) watch_reason (ve_now env) (vs_writes s))\<rparr>"
  let ?m = "move_task (wd_task e) ''QUARANTINED'' watch_reason (JObj []) (ve_now env) (vs_tasks s)"
  let ?audit = "vs_audit env ''approval.voided'' (obj [(''approval_id'', JStr (wd_approval e)), (''task_id'', JStr (wd_task e)),
            (''reason'', JStr watch_reason), (''source'', JStr ''watchdog''), (''operator'', JStr operator)])"
  have q: "''QUARANTINED'' \<in> set TASK_STATES" by (simp add: TASK_STATES_def)
  have rows: "\<exists>t'. row_of vt_id j (td_tasks (snd ?m)) = Some t' \<and> (vt_state t' = vt_state t \<or> vt_state t' = ''QUARANTINED'')"
    if "row_of vt_id j (td_tasks (vs_tasks s)) = Some t" for j t
    using that by (auto simp: move_task_def Let_def vesta_tasks.row_of_update split: option.splits)
  have k1: "known_states ?s1" using assms by (simp add: known_states_def)
  have k2: "known_states (?s1\<lparr>vs_tasks := snd ?m\<rparr>)" using move_known(2) [OF k1 q] by simp
  have life: "is_lifecycle (Task_Fault x)" if "fst ?m = Inl x" for x
    using move_known(1) [OF assms q] that by (cases x) auto
  show ?thesis
  proof (cases "wd_task e \<noteq> [] \<and> wd_task e \<noteq> ''MISSING''")
    case True
    obtain x s3 where a: "attempt ?audit (?s1\<lparr>vs_tasks := snd ?m\<rparr>) = (Inr x, s3)" "vs_writes s3 = vs_writes ?s1" "vs_tasks s3 = snd ?m"
      using attempt_audit [of env _ _ "?s1\<lparr>vs_tasks := snd ?m\<rparr>"] by fastforce
    have "known_states s3" using k2 a(3) by (simp add: known_states_def)
    with True a rows life show ?thesis
      by (auto simp: void_one_def andthen_def attempt_writes attempt_tasks split: sum.splits)
  next
    case False
    obtain x s3 where a: "attempt ?audit ?s1 = (Inr x, s3)" "vs_writes s3 = vs_writes ?s1" "vs_tasks s3 = vs_tasks ?s1"
      using attempt_audit [of env _ _ ?s1] by blast
    have "known_states s3" using k1 a(3) by (simp add: known_states_def)
    with False a show ?thesis by (auto simp: void_one_def andthen_def attempt_writes)
  qed
qed

definition only_quarantines :: "'c vesta \<Rightarrow> 'c vesta \<Rightarrow> bool" where
  "only_quarantines s s' \<longleftrightarrow> (\<forall>j t. row_of vt_id j (td_tasks (vs_tasks s)) = Some t \<longrightarrow>
     (\<exists>t'. row_of vt_id j (td_tasks (vs_tasks s')) = Some t' \<and> (vt_state t' = vt_state t \<or> vt_state t' = ''QUARANTINED'')))"

lemma only_quarantines_trans: "only_quarantines s s1 \<Longrightarrow> only_quarantines s1 s2 \<Longrightarrow> only_quarantines s s2"
  unfolding only_quarantines_def by metis

lemma void_all_ok:
  "known_states s \<Longrightarrow> \<exists>as s'. void_all env operator es s = (Inr as, s') \<and> length as = length es \<and> only_quarantines s s' \<and>
     vs_writes s' = fold (\<lambda>e tbl. snd (void_ack (wd_approval e) watch_reason (ve_now env) tbl)) es (vs_writes s)"
proof (induction es arbitrary: s)
  case Nil
  then show ?case by (simp add: only_quarantines_def)
next
  case (Cons e es)
  from void_one_ok [OF Cons.prems, of env operator e] obtain a s1 where
    one: "void_one env operator e s = (Inr a, s1)" "known_states s1" "only_quarantines s s1"
      "vs_writes s1 = snd (void_ack (wd_approval e) watch_reason (ve_now env) (vs_writes s))"
    unfolding only_quarantines_def by blast
  from Cons.IH [OF one(2)] obtain as s2 where
    all: "void_all env operator es s1 = (Inr as, s2)" "length as = length es" "only_quarantines s1 s2"
      "vs_writes s2 = fold (\<lambda>e tbl. snd (void_ack (wd_approval e) watch_reason (ve_now env) tbl)) es (vs_writes s1)" by blast
  from only_quarantines_trans [OF one(3) all(3)] one(1,4) all(1,2,4) show ?case by (simp add: andthen_def)
qed

text \<open>What is still approved after some approvals were voided was approved before, and is none of them.\<close>

lemma void_ack_approved:
  assumes "distinct (map ak_id tbl)" "a \<in> set (snd (void_ack i why now tbl))" "ak_status a = Approved"
  shows "a \<in> set tbl \<and> ak_id a \<noteq> i"
proof (cases "row_of ak_id i tbl")
  case None
  with assms show ?thesis by (auto simp: void_ack_def ack_rows.row_of_None)
next
  case (Some b)
  have same: "c = b" if "c \<in> set tbl" "ak_id c = i" for c
    using ack_rows.row_of_key [OF Some] that assms(1) by (auto simp: distinct_map dest: inj_onD)
  show ?thesis
  proof (cases "ak_status b = Approved")
    case True
    with Some assms show ?thesis by (auto simp: void_ack_def Let_def row_update_def)
  next
    case False
    with Some assms same show ?thesis by (auto simp: void_ack_def)
  qed
qed

lemma void_ack_ids: "map ak_id (snd (void_ack i why now tbl)) = map ak_id tbl"
  by (auto simp: void_ack_def Let_def ack_rows.map_key_update split: option.splits)

lemma fold_void_approved:
  assumes "distinct (map ak_id tbl)" "a \<in> set (fold (\<lambda>e tbl. snd (void_ack (wd_approval e) why now tbl)) es tbl)" "ak_status a = Approved"
  shows "a \<in> set tbl \<and> ak_id a \<notin> wd_approval ` set es"
  using assms
proof (induction es arbitrary: tbl)
  case (Cons e es)
  have d: "distinct (map ak_id (snd (void_ack (wd_approval e) why now tbl)))" using Cons.prems(1) by (simp only: void_ack_ids)
  from Cons.IH [OF d] Cons.prems(2,3) have "a \<in> set (snd (void_ack (wd_approval e) why now tbl)) \<and> ak_id a \<notin> wd_approval ` set es" by simp
  with void_ack_approved [OF Cons.prems(1) _ Cons.prems(3)] show ?case by auto
qed simp

lemma dangling_row: "e \<in> set (dangling s) \<longleftrightarrow>
    (\<exists>a \<in> set (vs_writes s). ak_status a = Approved \<and> e = classify_row (vs_tasks s) a \<and> wd_class e = Watch_Dangling)"
  by (auto simp: dangling_def scan_def approved_rows_def)

lemma settled_stays:
  assumes "only_quarantines s s'" "wd_class (classify_row (vs_tasks s) a) \<noteq> Watch_Dangling"
  shows "wd_class (classify_row (vs_tasks s') a) \<noteq> Watch_Dangling"
proof (cases "row_of vt_id (ak_task a) (td_tasks (vs_tasks s))")
  case None
  with assms(2) show ?thesis
    by (simp add: classify_row_def get_task_def classify_state_def TERMINAL_TASK_STATES_def RECOVERABLE_TASK_STATES_def)
next
  case (Some t)
  with assms(1) obtain t' where "row_of vt_id (ak_task a) (td_tasks (vs_tasks s')) = Some t'" "vt_state t' = vt_state t \<or> vt_state t' = ''QUARANTINED''"
    unfolding only_quarantines_def by blast
  moreover have "classify_state (vt_state t) \<noteq> Watch_Dangling" using Some assms(2) by (simp add: classify_row_def get_task_def Let_def)
  moreover have "classify_state ''QUARANTINED'' \<noteq> Watch_Dangling" by (simp add: classify_state_def TERMINAL_TASK_STATES_def)
  ultimately show ?thesis by (auto simp: classify_row_def get_task_def Let_def)
qed

section \<open>Properties\<close>

text \<open>C13: The watchdog leaves nothing dangling: on a store whose tasks are in known states a run always reports, one action
  for every approval it found dangling, and a scan afterwards finds none, whatever the audit chain does; every task is in
  the state it was in, or quarantined.\<close>

theorem watchdog_leaves_nothing_dangling:
  assumes "known_states s" "distinct (map ak_id (vs_writes s))"
  shows "\<exists>as s'. watch_run env operator False s = (Inr as, s') \<and> length as = length (dangling s) \<and> dangling s' = [] \<and> only_quarantines s s'"
proof -
  from void_all_ok [OF assms(1), of env operator "dangling s"] obtain as s' where
    run: "void_all env operator (dangling s) s = (Inr as, s')" "length as = length (dangling s)" "only_quarantines s s'"
      "vs_writes s' = fold (\<lambda>e tbl. snd (void_ack (wd_approval e) watch_reason (ve_now env) tbl)) (dangling s) (vs_writes s)" by blast
  have "e \<notin> set (dangling s')" for e
  proof
    assume "e \<in> set (dangling s')"
    then obtain a where a: "a \<in> set (vs_writes s')" "ak_status a = Approved" "wd_class (classify_row (vs_tasks s') a) = Watch_Dangling"
      unfolding dangling_row by blast
    from fold_void_approved [OF assms(2) a(1) [unfolded run(4)] a(2)] have b: "a \<in> set (vs_writes s)" "ak_id a \<notin> wd_approval ` set (dangling s)" by auto
    have "wd_class (classify_row (vs_tasks s) a) = Watch_Dangling" using settled_stays [OF run(3)] a(3) by blast
    with a(2) b(1) have "classify_row (vs_tasks s) a \<in> set (dangling s)" unfolding dangling_row by blast
    then have "wd_approval (classify_row (vs_tasks s) a) \<in> wd_approval ` set (dangling s)" by (rule imageI)
    with b(2) show False by (simp add: classify_row_def Let_def)
  qed
  then have "dangling s' = []" by (metis list.set_intros(1) neq_Nil_conv)
  with run(1-3) show ?thesis by (simp add: watch_run_def andthen_def)
qed

text \<open>A crash of the audit chain between the decision and the execution is such a case: the run voids the approval and
  quarantines the task.\<close>

definition demo_crashed :: "nat vesta" where
  "demo_crashed = snd (approve_write (demo_vesta_env\<lparr>ve_app := failing_from 0\<rparr>) ''a'' ''op'' JNull demo_pending)"

theorem watchdog_leaves_nothing_dangling_witness:
  "length (dangling demo_crashed) = 1 \<and> dangling (snd (watch_run demo_vesta_env ''w'' False demo_crashed)) = []"
proof -
  have facts: "(map (\<lambda>e. (wd_approval e, wd_state e)) (dangling demo_crashed),
      map (\<lambda>t. (vt_id t, vt_state t)) (td_tasks (vs_tasks demo_crashed)), map ak_id (vs_writes demo_crashed)) =
    ([(''a'', ''WAITING_APPROVAL'')], [(''t'', ''WAITING_APPROVAL'')], [''a''])" by code_simp
  then have found: "map (\<lambda>e. (wd_approval e, wd_state e)) (dangling demo_crashed) = [(''a'', ''WAITING_APPROVAL'')]"
    and tasks: "map (\<lambda>t. (vt_id t, vt_state t)) (td_tasks (vs_tasks demo_crashed)) = [(''t'', ''WAITING_APPROVAL'')]"
    and ids: "map ak_id (vs_writes demo_crashed) = [''a'']" by simp_all
  have "known_states demo_crashed"
    using tasks by (auto simp: known_states_def row_of_def TASK_STATES_def split: if_splits)
  from watchdog_leaves_nothing_dangling [OF this, of demo_vesta_env "''w''"] ids found show ?thesis
    by (auto dest: arg_cong [of _ _ length])
qed

end
