(* ===== verification/Spec2Isabelle.thy ===== *)
theory Spec2Isabelle
  imports Core_RateLimit Cron_Parser Json Ledger_Merkle Ledger_Storage Ledger_Chain Ledger_AuditV2 Ledger_Migration
    Gov_KillSwitch Gov_Approval Gov_Budget Gov_Governor Gov_Guard Mission_Store Pytext Agent_Dag Agent_Verify Agent_Executor
    Agent_Gate Gov_Registry Gov_Decision Task_Lifecycle Task_Replay Cron_Store Cron_Scheduler Pyvalue Conv_Contract Conv_Predicates Conv_Ledger Conv_Producers Conv_Stream
    Conv_Executor Json_Ascii Ledger_Keys Ledger_Anchor Ledger_Timestamp Ledger_Notary
    Agent_Loop Node_Identity Node_Files Effects Node_Service Vesta_Tasks Vesta_Evidence Vesta_Write Vesta_Shell Vesta_Read Vesta_Watchdog
begin

text \<open>
  A verification development for the core of MSB v3, a governed agent runtime written in Python.
  Paths below are relative to \<^verbatim>\<open>src/src/\<close>.

  \<^bold>\<open>The program.\<close> Everything the runtime does on its own behalf is meant to pass governance and to leave evidence.
  Governance is the kill switch, the approval queue, the budget ledger and the convergence governor, which the guard
  consults in that order before an autonomous action, and the action gate with its capability inventory, which stands
  before every tool call of the agent. Evidence is the hash-chained audit ledger with its signed anchor, its notary
  log, its Merkle proofs and its migration to a second format. On these two stand the work itself: missions and their
  transition matrix, event-sourced tasks and their replay, scheduled jobs and their heartbeat, the agent's task graph
  and its executor, the agent's research loop, and task contracts with the claims and verdicts they produce. The
  governed stores reach the ledger through one operation, append, whose failure each of them treats in its own way:
  the mission store refuses, the kill switch reports, the task lifecycle goes on.

  \<^bold>\<open>Theories and sources.\<close>

  Foundations. \<^verbatim>\<open>Prelude\<close> (results with errors as values, Python strings, keyed tables, the locales
  \<^verbatim>\<open>keyed_table\<close> and \<^verbatim>\<open>lifecycle\<close>), \<^verbatim>\<open>Json\<close> and \<^verbatim>\<open>Json_Ascii\<close>
  (\<^verbatim>\<open>json.dumps\<close> in the forms the sources use, and its injectivity), \<^verbatim>\<open>Pytext\<close> and
  \<^verbatim>\<open>Pyvalue\<close> (text operations and the reading of decoded values).

  Ledger, \<^verbatim>\<open>msb_ledger/\<close>. \<^verbatim>\<open>Ledger_Chain\<close>: \<^verbatim>\<open>audit_chain.py\<close>, the rows, the append
  with its guards, verification, quarantine and repair. \<^verbatim>\<open>Ledger_Storage\<close>: \<^verbatim>\<open>storage_contract.py\<close>.
  \<^verbatim>\<open>Ledger_Merkle\<close>: \<^verbatim>\<open>merkle.py\<close>. \<^verbatim>\<open>Ledger_AuditV2\<close> and \<^verbatim>\<open>Ledger_Migration\<close>:
  \<^verbatim>\<open>audit_v2.py\<close>, \<^verbatim>\<open>audit_v1_export.py\<close>, \<^verbatim>\<open>migration.py\<close>. \<^verbatim>\<open>Ledger_Keys\<close> and
  \<^verbatim>\<open>Ledger_Anchor\<close>: \<^verbatim>\<open>signing.py\<close> and \<^verbatim>\<open>chain_anchor.py\<close>. \<^verbatim>\<open>Ledger_Timestamp\<close> and
  \<^verbatim>\<open>Ledger_Notary\<close>: \<^verbatim>\<open>timestamping.py\<close>, \<^verbatim>\<open>notary.py\<close> and the notary part of the anchor.

  Governance, \<^verbatim>\<open>msb_v3/governance/\<close>. \<^verbatim>\<open>Gov_KillSwitch\<close>, \<^verbatim>\<open>Gov_Approval\<close>, \<^verbatim>\<open>Gov_Budget\<close>,
  \<^verbatim>\<open>Gov_Governor\<close>, \<^verbatim>\<open>Gov_Guard\<close>: the files of those names. \<^verbatim>\<open>Gov_Registry\<close>:
  \<^verbatim>\<open>capability_registry.py\<close>, \<^verbatim>\<open>tool_manifest.py\<close>, \<^verbatim>\<open>capability_resolver.py\<close>. \<^verbatim>\<open>Gov_Decision\<close>:
  \<^verbatim>\<open>decision.py\<close> and \<^verbatim>\<open>shadow.py\<close>. \<^verbatim>\<open>Core_RateLimit\<close>: \<^verbatim>\<open>msb_v3/core/rate_limit.py\<close>.

  Work. \<^verbatim>\<open>Mission_Store\<close>: \<^verbatim>\<open>msb_v3/mission/\<close>. \<^verbatim>\<open>Task_Lifecycle\<close> and \<^verbatim>\<open>Task_Replay\<close>:
  \<^verbatim>\<open>msb_v3/tasks/\<close> and \<^verbatim>\<open>msb_v3/replay/engine.py\<close>. \<^verbatim>\<open>Cron_Parser\<close>, \<^verbatim>\<open>Cron_Store\<close>,
  \<^verbatim>\<open>Cron_Scheduler\<close>: \<^verbatim>\<open>msb_v3/cron/\<close>. \<^verbatim>\<open>Agent_Dag\<close>, \<^verbatim>\<open>Agent_Verify\<close>, \<^verbatim>\<open>Agent_Executor\<close>,
  \<^verbatim>\<open>Agent_Gate\<close>, \<^verbatim>\<open>Agent_Loop\<close>: \<^verbatim>\<open>dag.py\<close>, \<^verbatim>\<open>verify.py\<close>, \<^verbatim>\<open>executor.py\<close>, \<^verbatim>\<open>safety.py\<close> and
  \<^verbatim>\<open>execution_loop.py\<close> of \<^verbatim>\<open>msb_v3/agent/\<close>. \<^verbatim>\<open>Conv_Contract\<close>, \<^verbatim>\<open>Conv_Predicates\<close>,
  \<^verbatim>\<open>Conv_Executor\<close>: \<^verbatim>\<open>task_contract.py\<close> and \<^verbatim>\<open>executor.py\<close> of \<^verbatim>\<open>msb_v3/conversation/\<close>.
  \<^verbatim>\<open>Conv_Ledger\<close>, \<^verbatim>\<open>Conv_Producers\<close>, \<^verbatim>\<open>Conv_Stream\<close>: \<^verbatim>\<open>producer.py\<close> and
  \<^verbatim>\<open>task_producer.py\<close> there.

  Node and perimeter. \<^verbatim>\<open>Effects\<close>: sequences of store operations that may raise, with the rules for assertions about
  them. \<^verbatim>\<open>Node_Identity\<close>, \<^verbatim>\<open>Node_Files\<close>, \<^verbatim>\<open>Node_Service\<close>: \<^verbatim>\<open>msb_v3/node/\<close>, a device's signed request
  from its session to the verified read. \<^verbatim>\<open>Vesta_Tasks\<close>, \<^verbatim>\<open>Vesta_Evidence\<close>: \<^verbatim>\<open>runtime.py\<close>,
  \<^verbatim>\<open>models.py\<close>, \<^verbatim>\<open>policy.py\<close>, \<^verbatim>\<open>evidence.py\<close> and \<^verbatim>\<open>approvals.py\<close> of \<^verbatim>\<open>msb_v3/vesta/\<close>, the
  stores; \<^verbatim>\<open>Vesta_Write\<close>, \<^verbatim>\<open>Vesta_Shell\<close>, \<^verbatim>\<open>Vesta_Read\<close>: \<^verbatim>\<open>write.py\<close>, \<^verbatim>\<open>shell.py\<close> and
  \<^verbatim>\<open>read.py\<close>, the services over them, which reach the files through \<^verbatim>\<open>Node_Files\<close>; \<^verbatim>\<open>Vesta_Watchdog\<close>:
  \<^verbatim>\<open>approval_watchdog.py\<close>.

  \<^bold>\<open>How state and operations are rendered.\<close> A store is a record of its tables, a table a list of rows in insertion
  order; an operation takes the state and returns it updated with a result. An exception is the left case of a
  \<^verbatim>\<open>result\<close>, a constructor per \<^verbatim>\<open>raise\<close>, with the values its message reports; a transaction that rolls
  back returns the state it got. JSON values keep their keys in order, because texts and hashes depend on it.
  Python integers are \<^typ>\<open>int\<close> or \<^typ>\<open>nat\<close>, floats that are only compared and added are exact
  rationals, floats that are written out are their \<^verbatim>\<open>repr\<close>. Histories of calls are lists of operations, and
  the step relations \<^verbatim>\<open>vault_step\<close>, \<^verbatim>\<open>store_change\<close>, \<^verbatim>\<open>graph_step\<close> and \<^verbatim>\<open>run_effect\<close>
  are inductive.

  \<^bold>\<open>Interfaces.\<close> \<^verbatim>\<open>audit_sink\<close> is what the governed stores ask of an audit chain, interpreted on
  \<^verbatim>\<open>append_chain\<close>. \<^verbatim>\<open>brake\<close> is the contract of the kill switch. \<^verbatim>\<open>keyed_table\<close> is a table with a
  key column, interpreted for approvals, budgets, scopes, jobs, runs, missions, tasks, devices, sessions and evidence.
  \<^verbatim>\<open>lifecycle\<close> is a state machine whose final states stay, interpreted for approvals, missions and both kinds of
  tasks.
  \<^verbatim>\<open>provider_invariant\<close> is what the agent's executor asks of a provider, interpreted on the gated one.
  \<^verbatim>\<open>record_producer\<close> is what the evidence ledger asks of a producer, interpreted on both.

  \<^bold>\<open>What the lemmas show.\<close> For the ledger: appends keep the chain valid, equal heads mean equal histories unless the
  digest collides on the texts at hand, verification reports the first broken record, repair restores validity,
  proofs of inclusion are sound, an anchored history cannot be replaced, revoked keys never verify again, the notary
  heals and mirrors, the migration is sound. For governance: what the guard allows is unarmed, approved and within
  budget, an armed switch blocks until it is disarmed, gated calls are admissible, the inventory agrees with the gate.
  For the work: legal transitions only, every write evidenced, projections that match their events, the heartbeat
  leaves nothing running, tasks run after their parents, the loop ends as it says, verdicts are functions of the
  evidence, a VERIFIED task was checked and stayed in its envelope. For node and perimeter: a signed request executes
  once, revoked devices stay out, reads and writes stay inside the root, the sandbox changes and a process starts only as
  approved and at most once, a rollback restores, histories tell the states of tasks, recorded evidence reads back, and
  the watchdog leaves nothing dangling. For the foundations: serialisation is
  injective, texts round trip. Several theorems state what the code does where a comment promises otherwise.

  \<^bold>\<open>Termination.\<close> No definition uses fuel. Loops over data are structural; the cron search
  \<^verbatim>\<open>next_after\<close> is bounded by the source's own limit on the minutes it tries, and the theorem on its totality
  shows it always answers; the ordering of a graph and the walk up a chain of parents carry their measures.

  \<^bold>\<open>Parameters.\<close> Code outside the repository is an argument: the digest (results that need it say on which texts it
  must not collide), the signature library, the ASN.1 decoder, \<^verbatim>\<open>json.loads\<close> and \<^verbatim>\<open>fromisoformat\<close> where
  text is read back, the elliptic curve, the clock, git, the runner of a task, the provider of a tool, the action of a
  loop, the operating system that runs a command, \<^verbatim>\<open>str()\<close> of a value that is not text.

  \<^bold>\<open>Abbreviations.\<close> Characters are code points below 256. Dashes and arrows in messages are hyphens. Timestamps are
  readings where only their order matters, random identifiers are arguments or counters. Metrics, latencies and log
  lines are left out, and so are locks, fsync and symbolic links; where a file is replaced in steps that matter, the
  steps are modelled. Storage errors enter where an argument of the operation says so: at the INSERT of an append to the
  chain (those of its preflight reads, and the TypeError of a repair token that is not ASCII, are left out), at the COMMIT
  of a mission's write, at the audit and evidence writes of the perimeter; the writes of the other stores, such as the one
  that closes a scheduled run, succeed.

  \<^bold>\<open>Not modelled.\<close> The HTTP interface, the dashboards, the perimeter's routes and its chat adapter, the scripts and command lines: routes and
  views over the components above. The planners, providers, experts, embeddings, speech and browser drivers: calls
  into language models, numerical libraries and devices whose answers are the substance. Heuristics over floating-point
  scores (learning engine, flywheel, energy matrix), whose rounding the sources do not specify. Host maintenance
  (backup, repair, wake, steward), which is shell commands and file moves.
\<close>

end
